(* ===== verification/Prelude.thy ===== *)
theory Prelude
  imports Main "HOL-Library.Word"
begin

unbundle bit_operations_syntax

text \<open>
  The vocabulary shared by all components: machine integers, the ways in which kernel code
  can fail to return, the state monad in which C functions are written, typed heaps, and the
  generic facts on words and maps the component proofs use.
\<close>

section \<open>Machine integers\<close>

type_synonym u8 = "8 word"
type_synonym u16 = "16 word"
type_synonym u32 = "32 word"
type_synonym u64 = "64 word"
type_synonym i32 = "32 word"

abbreviation NULL :: u64 where "NULL \<equiv> 0"

section \<open>Programs\<close>

text \<open>
  A C function is a function of the state that returns a value and a new state, or a
  \<open>fault\<close>: \<open>Bad_Access\<close> when it dereferences an address at which no object of the expected
  type lives, \<open>Assertion_Failed\<close> when \<open>assert\<close> of \<open>kernel/assert.c\<close> stops the machine, and
  \<open>No_Return\<close> when a loop never ends.
\<close>

datatype fault = Bad_Access | Assertion_Failed | No_Return

type_synonym ('s, 'a) prog = "'s \<Rightarrow> fault + ('a \<times> 's)"

named_theorems prog_defs \<open>unfolding rules of the program combinators\<close>

definition ret :: "'a \<Rightarrow> ('s, 'a) prog" where
  "ret x = (\<lambda>s. Inr (x, s))"

definition halt :: "fault \<Rightarrow> ('s, 'a) prog" where
  "halt e = (\<lambda>s. Inl e)"

definition bnd :: "('s, 'a) prog \<Rightarrow> ('a \<Rightarrow> ('s, 'b) prog) \<Rightarrow> ('s, 'b) prog" where
  "bnd m f = (\<lambda>s. case m s of Inl e \<Rightarrow> Inl e | Inr (x, s') \<Rightarrow> f x s')"

definition thn :: "('s, 'a) prog \<Rightarrow> ('s, 'b) prog \<Rightarrow> ('s, 'b) prog" where
  "thn m m' = bnd m (\<lambda>_. m')"

definition rd :: "('s \<Rightarrow> 'a) \<Rightarrow> ('s, 'a) prog" where
  "rd f = (\<lambda>s. Inr (f s, s))"

definition upd :: "('s \<Rightarrow> 's) \<Rightarrow> ('s, unit) prog" where
  "upd f = (\<lambda>s. Inr ((), f s))"

text \<open>\<open>assert(condition)\<close>.\<close>

definition kassert :: "bool \<Rightarrow> ('s, unit) prog" where
  "kassert b = (\<lambda>s. if b then Inr ((), s) else Inl Assertion_Failed)"

text \<open>Reading an object through a pointer, and assigning to fields of it.\<close>

definition deref :: "('s \<Rightarrow> (u64 \<rightharpoonup> 'a)) \<Rightarrow> u64 \<Rightarrow> ('s, 'a) prog" where
  "deref h p = (\<lambda>s. case h s p of None \<Rightarrow> Inl Bad_Access | Some x \<Rightarrow> Inr (x, s))"

definition assign ::
  "('s \<Rightarrow> (u64 \<rightharpoonup> 'a)) \<Rightarrow> (((u64 \<rightharpoonup> 'a) \<Rightarrow> (u64 \<rightharpoonup> 'a)) \<Rightarrow> 's \<Rightarrow> 's) \<Rightarrow> u64 \<Rightarrow> ('a \<Rightarrow> 'a)
     \<Rightarrow> ('s, unit) prog" where
  "assign h h_update p f =
     (\<lambda>s. case h s p of None \<Rightarrow> Inl Bad_Access
        | Some x \<Rightarrow> Inr ((), h_update (\<lambda>m. m(p \<mapsto> f x)) s))"

text \<open>
  The early return: a call whose failure makes the caller return \<open>e\<close>. \<open>within\<close> runs an operation
  of a component on the part of the state that belongs to it.
\<close>

definition attempt :: "('s, 'a option) prog \<Rightarrow> 'b \<Rightarrow> ('a \<Rightarrow> ('s, 'b) prog) \<Rightarrow> ('s, 'b) prog" where
  "attempt m e f = bnd m (\<lambda>r. case r of None \<Rightarrow> ret e | Some x \<Rightarrow> f x)"

definition within ::
  "('s \<Rightarrow> 'c) \<Rightarrow> (('c \<Rightarrow> 'c) \<Rightarrow> 's \<Rightarrow> 's) \<Rightarrow> ('c, 'a) prog \<Rightarrow> ('s, 'a) prog" where
  "within part part_update m = (\<lambda>s. case m (part s) of
     Inl e \<Rightarrow> Inl e | Inr (x, c) \<Rightarrow> Inr (x, part_update (\<lambda>_. c) s))"

text \<open>
  A loop without a bound in its text is a \<^theory_text>\<open>partial_function\<close> into \<open>option\<close>, where
  \<open>None\<close> is the loop that never ends.
\<close>

definition loop :: "(fault + 'a) option \<Rightarrow> fault + 'a" where
  "loop r = (case r of None \<Rightarrow> Inl No_Return | Some x \<Rightarrow> x)"

lemma ret_run [simp]: "ret x s = Inr (x, s)"
  by (simp add: ret_def)

lemma halt_run [simp]: "halt e s = Inl e"
  by (simp add: halt_def)

lemma bnd_run [simp]:
  "bnd m f s = (case m s of Inl e \<Rightarrow> Inl e | Inr (x, s') \<Rightarrow> f x s')"
  by (simp add: bnd_def)

lemma thn_run [simp]:
  "thn m m' s = (case m s of Inl e \<Rightarrow> Inl e | Inr (x, s') \<Rightarrow> m' s')"
  by (simp add: thn_def)

lemma rd_run [simp]: "rd f s = Inr (f s, s)"
  by (simp add: rd_def)

lemma upd_run [simp]: "upd f s = Inr ((), f s)"
  by (simp add: upd_def)

lemma kassert_run [simp]:
  "kassert b s = (if b then Inr ((), s) else Inl Assertion_Failed)"
  by (simp add: kassert_def)

lemma deref_run [simp]:
  "deref h p s = (case h s p of None \<Rightarrow> Inl Bad_Access | Some x \<Rightarrow> Inr (x, s))"
  by (simp add: deref_def)

lemma assign_run [simp]:
  "assign h u p f s =
     (case h s p of None \<Rightarrow> Inl Bad_Access | Some x \<Rightarrow> Inr ((), u (\<lambda>m. m(p \<mapsto> f x)) s))"
  by (simp add: assign_def)

lemma attempt_run [simp]:
  "attempt m e f s = (case m s of Inl x \<Rightarrow> Inl x | Inr (None, s') \<Rightarrow> Inr (e, s') | Inr (Some y, s') \<Rightarrow> f y s')"
  by (simp add: attempt_def split: sum.splits option.splits)

lemma within_run [simp]:
  "within h u m s = (case m (h s) of Inl e \<Rightarrow> Inl e | Inr (x, c) \<Rightarrow> Inr (x, u (\<lambda>_. c) s))"
  by (simp add: within_def)

lemma loop_simps [simp]: "loop None = Inl No_Return" "loop (Some x) = x"
  by (simp_all add: loop_def)

lemmas prog_def_bundle = ret_def halt_def bnd_def thn_def rd_def upd_def kassert_def
  deref_def assign_def attempt_def within_def

text \<open>A run that returns splits into the runs of its parts.\<close>

lemma bnd_InrE:
  assumes "bnd m f s = Inr (y, t)"
  obtains x s' where "m s = Inr (x, s')" and "f x s' = Inr (y, t)"
  using assms by (auto split: sum.splits)

lemma thn_split: "thn a b s = Inr (x, t) \<Longrightarrow> thn a (thn b c) s = c t"
  by (auto split: sum.splits)

section \<open>Preservation\<close>

text \<open>
  \<open>preserves P m\<close>: when the program \<open>m\<close> returns, \<open>P\<close> holds afterwards if it held before. The
  rules follow the combinators, so that a frame property of a whole operation is proved by
  \<open>intro preserves\<close>.
\<close>

named_theorems preserves \<open>introduction rules for preservation\<close>

definition preserves :: "('s \<Rightarrow> bool) \<Rightarrow> ('s, 'a) prog \<Rightarrow> bool" where
  "preserves P m \<longleftrightarrow> (\<forall>s x s'. P s \<longrightarrow> m s = Inr (x, s') \<longrightarrow> P s')"

lemma preservesI: "(\<And>s x s'. P s \<Longrightarrow> m s = Inr (x, s') \<Longrightarrow> P s') \<Longrightarrow> preserves P m"
  unfolding preserves_def by blast

lemma preservesD: "preserves P m \<Longrightarrow> P s \<Longrightarrow> m s = Inr (x, s') \<Longrightarrow> P s'"
  unfolding preserves_def by blast

lemma preserves_ret [preserves]: "preserves P (ret x)"
  by (simp add: preserves_def)

lemma preserves_halt [preserves]: "preserves P (halt e)"
  by (simp add: preserves_def)

lemma preserves_rd [preserves]: "preserves P (rd f)"
  by (simp add: preserves_def)

lemma preserves_kassert [preserves]: "preserves P (kassert b)"
  by (simp add: preserves_def)

lemma preserves_kassert_at [preserves]: "preserves P (\<lambda>s. kassert (b s) s)"
  by (simp add: preserves_def)

lemma preserves_deref [preserves]: "preserves P (deref h p)"
  by (simp add: preserves_def split: option.splits)

lemma preserves_upd [preserves]: "(\<And>s. P s \<Longrightarrow> P (f s)) \<Longrightarrow> preserves P (upd f)"
  by (simp add: preserves_def)

lemma preserves_bnd [preserves]:
  "preserves P m \<Longrightarrow> (\<And>x. preserves P (f x)) \<Longrightarrow> preserves P (bnd m f)"
  by (rule preservesI) (blast elim: bnd_InrE dest: preservesD)

lemma preserves_thn [preserves]: "preserves P m \<Longrightarrow> preserves P m' \<Longrightarrow> preserves P (thn m m')"
  unfolding thn_def by (rule preserves_bnd)

lemma preserves_attempt [preserves]:
  "preserves P m \<Longrightarrow> (\<And>x. preserves P (f x)) \<Longrightarrow> preserves P (attempt m e f)"
  unfolding attempt_def by (rule preserves_bnd) (auto intro: preserves_ret split: option.split)

lemma preserves_if [preserves]:
  "(b \<Longrightarrow> preserves P m) \<Longrightarrow> (\<not> b \<Longrightarrow> preserves P m') \<Longrightarrow> preserves P (if b then m else m')"
  by simp

lemma preserves_option [preserves]:
  "preserves P m \<Longrightarrow> (\<And>x. preserves P (f x)) \<Longrightarrow> preserves P (case y of None \<Rightarrow> m | Some x \<Rightarrow> f x)"
  by (simp split: option.splits)

lemma preserves_pair [preserves]:
  "(\<And>x y. preserves P (f x y)) \<Longrightarrow> preserves P (case z of (x, y) \<Rightarrow> f x y)"
  by (simp split: prod.splits)

lemma preserves_let [preserves]: "(\<And>x. preserves P (f x)) \<Longrightarrow> preserves P (let x = y in f x)"
  by simp

text \<open>\<open>yields P Q m\<close>: moreover the value returned satisfies \<open>Q\<close>.\<close>

definition yields :: "('s \<Rightarrow> bool) \<Rightarrow> ('a \<Rightarrow> bool) \<Rightarrow> ('s, 'a) prog \<Rightarrow> bool" where
  "yields P Q m \<longleftrightarrow> (\<forall>s x s'. P s \<longrightarrow> m s = Inr (x, s') \<longrightarrow> P s' \<and> Q x)"

lemma yieldsD: "yields P Q m \<Longrightarrow> P s \<Longrightarrow> m s = Inr (x, s') \<Longrightarrow> P s' \<and> Q x"
  unfolding yields_def by blast

lemma yields_imp: "yields P Q m \<Longrightarrow> preserves P m"
  unfolding yields_def preserves_def by blast

lemma yields_ret: "Q x \<Longrightarrow> yields P Q (ret x)"
  by (simp add: yields_def)

lemma yields_bnd:
  assumes "yields P R m" "\<And>x. R x \<Longrightarrow> yields P Q (f x)" shows "yields P Q (bnd m f)"
  unfolding yields_def
proof (intro allI impI)
  fix s y t assume "P s" "bnd m f s = Inr (y, t)"
  then show "P t \<and> Q y" using assms unfolding yields_def by (elim bnd_InrE) blast
qed

lemma yields_preserves: "preserves P m \<Longrightarrow> yields P (\<lambda>_. True) m"
  by (simp add: yields_def preserves_def)

lemma yields_then: "preserves P m \<Longrightarrow> (\<And>x. yields P Q (f x)) \<Longrightarrow> yields P Q (bnd m f)"
  by (blast intro: yields_bnd yields_preserves)

lemma yields_thn: "preserves P m \<Longrightarrow> yields P Q m' \<Longrightarrow> yields P Q (thn m m')"
  unfolding thn_def by (rule yields_then)

lemma yields_attempt:
  assumes "preserves P m" "Q e" "\<And>x. yields P Q (f x)" shows "yields P Q (attempt m e f)"
  unfolding attempt_def using assms by (intro yields_then) (auto intro: yields_ret split: option.split)

lemma yields_if: "(b \<Longrightarrow> yields P Q m) \<Longrightarrow> (\<not> b \<Longrightarrow> yields P Q m') \<Longrightarrow> yields P Q (if b then m else m')"
  by simp

lemmas yields_rules = yields_ret yields_attempt yields_then yields_thn yields_if preserves_rd

section \<open>Words\<close>

named_theorems word_nat \<open>words read as natural numbers\<close>

lemmas [word_nat] = word_less_nat_alt word_le_nat_alt word_unat_eq_iff

lemma unat_add_no_wrap:
  fixes x y :: "'a::len word"
  shows "unat x + unat y < 2 ^ LENGTH('a) \<Longrightarrow> unat (x + y) = unat x + unat y"
  by (simp add: unat_word_ariths)

lemma unat_sub_no_wrap:
  fixes x y :: "'a::len word"
  shows "unat y \<le> unat x \<Longrightarrow> unat (x - y) = unat x - unat y"
  by (simp add: unat_sub word_le_nat_alt)

lemma unat_mult_no_wrap:
  fixes x y :: "'a::len word"
  shows "unat x * unat y < 2 ^ LENGTH('a) \<Longrightarrow> unat (x * y) = unat x * unat y"
  by (simp add: unat_word_ariths)

lemma unat_lt_64 [simp]: "unat (x :: u64) < 18446744073709551616"
  using unsigned_less [of x] by simp

lemma unat_of_nat_64: "n < 2 ^ 64 \<Longrightarrow> unat (of_nat n :: u64) = n"
  by (simp add: unat_of_nat take_bit_nat_eq_self)

lemma of_nat_64_inject: "m < 2 ^ 64 \<Longrightarrow> n < 2 ^ 64 \<Longrightarrow> (of_nat m :: u64) = of_nat n \<longleftrightarrow> m = n"
  by (metis unat_of_nat_64)

lemma unat_push_bit_no_wrap:
  fixes x :: "'a::len word"
  assumes "unat x * 2 ^ n < 2 ^ LENGTH('a)"
  shows "unat (push_bit n x) = unat x * 2 ^ n"
  unfolding unsigned_push_bit_eq using assms by (simp add: push_bit_eq_mult take_bit_nat_eq_self)

lemma unat_drop_bit: "unat (drop_bit n (x :: 'a::len word)) = unat x div 2 ^ n"
  by (simp only: unat_drop_bit_eq drop_bit_eq_div [where 'a = nat])

lemma unat_and_mask: "unat (x AND mask n :: 'a::len word) = unat x mod 2 ^ n"
  unfolding take_bit_eq_mask [symmetric] unsigned_take_bit_eq by (simp add: take_bit_eq_mod)

section \<open>Maps\<close>

lemma map_upd_other [simp]: "p \<noteq> q \<Longrightarrow> (m(p \<mapsto> x)) q = m q"
  by simp

text \<open>
  A field of the objects of a typed heap as a total function of the address, and the relation
  between two heaps whose objects agree in the part \<open>g\<close>.
\<close>

definition fld :: "('a \<Rightarrow> 'b::zero) \<Rightarrow> (u64 \<rightharpoonup> 'a) \<Rightarrow> u64 \<Rightarrow> 'b" where
  "fld f m p = (case m p of None \<Rightarrow> 0 | Some h \<Rightarrow> f h)"

lemma fld_Some: "m p = Some h \<Longrightarrow> fld f m p = f h"
  by (simp add: fld_def)

lemma fld_upd [simp]: "fld f (m(p \<mapsto> h)) = (fld f m)(p := f h)"
  by (auto simp: fld_def)

lemma fld_upd_same: "m p = Some h \<Longrightarrow> f h' = f h \<Longrightarrow> (fld f m)(p := f h') = fld f m"
  by (auto simp: fld_def)

definition same :: "('a \<Rightarrow> 'b) \<Rightarrow> (u64 \<rightharpoonup> 'a) \<Rightarrow> (u64 \<rightharpoonup> 'a) \<Rightarrow> bool" where
  "same g m m' \<longleftrightarrow> (\<forall>p. map_option g (m' p) = map_option g (m p))"

lemma same_refl [simp]: "same g m m"
  by (simp add: same_def)

lemma same_trans: "same g m m' \<Longrightarrow> same g m' m'' \<Longrightarrow> same g m m''"
  by (simp add: same_def)

lemma same_upd: "m p = Some h \<Longrightarrow> g h' = g h \<Longrightarrow> same g m (m(p \<mapsto> h'))"
  by (simp add: same_def)

lemma same_upd2: "m p = Some h \<Longrightarrow> m q = Some k \<Longrightarrow> g h' = g h \<Longrightarrow> g k' = g k \<Longrightarrow>
    same g m (m(p \<mapsto> h', q \<mapsto> k'))"
  by (simp add: same_def)

lemma same_Some: "same g m m' \<Longrightarrow> m p = Some h \<Longrightarrow> \<exists>h'. m' p = Some h' \<and> g h' = g h"
  unfolding same_def by (metis map_option_eq_Some)

lemma same_None: "same g m m' \<Longrightarrow> m' p = None \<longleftrightarrow> m p = None"
  unfolding same_def by (metis map_option_is_None)

lemma same_fld: "same g m m' \<Longrightarrow> (\<And>h h'. g h = g h' \<Longrightarrow> f h = f h') \<Longrightarrow> fld f m' = fld f m"
proof (rule ext)
  fix p assume *: "same g m m'" "\<And>h h'. g h = g h' \<Longrightarrow> f h = f h'"
  then have "map_option g (m' p) = map_option g (m p)" by (simp add: same_def)
  then show "fld f m' p = fld f m p" by (cases "m p"; cases "m' p") (auto simp: fld_def intro: *(2))
qed

lemma preserves_same_assign [preserves]:
  assumes "\<And>x. g (f x) = g x" "\<And>u s. h (h_update u s) = u (h s)"
  shows "preserves (\<lambda>s. same g m (h s)) (assign h h_update p f)"
proof (rule preservesI)
  fix s x s' assume s: "same g m (h s)" and run: "assign h h_update p f s = Inr (x, s')"
  from run obtain y where y: "h s p = Some y" "s' = h_update (\<lambda>m. m(p \<mapsto> f y)) s" by (auto split: option.splits)
  then have "h s' = (h s)(p \<mapsto> f y)" using assms(2) by (simp add: fun_eq_iff)
  then have "same g (h s) (h s')" using same_upd [of "h s" p y g "f y"] y(1) assms(1) by metis
  with s show "same g m (h s')" by (rule same_trans)
qed

end
