(* ===== verification/Dll.thy ===== *)
theory Dll
  imports Prelude
begin

text \<open>
  Doubly linked lists seen through their two pointer fields. \<open>nx\<close> and \<open>pv\<close> read the
  next and previous pointers of a node; both are total functions here, a component supplies
  them from its typed heap. \<open>dseg nx pv b x ps l e\<close> says that from \<open>x\<close> the nodes \<open>ps\<close> are
  linked in this order, with \<open>b\<close> before the first node and \<open>l\<close> the last node, whose successor
  is \<open>e\<close>. The run queue, the message queues, the chains of the hash table and both lists of the
  block allocator are instances.
\<close>

fun dseg :: "(u64 \<Rightarrow> u64) \<Rightarrow> (u64 \<Rightarrow> u64) \<Rightarrow> u64 \<Rightarrow> u64 \<Rightarrow> u64 list \<Rightarrow> u64 \<Rightarrow> u64 \<Rightarrow> bool" where
  "dseg nx pv b x [] l e \<longleftrightarrow> x = e \<and> b = l"
| "dseg nx pv b x (p # ps) l e \<longleftrightarrow> x = p \<and> p \<noteq> 0 \<and> pv p = b \<and> dseg nx pv p (nx p) ps l e"

definition dll :: "(u64 \<Rightarrow> u64) \<Rightarrow> (u64 \<Rightarrow> u64) \<Rightarrow> u64 \<Rightarrow> u64 \<Rightarrow> u64 list \<Rightarrow> bool" where
  "dll nx pv h t ps \<longleftrightarrow> dseg nx pv 0 h ps t 0"

section \<open>Segments\<close>

lemma dseg_append:
  "dseg nx pv b x (ps @ qs) l e \<longleftrightarrow>
     (\<exists>m y. dseg nx pv b x ps m y \<and> dseg nx pv m y qs l e)"
  by (induction ps arbitrary: b x) auto

lemma dseg_snoc:
  "dseg nx pv b x (ps @ [p]) l e \<longleftrightarrow>
     l = p \<and> p \<noteq> 0 \<and> nx p = e \<and> dseg nx pv b x ps (pv p) p"
  by (auto simp: dseg_append)

lemma dseg_cong:
  assumes "\<And>p. p \<in> set ps \<Longrightarrow> nx p = nx' p" and "\<And>p. p \<in> set ps \<Longrightarrow> pv p = pv' p"
  shows "dseg nx pv b x ps l e = dseg nx' pv' b x ps l e"
  using assms by (induction ps arbitrary: b x) auto

lemma dseg_upd_nx [simp]: "q \<notin> set ps \<Longrightarrow> dseg (nx(q := v)) pv b x ps l e = dseg nx pv b x ps l e"
  by (rule dseg_cong) auto

lemma dseg_upd_pv [simp]: "q \<notin> set ps \<Longrightarrow> dseg nx (pv(q := v)) b x ps l e = dseg nx pv b x ps l e"
  by (rule dseg_cong) auto

lemma dseg_nonnull: "dseg nx pv b x ps l e \<Longrightarrow> p \<in> set ps \<Longrightarrow> p \<noteq> 0"
  by (induction ps arbitrary: b x) auto

lemma dseg_first: "dseg nx pv b x ps l e \<Longrightarrow> x = (if ps = [] then e else hd ps)"
  by (cases ps) auto

lemma dseg_last: "dseg nx pv b x ps l e \<Longrightarrow> l = (if ps = [] then b else last ps)"
  by (induction ps arbitrary: b x) (auto split: if_splits)

lemma dseg_link:
  "dseg nx pv b x (ps @ p # q # qs) l e \<Longrightarrow> nx p = q \<and> pv q = p"
  by (auto simp: dseg_append)

section \<open>Whole lists\<close>

lemma dll_Nil [simp]: "dll nx pv h t [] \<longleftrightarrow> h = 0 \<and> t = 0"
  by (auto simp: dll_def)

lemma dll_head: "dll nx pv h t ps \<Longrightarrow> h = (if ps = [] then 0 else hd ps)"
  unfolding dll_def by (rule dseg_first)

lemma dll_tail: "dll nx pv h t ps \<Longrightarrow> t = (if ps = [] then 0 else last ps)"
  unfolding dll_def by (rule dseg_last)

lemma dll_nonnull: "dll nx pv h t ps \<Longrightarrow> 0 \<notin> set ps"
  by (auto simp: dll_def dest: dseg_nonnull)

lemma dll_head_null: "dll nx pv h t ps \<Longrightarrow> h = 0 \<longleftrightarrow> ps = []"
  by (metis dll_head dll_nonnull hd_in_set)

lemma dll_tail_null: "dll nx pv h t ps \<Longrightarrow> t = 0 \<longleftrightarrow> ps = []"
  by (metis dll_tail dll_nonnull last_in_set)

lemma dll_cong:
  assumes "\<And>p. p \<in> set ps \<Longrightarrow> nx p = nx' p" and "\<And>p. p \<in> set ps \<Longrightarrow> pv p = pv' p"
  shows "dll nx pv h t ps = dll nx' pv' h t ps"
  unfolding dll_def by (rule dseg_cong) (auto simp: assms)

lemma dll_upd_nx [simp]: "q \<notin> set ps \<Longrightarrow> dll (nx(q := v)) pv h t ps = dll nx pv h t ps"
  by (simp add: dll_def)

lemma dll_upd_pv [simp]: "q \<notin> set ps \<Longrightarrow> dll nx (pv(q := v)) h t ps = dll nx pv h t ps"
  by (simp add: dll_def)

text \<open>The next pointer determines the rest of the list, so no node occurs twice.\<close>

lemma dseg_null_unique:
  "dseg nx pv b x ps l 0 \<Longrightarrow> dseg nx pv' b' x qs l' 0 \<Longrightarrow> ps = qs"
proof (induction ps arbitrary: b b' x qs)
  case Nil
  then show ?case by (cases qs) auto
next
  case (Cons p ps)
  then show ?case by (cases qs) auto
qed

lemma dseg_null_distinct: "dseg nx pv b x ps l 0 \<Longrightarrow> distinct ps"
proof (induction ps arbitrary: b x)
  case (Cons p ps)
  have "p \<notin> set ps"
  proof
    assume "p \<in> set ps"
    then obtain us vs where ps: "ps = us @ p # vs" by (auto dest: split_list)
    with Cons.prems obtain b' where "dseg nx pv b' p (p # vs) l 0"
      by (auto simp: dseg_append)
    moreover have "dseg nx pv b p (p # ps) l 0" using Cons.prems by auto
    ultimately have "p # vs = p # ps" by (rule dseg_null_unique)
    with ps show False by simp
  qed
  with Cons show ?case by auto
qed simp

lemma dll_distinct: "dll nx pv h t ps \<Longrightarrow> distinct ps"
  unfolding dll_def by (rule dseg_null_distinct)

lemma dll_prev:
  assumes "dll nx pv h t (ps @ p # qs)"
  shows "pv p = (if ps = [] then 0 else last ps)"
  using assms by (auto simp: dll_def dseg_append dest!: dseg_last)

lemma dll_next:
  assumes "dll nx pv h t (ps @ p # qs)"
  shows "nx p = (if qs = [] then 0 else hd qs)"
  using assms by (auto simp: dll_def dseg_append dest!: dseg_first)

section \<open>The pointer updates of the code\<close>

lemma dll_singleton: "p \<noteq> 0 \<Longrightarrow> nx p = 0 \<Longrightarrow> pv p = 0 \<Longrightarrow> dll nx pv p p [p]"
  by (simp add: dll_def)

text \<open>Appending behind the tail.\<close>

lemma dll_append_tail:
  assumes "dll nx pv h t ps" "t \<noteq> 0" "q \<noteq> 0" "q \<notin> set ps" "nx q = 0"
  shows "dll (nx(t := q)) (pv(q := t)) h q (ps @ [q])"
proof -
  obtain us where ps: "ps = us @ [t]"
    using assms dll_tail_null [OF assms(1)] dll_tail [OF assms(1)]
    by (metis append_butlast_last_id)
  have "distinct ps" using assms(1) by (rule dll_distinct)
  with assms ps show ?thesis
    by (auto simp: dll_def dseg_append)
qed

text \<open>Pushing in front of the head.\<close>

lemma dll_push_front:
  assumes "dll nx pv h t ps" "q \<noteq> 0" "q \<notin> set ps"
  shows "dll (nx(q := h)) (if h = 0 then pv(q := 0) else (pv(q := 0))(h := q))
           q (if h = 0 then q else t) (q # ps)"
proof (cases ps)
  case Nil
  with assms show ?thesis by (auto simp: dll_def)
next
  case (Cons p ps')
  have "distinct ps" using assms(1) by (rule dll_distinct)
  with assms Cons show ?thesis by (auto simp: dll_def)
qed

text \<open>Unlinking a node: its neighbours, or the ends of the list, are joined.\<close>

lemma dll_unlink:
  assumes "dll nx pv h t (ps @ p # qs)"
  shows "dll (if pv p = 0 then nx else nx(pv p := nx p))
             (if nx p = 0 then pv else pv(nx p := pv p))
             (if pv p = 0 then nx p else h)
             (if nx p = 0 then pv p else t) (ps @ qs)"
proof -
  note d = dll_distinct [OF assms] and nn = dll_nonnull [OF assms]
  have "ps = [] \<or> (\<exists>us u. ps = us @ [u])" by (meson rev_exhaust)
  moreover have "qs = [] \<or> (\<exists>v vs. qs = v # vs)" by (meson neq_Nil_conv)
  ultimately show ?thesis
    using assms d nn by (elim disjE exE) (auto simp: dll_def dseg_append dseg_snoc)
qed

text \<open>Inserting a node behind one that is in the list.\<close>

lemma dll_insert_after:
  assumes "dll nx pv h t (ps @ p # qs)" "q \<noteq> 0" "q \<notin> set (ps @ p # qs)"
  shows "dll (nx(p := q, q := nx p))
             (if nx p = 0 then pv(q := p) else pv(q := p, nx p := q))
             h (if nx p = 0 then q else t) (ps @ p # q # qs)"
proof -
  note d = dll_distinct [OF assms(1)] and nn = dll_nonnull [OF assms(1)]
  have "qs = [] \<or> (\<exists>v vs. qs = v # vs)" by (meson neq_Nil_conv)
  then show ?thesis
    using assms d nn by (elim disjE exE) (auto simp: dll_def dseg_append)
qed

end
