(* ===== verification/Machine.thy ===== *)
theory Machine
  imports Prelude
begin

text \<open>
  What the memory-management components see of the machine: physical memory, as the 64-bit words
  at word-aligned physical addresses; the translation registers; and the meaning of a kernel
  pointer into a page-table page.

  A pointer is dereferenced through the translation that is active. Before
  \<open>mmap_init\<close> has finished that is the loader's identity map of physical memory; afterwards it is
  the direct map, a window of 16 GB at \<open>MMAP_VIRTUAL_BASE_ADDRESS\<close> (\<open>kernel/mmap.c\<close>), and a
  pointer outside the window reaches no page table. \<open>Mmap\<close> shows that the tables built by
  \<open>mmap_build_ttbr1_table\<close> implement this window.
\<close>

abbreviation MMAP_VIRTUAL_BASE_ADDRESS :: u64 where
  "MMAP_VIRTUAL_BASE_ADDRESS \<equiv> 0xFFFF500000000000"

abbreviation MMAP_PHYSICAL_REGION_SIZE :: u64 where
  "MMAP_PHYSICAL_REGION_SIZE \<equiv> 0x400000000"

abbreviation MMAP_GRANULE_SIZE :: u64 where
  "MMAP_GRANULE_SIZE \<equiv> 4096"

record machine =
  phys :: "u64 \<Rightarrow> u64"
  g_mmap_initialized :: bool
  tcr_el1 :: u64
  ttbr0_el1 :: u64
  ttbr1_el1 :: u64

definition pointer_target :: "'a machine_scheme \<Rightarrow> u64 \<Rightarrow> u64 option" where
  "pointer_target s p =
     (if \<not> g_mmap_initialized s then Some p
      else if p - MMAP_VIRTUAL_BASE_ADDRESS < MMAP_PHYSICAL_REGION_SIZE
      then Some (p - MMAP_VIRTUAL_BASE_ADDRESS) else None)"

definition load :: "u64 \<Rightarrow> ('a machine_scheme, u64) prog" where
  "load p = (\<lambda>s. case pointer_target s p of
     None \<Rightarrow> Inl Bad_Access | Some a \<Rightarrow> Inr (phys s a, s))"

definition store :: "u64 \<Rightarrow> u64 \<Rightarrow> ('a machine_scheme, unit) prog" where
  "store p w = (\<lambda>s. case pointer_target s p of
     None \<Rightarrow> Inl Bad_Access | Some a \<Rightarrow> Inr ((), s\<lparr>phys := (phys s)(a := w)\<rparr>))"

text \<open>\<open>memory_set(p, 0, MMAP_GRANULE_SIZE)\<close> of a page that starts at \<open>p\<close>.\<close>

definition zero_page :: "u64 \<Rightarrow> (u64 \<Rightarrow> u64) \<Rightarrow> (u64 \<Rightarrow> u64)" where
  "zero_page a ph = (\<lambda>b. if b - a < MMAP_GRANULE_SIZE then 0 else ph b)"

definition clear_page :: "u64 \<Rightarrow> ('a machine_scheme, unit) prog" where
  "clear_page p = (\<lambda>s. case pointer_target s p of
     None \<Rightarrow> Inl Bad_Access | Some a \<Rightarrow> Inr ((), s\<lparr>phys := zero_page a (phys s)\<rparr>))"

lemma preserves_load [preserves]: "preserves P (load p)"
  by (simp add: preserves_def load_def split: option.splits)

lemma preserves_store [preserves]:
  "(\<And>s ph. P s \<Longrightarrow> P (s\<lparr>phys := ph\<rparr>)) \<Longrightarrow> preserves P (store p w)"
  by (auto simp: preserves_def store_def split: option.splits)

lemma preserves_clear_page [preserves]:
  "(\<And>s ph. P s \<Longrightarrow> P (s\<lparr>phys := ph\<rparr>)) \<Longrightarrow> preserves P (clear_page p)"
  by (auto simp: preserves_def clear_page_def split: option.splits)

end
