(* ===== verification/Vmap.thy ===== *)
theory Vmap
  imports Machine
begin

text \<open>
  Page tables, \<open>kernel/vmap.c\<close>: building four-level translation tables and walking them in
  software. The vmap carries two function pointers, the source of new table pages and the
  conversion of physical addresses to kernel pointers; they are fields of the model's record as
  well, and \<open>page_source\<close> is the contract the two providers (\<open>Mmap\<close> and \<open>Address_Space\<close>) satisfy.

  \<open>walk\<close> is the specification, the translation a table stands for. The file shows that the
  software walk computes it, and that the three mapping operations change it at the mapped page
  or block and nowhere else. \<open>mmu_walk\<close> is what the translation hardware makes of the same tables; the
  two agree on tables that are \<open>proper\<close>, and the mapping operations keep tables proper.
\<close>

section \<open>Operations\<close>

abbreviation TBL_ENTRY_VALID :: u64 where "TBL_ENTRY_VALID \<equiv> 1"
abbreviation TBL_ENTRY_TABLE :: u64 where "TBL_ENTRY_TABLE \<equiv> 2"
abbreviation TBL_ENTRY_BLOCK :: u64 where "TBL_ENTRY_BLOCK \<equiv> 0"
abbreviation TBL_ENTRY_ADDR_MASK :: u64 where "TBL_ENTRY_ADDR_MASK \<equiv> 0x0000FFFFFFFFF000"
abbreviation TBL_L1_BLOCK_SIZE :: u64 where "TBL_L1_BLOCK_SIZE \<equiv> 0x40000000"
abbreviation TBL_L2_BLOCK_SIZE :: u64 where "TBL_L2_BLOCK_SIZE \<equiv> 0x200000"
abbreviation PAGE_FLAG_ACCESS :: u64 where "PAGE_FLAG_ACCESS \<equiv> 0x400"

abbreviation TBL_ENTRY_L1_BLOCK_ADDR_MASK :: u64 where
  "TBL_ENTRY_L1_BLOCK_ADDR_MASK \<equiv> TBL_ENTRY_ADDR_MASK AND NOT (TBL_L1_BLOCK_SIZE - 1)"
abbreviation TBL_ENTRY_L2_BLOCK_ADDR_MASK :: u64 where
  "TBL_ENTRY_L2_BLOCK_ADDR_MASK \<equiv> TBL_ENTRY_ADDR_MASK AND NOT (TBL_L2_BLOCK_SIZE - 1)"

definition L0_INDEX :: "u64 \<Rightarrow> u64" where
  "L0_INDEX virtual_address = drop_bit 39 virtual_address AND 0x1FF"
definition L1_INDEX :: "u64 \<Rightarrow> u64" where
  "L1_INDEX virtual_address = drop_bit 30 virtual_address AND 0x1FF"
definition L2_INDEX :: "u64 \<Rightarrow> u64" where
  "L2_INDEX virtual_address = drop_bit 21 virtual_address AND 0x1FF"
definition L3_INDEX :: "u64 \<Rightarrow> u64" where
  "L3_INDEX virtual_address = drop_bit 12 virtual_address AND 0x1FF"

record 's vmap =
  root_page_table :: u64
  alloc_page :: "('s, u64) prog"
  physical_to_virtual :: "'s \<Rightarrow> u64 \<Rightarrow> u64"

definition vmap_init :: "('s, u64) prog \<Rightarrow> ('s \<Rightarrow> u64 \<Rightarrow> u64) \<Rightarrow> 's vmap" where
  "vmap_init alloc p2v = \<lparr>root_page_table = 0, alloc_page = alloc, physical_to_virtual = p2v\<rparr>"

text \<open>
  The start of the mapping functions: the root table, allocated on first use. Each function
  returns its result together with the vmap, whose root it may have set.
\<close>

definition vmap_root :: "'a machine_scheme vmap \<Rightarrow> ('a machine_scheme, 'a machine_scheme vmap option) prog" where
  "vmap_root vmap =
     (if root_page_table vmap = NULL then
        bnd (alloc_page vmap) (\<lambda>ttbr_table.
          if ttbr_table = NULL then ret None
          else ret (Some (vmap\<lparr>root_page_table := ttbr_table\<rparr>)))
      else ret (Some vmap))"

text \<open>
  One level: the entry of \<open>index\<close> in the table at physical address \<open>table\<close>, after a missing
  entry has been filled with a new table.
\<close>

definition vmap_next_entry ::
  "'a machine_scheme vmap \<Rightarrow> u64 \<Rightarrow> u64 \<Rightarrow> ('a machine_scheme, u64 option) prog" where
  "vmap_next_entry vmap table index =
     bnd (rd (\<lambda>s. physical_to_virtual vmap s table)) (\<lambda>page_table.
     bnd (load (page_table + 8 * index)) (\<lambda>entry.
     if entry AND TBL_ENTRY_VALID = 0 then
       bnd (alloc_page vmap) (\<lambda>new_table.
       if new_table = NULL then ret None
       else
         thn (store (page_table + 8 * index)
               (TBL_ENTRY_VALID OR TBL_ENTRY_TABLE OR (new_table AND TBL_ENTRY_ADDR_MASK)))
        (bnd (load (page_table + 8 * index)) (\<lambda>new_entry. ret (Some new_entry))))
     else ret (Some entry)))"

definition vmap_map_page ::
  "'a machine_scheme vmap \<Rightarrow> u64 \<Rightarrow> u64 \<Rightarrow> u64
     \<Rightarrow> ('a machine_scheme, int \<times> 'a machine_scheme vmap) prog" where
  "vmap_map_page vmap0 physical_address virtual_address page_flags =
     attempt (vmap_root vmap0) (-1, vmap0) (\<lambda>vmap.
     attempt (vmap_next_entry vmap (root_page_table vmap) (L0_INDEX virtual_address)) (-1, vmap) (\<lambda>l0_entry.
     attempt (vmap_next_entry vmap (l0_entry AND TBL_ENTRY_ADDR_MASK) (L1_INDEX virtual_address)) (-1, vmap) (\<lambda>l1_entry.
     attempt (vmap_next_entry vmap (l1_entry AND TBL_ENTRY_ADDR_MASK) (L2_INDEX virtual_address)) (-1, vmap) (\<lambda>l2_entry.
     bnd (rd (\<lambda>s. physical_to_virtual vmap s (l2_entry AND TBL_ENTRY_ADDR_MASK))) (\<lambda>l2_page_table.
     thn (store (l2_page_table + 8 * L3_INDEX virtual_address)
            (TBL_ENTRY_VALID OR TBL_ENTRY_TABLE OR PAGE_FLAG_ACCESS OR page_flags OR
             (physical_address AND TBL_ENTRY_ADDR_MASK)))
         (ret (0, vmap)))))))"

definition vmap_map_l1_block ::
  "'a machine_scheme vmap \<Rightarrow> u64 \<Rightarrow> u64 \<Rightarrow> u64
     \<Rightarrow> ('a machine_scheme, int \<times> 'a machine_scheme vmap) prog" where
  "vmap_map_l1_block vmap0 virtual_address physical_address page_flags =
     (if virtual_address mod TBL_L1_BLOCK_SIZE \<noteq> 0 then ret (-1, vmap0)
      else if physical_address mod TBL_L1_BLOCK_SIZE \<noteq> 0 then ret (-1, vmap0)
      else
        attempt (vmap_root vmap0) (-1, vmap0) (\<lambda>vmap.
        attempt (vmap_next_entry vmap (root_page_table vmap) (L0_INDEX virtual_address)) (-1, vmap) (\<lambda>l0_entry.
        if l0_entry AND TBL_ENTRY_TABLE = 0 then ret (-1, vmap)
        else
          bnd (rd (\<lambda>s. physical_to_virtual vmap s (l0_entry AND TBL_ENTRY_ADDR_MASK))) (\<lambda>l1_page_table.
          bnd (load (l1_page_table + 8 * L1_INDEX virtual_address)) (\<lambda>l1_entry.
          if l1_entry AND TBL_ENTRY_VALID = 0 then
            thn (store (l1_page_table + 8 * L1_INDEX virtual_address)
                   (TBL_ENTRY_VALID OR TBL_ENTRY_BLOCK OR PAGE_FLAG_ACCESS OR page_flags OR
                    (physical_address AND TBL_ENTRY_L1_BLOCK_ADDR_MASK)))
                (ret (0, vmap))
          else ret (-1, vmap))))))"

definition vmap_map_l2_block ::
  "'a machine_scheme vmap \<Rightarrow> u64 \<Rightarrow> u64 \<Rightarrow> u64
     \<Rightarrow> ('a machine_scheme, int \<times> 'a machine_scheme vmap) prog" where
  "vmap_map_l2_block vmap0 virtual_address physical_address page_flags =
     (if virtual_address mod TBL_L2_BLOCK_SIZE \<noteq> 0 then ret (-1, vmap0)
      else if physical_address mod TBL_L2_BLOCK_SIZE \<noteq> 0 then ret (-1, vmap0)
      else
        attempt (vmap_root vmap0) (-1, vmap0) (\<lambda>vmap.
        attempt (vmap_next_entry vmap (root_page_table vmap) (L0_INDEX virtual_address)) (-1, vmap) (\<lambda>l0_entry.
        if l0_entry AND TBL_ENTRY_TABLE = 0 then ret (-1, vmap)
        else
        attempt (vmap_next_entry vmap (l0_entry AND TBL_ENTRY_ADDR_MASK) (L1_INDEX virtual_address)) (-1, vmap) (\<lambda>l1_entry.
        if l1_entry AND TBL_ENTRY_TABLE = 0 then ret (-1, vmap)
        else
          bnd (rd (\<lambda>s. physical_to_virtual vmap s (l1_entry AND TBL_ENTRY_ADDR_MASK))) (\<lambda>l2_page_table.
          bnd (load (l2_page_table + 8 * L2_INDEX virtual_address)) (\<lambda>l2_entry.
          if l2_entry AND TBL_ENTRY_VALID = 0 then
            thn (store (l2_page_table + 8 * L2_INDEX virtual_address)
                   (TBL_ENTRY_VALID OR TBL_ENTRY_BLOCK OR PAGE_FLAG_ACCESS OR page_flags OR
                    (physical_address AND TBL_ENTRY_L2_BLOCK_ADDR_MASK)))
                (ret (0, vmap))
          else ret (-1, vmap)))))))"

text \<open>
  The loops over a range. The address wraps at \<open>2 ^ 64\<close>, so a loop may not end.
\<close>

partial_function (option) map_range_loop ::
  "('v \<Rightarrow> u64 \<Rightarrow> u64 \<Rightarrow> ('s, int \<times> 'v) prog) \<Rightarrow> u64 \<Rightarrow> 'v \<Rightarrow> u64 \<Rightarrow> u64 \<Rightarrow> u64 \<Rightarrow> 's
     \<Rightarrow> (fault + (int \<times> 'v) \<times> 's) option" where
  "map_range_loop map_one stride vmap virtual_address virtual_end_address physical_address s =
     (if virtual_address < virtual_end_address then
        case map_one vmap virtual_address physical_address s of
          Inl e \<Rightarrow> Some (Inl e)
        | Inr ((r, vmap'), s') \<Rightarrow>
            if r < 0 then Some (Inr ((-1, vmap'), s'))
            else map_range_loop map_one stride vmap' (virtual_address + stride) virtual_end_address
                   (physical_address + stride) s'
      else Some (Inr ((0, vmap), s)))"

definition vmap_map_range_l1_block ::
  "'a machine_scheme vmap \<Rightarrow> u64 \<Rightarrow> u64 \<Rightarrow> u64 \<Rightarrow> u64
     \<Rightarrow> ('a machine_scheme, int \<times> 'a machine_scheme vmap) prog" where
  "vmap_map_range_l1_block vmap virtual_start_address virtual_end_address physical_start_address page_flags =
     (\<lambda>s. loop (map_range_loop (\<lambda>vmap va pa. vmap_map_l1_block vmap va pa page_flags) TBL_L1_BLOCK_SIZE
        vmap virtual_start_address virtual_end_address physical_start_address s))"

definition vmap_map_range_l2_block ::
  "'a machine_scheme vmap \<Rightarrow> u64 \<Rightarrow> u64 \<Rightarrow> u64 \<Rightarrow> u64
     \<Rightarrow> ('a machine_scheme, int \<times> 'a machine_scheme vmap) prog" where
  "vmap_map_range_l2_block vmap virtual_start_address virtual_end_address physical_start_address page_flags =
     (\<lambda>s. loop (map_range_loop (\<lambda>vmap va pa. vmap_map_l2_block vmap va pa page_flags) TBL_L2_BLOCK_SIZE
        vmap virtual_start_address virtual_end_address physical_start_address s))"

definition vmap_map_range ::
  "'a machine_scheme vmap \<Rightarrow> u64 \<Rightarrow> u64 \<Rightarrow> u64 \<Rightarrow> u64
     \<Rightarrow> ('a machine_scheme, int \<times> 'a machine_scheme vmap) prog" where
  "vmap_map_range vmap virtual_start_address virtual_end_address physical_start_address page_flags =
     (\<lambda>s. loop (map_range_loop (\<lambda>vmap va pa. vmap_map_page vmap pa va page_flags) MMAP_GRANULE_SIZE
        vmap virtual_start_address virtual_end_address physical_start_address s))"

text \<open>The software walk; \<open>None\<close> stands for the return value -1.\<close>

definition vmap_entry :: "'a machine_scheme vmap \<Rightarrow> u64 \<Rightarrow> u64 \<Rightarrow> ('a machine_scheme, u64 option) prog" where
  "vmap_entry vmap table index =
     bnd (rd (\<lambda>s. physical_to_virtual vmap s table)) (\<lambda>page_table.
     bnd (load (page_table + 8 * index)) (\<lambda>entry.
     if entry AND TBL_ENTRY_VALID = 0 then ret None else ret (Some entry)))"

definition vmap_virtual_to_physical ::
  "'a machine_scheme vmap \<Rightarrow> u64 \<Rightarrow> ('a machine_scheme, u64 option) prog" where
  "vmap_virtual_to_physical vmap virtual_address =
     (if root_page_table vmap = NULL then ret None
      else
        attempt (vmap_entry vmap (root_page_table vmap) (L0_INDEX virtual_address)) None (\<lambda>l0_entry.
        attempt (vmap_entry vmap (l0_entry AND TBL_ENTRY_ADDR_MASK) (L1_INDEX virtual_address)) None (\<lambda>l1_entry.
        if l1_entry AND TBL_ENTRY_TABLE = 0 then
          ret (Some ((l1_entry AND TBL_ENTRY_L1_BLOCK_ADDR_MASK) OR (virtual_address AND (TBL_L1_BLOCK_SIZE - 1))))
        else
        attempt (vmap_entry vmap (l1_entry AND TBL_ENTRY_ADDR_MASK) (L2_INDEX virtual_address)) None (\<lambda>l2_entry.
        if l2_entry AND TBL_ENTRY_TABLE = 0 then
          ret (Some ((l2_entry AND TBL_ENTRY_L2_BLOCK_ADDR_MASK) OR (virtual_address AND (TBL_L2_BLOCK_SIZE - 1))))
        else
        attempt (vmap_entry vmap (l2_entry AND TBL_ENTRY_ADDR_MASK) (L3_INDEX virtual_address)) None (\<lambda>l3_entry.
        ret (Some ((l3_entry AND TBL_ENTRY_ADDR_MASK) OR (virtual_address AND (MMAP_GRANULE_SIZE - 1)))))))))"

text \<open>Programming the translation registers; the barriers have no counterpart.\<close>

datatype vmap_destination = VMAP_DESTINATION_USER | VMAP_DESTINATION_KERNEL

abbreviation TCR_TTBR0_ENABLE_FLAG :: u64 where "TCR_TTBR0_ENABLE_FLAG \<equiv> NOT 0x80"
abbreviation TCR_TTBR0_4KB_GRANULE_FLAG :: u64 where "TCR_TTBR0_4KB_GRANULE_FLAG \<equiv> 0"
abbreviation TCR_TTBR0_CLEAR_GRANULE_FLAG :: u64 where "TCR_TTBR0_CLEAR_GRANULE_FLAG \<equiv> NOT 0xC000"
abbreviation TCR_TTBR0_SET_T1SZ_16_FLAG :: u64 where "TCR_TTBR0_SET_T1SZ_16_FLAG \<equiv> 0x10"
abbreviation TCR_TTBR0_CLEAR_T1SZ_FLAG :: u64 where "TCR_TTBR0_CLEAR_T1SZ_FLAG \<equiv> NOT 0x3F"
abbreviation TCR_TTBR1_ENABLE_FLAG :: u64 where "TCR_TTBR1_ENABLE_FLAG \<equiv> NOT 0x800000"
abbreviation TCR_TTBR1_4KB_GRANULE_FLAG :: u64 where "TCR_TTBR1_4KB_GRANULE_FLAG \<equiv> 0x80000000"
abbreviation TCR_TTBR1_CLEAR_GRANULE_FLAG :: u64 where "TCR_TTBR1_CLEAR_GRANULE_FLAG \<equiv> NOT 0xC0000000"
abbreviation TCR_TTBR1_SET_T1SZ_16_FLAG :: u64 where "TCR_TTBR1_SET_T1SZ_16_FLAG \<equiv> 0x100000"
abbreviation TCR_TTBR1_CLEAR_T1SZ_FLAG :: u64 where "TCR_TTBR1_CLEAR_T1SZ_FLAG \<equiv> NOT 0x3F0000"

definition tcr_for :: "vmap_destination \<Rightarrow> u64 \<Rightarrow> u64" where
  "tcr_for destination tcr = (case destination of
     VMAP_DESTINATION_USER \<Rightarrow>
       ((((tcr AND TCR_TTBR0_ENABLE_FLAG) AND TCR_TTBR0_CLEAR_GRANULE_FLAG)
          OR TCR_TTBR0_4KB_GRANULE_FLAG) AND TCR_TTBR0_CLEAR_T1SZ_FLAG) OR TCR_TTBR0_SET_T1SZ_16_FLAG
   | VMAP_DESTINATION_KERNEL \<Rightarrow>
       ((((tcr AND TCR_TTBR1_ENABLE_FLAG) AND TCR_TTBR1_CLEAR_GRANULE_FLAG)
          OR TCR_TTBR1_4KB_GRANULE_FLAG) AND TCR_TTBR1_CLEAR_T1SZ_FLAG) OR TCR_TTBR1_SET_T1SZ_16_FLAG)"

definition vmap_apply_table ::
  "'b vmap \<Rightarrow> vmap_destination \<Rightarrow> ('a machine_scheme, int) prog" where
  "vmap_apply_table vmap destination =
     thn (upd (\<lambda>s. s\<lparr>tcr_el1 := tcr_for destination (tcr_el1 s)\<rparr>))
    (thn (upd (\<lambda>s. case destination of
            VMAP_DESTINATION_USER \<Rightarrow> s\<lparr>ttbr0_el1 := root_page_table vmap AND NOT 1\<rparr>
          | VMAP_DESTINATION_KERNEL \<Rightarrow> s\<lparr>ttbr1_el1 := root_page_table vmap AND NOT 1\<rparr>))
         (ret 0))"

definition vmap_is_active :: "'b vmap \<Rightarrow> 'a machine_scheme \<Rightarrow> bool" where
  "vmap_is_active vmap s \<longleftrightarrow>
     drop_bit 1 (ttbr0_el1 s) = drop_bit 1 (root_page_table vmap) \<or>
     drop_bit 1 (ttbr1_el1 s) = drop_bit 1 (root_page_table vmap)"


section \<open>The translation a table stands for\<close>

text \<open>
  The height of a table is 3 for the root and 0 for the tables of page entries. \<open>INDEX n\<close> is the
  index into a table of height \<open>n\<close>, \<open>prefix n\<close> the part of the address that is fixed once that
  index is known: the page (\<open>n = 0\<close>), the 2 MB region (1), the 1 GB region (2).
\<close>

definition INDEX :: "nat \<Rightarrow> u64 \<Rightarrow> u64" where
  "INDEX n va = drop_bit (12 + 9 * n) va AND 0x1FF"

definition prefix :: "nat \<Rightarrow> u64 \<Rightarrow> u64" where
  "prefix n va = drop_bit (12 + 9 * n) (va AND mask 48)"

abbreviation slot :: "u64 \<Rightarrow> nat \<Rightarrow> u64 \<Rightarrow> u64" where
  "slot t n va \<equiv> t + 8 * INDEX n va"

definition target :: "nat \<Rightarrow> u64 \<Rightarrow> u64 \<Rightarrow> u64" where
  "target n e va = (e AND TBL_ENTRY_ADDR_MASK AND NOT (mask (12 + 9 * n))) OR (va AND mask (12 + 9 * n))"

fun walk :: "(u64 \<Rightarrow> u64) \<Rightarrow> nat \<Rightarrow> u64 \<Rightarrow> u64 \<Rightarrow> u64 option" where
  "walk ph 0 t va =
     (let e = ph (slot t 0 va) in
      if e AND TBL_ENTRY_VALID = 0 then None else Some (target 0 e va))"
| "walk ph (Suc n) t va =
     (let e = ph (slot t (Suc n) va) in
      if e AND TBL_ENTRY_VALID = 0 then None
      else if n < 2 \<and> e AND TBL_ENTRY_TABLE = 0 then Some (target (Suc n) e va)
      else walk ph n (e AND TBL_ENTRY_ADDR_MASK) va)"

definition translate :: "(u64 \<Rightarrow> u64) \<Rightarrow> u64 \<Rightarrow> u64 \<Rightarrow> u64 option" where
  "translate ph root va = (if root = NULL then None else walk ph 3 root va)"

lemma L_INDEX: "L0_INDEX va = INDEX 3 va" "L1_INDEX va = INDEX 2 va" "L2_INDEX va = INDEX 1 va"
  "L3_INDEX va = INDEX 0 va"
  by (simp_all add: L0_INDEX_def L1_INDEX_def L2_INDEX_def L3_INDEX_def INDEX_def)

lemma mask_9: "(0x1FF :: u64) = mask 9"
  by (simp add: mask_eq_exp_minus_1)

lemma addr_mask_eq: "TBL_ENTRY_ADDR_MASK = push_bit 12 (mask 36)"
  by (simp add: mask_eq_exp_minus_1)

lemma bit_addr_mask: "bit TBL_ENTRY_ADDR_MASK k \<longleftrightarrow> 12 \<le> k \<and> k < 48"
  unfolding addr_mask_eq by (auto simp: bit_simps)

lemma bit_INDEX: "bit (INDEX n va) k \<longleftrightarrow> k < 9 \<and> bit va (12 + 9 * n + k)"
  unfolding INDEX_def mask_9 by (auto simp: bit_simps)

lemma bit_prefix: "bit (prefix n va) k \<longleftrightarrow> 12 + 9 * n + k < 48 \<and> bit va (12 + 9 * n + k)"
  unfolding prefix_def by (auto simp: bit_simps)

lemma prefix_step:
  assumes "n \<le> 3"
  shows "prefix n va = prefix n va' \<longleftrightarrow>
           prefix (Suc n) va = prefix (Suc n) va' \<and> INDEX n va = INDEX n va'"
proof
  assume eq: "prefix n va = prefix n va'"
  have b: "bit va k = bit va' k" if "12 + 9 * n \<le> k" "k < 48" for k
    using bit_prefix [of n va "k - (12 + 9 * n)"] bit_prefix [of n va' "k - (12 + 9 * n)"] that eq by simp
  show "prefix (Suc n) va = prefix (Suc n) va' \<and> INDEX n va = INDEX n va'"
    using assms by (auto intro!: bit_word_eqI simp: bit_prefix bit_INDEX b)
next
  assume eq: "prefix (Suc n) va = prefix (Suc n) va' \<and> INDEX n va = INDEX n va'"
  show "prefix n va = prefix n va'"
  proof (rule bit_word_eqI)
    fix k
    show "bit (prefix n va) k = bit (prefix n va') k"
    proof (cases "k < 9")
      case True
      then show ?thesis using eq bit_INDEX [of n va k] bit_INDEX [of n va' k] by (simp add: bit_prefix)
    next
      case False
      then have "k = 9 + (k - 9)" by simp
      with eq bit_prefix [of "Suc n" va "k - 9"] bit_prefix [of "Suc n" va' "k - 9"] False
      show ?thesis by (simp add: bit_prefix add.assoc)
    qed
  qed
qed

lemma prefix_4 [simp]: "prefix 4 va = 0"
  by (rule bit_word_eqI) (simp add: bit_prefix)

lemma prefix_up: "prefix n va = prefix n va' \<Longrightarrow> n \<le> m \<Longrightarrow> prefix m va = prefix m va'"
proof (induction m)
  case (Suc m)
  then show ?case
    by (cases "n = Suc m"; cases "m \<le> 3")
       (auto simp: prefix_step [of m] intro!: bit_word_eqI simp: bit_prefix)
qed simp

lemma INDEX_prefix: "prefix n va = prefix n va' \<Longrightarrow> n \<le> m \<Longrightarrow> m \<le> 3 \<Longrightarrow> INDEX m va = INDEX m va'"
  using prefix_up [of n va va' m] prefix_step [of m va va'] by simp

lemma INDEX_less: "unat (INDEX n va) < 512"
  using unat_and_mask [of "drop_bit (12 + 9 * n) va" 9] unfolding INDEX_def mask_9 by simp

text \<open>Pages that can hold a table, and the separation of their entries.\<close>

definition page_ok :: "u64 \<Rightarrow> bool" where
  "page_ok p \<longleftrightarrow> p \<noteq> 0 \<and> 4096 dvd unat p \<and> p < MMAP_PHYSICAL_REGION_SIZE"

lemma page_okD:
  assumes "page_ok p"
  shows "p \<noteq> 0" "4096 dvd unat p" "unat p < 2 ^ 34" "unat p + 4096 \<le> 2 ^ 34"
proof -
  show "p \<noteq> 0" "4096 dvd unat p" and u: "unat p < 2 ^ 34"
    using assms by (simp_all add: page_ok_def word_less_nat_alt)
  then obtain k where "unat p = 4096 * k" by auto
  with u show "unat p + 4096 \<le> 2 ^ 34" by simp
qed

lemma page_bits:
  assumes "page_ok p"
  shows "p AND TBL_ENTRY_ADDR_MASK = p"
proof (rule bit_word_eqI)
  fix k assume "k < LENGTH(64)"
  have "p = take_bit 34 p"
    using page_okD(3) [OF assms] by (simp add: word_unat_eq_iff unsigned_take_bit_eq take_bit_nat_eq_self)
  then have "bit p k \<Longrightarrow> k < 34" by (metis bit_take_bit_iff)
  moreover have "bit p k \<Longrightarrow> 12 \<le> k"
  proof (rule ccontr)
    assume "bit p k" "\<not> 12 \<le> k"
    have "unat (take_bit 12 p) = 0"
      using page_okD(2) [OF assms] unsigned_take_bit_eq [where 'a = nat, of 12 p]
      by (simp only: take_bit_eq_mod [where 'a = nat]) (simp add: mod_eq_0_iff_dvd)
    then have "take_bit 12 p = 0" by (simp add: unat_eq_0)
    with \<open>bit p k\<close> \<open>\<not> 12 \<le> k\<close> show False by (metis bit_take_bit_iff bit_0_eq bot_apply bot_bool_def not_le)
  qed
  ultimately show "bit (p AND TBL_ENTRY_ADDR_MASK) k = bit p k"
    unfolding bit_and_iff bit_addr_mask by auto
qed

lemma unat_slot:
  assumes "page_ok t" shows "unat (slot t n va) = unat t + 8 * unat (INDEX n va)"
proof -
  have "unat (8 * INDEX n va) = 8 * unat (INDEX n va)"
    using INDEX_less [of n va] by (subst unat_mult_no_wrap) simp_all
  moreover have "unat t + 8 * unat (INDEX n va) < 2 ^ LENGTH(64)"
    using page_okD(3) [OF assms] INDEX_less [of n va] by simp
  ultimately show ?thesis by (metis unat_add_no_wrap)
qed

lemma slot_page:
  assumes "page_ok t" shows "unat (slot t n va) div 4096 = unat t div 4096"
  using page_okD(2) [OF assms] INDEX_less [of n va]
  by (auto simp: unat_slot [OF assms] elim!: dvdE)

lemma page_eq: "page_ok t \<Longrightarrow> page_ok t' \<Longrightarrow> unat t div 4096 = unat t' div 4096 \<Longrightarrow> t = t'"
  by (metis page_okD(2) dvd_div_mult_self word_unat_eq_iff)

lemma slot_eq_iff:
  assumes "page_ok t" "page_ok t'"
  shows "slot t n va = slot t' n' va' \<longleftrightarrow> t = t' \<and> INDEX n va = INDEX n' va'"
proof
  assume eq: "slot t n va = slot t' n' va'"
  then have t: "t = t'" using slot_page assms page_eq by metis
  with eq have "unat t + 8 * unat (INDEX n va) = unat t + 8 * unat (INDEX n' va')"
    using unat_slot assms by metis
  then show "t = t' \<and> INDEX n va = INDEX n' va'" using t by (simp add: word_unat_eq_iff)
qed simp

lemma in_page_iff:
  assumes "page_ok p" shows "b - p < MMAP_GRANULE_SIZE \<longleftrightarrow> unat b div 4096 = unat p div 4096"
proof -
  obtain k where k: "unat p = 4096 * k" using page_okD(2) [OF assms] by auto
  have k22: "k < 2 ^ 22" using page_okD(3) [OF assms] k by simp
  show ?thesis
  proof (cases "unat p \<le> unat b")
    case True
    then have "b - p < MMAP_GRANULE_SIZE \<longleftrightarrow> unat b - unat p < 4096"
      by (simp add: word_less_nat_alt unat_sub_no_wrap)
    also have "\<dots> \<longleftrightarrow> unat b div 4096 = k" using True k by auto
    finally show ?thesis using k by simp
  next
    case False
    have "unat (b - p) = unat b + (2 ^ 64 - unat p)"
      using False page_okD(3) [OF assms] by (simp add: unat_sub_if_size word_size word_le_nat_alt)
    then have "\<not> unat (b - p) < 4096" using page_okD(3) [OF assms] by simp
    then have "\<not> b - p < MMAP_GRANULE_SIZE" by (simp add: word_less_nat_alt)
    moreover have "unat b div 4096 \<noteq> k" using False k by auto
    ultimately show ?thesis using k by simp
  qed
qed

lemma zero_page_slot:
  assumes "page_ok p" "page_ok t"
  shows "zero_page p ph (slot t n va) = (if t = p then 0 else ph (slot t n va))"
  using in_page_iff [OF assms(1)] slot_page [OF assms(2)] page_eq [OF assms] by (auto simp: zero_page_def)


section \<open>Well-formed tables\<close>

lemma valid_bit: "e AND TBL_ENTRY_VALID = 0 \<longleftrightarrow> \<not> bit e 0"
proof -
  have "bit e 0 \<longleftrightarrow> e AND push_bit 0 1 \<noteq> 0" by (rule bit_iff_and_push_bit_not_eq_0)
  then show ?thesis by simp
qed

lemma table_bit: "e AND TBL_ENTRY_TABLE = 0 \<longleftrightarrow> \<not> bit e 1"
proof -
  have "bit e 1 \<longleftrightarrow> e AND push_bit 1 1 \<noteq> 0" by (rule bit_iff_and_push_bit_not_eq_0)
  then show ?thesis by simp
qed

definition table_entry :: "u64 \<Rightarrow> u64" where
  "table_entry p = TBL_ENTRY_VALID OR TBL_ENTRY_TABLE OR (p AND TBL_ENTRY_ADDR_MASK)"

lemma bit_table_flag: "bit (TBL_ENTRY_TABLE :: u64) k \<longleftrightarrow> k = 1"
proof -
  have "bit (push_bit 1 1 :: u64) k \<longleftrightarrow> k = 1" by (auto simp: bit_simps)
  then show ?thesis by simp
qed

lemma bit_access_flag: "bit PAGE_FLAG_ACCESS k \<longleftrightarrow> k = 10"
proof -
  have "bit (push_bit 10 1 :: u64) k \<longleftrightarrow> k = 10" unfolding bit_push_bit_iff by (auto simp: bit_1_iff)
  then show ?thesis by simp
qed

lemmas bit_flags = bit_or_iff bit_and_iff bit_1_iff bit_table_flag bit_access_flag bit_addr_mask

lemma table_entry_bits:
  "bit (table_entry p) 0" "bit (table_entry p) 1"
  "page_ok p \<Longrightarrow> table_entry p AND TBL_ENTRY_ADDR_MASK = p"
proof -
  show "bit (table_entry p) 0" "bit (table_entry p) 1"
    unfolding table_entry_def by (simp_all add: bit_flags)
  assume "page_ok p"
  have "table_entry p AND TBL_ENTRY_ADDR_MASK = p AND TBL_ENTRY_ADDR_MASK"
    unfolding table_entry_def by (rule bit_word_eqI) (auto simp only: bit_flags)
  then show "table_entry p AND TBL_ENTRY_ADDR_MASK = p" using page_bits [OF \<open>page_ok p\<close>] by simp
qed

text \<open>The tables on the path of an address, with their heights.\<close>

inductive on_path :: "(u64 \<Rightarrow> u64) \<Rightarrow> u64 \<Rightarrow> u64 \<Rightarrow> nat \<Rightarrow> u64 \<Rightarrow> bool"
  for ph root va where
  on_path_root: "on_path ph root va 3 root"
| on_path_down: "on_path ph root va (Suc n) t \<Longrightarrow> bit (ph (slot t (Suc n) va)) 0 \<Longrightarrow>
     bit (ph (slot t (Suc n) va)) 1 \<Longrightarrow>
     on_path ph root va n (ph (slot t (Suc n) va) AND TBL_ENTRY_ADDR_MASK)"

lemma on_path_le: "on_path ph root va n t \<Longrightarrow> n \<le> 3"
  by (induction rule: on_path.induct) auto

lemma on_path_3: "on_path ph root va 3 t \<longleftrightarrow> t = root"
proof
  assume "on_path ph root va 3 t"
  then show "t = root" by (cases rule: on_path.cases) (auto dest: on_path_le)
qed (simp add: on_path_root)

lemma on_path_unique: "on_path ph root va n t \<Longrightarrow> on_path ph root va n t' \<Longrightarrow> t = t'"
proof (induction arbitrary: t' rule: on_path.induct)
  case on_path_root
  then show ?case by (simp add: on_path_3)
next
  case (on_path_down n t)
  from on_path_down.prems show ?case
  proof (cases rule: on_path.cases)
    case on_path_root
    then show ?thesis using on_path_le [OF on_path_down.hyps(1)] by simp
  next
    case (on_path_down t'')
    then show ?thesis using on_path_down.IH by simp
  qed
qed

lemma on_path_prefix:
  assumes "on_path ph root va n t" "prefix (Suc n) va' = prefix (Suc n) va"
  shows "on_path ph root va' n t"
  using assms
proof (induction rule: on_path.induct)
  case on_path_root
  show ?case by (rule on_path.on_path_root)
next
  case (on_path_down n t)
  have "INDEX (Suc n) va' = INDEX (Suc n) va"
    using INDEX_prefix [OF on_path_down.prems] on_path_le [OF on_path_down.hyps(1)] by simp
  moreover have "on_path ph root va' (Suc n) t"
    using on_path_down.IH prefix_up [OF on_path_down.prems, of "Suc (Suc n)"] by simp
  ultimately show ?case
    using on_path.on_path_down [of ph root va' n t] on_path_down.hyps(2,3) by simp
qed

lemma on_path_cong:
  assumes "on_path ph root va n t"
    and "\<And>t' m. on_path ph root va m t' \<Longrightarrow> n < m \<Longrightarrow> ph' (slot t' m va) = ph (slot t' m va)"
  shows "on_path ph' root va n t"
  using assms
proof (induction rule: on_path.induct)
  case on_path_root
  show ?case by (rule on_path.on_path_root)
next
  case (on_path_down n t)
  have "ph' (slot t (Suc n) va) = ph (slot t (Suc n) va)"
    using on_path_down.prems on_path_down.hyps(1) by simp
  moreover have "on_path ph' root va (Suc n) t"
    using on_path_down.IH on_path_down.prems by simp
  ultimately show ?case
    using on_path.on_path_down [of ph' root va n t] on_path_down.hyps(2,3) by simp
qed

lemma on_path_walk: "on_path ph root va n t \<Longrightarrow> walk ph 3 root va = walk ph n t va"
  by (induction rule: on_path.induct) (auto simp: Let_def valid_bit table_bit)

text \<open>
  Tables are well formed when they form a tree: a page that is on the paths of two addresses is
  at the same height on both, and the addresses agree in the prefix it is responsible for.
  Entries of the root are links to tables, never blocks.
\<close>

definition tables :: "(u64 \<Rightarrow> u64) \<Rightarrow> u64 \<Rightarrow> bool" where
  "tables ph root \<longleftrightarrow>
     (\<forall>va n t. on_path ph root va n t \<longrightarrow> page_ok t) \<and>
     (\<forall>va va' n n' t. on_path ph root va n t \<longrightarrow> on_path ph root va' n' t \<longrightarrow>
        n = n' \<and> prefix (Suc n) va = prefix (Suc n) va') \<and>
     (\<forall>va. bit (ph (slot root 3 va)) 0 \<longrightarrow> bit (ph (slot root 3 va)) 1)"

definition table_pages :: "(u64 \<Rightarrow> u64) \<Rightarrow> u64 \<Rightarrow> u64 set" where
  "table_pages ph root = {t. \<exists>va n. on_path ph root va n t}"

lemma tablesD:
  assumes "tables ph root"
  shows "on_path ph root va n t \<Longrightarrow> page_ok t"
    and "on_path ph root va n t \<Longrightarrow> on_path ph root va' n' t \<Longrightarrow> n = n'"
    and "on_path ph root va n t \<Longrightarrow> on_path ph root va' n' t \<Longrightarrow> prefix (Suc n) va = prefix (Suc n) va'"
    and "bit (ph (slot root 3 va)) 0 \<Longrightarrow> bit (ph (slot root 3 va)) 1"
  using assms unfolding tables_def by blast+

lemma tables_root: "tables ph root \<Longrightarrow> page_ok root"
  using tablesD(1) on_path_root by blast

lemma walk_cong:
  assumes tab: "tables ph root" and "on_path ph root va n t"
    and "\<And>t' m. on_path ph root va m t' \<Longrightarrow> m \<le> n \<Longrightarrow> ph' (slot t' m va) = ph (slot t' m va)"
  shows "walk ph' n t va = walk ph n t va"
  using assms(2,3)
proof (induction n arbitrary: t)
  case 0
  then show ?case by (simp add: Let_def)
next
  case (Suc n)
  let ?e = "ph (slot t (Suc n) va)"
  have same: "ph' (slot t (Suc n) va) = ?e" using Suc.prems by simp
  have "walk ph' n (?e AND TBL_ENTRY_ADDR_MASK) va = walk ph n (?e AND TBL_ENTRY_ADDR_MASK) va"
    if "bit ?e 0" "n < 2 \<longrightarrow> bit ?e 1"
  proof (rule Suc.IH)
    have "bit ?e 1"
    proof (cases "n < 2")
      case False
      then have "Suc n = 3" using on_path_le [OF Suc.prems(1)] by simp
      then show ?thesis using tablesD(4) [OF tab, of va] Suc.prems(1) that(1) by (simp add: on_path_3)
    qed (use that(2) in simp)
    then show "on_path ph root va n (?e AND TBL_ENTRY_ADDR_MASK)"
      using on_path_down [OF Suc.prems(1) that(1)] by simp
  qed (use Suc.prems(2) in simp)
  then show ?case unfolding walk.simps same Let_def valid_bit table_bit by simp
qed


text \<open>Filling a missing entry with a fresh, zeroed table changes no translation.\<close>

definition fill :: "u64 \<Rightarrow> nat \<Rightarrow> u64 \<Rightarrow> u64 \<Rightarrow> (u64 \<Rightarrow> u64) \<Rightarrow> (u64 \<Rightarrow> u64)" where
  "fill t n va x ph = (zero_page x ph)(slot t n va := table_entry x)"

lemma walk_zero: "n \<le> 3 \<Longrightarrow> (\<And>va. ph (slot x n va) = 0) \<Longrightarrow> walk ph n x va = None"
  by (cases n) (simp_all add: Let_def)

lemma fill_slot:
  assumes "page_ok u" "page_ok t" "page_ok x" "x \<noteq> t"
  shows "fill t n va x ph (slot u m va') =
    (if u = t \<and> INDEX m va' = INDEX n va then table_entry x
     else if u = x then 0 else ph (slot u m va'))"
  using slot_eq_iff [OF assms(1,2), of m va' n va] zero_page_slot [OF assms(3,1)] assms(4)
  by (auto simp: fill_def)

text \<open>The two ways an access of the walk meets the filled slot, and the paths afterwards.\<close>

lemma same_slot:
  assumes "tables ph root" "on_path ph root va n t" "on_path ph root va' m t"
  shows "INDEX m va' = INDEX n va \<longleftrightarrow> prefix n va' = prefix n va"
proof -
  have n: "n \<le> 3" and "m = n" and "prefix (Suc n) va' = prefix (Suc n) va"
    using on_path_le assms(2) tablesD(2,3) [OF assms(1) assms(3,2)] by auto
  then show ?thesis using prefix_step [OF n, of va' va] by simp
qed

lemma fill_path:
  assumes tab: "tables ph root" and t: "on_path ph root va (Suc n) t"
    and x: "page_ok x" "x \<notin> table_pages ph root"
    and path: "on_path (fill t (Suc n) va x ph) root va' m u"
  shows "on_path ph root va' m u \<or> u = x \<and> m = n \<and> prefix (Suc n) va' = prefix (Suc n) va"
  using path
proof (induction rule: on_path.induct)
  case on_path_root
  show ?case by (simp add: on_path.on_path_root)
next
  case (on_path_down m u)
  let ?ph = "fill t (Suc n) va x ph"
  have tok: "page_ok t" and xt: "x \<noteq> t"
    using tablesD(1) [OF tab t] t x(2) by (auto simp: table_pages_def)
  note fs = fill_slot [OF _ tok x(1) xt]
  show ?case
  proof (cases "on_path ph root va' (Suc m) u")
    case old: True
    have ux: "u \<noteq> x" using old x(2) by (auto simp: table_pages_def)
    note uok = tablesD(1) [OF tab old]
    show ?thesis
    proof (cases "u = t \<and> INDEX (Suc m) va' = INDEX (Suc n) va")
      case True
      then have "m = n" using tablesD(2) [OF tab, of va' "Suc m" t va "Suc n"] old t by simp
      then have "prefix (Suc n) va' = prefix (Suc n) va" using same_slot [OF tab t] old True by simp
      then show ?thesis using True \<open>m = n\<close> fs [OF uok] table_entry_bits(3) [OF x(1)] by simp
    next
      case False
      then have "?ph (slot u (Suc m) va') = ph (slot u (Suc m) va')" using fs [OF uok] ux by metis
      with on_path_down.hyps(2,3) show ?thesis
        using on_path.on_path_down [OF old] by simp
    qed
  next
    case False
    then have "u = x" using on_path_down.IH by simp
    then have "?ph (slot u (Suc m) va') = 0" using fs [OF x(1)] xt by simp
    with on_path_down.hyps(2) show ?thesis by simp
  qed
qed

lemma fill_on_path:
  assumes tab: "tables ph root" and t: "on_path ph root va (Suc n) t" and x: "page_ok x" "x \<notin> table_pages ph root"
  shows "on_path (fill t (Suc n) va x ph) root va n x"
proof -
  let ?ph = "fill t (Suc n) va x ph"
  have tok: "page_ok t" and xt: "x \<noteq> t" using tablesD(1) [OF tab t] t x(2) by (auto simp: table_pages_def)
  have "on_path ?ph root va (Suc n) t"
  proof (rule on_path_cong [OF t])
    fix t' m assume *: "on_path ph root va m t'" "Suc n < m"
    then have "t' \<noteq> t" using tablesD(2) [OF tab t] by blast
    moreover have "t' \<noteq> x" using * x(2) by (auto simp: table_pages_def)
    ultimately show "?ph (slot t' m va) = ph (slot t' m va)"
      using fill_slot [OF tablesD(1) [OF tab *(1)] tok x(1) xt] by simp
  qed
  from on_path_down [OF this] show ?thesis
    using table_entry_bits x(1) by (simp add: fill_def)
qed

lemma fill_tables:
  assumes tab: "tables ph root" and t: "on_path ph root va (Suc n) t"
    and x: "page_ok x" "x \<notin> table_pages ph root"
  shows "tables (fill t (Suc n) va x ph) root"
    and "table_pages (fill t (Suc n) va x ph) root \<subseteq> insert x (table_pages ph root)"
proof -
  let ?ph = "fill t (Suc n) va x ph"
  note path = fill_path [OF tab t x]
  have tok: "page_ok t" and xt: "x \<noteq> t" using tablesD(1) [OF tab t] t x(2) by (auto simp: table_pages_def)
  have xn: "\<not> on_path ph root va' m x" for va' m using x(2) by (auto simp: table_pages_def)
  show "table_pages ?ph root \<subseteq> insert x (table_pages ph root)"
    unfolding table_pages_def using path by blast
  have "page_ok u" if "on_path ?ph root va' m u" for va' m u
    using path [OF that] tablesD(1) [OF tab] x(1) by auto
  moreover have "m = m' \<and> prefix (Suc m) va1 = prefix (Suc m) va2"
    if "on_path ?ph root va1 m u" "on_path ?ph root va2 m' u" for va1 va2 m m' u
    using path [OF that(1)] path [OF that(2)] tablesD(2,3) [OF tab] xn by metis
  moreover have "bit (?ph (slot root 3 va')) 1" if "bit (?ph (slot root 3 va')) 0" for va'
  proof -
    have "root \<noteq> x" using xn on_path_root by blast
    then show ?thesis
      using that fill_slot [OF tables_root [OF tab] tok x(1) xt, of "Suc n" va ph 3 va']
        tablesD(4) [OF tab] table_entry_bits(2) by (auto split: if_splits)
  qed
  ultimately show "tables ?ph root" unfolding tables_def by blast
qed

lemma walk_fill:
  assumes tab: "tables ph root" and t: "on_path ph root va (Suc n) t"
    and missing: "\<not> bit (ph (slot t (Suc n) va)) 0"
    and x: "page_ok x" "x \<notin> table_pages ph root"
  shows "walk (fill t (Suc n) va x ph) 3 root va' = walk ph 3 root va'"
proof -
  let ?ph = "fill t (Suc n) va x ph"
  have tok: "page_ok t" and xt: "x \<noteq> t" using tablesD(1) [OF tab t] t x(2) by (auto simp: table_pages_def)
  have n: "n \<le> 2" using on_path_le [OF t] by simp
  show ?thesis
  proof (cases "on_path ph root va' (Suc n) t \<and> prefix (Suc n) va' = prefix (Suc n) va")
    case True
    then have idx: "INDEX (Suc n) va' = INDEX (Suc n) va" using same_slot [OF tab t] by simp
    have "walk ph 3 root va' = None"
      using True missing on_path_walk [of ph root va' "Suc n" t] idx by (simp add: Let_def valid_bit)
    moreover have "on_path ?ph root va' n x"
      using on_path_prefix fill_on_path [OF tab t x] True by blast
    moreover have "walk ?ph n x va' = None"
    proof (rule walk_zero)
      show "?ph (slot x n va'') = 0" for va'' using fill_slot [OF x(1) tok x(1) xt] xt by simp
    qed (use n in simp)
    ultimately show ?thesis using on_path_walk by metis
  next
    case False
    show ?thesis
    proof (rule walk_cong [OF tab on_path_root])
      fix t' m assume *: "on_path ph root va' m t'" "m \<le> 3"
      have "\<not> (t' = t \<and> INDEX m va' = INDEX (Suc n) va)"
        using False same_slot [OF tab t, of va' m] *(1) tablesD(2) [OF tab t] by blast
      moreover have "t' \<noteq> x" using *(1) x(2) by (auto simp: table_pages_def)
      ultimately show "?ph (slot t' m va') = ph (slot t' m va')"
        using fill_slot [OF tablesD(1) [OF tab *(1)] tok x(1) xt] by auto
    qed
  qed
qed

text \<open>
  Writing an entry that maps a page or a block: the addresses of that page or block get the new
  target, and no other address is affected.
\<close>

lemma leaf_path:
  assumes tab: "tables ph root" and t: "on_path ph root va n t"
    and e: "bit e 0" "n = 0 \<or> n \<noteq> 3 \<and> \<not> bit e 1"
    and path: "on_path (ph(slot t n va := e)) root w m u"
  shows "on_path ph root w m u"
proof -
  let ?ph = "ph(slot t n va := e)"
  have tok: "page_ok t" using tablesD(1) [OF tab t] .
  have hit: "?ph (slot u m w) = (if u = t \<and> prefix n w = prefix n va then e else ph (slot u m w))"
    if "on_path ph root w m u" for u m w
    using slot_eq_iff [OF tablesD(1) [OF tab that] tok, of m w n va] same_slot [OF tab t, of w m] that
    by auto
  show ?thesis
    using path
  proof (induction rule: on_path.induct)
    case on_path_root
    show ?case by (rule on_path.on_path_root)
  next
    case (on_path_down m u)
    have "\<not> (u = t \<and> prefix n w = prefix n va)"
    proof
      assume u: "u = t \<and> prefix n w = prefix n va"
      then have "n = Suc m" using tablesD(2) [OF tab t] on_path_down.IH by blast
      then show False using u e(2) on_path_down.hyps(3) hit [OF on_path_down.IH] by simp
    qed
    then have "?ph (slot u (Suc m) w) = ph (slot u (Suc m) w)" using hit [OF on_path_down.IH] by metis
    then show ?case
      using on_path.on_path_down [OF on_path_down.IH] on_path_down.hyps(2,3) by simp
  qed
qed

lemma leaf_write:
  assumes tab: "tables ph root" and t: "on_path ph root va n t"
    and e: "bit e 0" "n = 0 \<or> n \<noteq> 3 \<and> \<not> bit e 1"
  shows "tables (ph(slot t n va := e)) root"
    and "table_pages (ph(slot t n va := e)) root \<subseteq> table_pages ph root"
    and "walk (ph(slot t n va := e)) 3 root va' =
           (if prefix n va' = prefix n va then Some (target n e va') else walk ph 3 root va')"
proof -
  let ?ph = "ph(slot t n va := e)"
  have tok: "page_ok t" using tablesD(1) [OF tab t] .
  have hit: "?ph (slot u m w) = (if u = t \<and> prefix n w = prefix n va then e else ph (slot u m w))"
    if "on_path ph root w m u" for u m w
    using slot_eq_iff [OF tablesD(1) [OF tab that] tok, of m w n va] same_slot [OF tab t, of w m] that
    by auto
  have path: "on_path ph root w m u" if "on_path ?ph root w m u" for w m u
    by (rule leaf_path [OF tab t e that])
  show "table_pages ?ph root \<subseteq> table_pages ph root" unfolding table_pages_def using path by blast
  have "root = t \<Longrightarrow> n = 3" 
    using tablesD(2) [OF tab t, of va 3] on_path_root [of ph root va] by auto
  then have "root \<noteq> t" using e(2) by auto
  then have root: "bit (?ph (slot root 3 w)) 0 \<Longrightarrow> bit (?ph (slot root 3 w)) 1" for w
    using hit [OF on_path_root, of w] tablesD(4) [OF tab, of w] by simp
  show "tables ?ph root"
    unfolding tables_def
  proof (intro conjI allI impI)
    fix w w' m m' u assume "on_path ?ph root w m u" "on_path ?ph root w' m' u"
    then show "m = m'" "prefix (Suc m) w = prefix (Suc m) w'"
      using path tablesD(2,3) [OF tab] by blast+
  qed (use path tablesD(1) [OF tab] root in blast)+
  show "walk ?ph 3 root va' = (if prefix n va' = prefix n va then Some (target n e va') else walk ph 3 root va')"
  proof (cases "prefix n va' = prefix n va")
    case True
    have t': "on_path ph root va' n t"
      using on_path_prefix [OF t] prefix_up [OF True, of "Suc n"] by simp
    have "on_path ?ph root va' n t"
    proof (rule on_path_cong [OF t'])
      fix t2 m assume *: "on_path ph root va' m t2" "n < m"
      then have "t2 \<noteq> t" using tablesD(2) [OF tab t] by blast
      then show "?ph (slot t2 m va') = ph (slot t2 m va')" using hit [OF *(1)] by simp
    qed
    moreover have "?ph (slot t n va') = e" using hit [OF t'] True by simp
    ultimately have "walk ?ph 3 root va' = Some (target n e va')"
      using on_path_walk [of ?ph root va' n t] on_path_le [OF t] e
      by (cases n) (auto simp: Let_def valid_bit table_bit)
    with True show ?thesis by simp
  next
    case False
    then have "walk ?ph 3 root va' = walk ph 3 root va'"
      by (intro walk_cong [OF tab on_path_root]) (simp only: hit, simp)
    with False show ?thesis by simp
  qed
qed


section \<open>The mapping operations\<close>

text \<open>
  A vmap is in order when it has no root yet, or its tables are well formed, none of their
  pages can be handed out again (\<open>avail\<close>), and none is a page the source itself depends on (\<open>prot\<close>).
\<close>

definition vmap_inv :: "('a machine_scheme \<Rightarrow> u64 set) \<Rightarrow> ('a machine_scheme \<Rightarrow> u64 set) \<Rightarrow> 'a machine_scheme vmap \<Rightarrow> 'a machine_scheme \<Rightarrow> bool" where
  "vmap_inv avail prot v s \<longleftrightarrow> root_page_table v = NULL \<or>
     tables (phys s) (root_page_table v) \<and>
     table_pages (phys s) (root_page_table v) \<inter> avail s = {} \<and>
     table_pages (phys s) (root_page_table v) \<inter> prot s = {}"

definition vtranslate :: "'a machine_scheme vmap \<Rightarrow> 'a machine_scheme \<Rightarrow> u64 \<Rightarrow> u64 option" where
  "vtranslate v s va = translate (phys s) (root_page_table v) va"

text \<open>The pages a vmap uses.\<close>

definition vmap_pages :: "'a machine_scheme vmap \<Rightarrow> 'a machine_scheme \<Rightarrow> u64 set" where
  "vmap_pages v s = (if root_page_table v = NULL then {} else table_pages (phys s) (root_page_table v))"

text \<open>\<open>no_block v s va\<close>: no 1 GB or 2 MB block covers the address.\<close>

definition no_block :: "'a machine_scheme vmap \<Rightarrow> 'a machine_scheme \<Rightarrow> u64 \<Rightarrow> bool" where
  "no_block v s va \<longleftrightarrow> root_page_table v = NULL \<or>
     (\<forall>n t. on_path (phys s) (root_page_table v) va n t \<longrightarrow> n = 1 \<or> n = 2 \<longrightarrow>
        bit (phys s (slot t n va)) 0 \<longrightarrow> bit (phys s (slot t n va)) 1)"

text \<open>
  \<open>vacant v s n va\<close>: the entry of height \<open>n\<close> for the address is missing, and no larger block
  covers it, so a page (\<open>n = 0\<close>) or a block can be mapped there.
\<close>

definition vacant :: "'a machine_scheme vmap \<Rightarrow> 'a machine_scheme \<Rightarrow> nat \<Rightarrow> u64 \<Rightarrow> bool" where
  "vacant v s n va \<longleftrightarrow> root_page_table v = NULL \<or>
     (\<forall>m t. on_path (phys s) (root_page_table v) va m t \<longrightarrow> n \<le> m \<longrightarrow>
        bit (phys s (slot t m va)) 0 \<longrightarrow> n < m \<and> bit (phys s (slot t m va)) 1)"

text \<open>
  \<open>proper v s\<close>: the descriptors are of the kinds the translation hardware accepts. A page
  descriptor has bit 1 set (without it the entry is reserved), and a page or block descriptor
  has its access flag (bit 10) set. Root entries are links to tables already (\<open>tables\<close>).
\<close>

definition proper_entry :: "nat \<Rightarrow> u64 \<Rightarrow> bool" where
  "proper_entry n e \<longleftrightarrow> (bit e 0 \<longrightarrow> (n = 0 \<longrightarrow> bit e 1) \<and> (n = 0 \<or> \<not> bit e 1 \<longrightarrow> bit e 10))"

definition proper :: "'a machine_scheme vmap \<Rightarrow> 'a machine_scheme \<Rightarrow> bool" where
  "proper v s \<longleftrightarrow> root_page_table v = NULL \<or>
     (\<forall>va n t. on_path (phys s) (root_page_table v) va n t \<longrightarrow> proper_entry n (phys s (slot t n va)))"

text \<open>
  What adding tables does: no translation changes, all descriptors stay proper, blocks stay where they are, the places of
  height at most \<open>h\<close> stay vacant, and at most \<open>k\<close> pages are used up.
\<close>

definition grows :: "('a machine_scheme \<Rightarrow> u64 set) \<Rightarrow> ('a machine_scheme \<Rightarrow> u64 set) \<Rightarrow> nat \<Rightarrow> nat \<Rightarrow> 'a machine_scheme vmap
     \<Rightarrow> 'a machine_scheme \<Rightarrow> 'a machine_scheme vmap \<Rightarrow> 'a machine_scheme \<Rightarrow> bool" where
  "grows avail prot h k v s v' s' \<longleftrightarrow>
     vmap_inv avail prot v' s' \<and> (\<forall>va. vtranslate v' s' va = vtranslate v s va) \<and>
     (\<forall>va. no_block v s va \<longrightarrow> no_block v' s' va) \<and>
     (\<forall>n va. n \<le> h \<longrightarrow> vacant v s n va \<longrightarrow> vacant v' s' n va) \<and>
     (proper v s \<longrightarrow> proper v' s') \<and>
     (root_page_table v \<noteq> NULL \<longrightarrow> v' = v) \<and> v' = v\<lparr>root_page_table := root_page_table v'\<rparr> \<and>
     vmap_pages v' s' \<subseteq> vmap_pages v s \<union> avail s \<and> avail s' \<subseteq> avail s \<and>
     g_mmap_initialized s' = g_mmap_initialized s \<and> card (avail s) \<le> card (avail s') + k"

lemma growsD:
  assumes "grows avail prot h k v s v' s'"
  shows "vmap_inv avail prot v' s'" "vtranslate v' s' va = vtranslate v s va"
    "no_block v s va \<Longrightarrow> no_block v' s' va" "n \<le> h \<Longrightarrow> vacant v s n va \<Longrightarrow> vacant v' s' n va"
    "root_page_table v \<noteq> NULL \<Longrightarrow> v' = v" "v' = v\<lparr>root_page_table := root_page_table v'\<rparr>"
    "card (avail s) \<le> card (avail s') + k"
  using assms by (simp_all add: grows_def)

lemma grows_refl: "vmap_inv avail prot v s \<Longrightarrow> grows avail prot h k v s v s"
  by (simp add: grows_def)

lemma grows_trans:
  assumes "grows avail prot h k v s v' s'" "grows avail prot h' l v' s' v'' s''" "i \<le> h" "i \<le> h'"
  shows "grows avail prot i (k + l) v s v'' s''"
proof -
  have "v'' = v\<lparr>root_page_table := root_page_table v''\<rparr>"
    using growsD(6) [OF assms(1)] growsD(6) [OF assms(2)]
    by (metis vmap.select_convs(1) vmap.surjective vmap.update_convs(1))
  moreover have "vmap_pages v'' s'' \<subseteq> vmap_pages v s \<union> avail s" "avail s'' \<subseteq> avail s"
    using assms(1,2) unfolding grows_def by blast+
  ultimately show ?thesis using assms unfolding grows_def by simp
qed

lemma walk_heights:
  "walk ph 3 t va = (let e = ph (slot t 3 va) in
      if e AND TBL_ENTRY_VALID = 0 then None else walk ph 2 (e AND TBL_ENTRY_ADDR_MASK) va)"
  "walk ph 2 t va = (let e = ph (slot t 2 va) in
      if e AND TBL_ENTRY_VALID = 0 then None
      else if e AND TBL_ENTRY_TABLE = 0 then Some (target 2 e va) else walk ph 1 (e AND TBL_ENTRY_ADDR_MASK) va)"
  "walk ph 1 t va = (let e = ph (slot t 1 va) in
      if e AND TBL_ENTRY_VALID = 0 then None
      else if e AND TBL_ENTRY_TABLE = 0 then Some (target 1 e va) else walk ph 0 (e AND TBL_ENTRY_ADDR_MASK) va)"
  "walk ph 0 t va = (let e = ph (slot t 0 va) in
      if e AND TBL_ENTRY_VALID = 0 then None else Some (target 0 e va))"
  using walk.simps(2) [of ph 2 t va] walk.simps(2) [of ph 1 t va] walk.simps(2) [of ph 0 t va]
  by (simp_all add: Let_def numeral_2_eq_2 [symmetric])

lemma target_heights:
  "target 2 e va = (e AND TBL_ENTRY_L1_BLOCK_ADDR_MASK) OR (va AND (TBL_L1_BLOCK_SIZE - 1))"
  "target 1 e va = (e AND TBL_ENTRY_L2_BLOCK_ADDR_MASK) OR (va AND (TBL_L2_BLOCK_SIZE - 1))"
  "target 0 e va = (e AND TBL_ENTRY_ADDR_MASK) OR (va AND (MMAP_GRANULE_SIZE - 1))"
  by (simp_all add: target_def mask_eq_exp_minus_1 and.assoc)

locale page_source =
  fixes alloc :: "('a machine_scheme, u64) prog" and p2v :: "'a machine_scheme \<Rightarrow> u64 \<Rightarrow> u64"
    and avail prot :: "'a machine_scheme \<Rightarrow> u64 set" and ok :: "'a machine_scheme \<Rightarrow> bool"
  assumes alloc_law: "ok s \<Longrightarrow> \<exists>x s'. alloc s = Inr (x, s') \<and> ok s' \<and>
      g_mmap_initialized s' = g_mmap_initialized s \<and> prot s' = prot s \<and>
      (x = NULL \<and> avail s = {} \<and> avail s' = {} \<and> phys s' = phys s \<or>
       x \<in> avail s \<and> avail s' = avail s - {x} \<and> phys s' = zero_page x (phys s))"
    and avail_pages: "ok s \<Longrightarrow> finite (avail s) \<and> (\<forall>x \<in> avail s. page_ok x) \<and> avail s \<inter> prot s = {}"
    and reach: "ok s \<Longrightarrow> ok s' \<Longrightarrow> g_mmap_initialized s' = g_mmap_initialized s \<Longrightarrow>
      page_ok p \<Longrightarrow> unat i < 4096 \<Longrightarrow> pointer_target s' (p2v s p + i) = Some (p + i)"
    and phys_ok: "ok s \<Longrightarrow> page_ok t \<Longrightarrow> t \<notin> prot s \<Longrightarrow> s' = s\<lparr>phys := (phys s)(slot t n va := w)\<rparr> \<Longrightarrow>
      ok s' \<and> avail s' = avail s \<and> prot s' = prot s"
begin

definition mine :: "'a machine_scheme vmap \<Rightarrow> bool" where
  "mine v \<longleftrightarrow> alloc_page v = alloc \<and> physical_to_virtual v = p2v"

lemma reach_slot: "ok s \<Longrightarrow> ok s' \<Longrightarrow> g_mmap_initialized s' = g_mmap_initialized s \<Longrightarrow> page_ok t \<Longrightarrow>
    pointer_target s' (p2v s t + 8 * INDEX n va) = Some (slot t n va)"
proof (rule reach)
  have "unat (8 * INDEX n va) = 8 * unat (INDEX n va)"
    using INDEX_less [of n va] by (subst unat_mult_no_wrap) simp_all
  then show "unat (8 * INDEX n va) < 4096" using INDEX_less [of n va] by simp
qed auto

lemma load_slot: "ok s \<Longrightarrow> page_ok t \<Longrightarrow> load (p2v s t + 8 * INDEX n va) s = Inr (phys s (slot t n va), s)"
  by (simp add: load_def reach_slot)

lemma store_slot: "ok s \<Longrightarrow> page_ok t \<Longrightarrow>
    store (p2v s t + 8 * INDEX n va) w s = Inr ((), s\<lparr>phys := (phys s)(slot t n va := w)\<rparr>)"
  by (simp add: store_def reach_slot)

lemma zeroed_tables:
  assumes "page_ok r" shows "tables (zero_page r ph) r" and "table_pages (zero_page r ph) r = {r}"
    and "walk (zero_page r ph) 3 r va = None"
proof -
  have z: "zero_page r ph (slot r n va) = 0" for n va using zero_page_slot [OF assms assms] by simp
  have p: "on_path (zero_page r ph) r va n t \<Longrightarrow> n = 3 \<and> t = r" for va n t
    by (induction rule: on_path.induct) (auto simp: z)
  show "tables (zero_page r ph) r" using assms z unfolding tables_def by (auto dest!: p)
  show "table_pages (zero_page r ph) r = {r}" using on_path_root [of _ r] p unfolding table_pages_def by blast
  show "walk (zero_page r ph) 3 r va = None" using z by (intro walk_zero) auto
qed

lemma vmap_root_grows:
  assumes s: "ok s" and v: "mine v" and inv: "vmap_inv avail prot v s"
  obtains "vmap_root v s = Inr (Some v, s)" "root_page_table v \<noteq> NULL"
  | s' where "vmap_root v s = Inr (None, s')" "ok s'" "grows avail prot 3 0 v s v s'" "avail s = {}"
  | s' v' where "vmap_root v s = Inr (Some v', s')" "ok s'" "mine v'" "root_page_table v' \<noteq> NULL"
      "grows avail prot 3 1 v s v' s'"
proof (cases "root_page_table v = NULL")
  case True
  obtain x s' where al: "alloc s = Inr (x, s')" "ok s'"
    "g_mmap_initialized s' = g_mmap_initialized s \<and> prot s' = prot s" and cs:
    "x = NULL \<and> avail s = {} \<and> avail s' = {} \<and> phys s' = phys s \<or>
     x \<in> avail s \<and> avail s' = avail s - {x} \<and> phys s' = zero_page x (phys s)"
    using alloc_law [OF s] by blast
  have run: "vmap_root v s = Inr (if x = NULL then None else Some (v\<lparr>root_page_table := x\<rparr>), s')"
    using True v al by (simp add: vmap_root_def mine_def)
  show ?thesis
  proof (cases "x = NULL")
    case x: True
    then have "x \<notin> avail s" using avail_pages [OF s] by (auto simp: page_ok_def)
    then have "avail s = {}" "avail s' = {}" "phys s' = phys s" using cs by auto
    with x run al True that(2) show ?thesis
      by (simp add: grows_def vmap_pages_def vmap_inv_def vtranslate_def no_block_def vacant_def proper_def)
  next
    case False
    let ?v = "v\<lparr>root_page_table := x\<rparr>"
    have x: "x \<in> avail s" "avail s' = avail s - {x}" "phys s' = zero_page x (phys s)"
      using False cs by auto
    have fin: "finite (avail s)" and px: "page_ok x" and xp: "x \<notin> prot s"
      using avail_pages [OF s] x(1) by auto
    note z = zeroed_tables [OF px, of "phys s"]
    have "card (avail s) \<le> card (avail s') + 1" using x fin by (simp add: card_Diff_singleton)
    moreover have "no_block ?v s' va" and "vacant ?v s' n va" and "proper ?v s'" for va n
    proof -
      have tx: "t = x" if "on_path (phys s') x va n t" for n t va
      proof -
        have "t \<in> table_pages (phys s') x" using that unfolding table_pages_def by blast
        then show ?thesis using z(2) x(3) by simp
      qed
      have "phys s' (slot x n va) = 0" for n va using zero_page_slot [OF px px, of "phys s"] x(3) by simp
      then show "no_block ?v s' va" "vacant ?v s' n va" "proper ?v s'"
        by (auto simp: no_block_def vacant_def proper_def proper_entry_def dest!: tx)
    qed
    ultimately have "grows avail prot 3 1 v s ?v s'"
      using True z x al(3) xp by (auto simp: grows_def vmap_pages_def vmap_inv_def vtranslate_def translate_def)
    then show ?thesis using that(3) run al v False by (simp add: mine_def)
  qed
qed (use that(1) in \<open>simp add: vmap_root_def\<close>)

lemma next_entry_grows:
  assumes s: "ok s" and v: "mine v" and inv: "vmap_inv avail prot v s" and root: "root_page_table v \<noteq> NULL"
    and t: "on_path (phys s) (root_page_table v) va (Suc n) t"
  obtains s' where "vmap_next_entry v t (INDEX (Suc n) va) s = Inr (None, s')" "ok s'" "grows avail prot 3 0 v s v s'"
      "avail s = {}"
  | s' e where "vmap_next_entry v t (INDEX (Suc n) va) s = Inr (Some e, s')" "ok s'" "grows avail prot n 1 v s v s'"
      "e = phys s' (slot t (Suc n) va)" "bit e 0" "on_path (phys s') (root_page_table v) va (Suc n) t"
proof -
  let ?r = "root_page_table v" and ?e = "phys s (slot t (Suc n) va)"
  have tab: "tables (phys s) ?r" and dis: "table_pages (phys s) ?r \<inter> avail s = {}"
    and pro: "table_pages (phys s) ?r \<inter> prot s = {}"
    using inv root by (auto simp: vmap_inv_def)
  have tok: "page_ok t" by (rule tablesD(1) [OF tab t])
  have tp: "t \<notin> prot s" using pro t unfolding table_pages_def by blast
  show ?thesis
  proof (cases "bit ?e 0")
    case True
    then have "vmap_next_entry v t (INDEX (Suc n) va) s = Inr (Some ?e, s)"
      using v load_slot [OF s tok] by (simp add: vmap_next_entry_def mine_def valid_bit)
    moreover have "grows avail prot n 1 v s v s" using inv by (simp add: grows_def)
    ultimately show ?thesis using that(2) s True t by blast
  next
    case False
    obtain x s1 where al: "alloc s = Inr (x, s1)" "ok s1"
      "g_mmap_initialized s1 = g_mmap_initialized s" "prot s1 = prot s" and cs:
      "x = NULL \<and> avail s = {} \<and> avail s1 = {} \<and> phys s1 = phys s \<or>
       x \<in> avail s \<and> avail s1 = avail s - {x} \<and> phys s1 = zero_page x (phys s)"
      using alloc_law [OF s] by blast
    have xn: "x \<noteq> NULL" if "x \<in> avail s" using avail_pages [OF s] that by (auto simp: page_ok_def)
    from cs show ?thesis
    proof
      assume c: "x = NULL \<and> avail s = {} \<and> avail s1 = {} \<and> phys s1 = phys s"
      then have "vmap_next_entry v t (INDEX (Suc n) va) s = Inr (None, s1)"
        using v load_slot [OF s tok] al False by (simp add: vmap_next_entry_def mine_def valid_bit)
      moreover have "grows avail prot 3 0 v s v s1"
        using c inv al(3,4) by (simp add: grows_def vmap_pages_def vmap_inv_def vtranslate_def no_block_def vacant_def proper_def)
      ultimately show ?thesis using that(1) al c by blast
    next
      assume c: "x \<in> avail s \<and> avail s1 = avail s - {x} \<and> phys s1 = zero_page x (phys s)"
      then have px: "page_ok x" "x \<notin> table_pages (phys s) ?r" and fin: "finite (avail s)" and xp: "x \<notin> prot s"
        using avail_pages [OF s] dis by auto
      let ?ph = "fill t (Suc n) va x (phys s)"
      let ?s = "s1\<lparr>phys := ?ph\<rparr>"
      have "?s = s1\<lparr>phys := (phys s1)(slot t (Suc n) va := table_entry x)\<rparr>" using c by (simp add: fill_def)
      from phys_ok [OF al(2) tok _ this] have s2: "ok ?s" "avail ?s = avail s - {x}" "prot ?s = prot s"
        using c tp al(4) by auto
      have p2v1: "pointer_target s1 (p2v s t + 8 * INDEX (Suc n) va) = Some (slot t (Suc n) va)"
        using reach_slot [OF s al(2) al(3) tok] .
      have st: "store (p2v s t + 8 * INDEX (Suc n) va) (table_entry x) s1 = Inr ((), ?s)"
        using c p2v1 by (simp add: store_def fill_def)
      have ld: "load (p2v s t + 8 * INDEX (Suc n) va) ?s = Inr (table_entry x, ?s)"
        using reach_slot [OF s s2(1) _ tok, of "Suc n" va] al(3) by (simp add: load_def fill_def)
      have run: "vmap_next_entry v t (INDEX (Suc n) va) s = Inr (Some (table_entry x), ?s)"
        using v load_slot [OF s tok] al False c xn st ld
        by (simp add: vmap_next_entry_def mine_def valid_bit table_entry_def)
      note ft = fill_tables [OF tab t px]
      have "vmap_inv avail prot v ?s" using ft dis pro xp s2(2,3) by (auto simp: vmap_inv_def)
      moreover have "vtranslate v ?s va' = vtranslate v s va'" for va'
        using walk_fill [OF tab t False px] by (simp add: vtranslate_def translate_def)
      moreover have "no_block v ?s va'" if "no_block v s va'" for va'
        unfolding no_block_def
      proof (intro disjI2 allI impI)
        fix m u assume u: "on_path (phys ?s) ?r va' m u" "m = 1 \<or> m = 2" "bit (phys ?s (slot u m va')) 0"
        have "x \<noteq> t" using px(2) t by (auto simp: table_pages_def)
        then have xt: "x \<noteq> t" .
        have "bit (fill t (Suc n) va x (phys s) (slot u m va')) 1"
          using fill_path [OF tab t px, of va' m u] u that root table_entry_bits(2)
            fill_slot [OF _ tok px(1) xt, of u "Suc n" va "phys s" m va'] tablesD(1) [OF tab, of va' m u] px(1)
          unfolding no_block_def by (auto split: if_splits)
        then show "bit (phys ?s (slot u m va')) 1" by simp
      qed
      moreover have "proper v ?s" if pr: "proper v s"
        unfolding proper_def
      proof (intro disjI2 allI impI)
        fix va' m u assume u: "on_path (phys ?s) ?r va' m u"
        have xt: "x \<noteq> t" using px(2) t by (auto simp: table_pages_def)
        have "u = t \<Longrightarrow> on_path (phys s) ?r va' m u \<Longrightarrow> m = Suc n" using tablesD(2) [OF tab t] by blast
        then have "proper_entry m (fill t (Suc n) va x (phys s) (slot u m va'))"
          using fill_path [OF tab t px, of va' m u] u pr root table_entry_bits(2)
            fill_slot [OF _ tok px(1) xt, of u "Suc n" va "phys s" m va'] tablesD(1) [OF tab, of va' m u] px(1) xt
          unfolding proper_def by (auto simp: proper_entry_def split: if_splits)
        then show "proper_entry m (phys ?s (slot u m va'))" by simp
      qed
      moreover have "vacant v ?s k va'" if k: "vacant v s k va'" "k \<le> n" for k va'
        unfolding vacant_def
      proof (intro disjI2 allI impI)
        fix m u assume u: "on_path (phys ?s) ?r va' m u" "k \<le> m" "bit (phys ?s (slot u m va')) 0"
        have xt: "x \<noteq> t" using px(2) t by (auto simp: table_pages_def)
        have "u = t \<Longrightarrow> on_path (phys s) ?r va' m u \<Longrightarrow> m = Suc n" using tablesD(2) [OF tab t] by blast
        then have "k < m \<and> bit (fill t (Suc n) va x (phys s) (slot u m va')) 1"
          using fill_path [OF tab t px, of va' m u] u k root table_entry_bits(2)
            fill_slot [OF _ tok px(1) xt, of u "Suc n" va "phys s" m va'] tablesD(1) [OF tab, of va' m u] px(1) xt
          unfolding vacant_def by (auto split: if_splits)
        then show "k < m \<and> bit (phys ?s (slot u m va')) 1" by simp
      qed
      moreover have "card (avail s) \<le> card (avail ?s) + 1" using c s2(2) fin by (simp add: card_Diff_singleton)
      moreover have "vmap_pages v ?s \<subseteq> vmap_pages v s \<union> avail s" using ft(2) c root by (auto simp: vmap_pages_def)
      ultimately have "grows avail prot n 1 v s v ?s" using al(3) s2(2) by (auto simp: grows_def)
      moreover have "on_path (phys ?s) ?r va (Suc n) t"
      proof -
        have "on_path ?ph ?r va (Suc n) t"
        proof (rule on_path_cong [OF t])
          fix t' m assume *: "on_path (phys s) ?r va m t'" "Suc n < m"
          then have "t' \<noteq> t" "t' \<noteq> x" "x \<noteq> t" using tablesD(2) [OF tab t] px(2) t
            unfolding table_pages_def by blast+
          then show "?ph (slot t' m va) = phys s (slot t' m va)"
            using fill_slot [OF tablesD(1) [OF tab *(1)] tok px(1)] by simp
        qed
        then show ?thesis by simp
      qed
      moreover have "table_entry x = phys ?s (slot t (Suc n) va)" by (simp add: fill_def)
      ultimately show ?thesis using that(2) [OF run s2(1)] table_entry_bits(1) by blast
    qed
  qed
qed


lemma entry_on_path:
  assumes "ok s" "mine v" "tables (phys s) (root_page_table v)" "on_path (phys s) (root_page_table v) va n t"
  shows "vmap_entry v t (INDEX n va) s =
    Inr (if bit (phys s (slot t n va)) 0 then Some (phys s (slot t n va)) else None, s)"
  using assms load_slot [OF assms(1) tablesD(1) [OF assms(3,4)], of n va]
  by (simp add: vmap_entry_def mine_def valid_bit)

text \<open>The software walk computes the translation.\<close>

lemma virtual_to_physical_correct:
  assumes s: "ok s" and v: "mine v" and inv: "vmap_inv avail prot v s"
  shows "vmap_virtual_to_physical v va s = Inr (vtranslate v s va, s)"
proof (cases "root_page_table v = NULL")
  case True
  then show ?thesis by (simp add: vmap_virtual_to_physical_def vtranslate_def translate_def)
next
  case False
  then have tab: "tables (phys s) (root_page_table v)" using inv by (simp add: vmap_inv_def)
  note en = entry_on_path [OF s v tab]
  let ?ph = "phys s" and ?r = "root_page_table v"
  let ?e3 = "?ph (slot ?r 3 va)" let ?t2 = "?e3 AND TBL_ENTRY_ADDR_MASK"
  let ?e2 = "?ph (slot ?t2 2 va)" let ?t1 = "?e2 AND TBL_ENTRY_ADDR_MASK"
  let ?e1 = "?ph (slot ?t1 1 va)" let ?t0 = "?e1 AND TBL_ENTRY_ADDR_MASK"
  let ?e0 = "?ph (slot ?t0 0 va)"
  have p2: "bit ?e3 0 \<Longrightarrow> on_path ?ph ?r va 2 ?t2"
    using on_path_down [of ?ph ?r va 2 ?r] on_path_root [of ?ph ?r va] tablesD(4) [OF tab]
    by (simp add: numeral_3_eq_3)
  have p1: "on_path ?ph ?r va 2 ?t2 \<Longrightarrow> bit ?e2 0 \<Longrightarrow> bit ?e2 1 \<Longrightarrow> on_path ?ph ?r va 1 ?t1"
    using on_path_down [of ?ph ?r va 1 ?t2] by (simp add: numeral_2_eq_2)
  have p0: "on_path ?ph ?r va 1 ?t1 \<Longrightarrow> bit ?e1 0 \<Longrightarrow> bit ?e1 1 \<Longrightarrow> on_path ?ph ?r va 0 ?t0"
    using on_path_down [of ?ph ?r va 0 ?t1] by simp
  show ?thesis
    using False p2 p1 p0 en [OF on_path_root, of va] en [of va 2 ?t2] en [of va 1 ?t1] en [of va 0 ?t0]
    unfolding vtranslate_def translate_def walk_heights vmap_virtual_to_physical_def L_INDEX target_heights [symmetric]
    by (simp add: Let_def valid_bit table_bit)
qed


text \<open>One level down, when the entry of the address is not a block.\<close>

lemma next_table_grows:
  assumes s: "ok s" and v: "mine v" and inv: "vmap_inv avail prot v s" and root: "root_page_table v \<noteq> NULL"
    and t: "on_path (phys s) (root_page_table v) va (Suc n) t"
    and nb: "n = 2 \<or> no_block v s va"
  obtains s' where "vmap_next_entry v t (INDEX (Suc n) va) s = Inr (None, s')" "ok s'" "grows avail prot n 0 v s v s'"
      "avail s = {}"
  | s' e where "vmap_next_entry v t (INDEX (Suc n) va) s = Inr (Some e, s')" "ok s'" "grows avail prot n 1 v s v s'"
      "bit e 1" "on_path (phys s') (root_page_table v) va n (e AND TBL_ENTRY_ADDR_MASK)"
proof (rule next_entry_grows [OF s v inv root t])
  have n: "Suc n \<le> 3" using on_path_le [OF t] .
  fix s' assume "vmap_next_entry v t (INDEX (Suc n) va) s = Inr (None, s')" "ok s'" "grows avail prot 3 0 v s v s'"
    "avail s = {}"
  with that(1) n show thesis by (auto simp: grows_def)
next
  fix s' e
  assume *: "vmap_next_entry v t (INDEX (Suc n) va) s = Inr (Some e, s')" "ok s'" "grows avail prot n 1 v s v s'"
    "e = phys s' (slot t (Suc n) va)" "bit e 0" "on_path (phys s') (root_page_table v) va (Suc n) t"
  have inv': "vmap_inv avail prot v s'" using growsD(1) [OF *(3)] .
  then have tab: "tables (phys s') (root_page_table v)" using root by (simp add: vmap_inv_def)
  have "bit e 1"
  proof (cases "n = 2")
    case True
    then have "t = root_page_table v" using *(6) by (simp add: on_path_3)
    then show ?thesis using tablesD(4) [OF tab, of va] *(4,5) True by simp
  next
    case False
    then have "no_block v s' va" and "Suc n = 1 \<or> Suc n = 2"
      using nb growsD(3) [OF *(3)] on_path_le [OF t] by auto
    then show ?thesis using *(4,5,6) root unfolding no_block_def by blast
  qed
  with that(2) on_path_down [OF *(6)] * show thesis by simp
qed

text \<open>The root table of a vmap, allocated or not.\<close>

lemma root_table_grows:
  assumes s: "ok s" and v: "mine v" and inv: "vmap_inv avail prot v s"
  obtains s' where "vmap_root v s = Inr (None, s')" "ok s'" "grows avail prot 3 0 v s v s'" "avail s = {}"
  | s' v' where "vmap_root v s = Inr (Some v', s')" "ok s'" "mine v'" "root_page_table v' \<noteq> NULL"
      "grows avail prot 3 1 v s v' s'"
proof (rule vmap_root_grows [OF s v inv])
  assume "vmap_root v s = Inr (Some v, s)" "root_page_table v \<noteq> NULL"
  moreover have "grows avail prot 3 1 v s v s" by (rule grows_refl [OF inv])
  ultimately show thesis using that(2) s v by blast
qed (use that in blast)+

end

text \<open>
  What mapping a page (\<open>n = 0\<close>), a 2 MB block (1) or a 1 GB block (2) does: the addresses with the
  prefix of \<open>va\<close> are translated into the page or block of \<open>pa\<close>, every other address as before.
\<close>

definition maps :: "('a machine_scheme \<Rightarrow> u64 set) \<Rightarrow> ('a machine_scheme \<Rightarrow> u64 set) \<Rightarrow> nat \<Rightarrow> nat \<Rightarrow> u64 \<Rightarrow> u64 \<Rightarrow> 'a machine_scheme vmap
     \<Rightarrow> 'a machine_scheme \<Rightarrow> 'a machine_scheme vmap \<Rightarrow> 'a machine_scheme \<Rightarrow> bool" where
  "maps avail prot k n va pa v s v' s' \<longleftrightarrow>
     vmap_inv avail prot v' s' \<and> root_page_table v' \<noteq> NULL \<and>
     (\<forall>va'. vtranslate v' s' va' =
        (if prefix n va' = prefix n va then Some (target n pa va') else vtranslate v s va')) \<and>
     (n = 0 \<longrightarrow> (\<forall>va'. no_block v s va' \<longrightarrow> no_block v' s' va')) \<and>
     (\<forall>va'. prefix n va' \<noteq> prefix n va \<longrightarrow> vacant v s n va' \<longrightarrow> vacant v' s' n va') \<and>
     (proper v s \<longrightarrow> proper v' s') \<and>
     (root_page_table v \<noteq> NULL \<longrightarrow> v' = v) \<and> v' = v\<lparr>root_page_table := root_page_table v'\<rparr> \<and>
     vmap_pages v' s' \<subseteq> vmap_pages v s \<union> avail s \<and> avail s' \<subseteq> avail s \<and>
     g_mmap_initialized s' = g_mmap_initialized s \<and> card (avail s) \<le> card (avail s') + k"

lemma page_flags_bits:
  assumes "page_flags AND TBL_ENTRY_ADDR_MASK = 0"
  shows "bit page_flags k \<Longrightarrow> \<not> bit TBL_ENTRY_ADDR_MASK k"
  using assms by (metis bit_0_eq bit_and_iff bot_apply bot_bool_def)

lemma page_entry_bits:
  fixes flags pa defines "e \<equiv> TBL_ENTRY_VALID OR TBL_ENTRY_TABLE OR PAGE_FLAG_ACCESS OR flags OR (pa AND TBL_ENTRY_ADDR_MASK)"
  assumes "flags AND TBL_ENTRY_ADDR_MASK = 0"
  shows "bit e 0" "target 0 e va = target 0 pa va" "proper_entry 0 e"
proof -
  show "bit e 0" unfolding e_def by (simp add: bit_flags)
  show "proper_entry 0 e" unfolding e_def proper_entry_def by (simp add: bit_flags)
  have "e AND TBL_ENTRY_ADDR_MASK = pa AND TBL_ENTRY_ADDR_MASK"
    unfolding e_def using page_flags_bits [OF assms(2)]
    by (intro bit_word_eqI) (auto simp only: bit_flags)
  then show "target 0 e va = target 0 pa va" by (simp only: target_def and.assoc [symmetric])
qed

lemma block_entry_bits:
  fixes flags pa n
  defines "e \<equiv> TBL_ENTRY_VALID OR TBL_ENTRY_BLOCK OR PAGE_FLAG_ACCESS OR flags OR
     (pa AND (TBL_ENTRY_ADDR_MASK AND NOT (mask (12 + 9 * n))))"
  assumes "flags AND TBL_ENTRY_ADDR_MASK = 0" "flags AND TBL_ENTRY_TABLE = 0"
  shows "bit e 0" "\<not> bit e 1" "target n e va = target n pa va" "n \<noteq> 0 \<Longrightarrow> proper_entry n e"
proof -
  show "bit e 0" unfolding e_def by (simp add: bit_flags)
  show "n \<noteq> 0 \<Longrightarrow> proper_entry n e" unfolding e_def proper_entry_def by (simp add: bit_flags)
  show "\<not> bit e 1" using assms(3) unfolding e_def table_bit by (simp add: bit_flags)
  have "e AND TBL_ENTRY_ADDR_MASK AND NOT (mask (12 + 9 * n)) = pa AND TBL_ENTRY_ADDR_MASK AND NOT (mask (12 + 9 * n))"
    unfolding e_def using page_flags_bits [OF assms(2)]
    by (intro bit_word_eqI) (auto simp only: bit_flags bit_not_iff bit_mask_iff bit_0_eq bot_apply bot_bool_def)
  then show "target n e va = target n pa va" by (simp only: target_def)
qed

context page_source
begin

lemma leaf_maps:
  assumes s: "ok s" and v: "mine v" and inv: "vmap_inv avail prot v s" and root: "root_page_table v \<noteq> NULL"
    and t: "on_path (phys s) (root_page_table v) va n t"
    and e: "bit e 0" "n = 0 \<or> n \<noteq> 3 \<and> \<not> bit e 1" "\<And>va'. target n e va' = target n pa va'" "proper_entry n e"
  shows "\<exists>s'. store (p2v s t + 8 * INDEX n va) e s = Inr ((), s') \<and> ok s' \<and> maps avail prot 0 n va pa v s v s'"
proof -
  let ?s = "s\<lparr>phys := (phys s)(slot t n va := e)\<rparr>" and ?r = "root_page_table v"
  have tab: "tables (phys s) ?r" and dis: "table_pages (phys s) ?r \<inter> avail s = {}"
    and pro: "table_pages (phys s) ?r \<inter> prot s = {}"
    using inv root by (auto simp: vmap_inv_def)
  note w = leaf_write [OF tab t e(1,2)]
  have tok: "page_ok t" by (rule tablesD(1) [OF tab t])
  have st: "store (p2v s t + 8 * INDEX n va) e s = Inr ((), ?s)" by (rule store_slot [OF s tok])
  have "t \<notin> prot s" using pro t unfolding table_pages_def by blast
  then have ok: "ok ?s" "avail ?s = avail s" "prot ?s = prot s" using phys_ok [OF s tok _ refl] by auto
  have hit: "phys ?s (slot u m w) = (if u = t \<and> prefix n w = prefix n va then e else phys s (slot u m w))"
    if "on_path (phys s) ?r w m u" for u m w
    using slot_eq_iff [OF tablesD(1) [OF tab that] tok, of m w n va] same_slot [OF tab t, of w m] that
    by auto
  have path: "on_path (phys s) ?r w m u" if "on_path (phys ?s) ?r w m u" for w m u
    using leaf_path [OF tab t e(1,2)] that by simp
  have pro': "proper v ?s" if "proper v s"
    unfolding proper_def
  proof (intro disjI2 allI impI)
    fix va' m u assume u: "on_path (phys ?s) ?r va' m u"
    have "u = t \<Longrightarrow> m = n" using tablesD(2) [OF tab path [OF u] , of va n] t by blast
    moreover have "proper_entry m (phys s (slot u m va'))" using that path [OF u] root unfolding proper_def by blast
    ultimately show "proper_entry m (phys ?s (slot u m va'))"
      using e(4) unfolding hit [OF path [OF u]] by (cases "u = t \<and> prefix n va' = prefix n va") auto
  qed
  have nb: "no_block v ?s va'" if "no_block v s va'" "n = 0" for va'
    unfolding no_block_def
  proof (intro disjI2 allI impI)
    fix m u assume u: "on_path (phys ?s) ?r va' m u" "m = 1 \<or> m = 2" "bit (phys ?s (slot u m va')) 0"
    have "u \<noteq> t" using tablesD(2) [OF tab path [OF u(1)], of va n] t u(2) that(2) by auto
    then show "bit (phys ?s (slot u m va')) 1"
      using u that(1) path [OF u(1)] hit [OF path [OF u(1)]] root by (auto simp: no_block_def)
  qed
  have vac: "vacant v ?s n va'" if "vacant v s n va'" "prefix n va' \<noteq> prefix n va" for va'
    unfolding vacant_def
  proof (intro disjI2 allI impI)
    fix m u assume u: "on_path (phys ?s) ?r va' m u" "n \<le> m" "bit (phys ?s (slot u m va')) 0"
    then show "n < m \<and> bit (phys ?s (slot u m va')) 1"
      using that path [OF u(1)] hit [OF path [OF u(1)]] root by (auto simp: vacant_def)
  qed
  have inv': "vmap_inv avail prot v ?s" using w(1,2) dis pro ok(2,3) by (auto simp: vmap_inv_def)
  have tr: "vtranslate v ?s va' = (if prefix n va' = prefix n va then Some (target n pa va') else vtranslate v s va')" for va'
    using w(3) [of va'] root e(3) by (simp add: vtranslate_def translate_def)
  have pages: "vmap_pages v ?s \<subseteq> vmap_pages v s \<union> avail s" using w(2) root by (auto simp: vmap_pages_def)
  have "maps avail prot 0 n va pa v s v ?s" unfolding maps_def
  proof (intro conjI)
    show "n = 0 \<longrightarrow> (\<forall>va'. no_block v s va' \<longrightarrow> no_block v ?s va')" using nb by blast
    show "\<forall>va'. prefix n va' \<noteq> prefix n va \<longrightarrow> vacant v s n va' \<longrightarrow> vacant v ?s n va'" using vac by blast
    show "proper v s \<longrightarrow> proper v ?s" using pro' by blast
    show "avail ?s \<subseteq> avail s" "card (avail s) \<le> card (avail ?s) + 0" using ok(2) by simp_all
  qed (use inv' tr pages root in simp_all)
  then show ?thesis using st ok(1) by (intro exI conjI)
qed

lemma maps_after_grows:
  assumes "grows avail prot h k v s v' s'" "maps avail prot l n va pa v' s' v' s''" "root_page_table v' \<noteq> NULL" "n \<le> h"
  shows "maps avail prot (k + l) n va pa v s v' s''"
proof -
  have g: "\<forall>va. vtranslate v' s' va = vtranslate v s va" "\<forall>va. no_block v s va \<longrightarrow> no_block v' s' va"
    "\<forall>va. vacant v s n va \<longrightarrow> vacant v' s' n va" "proper v s \<longrightarrow> proper v' s'"
    "vmap_pages v' s' \<subseteq> vmap_pages v s \<union> avail s" "avail s' \<subseteq> avail s"
    "g_mmap_initialized s' = g_mmap_initialized s" "card (avail s) \<le> card (avail s') + k"
    using assms(1,4) by (simp_all add: grows_def)
  have m: "\<forall>va'. vtranslate v' s'' va' =
      (if prefix n va' = prefix n va then Some (target n pa va') else vtranslate v' s' va')"
    "n = 0 \<longrightarrow> (\<forall>va'. no_block v' s' va' \<longrightarrow> no_block v' s'' va')"
    "\<forall>va'. prefix n va' \<noteq> prefix n va \<longrightarrow> vacant v' s' n va' \<longrightarrow> vacant v' s'' n va'"
    "proper v' s' \<longrightarrow> proper v' s''"
    "vmap_pages v' s'' \<subseteq> vmap_pages v' s' \<union> avail s'" "avail s'' \<subseteq> avail s'"
    "g_mmap_initialized s'' = g_mmap_initialized s'" "card (avail s') \<le> card (avail s'') + l"
    using assms(2) by (simp_all add: maps_def)
  show ?thesis unfolding maps_def
  proof (intro conjI)
    show "vmap_inv avail prot v' s''" using assms(2) by (simp add: maps_def)
    show "root_page_table v' \<noteq> NULL" by (rule assms(3))
    show "root_page_table v \<noteq> NULL \<longrightarrow> v' = v" "v' = v\<lparr>root_page_table := root_page_table v'\<rparr>"
      using assms(1) by (simp_all add: grows_def)
    show "vmap_pages v' s'' \<subseteq> vmap_pages v s \<union> avail s" using g(5,6) m(5) by blast
    show "card (avail s) \<le> card (avail s'') + (k + l)" using g(8) m(8) by simp
    show "n = 0 \<longrightarrow> (\<forall>va'. no_block v s va' \<longrightarrow> no_block v' s'' va')" using g(2) m(2) by blast
    show "\<forall>va'. prefix n va' \<noteq> prefix n va \<longrightarrow> vacant v s n va' \<longrightarrow> vacant v' s'' n va'" using g(3) m(3) by blast
    show "proper v s \<longrightarrow> proper v' s''" using g(4) m(4) by blast
  qed (use g(1,6,7) m(1,6,7) in \<open>auto\<close>)
qed

text \<open>
  The steps of the mapping operations as rules: \<open>Q\<close> holds of a run if it holds of the early
  return, which happens only when no page is left, and of the continuation.
\<close>

lemma attempt_root:
  assumes s: "ok s" and v: "mine v" and inv: "vmap_inv avail prot v s" and h: "h \<le> 3"
    and fails: "\<And>s'. ok s' \<Longrightarrow> grows avail prot h 0 v s v s' \<Longrightarrow> avail s = {} \<Longrightarrow> Q (Inr (r, s'))"
    and cont: "\<And>s' v'. ok s' \<Longrightarrow> mine v' \<Longrightarrow> root_page_table v' \<noteq> NULL \<Longrightarrow> grows avail prot h 1 v s v' s' \<Longrightarrow>
      on_path (phys s') (root_page_table v') va 3 (root_page_table v') \<Longrightarrow> Q (f v' s')"
  shows "Q (attempt (vmap_root v) r f s)"
proof (rule root_table_grows [OF s v inv])
  fix s' assume "vmap_root v s = Inr (None, s')" "ok s'" "grows avail prot 3 0 v s v s'" "avail s = {}"
  with fails h show ?thesis by (simp add: grows_def)
next
  fix s' v' assume "vmap_root v s = Inr (Some v', s')" "ok s'" "mine v'" "root_page_table v' \<noteq> NULL"
    "grows avail prot 3 1 v s v' s'"
  with cont h on_path_root show ?thesis by (simp add: grows_def)
qed

lemma attempt_next:
  assumes s: "ok s1" and v: "mine v1" and root: "root_page_table v1 \<noteq> NULL"
    and g: "grows avail prot h k v s v1 s1" and t: "on_path (phys s1) (root_page_table v1) va (Suc n) t"
    and nb: "n = 2 \<or> no_block v s va" and h: "h \<le> n"
    and fails: "\<And>s'. ok s' \<Longrightarrow> grows avail prot h k v s v1 s' \<Longrightarrow> card (avail s) \<le> k \<Longrightarrow> Q (Inr (r, s'))"
    and cont: "\<And>s' e. ok s' \<Longrightarrow> grows avail prot h (Suc k) v s v1 s' \<Longrightarrow> bit e 1 \<Longrightarrow>
      on_path (phys s') (root_page_table v1) va n (e AND TBL_ENTRY_ADDR_MASK) \<Longrightarrow> Q (f e s')"
  shows "Q (attempt (vmap_next_entry v1 t (INDEX (Suc n) va)) r f s1)"
proof -
  have nb1: "n = 2 \<or> no_block v1 s1 va" using nb growsD(3) [OF g] by blast
  show ?thesis
  proof (rule next_table_grows [OF s v growsD(1) [OF g] root t nb1])
    fix s' assume *: "vmap_next_entry v1 t (INDEX (Suc n) va) s1 = Inr (None, s')" "ok s'"
      "grows avail prot n 0 v1 s1 v1 s'" "avail s1 = {}"
    with fails [of s'] grows_trans [OF g *(3), of h] h growsD(7) [OF g] show ?thesis by simp
  next
    fix s' e assume *: "vmap_next_entry v1 t (INDEX (Suc n) va) s1 = Inr (Some e, s')" "ok s'"
      "grows avail prot n 1 v1 s1 v1 s'" "bit e 1"
      "on_path (phys s') (root_page_table v1) va n (e AND TBL_ENTRY_ADDR_MASK)"
    with cont [of s' e] grows_trans [OF g *(3), of h] h show ?thesis by simp
  qed
qed

text \<open>
  The outcome of mapping at height \<open>n\<close>: either 0, and the page or block is mapped, or -1, with
  the reason \<open>why\<close>, and no translation has changed.
\<close>

definition map_outcome :: "bool \<Rightarrow> nat \<Rightarrow> u64 \<Rightarrow> u64 \<Rightarrow> 'a machine_scheme vmap \<Rightarrow> 'a machine_scheme
    \<Rightarrow> fault + (int \<times> 'a machine_scheme vmap) \<times> 'a machine_scheme \<Rightarrow> bool" where
  "map_outcome why n va pa v s res \<longleftrightarrow> (\<exists>r v' s'. res = Inr ((r, v'), s') \<and> ok s' \<and> mine v' \<and>
     (r = 0 \<and> maps avail prot (4 - n) n va pa v s v' s' \<or>
      r = -1 \<and> grows avail prot n (4 - n) v s v' s' \<and> (card (avail s) < 4 - n \<or> why)))"

lemma map_outcome_fails:
  assumes "ok s'" "mine v'" "grows avail prot h k v s v' s'" "card (avail s) \<le> k \<or> why" "n \<le> h" "k < 4 - n"
  shows "map_outcome why n va pa v s (Inr ((-1, v'), s'))"
  using assms unfolding map_outcome_def grows_def by auto

lemma map_outcome_store:
  assumes s: "ok s1" and v: "mine v1" and root: "root_page_table v1 \<noteq> NULL"
    and g: "grows avail prot n (4 - n) v s v1 s1" and t: "on_path (phys s1) (root_page_table v1) va n t"
    and e: "bit e 0" "n = 0 \<or> n \<noteq> 3 \<and> \<not> bit e 1" "\<And>va'. target n e va' = target n pa va'" "proper_entry n e"
  shows "map_outcome why n va pa v s (thn (store (p2v s1 t + 8 * INDEX n va) e) (ret (0, v1)) s1)"
proof -
  obtain s' where "store (p2v s1 t + 8 * INDEX n va) e s1 = Inr ((), s')" "ok s'" "maps avail prot 0 n va pa v1 s1 v1 s'"
    using leaf_maps [OF s v growsD(1) [OF g] root t e] by blast
  then show ?thesis using v maps_after_grows [OF g _ root, of 0 n va pa s'] by (simp add: map_outcome_def)
qed

text \<open>Mapping a page succeeds unless the pages for new tables run out.\<close>

lemma path_heights:
  "on_path ph r va 3 t \<longleftrightarrow> on_path ph r va (Suc 2) t" "INDEX 3 va = INDEX (Suc 2) va"
  "INDEX 2 va = INDEX (Suc 1) va" "INDEX 1 va = INDEX (Suc 0) va"
  by (simp_all add: numeral_3_eq_3 numeral_2_eq_2)

lemma map_page_outcome:
  assumes s: "ok s" and v: "mine v" and inv: "vmap_inv avail prot v s" and nb: "no_block v s va"
    and fl: "page_flags AND TBL_ENTRY_ADDR_MASK = 0"
  shows "map_outcome False 0 va pa v s (vmap_map_page v pa va page_flags s)"
  unfolding vmap_map_page_def L_INDEX path_heights(2-4)
proof (rule attempt_root [OF s v inv, where h = 0 and va = va], goal_cases _ fails down)
  case (down s1 v1)
  note next_rule = attempt_next [OF _ down(2,3), where h = 0, OF _ _ _ disjI2 [OF nb]]
  note failing = map_outcome_fails [where h = 0 and n = 0, OF _ down(2)]
  show ?case
  proof (rule next_rule [OF down(1,4) down(5) [unfolded path_heights(1)]], goal_cases _ fails down2)
    case (down2 s2 l0)
    show ?case
    proof (rule next_rule [OF down2(1,2) down2(4) [unfolded numeral_2_eq_2, folded One_nat_def]], goal_cases _ fails down3)
      case (down3 s3 l1)
      show ?case
      proof (rule next_rule [OF down3(1,2) down3(4) [unfolded One_nat_def]], goal_cases _ fails down4)
        case (down4 s4 l2)
        have g4: "grows avail prot 0 (4 - 0) v s v1 s4" using down4(2) by (simp add: eval_nat_numeral)
        note store = map_outcome_store [OF down4(1) down(2,3) g4 down4(4),
            OF page_entry_bits(1) [OF fl] disjI1 [OF refl] page_entry_bits(2,3) [OF fl]]
        show ?case using store down(2) by (simp add: mine_def)
      qed (use failing in auto)
    qed (use failing in auto)
  qed (use failing in auto)
qed (use v map_outcome_fails [where h = 0 and n = 0] in auto)

lemma map_l1_block_outcome:
  assumes s: "ok s" and v: "mine v" and inv: "vmap_inv avail prot v s"
    and al: "va mod TBL_L1_BLOCK_SIZE = 0" "pa mod TBL_L1_BLOCK_SIZE = 0"
    and fl: "page_flags AND TBL_ENTRY_ADDR_MASK = 0" "page_flags AND TBL_ENTRY_TABLE = 0"
  shows "map_outcome (\<not> vacant v s 2 va) 2 va pa v s (vmap_map_l1_block v va pa page_flags s)"
proof -
  have m: "TBL_ENTRY_L1_BLOCK_ADDR_MASK = TBL_ENTRY_ADDR_MASK AND NOT (mask (12 + 9 * 2))"
    by (simp add: mask_eq_exp_minus_1)
  let ?m = "TBL_ENTRY_ADDR_MASK AND NOT (mask (12 + 9 * 2)) :: u64"
  let ?e = "TBL_ENTRY_VALID OR TBL_ENTRY_BLOCK OR PAGE_FLAG_ACCESS OR page_flags OR (pa AND ?m)"
  have "map_outcome (\<not> vacant v s 2 va) 2 va pa v s (attempt (vmap_root v) (-1, v) (\<lambda>vmap.
        attempt (vmap_next_entry vmap (root_page_table vmap) (INDEX (Suc 2) va)) (-1, vmap) (\<lambda>l0_entry.
        if l0_entry AND TBL_ENTRY_TABLE = 0 then ret (-1, vmap)
        else
          bnd (rd (\<lambda>s. physical_to_virtual vmap s (l0_entry AND TBL_ENTRY_ADDR_MASK))) (\<lambda>l1_page_table.
          bnd (load (l1_page_table + 8 * INDEX 2 va)) (\<lambda>l1_entry.
          if l1_entry AND TBL_ENTRY_VALID = 0 then
            thn (store (l1_page_table + 8 * INDEX 2 va) ?e) (ret (0, vmap))
          else ret (-1, vmap))))) s)"
  proof (rule attempt_root [OF s v inv, where h = 2 and va = va], goal_cases _ fails down)
    case (down s1 v1)
    show ?case
    proof (rule attempt_next [OF down(1-3) down(4) down(5) [unfolded path_heights(1)] disjI1], goal_cases _ _ fails down2)
      case (down2 s2 l0)
      let ?t = "l0 AND TBL_ENTRY_ADDR_MASK"
      have inv2: "vmap_inv avail prot v1 s2" using growsD(1) [OF down2(2)] .
      then have tab: "tables (phys s2) (root_page_table v1)" using down(3) by (simp add: vmap_inv_def)
      have tok: "page_ok ?t" by (rule tablesD(1) [OF tab down2(4)])
      have nz: "l0 AND TBL_ENTRY_TABLE \<noteq> 0" using down2(3) by (simp add: table_bit)
      have ld: "load (p2v s2 ?t + 8 * INDEX 2 va) s2 = Inr (phys s2 (slot ?t 2 va), s2)"
        by (rule load_slot [OF down2(1) tok])
      have g2: "grows avail prot 2 (4 - 2) v s v1 s2" using down2(2) by (simp add: eval_nat_numeral)
      show ?case
      proof (cases "bit (phys s2 (slot ?t 2 va)) 0")
        case True
        then have "\<not> vacant v s 2 va"
          using growsD(4) [OF g2, of 2 va] down2(4) down(3) by (auto simp: vacant_def)
        then show ?thesis using True nz ld down(2) g2 down2(1) by (simp add: mine_def valid_bit map_outcome_def)
      next
        case False
        have "map_outcome (\<not> vacant v s 2 va) 2 va pa v s (thn (store (p2v s2 ?t + 8 * INDEX 2 va) ?e) (ret (0, v1)) s2)"
          by (rule map_outcome_store [OF down2(1) down(2,3) g2 down2(4)])
             (use block_entry_bits [OF fl, where pa = pa and n = 2] in auto)
        then show ?thesis using False nz ld down(2) by (simp add: mine_def valid_bit)
      qed
    qed (use down map_outcome_fails [where h = 2 and n = 2] in auto)
  qed (use v map_outcome_fails [where h = 2 and n = 2] in auto)
  then show ?thesis using al unfolding vmap_map_l1_block_def L_INDEX path_heights(2) m by simp
qed

lemma attempt_entry:
  assumes s: "ok s1" and v: "mine v1" and root: "root_page_table v1 \<noteq> NULL"
    and g: "grows avail prot h k v s v1 s1" and t: "on_path (phys s1) (root_page_table v1) va (Suc n) t" and h: "h \<le> n"
    and fails: "\<And>s'. ok s' \<Longrightarrow> grows avail prot h k v s v1 s' \<Longrightarrow> card (avail s) \<le> k \<Longrightarrow> Q (Inr (r, s'))"
    and cont: "\<And>s' e. ok s' \<Longrightarrow> grows avail prot h (Suc k) v s v1 s' \<Longrightarrow> e = phys s' (slot t (Suc n) va) \<Longrightarrow> bit e 0 \<Longrightarrow>
      on_path (phys s') (root_page_table v1) va (Suc n) t \<Longrightarrow> Q (f e s')"
  shows "Q (attempt (vmap_next_entry v1 t (INDEX (Suc n) va)) r f s1)"
proof (rule next_entry_grows [OF s v growsD(1) [OF g] root t])
  have n: "Suc n \<le> 3" using on_path_le [OF t] .
  fix s' assume *: "vmap_next_entry v1 t (INDEX (Suc n) va) s1 = Inr (None, s')" "ok s'"
    "grows avail prot 3 0 v1 s1 v1 s'" "avail s1 = {}"
  with fails [of s'] grows_trans [OF g *(3), of h] h n growsD(7) [OF g] show ?thesis by simp
next
  fix s' e assume *: "vmap_next_entry v1 t (INDEX (Suc n) va) s1 = Inr (Some e, s')" "ok s'"
    "grows avail prot n 1 v1 s1 v1 s'" "e = phys s' (slot t (Suc n) va)" "bit e 0"
    "on_path (phys s') (root_page_table v1) va (Suc n) t"
  with cont [of s' e] grows_trans [OF g *(3), of h] h show ?thesis by simp
qed

lemma map_l2_block_outcome:
  assumes s: "ok s" and v: "mine v" and inv: "vmap_inv avail prot v s"
    and al: "va mod TBL_L2_BLOCK_SIZE = 0" "pa mod TBL_L2_BLOCK_SIZE = 0"
    and fl: "page_flags AND TBL_ENTRY_ADDR_MASK = 0" "page_flags AND TBL_ENTRY_TABLE = 0"
  shows "map_outcome (\<not> vacant v s 1 va) 1 va pa v s (vmap_map_l2_block v va pa page_flags s)"
proof -
  have m: "TBL_ENTRY_L2_BLOCK_ADDR_MASK = TBL_ENTRY_ADDR_MASK AND NOT (mask (12 + 9 * 1))"
    by (simp add: mask_eq_exp_minus_1)
  let ?m = "TBL_ENTRY_ADDR_MASK AND NOT (mask (12 + 9 * 1)) :: u64"
  let ?e = "TBL_ENTRY_VALID OR TBL_ENTRY_BLOCK OR PAGE_FLAG_ACCESS OR page_flags OR (pa AND ?m)"
  have "map_outcome (\<not> vacant v s 1 va) 1 va pa v s (attempt (vmap_root v) (-1, v) (\<lambda>vmap.
        attempt (vmap_next_entry vmap (root_page_table vmap) (INDEX (Suc 2) va)) (-1, vmap) (\<lambda>l0_entry.
        if l0_entry AND TBL_ENTRY_TABLE = 0 then ret (-1, vmap)
        else
        attempt (vmap_next_entry vmap (l0_entry AND TBL_ENTRY_ADDR_MASK) (INDEX (Suc 1) va)) (-1, vmap) (\<lambda>l1_entry.
        if l1_entry AND TBL_ENTRY_TABLE = 0 then ret (-1, vmap)
        else
          bnd (rd (\<lambda>s. physical_to_virtual vmap s (l1_entry AND TBL_ENTRY_ADDR_MASK))) (\<lambda>l2_page_table.
          bnd (load (l2_page_table + 8 * INDEX 1 va)) (\<lambda>l2_entry.
          if l2_entry AND TBL_ENTRY_VALID = 0 then
            thn (store (l2_page_table + 8 * INDEX 1 va) ?e) (ret (0, vmap))
          else ret (-1, vmap)))))) s)"
  proof (rule attempt_root [OF s v inv, where h = 1 and va = va], goal_cases _ fails down)
    case (down s1 v1)
    show ?case
    proof (rule attempt_next [OF down(1-3) down(4) down(5) [unfolded path_heights(1)] disjI1], goal_cases _ _ fails down2)
      case (down2 s2 l0)
      have nz: "l0 AND TBL_ENTRY_TABLE \<noteq> 0" using down2(3) by (simp add: table_bit)
      have "map_outcome (\<not> vacant v s 1 va) 1 va pa v s
        (attempt (vmap_next_entry v1 (l0 AND TBL_ENTRY_ADDR_MASK) (INDEX (Suc 1) va)) (-1, v1) (\<lambda>l1_entry.
        if l1_entry AND TBL_ENTRY_TABLE = 0 then ret (-1, v1)
        else
          bnd (rd (\<lambda>s. physical_to_virtual v1 s (l1_entry AND TBL_ENTRY_ADDR_MASK))) (\<lambda>l2_page_table.
          bnd (load (l2_page_table + 8 * INDEX 1 va)) (\<lambda>l2_entry.
          if l2_entry AND TBL_ENTRY_VALID = 0 then
            thn (store (l2_page_table + 8 * INDEX 1 va) ?e) (ret (0, v1))
          else ret (-1, v1)))) s2)"
      proof (rule attempt_entry [OF down2(1) down(2,3) down2(2) down2(4) [unfolded numeral_2_eq_2, folded One_nat_def]],
          goal_cases _ fails down3)
        case (down3 s3 l1)
        let ?t = "l1 AND TBL_ENTRY_ADDR_MASK"
        have inv3: "vmap_inv avail prot v1 s3" using growsD(1) [OF down3(2)] .
        then have tab: "tables (phys s3) (root_page_table v1)" using down(3) by (simp add: vmap_inv_def)
        have g3: "grows avail prot 1 (4 - 1) v s v1 s3" using down3(2) by (simp add: eval_nat_numeral)
        have vac: "vacant v s 1 va \<Longrightarrow> vacant v1 s3 1 va" using growsD(4) [OF g3] by simp
        show ?case
        proof (cases "bit l1 1")
          case False
          then have "\<not> vacant v s 1 va"
            using vac down3(3,4,5) down(3) unfolding vacant_def by (meson le_SucI order_refl)
          then show ?thesis using False down(2) g3 down3(1) by (simp add: table_bit map_outcome_def)
        next
          case l1: True
          have t: "on_path (phys s3) (root_page_table v1) va 1 ?t"
            using on_path_down [OF down3(5)] down3(3,4) l1 by simp
          have tok: "page_ok ?t" by (rule tablesD(1) [OF tab t])
          have ld: "load (p2v s3 ?t + 8 * INDEX 1 va) s3 = Inr (phys s3 (slot ?t 1 va), s3)"
            by (rule load_slot [OF down3(1) tok])
          show ?thesis
          proof (cases "bit (phys s3 (slot ?t 1 va)) 0")
            case True
            then have "\<not> vacant v s 1 va"
              using vac t down(3) unfolding vacant_def by (meson order_refl less_irrefl)
            then show ?thesis using True l1 ld down(2) g3 down3(1)
              by (simp add: mine_def valid_bit table_bit map_outcome_def)
          next
            case False
            have "map_outcome (\<not> vacant v s 1 va) 1 va pa v s (thn (store (p2v s3 ?t + 8 * INDEX 1 va) ?e) (ret (0, v1)) s3)"
              by (rule map_outcome_store [OF down3(1) down(2,3) g3 t])
                 (use block_entry_bits [OF fl, where pa = pa and n = 1] in auto)
            then show ?thesis using False l1 ld down(2) by (simp add: mine_def valid_bit table_bit)
          qed
        qed
      qed (use down map_outcome_fails [where h = 1 and n = 1] in auto)
      then show ?case using nz by simp
    qed (use down map_outcome_fails [where h = 1 and n = 1] in auto)
  qed (use v map_outcome_fails [where h = 1 and n = 1] in auto)
  then show ?thesis using al unfolding vmap_map_l2_block_def L_INDEX path_heights(2-4) m by simp
qed

end

section \<open>The translation hardware\<close>

text \<open>
  The Armv8-A stage 1 translation with a 4 KB granule and 48 bit addresses, as the architecture
  defines it. At level 0 only table descriptors are valid, at levels 1 and 2 tables and blocks,
  at level 3 only pages (bit 1 set); every other encoding faults, and so does a block or page
  whose access flag is clear. The registers choose the table: the low half of the address space
  belongs to \<open>TTBR0_EL1\<close>, the high half to \<open>TTBR1_EL1\<close>, every address between them faults, and
  a disabled half (EPD0, EPD1) faults too. Another region size or granule than the kernel's is
  not described; \<open>None\<close> stands for that as well. Permissions are not part of the translation.
\<close>

datatype descriptor = Fault_Descriptor | Table_Descriptor | Output_Descriptor

definition descriptor_kind :: "nat \<Rightarrow> u64 \<Rightarrow> descriptor" where
  "descriptor_kind level e =
     (if \<not> bit e 0 then Fault_Descriptor
      else if bit e 1 then (if level = 3 then Output_Descriptor else Table_Descriptor)
      else if level = 1 \<or> level = 2 then Output_Descriptor else Fault_Descriptor)"

fun mmu_walk :: "(u64 \<Rightarrow> u64) \<Rightarrow> nat list \<Rightarrow> u64 \<Rightarrow> u64 \<Rightarrow> u64 option" where
  "mmu_walk ph [] t va = None"
| "mmu_walk ph (level # levels) t va =
     (let w = 39 - 9 * level; e = ph (t + 8 * (drop_bit w va AND 0x1FF)) in
      case descriptor_kind level e of
        Fault_Descriptor \<Rightarrow> None
      | Table_Descriptor \<Rightarrow> mmu_walk ph levels (e AND 0x0000FFFFFFFFF000) va
      | Output_Descriptor \<Rightarrow>
          if \<not> bit e 10 then None
          else Some ((e AND 0x0000FFFFFFFFF000 AND NOT (mask w)) OR (va AND mask w)))"

definition mmu_translate :: "'a machine_scheme \<Rightarrow> u64 \<Rightarrow> u64 option" where
  "mmu_translate s va =
     (let tcr = tcr_el1 s in
      if va < 0x0001000000000000 then
        (if tcr AND 0x80 = 0 \<and> tcr AND 0x3F = 16 \<and> tcr AND 0xC000 = 0
         then mmu_walk (phys s) [0, 1, 2, 3] (ttbr0_el1 s AND 0x0000FFFFFFFFF000) va else None)
      else if 0xFFFF000000000000 \<le> va then
        (if tcr AND 0x800000 = 0 \<and> tcr AND 0x3F0000 = 0x100000 \<and> tcr AND 0xC0000000 = 0x80000000
         then mmu_walk (phys s) [0, 1, 2, 3] (ttbr1_el1 s AND 0x0000FFFFFFFFF000) va else None)
      else None)"

text \<open>On proper tables the hardware and the software walk find the same.\<close>

lemma mmu_walk_step:
  assumes tab: "tables ph root" and pr: "\<And>n t. on_path ph root va n t \<Longrightarrow> proper_entry n (ph (slot t n va))"
    and t: "on_path ph root va n t"
  shows "mmu_walk ph [3 - n ..< 4] t va = walk ph n t va"
  using t
proof (induction n arbitrary: t)
  case 0
  let ?e = "ph (slot t 0 va)"
  have "proper_entry 0 ?e" by (rule pr [OF 0])
  moreover have "drop_bit 12 va AND 0x1FF = INDEX 0 va" by (simp add: INDEX_def)
  moreover have "(?e AND TBL_ENTRY_ADDR_MASK AND NOT (mask 12)) OR (va AND mask 12) = target 0 ?e va"
    by (simp add: target_def)
  ultimately show ?case
    by (auto simp: Let_def valid_bit descriptor_kind_def proper_entry_def upt_rec simp del: mask_eq_exp_minus_1)
next
  case (Suc n)
  let ?e = "ph (slot t (Suc n) va)" and ?w = "12 + 9 * Suc n"
  have n: "n \<le> 2" using on_path_le [OF Suc.prems] by simp
  have w: "39 - 9 * (2 - n) = ?w" and sub: "3 - Suc n = 2 - n" "3 - n = Suc (2 - n)" using n by simp_all
  have lv: "[3 - Suc n ..< 4] = (2 - n) # [3 - n ..< 4]"
    unfolding sub by (rule upt_conv_Cons) simp
  have i: "drop_bit ?w va AND 0x1FF = INDEX (Suc n) va" by (simp only: INDEX_def)
  have o: "(?e AND TBL_ENTRY_ADDR_MASK AND NOT (mask ?w)) OR (va AND mask ?w) = target (Suc n) ?e va"
    by (simp only: target_def)
  have pe: "proper_entry (Suc n) ?e" by (rule pr [OF Suc.prems])
  have top: "n = 2 \<Longrightarrow> bit ?e 0 \<Longrightarrow> bit ?e 1"
  proof -
    assume "n = 2" "bit ?e 0"
    then have "t = root" using Suc.prems by (simp add: on_path_3)
    then show "bit ?e 1" using tablesD(4) [OF tab, of va] \<open>bit ?e 0\<close> \<open>n = 2\<close> by simp
  qed
  have m: "mmu_walk ph [3 - Suc n ..< 4] t va =
     (case descriptor_kind (2 - n) ?e of
        Fault_Descriptor \<Rightarrow> None
      | Table_Descriptor \<Rightarrow> mmu_walk ph [3 - n ..< 4] (?e AND TBL_ENTRY_ADDR_MASK) va
      | Output_Descriptor \<Rightarrow> if \<not> bit ?e 10 then None else Some (target (Suc n) ?e va))"
    unfolding lv mmu_walk.simps Let_def w i o ..
  have k: "walk ph (Suc n) t va =
     (if \<not> bit ?e 0 then None else if n < 2 \<and> \<not> bit ?e 1 then Some (target (Suc n) ?e va)
      else walk ph n (?e AND TBL_ENTRY_ADDR_MASK) va)"
    by (simp only: walk.simps Let_def valid_bit table_bit)
  show ?case
  proof (cases "bit ?e 0 \<and> bit ?e 1")
    case True
    then have "mmu_walk ph [3 - n ..< 4] (?e AND TBL_ENTRY_ADDR_MASK) va = walk ph n (?e AND TBL_ENTRY_ADDR_MASK) va"
      using on_path_down [OF Suc.prems] by (intro Suc.IH) simp
    moreover have "2 - n \<noteq> 3" by simp
    ultimately show ?thesis unfolding m k using True by (simp add: descriptor_kind_def)
  next
    case False
    then show ?thesis unfolding m k using pe top n by (auto simp: descriptor_kind_def proper_entry_def)
  qed
qed

lemma mmu_walk_tables:
  assumes "tables ph root" and "\<And>n t. on_path ph root va n t \<Longrightarrow> proper_entry n (ph (slot t n va))"
  shows "mmu_walk ph [0, 1, 2, 3] root va = walk ph 3 root va"
proof -
  have "[3 - 3 ..< 4] = [0, 1, 2, 3 :: nat]" by (simp add: upt_rec numeral_3_eq_3)
  then show ?thesis using mmu_walk_step [OF assms on_path_root] by metis
qed

text \<open>What \<open>vmap_apply_table\<close> writes into the control register.\<close>

lemma tcr_for_user:
  "tcr_for VMAP_DESTINATION_USER tcr AND 0x80 = 0"
  "tcr_for VMAP_DESTINATION_USER tcr AND 0x3F = 16"
  "tcr_for VMAP_DESTINATION_USER tcr AND 0xC000 = 0"
  by (simp_all add: tcr_for_def bit.conj_disj_distrib2 and.assoc)

lemma tcr_for_kernel:
  "tcr_for VMAP_DESTINATION_KERNEL tcr AND 0x800000 = 0"
  "tcr_for VMAP_DESTINATION_KERNEL tcr AND 0x3F0000 = 0x100000"
  "tcr_for VMAP_DESTINATION_KERNEL tcr AND 0xC0000000 = 0x80000000"
  "tcr_for VMAP_DESTINATION_KERNEL tcr AND 0x80 = tcr AND 0x80"
  "tcr_for VMAP_DESTINATION_KERNEL tcr AND 0x3F = tcr AND 0x3F"
  "tcr_for VMAP_DESTINATION_KERNEL tcr AND 0xC000 = tcr AND 0xC000"
  by (simp_all add: tcr_for_def bit.conj_disj_distrib2 and.assoc)


section \<open>Ranges\<close>

definition region_size :: "nat \<Rightarrow> nat" where
  "region_size n = 2 ^ (12 + 9 * n)"

definition step_to :: "nat \<Rightarrow> u64 \<Rightarrow> nat \<Rightarrow> u64" where
  "step_to n va i = va + of_nat (i * region_size n)"

lemma step_to_0 [simp]: "step_to n va 0 = va"
  by (simp add: step_to_def)

lemma step_to_Suc: "step_to n va (Suc i) = step_to n (va + of_nat (region_size n)) i"
  by (simp add: step_to_def algebra_simps)

lemma unat_step_to:
  assumes "unat va + i * region_size n < 2 ^ 64" shows "unat (step_to n va i) = unat va + i * region_size n"
proof -
  have "unat (of_nat (i * region_size n) :: u64) = i * region_size n"
    by (rule unat_of_nat_64) (use assms in simp)
  then show ?thesis using assms unat_add_no_wrap [of va "of_nat (i * region_size n)"]
    by (simp add: step_to_def)
qed

lemma unat_prefix: "n \<le> 3 \<Longrightarrow> unat (prefix n va) = unat va div region_size n mod 2 ^ (36 - 9 * n)"
proof -
  assume "n \<le> 3"
  have "unat (prefix n va) = drop_bit (12 + 9 * n) (take_bit 48 (unat va))"
    unfolding prefix_def unat_drop_bit unat_and_mask by (simp add: drop_bit_eq_div take_bit_eq_mod)
  also have "\<dots> = take_bit (48 - (12 + 9 * n)) (drop_bit (12 + 9 * n) (unat va))" by (rule drop_bit_take_bit)
  also have "48 - (12 + 9 * n) = 36 - 9 * n" by simp
  finally show ?thesis by (simp only: take_bit_eq_mod drop_bit_eq_div region_size_def)
qed

lemma step_to_prefix:
  assumes "n \<le> 3" "i < j" "j \<le> 2 ^ (36 - 9 * n)" "unat va + j * region_size n < 2 ^ 64"
    "j < 2 ^ (36 - 9 * n) \<or> 0 < i"
  shows "prefix n (step_to n va i) \<noteq> prefix n (step_to n va j)"
proof
  let ?N = "2 ^ (36 - 9 * n) :: nat" and ?q = "unat va div region_size n"
  have pos: "0 < region_size n" by (simp add: region_size_def)
  have "unat va + i * region_size n < 2 ^ 64"
    using assms(2,4) by (meson add_left_mono le_less_trans less_imp_le mult_le_mono1)
  then have u: "unat (step_to n va i) = unat va + i * region_size n"
    "unat (step_to n va j) = unat va + j * region_size n" using assms(4) unat_step_to by blast+
  assume "prefix n (step_to n va i) = prefix n (step_to n va j)"
  then have "(unat va + i * region_size n) div region_size n mod ?N = (unat va + j * region_size n) div region_size n mod ?N"
    using unat_prefix [OF assms(1)] u by metis
  then have "(?q + i) mod ?N = (?q + j) mod ?N" using pos by (simp add: add.commute)
  then have "?N dvd j - i" using assms(2) mod_eq_dvd_iff_nat [of "?q + i" "?q + j" ?N] by simp
  moreover have "0 < j - i" "j - i < ?N" using assms(2,3,5) by auto
  ultimately show False using nat_dvd_not_less by blast
qed

text \<open>
  The outcome of mapping \<open>k\<close> consecutive pages or blocks. If it fails, part of the range may be
  mapped, but nothing outside it has changed.
\<close>

definition maps_range :: "('a machine_scheme \<Rightarrow> u64 set) \<Rightarrow> ('a machine_scheme \<Rightarrow> u64 set) \<Rightarrow> nat \<Rightarrow> nat \<Rightarrow> u64 \<Rightarrow> u64 \<Rightarrow> 'a machine_scheme vmap
     \<Rightarrow> 'a machine_scheme \<Rightarrow> int \<Rightarrow> 'a machine_scheme vmap \<Rightarrow> 'a machine_scheme \<Rightarrow> bool" where
  "maps_range avail prot n k va pa v s r v' s' \<longleftrightarrow>
     vmap_inv avail prot v' s' \<and>
     (\<forall>va'. (\<forall>i < k. prefix n va' \<noteq> prefix n (step_to n va i)) \<longrightarrow> vtranslate v' s' va' = vtranslate v s va') \<and>
     (r = 0 \<longrightarrow> (\<forall>i < k. \<forall>va'. prefix n va' = prefix n (step_to n va i) \<longrightarrow>
        vtranslate v' s' va' = Some (target n (step_to n pa i) va'))) \<and>
     (n = 0 \<longrightarrow> (\<forall>va'. no_block v s va' \<longrightarrow> no_block v' s' va')) \<and>
     (proper v s \<longrightarrow> proper v' s') \<and>
     (root_page_table v \<noteq> NULL \<longrightarrow> v' = v) \<and> v' = v\<lparr>root_page_table := root_page_table v'\<rparr> \<and>
     vmap_pages v' s' \<subseteq> vmap_pages v s \<union> avail s \<and> avail s' \<subseteq> avail s \<and>
     g_mmap_initialized s' = g_mmap_initialized s \<and>
     (r = 0 \<or> r = -1 \<and> card (avail s) < k * (4 - n)) \<and>
     card (avail s) \<le> card (avail s') + k * (4 - n)"

lemma maps_range_Suc:
  assumes m: "maps avail prot (4 - n) n va pa v s v1 s1"
    and r: "maps_range avail prot n k (va + of_nat (region_size n)) (pa + of_nat (region_size n)) v1 s1 r v' s'"
    and dist: "\<And>i. i < k \<Longrightarrow> prefix n (step_to n va (Suc i)) \<noteq> prefix n va"
  shows "maps_range avail prot n (Suc k) va pa v s r v' s'"
proof -
  have out: "vtranslate v' s' va' = vtranslate v s va'"
    if "\<And>i. i < Suc k \<Longrightarrow> prefix n va' \<noteq> prefix n (step_to n va i)" for va'
  proof -
    have "vtranslate v' s' va' = vtranslate v1 s1 va'"
      using r that [of "Suc _"] unfolding maps_range_def step_to_Suc by simp
    then show ?thesis using m that [of 0] by (simp add: maps_def)
  qed
  have hit: "vtranslate v' s' va' = Some (target n (step_to n pa i) va')"
    if "r = 0" "i < Suc k" "prefix n va' = prefix n (step_to n va i)" for i va'
  proof (cases i)
    case 0
    then have "\<forall>i < k. prefix n va' \<noteq> prefix n (step_to n va (Suc i))" using that(3) dist by fastforce
    then have "vtranslate v' s' va' = vtranslate v1 s1 va'" using r unfolding maps_range_def step_to_Suc by simp
    then show ?thesis using m that(3) 0 by (simp add: maps_def)
  next
    case (Suc j)
    then show ?thesis using r that unfolding maps_range_def by (simp add: step_to_Suc)
  qed
  have "vmap_pages v' s' \<subseteq> vmap_pages v s \<union> avail s" "avail s' \<subseteq> avail s"
    using r m unfolding maps_range_def maps_def by blast+
  moreover have "v' = v\<lparr>root_page_table := root_page_table v'\<rparr>"
    using r m unfolding maps_range_def maps_def
    by (metis vmap.select_convs(1) vmap.surjective vmap.update_convs(1))
  moreover have "r = 0 \<or> r = -1 \<and> card (avail s) < Suc k * (4 - n)" "card (avail s) \<le> card (avail s') + Suc k * (4 - n)"
    using r m unfolding maps_range_def maps_def by auto
  moreover have "vmap_inv avail prot v' s'" using r unfolding maps_range_def by blast
  moreover have "root_page_table v \<noteq> NULL \<longrightarrow> v' = v"
    using r m unfolding maps_range_def maps_def by metis
  moreover have "g_mmap_initialized s' = g_mmap_initialized s"
    using r m unfolding maps_range_def maps_def by metis
  moreover have "n = 0 \<longrightarrow> (\<forall>va'. no_block v s va' \<longrightarrow> no_block v' s' va')" "proper v s \<longrightarrow> proper v' s'"
    using r m unfolding maps_range_def maps_def by blast+
  ultimately show ?thesis unfolding maps_range_def using out hit by blast
qed

context page_source
begin

definition range_pre :: "nat \<Rightarrow> 'a machine_scheme vmap \<Rightarrow> 'a machine_scheme \<Rightarrow> u64 \<Rightarrow> bool" where
  "range_pre n v s va \<longleftrightarrow> (if n = 0 then no_block v s va else vacant v s n va)"

lemma range_loop_outcome:
  assumes n: "n \<le> 2"
    and one: "\<And>v s va pa. ok s \<Longrightarrow> mine v \<Longrightarrow> vmap_inv avail prot v s \<Longrightarrow> range_pre n v s va \<Longrightarrow> al va pa \<Longrightarrow>
      map_outcome False n va pa v s (one v va pa s)"
    and al: "\<And>va pa. al va pa \<Longrightarrow> al (va + of_nat (region_size n)) (pa + of_nat (region_size n))"
    and s: "ok s" and v: "mine v" and inv: "vmap_inv avail prot v s" and "al va pa"
    and "\<forall>i < k. range_pre n v s (step_to n va i)"
    and "unat va + k * region_size n < 2 ^ 64" "k \<le> 2 ^ (36 - 9 * n)"
    and "unat end_va \<le> unat va + k * region_size n" "\<forall>i < k. unat va + i * region_size n < unat end_va"
  shows "\<exists>r v' s'. map_range_loop one (of_nat (region_size n)) v va end_va pa s = Some (Inr ((r, v'), s')) \<and>
     ok s' \<and> mine v' \<and> maps_range avail prot n k va pa v s r v' s'"
  using assms(4-)
proof (induction k arbitrary: v s va pa)
  case 0
  then have "map_range_loop one (of_nat (region_size n)) v va end_va pa s = Some (Inr ((0, v), s))"
    by (subst map_range_loop.simps) (simp add: word_less_nat_alt)
  with 0 show ?case by (simp add: maps_range_def)
next
  case (Suc k)
  let ?sz = "of_nat (region_size n) :: u64"
  have guard: "va < end_va" using Suc.prems(9) by (auto simp: word_less_nat_alt)
  have "range_pre n v s va" using Suc.prems(5) by (metis step_to_0 zero_less_Suc)
  then have out: "map_outcome False n va pa v s (one v va pa s)" using one Suc.prems(1-4) by blast
  then obtain r v1 s1 where run: "one v va pa s = Inr ((r, v1), s1)" and 1: "ok s1" "mine v1"
    and cs: "r = 0 \<and> maps avail prot (4 - n) n va pa v s v1 s1 \<or>
       r = -1 \<and> grows avail prot n (4 - n) v s v1 s1 \<and> card (avail s) < 4 - n"
    by (auto simp: map_outcome_def)
  from cs show ?case
  proof
    assume f: "r = -1 \<and> grows avail prot n (4 - n) v s v1 s1 \<and> card (avail s) < 4 - n"
    then have "map_range_loop one ?sz v va end_va pa s = Some (Inr ((-1, v1), s1))"
      using guard run by (subst map_range_loop.simps) simp
    moreover have "maps_range avail prot n (Suc k) va pa v s (-1) v1 s1"
      using f unfolding maps_range_def grows_def by auto
    ultimately show ?thesis using 1 by blast
  next
    assume m: "r = 0 \<and> maps avail prot (4 - n) n va pa v s v1 s1"
    then have maps: "maps avail prot (4 - n) n va pa v s v1 s1" by simp
    have sz: "unat ?sz = region_size n" using Suc.prems(6) by (intro unat_of_nat_64) simp
    have uva: "unat (va + ?sz) = unat va + region_size n"
      using Suc.prems(6) sz unat_add_no_wrap [of va ?sz] by simp
    have dist: "prefix n (step_to n va (Suc i)) \<noteq> prefix n va" if "i < k" for i
    proof -
      have "Suc i * region_size n \<le> Suc k * region_size n" using that by (intro mult_le_mono1) simp
      then have "unat va + Suc i * region_size n < 2 ^ 64" using Suc.prems(6) by linarith
      moreover have "Suc i < 2 ^ (36 - 9 * n)" using that Suc.prems(7) by linarith
      ultimately show ?thesis using step_to_prefix [of n 0 "Suc i" va] n by (auto simp del: mult_Suc)
    qed
    have pre: "range_pre n v1 s1 (step_to n (va + ?sz) i)" if "i < k" for i
      using Suc.prems(5)[rule_format, of "Suc i"] dist [OF that] that maps
      unfolding step_to_Suc [symmetric] range_pre_def maps_def by (simp split: if_splits)
    have "\<exists>r v' s'. map_range_loop one ?sz v1 (va + ?sz) end_va (pa + ?sz) s1 = Some (Inr ((r, v'), s')) \<and>
       ok s' \<and> mine v' \<and> maps_range avail prot n k (va + ?sz) (pa + ?sz) v1 s1 r v' s'"
    proof (rule Suc.IH [OF 1])
      show "vmap_inv avail prot v1 s1" using maps by (simp add: maps_def)
      have "unat (va + ?sz) + i * region_size n < unat end_va" if "i < k" for i
        using Suc.prems(9) [rule_format, of "Suc i"] that unfolding uva by simp
      then show "\<forall>i<k. unat (va + ?sz) + i * region_size n < unat end_va" by blast
    qed (use Suc.prems uva al pre in auto)
    then obtain r' v' s' where loop: "map_range_loop one ?sz v1 (va + ?sz) end_va (pa + ?sz) s1 = Some (Inr ((r', v'), s'))"
      and 2: "ok s'" "mine v'" "maps_range avail prot n k (va + ?sz) (pa + ?sz) v1 s1 r' v' s'" by blast
    have "map_range_loop one ?sz v va end_va pa s = Some (Inr ((r', v'), s'))"
      using guard run m loop by (subst map_range_loop.simps) simp
    moreover have "maps_range avail prot n (Suc k) va pa v s r' v' s'"
      by (rule maps_range_Suc [OF maps 2(3)]) (use dist in auto)
    ultimately show ?thesis using 2(1,2) by blast
  qed
qed


lemma map_range_outcome:
  assumes s: "ok s" and v: "mine v" and inv: "vmap_inv avail prot v s"
    and fl: "page_flags AND TBL_ENTRY_ADDR_MASK = 0"
    and nb: "\<And>i. i < k \<Longrightarrow> no_block v s (step_to 0 va i)"
    and bounds: "unat va + k * 4096 < 2 ^ 64" "k \<le> 2 ^ 36"
      "unat end_va \<le> unat va + k * 4096" "\<And>i. i < k \<Longrightarrow> unat va + i * 4096 < unat end_va"
  shows "\<exists>r v' s'. vmap_map_range v va end_va pa page_flags s = Inr ((r, v'), s') \<and>
     ok s' \<and> mine v' \<and> maps_range avail prot 0 k va pa v s r v' s'"
proof -
  have "\<exists>r v' s'. map_range_loop (\<lambda>vmap va pa. vmap_map_page vmap pa va page_flags) (of_nat (region_size 0))
      v va end_va pa s = Some (Inr ((r, v'), s')) \<and> ok s' \<and> mine v' \<and> maps_range avail prot 0 k va pa v s r v' s'"
    by (rule range_loop_outcome [where al = "\<lambda>_ _. True"])
       (use assms map_page_outcome in \<open>auto simp: range_pre_def region_size_def\<close>)
  then show ?thesis by (auto simp: vmap_map_range_def region_size_def)
qed

lemma block_step:
  assumes "va mod 2 ^ m = 0" "m < 64" shows "(va + 2 ^ m) mod 2 ^ m = (0 :: u64)"
proof -
  have p: "unat (2 ^ m :: u64) = 2 ^ m" 
  proof -
    have "(2::nat) ^ m < 2 ^ 64" using assms(2) by (intro power_strict_increasing) simp_all
    then show ?thesis using unat_push_bit_no_wrap [of "1 :: u64" m] by (simp add: push_bit_eq_mult)
  qed
  have d: "2 ^ m dvd unat va" using assms(1) p by (metis mod_0_imp_dvd unat_0 unat_mod)
  have dd: "(2::nat) ^ m dvd 2 ^ 64" using assms(2) by (intro le_imp_power_dvd) simp
  have "unat ((va + 2 ^ m) mod 2 ^ m) = (unat va + 2 ^ m) mod 2 ^ 64 mod 2 ^ m"
    by (simp add: unat_mod unat_word_ariths p)
  also have "\<dots> = 0" using d dd by (simp add: mod_mod_cancel)
  finally show ?thesis by (simp add: unat_eq_0)
qed

lemma map_range_l1_block_outcome:
  assumes s: "ok s" and v: "mine v" and inv: "vmap_inv avail prot v s"
    and fl: "page_flags AND TBL_ENTRY_ADDR_MASK = 0" "page_flags AND TBL_ENTRY_TABLE = 0"
    and al: "va mod TBL_L1_BLOCK_SIZE = 0" "pa mod TBL_L1_BLOCK_SIZE = 0"
    and vac: "\<And>i. i < k \<Longrightarrow> vacant v s 2 (step_to 2 va i)"
    and bounds: "unat va + k * 2 ^ 30 < 2 ^ 64" "k \<le> 2 ^ 18"
      "unat end_va \<le> unat va + k * 2 ^ 30" "\<And>i. i < k \<Longrightarrow> unat va + i * 2 ^ 30 < unat end_va"
  shows "\<exists>r v' s'. vmap_map_range_l1_block v va end_va pa page_flags s = Inr ((r, v'), s') \<and>
     ok s' \<and> mine v' \<and> maps_range avail prot 2 k va pa v s r v' s'"
proof -
  have one: "map_outcome False 2 va pa v s (vmap_map_l1_block v va pa page_flags s)"
    if "ok s" "mine v" "vmap_inv avail prot v s" "range_pre 2 v s va"
      "va mod TBL_L1_BLOCK_SIZE = 0 \<and> pa mod TBL_L1_BLOCK_SIZE = 0" for v s va pa
    using map_l1_block_outcome [OF that(1-3), of va pa page_flags] that(4,5) fl by (simp add: range_pre_def)
  have "\<exists>r v' s'. map_range_loop (\<lambda>vmap va pa. vmap_map_l1_block vmap va pa page_flags) (of_nat (region_size 2))
      v va end_va pa s = Some (Inr ((r, v'), s')) \<and> ok s' \<and> mine v' \<and> maps_range avail prot 2 k va pa v s r v' s'"
    by (rule range_loop_outcome [where al = "\<lambda>va pa. va mod TBL_L1_BLOCK_SIZE = 0 \<and> pa mod TBL_L1_BLOCK_SIZE = 0", OF _ one])
       (use assms block_step [where m = 30] in \<open>auto simp: range_pre_def region_size_def\<close>)
  then show ?thesis by (auto simp: vmap_map_range_l1_block_def region_size_def)
qed

lemma map_range_l2_block_outcome:
  assumes s: "ok s" and v: "mine v" and inv: "vmap_inv avail prot v s"
    and fl: "page_flags AND TBL_ENTRY_ADDR_MASK = 0" "page_flags AND TBL_ENTRY_TABLE = 0"
    and al: "va mod TBL_L2_BLOCK_SIZE = 0" "pa mod TBL_L2_BLOCK_SIZE = 0"
    and vac: "\<And>i. i < k \<Longrightarrow> vacant v s 1 (step_to 1 va i)"
    and bounds: "unat va + k * 2 ^ 21 < 2 ^ 64" "k \<le> 2 ^ 27"
      "unat end_va \<le> unat va + k * 2 ^ 21" "\<And>i. i < k \<Longrightarrow> unat va + i * 2 ^ 21 < unat end_va"
  shows "\<exists>r v' s'. vmap_map_range_l2_block v va end_va pa page_flags s = Inr ((r, v'), s') \<and>
     ok s' \<and> mine v' \<and> maps_range avail prot 1 k va pa v s r v' s'"
proof -
  have one: "map_outcome False 1 va pa v s (vmap_map_l2_block v va pa page_flags s)"
    if "ok s" "mine v" "vmap_inv avail prot v s" "range_pre 1 v s va"
      "va mod TBL_L2_BLOCK_SIZE = 0 \<and> pa mod TBL_L2_BLOCK_SIZE = 0" for v s va pa
    using map_l2_block_outcome [OF that(1-3), of va pa page_flags] that(4,5) fl by (simp add: range_pre_def)
  have "\<exists>r v' s'. map_range_loop (\<lambda>vmap va pa. vmap_map_l2_block vmap va pa page_flags) (of_nat (region_size 1))
      v va end_va pa s = Some (Inr ((r, v'), s')) \<and> ok s' \<and> mine v' \<and> maps_range avail prot 1 k va pa v s r v' s'"
    by (rule range_loop_outcome [where al = "\<lambda>va pa. va mod TBL_L2_BLOCK_SIZE = 0 \<and> pa mod TBL_L2_BLOCK_SIZE = 0", OF _ one])
       (use assms block_step [where m = 21] in \<open>auto simp: range_pre_def region_size_def\<close>)
  then show ?thesis by (auto simp: vmap_map_range_l2_block_def region_size_def)
qed

end

section \<open>What the operations leave alone\<close>

text \<open>
  A property of the state that the page source keeps and that does not depend on physical memory
  is kept by every operation of the vmap.
\<close>

lemma map_range_loop_preserves:
  assumes one: "\<And>v va pa. I v \<Longrightarrow> preserves P (one v va pa)"
    and I: "\<And>v va pa s r v' s'. I v \<Longrightarrow> one v va pa s = Inr ((r, v'), s') \<Longrightarrow> I v'"
    and run: "map_range_loop one sz v va end_va pa s = Some (Inr (x, s'))" and "I v" "P s"
  shows "P s'"
proof -
  have "one' = one \<longrightarrow> I v \<longrightarrow> P s \<longrightarrow> (\<forall>x s'. r = Inr (x, s') \<longrightarrow> P s')"
    if "map_range_loop one' sz v va end_va pa s = Some r" for one' sz v va end_va pa s r
    using that
  proof (rule map_range_loop.raw_induct [rotated])
    fix f one' sz v va end_va pa s r
    assume IH: "\<And>one' sz v va end_va pa s r. f one' sz v va end_va pa s = Some r \<Longrightarrow>
        one' = one \<longrightarrow> I v \<longrightarrow> P s \<longrightarrow> (\<forall>x s'. r = Inr (x, s') \<longrightarrow> P s')"
      and body: "(if va < end_va then case one' v va pa s of
          Inl e \<Rightarrow> Some (Inl e)
        | Inr ((r, v'), s') \<Rightarrow>
            if r < 0 then Some (Inr ((-1, v'), s'))
            else f one' sz v' (va + sz) end_va (pa + sz) s'
      else Some (Inr ((0, v), s))) = Some r"
    show "one' = one \<longrightarrow> I v \<longrightarrow> P s \<longrightarrow> (\<forall>x s'. r = Inr (x, s') \<longrightarrow> P s')"
    proof (intro impI allI)
      fix x s' assume *: "one' = one" "I v" "P s" "r = Inr (x, s')"
      show "P s'"
      proof (cases "va < end_va")
        case False
        then show ?thesis using body * by simp
      next
        case True
        then obtain q v1 s1 where o: "one v va pa s = Inr ((q, v1), s1)"
          using body * by (auto split: sum.splits)
        then have "I v1" "P s1" using I one * unfolding preserves_def by blast+
        then show ?thesis using IH [of one sz v1 "va + sz" end_va "pa + sz" s1 r] body True o *
          by (auto split: if_splits)
      qed
    qed
  qed
  then show ?thesis using assms by blast
qed

lemma vmap_root_yields:
  "preserves P (alloc_page v) \<Longrightarrow>
     yields P (\<lambda>r. \<forall>v'. r = Some v' \<longrightarrow> alloc_page v' = alloc_page v) (vmap_root v)"
  unfolding vmap_root_def by (auto intro!: yields_rules)

lemma vmap_root_attempt:
  assumes "preserves P (alloc_page v)" "Q e" "\<And>v'. alloc_page v' = alloc_page v \<Longrightarrow> yields P Q (f v')"
  shows "yields P Q (attempt (vmap_root v) e f)"
  unfolding attempt_def by (rule yields_bnd [OF vmap_root_yields]) (auto intro: assms yields_ret split: option.split)

lemma vmap_next_entry_preserves:
  assumes "preserves P (alloc_page v)" "\<And>s ph. P s \<Longrightarrow> P (s\<lparr>phys := ph\<rparr>)"
  shows "preserves P (vmap_next_entry v table index)"
  unfolding vmap_next_entry_def using assms by (intro preserves)

lemma vmap_map_yields:
  assumes alloc: "preserves P (alloc_page v)" and ph: "\<And>s ph. P s \<Longrightarrow> P (s\<lparr>phys := ph\<rparr>)"
  shows "yields P (\<lambda>(r, v'). alloc_page v' = alloc_page v) (vmap_map_page v pa va flags)"
    and "yields P (\<lambda>(r, v'). alloc_page v' = alloc_page v) (vmap_map_l1_block v va pa flags)"
    and "yields P (\<lambda>(r, v'). alloc_page v' = alloc_page v) (vmap_map_l2_block v va pa flags)"
proof -
  have nxt: "preserves P (vmap_next_entry v' t i)" if "alloc_page v' = alloc_page v" for v' t i
    by (rule vmap_next_entry_preserves) (use alloc ph that in simp_all)
  have st: "preserves P (store q w)" for q w by (rule preserves_store) (rule ph)
  note rules = vmap_root_attempt [OF alloc] yields_rules nxt st preserves_load
  show "yields P (\<lambda>(r, v'). alloc_page v' = alloc_page v) (vmap_map_page v pa va flags)"
    unfolding vmap_map_page_def by (intro rules) simp_all
  show "yields P (\<lambda>(r, v'). alloc_page v' = alloc_page v) (vmap_map_l1_block v va pa flags)"
    unfolding vmap_map_l1_block_def by (intro rules) simp_all
  show "yields P (\<lambda>(r, v'). alloc_page v' = alloc_page v) (vmap_map_l2_block v va pa flags)"
    unfolding vmap_map_l2_block_def by (intro rules) simp_all
qed

lemma range_preserves:
  fixes v :: "'s vmap" and one :: "'s vmap \<Rightarrow> u64 \<Rightarrow> u64 \<Rightarrow> ('s, int \<times> 's vmap) prog"
  assumes alloc: "preserves P (alloc_page v)"
    and one: "\<And>v va pa. preserves P (alloc_page v) \<Longrightarrow> yields P (\<lambda>(r, v'). alloc_page v' = alloc_page v) (one v va pa)"
    and one': "\<And>v va pa. preserves (\<lambda>_. True) (alloc_page v) \<Longrightarrow>
      yields (\<lambda>_. True) (\<lambda>(r, v'). alloc_page v' = alloc_page v) (one v va pa)"
  shows "preserves P (\<lambda>s. loop (map_range_loop one sz v va end_va pa s))"
proof (rule preservesI)
  fix s x s' assume "P s" "loop (map_range_loop one sz v va end_va pa s) = Inr (x, s')"
  then have "map_range_loop one sz v va end_va pa s = Some (Inr (x, s'))" by (simp add: loop_def split: option.splits)
  then show "P s'"
  proof (rule map_range_loop_preserves [where I = "\<lambda>v'. alloc_page v' = alloc_page v", rotated 2])
    fix v1 v2 :: "'s vmap" and va pa s r s' assume "alloc_page v1 = alloc_page v" "one v1 va pa s = Inr ((r, v2), s')"
    moreover have "preserves (\<lambda>_. True) (alloc_page v1)" by (simp add: preserves_def)
    ultimately show "alloc_page v2 = alloc_page v" using yieldsD [OF one'] by fastforce
  next
    fix v1 :: "'s vmap" and va pa assume "alloc_page v1 = alloc_page v"
    with alloc have "yields P (\<lambda>(r, v'). alloc_page v' = alloc_page v1) (one v1 va pa)" by (intro one) simp
    then show "preserves P (one v1 va pa)" by (intro preservesI) (drule (2) yieldsD, simp)
  qed (use \<open>P s\<close> in auto)
qed

lemma vmap_map_range_preserves:
  assumes alloc: "preserves P (alloc_page v)" and ph: "\<And>s ph. P s \<Longrightarrow> P (s\<lparr>phys := ph\<rparr>)"
  shows "preserves P (vmap_map_range v va end_va pa flags)"
    and "preserves P (vmap_map_range_l1_block v va end_va pa flags)"
    and "preserves P (vmap_map_range_l2_block v va end_va pa flags)"
  unfolding vmap_map_range_def vmap_map_range_l1_block_def vmap_map_range_l2_block_def
  by (rule range_preserves [OF alloc]; intro vmap_map_yields ph; simp)+

text \<open>Memory outside the tables does not matter to them.\<close>

lemma tables_outside:
  assumes tab: "tables ph root"
    and same: "\<And>t n va. t \<in> table_pages ph root \<Longrightarrow> ph' (slot t n va) = ph (slot t n va)"
  shows "tables ph' root" "table_pages ph' root = table_pages ph root"
    "walk ph' 3 root va = walk ph 3 root va"
proof -
  have mem: "t \<in> table_pages ph root" if "on_path ph root va n t" for va n t
    using that by (auto simp: table_pages_def)
  have fwd: "on_path ph' root va n t" if "on_path ph root va n t" for va n t
    using that by (rule on_path_cong) (use same mem in blast)
  have bwd: "on_path ph root va n t" if "on_path ph' root va n t" for va n t
    using that
  proof (induction rule: on_path.induct)
    case (on_path_down n t)
    then show ?case
      using on_path.on_path_down [OF on_path_down.IH] same [OF mem [OF on_path_down.IH]] by simp
  qed (rule on_path_root)
  show "table_pages ph' root = table_pages ph root"
    unfolding table_pages_def using fwd bwd by blast
  have r: "ph' (slot root 3 va) = ph (slot root 3 va)" for va
    by (rule same) (rule mem [OF on_path_root])
  show "tables ph' root"
    unfolding tables_def
  proof (intro conjI allI impI)
    fix w w' m m' u assume "on_path ph' root w m u" "on_path ph' root w' m' u"
    then show "m = m'" "prefix (Suc m) w = prefix (Suc m) w'"
      using bwd tablesD(2,3) [OF tab] by blast+
  next
    fix w m u assume "on_path ph' root w m u" then show "page_ok u" using bwd tablesD(1) [OF tab] by blast
  next
    fix w assume "bit (ph' (slot root 3 w)) 0"
    then show "bit (ph' (slot root 3 w)) 1" using r tablesD(4) [OF tab] by simp
  qed
  show "walk ph' 3 root va = walk ph 3 root va"
    by (rule walk_cong [OF tab on_path_root]) (use same mem in blast)
qed

text \<open>An address without a translation is not covered by a block.\<close>

lemma unmapped_no_block:
  assumes "vtranslate v s va = None" shows "no_block v s va"
proof (cases "root_page_table v = NULL")
  case False
  show ?thesis
    unfolding no_block_def
  proof (intro disjI2 allI impI)
    fix n t assume t: "on_path (phys s) (root_page_table v) va n t" "n = 1 \<or> n = 2" "bit (phys s (slot t n va)) 0"
    show "bit (phys s (slot t n va)) 1"
    proof (rule ccontr)
      assume "\<not> bit (phys s (slot t n va)) 1"
      then have "walk (phys s) n t va \<noteq> None"
        using t(2,3) by (auto simp: walk_heights Let_def valid_bit table_bit)
      then show False using assms on_path_walk [OF t(1)] False by (simp add: vtranslate_def translate_def)
    qed
  qed
qed (simp add: no_block_def)

end
