(* ===== verification/Page_Alloc.thy ===== *)
theory Page_Alloc
  imports Prelude
begin

text \<open>
  The physical page allocator, \<open>kernel/page_alloc.c\<close>: a buddy allocator over page frames.
  Frames are handed out in blocks of \<open>2 ^ order\<close> pages; a free block is a node of the free list
  of its order, stored in the block's own first page, and the bitmap entry of its first frame
  records the order and that it is free.

  The file holds the operations, an abstract allocator over lists of free frame numbers, the
  proof that the code refines it, and what the abstract allocator promises: blocks are aligned,
  never overlap, and no frame is lost. \<open>page_alloc_free\<close> is shown correct when the buddy of the
  freed block is in use, and shown not to return, or to stop the machine, in nearly all cases in
  which a merge is due.

  Orders are \<open>uint8_t\<close> and \<open>int\<close> values in the code; they are only counted up to \<open>MAX_ORDER\<close> and
  down to zero, and are natural numbers here. Frame numbers and addresses are 64 bits wide.
\<close>

unbundle bit_operations_syntax

section \<open>State and operations\<close>

abbreviation MAX_ORDER :: nat where "MAX_ORDER \<equiv> 10"
abbreviation MAX_TOTAL_PAGES :: u64 where "MAX_TOTAL_PAGES \<equiv> 0x1000000"
abbreviation PAGE_SHIFT :: nat where "PAGE_SHIFT \<equiv> 12"
abbreviation PAGE_SIZE :: u64 where "PAGE_SIZE \<equiv> 4096"

abbreviation PAGE_BITMAP_IS_FREE_MASK :: u16 where "PAGE_BITMAP_IS_FREE_MASK \<equiv> 4"
abbreviation PAGE_BITMAP_IS_HEAD_MASK :: u16 where "PAGE_BITMAP_IS_HEAD_MASK \<equiv> 2"
abbreviation PAGE_BITMAP_VALID_MASK :: u16 where "PAGE_BITMAP_VALID_MASK \<equiv> 1"

text \<open>
  \<open>free_pages\<close> holds the \<open>next_page\<close> field of the \<open>free_page_t\<close> objects, keyed by their virtual
  addresses.
\<close>

record page_allocator =
  free_lists :: "nat \<Rightarrow> u64"
  page_bitmap :: "u64 \<Rightarrow> u16"
  free_pages :: "u64 \<rightharpoonup> u64"

text \<open>
  The allocator reaches physical pages through \<open>mmap_physical_to_virtual\<close> (\<open>p2v\<close>) and
  \<open>mmap_virtual_to_physical\<close> (\<open>v2p\<close>), whose failure return is \<open>None\<close>.
\<close>

type_synonym translation = "u64 \<Rightarrow> u64 option"

definition calculate_buddy_page_frame_number :: "u64 \<Rightarrow> nat \<Rightarrow> u64" where
  "calculate_buddy_page_frame_number page_frame_number order =
     page_frame_number XOR push_bit order 1"

definition free_entry :: "nat \<Rightarrow> u16" where
  "free_entry order = push_bit 3 (of_nat order) OR PAGE_BITMAP_IS_FREE_MASK OR
     PAGE_BITMAP_VALID_MASK OR PAGE_BITMAP_IS_HEAD_MASK"

definition used_entry :: "nat \<Rightarrow> u16" where
  "used_entry order = push_bit 3 (of_nat order) OR PAGE_BITMAP_IS_HEAD_MASK OR
     PAGE_BITMAP_VALID_MASK"

definition free_list_push :: "translation \<Rightarrow> nat \<Rightarrow> u64 \<Rightarrow> (page_allocator, int) prog" where
  "free_list_push p2v order page_frame_number =
     (if order > MAX_ORDER then ret (-1)
      else if page_frame_number \<ge> MAX_TOTAL_PAGES then ret (-1)
      else case p2v (push_bit PAGE_SHIFT page_frame_number) of
        None \<Rightarrow> halt Assertion_Failed
      | Some virtual_address \<Rightarrow>
          thn (upd (\<lambda>s. s\<lparr>free_pages := (free_pages s)(virtual_address \<mapsto> free_lists s order),
                          free_lists := (free_lists s)(order := virtual_address)\<rparr>))
         (thn (upd (\<lambda>s. s\<lparr>page_bitmap := (page_bitmap s)(page_frame_number := free_entry order)\<rparr>))
              (ret 0)))"

definition free_list_pop :: "translation \<Rightarrow> nat \<Rightarrow> (page_allocator, u64 option) prog" where
  "free_list_pop v2p order =
     bnd (rd (\<lambda>s. free_lists s order)) (\<lambda>free_page.
     if free_page = NULL then ret None
     else case v2p free_page of
       None \<Rightarrow> halt Assertion_Failed
     | Some physical_address \<Rightarrow>
         let page_frame_number = drop_bit PAGE_SHIFT physical_address in
         thn (upd (\<lambda>s. s\<lparr>page_bitmap := (page_bitmap s)(page_frame_number := used_entry order)\<rparr>))
        (bnd (deref free_pages free_page) (\<lambda>next_page.
         thn (upd (\<lambda>s. s\<lparr>free_lists := (free_lists s)(order := next_page)\<rparr>))
             (ret (Some page_frame_number)))))"

text \<open>\<open>page_alloc_block_size\<close>: the number of pages of a block.\<close>

definition page_alloc_block_size :: "nat \<Rightarrow> u64" where
  "page_alloc_block_size order = push_bit order 1"

text \<open>The first loop of \<open>page_alloc_block\<close>: the smallest order with a free block.\<close>

function find_free_order :: "translation \<Rightarrow> nat \<Rightarrow> (page_allocator, nat \<times> u64) prog" where
  "find_free_order v2p current_order =
     (if current_order \<le> MAX_ORDER then
        bnd (free_list_pop v2p current_order) (\<lambda>found.
          case found of
            Some page_frame_number \<Rightarrow> ret (current_order, page_frame_number)
          | None \<Rightarrow> find_free_order v2p (Suc current_order))
      else ret (current_order, 0))"
  by pat_completeness auto
termination
  by (relation "measure (\<lambda>(_, current_order). Suc MAX_ORDER - current_order)") auto

text \<open>The second loop: the upper halves go back to the free lists.\<close>

fun split_down :: "translation \<Rightarrow> nat \<Rightarrow> nat \<Rightarrow> u64 \<Rightarrow> (page_allocator, int) prog" where
  "split_down p2v order 0 page_frame_number = ret 0"
| "split_down p2v order (Suc current_order) page_frame_number =
     (if Suc current_order > order then
        let half_block_size = page_alloc_block_size current_order in
        bnd (free_list_push p2v current_order (page_frame_number + half_block_size)) (\<lambda>r.
          if r < 0 then ret (-1) else split_down p2v order current_order page_frame_number)
      else ret 0)"

definition page_alloc_block ::
  "translation \<Rightarrow> translation \<Rightarrow> nat \<Rightarrow> (page_allocator, u64 option) prog" where
  "page_alloc_block p2v v2p order =
     bnd (find_free_order v2p order) (\<lambda>(current_order, page_frame_number).
     if current_order > MAX_ORDER then ret None
     else bnd (split_down p2v order current_order page_frame_number) (\<lambda>r.
       if r < 0 then ret None
       else thn (upd (\<lambda>s. s\<lparr>page_bitmap := (page_bitmap s)(page_frame_number := used_entry order)\<rparr>))
                (ret (Some (push_bit PAGE_SHIFT page_frame_number)))))"

text \<open>
  \<open>page_alloc_free\<close>. The loop that unlinks the buddy never advances \<open>current_page\<close>, so it is a
  loop over an unchanged state unless it leaves in its first round.
\<close>

partial_function (option) unlink_buddy ::
  "translation \<Rightarrow> u64 \<Rightarrow> u64 \<Rightarrow> page_allocator \<Rightarrow> (fault + unit \<times> page_allocator) option" where
  "unlink_buddy v2p buddy current_page s =
     (if current_page \<noteq> NULL then
        case free_pages s current_page of
          None \<Rightarrow> Some (Inl Bad_Access)
        | Some next_page \<Rightarrow>
            (case v2p next_page of
               None \<Rightarrow> Some (Inl Assertion_Failed)
             | Some physical_address \<Rightarrow>
                 if drop_bit PAGE_SHIFT physical_address = buddy then
                   (case free_pages s next_page of
                      None \<Rightarrow> Some (Inl Bad_Access)
                    | Some next_next_page \<Rightarrow>
                        Some (Inr ((), s\<lparr>free_pages :=
                          (free_pages s)(current_page \<mapsto> next_next_page)\<rparr>)))
                 else unlink_buddy v2p buddy current_page s)
      else Some (Inr ((), s)))"

definition merge_possible :: "u16 \<Rightarrow> nat \<Rightarrow> bool" where
  "merge_possible buddy_page_bitmap current_order \<longleftrightarrow>
     0 < buddy_page_bitmap AND PAGE_BITMAP_VALID_MASK \<and>
     0 < buddy_page_bitmap AND PAGE_BITMAP_IS_FREE_MASK \<and>
     0 < buddy_page_bitmap AND PAGE_BITMAP_IS_HEAD_MASK \<and>
     drop_bit 3 buddy_page_bitmap = of_nat current_order"

function merge_up :: "translation \<Rightarrow> nat \<Rightarrow> u64 \<Rightarrow> (page_allocator, nat \<times> u64) prog" where
  "merge_up v2p current_order page_frame_number =
     (if current_order < MAX_ORDER then
        let buddy = calculate_buddy_page_frame_number page_frame_number current_order in
        if buddy \<ge> MAX_TOTAL_PAGES then ret (current_order, page_frame_number)
        else
          bnd (rd (\<lambda>s. page_bitmap s buddy)) (\<lambda>buddy_page_bitmap.
          if \<not> merge_possible buddy_page_bitmap current_order
          then ret (current_order, page_frame_number)
          else
            thn (\<lambda>s. loop (unlink_buddy v2p buddy (free_lists s current_order) s))
           (thn (upd (\<lambda>s. s\<lparr>page_bitmap := (page_bitmap s)
                   (buddy := page_bitmap s buddy AND NOT PAGE_BITMAP_IS_FREE_MASK)\<rparr>))
                (merge_up v2p (Suc current_order)
                   (if page_frame_number > buddy then buddy else page_frame_number))))
      else ret (current_order, page_frame_number))"
  by pat_completeness auto
termination
  by (relation "measure (\<lambda>(_, current_order, _). MAX_ORDER - current_order)") auto

definition page_alloc_free ::
  "translation \<Rightarrow> translation \<Rightarrow> u64 \<Rightarrow> nat \<Rightarrow> (page_allocator, int) prog" where
  "page_alloc_free p2v v2p physical_start_address order =
     bnd (merge_up v2p order (drop_bit PAGE_SHIFT physical_start_address))
       (\<lambda>(current_order, page_frame_number). free_list_push p2v current_order page_frame_number)"

text \<open>\<open>page_alloc_init\<close>: each usable region of the memory map is cut into the largest blocks.\<close>

datatype mmap_memory_type = MMAP_MEMORY_TYPE_USABLE | MMAP_MEMORY_TYPE_RESERVED

record mmap_memory_descriptor =
  md_physical_start_address :: u64
  md_number_of_pages :: u64
  md_type :: mmap_memory_type

fun pick_order :: "int \<Rightarrow> u64 \<Rightarrow> nat \<Rightarrow> nat" where
  "pick_order remaining_pages start_page_frame_idx 0 = 0"
| "pick_order remaining_pages start_page_frame_idx (Suc order) =
     (let block_pages = page_alloc_block_size (Suc order) in
      if uint block_pages \<le> remaining_pages \<and> start_page_frame_idx mod block_pages = 0
      then Suc order
      else pick_order remaining_pages start_page_frame_idx order)"

lemma pick_order_le: "pick_order r i n \<le> n"
  by (induction n) (auto simp: Let_def)

lemma pow2_order_bound: "n \<le> MAX_ORDER \<Longrightarrow> (2::nat) ^ n \<le> 1024"
  using power_increasing [of n 10 "2::nat"] by simp

lemma unat_page_alloc_block_size: "n \<le> MAX_ORDER \<Longrightarrow> unat (page_alloc_block_size n) = 2 ^ n"
  using unat_push_bit_no_wrap [of "1::u64" n] pow2_order_bound [of n]
  by (simp add: page_alloc_block_size_def)

lemma uint_page_alloc_block_size: "n \<le> MAX_ORDER \<Longrightarrow> uint (page_alloc_block_size n) = 2 ^ n"
  using arg_cong [OF unat_page_alloc_block_size, of n int] by simp

function add_free_blocks :: "translation \<Rightarrow> int \<Rightarrow> u64 \<Rightarrow> (page_allocator, int) prog" where
  "add_free_blocks p2v remaining_pages start_page_frame_idx =
     (if remaining_pages > 0 then
        let order = pick_order remaining_pages start_page_frame_idx MAX_ORDER in
        bnd (free_list_push p2v order start_page_frame_idx) (\<lambda>r.
          if r < 0 then ret (-1)
          else let block_pages = page_alloc_block_size order in
            add_free_blocks p2v (remaining_pages - uint block_pages)
              (start_page_frame_idx + block_pages))
      else ret 0)"
  by pat_completeness auto
termination
  by (relation "measure (\<lambda>(_, remaining_pages, _). nat remaining_pages)")
     (auto simp: uint_page_alloc_block_size pick_order_le)

fun add_descriptors ::
  "translation \<Rightarrow> mmap_memory_descriptor list \<Rightarrow> (page_allocator, int) prog" where
  "add_descriptors p2v [] = ret 0"
| "add_descriptors p2v (descriptor # memory_map) =
     (if md_type descriptor \<noteq> MMAP_MEMORY_TYPE_USABLE then add_descriptors p2v memory_map
      else
        thn (kassert (p2v (md_physical_start_address descriptor) \<noteq> None))
       (bnd (add_free_blocks p2v (sint (md_number_of_pages descriptor))
               (drop_bit PAGE_SHIFT (md_physical_start_address descriptor))) (\<lambda>r.
          if r < 0 then ret (-1) else add_descriptors p2v memory_map)))"

definition page_alloc_init ::
  "translation \<Rightarrow> mmap_memory_descriptor list \<Rightarrow> (page_allocator, int) prog" where
  "page_alloc_init p2v memory_map =
     thn (upd (\<lambda>s. s\<lparr>free_lists := (\<lambda>i. if i \<le> MAX_ORDER then NULL else free_lists s i)\<rparr>))
    (thn (upd (\<lambda>s. s\<lparr>page_bitmap := (\<lambda>i. if i < MAX_TOTAL_PAGES then 0 else page_bitmap s i)\<rparr>))
         (add_descriptors p2v memory_map))"

declare find_free_order.simps [simp del] merge_up.simps [simp del] add_free_blocks.simps [simp del]

section \<open>The abstract allocator\<close>

text \<open>
  Abstractly the allocator is, for every order, the list of the first frames of the free
  blocks. \<open>block order p\<close> is the set of frames of a block.
\<close>

type_synonym buddy_lists = "nat \<Rightarrow> nat list"

definition block :: "nat \<Rightarrow> nat \<Rightarrow> nat set" where
  "block order p = {p ..< p + 2 ^ order}"

definition free_frames :: "buddy_lists \<Rightarrow> nat set" where
  "free_frames fl = (\<Union>order \<in> {..MAX_ORDER}. \<Union>p \<in> set (fl order). block order p)"

definition buddy_wf :: "nat \<Rightarrow> buddy_lists \<Rightarrow> bool" where
  "buddy_wf frames fl \<longleftrightarrow>
     (\<forall>order > MAX_ORDER. fl order = []) \<and>
     (\<forall>order \<le> MAX_ORDER. distinct (fl order) \<and>
        (\<forall>p \<in> set (fl order). 2 ^ order dvd p \<and> p + 2 ^ order \<le> frames)) \<and>
     (\<forall>order \<le> MAX_ORDER. \<forall>order' \<le> MAX_ORDER. \<forall>p \<in> set (fl order). \<forall>p' \<in> set (fl order').
        (order, p) \<noteq> (order', p') \<longrightarrow> block order p \<inter> block order' p' = {})"

fun abs_find :: "buddy_lists \<Rightarrow> nat \<Rightarrow> nat \<Rightarrow> nat option" where
  "abs_find fl order 0 = None"
| "abs_find fl order (Suc n) =
     (if fl order \<noteq> [] then Some order else abs_find fl (Suc order) n)"

fun abs_split :: "nat \<Rightarrow> nat \<Rightarrow> nat \<Rightarrow> buddy_lists \<Rightarrow> buddy_lists" where
  "abs_split order 0 p fl = fl"
| "abs_split order (Suc c) p fl =
     (if Suc c > order then abs_split order c p (fl(c := (p + 2 ^ c) # fl c)) else fl)"

definition abs_alloc :: "nat \<Rightarrow> buddy_lists \<Rightarrow> nat option \<times> buddy_lists" where
  "abs_alloc order fl =
     (case abs_find fl order (Suc MAX_ORDER - order) of
        None \<Rightarrow> (None, fl)
      | Some c \<Rightarrow> (Some (hd (fl c)), abs_split order c (hd (fl c)) (fl(c := tl (fl c)))))"

lemma block_mem [simp]: "p \<in> block order p"
  by (simp add: block_def)

lemma block_halves: "block (Suc c) p = block c p \<union> block c (p + 2 ^ c)"
  by (auto simp: block_def)

lemma block_halves_disjoint: "block c p \<inter> block c (p + 2 ^ c) = {}"
  by (auto simp: block_def)

lemma abs_find_Some:
  "abs_find fl order n = Some c \<Longrightarrow> order \<le> c \<and> c < order + n \<and> fl c \<noteq> []"
  by (induction fl order n rule: abs_find.induct) (auto split: if_splits)

lemma abs_find_None:
  "abs_find fl order n = None \<longleftrightarrow> (\<forall>c. order \<le> c \<and> c < order + n \<longrightarrow> fl c = [])"
proof (induction fl order n rule: abs_find.induct)
  case (2 fl order n)
  then show ?case by (auto simp: le_Suc_eq) (metis Suc_leI le_neq_implies_less)
qed auto

lemma free_frames_iff:
  "f \<in> free_frames fl \<longleftrightarrow> (\<exists>order \<le> MAX_ORDER. \<exists>p \<in> set (fl order). f \<in> block order p)"
  by (auto simp: free_frames_def)

lemma free_frames_add:
  assumes "c \<le> MAX_ORDER"
  shows "free_frames (fl(c := p # ps)) = free_frames (fl(c := ps)) \<union> block c p"
proof (rule set_eqI)
  fix f
  show "f \<in> free_frames (fl(c := p # ps)) \<longleftrightarrow> f \<in> free_frames (fl(c := ps)) \<union> block c p"
    unfolding free_frames_iff Un_iff using assms by (auto split: if_splits)
qed

text \<open>
  \<open>buddy_apart fl order p\<close>: the block is in range, aligned, and meets no free block, so it can be
  handed out or put on a free list.
\<close>

definition buddy_apart :: "nat \<Rightarrow> buddy_lists \<Rightarrow> nat \<Rightarrow> nat \<Rightarrow> bool" where
  "buddy_apart frames fl order p \<longleftrightarrow>
     2 ^ order dvd p \<and> p + 2 ^ order \<le> frames \<and> block order p \<inter> free_frames fl = {}"

lemma buddy_wfD:
  assumes "buddy_wf frames fl"
  shows "order > MAX_ORDER \<Longrightarrow> fl order = []"
    and "order \<le> MAX_ORDER \<Longrightarrow> distinct (fl order)"
    and "order \<le> MAX_ORDER \<Longrightarrow> p \<in> set (fl order) \<Longrightarrow> 2 ^ order dvd p \<and> p + 2 ^ order \<le> frames"
    and "\<lbrakk>order \<le> MAX_ORDER; order' \<le> MAX_ORDER; p \<in> set (fl order); p' \<in> set (fl order');
          (order, p) \<noteq> (order', p')\<rbrakk> \<Longrightarrow> block order p \<inter> block order' p' = {}"
  using assms unfolding buddy_wf_def by blast+

lemma buddy_wfI:
  assumes "\<And>order. order > MAX_ORDER \<Longrightarrow> fl order = []"
    and "\<And>order. order \<le> MAX_ORDER \<Longrightarrow> distinct (fl order)"
    and "\<And>order p. order \<le> MAX_ORDER \<Longrightarrow> p \<in> set (fl order) \<Longrightarrow> 2 ^ order dvd p \<and> p + 2 ^ order \<le> frames"
    and "\<And>order p order' p'. \<lbrakk>order \<le> MAX_ORDER; order' \<le> MAX_ORDER; p \<in> set (fl order);
          p' \<in> set (fl order'); (order, p) \<noteq> (order', p')\<rbrakk> \<Longrightarrow> block order p \<inter> block order' p' = {}"
  shows "buddy_wf frames fl"
  using assms unfolding buddy_wf_def by blast

lemma buddy_wf_pop:
  assumes wf: "buddy_wf frames fl" and c: "c \<le> MAX_ORDER" and fl: "fl c = p # ps"
  shows "buddy_wf frames (fl(c := ps))" and "buddy_apart frames (fl(c := ps)) c p"
    and "free_frames fl = free_frames (fl(c := ps)) \<union> block c p"
proof -
  show "buddy_wf frames (fl(c := ps))"
  proof (rule buddy_wfI)
    fix order p' order'' p''
    assume "order \<le> MAX_ORDER" "order'' \<le> MAX_ORDER" "p' \<in> set ((fl(c := ps)) order)"
      "p'' \<in> set ((fl(c := ps)) order'')" "(order, p') \<noteq> (order'', p'')"
    then show "block order p' \<inter> block order'' p'' = {}"
      using buddy_wfD(4) [OF wf, of order order'' p' p''] fl by (auto split: if_splits)
  next
    fix order p' assume "order \<le> MAX_ORDER" "p' \<in> set ((fl(c := ps)) order)"
    then show "2 ^ order dvd p' \<and> p' + 2 ^ order \<le> frames"
      using buddy_wfD(3) [OF wf, of order p'] fl by (auto split: if_splits)
  next
    fix order show "order \<le> MAX_ORDER \<Longrightarrow> distinct ((fl(c := ps)) order)"
      using buddy_wfD(2) [OF wf, of order] fl by auto
  qed (use buddy_wfD(1) [OF wf] c in auto)
  have "block c p \<inter> block order' p' = {}"
    if "order' \<le> MAX_ORDER" "p' \<in> set ((fl(c := ps)) order')" for order' p'
  proof -
    have "p \<notin> set ps" and "p' \<in> set (fl order')"
      using buddy_wfD(2) [OF wf c] fl that by (auto split: if_splits)
    then have "(c, p) \<noteq> (order', p')" using that(2) by auto
    with buddy_wfD(4) [OF wf c that(1) _ \<open>p' \<in> set (fl order')\<close>] fl show ?thesis by simp
  qed
  then show "buddy_apart frames (fl(c := ps)) c p"
    using buddy_wfD(3) [OF wf c, of p] fl unfolding buddy_apart_def
    by (auto simp: free_frames_iff) blast
  show "free_frames fl = free_frames (fl(c := ps)) \<union> block c p"
    using free_frames_add [OF c, of fl p ps] fl by (metis fun_upd_triv)
qed

lemma buddy_wf_push:
  assumes wf: "buddy_wf frames fl" and c: "c \<le> MAX_ORDER" and ap: "buddy_apart frames fl c p"
  shows "buddy_wf frames (fl(c := p # fl c))"
    and "free_frames (fl(c := p # fl c)) = free_frames fl \<union> block c p"
proof -
  have dis: "block c p \<inter> block order' p' = {}" if "order' \<le> MAX_ORDER" "p' \<in> set (fl order')" for order' p'
    using ap that by (auto simp: buddy_apart_def free_frames_def)
  then have "p \<notin> set (fl c)" using c by (metis IntI block_mem empty_iff)
  then show "buddy_wf frames (fl(c := p # fl c))"
  proof (intro buddy_wfI)
    fix order p' order'' p''
    assume *: "order \<le> MAX_ORDER" "order'' \<le> MAX_ORDER" "p' \<in> set ((fl(c := p # fl c)) order)"
      "p'' \<in> set ((fl(c := p # fl c)) order'')" "(order, p') \<noteq> (order'', p'')"
    then show "block order p' \<inter> block order'' p'' = {}"
      using buddy_wfD(4) [OF wf *(1,2), of p' p''] dis [OF *(1), of p'] dis [OF *(2), of p'']
      by (auto split: if_splits)
  next
    fix order p' assume "order \<le> MAX_ORDER" "p' \<in> set ((fl(c := p # fl c)) order)"
    then show "2 ^ order dvd p' \<and> p' + 2 ^ order \<le> frames"
      using buddy_wfD(3) [OF wf, of order p'] ap by (auto simp: buddy_apart_def split: if_splits)
  qed (use buddy_wfD(1,2) [OF wf] \<open>p \<notin> set (fl c)\<close> c in auto)
  show "free_frames (fl(c := p # fl c)) = free_frames fl \<union> block c p"
    using free_frames_add [OF c, of fl p "fl c"] by simp
qed

lemma free_frames_head: "order \<le> MAX_ORDER \<Longrightarrow> q \<in> set (fl order) \<Longrightarrow> q \<in> free_frames fl"
  unfolding free_frames_iff using block_mem by blast

lemma buddy_apart_not_member:
  "buddy_apart frames fl c p \<Longrightarrow> order \<le> MAX_ORDER \<Longrightarrow> q \<in> block c p \<Longrightarrow> q \<notin> set (fl order)"
  using free_frames_head unfolding buddy_apart_def by blast

lemma buddy_apart_halves:
  assumes "buddy_apart frames fl (Suc c) p" and "c \<le> MAX_ORDER"
  shows "buddy_apart frames fl c (p + 2 ^ c)"
    and "buddy_apart frames (fl(c := (p + 2 ^ c) # fl c)) c p"
proof -
  have d: "2 ^ c dvd p" using assms(1) dvd_mult_right [of 2 "2 ^ c" p] by (simp add: buddy_apart_def)
  then show hi: "buddy_apart frames fl c (p + 2 ^ c)"
    using assms(1) by (auto simp: buddy_apart_def block_halves)
  have "free_frames (fl(c := (p + 2 ^ c) # fl c)) = free_frames fl \<union> block c (p + 2 ^ c)"
    using free_frames_add [OF assms(2), of fl _ "fl c"] by simp
  then show "buddy_apart frames (fl(c := (p + 2 ^ c) # fl c)) c p"
    using d assms(1) block_halves_disjoint [of c p] by (auto simp: buddy_apart_def block_halves)
qed

lemma abs_split_correct:
  assumes "buddy_wf frames fl" "buddy_apart frames fl c p" "order \<le> c" "c \<le> MAX_ORDER"
  shows "buddy_wf frames (abs_split order c p fl) \<and>
    buddy_apart frames (abs_split order c p fl) order p \<and>
    free_frames (abs_split order c p fl) \<union> block order p = free_frames fl \<union> block c p"
  using assms
proof (induction c arbitrary: fl)
  case (Suc c)
  show ?case
  proof (cases "Suc c > order")
    case True
    let ?fl = "fl(c := (p + 2 ^ c) # fl c)"
    have c: "c \<le> MAX_ORDER" using Suc.prems by simp
    note halves = buddy_apart_halves [OF Suc.prems(2) c]
    note push = buddy_wf_push [OF Suc.prems(1) c halves(1)]
    have "free_frames ?fl \<union> block c p = free_frames fl \<union> block (Suc c) p"
      using push(2) by (auto simp: block_halves)
    with Suc.IH [OF push(1) halves(2)] True c show ?thesis by (simp del: fun_upd_apply)
  next
    case False
    with Suc.prems have "order = Suc c" by simp
    with Suc.prems show ?thesis by simp
  qed
qed auto

text \<open>What the abstract allocator promises.\<close>

lemma abs_alloc_Some:
  assumes wf: "buddy_wf frames fl" and al: "abs_alloc order fl = (Some p, fl')"
  shows "buddy_wf frames fl'" and "buddy_apart frames fl' order p"
    and "free_frames fl = free_frames fl' \<union> block order p"
proof -
  obtain c where f: "abs_find fl order (Suc MAX_ORDER - order) = Some c" and p: "p = hd (fl c)"
    and fl': "fl' = abs_split order c p (fl(c := tl (fl c)))"
    using al by (auto simp: abs_alloc_def split: option.splits)
  from abs_find_Some [OF f] have c: "order \<le> c" "c \<le> MAX_ORDER" and ne: "fl c = p # tl (fl c)"
    using p by auto
  note pop = buddy_wf_pop [OF wf c(2) ne]
  from abs_split_correct [OF pop(1,2) c] pop(3) fl'
  show "buddy_wf frames fl'" "buddy_apart frames fl' order p"
    "free_frames fl = free_frames fl' \<union> block order p" by auto
qed

lemma abs_alloc_None:
  assumes "abs_alloc order fl = (None, fl')"
  shows "fl' = fl" and "\<And>c. order \<le> c \<Longrightarrow> c \<le> MAX_ORDER \<Longrightarrow> fl c = []"
  using assms by (auto simp: abs_alloc_def abs_find_None split: option.splits)


section \<open>The code refines the abstract allocator\<close>

subsection \<open>Bitmap entries\<close>

lemma order_cases:
  "order \<le> MAX_ORDER \<Longrightarrow> order = 0 \<or> order = 1 \<or> order = 2 \<or> order = 3 \<or> order = 4 \<or> order = 5 \<or>
     order = 6 \<or> order = 7 \<or> order = 8 \<or> order = 9 \<or> order = 10"
  by arith

lemma unat_free_entry: "order \<le> MAX_ORDER \<Longrightarrow> unat (free_entry order) = 8 * order + 7"
  unfolding free_entry_def by (drule order_cases, elim disjE) simp_all

lemma unat_used_entry: "order \<le> MAX_ORDER \<Longrightarrow> unat (used_entry order) = 8 * order + 3"
  unfolding used_entry_def by (drule order_cases, elim disjE) simp_all

lemma free_entry_inject:
  "order \<le> MAX_ORDER \<Longrightarrow> order' \<le> MAX_ORDER \<Longrightarrow> free_entry order = free_entry order' \<longleftrightarrow> order = order'"
  by (metis unat_free_entry add_right_cancel mult_left_cancel zero_neq_numeral)

lemma used_entry_not_free:
  "order \<le> MAX_ORDER \<Longrightarrow> order' \<le> MAX_ORDER \<Longrightarrow> used_entry order \<noteq> free_entry order'"
proof
  assume "order \<le> MAX_ORDER" "order' \<le> MAX_ORDER" "used_entry order = free_entry order'"
  then have "8 * order + 3 = 8 * order' + 7" using unat_free_entry unat_used_entry by metis
  then show False by presburger
qed

subsection \<open>Free lists in memory\<close>

fun chain :: "(u64 \<rightharpoonup> u64) \<Rightarrow> u64 \<Rightarrow> u64 list \<Rightarrow> bool" where
  "chain h x [] \<longleftrightarrow> x = 0"
| "chain h x (p # ps) \<longleftrightarrow> x = p \<and> p \<noteq> 0 \<and> (\<exists>y. h p = Some y \<and> chain h y ps)"

lemma chain_upd [simp]: "q \<notin> set ps \<Longrightarrow> chain (h(q \<mapsto> v)) x ps = chain h x ps"
  by (induction ps arbitrary: x) auto

lemma chain_head: "chain h x ps \<Longrightarrow> x = (if ps = [] then 0 else hd ps)"
  by (cases ps) auto

lemma chain_null: "chain h 0 ps \<longleftrightarrow> ps = []"
  by (cases ps) auto

text \<open>The address of a frame.\<close>

definition frame_addr :: "nat \<Rightarrow> u64" where
  "frame_addr f = push_bit PAGE_SHIFT (of_nat f)"

lemma unat_frame_addr: "f < 2 ^ 52 \<Longrightarrow> unat (frame_addr f) = f * 4096"
proof -
  assume f: "f < 2 ^ 52"
  have u: "unat (of_nat f :: u64) = f" by (rule unat_of_nat_64) (use f in simp)
  have "f * 2 ^ PAGE_SHIFT < 2 ^ LENGTH(64)" using f by simp
  then have "unat (of_nat f :: u64) * 2 ^ PAGE_SHIFT < 2 ^ LENGTH(64)" by (simp only: u)
  from unat_push_bit_no_wrap [OF this] have "unat (frame_addr f) = f * 2 ^ PAGE_SHIFT"
    unfolding frame_addr_def u .
  then show ?thesis by simp
qed

lemma frame_addr_shift: "f < 2 ^ 52 \<Longrightarrow> drop_bit PAGE_SHIFT (frame_addr f) = of_nat f"
proof -
  assume f: "f < 2 ^ 52"
  have u: "unat (of_nat f :: u64) = f" by (rule unat_of_nat_64) (use f in simp)
  have "unat (drop_bit PAGE_SHIFT (frame_addr f)) = f * 4096 div 2 ^ PAGE_SHIFT"
    by (simp only: unat_drop_bit unat_frame_addr [OF f])
  also have "\<dots> = unat (of_nat f :: u64)" unfolding u by simp
  finally show ?thesis unfolding word_unat_eq_iff .
qed

lemma frame_addr_inject: "f < 2 ^ 52 \<Longrightarrow> g < 2 ^ 52 \<Longrightarrow> frame_addr f = frame_addr g \<longleftrightarrow> f = g"
  using unat_frame_addr by (metis mult_right_cancel zero_neq_numeral)

definition page_alloc_rel ::
  "translation \<Rightarrow> nat \<Rightarrow> page_allocator \<Rightarrow> buddy_lists \<Rightarrow> bool" where
  "page_alloc_rel p2v frames s fl \<longleftrightarrow>
     (\<forall>order > MAX_ORDER. fl order = []) \<and>
     (\<forall>order \<le> MAX_ORDER. distinct (fl order) \<and> (\<forall>f \<in> set (fl order). f < frames) \<and>
        chain (free_pages s) (free_lists s order) (map (\<lambda>f. the (p2v (frame_addr f))) (fl order))) \<and>
     (\<forall>f < 2 ^ 24. \<forall>order \<le> MAX_ORDER.
        page_bitmap s (of_nat f) = free_entry order \<longleftrightarrow> f \<in> set (fl order))"

lemma page_alloc_relD:
  assumes "page_alloc_rel p2v frames s fl"
  shows "order > MAX_ORDER \<Longrightarrow> fl order = []"
    and "order \<le> MAX_ORDER \<Longrightarrow> distinct (fl order)"
    and "order \<le> MAX_ORDER \<Longrightarrow> f \<in> set (fl order) \<Longrightarrow> f < frames"
    and "order \<le> MAX_ORDER \<Longrightarrow>
           chain (free_pages s) (free_lists s order) (map (\<lambda>f. the (p2v (frame_addr f))) (fl order))"
    and "f < 2 ^ 24 \<Longrightarrow> order \<le> MAX_ORDER \<Longrightarrow>
           page_bitmap s (of_nat f) = free_entry order \<longleftrightarrow> f \<in> set (fl order)"
  using assms unfolding page_alloc_rel_def by blast+

lemma page_alloc_relI:
  assumes "\<And>order. order > MAX_ORDER \<Longrightarrow> fl order = []"
    and "\<And>order. order \<le> MAX_ORDER \<Longrightarrow> distinct (fl order)"
    and "\<And>order f. order \<le> MAX_ORDER \<Longrightarrow> f \<in> set (fl order) \<Longrightarrow> f < frames"
    and "\<And>order. order \<le> MAX_ORDER \<Longrightarrow>
           chain (free_pages s) (free_lists s order) (map (\<lambda>f. the (p2v (frame_addr f))) (fl order))"
    and "\<And>order f. f < 2 ^ 24 \<Longrightarrow> order \<le> MAX_ORDER \<Longrightarrow>
           page_bitmap s (of_nat f) = free_entry order \<longleftrightarrow> f \<in> set (fl order)"
  shows "page_alloc_rel p2v frames s fl"
  using assms unfolding page_alloc_rel_def by blast

text \<open>
  The interface to the direct map of physical memory: while \<open>ok m\<close> holds of the state \<open>m\<close> of
  the memory map, each of the \<open>frames\<close> frames of physical memory has a non-null virtual
  address, and translating that address back gives the frame.
\<close>

locale direct_map =
  fixes p2v v2p :: "'m \<Rightarrow> translation" and ok :: "'m \<Rightarrow> bool" and frames :: nat
  assumes frames_bound: "frames \<le> 2 ^ 24"
    and frame_mapped: "ok m \<Longrightarrow> f < frames \<Longrightarrow>
      \<exists>va. p2v m (frame_addr f) = Some va \<and> va \<noteq> 0 \<and> v2p m va = Some (frame_addr f)"
begin

lemma frame_lt: "f < frames \<Longrightarrow> f < 2 ^ 24"
  using frames_bound by simp

lemma of_nat_frame_eq: "f < 2 ^ 24 \<Longrightarrow> g < 2 ^ 24 \<Longrightarrow> (of_nat f :: u64) = of_nat g \<longleftrightarrow> f = g"
  by (rule of_nat_64_inject) simp_all

lemma p2v_inject:
  assumes "ok m" "f < frames" "g < frames" "the (p2v m (frame_addr f)) = the (p2v m (frame_addr g))"
  shows "f = g"
proof -
  have "frame_addr f = frame_addr g"
    using frame_mapped [OF assms(1,2)] frame_mapped [OF assms(1,3)] assms(4) by auto
  moreover have "f < 2 ^ 52" "g < 2 ^ 52"
    using frame_lt [OF assms(2)] frame_lt [OF assms(3)] by simp_all
  ultimately show ?thesis using frame_addr_inject by blast
qed

lemma free_list_push_rel:
  assumes m: "ok m" and r: "page_alloc_rel (p2v m) frames s fl"
    and o: "order \<le> MAX_ORDER" and f: "f < frames"
    and new: "\<And>order'. order' \<le> MAX_ORDER \<Longrightarrow> f \<notin> set (fl order')"
  obtains s' where "free_list_push (p2v m) order (of_nat f) s = Inr (0, s')"
    and "page_alloc_rel (p2v m) frames s' (fl(order := f # fl order))"
proof -
  obtain va where va: "p2v m (frame_addr f) = Some va" "va \<noteq> 0"
    using frame_mapped [OF m f] by blast
  let ?s = "s\<lparr>free_pages := (free_pages s)(va \<mapsto> free_lists s order),
              free_lists := (free_lists s)(order := va),
              page_bitmap := (page_bitmap s)(of_nat f := free_entry order)\<rparr>"
  have small: "\<not> MAX_TOTAL_PAGES \<le> (of_nat f :: u64)"
    using frame_lt [OF f] unat_of_nat_64 [of f] by (simp add: word_le_nat_alt)
  have va_fresh: "va \<notin> (\<lambda>g. the (p2v m (frame_addr g))) ` set (fl o')" if "o' \<le> MAX_ORDER" for o'
  proof
    assume "va \<in> (\<lambda>g. the (p2v m (frame_addr g))) ` set (fl o')"
    then obtain g where g: "g \<in> set (fl o')" "the (p2v m (frame_addr g)) = va" by auto
    then have "f = g" using p2v_inject [OF m f page_alloc_relD(3) [OF r that g(1)]] va by simp
    with g new [OF that] show False by simp
  qed
  have "page_alloc_rel (p2v m) frames ?s (fl(order := f # fl order))"
  proof (rule page_alloc_relI)
    fix order' assume o': "order' \<le> MAX_ORDER"
    show "distinct ((fl(order := f # fl order)) order')"
      using page_alloc_relD(2) [OF r o'] new [OF o'] by auto
    have "va \<notin> set (map (\<lambda>f. the (p2v m (frame_addr f))) (fl order'))"
      using va_fresh [OF o'] by simp
    then show "chain (free_pages ?s) (free_lists ?s order')
        (map (\<lambda>f. the (p2v m (frame_addr f))) ((fl(order := f # fl order)) order'))"
      using page_alloc_relD(4) [OF r o'] va by (auto simp del: set_map)
    fix g assume "g < (2::nat) ^ 24"
    then show "page_bitmap ?s (of_nat g) = free_entry order' \<longleftrightarrow> g \<in> set ((fl(order := f # fl order)) order')"
      using page_alloc_relD(5) [OF r _ o'] o o' of_nat_frame_eq [OF _ frame_lt [OF f]] new [OF o']
      by (auto simp: free_entry_inject)
  next
    fix order' g assume "order' \<le> MAX_ORDER" "g \<in> set ((fl(order := f # fl order)) order')"
    then show "g < frames" using page_alloc_relD(3) [OF r] f by (auto split: if_splits)
  qed (use page_alloc_relD(1) [OF r] o in auto)
  moreover have "free_list_push (p2v m) order (of_nat f) s = Inr (0, ?s)"
    using o small va by (simp add: free_list_push_def frame_addr_def)
  ultimately show thesis using that by blast
qed

lemma free_list_pop_rel:
  assumes m: "ok m" and r: "page_alloc_rel (p2v m) frames s fl" and o: "order \<le> MAX_ORDER"
  shows "fl order = [] \<Longrightarrow> free_list_pop (v2p m) order s = Inr (None, s)"
    and "fl order = f # fs \<Longrightarrow> \<exists>s'. free_list_pop (v2p m) order s = Inr (Some (of_nat f), s') \<and>
           page_alloc_rel (p2v m) frames s' (fl(order := fs))"
proof -
  show "fl order = [] \<Longrightarrow> free_list_pop (v2p m) order s = Inr (None, s)"
    using page_alloc_relD(4) [OF r o] by (simp add: free_list_pop_def)
next
  assume fl: "fl order = f # fs"
  have f: "f < frames" using page_alloc_relD(3) [OF r o] fl by simp
  obtain va where va: "p2v m (frame_addr f) = Some va" "va \<noteq> 0" "v2p m va = Some (frame_addr f)"
    using frame_mapped [OF m f] by blast
  obtain nxt where nxt: "free_lists s order = va" "free_pages s va = Some nxt"
    "chain (free_pages s) nxt (map (\<lambda>f. the (p2v m (frame_addr f))) fs)"
    using page_alloc_relD(4) [OF r o] fl va by auto
  have pfn: "drop_bit PAGE_SHIFT (frame_addr f) = of_nat f"
    using frame_lt [OF f] by (intro frame_addr_shift) simp
  let ?s = "s\<lparr>page_bitmap := (page_bitmap s)(of_nat f := used_entry order),
              free_lists := (free_lists s)(order := nxt)\<rparr>"
  have other: "f \<notin> set (fl o')" if "o' \<le> MAX_ORDER" "o' \<noteq> order" for o'
    using page_alloc_relD(5) [OF r frame_lt [OF f]] that o fl free_entry_inject
    by (metis list.set_intros(1))
  have "page_alloc_rel (p2v m) frames ?s (fl(order := fs))"
  proof (rule page_alloc_relI)
    fix order' assume o': "order' \<le> MAX_ORDER"
    show "distinct ((fl(order := fs)) order')"
      using page_alloc_relD(2) [OF r o'] fl by auto
    show "chain (free_pages ?s) (free_lists ?s order')
        (map (\<lambda>f. the (p2v m (frame_addr f))) ((fl(order := fs)) order'))"
      using page_alloc_relD(4) [OF r o'] nxt by simp
    fix g assume g: "g < (2::nat) ^ 24"
    show "page_bitmap ?s (of_nat g) = free_entry order' \<longleftrightarrow> g \<in> set ((fl(order := fs)) order')"
    proof (cases "g = f")
      case True
      then show ?thesis
        using used_entry_not_free [OF o o'] other [OF o'] page_alloc_relD(2) [OF r o] fl by auto
    next
      case False
      then show ?thesis
        using page_alloc_relD(5) [OF r g o'] of_nat_frame_eq [OF g frame_lt [OF f]] fl by auto
    qed
  next
    fix order' g assume "order' \<le> MAX_ORDER" "g \<in> set ((fl(order := fs)) order')"
    then show "g < frames" using page_alloc_relD(3) [OF r] fl by (auto split: if_splits)
  qed (use page_alloc_relD(1) [OF r] o in auto)
  moreover have "free_list_pop (v2p m) order s = Inr (Some (of_nat f), ?s)"
    using nxt va by (simp add: free_list_pop_def pfn Let_def)
  ultimately show "\<exists>s'. free_list_pop (v2p m) order s = Inr (Some (of_nat f), s') \<and>
           page_alloc_rel (p2v m) frames s' (fl(order := fs))" by blast
qed

end

context direct_map
begin

lemma buddy_apart_less: "buddy_apart frames fl c p \<Longrightarrow> p < frames"
proof -
  assume "buddy_apart frames fl c p"
  then have "p + 2 ^ c \<le> frames" by (simp add: buddy_apart_def)
  moreover have "0 < (2::nat) ^ c" by simp
  ultimately show "p < frames" by linarith
qed

lemma page_alloc_rel_used:
  assumes "page_alloc_rel (p2v m) frames s fl" "f < 2 ^ 24" "order \<le> MAX_ORDER"
    and "\<And>order'. order' \<le> MAX_ORDER \<Longrightarrow> f \<notin> set (fl order')"
  shows "page_alloc_rel (p2v m) frames
           (s\<lparr>page_bitmap := (page_bitmap s)(of_nat f := used_entry order)\<rparr>) fl"
proof (rule page_alloc_relI)
  fix order' g assume g: "g < (2::nat) ^ 24" and o': "order' \<le> MAX_ORDER"
  then show "page_bitmap (s\<lparr>page_bitmap := (page_bitmap s)(of_nat f := used_entry order)\<rparr>) (of_nat g)
      = free_entry order' \<longleftrightarrow> g \<in> set (fl order')"
    using page_alloc_relD(5) [OF assms(1) g o'] of_nat_frame_eq [OF g assms(2)] assms(4) [OF o']
      used_entry_not_free [OF assms(3) o'] by auto
qed (use page_alloc_relD [OF assms(1)] in auto)

lemma find_free_order_rel:
  assumes m: "ok m" and r: "page_alloc_rel (p2v m) frames s fl"
  shows "case abs_find fl order (Suc MAX_ORDER - order) of
      None \<Rightarrow> \<exists>c > MAX_ORDER. find_free_order (v2p m) order s = Inr ((c, 0), s)
    | Some c \<Rightarrow> \<exists>s'. find_free_order (v2p m) order s = Inr ((c, of_nat (hd (fl c))), s') \<and>
        page_alloc_rel (p2v m) frames s' (fl(c := tl (fl c)))"
proof (induction "Suc MAX_ORDER - order" arbitrary: order)
  case 0
  then show ?case by (simp add: find_free_order.simps [of _ order])
next
  case (Suc n)
  then have o: "order \<le> MAX_ORDER" and n: "n = Suc MAX_ORDER - Suc order" by simp_all
  note pop = free_list_pop_rel [OF m r o]
  have eq: "Suc MAX_ORDER - order = Suc n" using Suc.hyps(2) by simp
  show ?case
  proof (cases "fl order")
    case Nil
    have "find_free_order (v2p m) order s = find_free_order (v2p m) (Suc order) s"
      using pop(1) [OF Nil] o by (subst find_free_order.simps) simp
    with Suc.hyps(1) [OF n] Nil show ?thesis unfolding eq by (auto simp: n split: option.splits)
  next
    case (Cons f fs)
    then obtain s' where "free_list_pop (v2p m) order s = Inr (Some (of_nat f), s')"
      "page_alloc_rel (p2v m) frames s' (fl(order := fs))" using pop(2) by blast
    with Cons o show ?thesis unfolding eq by (subst find_free_order.simps) simp
  qed
qed

lemma of_nat_block: "(of_nat p :: u64) + page_alloc_block_size c = of_nat (p + 2 ^ c)"
  by (simp add: page_alloc_block_size_def push_bit_eq_mult)

lemma split_down_rel:
  assumes m: "ok m" and "page_alloc_rel (p2v m) frames s fl" "buddy_wf frames fl"
    "buddy_apart frames fl c p" "order \<le> c" "c \<le> MAX_ORDER"
  shows "\<exists>s'. split_down (p2v m) order c (of_nat p) s = Inr (0, s') \<and>
           page_alloc_rel (p2v m) frames s' (abs_split order c p fl)"
  using assms(2-)
proof (induction c arbitrary: fl s)
  case (Suc c)
  show ?case
  proof (cases "Suc c > order")
    case True
    let ?fl = "fl(c := (p + 2 ^ c) # fl c)"
    have c: "c \<le> MAX_ORDER" using Suc.prems by simp
    note halves = buddy_apart_halves [OF Suc.prems(3) c]
    note push = buddy_wf_push [OF Suc.prems(2) c halves(1)]
    have lt: "p + 2 ^ c < frames" by (rule buddy_apart_less [OF halves(1)])
    have "p + 2 ^ c \<notin> set (fl order')" if "order' \<le> MAX_ORDER" for order'
      by (rule buddy_apart_not_member [OF halves(1) that block_mem])
    then obtain s' where "free_list_push (p2v m) c (of_nat (p + 2 ^ c)) s = Inr (0, s')"
      and r: "page_alloc_rel (p2v m) frames s' ?fl"
      using free_list_push_rel [OF m Suc.prems(1) c lt] by blast
    with Suc.IH [OF r push(1) halves(2)] True c show ?thesis
      by (simp add: Let_def of_nat_block del: of_nat_add fun_upd_apply)
  next
    case False
    with Suc.prems show ?thesis by auto
  qed
qed auto

end

definition page_alloc_inv ::
  "translation \<Rightarrow> nat \<Rightarrow> page_allocator \<Rightarrow> buddy_lists \<Rightarrow> bool" where
  "page_alloc_inv p2v frames s fl \<longleftrightarrow> page_alloc_rel p2v frames s fl \<and> buddy_wf frames fl"

context direct_map
begin

text \<open>The refinement: \<open>page_alloc_block\<close> computes what the abstract allocator computes.\<close>

lemma page_alloc_block_refines:
  assumes m: "ok m" and inv: "page_alloc_inv (p2v m) frames s fl"
  shows "case abs_alloc order fl of
      (None, fl') \<Rightarrow> page_alloc_block (p2v m) (v2p m) order s = Inr (None, s)
    | (Some p, fl') \<Rightarrow> \<exists>s'. page_alloc_block (p2v m) (v2p m) order s = Inr (Some (frame_addr p), s') \<and>
        page_alloc_inv (p2v m) frames s' fl'"
proof -
  have r: "page_alloc_rel (p2v m) frames s fl" and wf: "buddy_wf frames fl"
    using inv by (auto simp: page_alloc_inv_def)
  note find = find_free_order_rel [OF m r, of order]
  show ?thesis
  proof (cases "abs_find fl order (Suc MAX_ORDER - order)")
    case None
    with find show ?thesis by (auto simp: abs_alloc_def page_alloc_block_def)
  next
    case (Some c)
    from abs_find_Some [OF Some] have c: "order \<le> c" "c \<le> MAX_ORDER" and ne: "fl c = hd (fl c) # tl (fl c)"
      by auto
    define p where "p = hd (fl c)"
    let ?fl = "fl(c := tl (fl c))" and ?fl' = "abs_split order c p (fl(c := tl (fl c)))"
    obtain s1 where s1: "find_free_order (v2p m) order s = Inr ((c, of_nat p), s1)"
      and r1: "page_alloc_rel (p2v m) frames s1 ?fl"
      using find Some by (auto simp: p_def)
    note pop = buddy_wf_pop [OF wf c(2) ne, folded p_def]
    from split_down_rel [OF m r1 pop(1,2) c]
    obtain s2 where s2: "split_down (p2v m) order c (of_nat p) s1 = Inr (0, s2)"
      and r2: "page_alloc_rel (p2v m) frames s2 ?fl'" by blast
    have al: "abs_alloc order fl = (Some p, ?fl')" using Some by (simp add: abs_alloc_def p_def)
    note post = abs_alloc_Some [OF wf al]
    have "p < frames" by (rule buddy_apart_less [OF post(2)])
    then have "page_alloc_rel (p2v m) frames
        (s2\<lparr>page_bitmap := (page_bitmap s2)(of_nat p := used_entry order)\<rparr>) ?fl'"
      using c by (intro page_alloc_rel_used r2 frame_lt buddy_apart_not_member [OF post(2) _ block_mem]) auto
    with al s1 s2 c post(1) show ?thesis
      by (simp add: page_alloc_block_def page_alloc_inv_def frame_addr_def)
  qed
qed

text \<open>
  The contract of \<open>page_alloc_block\<close>: it fails, leaving everything as it was, only when there is
  no free block of the order or above; otherwise the block is aligned, was free, is no longer
  free, and every other free frame stays free.
\<close>

lemma page_alloc_block_correct:
  assumes m: "ok m" and inv: "page_alloc_inv (p2v m) frames s fl"
  shows "(page_alloc_block (p2v m) (v2p m) order s = Inr (None, s) \<and>
            (\<forall>c. order \<le> c \<and> c \<le> MAX_ORDER \<longrightarrow> fl c = [])) \<or>
         (\<exists>p s' fl'. page_alloc_block (p2v m) (v2p m) order s = Inr (Some (frame_addr p), s') \<and>
            page_alloc_inv (p2v m) frames s' fl' \<and> 2 ^ order dvd p \<and> p + 2 ^ order \<le> frames \<and>
            block order p \<inter> free_frames fl' = {} \<and> free_frames fl = free_frames fl' \<union> block order p)"
proof -
  have wf: "buddy_wf frames fl" using inv by (simp add: page_alloc_inv_def)
  obtain po fl' where al: "abs_alloc order fl = (po, fl')" by (cases "abs_alloc order fl")
  note ref = page_alloc_block_refines [OF m inv, of order, unfolded al]
  show ?thesis
  proof (cases po)
    case None
    with ref abs_alloc_None(2) [OF al [unfolded None]] show ?thesis by auto
  next
    case (Some p)
    then obtain s' where "page_alloc_block (p2v m) (v2p m) order s = Inr (Some (frame_addr p), s')"
      "page_alloc_inv (p2v m) frames s' fl'" using ref by auto
    with abs_alloc_Some [OF wf al [unfolded Some]] show ?thesis
      unfolding buddy_apart_def by blast
  qed
qed

end


section \<open>Initialisation\<close>

lemma pick_order_fits:
  assumes "remaining > 0" "n \<le> MAX_ORDER"
  shows "2 ^ pick_order remaining start n \<le> remaining"
    and "2 ^ pick_order remaining start n dvd unat start"
proof -
  have dvd: "2 ^ k dvd unat start" if "start mod page_alloc_block_size k = 0" "k \<le> MAX_ORDER" for k
  proof -
    have "unat (start mod page_alloc_block_size k) = 0" using that(1) by simp
    then show ?thesis using unat_page_alloc_block_size [OF that(2)]
      by (simp add: unat_mod_distrib mod_eq_0_iff_dvd)
  qed
  have "2 ^ pick_order remaining start n \<le> remaining \<and> 2 ^ pick_order remaining start n dvd unat start"
    using assms
  proof (induction n)
    case (Suc n)
    show ?case
    proof (cases "uint (page_alloc_block_size (Suc n)) \<le> remaining \<and>
        start mod page_alloc_block_size (Suc n) = 0")
      case True
      then show ?thesis
        using dvd [of "Suc n"] uint_page_alloc_block_size [OF Suc.prems(2)] Suc.prems(2)
        by (simp add: Let_def)
    next
      case False
      with Suc show ?thesis by (auto simp: Let_def)
    qed
  qed simp
  then show "2 ^ pick_order remaining start n \<le> remaining"
    "2 ^ pick_order remaining start n dvd unat start" by auto
qed

context direct_map
begin

lemma add_free_blocks_correct:
  assumes m: "ok m" and "page_alloc_inv (p2v m) frames s fl"
    and "start + n \<le> frames" and "{start ..< start + n} \<inter> free_frames fl = {}"
  shows "\<exists>s' fl'. add_free_blocks (p2v m) (int n) (of_nat start) s = Inr (0, s') \<and>
           page_alloc_inv (p2v m) frames s' fl' \<and>
           free_frames fl' = free_frames fl \<union> {start ..< start + n}"
  using assms(2-)
proof (induction n arbitrary: start s fl rule: less_induct)
  case (less n)
  show ?case
  proof (cases "n = 0")
    case True
    with less.prems(1) show ?thesis by (auto simp: add_free_blocks.simps [of _ 0])
  next
    case False
    define k where "k = pick_order (int n) (of_nat start :: u64) MAX_ORDER"
    have k: "k \<le> MAX_ORDER" by (simp add: k_def pick_order_le)
    have st: "unat (of_nat start :: u64) = start"
      using less.prems(2) frames_bound by (intro unat_of_nat_64) simp
    have fit: "2 ^ k \<le> n" and al: "2 ^ k dvd start"
      using pick_order_fits [of "int n" MAX_ORDER "of_nat start :: u64"] False
      unfolding st by (simp_all add: k_def)
    have ap: "buddy_apart frames fl k start"
    proof -
      have "{start ..< start + 2 ^ k} \<subseteq> {start ..< start + n}" using fit by auto
      then have "{start ..< start + 2 ^ k} \<inter> free_frames fl = {}" using less.prems(3) by blast
      then show ?thesis unfolding buddy_apart_def block_def using less.prems(2) fit al by simp
    qed
    note inv = less.prems(1) [unfolded page_alloc_inv_def]
    obtain s1 where s1: "free_list_push (p2v m) k (of_nat start) s = Inr (0, s1)"
      and r1: "page_alloc_rel (p2v m) frames s1 (fl(k := start # fl k))"
      using free_list_push_rel [OF m _ k buddy_apart_less [OF ap]] inv
        buddy_apart_not_member [OF ap _ block_mem] by blast
    note push = buddy_wf_push [OF _ k ap]
    have inv1: "page_alloc_inv (p2v m) frames s1 (fl(k := start # fl k))"
      using r1 push(1) inv by (simp add: page_alloc_inv_def)
    have ff1: "free_frames (fl(k := start # fl k)) = free_frames fl \<union> {start ..< start + 2 ^ k}"
      using push(2) inv by (simp add: block_def)
    have pos: "0 < (2::nat) ^ k" by simp
    have "n - 2 ^ k < n" using False pos by linarith
    moreover have "start + 2 ^ k + (n - 2 ^ k) \<le> frames" using less.prems(2) fit by simp
    moreover have "{start + 2 ^ k ..< start + 2 ^ k + (n - 2 ^ k)} \<inter> free_frames (fl(k := start # fl k)) = {}"
    proof -
      let ?R = "{start + 2 ^ k ..< start + 2 ^ k + (n - 2 ^ k)}"
      have "?R \<subseteq> {start ..< start + n}" "?R \<inter> {start ..< start + 2 ^ k} = {}" using fit by auto
      then show ?thesis unfolding ff1 using less.prems(3) by blast
    qed
    ultimately obtain s' fl' where
      s': "add_free_blocks (p2v m) (int (n - 2 ^ k)) (of_nat (start + 2 ^ k)) s1 = Inr (0, s')"
      "page_alloc_inv (p2v m) frames s' fl'"
      "free_frames fl' = free_frames (fl(k := start # fl k)) \<union> {start + 2 ^ k ..< start + 2 ^ k + (n - 2 ^ k)}"
      using less.IH inv1 by blast
    have "int n - uint (page_alloc_block_size k) = int (n - 2 ^ k)"
      using uint_page_alloc_block_size [OF k] fit by (simp add: of_nat_diff)
    then have "add_free_blocks (p2v m) (int n) (of_nat start) s = Inr (0, s')"
      using False s1 s'(1)
      by (subst add_free_blocks.simps) (simp add: Let_def of_nat_block flip: k_def del: of_nat_add)
    moreover have "free_frames fl' = free_frames fl \<union> {start ..< start + n}"
      unfolding s'(3) ff1 using fit by auto
    ultimately show ?thesis using s'(2) by blast
  qed
qed

end

text \<open>The frames of a region of the memory map.\<close>

definition usable_frames :: "mmap_memory_descriptor \<Rightarrow> nat set" where
  "usable_frames d =
     (if md_type d = MMAP_MEMORY_TYPE_USABLE
      then {unat (md_physical_start_address d) div 4096 ..<
            unat (md_physical_start_address d) div 4096 + unat (md_number_of_pages d)}
      else {})"

text \<open>
  A memory map the firmware can hand over: usable regions are page aligned, inside the direct
  map, and do not overlap one another.
\<close>

fun memory_map_ok :: "nat \<Rightarrow> mmap_memory_descriptor list \<Rightarrow> bool" where
  "memory_map_ok frames [] = True"
| "memory_map_ok frames (d # ds) \<longleftrightarrow>
     (md_type d = MMAP_MEMORY_TYPE_USABLE \<longrightarrow>
        4096 dvd unat (md_physical_start_address d) \<and>
        unat (md_physical_start_address d) div 4096 < frames \<and>
        unat (md_physical_start_address d) div 4096 + unat (md_number_of_pages d) \<le> frames \<and>
        (\<forall>d' \<in> set ds. usable_frames d \<inter> usable_frames d' = {})) \<and>
     memory_map_ok frames ds"

lemma frame_addr_div:
  assumes "4096 dvd unat (a :: u64)"
  shows "frame_addr (unat a div 4096) = a"
proof -
  have "unat a div 4096 < 2 ^ 52"
    using unat_lt_64 [of a] by (simp add: div_less_iff_less_mult)
  then have "unat (frame_addr (unat a div 4096)) = unat a"
    using assms by (simp add: unat_frame_addr)
  then show ?thesis by (simp add: word_unat_eq_iff)
qed

lemma sint_small: "unat (n :: u64) < 2 ^ 63 \<Longrightarrow> sint n = int (unat n)"
proof -
  assume "unat n < 2 ^ 63"
  then have "int (unat n) < int (2 ^ 63)" by (simp only: of_nat_less_iff)
  then have "uint n < 2 ^ 63" by simp
  then show ?thesis using signed_take_bit_int_eq_self [of 63 "uint n"] unsigned_greater_eq [of n, where 'a = int]
    by (simp add: sint_uint)
qed

context direct_map
begin

lemma add_descriptors_correct:
  assumes m: "ok m" and "page_alloc_inv (p2v m) frames s fl" "memory_map_ok frames ds"
    and "\<And>d. d \<in> set ds \<Longrightarrow> usable_frames d \<inter> free_frames fl = {}"
  shows "\<exists>s' fl'. add_descriptors (p2v m) ds s = Inr (0, s') \<and>
           page_alloc_inv (p2v m) frames s' fl' \<and>
           free_frames fl' = free_frames fl \<union> (\<Union>d \<in> set ds. usable_frames d)"
  using assms(2-)
proof (induction ds arbitrary: s fl)
  case Nil
  then show ?case by auto
next
  case (Cons d ds)
  show ?case
  proof (cases "md_type d = MMAP_MEMORY_TYPE_USABLE")
    case False
    then have "usable_frames d = {}" by (simp add: usable_frames_def)
    with Cons False show ?thesis by simp
  next
    case True
    define start where "start = unat (md_physical_start_address d) div 4096"
    define n where "n = unat (md_number_of_pages d)"
    have st: "start < frames" "start + n \<le> frames" "4096 dvd unat (md_physical_start_address d)"
      using Cons.prems(2) True by (simp_all add: start_def n_def)
    have uf: "usable_frames d = {start ..< start + n}"
      using True by (simp add: usable_frames_def start_def n_def)
    have fa: "frame_addr start = md_physical_start_address d"
      using frame_addr_div [OF st(3)] by (simp add: start_def)
    have "start < 2 ^ 52" using frame_lt [OF st(1)] by simp
    then have pfn: "drop_bit PAGE_SHIFT (md_physical_start_address d) = of_nat start"
      using frame_addr_shift fa by metis
    have pages: "sint (md_number_of_pages d) = int n"
      unfolding n_def by (rule sint_small) (use st(2) frames_bound in \<open>simp add: n_def\<close>)
    obtain s1 fl1 where s1: "add_free_blocks (p2v m) (int n) (of_nat start) s = Inr (0, s1)"
      and inv1: "page_alloc_inv (p2v m) frames s1 fl1"
      and ff1: "free_frames fl1 = free_frames fl \<union> {start ..< start + n}"
      using add_free_blocks_correct [OF m Cons.prems(1) st(2)] Cons.prems(3) [of d] uf by auto
    have "usable_frames d' \<inter> free_frames fl1 = {}" if "d' \<in> set ds" for d'
      using Cons.prems(2,3) that True unfolding ff1 uf [symmetric] by (auto simp: Int_commute)
    then obtain s' fl' where "add_descriptors (p2v m) ds s1 = Inr (0, s')"
      "page_alloc_inv (p2v m) frames s' fl'"
      "free_frames fl' = free_frames fl1 \<union> (\<Union>d \<in> set ds. usable_frames d)"
      using Cons.IH [OF inv1] Cons.prems(2) by auto
    with True s1 ff1 uf pages pfn frame_mapped [OF m st(1)] fa show ?thesis
      by (auto simp: Un_assoc)
  qed
qed

text \<open>After initialisation exactly the usable frames of the memory map are free.\<close>

lemma page_alloc_init_correct:
  assumes m: "ok m" and map: "memory_map_ok frames ds"
  shows "\<exists>s' fl. page_alloc_init (p2v m) ds s = Inr (0, s') \<and>
           page_alloc_inv (p2v m) frames s' fl \<and> free_frames fl = (\<Union>d \<in> set ds. usable_frames d)"
proof -
  let ?s = "s\<lparr>free_lists := (\<lambda>i. if i \<le> MAX_ORDER then NULL else free_lists s i),
    page_bitmap := (\<lambda>i. if i < MAX_TOTAL_PAGES then 0 else page_bitmap s i)\<rparr>"
  have "(of_nat f :: u64) < MAX_TOTAL_PAGES" if "f < 2 ^ 24" for f
    using that unat_of_nat_64 [of f] by (simp add: word_less_nat_alt)
  moreover have "free_entry order \<noteq> 0" if "order \<le> MAX_ORDER" for order
    using unat_free_entry [OF that] by auto
  ultimately have "page_alloc_inv (p2v m) frames ?s (\<lambda>_. [])"
    unfolding page_alloc_inv_def
    by (intro conjI page_alloc_relI buddy_wfI) auto
  moreover have "free_frames (\<lambda>_. []) = {}" by (simp add: free_frames_def)
  ultimately show ?thesis
    using add_descriptors_correct [OF m _ map, of ?s "\<lambda>_. []"]
    by (simp add: page_alloc_init_def cong: if_cong)
qed

end


section \<open>Freeing\<close>

lemma bit_mask_pos: "0 < w AND push_bit k (1 :: u16) \<longleftrightarrow> bit w k" if "k < 16" for w :: u16
proof -
  have "bit w k \<longleftrightarrow> w AND push_bit k 1 \<noteq> 0" using that by (rule_tac bit_iff_and_push_bit_not_eq_0)
  then show ?thesis by (simp add: word_gt_0)
qed

lemma bit_unat_iff: "k < 16 \<Longrightarrow> bit (w :: u16) k \<longleftrightarrow> odd (unat w div 2 ^ k)"
  by (simp add: bit_unsigned_iff flip: bit_iff_odd)

lemma low_bits_set: "(odd (n::nat) \<and> odd (n div 2) \<and> odd (n div 4)) \<longleftrightarrow> n mod 8 = 7"
proof -
  have 1: "n mod 8 = 2 * (n div 2 mod 4) + n mod 2" using mod_mult2_eq [of n 2 4] by simp
  have 2: "n div 2 mod 4 = 2 * (n div 4 mod 2) + n div 2 mod 2"
    using mod_mult2_eq [of "n div 2" 2 2] by (simp add: div_mult2_eq [symmetric])
  define a b c where "a = n mod 2" and "b = n div 2 mod 2" and "c = n div 4 mod 2"
  have "a < 2" "b < 2" "c < 2" by (simp_all add: a_def b_def c_def)
  then have "a = 1 \<and> b = 1 \<and> c = 1 \<longleftrightarrow> 4 * c + 2 * b + a = 7" by arith
  moreover have "n mod 8 = 4 * c + 2 * b + a" using 1 2 by (simp add: a_def b_def c_def)
  ultimately show ?thesis unfolding odd_iff_mod_2_eq_one by (simp add: a_def b_def c_def)
qed

lemma merge_possible_iff:
  assumes "order \<le> MAX_ORDER"
  shows "merge_possible w order \<longleftrightarrow> w = free_entry order"
proof -
  have ord: "unat (of_nat order :: u16) = order"
    using assms by (simp add: unat_of_nat take_bit_nat_eq_self)
  have "drop_bit 3 w = of_nat order \<longleftrightarrow> unat w div 2 ^ 3 = order"
    by (simp only: word_unat_eq_iff unat_drop_bit ord)
  then have "merge_possible w order \<longleftrightarrow>
      (odd (unat w) \<and> odd (unat w div 2) \<and> odd (unat w div 4)) \<and> unat w div 8 = order"
    using bit_mask_pos [of 0 w] bit_mask_pos [of 1 w] bit_mask_pos [of 2 w]
      bit_unat_iff [of 0 w] bit_unat_iff [of 1 w] bit_unat_iff [of 2 w]
    by (auto simp: merge_possible_def)
  also have "\<dots> \<longleftrightarrow> unat w = 8 * order + 7"
  proof -
    have "n mod 8 = 7 \<and> n div 8 = order \<longleftrightarrow> n = 8 * order + 7" for n
    proof
      assume "n mod 8 = 7 \<and> n div 8 = order"
      then show "n = 8 * order + 7" by (metis mult_div_mod_eq)
    qed simp
    then show ?thesis unfolding low_bits_set .
  qed
  finally show ?thesis by (simp only: word_unat_eq_iff unat_free_entry [OF assms])
qed

text \<open>The buddy of a frame, as a natural number.\<close>

definition buddy_of :: "nat \<Rightarrow> nat \<Rightarrow> nat" where
  "buddy_of p order = p XOR 2 ^ order"

lemma calculate_buddy_of_nat:
  "calculate_buddy_page_frame_number (of_nat p) order = of_nat (buddy_of p order)"
  by (simp add: calculate_buddy_page_frame_number_def buddy_of_def push_bit_eq_mult of_nat_xor_eq)

lemma buddy_of_less:
  assumes "p < 2 ^ n" "order < n" shows "buddy_of p order < 2 ^ n"
proof -
  have "take_bit n (p XOR 2 ^ order) = p XOR 2 ^ order"
    using assms by (simp add: take_bit_xor take_bit_nat_eq_self)
  then show ?thesis unfolding buddy_of_def by (metis take_bit_nat_less_exp)
qed

context direct_map
begin

lemma merge_up_stops:
  assumes r: "page_alloc_rel (p2v m) frames s fl" and p: "p < 2 ^ 24"
    and b: "order < MAX_ORDER \<Longrightarrow> buddy_of p order \<notin> set (fl order)"
  shows "merge_up (v2p m) order (of_nat p) s = Inr ((order, of_nat p), s)"
proof (cases "order < MAX_ORDER")
  case True
  then have o: "order \<le> MAX_ORDER" and b24: "buddy_of p order < 2 ^ 24"
    using buddy_of_less [OF p] by simp_all
  have "\<not> merge_possible (page_bitmap s (of_nat (buddy_of p order))) order"
    unfolding merge_possible_iff [OF o] page_alloc_relD(5) [OF r b24 o] using b True by simp
  then show ?thesis using True
    by (subst merge_up.simps) (simp add: Let_def calculate_buddy_of_nat)
qed (simp add: merge_up.simps)

text \<open>
  \<open>page_alloc_free\<close> of a block whose buddy is not a free block of the same order puts exactly the
  frames of the block back.
\<close>

lemma page_alloc_free_no_merge:
  assumes m: "ok m" and inv: "page_alloc_inv (p2v m) frames s fl" and o: "order \<le> MAX_ORDER"
    and ap: "buddy_apart frames fl order p"
    and b: "order < MAX_ORDER \<Longrightarrow> buddy_of p order \<notin> set (fl order)"
  shows "\<exists>s' fl'. page_alloc_free (p2v m) (v2p m) (frame_addr p) order s = Inr (0, s') \<and>
           page_alloc_inv (p2v m) frames s' fl' \<and> free_frames fl' = free_frames fl \<union> block order p"
proof -
  have r: "page_alloc_rel (p2v m) frames s fl" and wf: "buddy_wf frames fl"
    using inv by (auto simp: page_alloc_inv_def)
  have p: "p < frames" by (rule buddy_apart_less [OF ap])
  then have p24: "p < 2 ^ 24" by (rule frame_lt)
  then have pfn: "drop_bit PAGE_SHIFT (frame_addr p) = of_nat p"
    by (intro frame_addr_shift) simp
  obtain s' where "free_list_push (p2v m) order (of_nat p) s = Inr (0, s')"
    "page_alloc_rel (p2v m) frames s' (fl(order := p # fl order))"
    using free_list_push_rel [OF m r o p] buddy_apart_not_member [OF ap _ block_mem] by blast
  moreover note merge_up_stops [OF r p24 b] buddy_wf_push [OF wf o ap]
  ultimately show ?thesis
    by (intro exI [of _ s'] exI [of _ "fl(order := p # fl order)"])
       (simp add: page_alloc_free_def pfn page_alloc_inv_def)
qed

text \<open>
  When the buddy is free, the unlinking loop looks only at the second element of the free list
  of the order. If that is not the buddy, the loop never ends.
\<close>

lemma unlink_buddy_diverges:
  assumes "cur \<noteq> NULL" "free_pages s cur = Some nxt" "v2p' nxt = Some pa" "drop_bit PAGE_SHIFT pa \<noteq> b"
  shows "unlink_buddy v2p' b cur s = None"
proof -
  have "\<not> (b' = b \<and> cur' = cur \<and> s' = s \<and> v' = v2p')"
    if "unlink_buddy v' b' cur' s' = Some r" for v' b' cur' s' r
    using that
  proof (rule unlink_buddy.raw_induct [rotated])
    fix f :: "translation \<Rightarrow> u64 \<Rightarrow> u64 \<Rightarrow> page_allocator \<Rightarrow> (fault + unit \<times> page_allocator) option"
    fix v' b' cur' s' r
    assume "\<And>v' b' cur' s' r. f v' b' cur' s' = Some r \<Longrightarrow> \<not> (b' = b \<and> cur' = cur \<and> s' = s \<and> v' = v2p')"
      and "(if cur' \<noteq> NULL then
              case free_pages s' cur' of
                None \<Rightarrow> Some (Inl Bad_Access)
              | Some next_page \<Rightarrow>
                  (case v' next_page of
                     None \<Rightarrow> Some (Inl Assertion_Failed)
                   | Some physical_address \<Rightarrow>
                       if drop_bit PAGE_SHIFT physical_address = b' then
                         (case free_pages s' next_page of
                            None \<Rightarrow> Some (Inl Bad_Access)
                          | Some next_next_page \<Rightarrow>
                              Some (Inr ((), s'\<lparr>free_pages :=
                                (free_pages s')(cur' \<mapsto> next_next_page)\<rparr>)))
                       else f v' b' cur' s')
            else Some (Inr ((), s'))) = Some r"
    moreover have "f v2p' b cur s = Some r"
      if "b' = b" "cur' = cur" "s' = s" "v' = v2p'"
      using calculation(2) assms that by simp
    ultimately show "\<not> (b' = b \<and> cur' = cur \<and> s' = s \<and> v' = v2p')" by blast
  qed
  then show ?thesis by (metis not_None_eq)
qed

lemma page_alloc_free_merge_fails:
  assumes m: "ok m" and r: "page_alloc_rel (p2v m) frames s fl" and p: "p < 2 ^ 24"
    and o: "order < MAX_ORDER" and b: "buddy_of p order \<in> set (fl order)"
  shows "fl order = [buddy_of p order] \<Longrightarrow> v2p m NULL = None \<Longrightarrow>
           page_alloc_free (p2v m) (v2p m) (frame_addr p) order s = Inl Assertion_Failed"
    and "fl order = f # g # fs \<Longrightarrow> g \<noteq> buddy_of p order \<Longrightarrow>
           page_alloc_free (p2v m) (v2p m) (frame_addr p) order s = Inl No_Return"
proof -
  let ?b = "buddy_of p order"
  have pfn: "drop_bit PAGE_SHIFT (frame_addr p) = of_nat p"
    using p by (intro frame_addr_shift) simp
  have o': "order \<le> MAX_ORDER" and b24: "?b < 2 ^ 24" using o buddy_of_less [OF p] by simp_all
  have mp: "merge_possible (page_bitmap s (of_nat ?b)) order"
    unfolding merge_possible_iff [OF o'] page_alloc_relD(5) [OF r b24 o'] by (rule b)
  have small: "\<not> MAX_TOTAL_PAGES \<le> (of_nat ?b :: u64)"
    using b24 unat_of_nat_64 [of ?b] by (simp add: word_le_nat_alt)
  note ch = page_alloc_relD(4) [OF r o']
  have err: "page_alloc_free (p2v m) (v2p m) (frame_addr p) order s = Inl e"
    if "loop (unlink_buddy (v2p m) (of_nat ?b) (free_lists s order) s) = Inl e" for e
    using that mp o small
    by (simp add: page_alloc_free_def pfn)
       (subst merge_up.simps, simp add: Let_def calculate_buddy_of_nat)
  show "page_alloc_free (p2v m) (v2p m) (frame_addr p) order s = Inl Assertion_Failed"
    if "fl order = [?b]" "v2p m NULL = None"
    using ch that by (intro err, subst unlink_buddy.simps) auto
  show "page_alloc_free (p2v m) (v2p m) (frame_addr p) order s = Inl No_Return"
    if fl: "fl order = f # g # fs" and g: "g \<noteq> ?b"
  proof (rule err)
    have gf: "g < frames" using page_alloc_relD(3) [OF r o', of g] fl by simp
    then obtain va where va: "p2v m (frame_addr g) = Some va" "v2p m va = Some (frame_addr g)"
      using frame_mapped [OF m gf] by blast
    have "drop_bit PAGE_SHIFT (frame_addr g) = of_nat g"
      using frame_lt [OF gf] by (intro frame_addr_shift) simp
    then have ne: "drop_bit PAGE_SHIFT (frame_addr g) \<noteq> of_nat ?b"
      using of_nat_frame_eq [OF frame_lt [OF gf] b24] g by simp
    have "unlink_buddy (v2p m) (of_nat ?b) (free_lists s order) s = None"
      using ch fl va by (intro unlink_buddy_diverges [OF _ _ _ ne]) auto
    then show "loop (unlink_buddy (v2p m) (of_nat ?b) (free_lists s order) s) = Inl No_Return" by simp
  qed
qed

end

end
