(* ===== verification/Mmap.thy ===== *)
theory Mmap
  imports Vmap Page_Alloc
begin

text \<open>
  The kernel's own memory map, \<open>kernel/mmap.c\<close>, with the bump allocator it takes its table pages
  from (\<open>kernel/bump_allocator.c\<close>), the classification of firmware memory
  (\<open>kernel/efi_memory_map.c\<close>) and device mappings (\<open>kernel/mmio.c\<close>).

  The file shows that this provider satisfies \<open>page_source\<close>, what the mapping functions do for
  the kernel's tables, that \<open>mmap_build_ttbr1_table\<close> establishes the direct map, and that the
  direct map satisfies the interface \<open>direct_map\<close> the page allocator is proved against.
\<close>

section \<open>The bump allocator\<close>

record bump_allocator =
  memory_start :: u64
  memory_end :: u64
  allocated_size :: u64
  remaining_size :: u64

definition bump_allocator_make_invalid :: "bump_allocator \<Rightarrow> bump_allocator" where
  "bump_allocator_make_invalid allocator =
     allocator\<lparr>memory_start := 0, memory_end := 0, allocated_size := 0, remaining_size := 0\<rparr>"

definition bump_allocator_invalid :: "bump_allocator \<Rightarrow> bool" where
  "bump_allocator_invalid allocator \<longleftrightarrow> memory_start allocator = 0 \<or> memory_end allocator = 0"

definition bump_allocator_init :: "bump_allocator \<Rightarrow> u64 \<Rightarrow> u64 \<Rightarrow> bump_allocator" where
  "bump_allocator_init allocator start end =
     allocator\<lparr>memory_start := start, memory_end := end, allocated_size := 0, remaining_size := end - start\<rparr>"

definition bump_allocator_allocate :: "u64 \<Rightarrow> (bump_allocator, u64 option) prog" where
  "bump_allocator_allocate amount =
     (\<lambda>allocator. if remaining_size allocator < amount then Inr (None, allocator)
        else Inr (Some (memory_start allocator + allocated_size allocator),
                  allocator\<lparr>allocated_size := allocated_size allocator + amount,
                            remaining_size := remaining_size allocator - amount\<rparr>))"

section \<open>State\<close>

abbreviation EFI_PAGE_SIZE :: u64 where "EFI_PAGE_SIZE \<equiv> 4096"
abbreviation EFI_MEMORY_TYPE_LOADER_CODE :: u32 where "EFI_MEMORY_TYPE_LOADER_CODE \<equiv> 1"
abbreviation EFI_MEMORY_TYPE_BOOT_SERVICE_CODE :: u32 where "EFI_MEMORY_TYPE_BOOT_SERVICE_CODE \<equiv> 3"
abbreviation EFI_MEMORY_TYPE_BOOT_SERVICE_DATA :: u32 where "EFI_MEMORY_TYPE_BOOT_SERVICE_DATA \<equiv> 4"
abbreviation EFI_MEMORY_TYPE_PERSISTENT_MEMORY :: u32 where "EFI_MEMORY_TYPE_PERSISTENT_MEMORY \<equiv> 14"
abbreviation EFI_MEMORY_TYPE_CONVENTIONAL :: u32 where "EFI_MEMORY_TYPE_CONVENTIONAL \<equiv> 7"
abbreviation MMAP_MEMORY_MAP_RESERVED_SIZE :: u64 where "MMAP_MEMORY_MAP_RESERVED_SIZE \<equiv> 0x100000"
abbreviation PAGE_TABLE_RESERVED_SIZE :: u64 where "PAGE_TABLE_RESERVED_SIZE \<equiv> 0x800000"
abbreviation SIZEOF_MEMORY_DESCRIPTOR :: u64 where "SIZEOF_MEMORY_DESCRIPTOR \<equiv> 24"

record efi_memory_descriptor =
  efi_type :: u32
  efi_physical_start_address :: u64
  efi_virtual_start_address :: u64
  efi_number_of_pages :: u64
  efi_attribute :: u64

definition efi_memory_map_is_usable :: "efi_memory_descriptor \<Rightarrow> bool" where
  "efi_memory_map_is_usable descriptor \<longleftrightarrow>
     efi_type descriptor = EFI_MEMORY_TYPE_CONVENTIONAL \<or>
     efi_type descriptor = EFI_MEMORY_TYPE_LOADER_CODE \<or>
     efi_type descriptor = EFI_MEMORY_TYPE_BOOT_SERVICE_CODE \<or>
     efi_type descriptor = EFI_MEMORY_TYPE_BOOT_SERVICE_DATA \<or>
     efi_type descriptor = EFI_MEMORY_TYPE_PERSISTENT_MEMORY"

text \<open>
  \<open>memory_map_entries\<close> holds the \<open>mmap_memory_descriptor_t\<close> objects by their physical address.
  The pointers \<open>g_page_table_descriptor\<close> and \<open>g_kernel_memory_map_descriptor\<close> are written and
  never read, and have no counterpart. The firmware's map is the list of its descriptors.
\<close>

record mmap_state = machine +
  g_ttbr0_table :: u64
  g_ttbr1_table :: u64
  g_page_table_allocator :: bump_allocator
  g_kernel_memory_map_allocator :: bump_allocator
  g_kernel_memory_map_count :: u64
  memory_map_entries :: "u64 \<rightharpoonup> mmap_memory_descriptor"

definition get_ttbr_table :: "u64 \<Rightarrow> 'a mmap_state_scheme \<Rightarrow> u64" where
  "get_ttbr_table virtual_address s =
     (if virtual_address \<ge> 0xFFFF000000000000 then g_ttbr1_table s else g_ttbr0_table s)"

definition set_ttbr_table :: "u64 \<Rightarrow> u64 \<Rightarrow> 'a mmap_state_scheme \<Rightarrow> 'a mmap_state_scheme" where
  "set_ttbr_table virtual_address table s =
     (if virtual_address \<ge> 0xFFFF000000000000 then s\<lparr>g_ttbr1_table := table\<rparr> else s\<lparr>g_ttbr0_table := table\<rparr>)"

section \<open>Addresses and table pages\<close>

definition mmap_physical_to_virtual :: "'a mmap_state_scheme \<Rightarrow> u64 \<Rightarrow> u64 option" where
  "mmap_physical_to_virtual s physical_address =
     (if \<not> g_mmap_initialized s then Some physical_address
      else if physical_address < 0 \<or> physical_address \<ge> MMAP_PHYSICAL_REGION_SIZE then None
      else Some (MMAP_VIRTUAL_BASE_ADDRESS + physical_address))"

definition alloc_new_table :: "('a mmap_state_scheme, u64 option) prog" where
  "alloc_new_table =
     bnd (rd (\<lambda>s. bump_allocator_invalid (g_page_table_allocator s))) (\<lambda>invalid.
     if invalid then ret None
     else
       attempt (within g_page_table_allocator g_page_table_allocator_update
                  (bump_allocator_allocate MMAP_GRANULE_SIZE)) None (\<lambda>new_page_table_physical_addr.
       bnd (rd (\<lambda>s. if g_mmap_initialized s then mmap_physical_to_virtual s new_page_table_physical_addr
                    else Some new_page_table_physical_addr)) (\<lambda>new_page_table_addr.
       case new_page_table_addr of
         None \<Rightarrow> halt Assertion_Failed
       | Some address \<Rightarrow>
           thn (clear_page address) (ret (Some new_page_table_physical_addr)))))"

definition alloc_vmap_page :: "('a mmap_state_scheme, u64) prog" where
  "alloc_vmap_page = bnd alloc_new_table (\<lambda>page. case page of None \<Rightarrow> ret 0 | Some p \<Rightarrow> ret p)"

definition vmap_physical_to_virtual :: "'a mmap_state_scheme \<Rightarrow> u64 \<Rightarrow> u64" where
  "vmap_physical_to_virtual s physical_address =
     (case mmap_physical_to_virtual s physical_address of None \<Rightarrow> 0 | Some va \<Rightarrow> va)"

definition build_vmap_table :: "u64 \<Rightarrow> 'a mmap_state_scheme vmap" where
  "build_vmap_table ttbr_table =
     (vmap_init alloc_vmap_page vmap_physical_to_virtual)\<lparr>root_page_table := ttbr_table\<rparr>"

definition mmap_build_vmap :: "u64 \<Rightarrow> ('a mmap_state_scheme, 'a mmap_state_scheme vmap option) prog" where
  "mmap_build_vmap virtual_address =
     bnd (rd (get_ttbr_table virtual_address)) (\<lambda>ttbr_table.
     if ttbr_table = NULL then ret None else ret (Some (build_vmap_table ttbr_table)))"

section \<open>Mapping in the kernel's tables\<close>

text \<open>The common end of the mapping functions: a root that was allocated on the way is recorded.\<close>

definition keep_root :: "u64 \<Rightarrow> int \<times> 'a mmap_state_scheme vmap \<Rightarrow> ('a mmap_state_scheme, int) prog" where
  "keep_root virtual_address = (\<lambda>(r, vmap).
     if r < 0 then ret (-1)
     else
       thn (upd (\<lambda>s. if get_ttbr_table virtual_address s = NULL
                     then set_ttbr_table virtual_address (root_page_table vmap) s else s))
           (ret 0))"

definition mmap_map_l1_block :: "u64 \<Rightarrow> u64 \<Rightarrow> u64 \<Rightarrow> ('a mmap_state_scheme, int) prog" where
  "mmap_map_l1_block virtual_address physical_address page_flags =
     bnd (rd (get_ttbr_table virtual_address)) (\<lambda>ttbr_table.
     bnd (vmap_map_l1_block (build_vmap_table ttbr_table) virtual_address physical_address page_flags)
         (keep_root virtual_address))"

definition mmap_map_range_l1_block :: "u64 \<Rightarrow> u64 \<Rightarrow> u64 \<Rightarrow> u64 \<Rightarrow> ('a mmap_state_scheme, int) prog" where
  "mmap_map_range_l1_block virtual_start_address virtual_end_address physical_start_address page_flags =
     bnd (rd (get_ttbr_table virtual_start_address)) (\<lambda>ttbr_table.
     bnd (vmap_map_range_l1_block (build_vmap_table ttbr_table) virtual_start_address virtual_end_address
            physical_start_address page_flags)
         (keep_root virtual_start_address))"

definition mmap_map_l2_block :: "u64 \<Rightarrow> u64 \<Rightarrow> u64 \<Rightarrow> ('a mmap_state_scheme, int) prog" where
  "mmap_map_l2_block virtual_address physical_address page_flags =
     bnd (rd (get_ttbr_table virtual_address)) (\<lambda>ttbr_table.
     bnd (vmap_map_l2_block (build_vmap_table ttbr_table) virtual_address physical_address page_flags)
         (keep_root virtual_address))"

definition mmap_map_range_l2_block :: "u64 \<Rightarrow> u64 \<Rightarrow> u64 \<Rightarrow> u64 \<Rightarrow> ('a mmap_state_scheme, int) prog" where
  "mmap_map_range_l2_block virtual_start_address virtual_end_address physical_start_address page_flags =
     bnd (rd (get_ttbr_table virtual_start_address)) (\<lambda>ttbr_table.
     bnd (vmap_map_range_l2_block (build_vmap_table ttbr_table) virtual_start_address virtual_end_address
            physical_start_address page_flags)
         (keep_root virtual_start_address))"

definition mmap_map_range :: "u64 \<Rightarrow> u64 \<Rightarrow> u64 \<Rightarrow> u64 \<Rightarrow> ('a mmap_state_scheme, int) prog" where
  "mmap_map_range virtual_start_address virtual_end_address physical_start_address page_flags =
     bnd (rd (get_ttbr_table virtual_start_address)) (\<lambda>ttbr_table.
     bnd (vmap_map_range (build_vmap_table ttbr_table) virtual_start_address virtual_end_address
            physical_start_address page_flags)
         (keep_root virtual_start_address))"

text \<open>
  \<open>mmap_map_page\<close> returns before the statement that would record a new root.
\<close>

definition mmap_map_page :: "u64 \<Rightarrow> u64 \<Rightarrow> u64 \<Rightarrow> ('a mmap_state_scheme, int) prog" where
  "mmap_map_page physical_address virtual_address page_flags =
     bnd (rd (get_ttbr_table virtual_address)) (\<lambda>ttbr_table.
     bnd (vmap_map_page (build_vmap_table ttbr_table) physical_address virtual_address page_flags) (\<lambda>(r, vmap).
     if r < 0 then ret (-1) else ret 0))"

definition mmap_virtual_to_physical :: "u64 \<Rightarrow> ('a mmap_state_scheme, u64 option) prog" where
  "mmap_virtual_to_physical virtual_address =
     bnd (rd (get_ttbr_table virtual_address)) (\<lambda>ttbr_table.
     vmap_virtual_to_physical (build_vmap_table ttbr_table) virtual_address)"

text \<open>\<open>kernel/mmio.c\<close>\<close>

abbreviation MMIO_BASE_ADDRESS :: u64 where "MMIO_BASE_ADDRESS \<equiv> 0xFFFF200000000000"

definition PAGE_FLAG_EL1_RW :: u64 where "PAGE_FLAG_EL1_RW = push_bit 6 0"
definition PAGE_FLAG_NX :: u64 where "PAGE_FLAG_NX = push_bit 53 1 OR push_bit 54 1"
definition PAGE_FLAG_MAIR_ATTR :: "u64 \<Rightarrow> u64" where "PAGE_FLAG_MAIR_ATTR attr = push_bit 2 attr"
definition PAGE_FLAG_NORMAL_MEMORY :: u64 where "PAGE_FLAG_NORMAL_MEMORY = PAGE_FLAG_MAIR_ATTR 3"
definition PAGE_FLAG_DEVICE_MEMORY :: u64 where "PAGE_FLAG_DEVICE_MEMORY = PAGE_FLAG_MAIR_ATTR 0"
definition PAGE_FLAG_INNER_SHARABLE :: u64 where "PAGE_FLAG_INNER_SHARABLE = push_bit 8 3"
definition PAGE_FLAG_NON_SHARABLE :: u64 where "PAGE_FLAG_NON_SHARABLE = push_bit 8 0"

lemmas page_flag_defs = PAGE_FLAG_EL1_RW_def PAGE_FLAG_NX_def PAGE_FLAG_MAIR_ATTR_def
  PAGE_FLAG_NORMAL_MEMORY_def PAGE_FLAG_DEVICE_MEMORY_def PAGE_FLAG_INNER_SHARABLE_def
  PAGE_FLAG_NON_SHARABLE_def

definition MMIO_PAGE_FLAGS :: u64 where
  "MMIO_PAGE_FLAGS = PAGE_FLAG_EL1_RW OR PAGE_FLAG_NX OR PAGE_FLAG_DEVICE_MEMORY OR
     PAGE_FLAG_NON_SHARABLE OR PAGE_FLAG_ACCESS"

text \<open>Both functions write the virtual address to their out-parameter whatever they return.\<close>

definition mmio_map_page :: "u64 \<Rightarrow> ('a mmap_state_scheme, int \<times> u64) prog" where
  "mmio_map_page physical_address =
     (let virtual_address = MMIO_BASE_ADDRESS + physical_address in
      bnd (mmap_map_page physical_address virtual_address MMIO_PAGE_FLAGS) (\<lambda>r. ret (r, virtual_address)))"

definition mmio_map_region :: "u64 \<Rightarrow> u64 \<Rightarrow> ('a mmap_state_scheme, int \<times> u64) prog" where
  "mmio_map_region physical_start_address amount =
     (let virtual_base_address = MMIO_BASE_ADDRESS + physical_start_address in
      bnd (mmap_map_range virtual_base_address (virtual_base_address + amount) physical_start_address
             MMIO_PAGE_FLAGS) (\<lambda>r. ret (r, virtual_base_address)))"

section \<open>Initialisation\<close>

text \<open>
  \<open>mmap_reserve_memory\<close>: the loop over the firmware's descriptors. The two flags are read before
  the reservations of the same round, so the loop is left one round later than necessary.
\<close>

definition reserve_memory_map :: "u64 \<times> u64 \<Rightarrow> ('a mmap_state_scheme, u64 \<times> u64) prog" where
  "reserve_memory_map = (\<lambda>(start, memory_size).
     if memory_size \<ge> MMAP_MEMORY_MAP_RESERVED_SIZE then
       thn (upd (\<lambda>s. s\<lparr>g_kernel_memory_map_allocator :=
              bump_allocator_init (g_kernel_memory_map_allocator s) start
                (start + MMAP_MEMORY_MAP_RESERVED_SIZE)\<rparr>))
           (ret (start + MMAP_MEMORY_MAP_RESERVED_SIZE, memory_size - MMAP_MEMORY_MAP_RESERVED_SIZE))
     else ret (start, memory_size))"

definition reserve_page_tables :: "u64 \<times> u64 \<Rightarrow> ('a mmap_state_scheme, unit) prog" where
  "reserve_page_tables = (\<lambda>(start, memory_size).
     if memory_size \<ge> PAGE_TABLE_RESERVED_SIZE then
       upd (\<lambda>s. s\<lparr>g_page_table_allocator :=
         bump_allocator_init (g_page_table_allocator s) start (start + PAGE_TABLE_RESERVED_SIZE)\<rparr>)
     else ret ())"

fun reserve_from :: "efi_memory_descriptor list \<Rightarrow> ('a mmap_state_scheme, unit) prog" where
  "reserve_from [] = ret ()"
| "reserve_from (descriptor # rest) =
     (if \<not> efi_memory_map_is_usable descriptor then reserve_from rest
      else
        let start = efi_physical_start_address descriptor;
            memory_size = efi_number_of_pages descriptor * EFI_PAGE_SIZE in
        bnd (rd (\<lambda>s. \<not> bump_allocator_invalid (g_page_table_allocator s))) (\<lambda>has_page_table_allocator.
        bnd (rd (\<lambda>s. \<not> bump_allocator_invalid (g_kernel_memory_map_allocator s))) (\<lambda>has_kernel_memory_map_allocator.
        bnd (if \<not> has_kernel_memory_map_allocator then reserve_memory_map (start, memory_size)
             else ret (start, memory_size)) (\<lambda>left.
        thn (if \<not> has_page_table_allocator then reserve_page_tables left else ret ())
            (if has_page_table_allocator \<and> has_kernel_memory_map_allocator then ret ()
             else reserve_from rest)))))"

definition mmap_reserve_memory :: "efi_memory_descriptor list \<Rightarrow> ('a mmap_state_scheme, int) prog" where
  "mmap_reserve_memory efi_memory_map =
     thn (\<lambda>s. kassert (\<not> g_mmap_initialized s) s)
    (thn (upd (\<lambda>s. s\<lparr>g_kernel_memory_map_allocator := bump_allocator_make_invalid (g_kernel_memory_map_allocator s)\<rparr>))
    (thn (upd (\<lambda>s. s\<lparr>g_page_table_allocator := bump_allocator_make_invalid (g_page_table_allocator s)\<rparr>))
    (thn (reserve_from efi_memory_map)
    (bnd (rd (\<lambda>s. bump_allocator_invalid (g_page_table_allocator s) \<or>
                  bump_allocator_invalid (g_kernel_memory_map_allocator s))) (\<lambda>missing.
     if missing then ret (-1) else ret 0)))))"

definition mmap_new_memory_map_entry ::
  "u64 \<Rightarrow> u64 \<Rightarrow> mmap_memory_type \<Rightarrow> ('a mmap_state_scheme, u64 option) prog" where
  "mmap_new_memory_map_entry physical_start_address number_of_pages ty =
     thn (\<lambda>s. kassert (\<not> g_mmap_initialized s) s)
    (attempt (within g_kernel_memory_map_allocator g_kernel_memory_map_allocator_update
                (bump_allocator_allocate SIZEOF_MEMORY_DESCRIPTOR)) None (\<lambda>new_entry.
     thn (upd (\<lambda>s. s\<lparr>memory_map_entries := (memory_map_entries s)(new_entry \<mapsto>
            \<lparr>md_physical_start_address = physical_start_address, md_number_of_pages = number_of_pages, md_type = ty\<rparr>)\<rparr>))
    (thn (upd (\<lambda>s. s\<lparr>g_kernel_memory_map_count := g_kernel_memory_map_count s + 1\<rparr>))
         (ret (Some new_entry)))))"

text \<open>
  \<open>mmap_build_memory_map\<close>: a usable descriptor that contains one of the two reserved regions
  gets an entry for it, and the remaining memory an entry of its own.
\<close>

definition contains_region :: "bump_allocator \<Rightarrow> u64 \<Rightarrow> u64 \<Rightarrow> bool" where
  "contains_region allocator start end \<longleftrightarrow>
     memory_start allocator \<ge> start \<and> memory_end allocator \<le> end"

definition reserved_entry ::
  "bool \<Rightarrow> ('a mmap_state_scheme \<Rightarrow> bump_allocator) \<Rightarrow> u64 \<Rightarrow> u64 \<times> u64
     \<Rightarrow> ('a mmap_state_scheme, (u64 \<times> u64) option) prog" where
  "reserved_entry contains allocator reserved_size = (\<lambda>(start, number_of_pages).
     if contains then
       bnd (rd (\<lambda>s. memory_start (allocator s))) (\<lambda>region_start.
       attempt (mmap_new_memory_map_entry region_start (reserved_size div EFI_PAGE_SIZE) MMAP_MEMORY_TYPE_RESERVED) None
         (\<lambda>_. ret (Some (start + reserved_size, number_of_pages - reserved_size div EFI_PAGE_SIZE))))
     else ret (Some (start, number_of_pages)))"

fun build_from :: "efi_memory_descriptor list \<Rightarrow> ('a mmap_state_scheme, int) prog" where
  "build_from [] = ret 0"
| "build_from (descriptor # rest) =
     (let start = efi_physical_start_address descriptor;
          number_of_pages = efi_number_of_pages descriptor;
          end = start + number_of_pages * EFI_PAGE_SIZE in
      if efi_memory_map_is_usable descriptor then
        bnd (rd (\<lambda>s. contains_region (g_kernel_memory_map_allocator s) start end)) (\<lambda>contains_kernel_memory_map_region.
        bnd (rd (\<lambda>s. contains_region (g_page_table_allocator s) start end)) (\<lambda>contains_page_table_region.
        attempt (reserved_entry contains_kernel_memory_map_region g_kernel_memory_map_allocator
                   MMAP_MEMORY_MAP_RESERVED_SIZE (start, number_of_pages)) (-1) (\<lambda>left.
        attempt (reserved_entry contains_page_table_region g_page_table_allocator
                   PAGE_TABLE_RESERVED_SIZE left) (-1) (\<lambda>(left_start, left_pages).
        attempt (mmap_new_memory_map_entry left_start left_pages MMAP_MEMORY_TYPE_USABLE) (-1) (\<lambda>_.
        build_from rest)))))
      else
        attempt (mmap_new_memory_map_entry start number_of_pages MMAP_MEMORY_TYPE_RESERVED) (-1) (\<lambda>_.
        build_from rest))"

definition mmap_build_memory_map :: "efi_memory_descriptor list \<Rightarrow> ('a mmap_state_scheme, int) prog" where
  "mmap_build_memory_map efi_memory_map =
     thn (\<lambda>s. kassert (\<not> g_mmap_initialized s) s) (build_from efi_memory_map)"

definition mmap_get_memory_map :: "('a mmap_state_scheme, (u64 \<times> u64) option) prog" where
  "mmap_get_memory_map =
     bnd (rd (\<lambda>s. s)) (\<lambda>s.
     if bump_allocator_invalid (g_kernel_memory_map_allocator s) then ret None
     else
       bnd (if g_mmap_initialized s then
              case mmap_physical_to_virtual s (memory_start (g_kernel_memory_map_allocator s)) of
                None \<Rightarrow> halt Assertion_Failed | Some va \<Rightarrow> ret va
            else ret (memory_start (g_kernel_memory_map_allocator s))) (\<lambda>out_memory_map.
       ret (Some (out_memory_map, g_kernel_memory_map_count s))))"

text \<open>The array of descriptors a caller of \<open>mmap_get_memory_map\<close> reads.\<close>

definition memory_map_at :: "'a mmap_state_scheme \<Rightarrow> u64 \<Rightarrow> u64 \<Rightarrow> mmap_memory_descriptor option list" where
  "memory_map_at s memory_map count =
     map (\<lambda>i. case pointer_target s (memory_map + of_nat i * SIZEOF_MEMORY_DESCRIPTOR) of
            None \<Rightarrow> None | Some a \<Rightarrow> memory_map_entries s a) [0 ..< unat count]"

definition mmap_build_ttbr0_table :: "('a mmap_state_scheme, int) prog" where
  "mmap_build_ttbr0_table =
     thn (\<lambda>s. kassert (\<not> g_mmap_initialized s) s)
    (attempt alloc_new_table (-1) (\<lambda>table.
     thn (upd (\<lambda>s. s\<lparr>g_ttbr0_table := table\<rparr>)) (ret 0)))"

text \<open>
  \<open>recursive_copy_table\<close>. The number argument counts the levels below the table, three for the
  root; \<open>next\<close> is the recursive call, absent at level 3.
\<close>

fun copy_entries ::
  "(u64 \<Rightarrow> ('a mmap_state_scheme, u64 option) prog) option \<Rightarrow> u64 \<Rightarrow> u64 \<Rightarrow> nat list
     \<Rightarrow> ('a mmap_state_scheme, bool) prog" where
  "copy_entries next src_table dst_table [] = ret True"
| "copy_entries next src_table dst_table (i # is) =
     bnd (load (src_table + 8 * of_nat i)) (\<lambda>entry.
     if entry AND TBL_ENTRY_VALID = 0 then copy_entries next src_table dst_table is
     else
       (case next of
          Some copy_next \<Rightarrow>
            if entry AND TBL_ENTRY_TABLE \<noteq> 0 then
              attempt (copy_next (entry AND TBL_ENTRY_ADDR_MASK)) False (\<lambda>new_table.
              thn (store (dst_table + 8 * of_nat i)
                     ((entry AND NOT TBL_ENTRY_ADDR_MASK) OR (new_table AND TBL_ENTRY_ADDR_MASK)))
                  (copy_entries next src_table dst_table is))
            else
              thn (store (dst_table + 8 * of_nat i) entry) (copy_entries next src_table dst_table is)
        | None \<Rightarrow>
            thn (store (dst_table + 8 * of_nat i) entry) (copy_entries next src_table dst_table is)))"

definition copy_table ::
  "(u64 \<Rightarrow> ('a mmap_state_scheme, u64 option) prog) option \<Rightarrow> u64 \<Rightarrow> ('a mmap_state_scheme, u64 option) prog" where
  "copy_table next src_table =
     thn (\<lambda>s. kassert (\<not> g_mmap_initialized s) s)
    (attempt alloc_new_table None (\<lambda>dst_table.
     bnd (copy_entries next src_table dst_table [0 ..< 512]) (\<lambda>ok.
     if ok then ret (Some dst_table) else ret None)))"

fun recursive_copy_table :: "nat \<Rightarrow> u64 \<Rightarrow> ('a mmap_state_scheme, u64 option) prog" where
  "recursive_copy_table 0 src_table = copy_table None src_table"
| "recursive_copy_table (Suc levels) src_table = copy_table (Some (recursive_copy_table levels)) src_table"

definition MMAP_PAGE_FLAGS :: u64 where
  "MMAP_PAGE_FLAGS = PAGE_FLAG_EL1_RW OR PAGE_FLAG_NX OR PAGE_FLAG_NORMAL_MEMORY OR
     PAGE_FLAG_INNER_SHARABLE OR PAGE_FLAG_ACCESS"

definition mmap_build_ttbr1_table :: "('a mmap_state_scheme, int) prog" where
  "mmap_build_ttbr1_table =
     thn (\<lambda>s. kassert (\<not> g_mmap_initialized s) s)
    (bnd (rd (\<lambda>s. ttbr1_el1 s AND TBL_ENTRY_ADDR_MASK)) (\<lambda>root.
     attempt (recursive_copy_table 3 root) (-1) (\<lambda>table.
     thn (upd (\<lambda>s. s\<lparr>g_ttbr1_table := table\<rparr>))
    (bnd (mmap_map_range_l1_block MMAP_VIRTUAL_BASE_ADDRESS
            (MMAP_VIRTUAL_BASE_ADDRESS + MMAP_PHYSICAL_REGION_SIZE) 0 MMAP_PAGE_FLAGS) (\<lambda>r.
     if r < 0 then ret (-1) else ret 0)))))"

definition mmap_apply_mappings :: "('a mmap_state_scheme, int) prog" where
  "mmap_apply_mappings =
     bnd (rd (\<lambda>s. build_vmap_table (g_ttbr0_table s) :: 'a mmap_state_scheme vmap)) (\<lambda>ttbr0_vmap.
     bnd (vmap_apply_table ttbr0_vmap VMAP_DESTINATION_USER) (\<lambda>r.
     if r < 0 then ret (-1)
     else
       bnd (rd (\<lambda>s. build_vmap_table (g_ttbr1_table s) :: 'a mmap_state_scheme vmap)) (\<lambda>ttbr1_vmap.
       bnd (vmap_apply_table ttbr1_vmap VMAP_DESTINATION_KERNEL) (\<lambda>r.
       if r < 0 then ret (-1) else ret 0))))"

definition mmap_init :: "efi_memory_descriptor list \<Rightarrow> ('a mmap_state_scheme, int) prog" where
  "mmap_init efi_memory_map =
     bnd (mmap_reserve_memory efi_memory_map) (\<lambda>r. if r < 0 then ret (-1) else
     bnd (mmap_build_memory_map efi_memory_map) (\<lambda>r. if r < 0 then ret (-1) else
     bnd mmap_build_ttbr0_table (\<lambda>r. if r < 0 then ret (-1) else
     bnd mmap_build_ttbr1_table (\<lambda>r. if r < 0 then ret (-1) else
     bnd mmap_apply_mappings (\<lambda>r. if r < 0 then ret (-1) else
     thn (upd (\<lambda>s. s\<lparr>g_mmap_initialized := True\<rparr>)) (ret 0))))))"

section \<open>The reserved memory as a source of table pages\<close>

definition mmap_avail :: "'a mmap_state_scheme \<Rightarrow> u64 set" where
  "mmap_avail s = (let b = g_page_table_allocator s in
     if bump_allocator_invalid b then {}
     else {p. unat (memory_start b) + unat (allocated_size b) \<le> unat p \<and>
              unat p + 4096 \<le> unat (memory_start b) + unat (allocated_size b) + unat (remaining_size b) \<and>
              4096 dvd unat p})"

definition mmap_pages_ok :: "'a mmap_state_scheme \<Rightarrow> bool" where
  "mmap_pages_ok s \<longleftrightarrow> (let b = g_page_table_allocator s in
     bump_allocator_invalid b \<or>
     4096 dvd unat (memory_start b) \<and> 4096 dvd unat (allocated_size b) \<and>
     unat (memory_start b) + unat (allocated_size b) + unat (remaining_size b) \<le> 2 ^ 34)"

lemma page_ok_iff: "page_ok p \<longleftrightarrow> p \<noteq> 0 \<and> 4096 dvd unat p \<and> unat p + 4096 \<le> 2 ^ 34"
  using page_okD [of p] by (auto simp: page_ok_def word_less_nat_alt)

lemma mmap_avail_pages:
  assumes "mmap_pages_ok s" shows "finite (mmap_avail s) \<and> (\<forall>p \<in> mmap_avail s. page_ok p)"
proof (intro conjI ballI)
  fix p assume "p \<in> mmap_avail s"
  with assms show "page_ok p"
    by (auto simp: mmap_avail_def mmap_pages_ok_def page_ok_iff Let_def bump_allocator_invalid_def
          unat_eq_0 split: if_splits)
qed simp

lemma pointer_target_direct:
  assumes "g_mmap_initialized s" "unat p < 2 ^ 34"
  shows "pointer_target s (MMAP_VIRTUAL_BASE_ADDRESS + p) = Some p"
  using assms by (simp add: pointer_target_def word_less_nat_alt)

lemma mmap_reach:
  assumes "g_mmap_initialized s' = g_mmap_initialized s" "page_ok p" "unat i < 4096"
  shows "pointer_target s' (vmap_physical_to_virtual s p + i) = Some (p + i)"
proof -
  have u: "unat (p + i) < 2 ^ 34"
    using page_okD(4) [OF assms(2)] assms(3) by (subst unat_add_no_wrap) simp_all
  have "\<not> MMAP_PHYSICAL_REGION_SIZE \<le> p" using assms(2) by (simp add: page_ok_def not_le)
  moreover have "p + i < MMAP_PHYSICAL_REGION_SIZE" using u by (simp add: word_less_nat_alt)
  ultimately show ?thesis
    using assms(1) pointer_target_direct [of s' "p + i", OF _ u]
    by (cases "g_mmap_initialized s")
       (simp_all add: vmap_physical_to_virtual_def mmap_physical_to_virtual_def pointer_target_def add.assoc)
qed

lemma next_page:
  assumes ok: "mmap_pages_ok s" and b: "b = g_page_table_allocator s" "\<not> bump_allocator_invalid b"
    and r: "4096 \<le> unat (remaining_size b)"
  defines "p \<equiv> memory_start b + allocated_size b"
    and "b' \<equiv> b\<lparr>allocated_size := allocated_size b + MMAP_GRANULE_SIZE, remaining_size := remaining_size b - MMAP_GRANULE_SIZE\<rparr>"
  shows "unat p = unat (memory_start b) + unat (allocated_size b)" "p \<in> mmap_avail s" "page_ok p"
    "mmap_pages_ok (s\<lparr>g_page_table_allocator := b'\<rparr>)"
    "mmap_avail (s\<lparr>g_page_table_allocator := b'\<rparr>) = mmap_avail s - {p}"
proof -
  have k: "4096 dvd unat (memory_start b)" "4096 dvd unat (allocated_size b)"
    "unat (memory_start b) + unat (allocated_size b) + unat (remaining_size b) \<le> 2 ^ 34"
    using ok b by (auto simp: mmap_pages_ok_def Let_def)
  show u: "unat p = unat (memory_start b) + unat (allocated_size b)"
    unfolding p_def by (rule unat_add_no_wrap) (use k(3) in simp)
  have u1: "unat (allocated_size b + MMAP_GRANULE_SIZE) = unat (allocated_size b) + 4096"
    using k(3) by (subst unat_add_no_wrap) simp_all
  have u2: "unat (remaining_size b - MMAP_GRANULE_SIZE) = unat (remaining_size b) - 4096"
    using r by (subst unat_sub_no_wrap) simp_all
  have inv': "bump_allocator_invalid b' = False" using b(2) by (simp add: b'_def bump_allocator_invalid_def)
  show av: "p \<in> mmap_avail s" using u b k r by (simp add: mmap_avail_def Let_def)
  then show "page_ok p" using mmap_avail_pages [OF ok] by blast
  show "mmap_pages_ok (s\<lparr>g_page_table_allocator := b'\<rparr>)"
    using k r u1 u2 by (simp add: mmap_pages_ok_def Let_def b'_def)
  have "q = p" if "unat p \<le> unat q" "\<not> unat p + 4096 \<le> unat q" "4096 dvd unat q" for q
  proof -
    have "4096 dvd unat p" using u k by simp
    with that have "unat p = unat q" by (auto elim!: dvdE)
    then show ?thesis by (simp add: word_unat_eq_iff)
  qed
  moreover have "q \<in> mmap_avail (s\<lparr>g_page_table_allocator := b'\<rparr>) \<longleftrightarrow> q \<in> mmap_avail s \<and> unat p + 4096 \<le> unat q" for q
    using b inv' u u1 u2 r by (auto simp: mmap_avail_def Let_def b'_def)
  moreover have "\<And>q. q \<in> mmap_avail s \<Longrightarrow> unat p \<le> unat q \<and> 4096 dvd unat q"
    using b u by (auto simp: mmap_avail_def Let_def)
  ultimately show "mmap_avail (s\<lparr>g_page_table_allocator := b'\<rparr>) = mmap_avail s - {p}" by force
qed

text \<open>Allocation of a table page: it fails only when the reserved memory is used up.\<close>

lemma alloc_new_table_cases:
  assumes ok: "mmap_pages_ok s"
  obtains "alloc_new_table s = Inr (None, s)" "mmap_avail s = {}"
  | p s' where "alloc_new_table s = Inr (Some p, s')" "p \<in> mmap_avail s" "mmap_pages_ok s'"
      "mmap_avail s' = mmap_avail s - {p}" "phys s' = zero_page p (phys s)"
      "s' = s\<lparr>g_page_table_allocator := g_page_table_allocator s', phys := phys s'\<rparr>"
proof -
  let ?b = "g_page_table_allocator s"
  show ?thesis
  proof (cases "bump_allocator_invalid ?b \<or> unat (remaining_size ?b) < 4096")
    case True
    then show ?thesis using that(1)
      by (auto simp: alloc_new_table_def bump_allocator_allocate_def word_less_nat_alt mmap_avail_def Let_def)
  next
    case False
    let ?p = "memory_start ?b + allocated_size ?b"
    let ?b' = "?b\<lparr>allocated_size := allocated_size ?b + MMAP_GRANULE_SIZE, remaining_size := remaining_size ?b - MMAP_GRANULE_SIZE\<rparr>"
    let ?s = "s\<lparr>g_page_table_allocator := ?b'\<rparr>"
    let ?s' = "?s\<lparr>phys := zero_page ?p (phys s)\<rparr>"
    have nb: "\<not> bump_allocator_invalid ?b" "4096 \<le> unat (remaining_size ?b)" using False by auto
    note np = next_page [OF ok refl nb]
    have small: "\<not> MMAP_PHYSICAL_REGION_SIZE \<le> ?p" using np(3) by (simp add: page_ok_def not_le)
    have tgt: "pointer_target ?s (vmap_physical_to_virtual ?s ?p + 0) = Some (?p + 0)"
      by (rule mmap_reach) (use np(3) in simp_all)
    then have "clear_page (if g_mmap_initialized s then MMAP_VIRTUAL_BASE_ADDRESS + ?p else ?p) ?s = Inr ((), ?s')"
      using small by (simp add: clear_page_def vmap_physical_to_virtual_def mmap_physical_to_virtual_def split: if_splits)
    then have "alloc_new_table s = Inr (Some ?p, ?s')"
      using nb small
      by (simp add: alloc_new_table_def bump_allocator_allocate_def word_less_nat_alt mmap_physical_to_virtual_def split: if_splits)
    moreover have "mmap_pages_ok ?s'" "mmap_avail ?s' = mmap_avail s - {?p}"
      using np(4,5) by (simp_all add: mmap_pages_ok_def mmap_avail_def)
    ultimately show ?thesis using that(2) [of ?p ?s'] np(2) by simp
  qed
qed

interpretation mmap_pages: page_source alloc_vmap_page vmap_physical_to_virtual mmap_avail "\<lambda>_. {}" mmap_pages_ok
proof
  fix s :: "'a mmap_state_scheme" assume ok: "mmap_pages_ok s"
  show "\<exists>x s'. alloc_vmap_page s = Inr (x, s') \<and> mmap_pages_ok s' \<and> g_mmap_initialized s' = g_mmap_initialized s \<and>
      {} = {} \<and> (x = NULL \<and> mmap_avail s = {} \<and> mmap_avail s' = {} \<and> phys s' = phys s \<or>
       x \<in> mmap_avail s \<and> mmap_avail s' = mmap_avail s - {x} \<and> phys s' = zero_page x (phys s))"
  proof (rule alloc_new_table_cases [OF ok])
    assume "alloc_new_table s = Inr (None, s)" "mmap_avail s = {}"
    then show ?thesis using ok by (simp add: alloc_vmap_page_def)
  next
    fix p s' assume *: "alloc_new_table s = Inr (Some p, s')" "p \<in> mmap_avail s" "mmap_pages_ok s'"
      "mmap_avail s' = mmap_avail s - {p}" "phys s' = zero_page p (phys s)"
      "s' = s\<lparr>g_page_table_allocator := g_page_table_allocator s', phys := phys s'\<rparr>"
    have "g_mmap_initialized s' = g_mmap_initialized s" by (subst *(6)) simp
    with * show ?thesis by (simp add: alloc_vmap_page_def)
  qed
next
  fix s s' :: "'a mmap_state_scheme" and p i :: u64
  assume "g_mmap_initialized s' = g_mmap_initialized s" "page_ok p" "unat i < 4096"
  then show "pointer_target s' (vmap_physical_to_virtual s p + i) = Some (p + i)" by (rule mmap_reach)
next
  fix s s' :: "'a mmap_state_scheme" and t va w :: u64 and n
  assume "mmap_pages_ok s" "s' = s\<lparr>phys := (phys s)(slot t n va := w)\<rparr>"
  then show "mmap_pages_ok s' \<and> mmap_avail s' = mmap_avail s \<and> {} = {}"
    by (simp add: mmap_pages_ok_def mmap_avail_def)
qed (simp add: mmap_avail_pages)


section \<open>What the mapping functions do\<close>

lemma build_vmap_mine [simp]: "mmap_pages.mine (build_vmap_table r)"
  by (simp add: mmap_pages.mine_def build_vmap_table_def vmap_init_def)

lemma build_vmap_root [simp]: "root_page_table (build_vmap_table r) = r"
  by (simp add: build_vmap_table_def)

text \<open>
  The translation of the kernel's tables, and the invariant of the memory map: the table pages in
  use are well formed and are not handed out again.
\<close>

definition mmap_vmap :: "u64 \<Rightarrow> 'a mmap_state_scheme \<Rightarrow> 'a mmap_state_scheme vmap" where
  "mmap_vmap va s = build_vmap_table (get_ttbr_table va s)"

definition mmap_translate :: "'a mmap_state_scheme \<Rightarrow> u64 \<Rightarrow> u64 option" where
  "mmap_translate s va = vtranslate (mmap_vmap va s) s va"

definition mmap_inv :: "u64 \<Rightarrow> 'a mmap_state_scheme \<Rightarrow> bool" where
  "mmap_inv va s \<longleftrightarrow> mmap_pages_ok s \<and> vmap_inv mmap_avail (\<lambda>_. {}) (mmap_vmap va s) s"

lemma mmap_invD:
  assumes "mmap_inv va s"
  shows "mmap_pages_ok s" "vmap_inv mmap_avail (\<lambda>_. {}) (build_vmap_table (get_ttbr_table va s)) s"
    "mmap_pages.mine (mmap_vmap va s)"
  using assms by (simp_all add: mmap_inv_def mmap_vmap_def)

text \<open>\<open>mmap_virtual_to_physical\<close> reads the translation.\<close>

lemma mmap_virtual_to_physical_correct:
  assumes "mmap_inv va s"
  shows "mmap_virtual_to_physical va s = Inr (mmap_translate s va, s)"
  using mmap_pages.virtual_to_physical_correct [OF mmap_invD(1) _ mmap_invD(2), OF assms _ assms]
  by (simp add: mmap_virtual_to_physical_def mmap_translate_def mmap_vmap_def)

definition same_half :: "u64 \<Rightarrow> u64 \<Rightarrow> bool" where
  "same_half va va' \<longleftrightarrow> (va \<ge> 0xFFFF000000000000 \<longleftrightarrow> va' \<ge> 0xFFFF000000000000)"

lemma get_ttbr_same_half: "same_half va va' \<Longrightarrow> get_ttbr_table va' s = get_ttbr_table va s"
  by (simp add: same_half_def get_ttbr_table_def)

text \<open>The roots are not touched by the vmap functions.\<close>

definition keeps_roots :: "'a mmap_state_scheme \<Rightarrow> 'a mmap_state_scheme \<Rightarrow> bool" where
  "keeps_roots s s' \<longleftrightarrow> g_ttbr0_table s' = g_ttbr0_table s \<and> g_ttbr1_table s' = g_ttbr1_table s"

lemma alloc_new_table_keeps_roots: "alloc_new_table s = Inr (x, s') \<Longrightarrow> keeps_roots s s'"
  by (auto simp: alloc_new_table_def bump_allocator_allocate_def clear_page_def keeps_roots_def
        split: if_splits option.splits sum.splits)


lemma alloc_vmap_page_preserves [preserves]:
  assumes "\<And>s b. P s \<Longrightarrow> P (s\<lparr>g_page_table_allocator := b\<rparr>)" "\<And>s ph. P s \<Longrightarrow> P (s\<lparr>phys := ph\<rparr>)"
  shows "preserves P alloc_vmap_page"
proof -
  have "preserves P (within g_page_table_allocator g_page_table_allocator_update (bump_allocator_allocate n))" for n
    using assms(1) by (auto simp: preserves_def bump_allocator_allocate_def)
  then show ?thesis
    unfolding alloc_vmap_page_def alloc_new_table_def by (intro preserves assms(2))
qed

lemma alloc_build_vmap [simp]: "alloc_page (build_vmap_table r) = alloc_vmap_page"
  by (simp add: build_vmap_table_def vmap_init_def)

text \<open>The vmap functions do not touch the roots.\<close>

lemma roots_preserved:
  fixes a b :: u64
  defines "P \<equiv> \<lambda>s :: 'a mmap_state_scheme. g_ttbr0_table s = a \<and> g_ttbr1_table s = b"
  shows "preserves P alloc_vmap_page" "\<And>s ph. P s \<Longrightarrow> P (s\<lparr>phys := ph\<rparr>)"
  unfolding P_def by (auto intro!: preserves)

lemma get_ttbr_preserved:
  fixes m :: "('a mmap_state_scheme, 'x) prog"
  assumes "\<And>P. preserves P alloc_vmap_page \<Longrightarrow> (\<And>s ph. P s \<Longrightarrow> P (s\<lparr>phys := ph\<rparr>)) \<Longrightarrow> preserves P m"
    and "m s = Inr (x, s')"
  shows "g_ttbr0_table s' = g_ttbr0_table s \<and> g_ttbr1_table s' = g_ttbr1_table s"
  using preservesD [OF assms(1) _ assms(2), OF roots_preserved] by auto

lemma keep_root_result:
  fixes s s' :: "'a mmap_state_scheme" and va :: u64
  defines "v \<equiv> build_vmap_table (get_ttbr_table va s) :: 'a mmap_state_scheme vmap"
  assumes v': "v' = v\<lparr>root_page_table := root_page_table v'\<rparr>" "root_page_table v \<noteq> NULL \<longrightarrow> v' = v"
    and roots: "g_ttbr0_table s' = g_ttbr0_table s \<and> g_ttbr1_table s' = g_ttbr1_table s"
  shows "\<exists>s''. keep_root va (0, v') s' = Inr (0, s'') \<and> mmap_vmap va s'' = v' \<and> phys s'' = phys s' \<and>
    g_page_table_allocator s'' = g_page_table_allocator s' \<and> g_mmap_initialized s'' = g_mmap_initialized s'"
proof -
  have eq: "get_ttbr_table va s' = get_ttbr_table va s" using roots by (simp add: get_ttbr_table_def)
  have "build_vmap_table (root_page_table v') = v'"
    using v'(1) by (simp add: v_def build_vmap_table_def vmap_init_def)
  moreover have "get_ttbr_table va s \<noteq> NULL \<Longrightarrow> v' = v" using v'(2) by (simp add: v_def)
  ultimately show ?thesis
    using roots by (auto simp: keep_root_def eq mmap_vmap_def v_def set_ttbr_table_def get_ttbr_table_def)
qed

text \<open>Mapping one page in a half of the address space that has a root.\<close>

lemma mmap_map_page_result:
  assumes inv: "mmap_inv va s" and root: "get_ttbr_table va s \<noteq> NULL" and nb: "no_block (mmap_vmap va s) s va"
    and fl: "page_flags AND TBL_ENTRY_ADDR_MASK = 0"
  shows "\<exists>r s'. mmap_map_page pa va page_flags s = Inr (r, s') \<and> mmap_inv va s' \<and>
     (r = 0 \<and> (\<forall>va'. same_half va va' \<longrightarrow> mmap_translate s' va' =
         (if prefix 0 va' = prefix 0 va then Some (target 0 pa va') else mmap_translate s va')) \<or>
      r = -1 \<and> card (mmap_avail s) < 4 \<and>
        (\<forall>va'. same_half va va' \<longrightarrow> mmap_translate s' va' = mmap_translate s va'))"
proof -
  let ?v = "build_vmap_table (get_ttbr_table va s) :: 'a mmap_state_scheme vmap"
  note inv = mmap_invD [OF inv]
  obtain r v' s' where run: "vmap_map_page ?v pa va page_flags s = Inr ((r, v'), s')" and ok: "mmap_pages_ok s'"
    and cs: "r = 0 \<and> maps mmap_avail (\<lambda>_. {}) 4 0 va pa ?v s v' s' \<or>
      r = -1 \<and> grows mmap_avail (\<lambda>_. {}) 0 4 ?v s v' s' \<and> card (mmap_avail s) < 4"
    using mmap_pages.map_page_outcome [OF inv(1) _ inv(2) _ fl, of va pa] nb
    by (auto simp: mmap_pages.map_outcome_def mmap_vmap_def)
  have v': "v' = ?v" and inv': "vmap_inv mmap_avail (\<lambda>_. {}) v' s'" using cs root by (auto simp: maps_def grows_def)
  have roots: "g_ttbr0_table s' = g_ttbr0_table s \<and> g_ttbr1_table s' = g_ttbr1_table s"
    by (rule get_ttbr_preserved [where m = "vmap_map_page ?v pa va page_flags", OF _ run])
       (rule yields_imp [OF vmap_map_yields(1)], simp_all)
  then have same: "get_ttbr_table va' s' = get_ttbr_table va s" if "same_half va va'" for va'
    using get_ttbr_same_half [OF that] by (auto simp: get_ttbr_table_def)
  have "mmap_map_page pa va page_flags s = Inr (r, s')"
    using run cs by (auto simp: mmap_map_page_def)
  moreover have "mmap_inv va s'"
    using ok inv' v' same [of va] by (simp add: mmap_inv_def mmap_vmap_def same_half_def)
  moreover have "mmap_translate s' va' = vtranslate v' s' va'" "mmap_translate s va' = vtranslate ?v s va'"
    if "same_half va va'" for va'
    using same [OF that] get_ttbr_same_half [OF that, of s] v' by (simp_all add: mmap_translate_def mmap_vmap_def)
  ultimately show ?thesis using cs by (auto simp: maps_def grows_def)
qed

text \<open>
  \<open>mmap_apply_mappings\<close> programs the registers with the two roots; from then on the translation
  hardware answers what the software walk computes, in each half of the address space whose
  tables are proper.
\<close>

lemma mmap_apply_mappings_result:
  "mmap_apply_mappings s = Inr (0, s\<lparr>tcr_el1 := tcr_for VMAP_DESTINATION_KERNEL (tcr_for VMAP_DESTINATION_USER (tcr_el1 s)),
     ttbr0_el1 := g_ttbr0_table s AND NOT 1, ttbr1_el1 := g_ttbr1_table s AND NOT 1\<rparr>)"
  by (simp add: mmap_apply_mappings_def vmap_apply_table_def)

lemma root_in_register:
  assumes "page_ok r" shows "(r AND NOT 1) AND 0x0000FFFFFFFFF000 = r"
proof -
  have "(r AND NOT 1) AND 0x0000FFFFFFFFF000 = r AND (NOT 1 AND 0x0000FFFFFFFFF000)" by (rule and.assoc)
  also have "\<dots> = r" using page_bits [OF assms] by simp
  finally show ?thesis .
qed

lemma mmu_agrees:
  assumes inv: "mmap_inv va s" and pr: "proper (mmap_vmap va s) s" and root: "get_ttbr_table va s \<noteq> NULL"
    and va: "va < 0x0001000000000000 \<or> 0xFFFF000000000000 \<le> va"
    and run: "mmap_apply_mappings s = Inr (r, s')"
  shows "mmu_translate s' va = mmap_translate s va"
proof -
  let ?r = "get_ttbr_table va s"
  have s': "s' = s\<lparr>tcr_el1 := tcr_for VMAP_DESTINATION_KERNEL (tcr_for VMAP_DESTINATION_USER (tcr_el1 s)),
     ttbr0_el1 := g_ttbr0_table s AND NOT 1, ttbr1_el1 := g_ttbr1_table s AND NOT 1\<rparr>"
    using run by (simp add: mmap_apply_mappings_result)
  have tab: "tables (phys s) ?r" using mmap_invD(2) [OF inv] root by (simp add: vmap_inv_def)
  have walk: "mmu_walk (phys s) [0, 1, 2, 3] ?r va = walk (phys s) 3 ?r va"
    by (rule mmu_walk_tables [OF tab]) (use pr root in \<open>auto simp: proper_def mmap_vmap_def\<close>)
  have "mmu_translate s' va = mmu_walk (phys s) [0, 1, 2, 3] ((?r AND NOT 1) AND 0x0000FFFFFFFFF000) va"
  proof (cases "0xFFFF000000000000 \<le> va")
    case True
    then have "\<not> va < 0x0001000000000000" by (simp add: word_le_nat_alt word_less_nat_alt)
    with True show ?thesis
      unfolding mmu_translate_def s' by (simp add: get_ttbr_table_def tcr_for_kernel(1-3) Let_def)
  next
    case False
    with va show ?thesis
      unfolding mmu_translate_def s' by (simp add: get_ttbr_table_def tcr_for_kernel(4-6) tcr_for_user Let_def)
  qed
  also have "\<dots> = walk (phys s) 3 ?r va" unfolding root_in_register [OF tables_root [OF tab]] by (rule walk)
  also have "\<dots> = mmap_translate s va" using root by (simp add: mmap_translate_def mmap_vmap_def vtranslate_def translate_def)
  finally show ?thesis .
qed

text \<open>Mapping ranges, when the half of the address space may not have a root yet.\<close>

definition range_mapped ::
  "nat \<Rightarrow> nat \<Rightarrow> u64 \<Rightarrow> u64 \<Rightarrow> 'a mmap_state_scheme \<Rightarrow> 'a mmap_state_scheme \<Rightarrow> bool" where
  "range_mapped n k va pa s s' \<longleftrightarrow> mmap_inv va s' \<and>
     vmap_pages (mmap_vmap va s') s' \<subseteq> vmap_pages (mmap_vmap va s) s \<union> mmap_avail s \<and>
     mmap_avail s' \<subseteq> mmap_avail s \<and> card (mmap_avail s) \<le> card (mmap_avail s') + k * (4 - n) \<and>
     (proper (mmap_vmap va s) s \<longrightarrow> proper (mmap_vmap va s') s') \<and>
     (\<forall>va'. same_half va va' \<longrightarrow> (\<forall>i < k. prefix n va' \<noteq> prefix n (step_to n va i)) \<longrightarrow>
        mmap_translate s' va' = mmap_translate s va') \<and>
     (\<forall>i < k. \<forall>va'. same_half va va' \<longrightarrow> prefix n va' = prefix n (step_to n va i) \<longrightarrow>
        mmap_translate s' va' = Some (target n (step_to n pa i) va'))"

lemma range_result:
  fixes s :: "'a mmap_state_scheme" and va :: u64
  defines "v \<equiv> build_vmap_table (get_ttbr_table va s) :: 'a mmap_state_scheme vmap"
  assumes run: "m v s = Inr ((r, v'), s')" and ok: "mmap_pages_ok s'"
    and maps: "maps_range mmap_avail (\<lambda>_. {}) n k va pa v s r v' s'"
    and pres: "\<forall>P. preserves P alloc_vmap_page \<longrightarrow> (\<forall>s ph. P s \<longrightarrow> P (s\<lparr>phys := ph\<rparr>)) \<longrightarrow> preserves P (m v)"
  shows "\<exists>s''. bnd (m v) (keep_root va) s = Inr (r, s'') \<and> mmap_pages_ok s'' \<and>
     g_mmap_initialized s'' = g_mmap_initialized s \<and>
     (r = 0 \<and> range_mapped n k va pa s s'' \<or>
      r = -1 \<and> card (mmap_avail s) < k * (4 - n))"
proof -
  have roots: "g_ttbr0_table s' = g_ttbr0_table s \<and> g_ttbr1_table s' = g_ttbr1_table s"
    by (rule get_ttbr_preserved [where m = "m v", OF _ run]) (use pres in simp)
  have cs: "r = 0 \<or> r = -1 \<and> card (mmap_avail s) < k * (4 - n)" and v': "v' = v\<lparr>root_page_table := root_page_table v'\<rparr>"
    "root_page_table v \<noteq> NULL \<longrightarrow> v' = v" and init: "g_mmap_initialized s' = g_mmap_initialized s"
    and inv': "vmap_inv mmap_avail (\<lambda>_. {}) v' s'"
    using maps by (simp_all add: maps_range_def)
  from cs show ?thesis
  proof
    assume "r = -1 \<and> card (mmap_avail s) < k * (4 - n)"
    then show ?thesis using run ok init by (simp add: keep_root_def)
  next
    assume r: "r = 0"
    obtain s'' where k: "keep_root va (0, v') s' = Inr (0, s'')" "mmap_vmap va s'' = v'" "phys s'' = phys s'"
      "g_page_table_allocator s'' = g_page_table_allocator s'" "g_mmap_initialized s'' = g_mmap_initialized s'"
      using keep_root_result [OF v'[unfolded v_def] roots] by (auto simp: v_def)
    have ok'': "mmap_pages_ok s''" and av: "mmap_avail s'' = mmap_avail s'"
      using ok k(4) by (simp_all add: mmap_pages_ok_def mmap_avail_def)
    have "mmap_inv va s''" using ok'' inv' k(2,3) av by (simp add: mmap_inv_def vmap_inv_def)
    moreover have "mmap_translate s'' va' = vtranslate v' s' va'" "mmap_translate s va' = vtranslate v s va'"
      if "same_half va va'" for va'
      using get_ttbr_same_half [OF that, of s] get_ttbr_same_half [OF that, of s''] k(2,3) v_def
      by (simp_all add: mmap_translate_def mmap_vmap_def vtranslate_def)
    moreover have "vmap_pages (mmap_vmap va s'') s'' \<subseteq> vmap_pages (mmap_vmap va s) s \<union> mmap_avail s"
    proof -
      have "vmap_pages v' s' \<subseteq> vmap_pages v s \<union> mmap_avail s" using maps by (simp add: maps_range_def)
      moreover have "vmap_pages (mmap_vmap va s'') s'' = vmap_pages v' s'" using k(2,3) by (simp add: vmap_pages_def)
      moreover have "mmap_vmap va s = v" by (simp add: mmap_vmap_def v_def)
      ultimately show ?thesis by simp
    qed
    moreover have "mmap_avail s'' \<subseteq> mmap_avail s" "card (mmap_avail s) \<le> card (mmap_avail s'') + k * (4 - n)"
      using maps av by (simp_all add: maps_range_def)
    moreover have "proper (mmap_vmap va s) s \<longrightarrow> proper (mmap_vmap va s'') s''"
    proof -
      have "proper v s \<longrightarrow> proper v' s'" using maps by (simp add: maps_range_def)
      moreover have "proper (mmap_vmap va s'') s'' \<longleftrightarrow> proper v' s'" using k(2,3) by (simp add: proper_def)
      moreover have "mmap_vmap va s = v" by (simp add: mmap_vmap_def v_def)
      ultimately show ?thesis by simp
    qed
    ultimately have "range_mapped n k va pa s s''" using maps r by (simp add: range_mapped_def maps_range_def)
    then show ?thesis using run k(1,5) r ok'' init by auto
  qed
qed

lemma mmap_map_range_l1_block_result:
  fixes s :: "'a mmap_state_scheme"
  assumes inv: "mmap_inv va s"
    and fl: "page_flags AND TBL_ENTRY_ADDR_MASK = 0" "page_flags AND TBL_ENTRY_TABLE = 0"
    and al: "va mod TBL_L1_BLOCK_SIZE = 0" "pa mod TBL_L1_BLOCK_SIZE = 0"
    and vac: "\<And>i. i < k \<Longrightarrow> vacant (mmap_vmap va s) s 2 (step_to 2 va i)"
    and bounds: "unat va + k * 2 ^ 30 < 2 ^ 64" "k \<le> 2 ^ 18"
      "unat end_va \<le> unat va + k * 2 ^ 30" "\<And>i. i < k \<Longrightarrow> unat va + i * 2 ^ 30 < unat end_va"
  shows "\<exists>r s'. mmap_map_range_l1_block va end_va pa page_flags s = Inr (r, s') \<and> mmap_pages_ok s' \<and>
     g_mmap_initialized s' = g_mmap_initialized s \<and>
     (r = 0 \<and> range_mapped 2 k va pa s s' \<or>
      r = -1 \<and> card (mmap_avail s) < k * (4 - 2))"
proof -
  let ?v = "build_vmap_table (get_ttbr_table va s) :: 'a mmap_state_scheme vmap"
  let ?m = "\<lambda>v. vmap_map_range_l1_block v va end_va pa page_flags"
  obtain r v' s' where run: "?m ?v s = Inr ((r, v'), s')" "mmap_pages_ok s'"
    and maps: "maps_range mmap_avail (\<lambda>_. {}) 2 k va pa ?v s r v' s'"
    using mmap_pages.map_range_l1_block_outcome [OF mmap_invD(1) [OF inv] build_vmap_mine mmap_invD(2) [OF inv] fl al _ bounds]
      vac unfolding mmap_vmap_def by blast
  have "\<forall>P. preserves P alloc_vmap_page \<longrightarrow> (\<forall>s ph. P s \<longrightarrow> P (s\<lparr>phys := ph\<rparr>)) \<longrightarrow> preserves P (?m ?v)"
    by (intro allI impI, rule vmap_map_range_preserves(2)) simp_all
  note result = range_result [where m = ?m, OF run maps this]
  have eq: "mmap_map_range_l1_block va end_va pa page_flags s = bnd (?m ?v) (keep_root va) s"
    by (simp add: mmap_map_range_l1_block_def)
  show ?thesis unfolding eq by (rule exI [of _ r]) (rule result)
qed

lemma mmap_map_range_result:
  fixes s :: "'a mmap_state_scheme"
  assumes inv: "mmap_inv va s" and fl: "page_flags AND TBL_ENTRY_ADDR_MASK = 0"
    and nb: "\<And>i. i < k \<Longrightarrow> no_block (mmap_vmap va s) s (step_to 0 va i)"
    and bounds: "unat va + k * 4096 < 2 ^ 64" "k \<le> 2 ^ 36"
      "unat end_va \<le> unat va + k * 4096" "\<And>i. i < k \<Longrightarrow> unat va + i * 4096 < unat end_va"
  shows "\<exists>r s'. mmap_map_range va end_va pa page_flags s = Inr (r, s') \<and> mmap_pages_ok s' \<and>
     g_mmap_initialized s' = g_mmap_initialized s \<and>
     (r = 0 \<and> range_mapped 0 k va pa s s' \<or>
      r = -1 \<and> card (mmap_avail s) < k * (4 - 0))"
proof -
  let ?v = "build_vmap_table (get_ttbr_table va s) :: 'a mmap_state_scheme vmap"
  let ?m = "\<lambda>v. vmap_map_range v va end_va pa page_flags"
  obtain r v' s' where run: "?m ?v s = Inr ((r, v'), s')" "mmap_pages_ok s'"
    and maps: "maps_range mmap_avail (\<lambda>_. {}) 0 k va pa ?v s r v' s'"
    using mmap_pages.map_range_outcome [OF mmap_invD(1) [OF inv] build_vmap_mine mmap_invD(2) [OF inv] fl _ bounds]
      nb unfolding mmap_vmap_def by blast
  have "\<forall>P. preserves P alloc_vmap_page \<longrightarrow> (\<forall>s ph. P s \<longrightarrow> P (s\<lparr>phys := ph\<rparr>)) \<longrightarrow> preserves P (?m ?v)"
    by (intro allI impI, rule vmap_map_range_preserves(1)) simp_all
  note result = range_result [where m = ?m, OF run maps this]
  have eq: "mmap_map_range va end_va pa page_flags s = bnd (?m ?v) (keep_root va) s"
    by (simp add: mmap_map_range_def)
  show ?thesis unfolding eq by (rule exI [of _ r]) (rule result)
qed

section \<open>The direct map\<close>

definition direct_mapped :: "'a mmap_state_scheme \<Rightarrow> bool" where
  "direct_mapped s \<longleftrightarrow> mmap_inv MMAP_VIRTUAL_BASE_ADDRESS s \<and>
     (\<forall>p < MMAP_PHYSICAL_REGION_SIZE. mmap_translate s (MMAP_VIRTUAL_BASE_ADDRESS + p) = Some p)"

lemma window_half:
  assumes "p < MMAP_PHYSICAL_REGION_SIZE"
  shows "unat (MMAP_VIRTUAL_BASE_ADDRESS + p) = unat MMAP_VIRTUAL_BASE_ADDRESS + unat p"
    and "same_half MMAP_VIRTUAL_BASE_ADDRESS (MMAP_VIRTUAL_BASE_ADDRESS + p)"
proof -
  have "unat p < 0x400000000" using assms by (simp add: word_less_nat_alt)
  then show u: "unat (MMAP_VIRTUAL_BASE_ADDRESS + p) = unat MMAP_VIRTUAL_BASE_ADDRESS + unat p"
    by (intro unat_add_no_wrap) simp
  show "same_half MMAP_VIRTUAL_BASE_ADDRESS (MMAP_VIRTUAL_BASE_ADDRESS + p)"
    unfolding same_half_def word_le_nat_alt u by simp
qed

lemma window_block:
  assumes "p < MMAP_PHYSICAL_REGION_SIZE"
  defines "i \<equiv> unat p div 2 ^ 30"
  shows "i < 16" "prefix 2 (MMAP_VIRTUAL_BASE_ADDRESS + p) = prefix 2 (step_to 2 MMAP_VIRTUAL_BASE_ADDRESS i)"
    "target 2 (step_to 2 0 i) (MMAP_VIRTUAL_BASE_ADDRESS + p) = p"
proof -
  have p: "unat p < 2 ^ 34" using assms by (simp add: word_less_nat_alt)
  then show i: "i < 16" by (simp add: i_def)
  have rs: "region_size 2 = 2 ^ 30" by (simp add: region_size_def)
  have "unat (step_to 2 MMAP_VIRTUAL_BASE_ADDRESS i) = unat MMAP_VIRTUAL_BASE_ADDRESS + i * 2 ^ 30"
    using unat_step_to [of MMAP_VIRTUAL_BASE_ADDRESS i 2] i rs by simp
  moreover have "(unat MMAP_VIRTUAL_BASE_ADDRESS + unat p) div 2 ^ 30 = (unat MMAP_VIRTUAL_BASE_ADDRESS + i * 2 ^ 30) div 2 ^ 30"
    by (simp add: i_def)
  ultimately show "prefix 2 (MMAP_VIRTUAL_BASE_ADDRESS + p) = prefix 2 (step_to 2 MMAP_VIRTUAL_BASE_ADDRESS i)"
    using unat_prefix [of 2] window_half(1) [OF assms(1)] rs by (simp add: word_unat_eq_iff)
  have s0: "step_to 2 0 i = push_bit 30 (drop_bit 30 p)"
  proof -
    have "unat (step_to 2 0 i) = i * 2 ^ 30" using unat_step_to [of 0 i 2] i rs by simp
    moreover have "unat (drop_bit 30 p) = i" by (simp only: unat_drop_bit i_def)
    moreover have "unat (push_bit 30 (drop_bit 30 p)) = unat (drop_bit 30 p) * 2 ^ 30"
      using calculation(2) i by (intro unat_push_bit_no_wrap) simp
    ultimately show ?thesis by (simp add: word_unat_eq_iff)
  qed
  have low: "(MMAP_VIRTUAL_BASE_ADDRESS + p) AND mask 30 = p AND mask 30"
    unfolding word_unat_eq_iff unat_and_mask window_half(1) [OF assms(1)] by (simp add: mod_add_eq [symmetric])
  have hi: "bit p k \<Longrightarrow> k < 34" for k
  proof -
    have "p = take_bit 34 p"
      using p by (simp add: word_unat_eq_iff unsigned_take_bit_eq take_bit_nat_eq_self)
    then show "bit p k \<Longrightarrow> k < 34" by (metis bit_take_bit_iff)
  qed
  have m: "bit p k \<Longrightarrow> \<not> k < 30 \<Longrightarrow> bit TBL_ENTRY_ADDR_MASK k" for k
    unfolding bit_addr_mask using hi [of k] by simp
  have "push_bit 30 (drop_bit 30 p) AND TBL_ENTRY_ADDR_MASK AND NOT (mask 30) = p AND NOT (mask 30)"
  proof (rule bit_word_eqI)
    fix k assume "k < LENGTH(64)"
    then show "bit (push_bit 30 (drop_bit 30 p) AND TBL_ENTRY_ADDR_MASK AND NOT (mask 30)) k = bit (p AND NOT (mask 30)) k"
      using m [of k] unfolding bit_and_iff bit_not_iff bit_mask_iff bit_push_bit_iff bit_drop_bit_eq
      by (cases "k < 30") (simp, auto)
  qed
  moreover have "(p AND NOT (mask 30)) OR (p AND mask 30) = p"
    by (rule bit_word_eqI) (auto simp: bit_or_iff bit_and_iff bit_not_iff)
  ultimately show "target 2 (step_to 2 0 i) (MMAP_VIRTUAL_BASE_ADDRESS + p) = p"
    using low unfolding target_def s0 by simp
qed

lemma MMAP_PAGE_FLAGS_ok: "MMAP_PAGE_FLAGS AND TBL_ENTRY_ADDR_MASK = 0" "MMAP_PAGE_FLAGS AND TBL_ENTRY_TABLE = 0"
  by (simp_all add: MMAP_PAGE_FLAGS_def page_flag_defs)

text \<open>Mapping the sixteen blocks establishes the direct map.\<close>

lemma direct_map_established:
  fixes s :: "'a mmap_state_scheme"
  assumes inv: "mmap_inv MMAP_VIRTUAL_BASE_ADDRESS s"
    and vac: "\<And>i. i < 16 \<Longrightarrow> vacant (mmap_vmap MMAP_VIRTUAL_BASE_ADDRESS s) s 2 (step_to 2 MMAP_VIRTUAL_BASE_ADDRESS i)"
    and room: "32 \<le> card (mmap_avail s)"
  shows "\<exists>s'. mmap_map_range_l1_block MMAP_VIRTUAL_BASE_ADDRESS
      (MMAP_VIRTUAL_BASE_ADDRESS + MMAP_PHYSICAL_REGION_SIZE) 0 MMAP_PAGE_FLAGS s = Inr (0, s') \<and>
    direct_mapped s' \<and> g_mmap_initialized s' = g_mmap_initialized s \<and>
    range_mapped 2 16 MMAP_VIRTUAL_BASE_ADDRESS 0 s s'"
proof -
  have "i * 2 ^ 30 < (0x400000000 :: nat)" if "i < 16" for i using that by simp
  then have last: "unat MMAP_VIRTUAL_BASE_ADDRESS + i * 2 ^ 30 < unat (MMAP_VIRTUAL_BASE_ADDRESS + MMAP_PHYSICAL_REGION_SIZE)"
    if "i < 16" for i using that by simp
  have al: "MMAP_VIRTUAL_BASE_ADDRESS mod TBL_L1_BLOCK_SIZE = 0" "(0 :: u64) mod TBL_L1_BLOCK_SIZE = 0"
    and bounds: "unat MMAP_VIRTUAL_BASE_ADDRESS + 16 * 2 ^ 30 < 2 ^ 64" "(16 :: nat) \<le> 2 ^ 18"
      "unat (MMAP_VIRTUAL_BASE_ADDRESS + MMAP_PHYSICAL_REGION_SIZE) \<le> unat MMAP_VIRTUAL_BASE_ADDRESS + 16 * 2 ^ 30"
    by simp_all
  obtain r s' where run: "mmap_map_range_l1_block MMAP_VIRTUAL_BASE_ADDRESS
      (MMAP_VIRTUAL_BASE_ADDRESS + MMAP_PHYSICAL_REGION_SIZE) 0 MMAP_PAGE_FLAGS s = Inr (r, s')"
    and init: "g_mmap_initialized s' = g_mmap_initialized s"
    and cs: "r = 0 \<and> range_mapped 2 16 MMAP_VIRTUAL_BASE_ADDRESS 0 s s' \<or> r = -1 \<and> card (mmap_avail s) < 16 * (4 - 2)"
    using mmap_map_range_l1_block_result [OF inv MMAP_PAGE_FLAGS_ok al vac bounds last] by blast
  from cs room have r: "r = 0" and m: "range_mapped 2 16 MMAP_VIRTUAL_BASE_ADDRESS 0 s s'" by auto
  have inv': "mmap_inv MMAP_VIRTUAL_BASE_ADDRESS s'"
    and hit: "\<And>i va'. i < 16 \<Longrightarrow> same_half MMAP_VIRTUAL_BASE_ADDRESS va' \<Longrightarrow>
           prefix 2 va' = prefix 2 (step_to 2 MMAP_VIRTUAL_BASE_ADDRESS i) \<Longrightarrow>
           mmap_translate s' va' = Some (target 2 (step_to 2 0 i) va')"
    using m by (simp_all add: range_mapped_def)
  have "mmap_translate s' (MMAP_VIRTUAL_BASE_ADDRESS + p) = Some p" if p: "p < MMAP_PHYSICAL_REGION_SIZE" for p
    using hit [OF window_block(1) [OF p] window_half(2) [OF p] window_block(2) [OF p]]
    unfolding window_block(3) [OF p] .
  then have "direct_mapped s'" using inv' by (simp add: direct_mapped_def)
  then show ?thesis using run r init m by auto
qed

text \<open>
  The two translations the page allocator uses. A walk that faults cannot happen here; its value
  would be the failure.
\<close>

definition mmap_v2p :: "'a mmap_state_scheme \<Rightarrow> u64 \<Rightarrow> u64 option" where
  "mmap_v2p s va = (case mmap_virtual_to_physical va s of Inl e \<Rightarrow> None | Inr (r, s') \<Rightarrow> r)"

definition direct_map_ok :: "'a mmap_state_scheme \<Rightarrow> bool" where
  "direct_map_ok s \<longleftrightarrow> g_mmap_initialized s \<and> direct_mapped s"

lemma mmap_inv_same_half: "mmap_inv va s \<Longrightarrow> same_half va va' \<Longrightarrow> mmap_inv va' s"
  using get_ttbr_same_half [of va va' s] by (simp add: mmap_inv_def mmap_vmap_def)

lemma window_v2p:
  assumes "direct_mapped s" "p < MMAP_PHYSICAL_REGION_SIZE"
  shows "mmap_v2p s (MMAP_VIRTUAL_BASE_ADDRESS + p) = Some p"
  using assms mmap_virtual_to_physical_correct [OF mmap_inv_same_half [OF _ window_half(2) [OF assms(2)]], of s]
  by (simp add: direct_mapped_def mmap_v2p_def)

interpretation kernel_map: direct_map mmap_physical_to_virtual mmap_v2p direct_map_ok "2 ^ 22"
proof
  show "(2 ^ 22 :: nat) \<le> 2 ^ 24" by simp
next
  fix m :: "'a mmap_state_scheme" and f :: nat
  assume ok: "direct_map_ok m" and f: "f < 2 ^ 22"
  have u: "unat (frame_addr f) = f * 4096" by (rule unat_frame_addr) (use f in simp)
  have "f * 4096 < 2 ^ 22 * 4096" using f by simp
  then have s: "frame_addr f < MMAP_PHYSICAL_REGION_SIZE" unfolding word_less_nat_alt u by simp
  then have "mmap_physical_to_virtual m (frame_addr f) = Some (MMAP_VIRTUAL_BASE_ADDRESS + frame_addr f)"
    using ok by (simp add: mmap_physical_to_virtual_def direct_map_ok_def not_le)
  moreover have "mmap_v2p m (MMAP_VIRTUAL_BASE_ADDRESS + frame_addr f) = Some (frame_addr f)"
    using ok window_v2p [OF _ s, of m] by (simp add: direct_map_ok_def)
  moreover have "MMAP_VIRTUAL_BASE_ADDRESS + frame_addr f \<noteq> 0"
  proof
    assume "MMAP_VIRTUAL_BASE_ADDRESS + frame_addr f = 0"
    then have "unat MMAP_VIRTUAL_BASE_ADDRESS + unat (frame_addr f) = 0" using window_half(1) [OF s] unat_0 by metis
    then show False by simp
  qed
  ultimately show "\<exists>va. mmap_physical_to_virtual m (frame_addr f) = Some va \<and> va \<noteq> 0 \<and> mmap_v2p m va = Some (frame_addr f)"
    by blast
qed

end
