(* ===== verification/Address_Space.thy ===== *)
theory Address_Space
  imports Mmap
begin

text \<open>
  The tables of processes, \<open>kernel/process/address_space.c\<close>: their pages come from the page
  allocator. This is the second provider of \<open>page_source\<close>. Its contract depends on the direct
  map, so the kernel's own tables must not be among the pages it hands out; they are the
  protected pages of the interface.
\<close>

section \<open>Operations\<close>

abbreviation PAGE_ALLOC_ORDER_4KB :: nat where "PAGE_ALLOC_ORDER_4KB \<equiv> 0"

record kernel_state = mmap_state +
  page_frames :: page_allocator

text \<open>The page allocator on the translations of the memory map.\<close>

definition kernel_page_alloc_block :: "nat \<Rightarrow> ('a kernel_state_scheme, u64 option) prog" where
  "kernel_page_alloc_block order =
     (\<lambda>s. within page_frames page_frames_update
            (page_alloc_block (mmap_physical_to_virtual s) (mmap_v2p s) order) s)"

definition kernel_page_alloc_free :: "u64 \<Rightarrow> nat \<Rightarrow> ('a kernel_state_scheme, int) prog" where
  "kernel_page_alloc_free physical_start_address order =
     (\<lambda>s. within page_frames page_frames_update
            (page_alloc_free (mmap_physical_to_virtual s) (mmap_v2p s) physical_start_address order) s)"

definition address_space_alloc_vmap_page :: "('a kernel_state_scheme, u64) prog" where
  "address_space_alloc_vmap_page =
     attempt (kernel_page_alloc_block PAGE_ALLOC_ORDER_4KB) 0 (\<lambda>page.
     bnd (rd (\<lambda>s. mmap_physical_to_virtual s page)) (\<lambda>virtual_address.
     case virtual_address of
       None \<Rightarrow> ret 0
     | Some va \<Rightarrow> thn (clear_page va) (ret page)))"

definition address_space_init :: "'a kernel_state_scheme vmap" where
  "address_space_init = vmap_init address_space_alloc_vmap_page vmap_physical_to_virtual"

section \<open>The page allocator as a source of table pages\<close>

text \<open>The free frames, as the bitmap records them.\<close>

definition bitmap_free :: "page_allocator \<Rightarrow> nat set" where
  "bitmap_free a = {f. \<exists>order \<le> MAX_ORDER. \<exists>p < 2 ^ 24.
     page_bitmap a (of_nat p) = free_entry order \<and> f \<in> block order p}"

lemma bitmap_free_eq:
  assumes "page_alloc_inv p2v (2 ^ 22) a fl" shows "bitmap_free a = free_frames fl"
proof -
  have r: "page_alloc_rel p2v (2 ^ 22) a fl" using assms by (simp add: page_alloc_inv_def)
  have "p < 2 ^ 24" if "order \<le> MAX_ORDER" "p \<in> set (fl order)" for order p
    using page_alloc_relD(3) [OF r that] by simp
  then show ?thesis
    unfolding bitmap_free_def set_eq_iff mem_Collect_eq free_frames_iff
    using page_alloc_relD(5) [OF r] by blast
qed

definition pages_avail :: "'a kernel_state_scheme \<Rightarrow> u64 set" where
  "pages_avail s = frame_addr ` bitmap_free (page_frames s)"

definition kernel_tables :: "'a kernel_state_scheme \<Rightarrow> u64 set" where
  "kernel_tables s = table_pages (phys s) (g_ttbr1_table s)"

definition pages_ok :: "'a kernel_state_scheme \<Rightarrow> bool" where
  "pages_ok s \<longleftrightarrow> direct_map_ok s \<and>
     (\<exists>fl. page_alloc_inv (mmap_physical_to_virtual s) (2 ^ 22) (page_frames s) fl) \<and>
     0 \<notin> bitmap_free (page_frames s) \<and> pages_avail s \<inter> kernel_tables s = {}"

lemma frame_page_ok: "0 < f \<Longrightarrow> f < 2 ^ 22 \<Longrightarrow> page_ok (frame_addr f)"
proof -
  assume f: "0 < f" "f < 2 ^ 22"
  have u: "unat (frame_addr f) = f * 4096" by (rule unat_frame_addr) (use f in simp)
  moreover have "frame_addr f \<noteq> 0" using u f by auto
  moreover have "f * 4096 < 2 ^ 22 * 4096" using f by simp
  ultimately show ?thesis by (simp add: page_ok_iff)
qed

lemma free_frame_less: "page_alloc_inv p2v frames a fl \<Longrightarrow> f \<in> free_frames fl \<Longrightarrow> f < frames"
  unfolding free_frames_iff page_alloc_inv_def block_def
  using buddy_wfD(3) [of frames fl] by fastforce

lemma ttbr1_root [simp]: "get_ttbr_table MMAP_VIRTUAL_BASE_ADDRESS s = g_ttbr1_table s"
  by (simp add: get_ttbr_table_def)

lemma window_ttbr1:
  "p < MMAP_PHYSICAL_REGION_SIZE \<Longrightarrow> get_ttbr_table (MMAP_VIRTUAL_BASE_ADDRESS + p) s = g_ttbr1_table s"
  using get_ttbr_same_half [OF window_half(2), of p s] by simp

lemma direct_map_root:
  assumes ok: "direct_map_ok s" shows "g_ttbr1_table s \<noteq> NULL"
proof
  assume "g_ttbr1_table s = NULL"
  then have "mmap_translate s (MMAP_VIRTUAL_BASE_ADDRESS + 0) = None"
    by (simp add: mmap_translate_def mmap_vmap_def vtranslate_def translate_def)
  moreover have "mmap_translate s (MMAP_VIRTUAL_BASE_ADDRESS + 0) = Some 0"
  proof -
    have "(0 :: u64) < MMAP_PHYSICAL_REGION_SIZE" by simp
    then show ?thesis using ok unfolding direct_map_ok_def direct_mapped_def by blast
  qed
  ultimately show False by simp
qed

lemma direct_map_tables: "direct_map_ok s \<Longrightarrow> tables (phys s) (g_ttbr1_table s)"
  using direct_map_root [of s]
  by (simp add: direct_map_ok_def direct_mapped_def mmap_inv_def mmap_vmap_def vmap_inv_def)

text \<open>Writing outside the kernel's tables leaves the direct map intact.\<close>

lemma direct_map_outside:
  assumes ok: "direct_map_ok s"
    and same: "\<And>t n va. t \<in> kernel_tables s \<Longrightarrow> ph (slot t n va) = phys s (slot t n va)"
  shows "direct_map_ok (s\<lparr>phys := ph\<rparr>)" "kernel_tables (s\<lparr>phys := ph\<rparr>) = kernel_tables s"
proof -
  let ?s = "s\<lparr>phys := ph\<rparr>" and ?r = "g_ttbr1_table s"
  have dm: "direct_mapped s" and init: "g_mmap_initialized s" using ok by (simp_all add: direct_map_ok_def)
  have inv: "mmap_inv MMAP_VIRTUAL_BASE_ADDRESS s" using dm by (simp add: direct_mapped_def)
  have nn: "?r \<noteq> NULL" by (rule direct_map_root [OF ok])
  have tab: "tables (phys s) ?r" and dis: "table_pages (phys s) ?r \<inter> mmap_avail s = {}"
    using inv nn by (simp_all add: mmap_inv_def mmap_vmap_def vmap_inv_def)
  note out = tables_outside [OF tab, of ph, OF same [unfolded kernel_tables_def]]
  show "kernel_tables ?s = kernel_tables s" using out(2) by (simp add: kernel_tables_def)
  have av: "mmap_avail ?s = mmap_avail s" "mmap_pages_ok ?s = mmap_pages_ok s"
    by (simp_all add: mmap_avail_def mmap_pages_ok_def)
  have gt: "get_ttbr_table va ?s = get_ttbr_table va s" for va by (simp add: get_ttbr_table_def)
  have "mmap_inv MMAP_VIRTUAL_BASE_ADDRESS ?s"
    using inv nn out(1,2) dis av by (simp add: mmap_inv_def mmap_vmap_def vmap_inv_def gt)
  moreover have "mmap_translate ?s (MMAP_VIRTUAL_BASE_ADDRESS + p) = mmap_translate s (MMAP_VIRTUAL_BASE_ADDRESS + p)"
    if "p < MMAP_PHYSICAL_REGION_SIZE" for p
    using window_ttbr1 [OF that, of s] out(3) nn
    by (simp add: mmap_translate_def mmap_vmap_def vtranslate_def translate_def gt)
  ultimately show "direct_map_ok ?s" using dm init by (simp add: direct_map_ok_def direct_mapped_def)
qed


lemma kernel_tables_pages: "direct_map_ok s \<Longrightarrow> t \<in> kernel_tables s \<Longrightarrow> page_ok t"
proof -
  assume ok: "direct_map_ok s" and t: "t \<in> kernel_tables s"
  have "tables (phys s) (g_ttbr1_table s)" by (rule direct_map_tables [OF ok])
  then show "page_ok t" using t tablesD(1) by (auto simp: kernel_tables_def table_pages_def)
qed

lemma direct_map_ok_frames: "direct_map_ok (s\<lparr>page_frames := a\<rparr>) = direct_map_ok s"
proof -
  have "mmap_vmap va (s\<lparr>page_frames := a\<rparr>) = (mmap_vmap va s)" for va
    by (simp add: mmap_vmap_def get_ttbr_table_def)
  then show ?thesis
    by (simp add: direct_map_ok_def direct_mapped_def mmap_inv_def mmap_pages_ok_def vmap_inv_def
        mmap_avail_def mmap_translate_def vtranslate_def)
qed

lemma clear_direct_page:
  assumes "g_mmap_initialized s" "page_ok p"
  shows "clear_page (MMAP_VIRTUAL_BASE_ADDRESS + p) s = Inr ((), s\<lparr>phys := zero_page p (phys s)\<rparr>)"
  using assms pointer_target_direct [of s p] page_okD(3) [OF assms(2)] by (simp add: clear_page_def)

text \<open>
  Allocating a table page. It fails only when no frame is free at all; otherwise the page was
  free, and afterwards it is not.
\<close>

lemma kernel_page_alloc_cases:
  assumes ok: "pages_ok s"
  obtains "kernel_page_alloc_block 0 s = Inr (None, s)" "pages_avail s = {}"
  | x a where "kernel_page_alloc_block 0 s = Inr (Some x, s\<lparr>page_frames := a\<rparr>)"
      "x \<in> pages_avail s" "page_ok x" "frame_addr ` bitmap_free a = pages_avail s - {x}" "0 \<notin> bitmap_free a"
      "\<exists>fl. page_alloc_inv (mmap_physical_to_virtual s) (2 ^ 22) a fl"
proof -
  obtain fl where dm: "direct_map_ok s" and inv: "page_alloc_inv (mmap_physical_to_virtual s) (2 ^ 22) (page_frames s) fl"
    and z: "0 \<notin> bitmap_free (page_frames s)" using ok by (auto simp: pages_ok_def)
  note bf = bitmap_free_eq [OF inv]
  from kernel_map.page_alloc_block_correct [OF dm inv, of 0] show ?thesis
  proof (elim disjE conjE exE)
    assume n: "page_alloc_block (mmap_physical_to_virtual s) (mmap_v2p s) 0 (page_frames s) = Inr (None, page_frames s)"
      and e: "\<forall>c. 0 \<le> c \<and> c \<le> MAX_ORDER \<longrightarrow> fl c = []"
    have "free_frames fl = {}" using e by (simp add: free_frames_def)
    then have "pages_avail s = {}" using bf by (simp add: pages_avail_def)
    with n show ?thesis using that(1) by (simp add: kernel_page_alloc_block_def)
  next
    fix p a fl' assume al: "page_alloc_block (mmap_physical_to_virtual s) (mmap_v2p s) 0 (page_frames s) = Inr (Some (frame_addr p), a)"
      and inv': "page_alloc_inv (mmap_physical_to_virtual s) (2 ^ 22) a fl'"
      and fr: "block 0 p \<inter> free_frames fl' = {}" "free_frames fl = free_frames fl' \<union> block 0 p"
    have b: "block 0 p = {p}" by (auto simp: block_def)
    have p: "p \<in> free_frames fl" "0 < p" "p < 2 ^ 22"
      using fr b z bf free_frame_less [OF inv, of p] by (auto intro: Nat.gr0I)
    have px: "page_ok (frame_addr p)" by (rule frame_page_ok [OF p(2,3)])
    have run: "kernel_page_alloc_block 0 s = Inr (Some (frame_addr p), s\<lparr>page_frames := a\<rparr>)"
      using al by (simp add: kernel_page_alloc_block_def)
    have inj: "inj_on frame_addr (free_frames fl)"
    proof (rule inj_onI)
      fix f g assume "f \<in> free_frames fl" "g \<in> free_frames fl" "frame_addr f = frame_addr g"
      moreover from this have "f < 2 ^ 52" "g < 2 ^ 52"
        using free_frame_less [OF inv, of f] free_frame_less [OF inv, of g] by simp_all
      ultimately show "f = g" using frame_addr_inject by blast
    qed
    have "free_frames fl' = free_frames fl - {p}" using fr b by auto
    then have "frame_addr ` free_frames fl' = frame_addr ` free_frames fl - {frame_addr p}"
      using inj_on_image_set_diff [OF inj, of "free_frames fl" "{p}"] p(1) by simp
    then show ?thesis
      using that(2) [OF run] px inv' p z fr(2) unfolding pages_avail_def bf bitmap_free_eq [OF inv'] by auto
  qed
qed

lemma address_space_alloc_cases:
  assumes ok: "pages_ok s"
  obtains "address_space_alloc_vmap_page s = Inr (0, s)" "pages_avail s = {}"
  | x a where "address_space_alloc_vmap_page s = Inr (x, s\<lparr>page_frames := a, phys := zero_page x (phys s)\<rparr>)"
      "x \<in> pages_avail s" "page_ok x" "frame_addr ` bitmap_free a = pages_avail s - {x}" "0 \<notin> bitmap_free a"
      "\<exists>fl. page_alloc_inv (mmap_physical_to_virtual s) (2 ^ 22) a fl"
proof (rule kernel_page_alloc_cases [OF ok])
  assume "kernel_page_alloc_block 0 s = Inr (None, s)" "pages_avail s = {}"
  then show ?thesis using that(1) by (simp add: address_space_alloc_vmap_page_def)
next
  fix x a assume *: "kernel_page_alloc_block 0 s = Inr (Some x, s\<lparr>page_frames := a\<rparr>)"
    "x \<in> pages_avail s" "page_ok x" "frame_addr ` bitmap_free a = pages_avail s - {x}" "0 \<notin> bitmap_free a"
    "\<exists>fl. page_alloc_inv (mmap_physical_to_virtual s) (2 ^ 22) a fl"
  have init: "g_mmap_initialized s" using ok by (simp add: pages_ok_def direct_map_ok_def)
  have "\<not> MMAP_PHYSICAL_REGION_SIZE \<le> x" using *(3) by (simp add: page_ok_def not_le)
  then have "address_space_alloc_vmap_page s = Inr (x, s\<lparr>page_frames := a, phys := zero_page x (phys s)\<rparr>)"
    using *(1) init clear_direct_page [of "s\<lparr>page_frames := a\<rparr>", OF _ *(3)]
    by (simp add: address_space_alloc_vmap_page_def mmap_physical_to_virtual_def)
  from that(2) [OF this *(2-)] show ?thesis .
qed

interpretation process_pages: page_source address_space_alloc_vmap_page vmap_physical_to_virtual pages_avail
  kernel_tables pages_ok
proof
  fix s :: "'a kernel_state_scheme" assume ok: "pages_ok s"
  show "finite (pages_avail s) \<and> (\<forall>x \<in> pages_avail s. page_ok x) \<and> pages_avail s \<inter> kernel_tables s = {}"
  proof (intro conjI ballI)
    obtain fl where inv: "page_alloc_inv (mmap_physical_to_virtual s) (2 ^ 22) (page_frames s) fl"
      and z: "0 \<notin> bitmap_free (page_frames s)" using ok by (auto simp: pages_ok_def)
    fix x assume "x \<in> pages_avail s"
    then obtain f where x: "x = frame_addr f" and f: "f \<in> bitmap_free (page_frames s)" by (auto simp: pages_avail_def)
    then have "f < 2 ^ 22" "f \<noteq> 0" using free_frame_less [OF inv] z bitmap_free_eq [OF inv] by metis+
    then show "page_ok x" unfolding x by (intro frame_page_ok) simp_all
  qed (use ok in \<open>simp_all add: pages_ok_def\<close>)
next
  fix s :: "'a kernel_state_scheme" assume ok: "pages_ok s"
  show "\<exists>x s'. address_space_alloc_vmap_page s = Inr (x, s') \<and> pages_ok s' \<and>
      g_mmap_initialized s' = g_mmap_initialized s \<and> kernel_tables s' = kernel_tables s \<and>
      (x = NULL \<and> pages_avail s = {} \<and> pages_avail s' = {} \<and> phys s' = phys s \<or>
       x \<in> pages_avail s \<and> pages_avail s' = pages_avail s - {x} \<and> phys s' = zero_page x (phys s))"
  proof (rule address_space_alloc_cases [OF ok])
    assume "address_space_alloc_vmap_page s = Inr (0, s)" "pages_avail s = {}"
    with ok show ?thesis by simp
  next
    fix x a assume *: "address_space_alloc_vmap_page s = Inr (x, s\<lparr>page_frames := a, phys := zero_page x (phys s)\<rparr>)"
      "x \<in> pages_avail s" "page_ok x" "frame_addr ` bitmap_free a = pages_avail s - {x}" "0 \<notin> bitmap_free a"
      "\<exists>fl. page_alloc_inv (mmap_physical_to_virtual s) (2 ^ 22) a fl"
    let ?s1 = "s\<lparr>page_frames := a\<rparr>" let ?s' = "?s1\<lparr>phys := zero_page x (phys s)\<rparr>"
    have dm1: "direct_map_ok ?s1" and kt1: "kernel_tables ?s1 = kernel_tables s"
      using ok unfolding pages_ok_def by (simp_all add: direct_map_ok_frames kernel_tables_def)
    have sep: "zero_page x (phys s) (slot t n va) = phys ?s1 (slot t n va)" if "t \<in> kernel_tables ?s1" for t n va
    proof -
      have "t \<noteq> x" using that kt1 *(2) ok by (auto simp: pages_ok_def)
      moreover have "page_ok t" using kernel_tables_pages [OF dm1 that] .
      ultimately show ?thesis using zero_page_slot [OF *(3)] by simp
    qed
    note out = direct_map_outside [OF dm1 sep]
    have "mmap_physical_to_virtual ?s' = mmap_physical_to_virtual s"
      by (simp add: fun_eq_iff mmap_physical_to_virtual_def)
    then have "pages_ok ?s'" using out *(4-6) ok kt1
      by (auto simp: pages_ok_def pages_avail_def)
    with * out kt1 show ?thesis by (auto simp: pages_avail_def)
  qed
next
  fix s s' :: "'a kernel_state_scheme" and p i :: u64
  assume "g_mmap_initialized s' = g_mmap_initialized s" "page_ok p" "unat i < 4096"
  then show "pointer_target s' (vmap_physical_to_virtual s p + i) = Some (p + i)" by (rule mmap_reach)
next
  fix s s' :: "'a kernel_state_scheme" and t va w :: u64 and n
  assume ok: "pages_ok s" and t: "page_ok t" "t \<notin> kernel_tables s" and s': "s' = s\<lparr>phys := (phys s)(slot t n va := w)\<rparr>"
  have dm: "direct_map_ok s" using ok by (simp add: pages_ok_def)
  have sep: "((phys s)(slot t n va := w)) (slot u m w') = phys s (slot u m w')" if "u \<in> kernel_tables s" for u m w'
  proof -
    have "u \<noteq> t" "page_ok u" using that t(2) kernel_tables_pages [OF dm that] by auto
    then show ?thesis using slot_eq_iff [OF _ t(1)] by auto
  qed
  note out = direct_map_outside [OF dm sep, folded s']
  have "mmap_physical_to_virtual s' = mmap_physical_to_virtual s" "page_frames s' = page_frames s"
    by (simp_all add: s' fun_eq_iff mmap_physical_to_virtual_def)
  with out ok show "pages_ok s' \<and> pages_avail s' = pages_avail s \<and> kernel_tables s' = kernel_tables s"
    by (auto simp: pages_ok_def pages_avail_def)
qed

end
