(* ===== verification/Memory.thy ===== *)
theory Memory
  imports Address_Space
begin

text \<open>
  The properties of the memory managers, stated for the code's own providers, and the concrete
  states that show their hypotheses can hold: a machine before \<open>mmap_init\<close> has mapped anything,
  and the same machine with the direct map in place and one region of usable memory.
\<close>

section \<open>Sample states\<close>

definition sample_boot :: kernel_state where
  "sample_boot = \<lparr>phys = (\<lambda>_. 0), g_mmap_initialized = False, tcr_el1 = 0, ttbr0_el1 = 0, ttbr1_el1 = 0,
     g_ttbr0_table = 0, g_ttbr1_table = 0,
     g_page_table_allocator = \<lparr>memory_start = 0x40100000, memory_end = 0x40900000, allocated_size = 0,
       remaining_size = 0x800000\<rparr>,
     g_kernel_memory_map_allocator = \<lparr>memory_start = 0x40000000, memory_end = 0x40100000,
       allocated_size = 0, remaining_size = 0x100000\<rparr>,
     g_kernel_memory_map_count = 0, memory_map_entries = Map.empty,
     page_frames = \<lparr>free_lists = (\<lambda>_. 0), page_bitmap = (\<lambda>_. 0), free_pages = Map.empty\<rparr>\<rparr>"

definition sample_mapped :: kernel_state where
  "sample_mapped =
     (case mmap_map_range_l1_block MMAP_VIRTUAL_BASE_ADDRESS
             (MMAP_VIRTUAL_BASE_ADDRESS + MMAP_PHYSICAL_REGION_SIZE) 0 MMAP_PAGE_FLAGS sample_boot of
        Inl e \<Rightarrow> sample_boot | Inr (r, s) \<Rightarrow> s\<lparr>g_mmap_initialized := True\<rparr>)"

text \<open>One usable region of sixteen pages at \<open>0x50000000\<close>.\<close>

definition sample_memory_map :: "mmap_memory_descriptor list" where
  "sample_memory_map = [\<lparr>md_physical_start_address = 0x50000000, md_number_of_pages = 16,
     md_type = MMAP_MEMORY_TYPE_USABLE\<rparr>]"

definition sample_pages :: page_allocator where
  "sample_pages =
     (case page_alloc_init (mmap_physical_to_virtual sample_mapped) sample_memory_map (page_frames sample_mapped) of
        Inl e \<Rightarrow> page_frames sample_mapped | Inr (r, a) \<Rightarrow> a)"

definition sample_kernel :: kernel_state where
  "sample_kernel = sample_mapped\<lparr>page_frames := sample_pages\<rparr>"

lemma card_avail_ge:
  assumes s: "\<not> bump_allocator_invalid (g_page_table_allocator s)"
    "4096 dvd unat (memory_start (g_page_table_allocator s))" "allocated_size (g_page_table_allocator s) = 0"
    "unat (memory_start (g_page_table_allocator s)) + n * 4096 \<le> 2 ^ 34"
    "n * 4096 \<le> unat (remaining_size (g_page_table_allocator s))"
  shows "n \<le> card (mmap_avail s)"
proof -
  let ?m = "unat (memory_start (g_page_table_allocator s))"
  let ?f = "\<lambda>i. of_nat (?m + i * 4096) :: u64"
  have u: "unat (?f i) = ?m + i * 4096" if "i < n" for i
    by (rule unat_of_nat_64) (use s(4) that in simp)
  have "inj_on ?f {..<n}"
  proof (rule inj_onI)
    fix i j assume "i \<in> {..<n}" "j \<in> {..<n}" "?f i = ?f j"
    then have "?m + i * 4096 = ?m + j * 4096" using u by (metis lessThan_iff)
    then show "i = j" by simp
  qed
  moreover have "?f ` {..<n} \<subseteq> mmap_avail s"
    using s u by (auto simp: mmap_avail_def Let_def)
  ultimately have "card {..<n} \<le> card (mmap_avail s)" by (intro card_inj_on_le) auto
  then show ?thesis by simp
qed

lemma sample_boot_room: "2048 \<le> card (mmap_avail sample_boot)"
  by (rule card_avail_ge) (simp_all add: sample_boot_def bump_allocator_invalid_def)

lemma sample_boot_ready:
  "mmap_inv MMAP_VIRTUAL_BASE_ADDRESS sample_boot" "32 \<le> card (mmap_avail sample_boot)"
  "vacant (mmap_vmap MMAP_VIRTUAL_BASE_ADDRESS sample_boot) sample_boot n va"
  "vmap_pages (mmap_vmap MMAP_VIRTUAL_BASE_ADDRESS sample_boot) sample_boot = {}"
proof -
  show "32 \<le> card (mmap_avail sample_boot)" using sample_boot_room by simp
  show "mmap_inv MMAP_VIRTUAL_BASE_ADDRESS sample_boot"
    by (simp add: mmap_inv_def mmap_pages_ok_def vmap_inv_def mmap_vmap_def sample_boot_def)
  show "vacant (mmap_vmap MMAP_VIRTUAL_BASE_ADDRESS sample_boot) sample_boot n va"
    "vmap_pages (mmap_vmap MMAP_VIRTUAL_BASE_ADDRESS sample_boot) sample_boot = {}"
    by (simp_all add: vacant_def vmap_pages_def mmap_vmap_def sample_boot_def)
qed

lemma direct_mapped_init: "direct_mapped (s\<lparr>g_mmap_initialized := b\<rparr>) = direct_mapped s"
proof -
  have "get_ttbr_table va (s\<lparr>g_mmap_initialized := b\<rparr>) = get_ttbr_table va s" for va
    by (simp add: get_ttbr_table_def)
  then show ?thesis
    by (simp add: direct_mapped_def mmap_inv_def mmap_pages_ok_def mmap_vmap_def vmap_inv_def mmap_avail_def
        mmap_translate_def vtranslate_def)
qed

lemma sample_mapped_ok:
  "direct_map_ok sample_mapped" "kernel_tables sample_mapped \<subseteq> mmap_avail sample_boot"
  "mmap_translate sample_mapped 0xFFFF200009000000 = None"
  "2000 \<le> card (mmap_avail sample_mapped)"
proof -
  obtain s where s: "mmap_map_range_l1_block MMAP_VIRTUAL_BASE_ADDRESS
      (MMAP_VIRTUAL_BASE_ADDRESS + MMAP_PHYSICAL_REGION_SIZE) 0 MMAP_PAGE_FLAGS sample_boot = Inr (0, s)"
    "direct_mapped s" and m: "range_mapped 2 16 MMAP_VIRTUAL_BASE_ADDRESS 0 sample_boot s"
    using direct_map_established [OF sample_boot_ready(1,3,2)] by auto
  have pages: "vmap_pages (mmap_vmap MMAP_VIRTUAL_BASE_ADDRESS s) s \<subseteq> mmap_avail sample_boot"
    using m sample_boot_ready(4) by (simp add: range_mapped_def)
  have eq: "sample_mapped = s\<lparr>g_mmap_initialized := True\<rparr>" unfolding sample_mapped_def s(1) by simp
  show ok: "direct_map_ok sample_mapped" using s(2) by (simp add: eq direct_map_ok_def direct_mapped_init)
  have "g_ttbr1_table s \<noteq> NULL" using direct_map_root [OF ok] by (simp add: eq)
  then show "kernel_tables sample_mapped \<subseteq> mmap_avail sample_boot"
    using pages by (simp add: eq kernel_tables_def vmap_pages_def mmap_vmap_def)
  have "mmap_avail sample_mapped = mmap_avail s" by (simp add: eq mmap_avail_def)
  then show "2000 \<le> card (mmap_avail sample_mapped)" using m sample_boot_room by (simp add: range_mapped_def)
  have "unat (prefix 2 0xFFFF200009000000) = 0x8000"
    using unat_prefix [of 2 "0xFFFF200009000000"] by (simp add: region_size_def)
  moreover have "unat (prefix 2 (step_to 2 MMAP_VIRTUAL_BASE_ADDRESS i)) = 0x14000 + i" if "i < 16" for i
  proof -
    have "unat (step_to 2 MMAP_VIRTUAL_BASE_ADDRESS i) = unat MMAP_VIRTUAL_BASE_ADDRESS + i * 2 ^ 30"
      using unat_step_to [of MMAP_VIRTUAL_BASE_ADDRESS i 2] that by (simp add: region_size_def)
    moreover have "(17179688960 + i) mod 262144 = 81920 + i" 
      using mod_mult_self3 [of 65535 262144 "81920 + i"] that by simp
    ultimately show ?thesis
      using unat_prefix [of 2 "step_to 2 MMAP_VIRTUAL_BASE_ADDRESS i"] that by (simp add: region_size_def)
  qed
  ultimately have "\<forall>i < 16. prefix 2 0xFFFF200009000000 \<noteq> prefix 2 (step_to 2 MMAP_VIRTUAL_BASE_ADDRESS i)" by force
  then have "mmap_translate s 0xFFFF200009000000 = mmap_translate sample_boot 0xFFFF200009000000"
    using m by (simp add: range_mapped_def same_half_def)
  also have "\<dots> = None" by (simp add: mmap_translate_def mmap_vmap_def vtranslate_def translate_def sample_boot_def get_ttbr_table_def)
  finally show "mmap_translate sample_mapped 0xFFFF200009000000 = None"
    by (simp add: eq mmap_translate_def mmap_vmap_def vtranslate_def get_ttbr_table_def)
qed

text \<open>Nothing outside the direct map is mapped in the sample.\<close>

lemma sample_mapped_outside:
  assumes "0xFFFF000000000000 \<le> v" "unat (prefix 2 v) < 0x14000 \<or> 0x14010 \<le> unat (prefix 2 v)"
  shows "mmap_translate sample_mapped v = None"
proof -
  obtain s where s: "mmap_map_range_l1_block MMAP_VIRTUAL_BASE_ADDRESS
      (MMAP_VIRTUAL_BASE_ADDRESS + MMAP_PHYSICAL_REGION_SIZE) 0 MMAP_PAGE_FLAGS sample_boot = Inr (0, s)"
    and m: "range_mapped 2 16 MMAP_VIRTUAL_BASE_ADDRESS 0 sample_boot s"
    using direct_map_established [OF sample_boot_ready(1,3,2)] by auto
  have eq: "sample_mapped = s\<lparr>g_mmap_initialized := True\<rparr>" unfolding sample_mapped_def s(1) by simp
  have "prefix 2 v \<noteq> prefix 2 (step_to 2 MMAP_VIRTUAL_BASE_ADDRESS i)" if "i < 16" for i
  proof -
    have "unat (step_to 2 MMAP_VIRTUAL_BASE_ADDRESS i) = unat MMAP_VIRTUAL_BASE_ADDRESS + i * 2 ^ 30"
      using unat_step_to [of MMAP_VIRTUAL_BASE_ADDRESS i 2] that by (simp add: region_size_def)
    moreover have "(17179688960 + i) mod 262144 = 81920 + i" 
      using mod_mult_self3 [of 65535 262144 "81920 + i"] that by simp
    ultimately have "unat (prefix 2 (step_to 2 MMAP_VIRTUAL_BASE_ADDRESS i)) = 0x14000 + i"
      using unat_prefix [of 2 "step_to 2 MMAP_VIRTUAL_BASE_ADDRESS i"] that by (simp add: region_size_def)
    then show ?thesis using assms(2) that by auto
  qed
  then have "mmap_translate s v = mmap_translate sample_boot v"
    using m assms(1) by (simp add: range_mapped_def same_half_def)
  also have "\<dots> = None" by (simp add: mmap_translate_def mmap_vmap_def vtranslate_def translate_def sample_boot_def get_ttbr_table_def)
  finally show ?thesis by (simp add: eq mmap_translate_def mmap_vmap_def vtranslate_def get_ttbr_table_def split: if_splits)
qed

lemma sample_map_ok: "memory_map_ok (2 ^ 22) sample_memory_map"
  "(\<Union>d \<in> set sample_memory_map. usable_frames d) = {0x50000 ..< 0x50010}"
  by (simp_all add: sample_memory_map_def usable_frames_def)

lemma sample_pages_ok:
  "\<exists>fl. page_alloc_inv (mmap_physical_to_virtual sample_mapped) (2 ^ 22) sample_pages fl \<and>
     free_frames fl = {0x50000 ..< 0x50010}"
proof -
  obtain a fl where "page_alloc_init (mmap_physical_to_virtual sample_mapped) sample_memory_map
      (page_frames sample_mapped) = Inr (0, a)"
    "page_alloc_inv (mmap_physical_to_virtual sample_mapped) (2 ^ 22) a fl" "free_frames fl = {0x50000 ..< 0x50010}"
    using kernel_map.page_alloc_init_correct [OF sample_mapped_ok(1) sample_map_ok(1)] sample_map_ok(2) by metis
  then show ?thesis unfolding sample_pages_def by auto
qed

lemma sample_mapped_avail: "mmap_avail sample_mapped \<subseteq> mmap_avail sample_boot"
proof -
  obtain s where s: "mmap_map_range_l1_block MMAP_VIRTUAL_BASE_ADDRESS
      (MMAP_VIRTUAL_BASE_ADDRESS + MMAP_PHYSICAL_REGION_SIZE) 0 MMAP_PAGE_FLAGS sample_boot = Inr (0, s)"
    and m: "range_mapped 2 16 MMAP_VIRTUAL_BASE_ADDRESS 0 sample_boot s"
    using direct_map_established [OF sample_boot_ready(1,3,2)] by auto
  have eq: "sample_mapped = s\<lparr>g_mmap_initialized := True\<rparr>" unfolding sample_mapped_def s(1) by simp
  have "mmap_avail sample_mapped = mmap_avail s" by (simp add: eq mmap_avail_def)
  then show ?thesis using m by (simp add: range_mapped_def)
qed

lemma sample_kernel_separate: "pages_avail sample_kernel \<inter> mmap_avail sample_boot = {}"
proof -
  obtain fl where fl: "page_alloc_inv (mmap_physical_to_virtual sample_mapped) (2 ^ 22) sample_pages fl"
    "free_frames fl = {0x50000 ..< 0x50010}" using sample_pages_ok by blast
  have bf: "bitmap_free sample_pages = {0x50000 ..< 0x50010}" using bitmap_free_eq [OF fl(1)] fl(2) by simp
  have "unat (frame_addr f) = f * 4096" if "f \<in> {0x50000 ..< 0x50010}" for f
    by (rule unat_frame_addr) (use that in simp)
  then show ?thesis
    using bf by (auto simp: pages_avail_def sample_kernel_def mmap_avail_def sample_boot_def Let_def)
qed

lemma sample_kernel_ok: "pages_ok sample_kernel" "pages_avail sample_kernel \<noteq> {}"
proof -
  obtain fl where fl: "page_alloc_inv (mmap_physical_to_virtual sample_mapped) (2 ^ 22) sample_pages fl"
    "free_frames fl = {0x50000 ..< 0x50010}" using sample_pages_ok by blast
  have p2v: "mmap_physical_to_virtual sample_kernel = mmap_physical_to_virtual sample_mapped"
    by (simp add: sample_kernel_def fun_eq_iff mmap_physical_to_virtual_def)
  have bf: "bitmap_free sample_pages = {0x50000 ..< 0x50010}" using bitmap_free_eq [OF fl(1)] fl(2) by simp
  then show "pages_avail sample_kernel \<noteq> {}" by (simp add: pages_avail_def sample_kernel_def)
  have "pages_avail sample_kernel \<inter> mmap_avail sample_boot = {}" by (rule sample_kernel_separate)
  moreover have "kernel_tables sample_kernel \<subseteq> mmap_avail sample_boot"
    using sample_mapped_ok(2) by (simp add: sample_kernel_def kernel_tables_def)
  moreover have "direct_map_ok sample_kernel"
    using sample_mapped_ok(1) by (simp add: sample_kernel_def direct_map_ok_frames)
  ultimately show "pages_ok sample_kernel"
    using fl(1) bf p2v by (auto simp: pages_ok_def sample_kernel_def)
qed

section \<open>The kernel's memory map\<close>

text \<open>C3: building the direct map: from a state in which the kernel's half has no mapping at
  the window and 32 table pages are left, mapping the sixteen 1 GB blocks returns 0, and from then
  on the kernel's tables translate \<open>MMAP_VIRTUAL_BASE_ADDRESS + p\<close> to \<open>p\<close> for all of the 16 GB.\<close>

theorem direct_map_built:
  assumes "mmap_inv MMAP_VIRTUAL_BASE_ADDRESS s" "32 \<le> card (mmap_avail s)"
    and "\<And>i. i < 16 \<Longrightarrow> vacant (mmap_vmap MMAP_VIRTUAL_BASE_ADDRESS s) s 2 (step_to 2 MMAP_VIRTUAL_BASE_ADDRESS i)"
  shows "\<exists>s'. mmap_map_range_l1_block MMAP_VIRTUAL_BASE_ADDRESS
      (MMAP_VIRTUAL_BASE_ADDRESS + MMAP_PHYSICAL_REGION_SIZE) 0 MMAP_PAGE_FLAGS s = Inr (0, s') \<and>
    (\<forall>p < MMAP_PHYSICAL_REGION_SIZE.
       mmap_virtual_to_physical (MMAP_VIRTUAL_BASE_ADDRESS + p) s' = Inr (Some p, s'))"
proof -
  obtain s' where s': "mmap_map_range_l1_block MMAP_VIRTUAL_BASE_ADDRESS
      (MMAP_VIRTUAL_BASE_ADDRESS + MMAP_PHYSICAL_REGION_SIZE) 0 MMAP_PAGE_FLAGS s = Inr (0, s')" "direct_mapped s'"
    using direct_map_established [OF assms(1,3,2)] by blast
  have "mmap_virtual_to_physical (MMAP_VIRTUAL_BASE_ADDRESS + p) s' = Inr (Some p, s')"
    if "p < MMAP_PHYSICAL_REGION_SIZE" for p
    using that s'(2) mmap_virtual_to_physical_correct [OF mmap_inv_same_half [OF _ window_half(2) [OF that]], of s']
    by (simp add: direct_mapped_def)
  with s'(1) show ?thesis by blast
qed

theorem direct_map_built_witness:
  "\<exists>s'. mmap_map_range_l1_block MMAP_VIRTUAL_BASE_ADDRESS
      (MMAP_VIRTUAL_BASE_ADDRESS + MMAP_PHYSICAL_REGION_SIZE) 0 MMAP_PAGE_FLAGS sample_boot = Inr (0, s') \<and>
    (\<forall>p < MMAP_PHYSICAL_REGION_SIZE.
       mmap_virtual_to_physical (MMAP_VIRTUAL_BASE_ADDRESS + p) s' = Inr (Some p, s'))"
  by (rule direct_map_built [OF sample_boot_ready(1,2,3)])

text \<open>C6: the software walk agrees with the translation hardware. After \<open>mmap_apply_mappings\<close> has
  programmed TCR_EL1, TTBR0_EL1 and TTBR1_EL1, \<open>mmap_virtual_to_physical\<close> returns for every
  canonical address what the MMU translates it to, and -1 (\<open>None\<close>) exactly where the MMU faults.
  The hypotheses: the tables of that half are a tree that is not handed out again (\<open>mmap_inv\<close>),
  the half has a root, and every descriptor is of a kind the hardware accepts (\<open>proper\<close>), which
  all mapping operations preserve.\<close>

theorem mmap_walk_correct:
  assumes "mmap_inv va s" "proper (mmap_vmap va s) s" "get_ttbr_table va s \<noteq> NULL"
    and "va < 0x0001000000000000 \<or> 0xFFFF000000000000 \<le> va"
  shows "\<exists>s'. mmap_apply_mappings s = Inr (0, s') \<and> phys s' = phys s \<and>
    mmap_virtual_to_physical va s' = Inr (mmu_translate s' va, s')"
proof -
  obtain s' where run: "mmap_apply_mappings s = Inr (0, s')" and ph: "phys s' = phys s"
    and same: "mmap_inv va s' = mmap_inv va s" "mmap_translate s' va = mmap_translate s va"
    by (rule that [OF mmap_apply_mappings_result])
       (simp_all add: mmap_inv_def mmap_pages_ok_def vmap_inv_def mmap_vmap_def mmap_avail_def mmap_translate_def
          vtranslate_def get_ttbr_table_def)
  moreover have "mmap_virtual_to_physical va s' = Inr (mmap_translate s' va, s')"
    using mmap_virtual_to_physical_correct same(1) assms(1) by blast
  ultimately show ?thesis using mmu_agrees [OF assms run] by auto
qed

lemma sample_mapped_proper: "proper (mmap_vmap MMAP_VIRTUAL_BASE_ADDRESS sample_mapped) sample_mapped"
proof -
  obtain s where s: "mmap_map_range_l1_block MMAP_VIRTUAL_BASE_ADDRESS
      (MMAP_VIRTUAL_BASE_ADDRESS + MMAP_PHYSICAL_REGION_SIZE) 0 MMAP_PAGE_FLAGS sample_boot = Inr (0, s)"
    and m: "range_mapped 2 16 MMAP_VIRTUAL_BASE_ADDRESS 0 sample_boot s"
    using direct_map_established [OF sample_boot_ready(1,3,2)] by auto
  have "proper (mmap_vmap MMAP_VIRTUAL_BASE_ADDRESS sample_boot) sample_boot"
    by (simp add: proper_def mmap_vmap_def sample_boot_def get_ttbr_table_def)
  then have "proper (mmap_vmap MMAP_VIRTUAL_BASE_ADDRESS s) s" using m by (simp add: range_mapped_def)
  then show ?thesis unfolding sample_mapped_def s by (simp add: proper_def mmap_vmap_def get_ttbr_table_def)
qed

text \<open>With the direct map in place, the MMU translates the address of a frame of usable memory to it.\<close>

theorem mmap_walk_correct_witness:
  "\<exists>s'. mmap_apply_mappings sample_mapped = Inr (0, s') \<and>
     mmap_virtual_to_physical (MMAP_VIRTUAL_BASE_ADDRESS + 0x50001234) s' = Inr (Some 0x50001234, s') \<and>
     mmu_translate s' (MMAP_VIRTUAL_BASE_ADDRESS + 0x50001234) = Some 0x50001234 \<and>
     mmu_translate s' 0xFFFF200009000000 = None"
proof -
  let ?va = "MMAP_VIRTUAL_BASE_ADDRESS + 0x50001234 :: u64"
  have p: "(0x50001234 :: u64) < MMAP_PHYSICAL_REGION_SIZE" by simp
  have dm: "direct_mapped sample_mapped" using sample_mapped_ok(1) by (simp add: direct_map_ok_def)
  have half: "same_half MMAP_VIRTUAL_BASE_ADDRESS ?va" by (rule window_half(2) [OF p])
  note sroot = get_ttbr_same_half [OF half, of sample_mapped]
  have inv: "mmap_inv ?va sample_mapped"
    by (rule mmap_inv_same_half [OF _ half]) (use dm in \<open>simp add: direct_mapped_def\<close>)
  have root: "get_ttbr_table ?va sample_mapped \<noteq> NULL"
    using direct_map_root [OF sample_mapped_ok(1)] by (simp add: get_ttbr_table_def)
  have pr: "proper (mmap_vmap ?va sample_mapped) sample_mapped"
    using sample_mapped_proper sroot by (simp add: mmap_vmap_def)
  have tr: "mmap_translate sample_mapped ?va = Some 0x50001234" using dm p unfolding direct_mapped_def by blast
  have can: "?va < 0x0001000000000000 \<or> 0xFFFF000000000000 \<le> ?va" by simp
  obtain s' where run: "mmap_apply_mappings sample_mapped = Inr (0, s')"
    and eq: "mmap_virtual_to_physical ?va s' = Inr (mmu_translate s' ?va, s')"
    using mmap_walk_correct [OF inv pr root can] by blast
  have "mmu_translate s' ?va = Some 0x50001234" using mmu_agrees [OF inv pr root can run] tr by simp
  moreover have "mmu_translate s' 0xFFFF200009000000 = None"
  proof -
    have h: "same_half MMAP_VIRTUAL_BASE_ADDRESS 0xFFFF200009000000" by (simp add: same_half_def)
    have "mmap_inv 0xFFFF200009000000 sample_mapped"
      by (rule mmap_inv_same_half [OF _ h]) (use dm in \<open>simp add: direct_mapped_def\<close>)
    moreover have "proper (mmap_vmap 0xFFFF200009000000 sample_mapped) sample_mapped"
      using sample_mapped_proper get_ttbr_same_half [OF h, of sample_mapped] by (simp add: mmap_vmap_def)
    moreover have "get_ttbr_table 0xFFFF200009000000 sample_mapped \<noteq> NULL"
      using direct_map_root [OF sample_mapped_ok(1)] by (simp add: get_ttbr_table_def)
    ultimately show ?thesis using mmu_agrees [OF _ _ _ _ run, of "0xFFFF200009000000"] sample_mapped_ok(3) by simp
  qed
  ultimately show ?thesis using run eq by auto
qed

lemma sample_mapped_window:
  "mmap_inv MMAP_VIRTUAL_BASE_ADDRESS sample_mapped"
  "get_ttbr_table 0xFFFF200009000000 sample_mapped \<noteq> NULL"
  "mmap_inv 0xFFFF200009000000 sample_mapped"
proof -
  show inv: "mmap_inv MMAP_VIRTUAL_BASE_ADDRESS sample_mapped"
    using sample_mapped_ok(1) by (simp add: direct_map_ok_def direct_mapped_def)
  show "get_ttbr_table 0xFFFF200009000000 sample_mapped \<noteq> NULL"
    using direct_map_root [OF sample_mapped_ok(1)] by (simp add: get_ttbr_table_def)
  show "mmap_inv 0xFFFF200009000000 sample_mapped"
    by (rule mmap_inv_same_half [OF inv]) (simp add: same_half_def)
qed

lemma low_bits_add:
  fixes a :: u64
  assumes "4096 dvd unat a" "unat a + unat p < 2 ^ 64" shows "(a + p) AND mask 12 = p AND mask 12"
proof -
  have "unat (a + p) = unat a + unat p" using assms(2) by (intro unat_add_no_wrap) simp
  then show ?thesis unfolding word_unat_eq_iff unat_and_mask
    using assms(1) by (simp add: mod_add_eq [symmetric] dvd_imp_mod_0)
qed

lemma target_0_offset:
  fixes a p :: u64
  assumes "4096 dvd unat a" "unat a + unat p < 2 ^ 64" "unat p < 2 ^ 48"
  shows "target 0 p (a + p) = p"
proof -
  have t: "p = take_bit 48 p"
    using assms(3) by (simp add: word_unat_eq_iff unsigned_take_bit_eq take_bit_nat_eq_self)
  have hi: "bit p k \<Longrightarrow> \<not> k < 12 \<Longrightarrow> bit TBL_ENTRY_ADDR_MASK k" for k
    unfolding bit_addr_mask using t by (metis bit_take_bit_iff not_le)
  have "p AND TBL_ENTRY_ADDR_MASK AND NOT (mask 12) = p AND NOT (mask 12)"
  proof (rule bit_word_eqI)
    fix k assume "k < LENGTH(64)"
    then show "bit (p AND TBL_ENTRY_ADDR_MASK AND NOT (mask 12)) k = bit (p AND NOT (mask 12)) k"
      using hi [of k] unfolding bit_and_iff bit_not_iff bit_mask_iff by (cases "k < 12") (simp, auto)
  qed
  moreover have "(p AND NOT (mask 12)) OR (p AND mask 12) = p"
    by (rule bit_word_eqI) (auto simp: bit_or_iff bit_and_iff bit_not_iff)
  ultimately show ?thesis using low_bits_add [OF assms(1,2)] unfolding target_def by simp
qed

lemma MMIO_PAGE_FLAGS_ok: "MMIO_PAGE_FLAGS AND TBL_ENTRY_ADDR_MASK = 0"
  by (simp add: MMIO_PAGE_FLAGS_def page_flag_defs)

text \<open>C5: mapping a device page: when the device's address in the MMIO window is not
  mapped yet and four table pages are left, \<open>mmio_map_page\<close> returns 0 with the address in the
  window; the kernel's tables then translate it to the device's physical address, and translate
  every address of another page of the kernel's half as before.\<close>

theorem mmio_map_page_correct:
  assumes inv: "mmap_inv (MMIO_BASE_ADDRESS + pa) s" and root: "g_ttbr1_table s \<noteq> NULL"
    and free: "mmap_virtual_to_physical (MMIO_BASE_ADDRESS + pa) s = Inr (None, s)"
    and room: "4 \<le> card (mmap_avail s)" and pa: "pa < 0x200000000000"
  shows "\<exists>s'. mmio_map_page pa s = Inr ((0, MMIO_BASE_ADDRESS + pa), s') \<and>
    mmap_virtual_to_physical (MMIO_BASE_ADDRESS + pa) s' = Inr (Some pa, s') \<and>
    (\<forall>va. 0xFFFF000000000000 \<le> va \<and> prefix 0 va \<noteq> prefix 0 (MMIO_BASE_ADDRESS + pa) \<longrightarrow>
       (\<exists>r. mmap_virtual_to_physical va s = Inr (r, s) \<and> mmap_virtual_to_physical va s' = Inr (r, s')))"
proof -
  let ?va = "MMIO_BASE_ADDRESS + pa"
  have up: "unat pa < 0x200000000000" using pa by (simp add: word_less_nat_alt)
  then have uva: "unat ?va = unat MMIO_BASE_ADDRESS + unat pa" by (intro unat_add_no_wrap) simp
  have half: "0xFFFF000000000000 \<le> ?va" unfolding word_le_nat_alt uva by simp
  have "mmap_translate s ?va = None" using free mmap_virtual_to_physical_correct [OF inv] by simp
  then have nb: "no_block (mmap_vmap ?va s) s ?va" by (intro unmapped_no_block) (simp add: mmap_translate_def)
  obtain s' where run: "mmap_map_page pa ?va MMIO_PAGE_FLAGS s = Inr (0, s')" and inv': "mmap_inv ?va s'"
    and tr: "\<And>va'. same_half ?va va' \<Longrightarrow> mmap_translate s' va' =
         (if prefix 0 va' = prefix 0 ?va then Some (target 0 pa va') else mmap_translate s va')"
    using mmap_map_page_result [OF inv _ nb MMIO_PAGE_FLAGS_ok, of pa] root half room
    by (auto simp: get_ttbr_table_def)
  have "target 0 pa ?va = pa" by (rule target_0_offset) (use up in simp_all)
  then have "mmap_virtual_to_physical ?va s' = Inr (Some pa, s')"
    using mmap_virtual_to_physical_correct [OF inv'] tr [of ?va] by (simp add: same_half_def)
  moreover have "mmap_virtual_to_physical va s = Inr (mmap_translate s va, s) \<and>
      mmap_virtual_to_physical va s' = Inr (mmap_translate s va, s')"
    if va: "0xFFFF000000000000 \<le> va" "prefix 0 va \<noteq> prefix 0 ?va" for va
  proof -
    have sh: "same_half ?va va" using va(1) half by (simp add: same_half_def)
    show ?thesis
      using mmap_virtual_to_physical_correct [OF mmap_inv_same_half [OF inv sh]]
        mmap_virtual_to_physical_correct [OF mmap_inv_same_half [OF inv' sh]] tr [OF sh] va(2) by simp
  qed
  moreover have "mmio_map_page pa s = Inr ((0, ?va), s')" using run by (simp add: mmio_map_page_def Let_def)
  ultimately show ?thesis by blast
qed

theorem mmio_map_page_correct_witness:
  "\<exists>s'. mmio_map_page 0x9000000 sample_mapped = Inr ((0, 0xFFFF200009000000), s') \<and>
    mmap_virtual_to_physical 0xFFFF200009000000 s' = Inr (Some 0x9000000, s')"
proof -
  have "mmap_virtual_to_physical 0xFFFF200009000000 sample_mapped = Inr (None, sample_mapped)"
    using mmap_virtual_to_physical_correct [OF sample_mapped_window(3)] sample_mapped_ok(3) by simp
  moreover have "g_ttbr1_table sample_mapped \<noteq> NULL" using sample_mapped_window(2) by (simp add: get_ttbr_table_def)
  ultimately show ?thesis
    using mmio_map_page_correct [of "0x9000000" sample_mapped] sample_mapped_window(3) sample_mapped_ok(4) by auto
qed

section \<open>Page frames\<close>

text \<open>C2: \<open>page_alloc_init\<close> on a memory map whose usable regions are page aligned, lie in
  the direct map and do not overlap succeeds, and afterwards exactly the usable frames are free.\<close>

theorem page_alloc_init_frees_usable:
  assumes "direct_map_ok m" "memory_map_ok (2 ^ 22) memory_map"
  shows "\<exists>a' fl. page_alloc_init (mmap_physical_to_virtual m) memory_map a = Inr (0, a') \<and>
     page_alloc_inv (mmap_physical_to_virtual m) (2 ^ 22) a' fl \<and>
     free_frames fl = (\<Union>d \<in> set memory_map. usable_frames d)"
  by (rule kernel_map.page_alloc_init_correct [OF assms])

theorem page_alloc_init_frees_usable_witness:
  "\<exists>a' fl. page_alloc_init (mmap_physical_to_virtual sample_mapped) sample_memory_map (page_frames sample_mapped) = Inr (0, a') \<and>
     page_alloc_inv (mmap_physical_to_virtual sample_mapped) (2 ^ 22) a' fl \<and> free_frames fl = {0x50000 ..< 0x50010}"
  using page_alloc_init_frees_usable [OF sample_mapped_ok(1) sample_map_ok(1)] sample_map_ok(2) by metis

text \<open>C1: \<open>page_alloc_block\<close> never faults. It fails, changing nothing, only if no block of
  the order or above is free. Otherwise it returns an aligned block inside physical memory all of
  whose frames were free, and afterwards exactly the other free frames are free, so no frame is
  handed out twice or lost.\<close>

theorem page_alloc_block_safe:
  assumes "direct_map_ok m" "page_alloc_inv (mmap_physical_to_virtual m) (2 ^ 22) a fl"
  shows "(page_alloc_block (mmap_physical_to_virtual m) (mmap_v2p m) order a = Inr (None, a) \<and>
            (\<forall>c. order \<le> c \<and> c \<le> MAX_ORDER \<longrightarrow> fl c = [])) \<or>
         (\<exists>p a' fl'. page_alloc_block (mmap_physical_to_virtual m) (mmap_v2p m) order a = Inr (Some (frame_addr p), a') \<and>
            page_alloc_inv (mmap_physical_to_virtual m) (2 ^ 22) a' fl' \<and> 2 ^ order dvd p \<and> p + 2 ^ order \<le> 2 ^ 22 \<and>
            block order p \<inter> free_frames fl' = {} \<and> free_frames fl = free_frames fl' \<union> block order p)"
  by (rule kernel_map.page_alloc_block_correct [OF assms])

theorem page_alloc_block_safe_witness:
  "\<exists>p a' fl'. page_alloc_block (mmap_physical_to_virtual sample_mapped) (mmap_v2p sample_mapped) 0 sample_pages =
       Inr (Some (frame_addr p), a') \<and> page_alloc_inv (mmap_physical_to_virtual sample_mapped) (2 ^ 22) a' fl' \<and>
     p \<in> {0x50000 ..< 0x50010} \<and> free_frames fl' = {0x50000 ..< 0x50010} - {p}"
proof -
  obtain fl where fl: "page_alloc_inv (mmap_physical_to_virtual sample_mapped) (2 ^ 22) sample_pages fl"
    "free_frames fl = {0x50000 ..< 0x50010}" using sample_pages_ok by blast
  have b: "block 0 p = {p}" for p by (auto simp: block_def)
  have "0x50000 \<in> free_frames fl" using fl(2) by simp
  then have "\<not> (\<forall>c. 0 \<le> c \<and> c \<le> MAX_ORDER \<longrightarrow> fl c = [])" by (auto simp: free_frames_iff)
  then obtain p a' fl' where "page_alloc_block (mmap_physical_to_virtual sample_mapped) (mmap_v2p sample_mapped) 0 sample_pages =
       Inr (Some (frame_addr p), a')" "page_alloc_inv (mmap_physical_to_virtual sample_mapped) (2 ^ 22) a' fl'"
     "{p} \<inter> free_frames fl' = {}" "free_frames fl = free_frames fl' \<union> {p}"
    using page_alloc_block_safe [OF sample_mapped_ok(1) fl(1), of 0] unfolding b by blast
  then show ?thesis using fl(2) by (intro exI [of _ p] exI [of _ a'] exI [of _ fl']) auto
qed

text \<open>C7: \<open>page_alloc_free\<close> of a block whose buddy is not a free block of the same order
  returns 0, and afterwards the frames of the block, and no others, have become free.\<close>

theorem page_alloc_free_returns_block:
  assumes "direct_map_ok m" "page_alloc_inv (mmap_physical_to_virtual m) (2 ^ 22) a fl" "order \<le> MAX_ORDER"
    and "buddy_apart (2 ^ 22) fl order p" "order < MAX_ORDER \<Longrightarrow> buddy_of p order \<notin> set (fl order)"
  shows "\<exists>a' fl'. page_alloc_free (mmap_physical_to_virtual m) (mmap_v2p m) (frame_addr p) order a = Inr (0, a') \<and>
     page_alloc_inv (mmap_physical_to_virtual m) (2 ^ 22) a' fl' \<and> free_frames fl' = free_frames fl \<union> block order p"
  by (rule kernel_map.page_alloc_free_no_merge [OF assms])

theorem page_alloc_free_returns_block_witness:
  "\<exists>a' fl'. page_alloc_free (mmap_physical_to_virtual sample_mapped) (mmap_v2p sample_mapped) (frame_addr 0x60000) 0 sample_pages = Inr (0, a') \<and>
     page_alloc_inv (mmap_physical_to_virtual sample_mapped) (2 ^ 22) a' fl' \<and>
     free_frames fl' = {0x50000 ..< 0x50010} \<union> {0x60000}"
proof -
  obtain fl where fl: "page_alloc_inv (mmap_physical_to_virtual sample_mapped) (2 ^ 22) sample_pages fl"
    "free_frames fl = {0x50000 ..< 0x50010}" using sample_pages_ok by blast
  have b: "block 0 p = {p}" for p by (auto simp: block_def)
  have "buddy_apart (2 ^ 22) fl 0 0x60000" using fl(2) b [of "0x60000"] by (simp add: buddy_apart_def)
  moreover have "buddy_of 0x60000 0 = 0x60001" by (simp add: buddy_of_def)
  moreover have "0x60001 \<notin> set (fl 0)" using free_frames_head [of 0 "0x60001" fl] fl(2) by auto
  ultimately show ?thesis
    using page_alloc_free_returns_block [OF sample_mapped_ok(1) fl(1), of 0 "0x60000"] fl(2) b by simp
qed

text \<open>C8: \<open>page_alloc_free\<close> does not return when it has to merge and the buddy is not the
  second block on the free list of the order: the loop that looks for the buddy never moves on.\<close>

theorem page_alloc_free_hangs:
  assumes "direct_map_ok m" "page_alloc_inv (mmap_physical_to_virtual m) (2 ^ 22) a fl" "order < MAX_ORDER"
    and "p < 2 ^ 22" "buddy_of p order \<in> set (fl order)" "fl order = f # g # fs" "g \<noteq> buddy_of p order"
  shows "page_alloc_free (mmap_physical_to_virtual m) (mmap_v2p m) (frame_addr p) order a = Inl No_Return"
proof -
  have "page_alloc_rel (mmap_physical_to_virtual m) (2 ^ 22) a fl" using assms(2) by (simp add: page_alloc_inv_def)
  then show ?thesis
    using kernel_map.page_alloc_free_merge_fails(2) [of m a fl p order, OF assms(1) _ _ assms(3,5,6,7)] assms(4) by simp
qed

definition sample_two_blocks :: page_allocator where
  "sample_two_blocks =
     (case page_alloc_init (mmap_physical_to_virtual sample_mapped)
        [\<lparr>md_physical_start_address = 0x50001000, md_number_of_pages = 1, md_type = MMAP_MEMORY_TYPE_USABLE\<rparr>,
         \<lparr>md_physical_start_address = 0x50003000, md_number_of_pages = 1, md_type = MMAP_MEMORY_TYPE_USABLE\<rparr>]
        (page_frames sample_mapped) of
        Inl e \<Rightarrow> page_frames sample_mapped | Inr (r, a) \<Rightarrow> a)"

lemma sample_two_blocks_ok:
  "\<exists>fl. page_alloc_inv (mmap_physical_to_virtual sample_mapped) (2 ^ 22) sample_two_blocks fl \<and>
     (fl 0 = [0x50001, 0x50003] \<or> fl 0 = [0x50003, 0x50001])"
proof -
  let ?map = "[\<lparr>md_physical_start_address = 0x50001000, md_number_of_pages = 1, md_type = MMAP_MEMORY_TYPE_USABLE\<rparr>,
         \<lparr>md_physical_start_address = 0x50003000, md_number_of_pages = 1, md_type = MMAP_MEMORY_TYPE_USABLE\<rparr>]"
  have frames: "(\<Union>d \<in> set ?map. usable_frames d) = {0x50001, 0x50003}"
    by (auto simp: usable_frames_def)
  have "memory_map_ok (2 ^ 22) ?map" by (simp add: usable_frames_def)
  then obtain a fl where a: "page_alloc_init (mmap_physical_to_virtual sample_mapped) ?map (page_frames sample_mapped) = Inr (0, a)"
    and inv: "page_alloc_inv (mmap_physical_to_virtual sample_mapped) (2 ^ 22) a fl" and ff: "free_frames fl = {0x50001, 0x50003}"
    using kernel_map.page_alloc_init_correct [OF sample_mapped_ok(1), of ?map] frames by metis
  have wf: "buddy_wf (2 ^ 22) fl" using inv by (simp add: page_alloc_inv_def)
  have none: "fl c = []" if "0 < c" "c \<le> MAX_ORDER" for c
  proof (rule ccontr)
    assume "fl c \<noteq> []"
    then obtain p where p: "p \<in> set (fl c)" by (meson list.set_sel(1))
    have "2 \<le> (2::nat) ^ c" using that(1) self_le_power [of 2 c] by simp
    then have "p \<in> block c p" "Suc p \<in> block c p" by (simp_all add: block_def)
    then have "p \<in> {0x50001, 0x50003}" "Suc p \<in> {0x50001, 0x50003}"
      using p that(2) ff free_frames_iff by blast+
    then show False by auto
  qed
  have "set (fl 0) = {0x50001, 0x50003}"
  proof -
    have "free_frames fl = (\<Union>c \<in> {..MAX_ORDER}. \<Union>p \<in> set (fl c). block c p)" by (simp add: free_frames_def)
    also have "\<dots> = (\<Union>p \<in> set (fl 0). block 0 p)" 
    proof (intro equalityI subsetI)
      fix x assume "x \<in> (\<Union>c \<in> {..MAX_ORDER}. \<Union>p \<in> set (fl c). block c p)"
      then obtain c p where c: "c \<le> MAX_ORDER" "p \<in> set (fl c)" "x \<in> block c p" by blast
      then have "c = 0" using none [of c] by (metis empty_iff gr0I list.set(1))
      then show "x \<in> (\<Union>p \<in> set (fl 0). block 0 p)" using c by blast
    qed auto
    finally show ?thesis using ff by (auto simp: block_def)
  qed
  moreover have "distinct (fl 0)" using buddy_wfD(2) [OF wf, of 0] by simp
  ultimately have "fl 0 = [0x50001, 0x50003] \<or> fl 0 = [0x50003, 0x50001]"
  proof -
    have l: "length (fl 0) = 2" using \<open>distinct (fl 0)\<close> \<open>set (fl 0) = _\<close> distinct_card [of "fl 0"] by simp
    then obtain x y where "fl 0 = [x, y]" by (auto simp: numeral_2_eq_2 length_Suc_conv)
    with \<open>set (fl 0) = _\<close> \<open>distinct (fl 0)\<close> show ?thesis by (auto simp: doubleton_eq_iff)
  qed
  moreover have "sample_two_blocks = a" using a by (simp add: sample_two_blocks_def)
  ultimately show ?thesis using inv by blast
qed

theorem page_alloc_free_hangs_witness:
  "\<exists>p. page_alloc_free (mmap_physical_to_virtual sample_mapped) (mmap_v2p sample_mapped) (frame_addr p) 0
     sample_two_blocks = Inl No_Return"
proof -
  obtain fl where fl: "page_alloc_inv (mmap_physical_to_virtual sample_mapped) (2 ^ 22) sample_two_blocks fl"
    "fl 0 = [0x50001, 0x50003] \<or> fl 0 = [0x50003, 0x50001]" using sample_two_blocks_ok by blast
  note hang = page_alloc_free_hangs [OF sample_mapped_ok(1) fl(1), of 0]
  from fl(2) show ?thesis
  proof
    assume "fl 0 = [0x50001, 0x50003]"
    then show ?thesis using hang [of "0x50000"] by (intro exI [of _ "0x50000"]) (simp add: buddy_of_def)
  next
    assume "fl 0 = [0x50003, 0x50001]"
    then show ?thesis using hang [of "0x50002"] by (intro exI [of _ "0x50002"]) (simp add: buddy_of_def)
  qed
qed

section \<open>Process tables\<close>

text \<open>C4: mapping a page into a process: with four free frames, \<open>vmap_map_page\<close> on the
  process's tables returns 0, the process's tables translate the page to its frame and every
  other address as before, and the direct map and the page allocator stay intact.\<close>

theorem process_map_page:
  assumes s: "pages_ok s" and v: "alloc_page v = address_space_alloc_vmap_page" "physical_to_virtual v = vmap_physical_to_virtual"
    and inv: "vmap_inv pages_avail kernel_tables v s" and nb: "no_block v s va"
    and fl: "page_flags AND TBL_ENTRY_ADDR_MASK = 0" and room: "4 \<le> card (pages_avail s)"
  shows "\<exists>v' s'. vmap_map_page v pa va page_flags s = Inr ((0, v'), s') \<and> pages_ok s' \<and>
     vmap_inv pages_avail kernel_tables v' s' \<and>
     (\<forall>va'. vtranslate v' s' va' =
        (if prefix 0 va' = prefix 0 va then Some (target 0 pa va') else vtranslate v s va')) \<and>
     vmap_pages v' s' \<subseteq> vmap_pages v s \<union> pages_avail s"
proof -
  have "process_pages.mine v" using v by (simp add: process_pages.mine_def)
  from process_pages.map_page_outcome [OF s this inv nb fl, of pa] room
  obtain v' s' where "vmap_map_page v pa va page_flags s = Inr ((0, v'), s')" "pages_ok s'"
    "maps pages_avail kernel_tables (4 - 0) 0 va pa v s v' s'"
    unfolding process_pages.map_outcome_def by auto
  then show ?thesis unfolding maps_def by blast
qed

lemma sample_kernel_room: "card (pages_avail sample_kernel) = 16"
proof -
  obtain fl where fl: "page_alloc_inv (mmap_physical_to_virtual sample_mapped) (2 ^ 22) sample_pages fl"
    "free_frames fl = {0x50000 ..< 0x50010}" using sample_pages_ok by blast
  have "inj_on frame_addr {0x50000 ..< 0x50010}"
    by (rule inj_onI) (use frame_addr_inject in auto)
  moreover have "pages_avail sample_kernel = frame_addr ` {0x50000 ..< 0x50010}"
    using bitmap_free_eq [OF fl(1)] fl(2) by (simp add: pages_avail_def sample_kernel_def)
  ultimately show ?thesis by (simp add: card_image)
qed

theorem process_map_page_witness:
  "\<exists>v' s'. vmap_map_page address_space_init 0x50005000 0x400000000000 0x740 sample_kernel = Inr ((0, v'), s') \<and>
     vtranslate v' s' 0x400000000123 = Some 0x50005123"
proof -
  have "\<exists>v' s'. vmap_map_page address_space_init 0x50005000 0x400000000000 0x740 sample_kernel = Inr ((0, v'), s') \<and>
     pages_ok s' \<and> vmap_inv pages_avail kernel_tables v' s' \<and>
     (\<forall>va'. vtranslate v' s' va' =
        (if prefix 0 va' = prefix 0 0x400000000000 then Some (target 0 0x50005000 va')
         else vtranslate address_space_init sample_kernel va')) \<and>
     vmap_pages v' s' \<subseteq> vmap_pages address_space_init sample_kernel \<union> pages_avail sample_kernel"
    by (rule process_map_page)
       (simp_all add: sample_kernel_ok sample_kernel_room address_space_init_def vmap_init_def vmap_inv_def no_block_def)
  then obtain v' s' where run: "vmap_map_page address_space_init 0x50005000 0x400000000000 0x740 sample_kernel = Inr ((0, v'), s')"
    and tr: "\<And>va'. vtranslate v' s' va' =
        (if prefix 0 va' = prefix 0 0x400000000000 then Some (target 0 0x50005000 va')
         else vtranslate address_space_init sample_kernel va')" by blast
  have "prefix 0 0x400000000123 = prefix 0 0x400000000000" "target 0 0x50005000 0x400000000123 = 0x50005123"
    by (simp_all add: prefix_def target_def mask_eq_exp_minus_1)
  then have "vtranslate v' s' 0x400000000123 = Some 0x50005123" using tr [of "0x400000000123"] by simp
  with run show ?thesis by blast
qed

end
