(* ===== verification/Block_Allocator.thy ===== *)
theory Block_Allocator
  imports Dll
begin

text \<open>
  The heap, \<open>kernel/block_allocator.c\<close> and its copy \<open>libz/block_allocator.c\<close>: a first-fit
  allocator over one contiguous region that grows at its end. Blocks tile the region; each starts
  with a header that links it into the list of all blocks, in address order, and, while it is
  free, into the free list.

  The two copies differ in how they obtain memory. That part is a parameter here: \<open>grow va n\<close>
  makes \<open>n\<close> pages at \<open>va\<close> available, or reports that it could not, and \<open>active\<close> is the condition
  the kernel's copy asserts. \<open>page_supply\<close> is the contract of the parameter; \<open>Kernel_Heap\<close>
  provides the kernel's.

  The file shows that every operation preserves the tiling and both lists, that an allocated
  block is disjoint from every other, and that freeing gives exactly the block back.
\<close>

section \<open>State and operations\<close>

abbreviation HEADER_SIZE :: u64 where "HEADER_SIZE \<equiv> 56"
abbreviation HEAP_PAGE_SIZE :: u64 where "HEAP_PAGE_SIZE \<equiv> 4096"
abbreviation BLOCK_ALLOCATOR_DEFAULT_SIZE :: u64 where "BLOCK_ALLOCATOR_DEFAULT_SIZE \<equiv> 0x400000"
abbreviation BLOCK_ALLOCATOR_BLOCK_MAGIC :: u8 where "BLOCK_ALLOCATOR_BLOCK_MAGIC \<equiv> 0x56"

record block_header =
  bh_magic :: u8
  bh_is_free :: u8
  bh_size :: u64
  bh_offset :: u64
  bh_prev_ptr :: u64
  bh_next_ptr :: u64
  bh_free_list_next_ptr :: u64
  bh_free_list_prev_ptr :: u64

text \<open>
  \<open>headers\<close> holds the headers by address. A header whose block has been merged into another is
  still in memory, and stays in the map.
\<close>

record 'k block_allocator =
  backend :: 'k
  virtual_base :: u64
  block_list_head :: u64
  free_list_head :: u64
  headers :: "u64 \<rightharpoonup> block_header"

type_synonym 'k pages_fn = "u64 \<Rightarrow> u64 \<Rightarrow> ('k, bool) prog"

abbreviation header_of :: "u64 \<Rightarrow> ('k block_allocator, block_header) prog" where
  "header_of \<equiv> deref headers"

abbreviation set_header :: "u64 \<Rightarrow> (block_header \<Rightarrow> block_header) \<Rightarrow> ('k block_allocator, unit) prog" where
  "set_header \<equiv> assign headers headers_update"

definition add_block_to_free_list :: "u64 \<Rightarrow> ('k block_allocator, unit) prog" where
  "add_block_to_free_list block_header =
     thn (set_header block_header (\<lambda>h. h\<lparr>bh_free_list_prev_ptr := NULL\<rparr>))
    (bnd (rd free_list_head) (\<lambda>head.
     thn (set_header block_header (\<lambda>h. h\<lparr>bh_free_list_next_ptr := head\<rparr>))
    (thn (upd (\<lambda>s. s\<lparr>free_list_head := block_header\<rparr>))
    (bnd (header_of block_header) (\<lambda>h.
     if bh_free_list_next_ptr h \<noteq> NULL
     then set_header (bh_free_list_next_ptr h) (\<lambda>n. n\<lparr>bh_free_list_prev_ptr := block_header\<rparr>)
     else ret ())))))"

definition remove_block_from_free_list :: "u64 \<Rightarrow> ('k block_allocator, unit) prog" where
  "remove_block_from_free_list block_header =
     bnd (header_of block_header) (\<lambda>h.
     thn (if bh_free_list_prev_ptr h \<noteq> NULL
          then set_header (bh_free_list_prev_ptr h) (\<lambda>p. p\<lparr>bh_free_list_next_ptr := bh_free_list_next_ptr h\<rparr>)
          else upd (\<lambda>s. s\<lparr>free_list_head := bh_free_list_next_ptr h\<rparr>))
    (thn (if bh_free_list_next_ptr h \<noteq> NULL
          then set_header (bh_free_list_next_ptr h) (\<lambda>n. n\<lparr>bh_free_list_prev_ptr := bh_free_list_prev_ptr h\<rparr>)
          else ret ())
    (set_header block_header (\<lambda>h. h\<lparr>bh_free_list_next_ptr := NULL, bh_free_list_prev_ptr := NULL\<rparr>))))"

definition remove_block_from_block_list :: "u64 \<Rightarrow> ('k block_allocator, unit) prog" where
  "remove_block_from_block_list block_header =
     bnd (header_of block_header) (\<lambda>h.
     thn (if bh_prev_ptr h \<noteq> NULL
          then set_header (bh_prev_ptr h) (\<lambda>p. p\<lparr>bh_next_ptr := bh_next_ptr h\<rparr>)
          else upd (\<lambda>s. s\<lparr>block_list_head := bh_next_ptr h\<rparr>))
    (thn (if bh_next_ptr h \<noteq> NULL
          then set_header (bh_next_ptr h) (\<lambda>n. n\<lparr>bh_prev_ptr := bh_prev_ptr h\<rparr>)
          else ret ())
    (set_header block_header (\<lambda>h. h\<lparr>bh_next_ptr := NULL, bh_prev_ptr := NULL\<rparr>))))"

partial_function (option) find_free_from ::
  "u64 \<Rightarrow> u64 \<Rightarrow> 'k block_allocator \<Rightarrow> (fault + u64 \<times> 'k block_allocator) option" where
  "find_free_from amount block_header s =
     (if block_header \<noteq> NULL then
        case headers s block_header of
          None \<Rightarrow> Some (Inl Bad_Access)
        | Some h \<Rightarrow>
            if bh_size h \<ge> amount then Some (Inr (block_header, s))
            else find_free_from amount (bh_free_list_next_ptr h) s
      else Some (Inr (block_header, s)))"

definition find_free_block :: "u64 \<Rightarrow> ('k block_allocator, u64) prog" where
  "find_free_block amount = (\<lambda>s. loop (find_free_from amount (free_list_head s) s))"

partial_function (option) last_block_from ::
  "u64 \<Rightarrow> 'k block_allocator \<Rightarrow> (fault + u64 \<times> 'k block_allocator) option" where
  "last_block_from block_header s =
     (if block_header \<noteq> NULL then
        case headers s block_header of
          None \<Rightarrow> Some (Inl Bad_Access)
        | Some h \<Rightarrow>
            if bh_next_ptr h = NULL then Some (Inr (block_header, s))
            else last_block_from (bh_next_ptr h) s
      else Some (Inr (block_header, s)))"

definition get_last_block_header :: "('k block_allocator, u64) prog" where
  "get_last_block_header = (\<lambda>s. loop (last_block_from (block_list_head s) s))"

text \<open>The number of pages a block of \<open>amount\<close> bytes needs, with the header.\<close>

definition pages_needed :: "u64 \<Rightarrow> u64" where
  "pages_needed amount =
     (let num_pages = (amount + HEADER_SIZE) div HEAP_PAGE_SIZE in
      if (amount + HEADER_SIZE) mod HEAP_PAGE_SIZE \<noteq> 0 then num_pages + 1 else num_pages)"

text \<open>
  A new header in fresh memory; all its fields are assigned, those of the free list by
  \<open>add_block_to_free_list\<close>.
\<close>

definition new_header :: "u64 \<Rightarrow> u64 \<Rightarrow> u64 \<Rightarrow> u64 \<Rightarrow> block_header" where
  "new_header offset amount prev next = \<lparr>bh_magic = BLOCK_ALLOCATOR_BLOCK_MAGIC, bh_is_free = 1,
     bh_size = amount, bh_offset = offset, bh_prev_ptr = prev, bh_next_ptr = next,
     bh_free_list_next_ptr = NULL, bh_free_list_prev_ptr = NULL\<rparr>"

definition find_or_create_free_block :: "'k pages_fn \<Rightarrow> u64 \<Rightarrow> ('k block_allocator, u64) prog" where
  "find_or_create_free_block grow amount =
     bnd (find_free_block amount) (\<lambda>found.
     if found \<noteq> NULL then ret found
     else
       bnd get_last_block_header (\<lambda>last_block.
       bnd (if last_block \<noteq> NULL
            then bnd (header_of last_block) (\<lambda>h. ret (bh_offset h + bh_size h + HEADER_SIZE))
            else ret HEADER_SIZE) (\<lambda>offset.
       bnd (rd virtual_base) (\<lambda>base.
       bnd (within backend backend_update (grow (base + offset - HEADER_SIZE) (pages_needed amount))) (\<lambda>ok.
       if \<not> ok then ret NULL
       else
         let new_block_header = base + offset - HEADER_SIZE in
         thn (upd (\<lambda>s. s\<lparr>headers := (headers s)(new_block_header \<mapsto>
                new_header offset (pages_needed amount * HEAP_PAGE_SIZE - HEADER_SIZE) last_block NULL)\<rparr>))
        (thn (if last_block \<noteq> NULL
              then set_header last_block (\<lambda>h. h\<lparr>bh_next_ptr := new_block_header\<rparr>)
              else upd (\<lambda>s. s\<lparr>block_list_head := new_block_header\<rparr>))
        (thn (add_block_to_free_list new_block_header)
             (ret new_block_header))))))))"

definition split_block :: "u64 \<Rightarrow> u64 \<Rightarrow> ('k block_allocator, unit) prog" where
  "split_block block_header amount =
     bnd (header_of block_header) (\<lambda>h.
     let delta = bh_size h - amount in
     if delta \<le> HEADER_SIZE then ret ()
     else
       let remainder = block_header + amount + HEADER_SIZE in
       thn (set_header block_header (\<lambda>h. h\<lparr>bh_size := amount, bh_next_ptr := remainder\<rparr>))
      (thn (upd (\<lambda>s. s\<lparr>headers := (headers s)(remainder \<mapsto>
              new_header (bh_offset h + amount + HEADER_SIZE) (delta - HEADER_SIZE) block_header (bh_next_ptr h))\<rparr>))
      (thn (if bh_next_ptr h \<noteq> NULL
            then set_header (bh_next_ptr h) (\<lambda>n. n\<lparr>bh_prev_ptr := remainder\<rparr>)
            else ret ())
           (add_block_to_free_list remainder))))"

definition block_allocator_allocate ::
  "('k \<Rightarrow> bool) \<Rightarrow> 'k pages_fn \<Rightarrow> u64 \<Rightarrow> ('k block_allocator, u64) prog" where
  "block_allocator_allocate active grow amount =
     thn (\<lambda>s. kassert (active (backend s)) s)
    (bnd (find_or_create_free_block grow amount) (\<lambda>block_header.
     if block_header = NULL then ret NULL
     else
       thn (split_block block_header amount)
      (thn (set_header block_header (\<lambda>h. h\<lparr>bh_is_free := 0\<rparr>))
      (thn (remove_block_from_free_list block_header)
      (bnd (header_of block_header) (\<lambda>h.
       bnd (rd virtual_base) (\<lambda>base. ret (base + bh_offset h))))))))"

text \<open>Whether the neighbour at a possibly null pointer is free.\<close>

definition neighbour_free :: "u64 \<Rightarrow> ('k block_allocator, bool) prog" where
  "neighbour_free p = (if p \<noteq> NULL then bnd (header_of p) (\<lambda>h. ret (bh_is_free h \<noteq> 0)) else ret False)"

text \<open>The four cases of freeing: the block is joined with free neighbours.\<close>

definition merge_both :: "u64 \<Rightarrow> u64 \<Rightarrow> u64 \<Rightarrow> block_header \<Rightarrow> ('k block_allocator, unit) prog" where
  "merge_both prev block_header next h =
     bnd (header_of next) (\<lambda>n.
     thn (set_header prev (\<lambda>p. p\<lparr>bh_next_ptr := bh_next_ptr n,
            bh_size := bh_size p + (2 * HEADER_SIZE + bh_size h + bh_size n)\<rparr>))
    (thn (remove_block_from_free_list next)
    (thn (remove_block_from_block_list next)
         (remove_block_from_block_list block_header))))"

definition merge_prev :: "u64 \<Rightarrow> u64 \<Rightarrow> block_header \<Rightarrow> ('k block_allocator, unit) prog" where
  "merge_prev prev block_header h =
     thn (set_header prev (\<lambda>p. p\<lparr>bh_next_ptr := bh_next_ptr h, bh_size := bh_size p + (HEADER_SIZE + bh_size h)\<rparr>))
         (remove_block_from_block_list block_header)"

definition mark_free :: "u64 \<Rightarrow> ('k block_allocator, unit) prog" where
  "mark_free block_header =
     thn (set_header block_header (\<lambda>b. b\<lparr>bh_is_free := 1\<rparr>))
         (add_block_to_free_list block_header)"

definition merge_next :: "u64 \<Rightarrow> u64 \<Rightarrow> ('k block_allocator, unit) prog" where
  "merge_next block_header next =
     bnd (header_of next) (\<lambda>n.
     thn (set_header block_header (\<lambda>b. b\<lparr>bh_next_ptr := bh_next_ptr n, bh_size := bh_size b + (HEADER_SIZE + bh_size n)\<rparr>))
    (thn (remove_block_from_block_list next)
    (thn (remove_block_from_free_list next)
         (mark_free block_header))))"

definition block_allocator_free :: "('k \<Rightarrow> bool) \<Rightarrow> u64 \<Rightarrow> ('k block_allocator, unit) prog" where
  "block_allocator_free active address =
     (if address = NULL then ret ()
      else
        thn (\<lambda>s. kassert (active (backend s)) s)
       (let block_header = address - HEADER_SIZE in
        bnd (header_of block_header) (\<lambda>h.
        if bh_magic h \<noteq> BLOCK_ALLOCATOR_BLOCK_MAGIC \<or> bh_is_free h \<noteq> 0 then ret ()
        else
          let prev = bh_prev_ptr h; next = bh_next_ptr h in
          bnd (neighbour_free prev) (\<lambda>is_prev_free.
          bnd (neighbour_free next) (\<lambda>is_next_free.
          if is_prev_free \<and> is_next_free then merge_both prev block_header next h
          else if is_prev_free then merge_prev prev block_header h
          else if is_next_free then merge_next block_header next
          else mark_free block_header)))))"

text \<open>
  \<open>block_allocator_init\<close>, after the first \<open>BLOCK_ALLOCATOR_DEFAULT_SIZE\<close> bytes at the base have
  been made available.
\<close>

definition block_allocator_setup :: "u64 \<Rightarrow> 'k block_allocator \<Rightarrow> 'k block_allocator" where
  "block_allocator_setup base s = s\<lparr>virtual_base := base, block_list_head := base, free_list_head := base,
     headers := (headers s)(base \<mapsto>
       new_header HEADER_SIZE (BLOCK_ALLOCATOR_DEFAULT_SIZE - HEADER_SIZE) NULL NULL)\<rparr>"

section \<open>The tiling\<close>

text \<open>
  \<open>tiles m base x bs e\<close>: the blocks \<open>bs\<close> follow one another without gaps from address \<open>x\<close> to
  \<open>e\<close>, with valid magic numbers and offsets.
\<close>

fun tiles :: "(u64 \<rightharpoonup> block_header) \<Rightarrow> u64 \<Rightarrow> nat \<Rightarrow> u64 list \<Rightarrow> nat \<Rightarrow> bool" where
  "tiles m base x [] e \<longleftrightarrow> x = e"
| "tiles m base x (b # bs) e \<longleftrightarrow> unat b = x \<and> (\<exists>h. m b = Some h \<and>
     bh_magic h = BLOCK_ALLOCATOR_BLOCK_MAGIC \<and> base + bh_offset h = b + HEADER_SIZE \<and>
     tiles m base (x + 56 + unat (bh_size h)) bs e)"

definition block_size :: "(u64 \<rightharpoonup> block_header) \<Rightarrow> u64 \<Rightarrow> nat" where
  "block_size m b = unat (fld bh_size m b)"

definition block_free :: "(u64 \<rightharpoonup> block_header) \<Rightarrow> u64 \<Rightarrow> bool" where
  "block_free m b \<longleftrightarrow> fld bh_is_free m b \<noteq> 0"

lemma tiles_le: "tiles m base x bs e \<Longrightarrow> x \<le> e"
  by (induction bs arbitrary: x) fastforce+

lemma tiles_append:
  "tiles m base x (us @ vs) e \<longleftrightarrow> (\<exists>y. tiles m base x us y \<and> tiles m base y vs e)"
  by (induction us arbitrary: x) (simp_all, blast)

lemma tiles_member:
  "tiles m base x bs e \<Longrightarrow> b \<in> set bs \<Longrightarrow>
     \<exists>h. m b = Some h \<and> bh_magic h = BLOCK_ALLOCATOR_BLOCK_MAGIC \<and> base + bh_offset h = b + HEADER_SIZE \<and>
       x \<le> unat b \<and> unat b + 56 + block_size m b \<le> e"
proof (induction bs arbitrary: x)
  case (Cons c bs)
  then obtain h where h: "unat c = x" "m c = Some h" "bh_magic h = BLOCK_ALLOCATOR_BLOCK_MAGIC"
    "base + bh_offset h = c + HEADER_SIZE" "tiles m base (x + 56 + unat (bh_size h)) bs e" by auto
  show ?case
  proof (cases "b = c")
    case True
    then show ?thesis using h tiles_le [OF h(5)] by (simp add: block_size_def fld_Some)
  next
    case False
    then show ?thesis using Cons.IH [OF h(5)] Cons.prems(2) by fastforce
  qed
qed simp

lemma tiles_cong:
  assumes "\<And>b. b \<in> set bs \<Longrightarrow> map_option (\<lambda>h. (bh_magic h, bh_offset h, bh_size h)) (m' b) =
    map_option (\<lambda>h. (bh_magic h, bh_offset h, bh_size h)) (m b)"
  shows "tiles m base x bs e \<Longrightarrow> tiles m' base x bs e"
  using assms
proof (induction bs arbitrary: x)
  case (Cons b bs)
  then obtain h where h: "m b = Some h" by auto
  with Cons.prems(2) [of b] obtain h' where "m' b = Some h'" "bh_magic h' = bh_magic h" "bh_offset h' = bh_offset h"
    "bh_size h' = bh_size h" by (auto simp: map_option_case split: option.splits)
  with Cons h show ?case by auto
qed simp

lemma tiles_upd: "q \<notin> set bs \<Longrightarrow> tiles m base x bs e \<Longrightarrow> tiles (m(q \<mapsto> h)) base x bs e"
  by (erule tiles_cong [rotated]) auto

lemma block_size_upd [simp]: "block_size (m(q \<mapsto> h)) = (block_size m)(q := unat (bh_size h))"
  by (simp add: block_size_def fun_eq_iff)

lemma block_free_upd [simp]: "block_free (m(q \<mapsto> h)) = (block_free m)(q := (bh_is_free h \<noteq> 0))"
  by (simp add: block_free_def fun_eq_iff)

text \<open>Blocks do not overlap.\<close>

lemma tiles_before:
  assumes "tiles m base x (us @ b # vs) e"
  shows "\<And>c. c \<in> set us \<Longrightarrow> unat c + 56 + block_size m c \<le> unat b"
    and "\<And>c. c \<in> set vs \<Longrightarrow> unat b + 56 + block_size m b \<le> unat c"
    and "unat b + 56 + block_size m b \<le> e"
proof -
  obtain h where 1: "tiles m base x us (unat b)" and 2: "m b = Some h"
    "tiles m base (unat b + 56 + unat (bh_size h)) vs e"
    using assms by (auto simp: tiles_append)
  show "\<And>c. c \<in> set us \<Longrightarrow> unat c + 56 + block_size m c \<le> unat b" using tiles_member [OF 1] by auto
  show "\<And>c. c \<in> set vs \<Longrightarrow> unat b + 56 + block_size m b \<le> unat c"
    using tiles_member [OF 2(2)] 2(1) by (auto simp: block_size_def fld_Some)
  show "unat b + 56 + block_size m b \<le> e" using tiles_le [OF 2(2)] 2(1) by (simp add: block_size_def fld_Some)
qed

lemma tiles_distinct: "tiles m base x bs e \<Longrightarrow> distinct bs"
proof (induction bs arbitrary: x)
  case (Cons b bs)
  have "b \<notin> set bs" using tiles_before(2) [of m base x "[]" b bs e b] Cons.prems by auto
  moreover have "distinct bs" using Cons by auto
  ultimately show ?case by simp
qed simp

lemma tiles_disjoint:
  assumes t: "tiles m base x bs e" and "b \<in> set bs" "c \<in> set bs" "b \<noteq> c"
  shows "unat b + 56 + block_size m b \<le> unat c \<or> unat c + 56 + block_size m c \<le> unat b"
proof -
  obtain us vs where "bs = us @ b # vs" using assms(2) by (auto dest: split_list)
  with assms show ?thesis using tiles_before [of m base x us b vs e] by auto
qed

lemma tiles_base: "tiles m base x (b # bs) e \<Longrightarrow> unat b = x"
  by simp

lemma tiles_snoc:
  assumes "tiles m base x bs e" "unat b = e" "b \<notin> set bs" "bh_magic h = BLOCK_ALLOCATOR_BLOCK_MAGIC"
    "base + bh_offset h = b + HEADER_SIZE"
  shows "tiles (m(b \<mapsto> h)) base x (bs @ [b]) (e + 56 + unat (bh_size h))"
  using assms tiles_upd [OF assms(3,1)] by (auto simp: tiles_append)

text \<open>Splitting a block, and joining one with its successor.\<close>

lemma tiles_split:
  assumes t: "tiles m base x (us @ b # vs) e" and e: "e < 2 ^ 64" and h: "m b = Some h"
    and am: "amount \<le> bh_size h" "HEADER_SIZE < bh_size h - amount"
    and h': "bh_magic h' = bh_magic h" "bh_offset h' = bh_offset h" "bh_size h' = amount"
    and k: "bh_magic k = BLOCK_ALLOCATOR_BLOCK_MAGIC" "bh_offset k = bh_offset h + amount + HEADER_SIZE"
      "bh_size k = bh_size h - amount - HEADER_SIZE"
  defines "r \<equiv> b + amount + HEADER_SIZE"
  shows "unat r = unat b + unat amount + 56" "r \<notin> set (us @ b # vs)"
    "tiles (m(b \<mapsto> h', r \<mapsto> k)) base x (us @ b # r # vs) e"
proof -
  obtain y where us: "tiles m base x us y" and vs: "tiles m base (y + 56 + unat (bh_size h)) vs e"
    and b: "unat b = y" "bh_magic h = BLOCK_ALLOCATOR_BLOCK_MAGIC" "base + bh_offset h = b + HEADER_SIZE"
    using t h by (auto simp: tiles_append)
  have am': "unat amount \<le> unat (bh_size h)" "unat (bh_size h - amount) = unat (bh_size h) - unat amount"
    using am(1) by (simp_all add: word_le_nat_alt unat_sub_no_wrap)
  have d: "56 < unat (bh_size h) - unat amount" using am(2) am'(2) by (simp add: word_less_nat_alt)
  have sz: "unat (bh_size h - amount - HEADER_SIZE) = unat (bh_size h) - unat amount - 56"
    using d am' by (subst unat_sub_no_wrap) simp_all
  have le: "unat b + 56 + unat (bh_size h) \<le> e" using tiles_le [OF vs] b(1) by simp
  have ba: "unat (b + amount) = unat b + unat amount" using le e am'(1) by (intro unat_add_no_wrap) simp
  show r: "unat r = unat b + unat amount + 56"
    unfolding r_def using ba le e d by (subst unat_add_no_wrap) simp_all
  note nb = tiles_before [OF t] and bs = fld_Some [where f = bh_size, of m b h, OF h]
  have "r \<notin> set us"
  proof
    assume "r \<in> set us" then show False using nb(1) [of r] r by simp
  qed
  moreover have "r \<notin> set vs"
  proof
    assume "r \<in> set vs" then show False using nb(2) [of r] r d by (simp add: block_size_def bs)
  qed
  moreover have "r \<noteq> b" using r by auto
  moreover have "b \<notin> set us" "b \<notin> set vs" using tiles_distinct [OF t] by auto
  moreover have len: "y + 56 + unat (bh_size h') + 56 + unat (bh_size k) = y + 56 + unat (bh_size h)"
    using d am'(1) sz unfolding h'(3) k(3) by simp
  ultimately have dis: "r \<notin> set us" "r \<notin> set vs" "r \<noteq> b" "b \<notin> set us" "b \<notin> set vs"
    and len: "y + 56 + unat (bh_size h') + 56 + unat (bh_size k) = y + 56 + unat (bh_size h)" by blast+
  then show "r \<notin> set (us @ b # vs)" by simp
  let ?m = "m(b \<mapsto> h', r \<mapsto> k)"
  have "tiles ?m base x us y" "tiles ?m base (y + 56 + unat (bh_size h') + 56 + unat (bh_size k)) vs e"
    using us vs dis unfolding len by (simp_all add: tiles_upd)
  moreover have "y + 56 + unat (bh_size h') = unat r" using r b(1) h'(3) by simp
  moreover have "base + bh_offset k = r + HEADER_SIZE"
    using b(3) unfolding k(2) r_def by (metis (no_types, lifting) add.assoc add.commute)
  ultimately have "tiles ?m base y (b # r # vs) e"
    using dis(3) b h' k(1) by simp
  then show "tiles ?m base x (us @ b # r # vs) e"
    using \<open>tiles ?m base x us y\<close> unfolding tiles_append by blast
qed

lemma tiles_join:
  assumes t: "tiles m base x (us @ b # c # vs) e" and e: "e < 2 ^ 64" and h: "m b = Some h" and k: "m c = Some k"
    and h': "bh_magic h' = bh_magic h" "bh_offset h' = bh_offset h" "bh_size h' = bh_size h + (HEADER_SIZE + bh_size k)"
  shows "tiles (m(b \<mapsto> h')) base x (us @ b # vs) e"
    and "unat (bh_size h') = unat (bh_size h) + 56 + unat (bh_size k)"
proof -
  obtain y where us: "tiles m base x us y" and vs: "tiles m base (y + 56 + unat (bh_size h) + 56 + unat (bh_size k)) vs e"
    and b: "unat b = y" "bh_magic h = BLOCK_ALLOCATOR_BLOCK_MAGIC" "base + bh_offset h = b + HEADER_SIZE"
    using t h k by (auto simp: tiles_append)
  have le: "y + 56 + unat (bh_size h) + 56 + unat (bh_size k) < 2 ^ 64" using tiles_le [OF vs] e by simp
  have "unat (HEADER_SIZE + bh_size k) = 56 + unat (bh_size k)" using le by (subst unat_add_no_wrap) simp_all
  then show sz: "unat (bh_size h') = unat (bh_size h) + 56 + unat (bh_size k)"
    unfolding h'(3) using le by (subst unat_add_no_wrap) simp_all
  have "b \<notin> set us" "b \<notin> set vs" using tiles_distinct [OF t] by auto
  then show "tiles (m(b \<mapsto> h')) base x (us @ b # vs) e"
    using us vs b h' sz by (auto simp: tiles_append tiles_upd ac_simps)
qed

section \<open>The two lists\<close>

definition block_core :: "block_header \<Rightarrow> u8 \<times> u8 \<times> u64 \<times> u64" where
  "block_core h = (bh_magic h, bh_is_free h, bh_size h, bh_offset h)"

definition block_links :: "block_header \<Rightarrow> u64 \<times> u64" where
  "block_links h = (bh_next_ptr h, bh_prev_ptr h)"

definition free_links :: "block_header \<Rightarrow> u64 \<times> u64" where
  "free_links h = (bh_free_list_next_ptr h, bh_free_list_prev_ptr h)"

lemmas block_parts = block_core_def block_links_def free_links_def

definition block_list :: "(u64 \<rightharpoonup> block_header) \<Rightarrow> u64 \<Rightarrow> u64 list \<Rightarrow> bool" where
  "block_list m h bs \<longleftrightarrow> (\<exists>t. dll (fld bh_next_ptr m) (fld bh_prev_ptr m) h t bs)"

definition free_list :: "(u64 \<rightharpoonup> block_header) \<Rightarrow> u64 \<Rightarrow> u64 list \<Rightarrow> bool" where
  "free_list m h fs \<longleftrightarrow> (\<exists>t. dll (fld bh_free_list_next_ptr m) (fld bh_free_list_prev_ptr m) h t fs)"

lemma block_list_same: "same block_links m m' \<Longrightarrow> block_list m' h bs = block_list m h bs"
  using same_fld [of block_links m m' bh_next_ptr] same_fld [of block_links m m' bh_prev_ptr]
  by (simp add: block_list_def block_links_def)

lemma free_list_same: "same free_links m m' \<Longrightarrow> free_list m' h fs = free_list m h fs"
  using same_fld [of free_links m m' bh_free_list_next_ptr] same_fld [of free_links m m' bh_free_list_prev_ptr]
  by (simp add: free_list_def free_links_def)

lemma core_same:
  assumes "same block_core m m'"
  shows "block_size m' = block_size m" "block_free m' = block_free m"
    "tiles m base x bs e \<Longrightarrow> tiles m' base x bs e"
proof -
  show "block_size m' = block_size m" "block_free m' = block_free m"
    using same_fld [OF assms, of bh_size] same_fld [OF assms, of bh_is_free]
    by (simp_all add: block_core_def block_size_def block_free_def fun_eq_iff)
  show "tiles m' base x bs e" if "tiles m base x bs e"
  proof (rule tiles_cong [OF _ that])
    fix b show "map_option (\<lambda>h. (bh_magic h, bh_offset h, bh_size h)) (m' b) =
        map_option (\<lambda>h. (bh_magic h, bh_offset h, bh_size h)) (m b)"
      using assms unfolding same_def block_core_def
      by (drule_tac x = b in spec) (cases "m b"; cases "m' b"; simp)
  qed
qed

lemma free_list_nonnull: "free_list m h fs \<Longrightarrow> 0 \<notin> set fs"
  by (auto simp: free_list_def dest: dll_nonnull)

lemma free_list_distinct: "free_list m h fs \<Longrightarrow> distinct fs"
  by (auto simp: free_list_def dest: dll_distinct)

lemma block_list_nonnull: "block_list m h bs \<Longrightarrow> 0 \<notin> set bs"
  by (auto simp: block_list_def dest: dll_nonnull)

lemma add_block_to_free_list_run:
  assumes l: "free_list (headers s) (free_list_head s) fs" and q: "q \<notin> set fs" "q \<noteq> 0" "headers s q \<noteq> None"
    and m: "\<And>f. f \<in> set fs \<Longrightarrow> headers s f \<noteq> None"
  obtains m' where "add_block_to_free_list q s = Inr ((), s\<lparr>free_list_head := q, headers := m'\<rparr>)"
    "free_list m' q (q # fs)" "same block_core (headers s) m'" "same block_links (headers s) m'"
proof -
  obtain h where h: "headers s q = Some h" using q(3) by blast
  obtain t where d: "dll (fld bh_free_list_next_ptr (headers s)) (fld bh_free_list_prev_ptr (headers s)) (free_list_head s) t fs"
    using l by (auto simp: free_list_def)
  note push = dll_push_front [OF d q(2,1)]
  let ?h = "h\<lparr>bh_free_list_prev_ptr := 0, bh_free_list_next_ptr := free_list_head s\<rparr>"
  show ?thesis
  proof (cases "free_list_head s = 0")
    case True
    then show ?thesis using that [of "(headers s)(q \<mapsto> ?h)"] h push
      by (auto simp: add_block_to_free_list_def free_list_def same_upd block_parts)
  next
    case False
    then have f: "free_list_head s \<in> set fs" using dll_head_null [OF d] dll_head [OF d] by auto
    then obtain k where k: "headers s (free_list_head s) = Some k" and ne: "free_list_head s \<noteq> q"
      using m q(1) by blast
    let ?m1 = "(headers s)(q \<mapsto> ?h)"
    let ?m = "?m1(free_list_head s \<mapsto> k\<lparr>bh_free_list_prev_ptr := q\<rparr>)"
    have "same block_core (headers s) ?m" "same block_links (headers s) ?m"
      by (rule same_upd2 [OF h k]; simp add: block_parts)+
    moreover have "free_list ?m q (q # fs)"
      using push False ne fld_upd_same [of "headers s" "free_list_head s" k bh_free_list_next_ptr] k
      by (auto simp: free_list_def fun_upd_twist)
    ultimately show ?thesis using that [of ?m] h k False ne
      by (simp add: add_block_to_free_list_def)
  qed
qed

text \<open>
  Unlinking, as an effect on the pointer fields. A double merge unlinks while the block list is
  not in order, so the effect is stated without the lists.
\<close>

lemma remove_block_from_free_list_run:
  fixes s :: "'k block_allocator"
  assumes q: "headers s q = Some h" and p: "p = bh_free_list_prev_ptr h" "n = bh_free_list_next_ptr h"
    and ok: "p \<noteq> 0 \<Longrightarrow> headers s p \<noteq> None \<and> p \<noteq> q" "n \<noteq> 0 \<Longrightarrow> headers s n \<noteq> None \<and> n \<noteq> q"
      "p \<noteq> 0 \<Longrightarrow> n \<noteq> p"
  obtains m' where "remove_block_from_free_list q s =
      Inr ((), s\<lparr>free_list_head := if p = 0 then n else free_list_head s, headers := m'\<rparr>)"
    "fld bh_free_list_next_ptr m' = (if p = 0 then fld bh_free_list_next_ptr (headers s)
       else (fld bh_free_list_next_ptr (headers s))(p := n))(q := 0)"
    "fld bh_free_list_prev_ptr m' = (if n = 0 then fld bh_free_list_prev_ptr (headers s)
       else (fld bh_free_list_prev_ptr (headers s))(n := p))(q := 0)"
    "same block_core (headers s) m'" "same block_links (headers s) m'"
proof -
  obtain hp where hp: "p \<noteq> 0 \<Longrightarrow> headers s p = Some hp" using ok(1) by fastforce
  obtain hn where hn: "n \<noteq> 0 \<Longrightarrow> headers s n = Some hn" using ok(2) by fastforce
  let ?m1 = "if p = 0 then headers s else (headers s)(p \<mapsto> hp\<lparr>bh_free_list_next_ptr := n\<rparr>)"
  let ?m2 = "if n = 0 then ?m1 else ?m1(n \<mapsto> hn\<lparr>bh_free_list_prev_ptr := p\<rparr>)"
  let ?m = "?m2(q \<mapsto> h\<lparr>bh_free_list_next_ptr := 0, bh_free_list_prev_ptr := 0\<rparr>)"
  have m: "fld bh_free_list_next_ptr ?m = (if p = 0 then fld bh_free_list_next_ptr (headers s)
       else (fld bh_free_list_next_ptr (headers s))(p := n))(q := 0)"
    "fld bh_free_list_prev_ptr ?m = (if n = 0 then fld bh_free_list_prev_ptr (headers s)
       else (fld bh_free_list_prev_ptr (headers s))(n := p))(q := 0)"
    using hp hn ok by (auto simp: fun_eq_iff fld_Some)
  have g: "same block_core (headers s) ?m" "same block_links (headers s) ?m"
    using hp hn q by (auto simp: same_def block_parts)
  have "remove_block_from_free_list q s =
      Inr ((), s\<lparr>free_list_head := if p = 0 then n else free_list_head s, headers := ?m\<rparr>)"
    using q hp hn ok unfolding p
    by (cases "bh_free_list_prev_ptr h = 0"; cases "bh_free_list_next_ptr h = 0")
       (simp_all add: remove_block_from_free_list_def)
  from that [OF this m g] show ?thesis .
qed

lemma remove_block_from_block_list_run:
  fixes s :: "'k block_allocator"
  assumes q: "headers s q = Some h" and p: "p = bh_prev_ptr h" "n = bh_next_ptr h"
    and ok: "p \<noteq> 0 \<Longrightarrow> headers s p \<noteq> None \<and> p \<noteq> q" "n \<noteq> 0 \<Longrightarrow> headers s n \<noteq> None \<and> n \<noteq> q"
      "p \<noteq> 0 \<Longrightarrow> n \<noteq> p"
  obtains m' where "remove_block_from_block_list q s =
      Inr ((), s\<lparr>block_list_head := if p = 0 then n else block_list_head s, headers := m'\<rparr>)"
    "fld bh_next_ptr m' = (if p = 0 then fld bh_next_ptr (headers s)
       else (fld bh_next_ptr (headers s))(p := n))(q := 0)"
    "fld bh_prev_ptr m' = (if n = 0 then fld bh_prev_ptr (headers s)
       else (fld bh_prev_ptr (headers s))(n := p))(q := 0)"
    "same block_core (headers s) m'" "same free_links (headers s) m'"
proof -
  obtain hp where hp: "p \<noteq> 0 \<Longrightarrow> headers s p = Some hp" using ok(1) by fastforce
  obtain hn where hn: "n \<noteq> 0 \<Longrightarrow> headers s n = Some hn" using ok(2) by fastforce
  let ?m1 = "if p = 0 then headers s else (headers s)(p \<mapsto> hp\<lparr>bh_next_ptr := n\<rparr>)"
  let ?m2 = "if n = 0 then ?m1 else ?m1(n \<mapsto> hn\<lparr>bh_prev_ptr := p\<rparr>)"
  let ?m = "?m2(q \<mapsto> h\<lparr>bh_next_ptr := 0, bh_prev_ptr := 0\<rparr>)"
  have m: "fld bh_next_ptr ?m = (if p = 0 then fld bh_next_ptr (headers s)
       else (fld bh_next_ptr (headers s))(p := n))(q := 0)"
    "fld bh_prev_ptr ?m = (if n = 0 then fld bh_prev_ptr (headers s)
       else (fld bh_prev_ptr (headers s))(n := p))(q := 0)"
    using hp hn ok by (auto simp: fun_eq_iff fld_Some)
  have g: "same block_core (headers s) ?m" "same free_links (headers s) ?m"
    using hp hn q by (auto simp: same_def block_parts)
  have "remove_block_from_block_list q s =
      Inr ((), s\<lparr>block_list_head := if p = 0 then n else block_list_head s, headers := ?m\<rparr>)"
    using q hp hn ok unfolding p
    by (cases "bh_prev_ptr h = 0"; cases "bh_next_ptr h = 0")
       (simp_all add: remove_block_from_block_list_def)
  from that [OF this m g] show ?thesis .
qed

text \<open>Removing a member of the free list.\<close>

lemma remove_free:
  fixes s :: "'k block_allocator"
  assumes l: "free_list (headers s) (free_list_head s) (us @ q # vs)"
    and m: "\<And>f. f \<in> set (us @ q # vs) \<Longrightarrow> headers s f \<noteq> None"
  obtains x m' where "remove_block_from_free_list q s = Inr ((), s\<lparr>free_list_head := x, headers := m'\<rparr>)"
    "free_list m' x (us @ vs)" "same block_core (headers s) m'" "same block_links (headers s) m'"
proof -
  obtain h where h: "headers s q = Some h" using m [of q] by auto
  let ?nx = "fld bh_free_list_next_ptr (headers s)" and ?pv = "fld bh_free_list_prev_ptr (headers s)"
  let ?p = "bh_free_list_prev_ptr h" and ?n = "bh_free_list_next_ptr h"
  obtain t where d: "dll ?nx ?pv (free_list_head s) t (us @ q # vs)" using l by (auto simp: free_list_def)
  have dis: "distinct (us @ q # vs)" "0 \<notin> set (us @ q # vs)" using dll_distinct [OF d] dll_nonnull [OF d] by auto
  have p: "?p = (if us = [] then 0 else last us)" and n: "?n = (if vs = [] then 0 else hd vs)"
    using dll_prev [OF d] dll_next [OF d] h by (simp_all add: fld_Some)
  have mp: "?p \<in> set us" if "?p \<noteq> 0" using that p by (auto split: if_splits)
  have mn: "?n \<in> set vs" if "?n \<noteq> 0" using that n by (auto split: if_splits)
  obtain m' where r: "remove_block_from_free_list q s =
        Inr ((), s\<lparr>free_list_head := if ?p = 0 then ?n else free_list_head s, headers := m'\<rparr>)"
      "fld bh_free_list_next_ptr m' = (if ?p = 0 then ?nx else ?nx(?p := ?n))(q := 0)"
      "fld bh_free_list_prev_ptr m' = (if ?n = 0 then ?pv else ?pv(?n := ?p))(q := 0)"
      "same block_core (headers s) m'" "same block_links (headers s) m'"
  proof (rule remove_block_from_free_list_run [OF h refl refl])
    show "headers s ?p \<noteq> None \<and> ?p \<noteq> q" if "?p \<noteq> 0" using mp [OF that] m dis by auto
    show "headers s ?n \<noteq> None \<and> ?n \<noteq> q" if "?n \<noteq> 0" using mn [OF that] m dis by auto
    show "?n \<noteq> ?p" if "?p \<noteq> 0"
    proof
      assume "?n = ?p" with that have "?p \<in> set us" "?p \<in> set vs" using mp mn by auto
      then show False using dis by auto
    qed
  qed
  have "q \<notin> set (us @ vs)" using dis by auto
  then have "free_list m' (if ?p = 0 then ?n else free_list_head s) (us @ vs)"
    using dll_unlink [OF d] h unfolding free_list_def r(2,3) by (auto simp: fld_Some)
  from that [OF r(1) this r(4,5)] show ?thesis .
qed

section \<open>The searches return\<close>

lemma find_free_from_list:
  assumes "dseg (fld bh_free_list_next_ptr (headers s)) pv b x fs t 0" "\<And>f. f \<in> set fs \<Longrightarrow> headers s f \<noteq> None"
  shows "\<exists>r. find_free_from amount x s = Some (Inr (r, s)) \<and>
    (r = 0 \<and> (\<forall>f \<in> set fs. block_size (headers s) f < unat amount) \<or>
     r \<in> set fs \<and> unat amount \<le> block_size (headers s) r)"
  using assms
proof (induction fs arbitrary: b x)
  case Nil
  then show ?case by (simp add: find_free_from.simps)
next
  case (Cons f fs)
  obtain h where h: "headers s f = Some h" using Cons.prems(2) [of f] by auto
  have x: "x = f" "f \<noteq> 0" "dseg (fld bh_free_list_next_ptr (headers s)) pv f (bh_free_list_next_ptr h) fs t 0"
    using Cons.prems(1) h by (auto simp: fld_Some)
  have sz: "block_size (headers s) f = unat (bh_size h)" using h by (simp add: block_size_def fld_Some)
  show ?case
  proof (cases "amount \<le> bh_size h")
    case True
    then show ?thesis using h x sz by (subst find_free_from.simps) (simp add: word_le_nat_alt)
  next
    case False
    then have "block_size (headers s) f < unat amount" using sz by (simp add: word_le_nat_alt)
    moreover obtain r where "find_free_from amount (bh_free_list_next_ptr h) s = Some (Inr (r, s))"
      "r = 0 \<and> (\<forall>f \<in> set fs. block_size (headers s) f < unat amount) \<or>
       r \<in> set fs \<and> unat amount \<le> block_size (headers s) r"
      using Cons.IH [OF x(3)] Cons.prems(2) by auto
    ultimately show ?thesis using h x False by (subst find_free_from.simps) auto
  qed
qed

lemma find_free_block_run:
  assumes "free_list (headers s) (free_list_head s) fs" "\<And>f. f \<in> set fs \<Longrightarrow> headers s f \<noteq> None"
  obtains r where "find_free_block amount s = Inr (r, s)"
    "r = 0 \<and> (\<forall>f \<in> set fs. block_size (headers s) f < unat amount) \<or>
     r \<in> set fs \<and> unat amount \<le> block_size (headers s) r"
proof -
  obtain t where "dseg (fld bh_free_list_next_ptr (headers s)) (fld bh_free_list_prev_ptr (headers s)) 0 (free_list_head s) fs t 0"
    using assms(1) by (auto simp: free_list_def dll_def)
  from find_free_from_list [OF this assms(2), of amount] that show ?thesis
    by (auto simp: find_free_block_def)
qed

lemma last_block_from_list:
  assumes "dseg (fld bh_next_ptr (headers s)) pv b x bs t 0" "\<And>f. f \<in> set bs \<Longrightarrow> headers s f \<noteq> None"
  shows "last_block_from x s = Some (Inr (if bs = [] then 0 else last bs, s))"
  using assms
proof (induction bs arbitrary: b x)
  case Nil
  then show ?case by (simp add: last_block_from.simps)
next
  case (Cons c bs)
  obtain h where h: "headers s c = Some h" using Cons.prems(2) [of c] by auto
  have x: "x = c" "c \<noteq> 0" and d: "dseg (fld bh_next_ptr (headers s)) pv c (bh_next_ptr h) bs t 0"
    using Cons.prems(1) h by (auto simp: fld_Some)
  have "bh_next_ptr h = 0 \<longleftrightarrow> bs = []" using d by (cases bs) auto
  moreover have "last_block_from (bh_next_ptr h) s = Some (Inr (if bs = [] then 0 else last bs, s))"
    using Cons.IH [OF d] Cons.prems(2) by simp
  ultimately show ?case using h x by (subst last_block_from.simps) simp
qed

lemma get_last_block_header_run:
  assumes "block_list (headers s) (block_list_head s) bs" "\<And>f. f \<in> set bs \<Longrightarrow> headers s f \<noteq> None" "bs \<noteq> []"
  shows "get_last_block_header s = Inr (last bs, s)"
proof -
  obtain t where "dseg (fld bh_next_ptr (headers s)) (fld bh_prev_ptr (headers s)) 0 (block_list_head s) bs t 0"
    using assms(1) by (auto simp: block_list_def dll_def)
  from last_block_from_list [OF this assms(2)] assms(3) show ?thesis
    by (simp add: get_last_block_header_def)
qed

lemma pages_needed_size:
  assumes "unat amount + 4152 < 2 ^ 64"
  shows "unat amount + 56 \<le> unat (pages_needed amount) * 4096"
    "unat (pages_needed amount) * 4096 \<le> unat amount + 56 + 4095" "0 < unat (pages_needed amount)"
    "unat (pages_needed amount * HEAP_PAGE_SIZE) = unat (pages_needed amount) * 4096"
proof -
  have a: "unat (amount + HEADER_SIZE) = unat amount + 56" using assms by (subst unat_add_no_wrap) simp_all
  have d: "unat ((amount + HEADER_SIZE) div HEAP_PAGE_SIZE) = (unat amount + 56) div 4096"
    "unat ((amount + HEADER_SIZE) mod HEAP_PAGE_SIZE) = (unat amount + 56) mod 4096"
    using a by (simp_all add: unat_div unat_mod)
  have "unat ((amount + HEADER_SIZE) div HEAP_PAGE_SIZE + 1) = (unat amount + 56) div 4096 + 1"
    using d(1) assms by (subst unat_add_no_wrap) simp_all
  then have n: "unat (pages_needed amount) =
      (if (unat amount + 56) mod 4096 = 0 then (unat amount + 56) div 4096 else (unat amount + 56) div 4096 + 1)"
    using d by (auto simp: pages_needed_def Let_def unat_eq_0 word_unat_eq_iff)
  obtain k r where kr: "k = (unat amount + 56) div 4096" "r = (unat amount + 56) mod 4096" "r < 4096"
    "k * 4096 + r = unat amount + 56" by (metis div_mult_mod_eq mod_less_divisor zero_less_numeral)
  then have "unat (pages_needed amount) = (if r = 0 then k else k + 1)" using n by simp
  then show le: "unat amount + 56 \<le> unat (pages_needed amount) * 4096"
    "unat (pages_needed amount) * 4096 \<le> unat amount + 56 + 4095" "0 < unat (pages_needed amount)"
    using kr(3,4) by (auto split: if_splits)
  show "unat (pages_needed amount * HEAP_PAGE_SIZE) = unat (pages_needed amount) * 4096"
    using le assms by (subst unat_mult_no_wrap) simp_all
qed

section \<open>The heap\<close>

definition heap_shape :: "'k block_allocator \<Rightarrow> u64 list \<Rightarrow> u64 list \<Rightarrow> nat \<Rightarrow> bool" where
  "heap_shape s bs fs e \<longleftrightarrow> block_list (headers s) (block_list_head s) bs \<and>
     free_list (headers s) (free_list_head s) fs \<and>
     tiles (headers s) (virtual_base s) (unat (virtual_base s)) bs e \<and> e < 2 ^ 64 \<and> bs \<noteq> [] \<and>
     set fs = {b \<in> set bs. block_free (headers s) b}"

lemma heap_shapeD:
  assumes "heap_shape s bs fs e"
  shows "block_list (headers s) (block_list_head s) bs" "free_list (headers s) (free_list_head s) fs"
    "tiles (headers s) (virtual_base s) (unat (virtual_base s)) bs e" "e < 2 ^ 64" "bs \<noteq> []"
    "set fs = {b \<in> set bs. block_free (headers s) b}" "distinct bs" "distinct fs" "0 \<notin> set bs"
  using assms tiles_distinct free_list_distinct block_list_nonnull unfolding heap_shape_def by blast+

lemma heap_header:
  assumes "heap_shape s bs fs e" "b \<in> set bs"
  obtains h where "headers s b = Some h" "bh_magic h = BLOCK_ALLOCATOR_BLOCK_MAGIC"
    "virtual_base s + bh_offset h = b + HEADER_SIZE" "unat (virtual_base s) \<le> unat b"
    "unat b + 56 + unat (bh_size h) \<le> e"
  using tiles_member [OF heap_shapeD(3) [OF assms(1)] assms(2)] by (auto simp: block_size_def fld_Some)

lemma set_header_run: "headers s b = Some h \<Longrightarrow> set_header b f s = Inr ((), s\<lparr>headers := (headers s)(b \<mapsto> f h)\<rparr>)"
  by (cases s) simp

lemma heap_header_Some: "heap_shape s bs fs e \<Longrightarrow> b \<in> set bs \<Longrightarrow> headers s b \<noteq> None"
  by (erule heap_header) auto

lemma free_header_Some: "heap_shape s bs fs e \<Longrightarrow> f \<in> set fs \<Longrightarrow> headers s f \<noteq> None"
  using heap_header_Some heap_shapeD(6) by blast

text \<open>A free block leaves the free list and becomes used.\<close>

lemma take_block:
  fixes s :: "'k block_allocator"
  assumes s: "heap_shape s bs fs e" and b: "b \<in> set fs"
  obtains x m where "thn (set_header b (\<lambda>h. h\<lparr>bh_is_free := 0\<rparr>)) (remove_block_from_free_list b) s =
      Inr ((), s\<lparr>free_list_head := x, headers := m\<rparr>)"
    "heap_shape (s\<lparr>free_list_head := x, headers := m\<rparr>) bs (removeAll b fs) e"
    "block_size m = block_size (headers s)" "block_free m = (block_free (headers s))(b := False)"
proof -
  note d = heap_shapeD [OF s]
  obtain us vs where fs: "fs = us @ b # vs" using b by (auto dest: split_list)
  obtain h where h: "headers s b = Some h" using free_header_Some [OF s b] by blast
  let ?m = "(headers s)(b \<mapsto> h\<lparr>bh_is_free := 0\<rparr>)" let ?s = "s\<lparr>headers := ?m\<rparr>"
  have sl: "same block_links (headers s) ?m" "same free_links (headers s) ?m"
    using h by (simp_all add: same_def block_parts)
  have t: "tiles ?m (virtual_base s) (unat (virtual_base s)) bs e"
    by (rule tiles_cong [OF _ d(3)]) (use h in auto)
  have fl: "free_list (headers ?s) (free_list_head ?s) (us @ b # vs)"
    using d(2) fs free_list_same [OF sl(2)] by simp
  have hs: "\<And>f. f \<in> set (us @ b # vs) \<Longrightarrow> headers ?s f \<noteq> None" using free_header_Some [OF s] fs by auto
  obtain x m where run: "remove_block_from_free_list b ?s = Inr ((), ?s\<lparr>free_list_head := x, headers := m\<rparr>)"
    and m: "free_list m x (us @ vs)" "same block_core (headers ?s) m" "same block_links (headers ?s) m"
    by (rule remove_free [OF fl hs])
  note m = m [simplified]
  have rm: "removeAll b fs = us @ vs" using d(8) fs by auto
  have bl: "block_list m (block_list_head s) bs"
    using d(1) block_list_same [OF same_trans [OF sl(1) m(3)]] by simp
  have sz: "block_size m = block_size (headers s)"
    using core_same(1) [OF m(2)] h by (simp add: block_size_def fld_Some fun_eq_iff)
  have fr: "block_free m = (block_free (headers s))(b := False)"
    using core_same(2) [OF m(2)] by simp
  have "set (us @ vs) = {c \<in> set bs. block_free m c}" using d(6,8) fs fr by auto
  then have "heap_shape (s\<lparr>free_list_head := x, headers := m\<rparr>) bs (removeAll b fs) e"
    using d m(1) bl core_same(3) [OF m(2) t] rm by (simp add: heap_shape_def)
  moreover have "thn (set_header b (\<lambda>h. h\<lparr>bh_is_free := 0\<rparr>)) (remove_block_from_free_list b) s =
      Inr ((), s\<lparr>free_list_head := x, headers := m\<rparr>)" using run by (simp add: set_header_run [OF h] del: assign_run)
  ultimately show ?thesis using that sz fr by blast
qed

text \<open>A used block becomes free and enters the free list.\<close>

lemma release_block:
  fixes s :: "'k block_allocator"
  assumes s: "heap_shape s bs fs e" and b: "b \<in> set bs" "\<not> block_free (headers s) b"
  obtains m where "thn (set_header b (\<lambda>h. h\<lparr>bh_is_free := 1\<rparr>)) (add_block_to_free_list b) s =
      Inr ((), s\<lparr>free_list_head := b, headers := m\<rparr>)"
    "heap_shape (s\<lparr>free_list_head := b, headers := m\<rparr>) bs (b # fs) e"
    "block_size m = block_size (headers s)" "block_free m = (block_free (headers s))(b := True)"
proof -
  note d = heap_shapeD [OF s]
  obtain h where h: "headers s b = Some h" using heap_header_Some [OF s b(1)] by blast
  let ?m = "(headers s)(b \<mapsto> h\<lparr>bh_is_free := 1\<rparr>)" let ?s = "s\<lparr>headers := ?m\<rparr>"
  have sl: "same block_links (headers s) ?m" "same free_links (headers s) ?m"
    using h by (simp_all add: same_def block_parts)
  have t: "tiles ?m (virtual_base s) (unat (virtual_base s)) bs e"
    by (rule tiles_cong [OF _ d(3)]) (use h in auto)
  have fl: "free_list (headers ?s) (free_list_head ?s) fs" using d(2) free_list_same [OF sl(2)] by simp
  have nb: "b \<notin> set fs" "b \<noteq> 0" using d(6,9) b by auto
  have hs: "headers ?s b \<noteq> None" "\<And>f. f \<in> set fs \<Longrightarrow> headers ?s f \<noteq> None" using free_header_Some [OF s] by auto
  obtain m where run: "add_block_to_free_list b ?s = Inr ((), ?s\<lparr>free_list_head := b, headers := m\<rparr>)"
    and m: "free_list m b (b # fs)" "same block_core (headers ?s) m" "same block_links (headers ?s) m"
    by (rule add_block_to_free_list_run [OF fl nb hs])
  note m = m [simplified]
  have bl: "block_list m (block_list_head s) bs"
    using d(1) block_list_same [OF same_trans [OF sl(1) m(3)]] by simp
  have sz: "block_size m = block_size (headers s)"
    using core_same(1) [OF m(2)] h by (simp add: block_size_def fld_Some fun_eq_iff)
  have fr: "block_free m = (block_free (headers s))(b := True)" using core_same(2) [OF m(2)] by simp
  have "set (b # fs) = {c \<in> set bs. block_free m c}" using d(6) fr b by auto
  then have "heap_shape (s\<lparr>free_list_head := b, headers := m\<rparr>) bs (b # fs) e"
    using d m(1) bl core_same(3) [OF m(2) t] by (simp add: heap_shape_def)
  moreover have "thn (set_header b (\<lambda>h. h\<lparr>bh_is_free := 1\<rparr>)) (add_block_to_free_list b) s =
      Inr ((), s\<lparr>free_list_head := b, headers := m\<rparr>)" using run by (simp add: set_header_run [OF h] del: assign_run)
  ultimately show ?thesis using that sz fr by blast
qed

text \<open>Splitting a block: the remainder is a free block behind it.\<close>

lemma split_shape:
  fixes s :: "'k block_allocator"
  assumes s: "heap_shape s (us @ b # vs) fs e" and h: "headers s b = Some h"
    and am: "amount \<le> bh_size h" "HEADER_SIZE < bh_size h - amount"
  defines "r \<equiv> b + amount + HEADER_SIZE"
  obtains m where "split_block b amount s = Inr ((), s\<lparr>free_list_head := r, headers := m\<rparr>)"
    "heap_shape (s\<lparr>free_list_head := r, headers := m\<rparr>) (us @ b # r # vs) (r # fs) e"
    "r \<notin> set (us @ b # vs)"
    "block_size m = (block_size (headers s))(b := unat amount, r := unat (bh_size h - amount - HEADER_SIZE))"
    "block_free m = (block_free (headers s))(r := True)"
proof -
  note d = heap_shapeD [OF s]
  let ?n = "bh_next_ptr h"
  let ?h = "h\<lparr>bh_size := amount, bh_next_ptr := r\<rparr>"
  let ?k = "new_header (bh_offset h + amount + HEADER_SIZE) (bh_size h - amount - HEADER_SIZE) b ?n"
  let ?m2 = "(headers s)(b \<mapsto> ?h, r \<mapsto> ?k)"
  note k_defs = new_header_def
  note sp = tiles_split [OF d(3,4) h am, of ?h ?k, folded r_def, simplified k_defs block_header.simps, simplified]
  have rn: "r \<notin> set (us @ b # vs)" and t: "tiles ?m2 (virtual_base s) (unat (virtual_base s)) (us @ b # r # vs) e"
    using sp by (simp_all add: k_defs)
  have u: "unat r = unat b + unat amount + 56" using sp(1) .
  have r0: "r \<noteq> 0" using u by auto
  obtain t0 where dl: "dll (fld bh_next_ptr (headers s)) (fld bh_prev_ptr (headers s)) (block_list_head s) t0 (us @ b # vs)"
    using d(1) by (auto simp: block_list_def)
  have n: "?n = (if vs = [] then 0 else hd vs)" using dll_next [OF dl] h by (simp add: fld_Some)
  then have nm: "?n \<in> set vs" if "?n \<noteq> 0" using that by (auto split: if_splits)
  obtain hn where hn: "?n \<noteq> 0 \<Longrightarrow> headers s ?n = Some hn" using nm heap_header_Some [OF s] by fastforce
  let ?m3 = "if ?n = 0 then ?m2 else ?m2(?n \<mapsto> hn\<lparr>bh_prev_ptr := r\<rparr>)"
  have ne: "?n \<noteq> b" "?n \<noteq> r" if "?n \<noteq> 0" using nm [OF that] rn d(7) by auto
  let ?s = "s\<lparr>headers := ?m3\<rparr>"
  have pre: "split_block b amount s = add_block_to_free_list r ?s"
    using h am(2) hn ne rn unfolding r_def [symmetric]
    by (cases s) (simp add: split_block_def Let_def r_def [symmetric] not_le [symmetric] k_defs split: if_splits)
  have core: "same block_core ?m2 ?m3" using hn ne by (auto simp: same_def block_parts)
  have bl: "block_list ?m3 (block_list_head s) (us @ b # r # vs)"
  proof -
    have eq: "fld bh_next_ptr ?m3 = (fld bh_next_ptr (headers s))(b := r, r := fld bh_next_ptr (headers s) b)"
      "fld bh_prev_ptr ?m3 = (if fld bh_next_ptr (headers s) b = 0 then (fld bh_prev_ptr (headers s))(r := b)
         else (fld bh_prev_ptr (headers s))(r := b, fld bh_next_ptr (headers s) b := r))"
      using h hn ne rn by (auto simp: fun_eq_iff fld_Some k_defs)
    show ?thesis unfolding block_list_def eq using dll_insert_after [OF dl r0 rn] by blast
  qed
  have rf: "r \<notin> set fs" using rn d(6) by auto
  have fl: "free_list (headers ?s) (free_list_head ?s) fs"
  proof -
    have "fld bh_free_list_next_ptr ?m3 = (fld bh_free_list_next_ptr (headers s))(r := 0)"
      "fld bh_free_list_prev_ptr ?m3 = (fld bh_free_list_prev_ptr (headers s))(r := 0)"
      using h hn ne rn by (auto simp: fun_eq_iff fld_Some k_defs)
    then show ?thesis using d(2) rf by (auto simp: free_list_def)
  qed
  have hs: "headers ?s r \<noteq> None" "\<And>f. f \<in> set fs \<Longrightarrow> headers ?s f \<noteq> None" using free_header_Some [OF s] ne by auto
  obtain m where run: "add_block_to_free_list r ?s = Inr ((), ?s\<lparr>free_list_head := r, headers := m\<rparr>)"
    and m: "free_list m r (r # fs)" "same block_core (headers ?s) m" "same block_links (headers ?s) m"
    by (rule add_block_to_free_list_run [OF fl rf r0 hs])
  have cm: "same block_core ?m2 m" using same_trans [OF core] m(2) by simp
  have sz: "block_size m = (block_size (headers s))(b := unat amount, r := unat (bh_size h - amount - HEADER_SIZE))"
    using core_same(1) [OF cm] by (simp add: k_defs)
  have fr: "block_free m = (block_free (headers s))(r := True)"
    using core_same(2) [OF cm] h rn by (auto simp: k_defs fun_eq_iff block_free_def fld_Some)
  have "set (r # fs) = {c \<in> set (us @ b # r # vs). block_free m c}" using d(6) fr rn by auto
  moreover have "block_list m (block_list_head s) (us @ b # r # vs)" using bl block_list_same [OF m(3)] by simp
  ultimately have "heap_shape (s\<lparr>free_list_head := r, headers := m\<rparr>) (us @ b # r # vs) (r # fs) e"
    using d(4) m(1) core_same(3) [OF cm t] by (simp add: heap_shape_def)
  then show ?thesis using that run pre rn sz fr by simp
qed

text \<open>Joining a block with its successor, which leaves the block list.\<close>

lemma unlink_second:
  assumes d: "dll nx pv h t (us @ b # c # vs)"
  shows "\<exists>t'. dll (nx(b := nx c)) (if nx c = 0 then pv else pv(nx c := b)) h t' (us @ b # vs)"
    and "pv c = b" "nx c = (if vs = [] then 0 else hd vs)" "b \<noteq> 0"
proof -
  have d': "dll nx pv h t ((us @ [b]) @ c # vs)" using d by simp
  show p: "pv c = b" and "nx c = (if vs = [] then 0 else hd vs)"
    using dll_prev [OF d'] dll_next [OF d'] by simp_all
  show b: "b \<noteq> 0" using dll_nonnull [OF d] by auto
  show "\<exists>t'. dll (nx(b := nx c)) (if nx c = 0 then pv else pv(nx c := b)) h t' (us @ b # vs)"
    using dll_unlink [OF d'] b unfolding p by auto
qed

lemma join_blocks:
  fixes s :: "'k block_allocator"
  assumes s: "heap_shape s (us @ b # c # vs) fs e" and h: "headers s b = Some h" and k: "headers s c = Some k"
  obtains m where "thn (set_header b (\<lambda>x. x\<lparr>bh_next_ptr := bh_next_ptr k, bh_size := bh_size x + (HEADER_SIZE + bh_size k)\<rparr>))
        (remove_block_from_block_list c) s = Inr ((), s\<lparr>headers := m\<rparr>)"
    "block_list m (block_list_head s) (us @ b # vs)" "tiles m (virtual_base s) (unat (virtual_base s)) (us @ b # vs) e"
    "same free_links (headers s) m" "block_free m = block_free (headers s)"
    "block_size m = (block_size (headers s))(b := block_size (headers s) b + 56 + block_size (headers s) c)"
proof -
  note d = heap_shapeD [OF s]
  obtain t where dl: "dll (fld bh_next_ptr (headers s)) (fld bh_prev_ptr (headers s)) (block_list_head s) t (us @ b # c # vs)"
    using d(1) by (auto simp: block_list_def)
  note un = unlink_second [OF dl]
  let ?n = "bh_next_ptr k"
  have n: "?n = (if vs = [] then 0 else hd vs)" and pk: "bh_prev_ptr k = b" using un(2,3) k by (simp_all add: fld_Some)
  have nm: "?n \<in> set vs" if "?n \<noteq> 0" using that n by (auto split: if_splits)
  let ?h = "h\<lparr>bh_next_ptr := ?n, bh_size := bh_size h + (HEADER_SIZE + bh_size k)\<rparr>"
  let ?m = "(headers s)(b \<mapsto> ?h)" let ?s = "s\<lparr>headers := ?m\<rparr>"
  have bc: "b \<noteq> c" using d(7) by auto
  have sk: "headers ?s c = Some k" using k bc by simp
  note j = tiles_join [OF d(3,4) h k, of ?h, simplified]
  obtain m where run: "remove_block_from_block_list c ?s =
        Inr ((), ?s\<lparr>block_list_head := if b = 0 then ?n else block_list_head ?s, headers := m\<rparr>)"
    and m: "fld bh_next_ptr m = (if b = 0 then fld bh_next_ptr (headers ?s) else (fld bh_next_ptr (headers ?s))(b := ?n))(c := 0)"
      "fld bh_prev_ptr m = (if ?n = 0 then fld bh_prev_ptr (headers ?s) else (fld bh_prev_ptr (headers ?s))(?n := b))(c := 0)"
      "same block_core (headers ?s) m" "same free_links (headers ?s) m"
  proof (rule remove_block_from_block_list_run [OF sk pk [symmetric] refl])
    show "headers ?s b \<noteq> None \<and> b \<noteq> c" using bc by simp
    show "headers ?s ?n \<noteq> None \<and> ?n \<noteq> c" if "?n \<noteq> 0"
      using nm [OF that] d(7) heap_header_Some [OF s, of ?n] by auto
    show "?n \<noteq> b" using nm d(7) un(4) by auto
  qed
  have "fld bh_prev_ptr ?m = fld bh_prev_ptr (headers s)"
    using fld_upd_same [of "headers s" b h bh_prev_ptr ?h] h by simp
  then have eq: "fld bh_next_ptr m = (fld bh_next_ptr (headers s))(b := fld bh_next_ptr (headers s) c, c := 0)"
    "fld bh_prev_ptr m = (if fld bh_next_ptr (headers s) c = 0 then fld bh_prev_ptr (headers s)
       else (fld bh_prev_ptr (headers s))(fld bh_next_ptr (headers s) c := b))(c := 0)"
    using m(1,2) un(4) k by (simp_all add: fld_Some)
  have "c \<notin> set (us @ b # vs)" using d(7) by auto
  then have bl: "block_list m (block_list_head s) (us @ b # vs)"
    unfolding block_list_def eq using un(1) by auto
  have t: "tiles m (virtual_base s) (unat (virtual_base s)) (us @ b # vs) e"
    using core_same(3) [OF m(3)] j(1) by simp
  have "same free_links (headers s) ?m" using h by (simp add: same_def block_parts)
  then have fl: "same free_links (headers s) m" using m(4) by (auto intro: same_trans)
  have fr: "block_free m = block_free (headers s)"
    using core_same(2) [OF m(3)] h by (simp add: block_free_def fld_Some fun_eq_iff)
  have sz: "block_size m = (block_size (headers s))(b := block_size (headers s) b + 56 + block_size (headers s) c)"
    using core_same(1) [OF m(3)] h k j(2) by (simp add: block_size_def fld_Some fun_eq_iff)
  have "thn (set_header b (\<lambda>x. x\<lparr>bh_next_ptr := ?n, bh_size := bh_size x + (HEADER_SIZE + bh_size k)\<rparr>))
      (remove_block_from_block_list c) s = Inr ((), s\<lparr>headers := m\<rparr>)"
    using run un(4) by (simp add: set_header_run [OF h] del: assign_run)
  from that [OF this bl t fl fr sz] show ?thesis .
qed

text \<open>Joining a used block with both neighbours.\<close>

lemma same_links: "same block_links m m' \<Longrightarrow> fld bh_next_ptr m' = fld bh_next_ptr m \<and> fld bh_prev_ptr m' = fld bh_prev_ptr m"
  using same_fld [of block_links m m' bh_next_ptr] same_fld [of block_links m m' bh_prev_ptr] by (simp add: block_links_def)

lemma join_both:
  fixes s :: "'k block_allocator"
  assumes s: "heap_shape s (us @ p # b # c # vs) fs e" and hp: "headers s p = Some hp" and h: "headers s b = Some h"
    and k: "headers s c = Some k" and fr: "c \<in> set fs" "b \<notin> set fs"
  obtains x m where "thn (set_header p (\<lambda>x. x\<lparr>bh_next_ptr := bh_next_ptr k,
        bh_size := bh_size x + (2 * HEADER_SIZE + bh_size h + bh_size k)\<rparr>))
      (thn (remove_block_from_free_list c) (thn (remove_block_from_block_list c) (remove_block_from_block_list b))) s =
      Inr ((), s\<lparr>free_list_head := x, headers := m\<rparr>)"
    "heap_shape (s\<lparr>free_list_head := x, headers := m\<rparr>) (us @ p # vs) (removeAll c fs) e"
    "block_free m = block_free (headers s)"
    "block_size m = (block_size (headers s))(p := block_size (headers s) p + 56 + block_size (headers s) b + 56 + block_size (headers s) c)"
proof -
  note d = heap_shapeD [OF s]
  let ?nx = "fld bh_next_ptr (headers s)" and ?pv = "fld bh_prev_ptr (headers s)" and ?n = "bh_next_ptr k"
  obtain t where dl: "dll ?nx ?pv (block_list_head s) t (us @ p # b # c # vs)" using d(1) by (auto simp: block_list_def)
  then have dl': "dll ?nx ?pv (block_list_head s) t ((us @ [p]) @ b # c # vs)" by simp
  note un = unlink_second [OF dl']
  obtain t' where u1: "dll (?nx(b := ?nx c)) (if ?nx c = 0 then ?pv else ?pv(?nx c := b)) (block_list_head s) t' (us @ p # b # vs)"
    using un(1) by auto
  note un2 = unlink_second [OF u1] and p0 = unlink_second(4) [OF dl]
  have n: "?n = (if vs = [] then 0 else hd vs)" "?nx c = ?n" and pk: "?pv c = b" and ph: "?pv b = p"
    using un(2,3) unlink_second(2) [OF dl] k by (simp_all add: fld_Some)
  have nm: "?n \<in> set vs" if "?n \<noteq> 0" using that n by (auto split: if_splits)
  have dis: "p \<noteq> b" "p \<noteq> c" "b \<noteq> c" "?n \<noteq> p" "?n \<noteq> b" "?n \<noteq> c"
    and out: "b \<notin> set (us @ p # vs)" "c \<notin> set (us @ p # vs)" using d(7,9) nm by auto
  have hn: "headers s ?n \<noteq> None" if "?n \<noteq> 0" using nm [OF that] heap_header_Some [OF s, of ?n] by auto
  let ?h = "hp\<lparr>bh_next_ptr := ?n, bh_size := bh_size hp + (2 * HEADER_SIZE + bh_size h + bh_size k)\<rparr>"
  let ?m1 = "(headers s)(p \<mapsto> ?h)" let ?s1 = "s\<lparr>headers := ?m1\<rparr>"
  have t: "tiles ?m1 (virtual_base s) (unat (virtual_base s)) (us @ p # vs) e"
    and sz: "unat (bh_size ?h) = unat (bh_size hp) + 56 + unat (bh_size h) + 56 + unat (bh_size k)"
  proof -
    let ?h1 = "hp\<lparr>bh_size := bh_size hp + (HEADER_SIZE + bh_size h)\<rparr>"
    note j1 = tiles_join [OF d(3,4) hp h, of ?h1, simplified]
    have "((headers s)(p \<mapsto> ?h1)) c = Some k" using k dis by simp
    note j2 = tiles_join [OF j1(1) d(4) _ this, of ?h1 ?h]
    have eq: "((headers s)(p \<mapsto> ?h1))(p \<mapsto> ?h) = ?m1" by (rule fun_upd_upd)
    show "tiles ?m1 (virtual_base s) (unat (virtual_base s)) (us @ p # vs) e"
      using j2(1) unfolding eq by (simp add: ac_simps)
    show "unat (bh_size ?h) = unat (bh_size hp) + 56 + unat (bh_size h) + 56 + unat (bh_size k)"
      using j2(2) j1(2) by (simp add: ac_simps)
  qed
  have "same free_links (headers s) ?m1" using hp by (simp add: same_def block_parts)
  then have fl1: "free_list (headers ?s1) (free_list_head ?s1) fs" using d(2) free_list_same by simp
  obtain ws zs where fs: "fs = ws @ c # zs" using fr(1) by (auto dest: split_list)
  have hs: "\<And>f. f \<in> set (ws @ c # zs) \<Longrightarrow> headers ?s1 f \<noteq> None" using free_header_Some [OF s] fs by auto
  obtain x m2 where r2: "remove_block_from_free_list c ?s1 = Inr ((), ?s1\<lparr>free_list_head := x, headers := m2\<rparr>)"
    and m2: "free_list m2 x (ws @ zs)" "same block_core (headers ?s1) m2" "same block_links (headers ?s1) m2"
    by (rule remove_free [OF fl1 [unfolded fs] hs])
  let ?s2 = "?s1\<lparr>free_list_head := x, headers := m2\<rparr>"
  have l2: "fld bh_next_ptr m2 = ?nx(p := ?n)" "fld bh_prev_ptr m2 = ?pv"
    using same_links [OF m2(3)] hp by (simp_all add: fun_eq_iff fld_Some)
  have ex2: "m2 y \<noteq> None" if "headers s y \<noteq> None" for y using same_None [OF m2(2)] that by auto
  obtain k2 where k2: "headers ?s2 c = Some k2" using ex2 k by fastforce
  have lk2: "bh_prev_ptr k2 = b" "bh_next_ptr k2 = ?n"
    using fun_cong [OF l2(1), of c] fun_cong [OF l2(2), of c] k2 dis pk k by (simp_all add: fld_Some)
  have okn: "headers ?s2 b \<noteq> None \<and> b \<noteq> c" "?n \<noteq> 0 \<Longrightarrow> headers ?s2 ?n \<noteq> None \<and> ?n \<noteq> c" "?n \<noteq> b"
    using dis ex2 [of b] h ex2 [OF hn] by auto
  obtain m3 where r3: "remove_block_from_block_list c ?s2 =
        Inr ((), ?s2\<lparr>block_list_head := if b = 0 then ?n else block_list_head ?s2, headers := m3\<rparr>)"
    and m3: "fld bh_next_ptr m3 = (if b = 0 then fld bh_next_ptr (headers ?s2) else (fld bh_next_ptr (headers ?s2))(b := ?n))(c := 0)"
      "fld bh_prev_ptr m3 = (if ?n = 0 then fld bh_prev_ptr (headers ?s2) else (fld bh_prev_ptr (headers ?s2))(?n := b))(c := 0)"
      "same block_core (headers ?s2) m3" "same free_links (headers ?s2) m3"
    by (rule remove_block_from_block_list_run [OF k2 lk2 [symmetric] okn])
  have b0: "b \<noteq> 0" by (rule un(4))
  let ?s3 = "?s2\<lparr>headers := m3\<rparr>"
  have ex3: "m3 y \<noteq> None" if "headers s y \<noteq> None" for y using same_None [OF m3(3)] ex2 [OF that] by auto
  obtain h3 where h3: "headers ?s3 b = Some h3" using ex3 h by fastforce
  have lk3: "bh_prev_ptr h3 = p" "bh_next_ptr h3 = ?n"
    using fun_cong [OF m3(1), of b] fun_cong [OF m3(2), of b] h3 dis l2 b0 ph by (simp_all add: fld_Some split: if_splits)
  have okb: "headers ?s3 p \<noteq> None \<and> p \<noteq> b" "?n \<noteq> 0 \<Longrightarrow> headers ?s3 ?n \<noteq> None \<and> ?n \<noteq> b" "?n \<noteq> p"
    using dis ex3 [of p] hp ex3 [OF hn] by auto
  obtain m where r: "remove_block_from_block_list b ?s3 =
        Inr ((), ?s3\<lparr>block_list_head := if p = 0 then ?n else block_list_head ?s3, headers := m\<rparr>)"
    and m: "fld bh_next_ptr m = (if p = 0 then fld bh_next_ptr (headers ?s3) else (fld bh_next_ptr (headers ?s3))(p := ?n))(b := 0)"
      "fld bh_prev_ptr m = (if ?n = 0 then fld bh_prev_ptr (headers ?s3) else (fld bh_prev_ptr (headers ?s3))(?n := p))(b := 0)"
      "same block_core (headers ?s3) m" "same free_links (headers ?s3) m"
    by (rule remove_block_from_block_list_run [OF h3 lk3 [symmetric] okb])
  have core: "same block_core ?m1 m" using m2(2) m3(3) m(3) by (auto intro: same_trans)
  have "free_list m x (ws @ zs)" using m2(1) free_list_same [OF same_trans [OF m3(4)]] m(4) by simp
  moreover have "removeAll c fs = ws @ zs" using d(8) fs by auto
  ultimately have fl: "free_list m x (removeAll c fs)" by simp
  have bl: "block_list m (block_list_head s) (us @ p # vs)"
  proof -
    obtain t'' where "dll (?nx(b := ?n, p := ?n)) (if ?n = 0 then ?pv else ?pv(?n := b, ?n := p)) (block_list_head s) t'' (us @ p # vs)"
      using un2(1) dis n(2) by (auto split: if_splits)
    moreover have eq: "fld bh_next_ptr m y = (?nx(b := ?n, p := ?n)) y"
      "fld bh_prev_ptr m y = (if ?n = 0 then ?pv else ?pv(?n := b, ?n := p)) y" if "y \<in> set (us @ p # vs)" for y
      using that out m(1,2) m3(1,2) l2 b0 p0 by (auto simp: fun_upd_def)
    have "dll (fld bh_next_ptr m) (fld bh_prev_ptr m) (block_list_head s) t'' (us @ p # vs) =
        dll (?nx(b := ?n, p := ?n)) (if ?n = 0 then ?pv else ?pv(?n := b, ?n := p)) (block_list_head s) t'' (us @ p # vs)"
      by (rule dll_cong [OF eq])
    ultimately show ?thesis unfolding block_list_def by blast
  qed
  have frm: "block_free m = block_free (headers s)"
    using core_same(2) [OF core] hp by (simp add: block_free_def fld_Some fun_eq_iff)
  have szm: "block_size m = (block_size (headers s))(p := block_size (headers s) p + 56 + block_size (headers s) b + 56 + block_size (headers s) c)"
    using core_same(1) [OF core] hp h k sz by (simp add: block_size_def fld_Some fun_eq_iff)
  have fsm: "set (removeAll c fs) = {y \<in> set (us @ p # vs). block_free m y}" using d(6) fr frm out by auto
  have "heap_shape (s\<lparr>free_list_head := x, headers := m\<rparr>) (us @ p # vs) (removeAll c fs) e"
    using d(4) bl fl core_same(3) [OF core t] fsm by (simp add: heap_shape_def)
  moreover have "thn (set_header p (\<lambda>x. x\<lparr>bh_next_ptr := bh_next_ptr k,
        bh_size := bh_size x + (2 * HEADER_SIZE + bh_size h + bh_size k)\<rparr>))
      (thn (remove_block_from_free_list c) (thn (remove_block_from_block_list c) (remove_block_from_block_list b))) s =
      Inr ((), s\<lparr>free_list_head := x, headers := m\<rparr>)"
    using r2 r3 r p0 b0 by (simp add: set_header_run [OF hp] del: assign_run)
  ultimately show ?thesis using that frm szm by blast
qed

section \<open>Freeing\<close>

text \<open>
  \<open>live m bs\<close> maps the address of every allocated block to its size; no two neighbours are free
  when the heap is coalesced.
\<close>

definition live :: "(u64 \<rightharpoonup> block_header) \<Rightarrow> u64 list \<Rightarrow> u64 \<rightharpoonup> nat" where
  "live m bs p = (if p - HEADER_SIZE \<in> set bs \<and> \<not> block_free m (p - HEADER_SIZE)
     then Some (block_size m (p - HEADER_SIZE)) else None)"

definition coalesced :: "(u64 \<rightharpoonup> block_header) \<Rightarrow> u64 list \<Rightarrow> bool" where
  "coalesced m bs \<longleftrightarrow> successively (\<lambda>b c. \<not> (block_free m b \<and> block_free m c)) bs"

lemma coalesced_cong: "(\<And>b. b \<in> set bs \<Longrightarrow> block_free m' b = block_free m b) \<Longrightarrow> coalesced m' bs = coalesced m bs"
  unfolding coalesced_def by (rule successively_cong) auto

lemma coalesced_append:
  "coalesced m (us @ b # vs) \<longleftrightarrow> coalesced m us \<and> coalesced m vs \<and>
     (us \<noteq> [] \<longrightarrow> \<not> (block_free m (last us) \<and> block_free m b)) \<and>
     (vs \<noteq> [] \<longrightarrow> \<not> (block_free m b \<and> block_free m (hd vs)))"
  by (auto simp: coalesced_def successively_append_iff successively_Cons)

lemma neighbour_free_run:
  assumes "q \<noteq> 0 \<Longrightarrow> headers s q \<noteq> None"
  shows "neighbour_free q s = Inr (q \<noteq> 0 \<and> block_free (headers s) q, s)"
proof (cases "q = 0")
  case False
  then obtain h where "headers s q = Some h" using assms by blast
  with False show ?thesis by (simp add: neighbour_free_def block_free_def fld_Some)
qed (simp add: neighbour_free_def)

text \<open>The block behind an allocated address, with its neighbours.\<close>

lemma heap_neighbours:
  assumes s: "heap_shape s (us @ b # vs) fs e"
  obtains h where "headers s b = Some h" "bh_magic h = BLOCK_ALLOCATOR_BLOCK_MAGIC"
    "bh_prev_ptr h = (if us = [] then 0 else last us)" "bh_next_ptr h = (if vs = [] then 0 else hd vs)"
    "neighbour_free (bh_prev_ptr h) s = Inr (us \<noteq> [] \<and> block_free (headers s) (last us), s)"
    "neighbour_free (bh_next_ptr h) s = Inr (vs \<noteq> [] \<and> block_free (headers s) (hd vs), s)"
proof -
  obtain h where h: "headers s b = Some h" "bh_magic h = BLOCK_ALLOCATOR_BLOCK_MAGIC"
    using heap_header [OF s, of b] by auto
  obtain t where dl: "dll (fld bh_next_ptr (headers s)) (fld bh_prev_ptr (headers s)) (block_list_head s) t (us @ b # vs)"
    using heap_shapeD(1) [OF s] by (auto simp: block_list_def)
  have p: "bh_prev_ptr h = (if us = [] then 0 else last us)" and n: "bh_next_ptr h = (if vs = [] then 0 else hd vs)"
    using dll_prev [OF dl] dll_next [OF dl] h(1) by (simp_all add: fld_Some)
  have mem: "q \<in> set (us @ b # vs) \<Longrightarrow> headers s q \<noteq> None \<and> q \<noteq> 0" for q
    using heap_header_Some [OF s] heap_shapeD(9) [OF s] by metis
  have "neighbour_free (bh_prev_ptr h) s = Inr (us \<noteq> [] \<and> block_free (headers s) (last us), s)"
    by (subst neighbour_free_run) (use p mem [of "last us"] in \<open>auto split: if_splits\<close>)
  moreover have "neighbour_free (bh_next_ptr h) s = Inr (vs \<noteq> [] \<and> block_free (headers s) (hd vs), s)"
    by (subst neighbour_free_run) (use n mem [of "hd vs"] in \<open>auto split: if_splits\<close>)
  ultimately show ?thesis using that h p n by blast
qed

lemma live_diff:
  assumes "\<And>q. q \<noteq> b \<Longrightarrow> q \<in> set bs' \<and> \<not> block_free m' q \<longleftrightarrow> q \<in> set bs \<and> \<not> block_free m q"
    and "\<And>q. q \<noteq> b \<Longrightarrow> q \<in> set bs \<Longrightarrow> \<not> block_free m q \<Longrightarrow> block_size m' q = block_size m q"
    and "b \<in> set bs' \<Longrightarrow> block_free m' b"
  shows "live m' bs' = (live m bs)(b + HEADER_SIZE := None)"
proof (rule ext)
  fix p
  show "live m' bs' p = ((live m bs)(b + HEADER_SIZE := None)) p"
  proof (cases "p - HEADER_SIZE = b")
    case True
    then have "p = b + HEADER_SIZE" by (auto simp: algebra_simps)
    then show ?thesis using assms(3) True by (simp add: live_def)
  next
    case False
    then have "p \<noteq> b + HEADER_SIZE" by auto
    then show ?thesis using assms(1,2) [OF False] by (auto simp: live_def)
  qed
qed

definition heap_step :: "'k block_allocator \<Rightarrow> 'k block_allocator \<Rightarrow> u64 list \<Rightarrow> nat \<Rightarrow> (u64 \<rightharpoonup> nat) \<Rightarrow> bool" where
  "heap_step s s' bs' e L' \<longleftrightarrow> (\<exists>fs'. heap_shape s' bs' fs' e) \<and> coalesced (headers s') bs' \<and> live (headers s') bs' = L' \<and>
     backend s' = backend s \<and> virtual_base s' = virtual_base s"

lemma heap_stepI:
  assumes "s' = s\<lparr>free_list_head := x, headers := m\<rparr>" "heap_shape s' bs' fs' e" "coalesced m bs'" "live m bs' = L'"
  shows "heap_step s s' bs' e L'"
  using assms unfolding heap_step_def by auto

lemma header_bound: "heap_shape s bs fs e \<Longrightarrow> b \<in> set bs \<Longrightarrow> unat (b + HEADER_SIZE) = unat b + 56"
proof -
  assume s: "heap_shape s bs fs e" "b \<in> set bs"
  have "unat b + 56 \<le> e" using heap_header [OF s] by fastforce
  then show "unat (b + HEADER_SIZE) = unat b + 56" using heap_shapeD(4) [OF s(1)] by (subst unat_add_no_wrap) simp_all
qed

text \<open>The case the code takes.\<close>

lemma block_allocator_free_run:
  fixes s :: "'k block_allocator"
  assumes s: "heap_shape s (us @ b # vs) fs e" and used: "\<not> block_free (headers s) b" and act: "active (backend s)"
  obtains h where "headers s b = Some h"
    "block_allocator_free active (b + HEADER_SIZE) s =
      (let F = block_free (headers s); prev = last us; next = hd vs in
       if us \<noteq> [] \<and> F prev \<and> vs \<noteq> [] \<and> F next then merge_both prev b next h
       else if us \<noteq> [] \<and> F prev then merge_prev prev b h
       else if vs \<noteq> [] \<and> F next then merge_next b next
       else mark_free b) s"
proof -
  obtain h where h: "headers s b = Some h" "bh_magic h = BLOCK_ALLOCATOR_BLOCK_MAGIC"
    and pp: "bh_prev_ptr h = (if us = [] then 0 else last us)" and nn: "bh_next_ptr h = (if vs = [] then 0 else hd vs)"
    and nb: "neighbour_free (bh_prev_ptr h) s = Inr (us \<noteq> [] \<and> block_free (headers s) (last us), s)"
      "neighbour_free (bh_next_ptr h) s = Inr (vs \<noteq> [] \<and> block_free (headers s) (hd vs), s)"
    by (rule heap_neighbours [OF s])
  have p0: "b + HEADER_SIZE \<noteq> 0" using header_bound [OF s, of b] by auto
  have nf: "bh_is_free h = 0" using used h(1) by (simp add: block_free_def fld_Some)
  have "block_allocator_free active (b + HEADER_SIZE) s =
     (if (us \<noteq> [] \<and> block_free (headers s) (last us)) \<and> vs \<noteq> [] \<and> block_free (headers s) (hd vs)
        then merge_both (bh_prev_ptr h) b (bh_next_ptr h) h
      else if us \<noteq> [] \<and> block_free (headers s) (last us) then merge_prev (bh_prev_ptr h) b h
      else if vs \<noteq> [] \<and> block_free (headers s) (hd vs) then merge_next b (bh_next_ptr h)
      else mark_free b) s"
    using p0 act h nf nb by (simp add: block_allocator_free_def Let_def)
  then show ?thesis using that [OF h(1)] pp nn by (auto simp: Let_def split: if_splits)
qed

lemma merge_both_step:
  fixes s :: "'k block_allocator"
  assumes s: "heap_shape s (ws @ q # b # c # zs) fs e" and co: "coalesced (headers s) (ws @ q # b # c # zs)"
    and F: "block_free (headers s) q" "\<not> block_free (headers s) b" "block_free (headers s) c" and h: "headers s b = Some h"
  shows "\<exists>s'. merge_both q b c h s = Inr ((), s') \<and>
    heap_step s s' (ws @ q # zs) e ((live (headers s) (ws @ q # b # c # zs))(b + HEADER_SIZE := None))"
proof -
  note d = heap_shapeD [OF s]
  obtain hq where hq: "headers s q = Some hq" using heap_header_Some [OF s, of q] by fastforce
  obtain hc where hc: "headers s c = Some hc" using heap_header_Some [OF s, of c] by fastforce
  have fs: "c \<in> set fs" "b \<notin> set fs" using d(6) F by auto
  obtain x m where r: "thn (set_header q (\<lambda>x. x\<lparr>bh_next_ptr := bh_next_ptr hc,
        bh_size := bh_size x + (2 * HEADER_SIZE + bh_size h + bh_size hc)\<rparr>))
      (thn (remove_block_from_free_list c) (thn (remove_block_from_block_list c) (remove_block_from_block_list b))) s =
      Inr ((), s\<lparr>free_list_head := x, headers := m\<rparr>)"
    and m: "heap_shape (s\<lparr>free_list_head := x, headers := m\<rparr>) (ws @ q # zs) (removeAll c fs) e" "block_free m = block_free (headers s)"
    "block_size m = (block_size (headers s))(q := block_size (headers s) q + 56 + block_size (headers s) b + 56 + block_size (headers s) c)"
    by (rule join_both [OF s hq h hc fs])
  have "coalesced m (ws @ q # zs)"
    using co F m(2) by (cases zs) (auto simp: coalesced_def successively_append_iff successively_Cons)
  moreover have "live m (ws @ q # zs) = (live (headers s) (ws @ q # b # c # zs))(b + HEADER_SIZE := None)"
    by (rule live_diff) (use m(2,3) F d(7) in auto)
  ultimately have "heap_step s (s\<lparr>free_list_head := x, headers := m\<rparr>) (ws @ q # zs) e
      ((live (headers s) (ws @ q # b # c # zs))(b + HEADER_SIZE := None))"
    using m(1) by (intro heap_stepI) simp_all
  moreover have "merge_both q b c h s = Inr ((), s\<lparr>free_list_head := x, headers := m\<rparr>)"
    using r hc unfolding merge_both_def by simp
  ultimately show ?thesis by blast
qed

lemma merge_prev_step:
  fixes s :: "'k block_allocator"
  assumes s: "heap_shape s (ws @ q # b # vs) fs e" and co: "coalesced (headers s) (ws @ q # b # vs)"
    and F: "block_free (headers s) q" "\<not> block_free (headers s) b" "vs = [] \<or> \<not> block_free (headers s) (hd vs)"
    and h: "headers s b = Some h"
  shows "\<exists>s'. merge_prev q b h s = Inr ((), s') \<and>
    heap_step s s' (ws @ q # vs) e ((live (headers s) (ws @ q # b # vs))(b + HEADER_SIZE := None))"
proof -
  note d = heap_shapeD [OF s]
  obtain hq where hq: "headers s q = Some hq" using heap_header_Some [OF s, of q] by fastforce
  obtain m where r: "thn (set_header q (\<lambda>x. x\<lparr>bh_next_ptr := bh_next_ptr h, bh_size := bh_size x + (HEADER_SIZE + bh_size h)\<rparr>))
      (remove_block_from_block_list b) s = Inr ((), s\<lparr>headers := m\<rparr>)"
    and m: "block_list m (block_list_head s) (ws @ q # vs)" "tiles m (virtual_base s) (unat (virtual_base s)) (ws @ q # vs) e"
    "same free_links (headers s) m" "block_free m = block_free (headers s)"
    "block_size m = (block_size (headers s))(q := block_size (headers s) q + 56 + block_size (headers s) b)"
    by (rule join_blocks [OF s hq h])
  have "set fs = {y \<in> set (ws @ q # vs). block_free m y}" using d(6) m(4) F(2) by auto
  then have "heap_shape (s\<lparr>headers := m\<rparr>) (ws @ q # vs) fs e"
    using d(2,4) m(1-3) free_list_same [OF m(3)] by (simp add: heap_shape_def)
  moreover have "coalesced m (ws @ q # vs)"
    using co F m(4) by (cases vs) (auto simp: coalesced_def successively_append_iff successively_Cons)
  moreover have "live m (ws @ q # vs) = (live (headers s) (ws @ q # b # vs))(b + HEADER_SIZE := None)"
    by (rule live_diff) (use m(4,5) F d(7) in auto)
  ultimately have "heap_step s (s\<lparr>headers := m\<rparr>) (ws @ q # vs) e
      ((live (headers s) (ws @ q # b # vs))(b + HEADER_SIZE := None))"
    by (intro heap_stepI [where x = "free_list_head s"]) simp_all
  then show ?thesis using r unfolding merge_prev_def by blast
qed

lemma mark_free_step:
  fixes s :: "'k block_allocator"
  assumes s: "heap_shape s (us @ b # vs) fs e" and F: "\<not> block_free (headers s) b"
    and nb: "us = [] \<or> \<not> block_free (headers s) (last us)" "vs = [] \<or> \<not> block_free (headers s) (hd vs)"
    and co: "coalesced (headers s) us" "coalesced (headers s) vs"
  shows "\<exists>s'. mark_free b s = Inr ((), s') \<and>
    heap_step s s' (us @ b # vs) e ((live (headers s) (us @ b # vs))(b + HEADER_SIZE := None))"
proof -
  note d = heap_shapeD [OF s]
  obtain m where r: "thn (set_header b (\<lambda>h. h\<lparr>bh_is_free := 1\<rparr>)) (add_block_to_free_list b) s =
        Inr ((), s\<lparr>free_list_head := b, headers := m\<rparr>)"
    and m: "heap_shape (s\<lparr>free_list_head := b, headers := m\<rparr>) (us @ b # vs) (b # fs) e"
      "block_size m = block_size (headers s)" "block_free m = (block_free (headers s))(b := True)"
    by (rule release_block [OF s _ F]) simp
  have "coalesced m (us @ b # vs)"
  proof -
    have "coalesced m us = coalesced (headers s) us" "coalesced m vs = coalesced (headers s) vs"
      by (rule coalesced_cong; use m(3) d(7) in auto)+
    moreover have "last us \<noteq> b" if "us \<noteq> []" using that d(7) by auto
    moreover have "hd vs \<noteq> b" if "vs \<noteq> []" using that d(7) by (cases vs) auto
    ultimately show ?thesis using nb m(3) co unfolding coalesced_append by auto
  qed
  moreover have "live m (us @ b # vs) = (live (headers s) (us @ b # vs))(b + HEADER_SIZE := None)"
    by (rule live_diff) (use m(2,3) in auto)
  ultimately have "heap_step s (s\<lparr>free_list_head := b, headers := m\<rparr>) (us @ b # vs) e
      ((live (headers s) (us @ b # vs))(b + HEADER_SIZE := None))"
    using m(1) by (intro heap_stepI) simp_all
  then show ?thesis using r unfolding mark_free_def by blast
qed

lemma live_ext:
  assumes "\<And>q. q \<noteq> b \<Longrightarrow> q \<in> set bs' \<and> \<not> block_free m' q \<longleftrightarrow> q \<in> set bs \<and> \<not> block_free m q"
    and "\<And>q. q \<noteq> b \<Longrightarrow> q \<in> set bs \<Longrightarrow> \<not> block_free m q \<Longrightarrow> block_size m' q = block_size m q"
  shows "(live m' bs')(b + HEADER_SIZE := x) = (live m bs)(b + HEADER_SIZE := x)"
proof (rule ext)
  fix p
  show "((live m' bs')(b + HEADER_SIZE := x)) p = ((live m bs)(b + HEADER_SIZE := x)) p"
  proof (cases "p = b + HEADER_SIZE")
    case False
    then have "p - HEADER_SIZE \<noteq> b" by (auto simp: algebra_simps)
    then show ?thesis using assms(1,2) False by (auto simp: live_def)
  qed simp
qed

lemma merge_next_step:
  fixes s :: "'k block_allocator"
  assumes s: "heap_shape s (us @ b # c # zs) fs e" and co: "coalesced (headers s) (us @ b # c # zs)"
    and F: "us = [] \<or> \<not> block_free (headers s) (last us)" "\<not> block_free (headers s) b" "block_free (headers s) c"
  shows "\<exists>s'. merge_next b c s = Inr ((), s') \<and>
    heap_step s s' (us @ b # zs) e ((live (headers s) (us @ b # c # zs))(b + HEADER_SIZE := None))"
proof -
  note d = heap_shapeD [OF s]
  obtain h where h: "headers s b = Some h" using heap_header_Some [OF s, of b] by fastforce
  obtain hc where hc: "headers s c = Some hc" using heap_header_Some [OF s, of c] by fastforce
  obtain m where r: "thn (set_header b (\<lambda>x. x\<lparr>bh_next_ptr := bh_next_ptr hc, bh_size := bh_size x + (HEADER_SIZE + bh_size hc)\<rparr>))
      (remove_block_from_block_list c) s = Inr ((), s\<lparr>headers := m\<rparr>)"
    and m: "block_list m (block_list_head s) (us @ b # zs)" "tiles m (virtual_base s) (unat (virtual_base s)) (us @ b # zs) e"
    "same free_links (headers s) m" "block_free m = block_free (headers s)"
    "block_size m = (block_size (headers s))(b := block_size (headers s) b + 56 + block_size (headers s) c)"
    by (rule join_blocks [OF s h hc])
  let ?s1 = "s\<lparr>headers := m\<rparr>"
  have "c \<in> set fs" using d(6) F by auto
  then obtain xs ys where cf: "fs = xs @ c # ys" by (auto dest: split_list)
  have fl1: "free_list (headers ?s1) (free_list_head ?s1) (xs @ c # ys)" using d(2) free_list_same [OF m(3)] cf by simp
  have hs: "headers ?s1 f \<noteq> None" if "f \<in> set (xs @ c # ys)" for f
    using free_header_Some [OF s] same_None [OF m(3), of f] that cf by simp
  obtain x m2 where r2: "remove_block_from_free_list c ?s1 = Inr ((), ?s1\<lparr>free_list_head := x, headers := m2\<rparr>)"
    and m2: "free_list m2 x (xs @ ys)" "same block_core (headers ?s1) m2" "same block_links (headers ?s1) m2"
    by (rule remove_free [OF fl1 hs])
  note m2 = m2 [simplified]
  let ?s2 = "s\<lparr>free_list_head := x, headers := m2\<rparr>"
  have co2: "block_free m2 = block_free (headers s)" "block_size m2 = block_size m" using core_same [OF m2(2)] m(4) by simp_all
  have "set (xs @ ys) = set fs - {c}" using d(8) cf by auto
  also have "\<dots> = {y \<in> set (us @ b # zs). block_free m2 y}" unfolding d(6) using co2 d(7) by auto
  finally have fs2: "set (xs @ ys) = {y \<in> set (us @ b # zs). block_free m2 y}" .
  have sh2: "heap_shape ?s2 (us @ b # zs) (xs @ ys) e"
    using d(4) m2(1) core_same(3) [OF m2(2) m(2)] block_list_same [OF m2(3)] m(1) fs2
    by (simp add: heap_shape_def)
  have pre: "\<not> block_free (headers ?s2) b" "us = [] \<or> \<not> block_free (headers ?s2) (last us)"
      "zs = [] \<or> \<not> block_free (headers ?s2) (hd zs)" "coalesced (headers ?s2) us" "coalesced (headers ?s2) zs"
    using co F co2 coalesced_cong [of us m2 "headers s"] coalesced_cong [of zs m2 "headers s"]
    by (auto simp: coalesced_append) (auto simp: coalesced_def successively_Cons)
  obtain s3 where s3: "mark_free b ?s2 = Inr ((), s3)"
      "heap_step ?s2 s3 (us @ b # zs) e ((live m2 (us @ b # zs))(b + HEADER_SIZE := None))"
    using mark_free_step [OF sh2 pre] by auto
  have "(live m2 (us @ b # zs))(b + HEADER_SIZE := None) = (live (headers s) (us @ b # c # zs))(b + HEADER_SIZE := None)"
    by (rule live_ext) (use co2 m(5) F in auto)
  then have "heap_step s s3 (us @ b # zs) e ((live (headers s) (us @ b # c # zs))(b + HEADER_SIZE := None))"
    using s3(2) by (simp add: heap_step_def)
  moreover have "merge_next b c s = Inr ((), s3)"
    using hc r2 s3(1) thn_split [OF r, of "thn (remove_block_from_free_list c) (mark_free b)"] unfolding merge_next_def by (simp del: assign_run)
  ultimately show ?thesis by blast
qed

lemma free_shape:
  fixes s :: "'k block_allocator"
  assumes s: "heap_shape s bs fs e" and co: "coalesced (headers s) bs" and p: "live (headers s) bs p = Some n"
    and act: "active (backend s)"
  shows "\<exists>s' bs'. block_allocator_free active p s = Inr ((), s') \<and>
    heap_step s s' bs' e ((live (headers s) bs)(p := None))"
proof -
  define b where "b = p - HEADER_SIZE"
  have pb: "p = b + HEADER_SIZE" by (simp add: b_def)
  let ?F = "block_free (headers s)"
  have b: "b \<in> set bs" "\<not> ?F b" using p by (auto simp: live_def b_def split: if_splits)
  obtain us vs where bs: "bs = us @ b # vs" using b(1) by (auto dest: split_list)
  note s = s [unfolded bs] and co = co [unfolded bs]
  note co' = co [unfolded coalesced_append]
  obtain h where h: "headers s b = Some h" and run: "block_allocator_free active (b + HEADER_SIZE) s =
      (let F = ?F; prev = last us; next = hd vs in
       if us \<noteq> [] \<and> F prev \<and> vs \<noteq> [] \<and> F next then merge_both prev b next h
       else if us \<noteq> [] \<and> F prev then merge_prev prev b h
       else if vs \<noteq> [] \<and> F next then merge_next b next
       else mark_free b) s"
    by (rule block_allocator_free_run [where active = active, OF s b(2) act])
  consider (both) ws q c zs where "us = ws @ [q]" "?F q" "vs = c # zs" "?F c"
    | (prev) ws q where "us = ws @ [q]" "?F q" "vs = [] \<or> \<not> ?F (hd vs)"
    | (after) c zs where "us = [] \<or> \<not> ?F (last us)" "vs = c # zs" "?F c"
    | (none) "us = [] \<or> \<not> ?F (last us)" "vs = [] \<or> \<not> ?F (hd vs)"
    by (cases us rule: rev_cases; cases vs; cases "?F (last us)"; cases "?F (hd vs)") auto
  then show ?thesis
  proof cases
    case both
    with merge_both_step [of s ws q b c zs fs e h] s co b h run show ?thesis unfolding bs pb by auto
  next
    case prev
    with merge_prev_step [of s ws q b vs fs e h] s co b h run show ?thesis unfolding bs pb by (auto simp: Let_def)
  next
    case after
    with merge_next_step [of s us b c zs fs e] s co b h run show ?thesis unfolding bs pb by (auto simp: Let_def)
  next
    case none
    with mark_free_step [of s us b vs fs e] s co' b h run show ?thesis unfolding bs pb by (auto simp: Let_def)
  qed
qed

section \<open>Allocating\<close>

text \<open>
  When the block \<open>b\<close> is about to be handed out, the heap is coalesced apart from \<open>b\<close>: a grown
  heap may have a free block in front of the new one.
\<close>

definition coalesced_but :: "u64 \<Rightarrow> (u64 \<rightharpoonup> block_header) \<Rightarrow> u64 list \<Rightarrow> bool" where
  "coalesced_but b m bs \<longleftrightarrow>
     successively (\<lambda>x y. \<not> (block_free m x \<and> x \<noteq> b \<and> block_free m y \<and> y \<noteq> b)) bs"

lemma coalesced_but_weak: "coalesced m bs \<Longrightarrow> coalesced_but b m bs"
  unfolding coalesced_def coalesced_but_def by (erule successively_mono) auto

lemma coalesced_but_taken:
  assumes "coalesced_but b m bs" "\<And>x. x \<in> set bs \<Longrightarrow> block_free m' x \<longleftrightarrow> block_free m x \<and> x \<noteq> b"
  shows "coalesced m' bs"
proof -
  have "coalesced m' bs = coalesced_but b m bs"
    unfolding coalesced_def coalesced_but_def by (rule successively_cong) (use assms(2) in auto)
  with assms(1) show ?thesis by simp
qed

lemma coalesced_but_split:
  assumes "coalesced_but b m (us @ b # vs)" "r \<notin> set (us @ b # vs)"
    "\<And>x. x \<in> set (us @ vs) \<Longrightarrow> block_free m' x = block_free m x"
    "vs = [] \<or> \<not> block_free m (hd vs)"
  shows "coalesced_but b m' (us @ b # r # vs)"
proof -
  have "coalesced_but b m' us = coalesced_but b m us" "coalesced_but b m' vs = coalesced_but b m vs"
    unfolding coalesced_but_def by (rule successively_cong; use assms(3) in auto)+
  with assms show ?thesis
    by (cases vs) (auto simp: coalesced_but_def successively_append_iff successively_Cons)
qed

lemma live_taken:
  assumes "\<And>q. q \<noteq> b \<Longrightarrow> q \<in> set bs' \<and> \<not> block_free m' q \<longleftrightarrow> q \<in> set bs \<and> \<not> block_free m q"
    and "\<And>q. q \<noteq> b \<Longrightarrow> q \<in> set bs \<Longrightarrow> \<not> block_free m q \<Longrightarrow> block_size m' q = block_size m q"
    and "b \<in> set bs'" "\<not> block_free m' b"
  shows "live m' bs' = (live m bs)(b + HEADER_SIZE \<mapsto> block_size m' b)"
proof -
  have "live m' bs' (b + HEADER_SIZE) = Some (block_size m' b)" using assms(3,4) by (simp add: live_def)
  then have "live m' bs' = (live m' bs')(b + HEADER_SIZE \<mapsto> block_size m' b)" by (simp add: fun_upd_idem)
  then show ?thesis using live_ext [OF assms(1,2)] by simp
qed

text \<open>Handing out a free block that is large enough.\<close>

definition hand_out :: "u64 \<Rightarrow> u64 \<Rightarrow> ('k block_allocator, u64) prog" where
  "hand_out b amount =
     thn (split_block b amount)
    (thn (set_header b (\<lambda>h. h\<lparr>bh_is_free := 0\<rparr>))
    (thn (remove_block_from_free_list b)
    (bnd (header_of b) (\<lambda>h. bnd (rd virtual_base) (\<lambda>base. ret (base + bh_offset h))))))"

lemma hand_out_taken:
  fixes s :: "'k block_allocator"
  assumes s: "heap_shape s bs fs e" and co: "coalesced_but b (headers s) bs" and b: "b \<in> set fs"
  shows "\<exists>s'. thn (set_header b (\<lambda>h. h\<lparr>bh_is_free := 0\<rparr>))
      (thn (remove_block_from_free_list b)
      (bnd (header_of b) (\<lambda>h. bnd (rd virtual_base) (\<lambda>base. ret (base + bh_offset h))))) s = Inr (b + HEADER_SIZE, s') \<and>
    heap_step s s' bs e ((live (headers s) bs)(b + HEADER_SIZE \<mapsto> block_size (headers s) b))"
proof -
  obtain x m where run: "thn (set_header b (\<lambda>h. h\<lparr>bh_is_free := 0\<rparr>)) (remove_block_from_free_list b) s =
      Inr ((), s\<lparr>free_list_head := x, headers := m\<rparr>)"
    and sh: "heap_shape (s\<lparr>free_list_head := x, headers := m\<rparr>) bs (removeAll b fs) e"
    and m: "block_size m = block_size (headers s)" "block_free m = (block_free (headers s))(b := False)"
    by (rule take_block [OF s b])
  let ?s = "s\<lparr>free_list_head := x, headers := m\<rparr>"
  have bb: "b \<in> set bs" using heap_shapeD(6) [OF s] b by auto
  obtain h where h: "headers ?s b = Some h" "virtual_base ?s + bh_offset h = b + HEADER_SIZE"
    by (rule heap_header [OF sh bb])
  have "coalesced m bs" by (rule coalesced_but_taken [OF co]) (simp add: m(2))
  moreover have "live m bs = (live (headers s) bs)(b + HEADER_SIZE \<mapsto> block_size m b)"
    by (rule live_taken) (use m bb in auto)
  ultimately have "heap_step s ?s bs e ((live (headers s) bs)(b + HEADER_SIZE \<mapsto> block_size (headers s) b))"
    using sh m(1) by (intro heap_stepI) simp_all
  moreover have "thn (set_header b (\<lambda>h. h\<lparr>bh_is_free := 0\<rparr>))
      (thn (remove_block_from_free_list b)
      (bnd (header_of b) (\<lambda>h. bnd (rd virtual_base) (\<lambda>base. ret (base + bh_offset h))))) s = Inr (b + HEADER_SIZE, ?s)"
    unfolding thn_split [OF run, of "bnd (header_of b) (\<lambda>h. bnd (rd virtual_base) (\<lambda>base. ret (base + bh_offset h)))"]
    using h by simp
  ultimately show ?thesis by blast
qed

lemma hand_out_step:
  fixes s :: "'k block_allocator"
  assumes s: "heap_shape s bs fs e" and b: "b \<in> set fs" and sz: "unat amount \<le> block_size (headers s) b"
    and co: "coalesced_but b (headers s) bs" "\<forall>us vs. bs = us @ b # vs \<longrightarrow> vs = [] \<or> \<not> block_free (headers s) (hd vs)"
  shows "\<exists>s' bs' n. hand_out b amount s = Inr (b + HEADER_SIZE, s') \<and> unat amount \<le> n \<and>
    heap_step s s' bs' e ((live (headers s) bs)(b + HEADER_SIZE \<mapsto> n))"
proof -
  note d = heap_shapeD [OF s]
  have bb: "b \<in> set bs" "block_free (headers s) b" using d(6) b by auto
  obtain us vs where bs: "bs = us @ b # vs" using bb(1) by (auto dest: split_list)
  obtain h where h: "headers s b = Some h" using heap_header_Some [OF s bb(1)] by blast
  have am: "amount \<le> bh_size h" using sz h by (simp add: block_size_def fld_Some word_le_nat_alt)
  show ?thesis
  proof (cases "HEADER_SIZE < bh_size h - amount")
    case False
    then have "split_block b amount s = Inr ((), s)" using h by (simp add: split_block_def Let_def not_less)
    then show ?thesis using hand_out_taken [OF s co(1) b] sz by (auto simp: hand_out_def)
  next
    case True
    define r where "r = b + amount + HEADER_SIZE"
    obtain m where run: "split_block b amount s = Inr ((), s\<lparr>free_list_head := r, headers := m\<rparr>)"
      and sh: "heap_shape (s\<lparr>free_list_head := r, headers := m\<rparr>) (us @ b # r # vs) (r # fs) e"
      and m: "r \<notin> set (us @ b # vs)"
        "block_size m = (block_size (headers s))(b := unat amount, r := unat (bh_size h - amount - HEADER_SIZE))"
        "block_free m = (block_free (headers s))(r := True)"
      unfolding r_def by (rule split_shape [OF s [unfolded bs] h am True])
    let ?s = "s\<lparr>free_list_head := r, headers := m\<rparr>"
    have "coalesced_but b m (us @ b # r # vs)"
      by (rule coalesced_but_split [OF co(1) [unfolded bs] m(1)]) (use m co(2) bs in auto)
    then have c: "coalesced_but b (headers ?s) (us @ b # r # vs)" by simp
    obtain s' where s': "hand_out b amount s = Inr (b + HEADER_SIZE, s')"
      "heap_step ?s s' (us @ b # r # vs) e ((live m (us @ b # r # vs))(b + HEADER_SIZE \<mapsto> block_size m b))"
      using hand_out_taken [OF sh c, of ] b run by (auto simp: hand_out_def)
    have "(live m (us @ b # r # vs))(b + HEADER_SIZE \<mapsto> block_size m b) = (live (headers s) bs)(b + HEADER_SIZE \<mapsto> block_size m b)"
      unfolding bs by (rule live_ext) (use m in auto)
    moreover have "block_size m b = unat amount" using m(1,2) by auto
    ultimately have "heap_step s s' (us @ b # r # vs) e ((live (headers s) bs)(b + HEADER_SIZE \<mapsto> unat amount))"
      using s'(2) by (simp add: heap_step_def)
    then show ?thesis using s'(1) by blast
  qed
qed

section \<open>Growing the heap\<close>

text \<open>
  What the allocator relies on: growing makes the pages at \<open>va\<close> available and keeps those below,
  or fails for want of memory, and no two addresses of the heap share a byte of memory.
\<close>

locale page_supply =
  fixes active :: "'k \<Rightarrow> bool" and grow :: "'k pages_fn" and okk :: "'k \<Rightarrow> bool"
    and backed :: "'k \<Rightarrow> u64 \<Rightarrow> u64 option" and short :: "'k \<Rightarrow> nat \<Rightarrow> bool" and low :: nat
  assumes active_ok: "okk k \<Longrightarrow> active k"
    and grow_law: "okk k \<Longrightarrow> 4096 dvd unat va \<Longrightarrow> low \<le> unat va \<Longrightarrow> unat va + unat n * 4096 < 2 ^ 64 \<Longrightarrow>
      \<exists>r k'. grow va n k = Inr (r, k') \<and> okk k' \<and>
        (\<forall>v. low \<le> unat v \<and> unat v < unat va \<longrightarrow> backed k' v = backed k v) \<and>
        (if r then \<forall>v. unat va \<le> unat v \<and> unat v < unat va + unat n * 4096 \<longrightarrow> backed k' v \<noteq> None
         else short k (unat n))"
    and no_alias: "okk k \<Longrightarrow> low \<le> unat v \<Longrightarrow> low \<le> unat w \<Longrightarrow> backed k v = Some x \<Longrightarrow> backed k w = Some x \<Longrightarrow> v = w"

text \<open>
  The abstract heap: \<open>L\<close> gives the size of every allocated block, and \<open>room\<close> bytes of address
  space are left behind its end.
\<close>

definition heap_inv :: "('k \<Rightarrow> bool) \<Rightarrow> ('k \<Rightarrow> u64 \<Rightarrow> u64 option) \<Rightarrow> nat \<Rightarrow> 'k block_allocator \<Rightarrow> nat \<Rightarrow> (u64 \<rightharpoonup> nat) \<Rightarrow> bool" where
  "heap_inv okk backed low s room L \<longleftrightarrow> okk (backend s) \<and> low \<le> unat (virtual_base s) \<and>
     (\<exists>bs fs e. heap_shape s bs fs e \<and> coalesced (headers s) bs \<and> live (headers s) bs = L \<and>
        4096 dvd e \<and> e + room < 2 ^ 64 \<and>
        (\<forall>v. unat (virtual_base s) \<le> unat v \<and> unat v < e \<longrightarrow> backed (backend s) v \<noteq> None))"

text \<open>Some free block is large enough.\<close>

definition fits :: "'k block_allocator \<Rightarrow> u64 \<Rightarrow> bool" where
  "fits s amount \<longleftrightarrow> (\<exists>fs b. free_list (headers s) (free_list_head s) fs \<and> b \<in> set fs \<and>
     unat amount \<le> block_size (headers s) b)"

lemma free_list_unique: "free_list m h fs \<Longrightarrow> free_list m h gs \<Longrightarrow> fs = gs"
  unfolding free_list_def dll_def using dseg_null_unique by blast

lemma heap_inv_mono: "heap_inv okk backed low s room L \<Longrightarrow> room' \<le> room \<Longrightarrow> heap_inv okk backed low s room' L"
proof -
  assume le: "room' \<le> room" and "heap_inv okk backed low s room L"
  then obtain bs fs e where "okk (backend s)" "low \<le> unat (virtual_base s)" "heap_shape s bs fs e" "coalesced (headers s) bs"
    "live (headers s) bs = L" "4096 dvd e" "e + room < 2 ^ 64"
    "\<forall>v. unat (virtual_base s) \<le> unat v \<and> unat v < e \<longrightarrow> backed (backend s) v \<noteq> None"
    unfolding heap_inv_def by blast
  moreover have "e + room' < 2 ^ 64" using le calculation(7) by simp
  ultimately show ?thesis unfolding heap_inv_def by blast
qed

text \<open>The allocated blocks are disjoint regions of available memory.\<close>

lemma heap_regions:
  assumes inv: "heap_inv okk backed low s room L" and p: "L p = Some n"
  shows "p \<noteq> 0" "low \<le> unat p" "unat p + n < 2 ^ 64"
    "\<And>v. unat p \<le> unat v \<Longrightarrow> unat v < unat p + n \<Longrightarrow> backed (backend s) v \<noteq> None"
    "\<And>q m. L q = Some m \<Longrightarrow> q \<noteq> p \<Longrightarrow> unat p + n \<le> unat q \<or> unat q + m \<le> unat p"
proof -
  obtain bs fs e where s: "heap_shape s bs fs e" and L: "live (headers s) bs = L"
    and e: "e < 2 ^ 64" and lo: "low \<le> unat (virtual_base s)"
    and sup: "\<And>v. unat (virtual_base s) \<le> unat v \<Longrightarrow> unat v < e \<Longrightarrow> backed (backend s) v \<noteq> None"
    using inv by (auto simp: heap_inv_def)
  have *: "q - HEADER_SIZE \<in> set bs \<and> m = block_size (headers s) (q - HEADER_SIZE) \<and> unat q = unat (q - HEADER_SIZE) + 56
      \<and> unat (virtual_base s) \<le> unat (q - HEADER_SIZE) \<and> unat (q - HEADER_SIZE) + 56 + m \<le> e"
    if "L q = Some m" for q m
  proof -
    have q: "q - HEADER_SIZE \<in> set bs" "m = block_size (headers s) (q - HEADER_SIZE)"
      using that L by (auto simp: live_def split: if_splits)
    moreover have "unat q = unat (q - HEADER_SIZE) + 56" using header_bound [OF s q(1)] by simp
    moreover have "unat (virtual_base s) \<le> unat (q - HEADER_SIZE) \<and> unat (q - HEADER_SIZE) + 56 + m \<le> e"
      using tiles_member [OF heap_shapeD(3) [OF s] q(1)] q(2) by auto
    ultimately show ?thesis by blast
  qed
  note P = * [OF p]
  show "p \<noteq> 0" using P by auto
  show "low \<le> unat p" "unat p + n < 2 ^ 64" using P lo e by auto
  show "backed (backend s) v \<noteq> None" if "unat p \<le> unat v" "unat v < unat p + n" for v
    using that P by (intro sup) auto
  show "unat p + n \<le> unat q \<or> unat q + m \<le> unat p" if "L q = Some m" "q \<noteq> p" for q m
  proof -
    note Q = * [OF that(1)]
    have "q - HEADER_SIZE \<noteq> p - HEADER_SIZE" using that(2) by simp
    then show ?thesis using tiles_disjoint [OF heap_shapeD(3) [OF s], of "p - HEADER_SIZE" "q - HEADER_SIZE"] P Q by auto
  qed
qed

text \<open>The new block at the end of the heap.\<close>

lemma grow_shape:
  fixes s :: "'k block_allocator"
  assumes s: "heap_shape s bs fs e" and e: "e + 56 + unat amount < 2 ^ 64" and b: "unat b = e"
    and off: "virtual_base s + offset = b + HEADER_SIZE"
  obtains m where "thn (upd (\<lambda>s. s\<lparr>headers := (headers s)(b \<mapsto> new_header offset amount (last bs) NULL)\<rparr>))
        (thn (set_header (last bs) (\<lambda>h. h\<lparr>bh_next_ptr := b\<rparr>))
             (add_block_to_free_list b)) s = Inr ((), s\<lparr>free_list_head := b, headers := m\<rparr>)"
    "heap_shape (s\<lparr>free_list_head := b, headers := m\<rparr>) (bs @ [b]) (b # fs) (e + 56 + unat amount)"
    "b \<notin> set bs" "block_size m = (block_size (headers s))(b := unat amount)" "block_free m = (block_free (headers s))(b := True)"
proof -
  note d = heap_shapeD [OF s]
  let ?l = "last bs" and ?k = "new_header offset amount (last bs) NULL"
  have l: "?l \<in> set bs" using d(5) by simp
  obtain h where h: "headers s ?l = Some h" using heap_header_Some [OF s l] by blast
  have nb: "b \<notin> set bs" using tiles_member [OF d(3), of b] b by fastforce
  have b0: "b \<noteq> 0"
  proof
    assume "b = 0" then have "e = 0" using b by simp
    then show False using tiles_member [OF d(3) l] by fastforce
  qed
  let ?m = "(headers s)(b \<mapsto> ?k, ?l \<mapsto> h\<lparr>bh_next_ptr := b\<rparr>)" let ?s = "s\<lparr>headers := ?m\<rparr>"
  have lb: "?l \<noteq> b" using l nb by auto
  obtain t where dl: "dll (fld bh_next_ptr (headers s)) (fld bh_prev_ptr (headers s)) (block_list_head s) t bs"
    using d(1) by (auto simp: block_list_def)
  have t: "t = ?l" "t \<noteq> 0" using dll_tail [OF dl] dll_tail_null [OF dl] d(5) by simp_all
  have "dll ((fld bh_next_ptr (headers s))(b := 0)) ((fld bh_prev_ptr (headers s))(b := ?l)) (block_list_head s) t bs"
    using dl nb by simp
  from dll_append_tail [OF this t(2) b0 nb]
  have "dll ((fld bh_next_ptr (headers s))(b := 0, ?l := b)) ((fld bh_prev_ptr (headers s))(b := ?l)) (block_list_head s) b (bs @ [b])"
    by (simp add: t(1))
  moreover have "fld bh_next_ptr ?m = (fld bh_next_ptr (headers s))(b := 0, ?l := b)"
    "fld bh_prev_ptr ?m = (fld bh_prev_ptr (headers s))(b := ?l)"
    using h lb by (auto simp: fun_eq_iff fld_Some new_header_def)
  ultimately have bl: "block_list ?m (block_list_head s) (bs @ [b])" unfolding block_list_def by auto
  have bf: "b \<notin> set fs" using nb d(6) by auto
  have "fld bh_free_list_next_ptr ?m = (fld bh_free_list_next_ptr (headers s))(b := 0)"
    "fld bh_free_list_prev_ptr ?m = (fld bh_free_list_prev_ptr (headers s))(b := 0)"
    using h lb by (auto simp: fun_eq_iff fld_Some new_header_def)
  then have fl: "free_list (headers ?s) (free_list_head ?s) fs" using d(2) bf by (auto simp: free_list_def)
  have hs: "headers ?s b \<noteq> None" "\<And>f. f \<in> set fs \<Longrightarrow> headers ?s f \<noteq> None" using free_header_Some [OF s] by auto
  obtain m where run: "add_block_to_free_list b ?s = Inr ((), ?s\<lparr>free_list_head := b, headers := m\<rparr>)"
    and m: "free_list m b (b # fs)" "same block_core (headers ?s) m" "same block_links (headers ?s) m"
    by (rule add_block_to_free_list_run [OF fl bf b0 hs])
  let ?m1 = "(headers s)(b \<mapsto> ?k)"
  have "same block_core ?m1 ?m" using h lb by (simp add: same_def block_parts)
  then have core: "same block_core ?m1 m" using m(2) by (auto intro: same_trans)
  have "tiles ?m1 (virtual_base s) (unat (virtual_base s)) (bs @ [b]) (e + 56 + unat amount)"
    using tiles_snoc [OF d(3) b nb, of ?k] off by (simp add: new_header_def)
  from core_same(3) [OF core this]
  have ti: "tiles m (virtual_base s) (unat (virtual_base s)) (bs @ [b]) (e + 56 + unat amount)" .
  have fr: "block_free m = (block_free (headers s))(b := True)"
    and sz: "block_size m = (block_size (headers s))(b := unat amount)"
    using core_same(1,2) [OF core] by (simp_all add: new_header_def)
  have "set (b # fs) = {c \<in> set (bs @ [b]). block_free m c}" using d(6) fr nb by auto
  then have "heap_shape (s\<lparr>free_list_head := b, headers := m\<rparr>) (bs @ [b]) (b # fs) (e + 56 + unat amount)"
    using ti bl m(1) block_list_same [OF m(3)] e by (simp add: heap_shape_def)
  moreover have "thn (upd (\<lambda>s. s\<lparr>headers := (headers s)(b \<mapsto> ?k)\<rparr>))
        (thn (set_header ?l (\<lambda>h. h\<lparr>bh_next_ptr := b\<rparr>)) (add_block_to_free_list b)) s =
      Inr ((), s\<lparr>free_list_head := b, headers := m\<rparr>)"
    using run lb h set_header_run [of "s\<lparr>headers := ?m1\<rparr>" ?l h] by (simp del: assign_run)
  ultimately show ?thesis using that nb sz fr by blast
qed

lemma last_header_end:
  assumes s: "heap_shape s bs fs e" and h: "headers s (last bs) = Some h"
  shows "unat (virtual_base s + (bh_offset h + bh_size h + HEADER_SIZE) - HEADER_SIZE) = e"
    "virtual_base s + (bh_offset h + bh_size h + HEADER_SIZE) =
       (virtual_base s + (bh_offset h + bh_size h + HEADER_SIZE) - HEADER_SIZE) + HEADER_SIZE"
proof -
  note d = heap_shapeD [OF s]
  have "bs = butlast bs @ [last bs]" using d(5) by simp
  then have "tiles (headers s) (virtual_base s) (unat (virtual_base s)) (butlast bs @ [last bs]) e" using d(3) by metis
  then have l: "unat (last bs) + 56 + unat (bh_size h) = e" "virtual_base s + bh_offset h = last bs + HEADER_SIZE"
    using h unfolding tiles_append by auto
  have "virtual_base s + (bh_offset h + bh_size h + HEADER_SIZE) - HEADER_SIZE = (virtual_base s + bh_offset h) + bh_size h"
    by (simp add: algebra_simps)
  also have "\<dots> = (last bs + HEADER_SIZE) + bh_size h" unfolding l(2) ..
  also have "unat \<dots> = e"
    using l(1) d(4) header_bound [OF s, of "last bs"] d(5) by (subst unat_add_no_wrap) simp_all
  finally show "unat (virtual_base s + (bh_offset h + bh_size h + HEADER_SIZE) - HEADER_SIZE) = e" .
qed simp

lemma heap_shape_backend: "heap_shape (s\<lparr>backend := k\<rparr>) bs fs e = heap_shape s bs fs e"
  by (simp add: heap_shape_def)

lemma heap_inv_step:
  assumes "heap_step s s' bs' e L'" "okk (backend s)" "low \<le> unat (virtual_base s)" "4096 dvd e" "e + room < 2 ^ 64"
    "\<forall>v. unat (virtual_base s) \<le> unat v \<and> unat v < e \<longrightarrow> backed (backend s) v \<noteq> None"
  shows "heap_inv okk backed low s' room L'"
  using assms unfolding heap_step_def heap_inv_def by (elim conjE exE) (intro conjI exI, simp_all)

context page_supply
begin

abbreviation heap :: "'k block_allocator \<Rightarrow> nat \<Rightarrow> (u64 \<rightharpoonup> nat) \<Rightarrow> bool" where
  "heap \<equiv> heap_inv okk backed low"

lemma allocate_fits:
  assumes s: "heap_shape s bs fs e" and co: "coalesced (headers s) bs" and b: "b \<in> set fs"
    and sz: "unat amount \<le> block_size (headers s) b"
  shows "\<exists>s' bs' n. hand_out b amount s = Inr (b + HEADER_SIZE, s') \<and> unat amount \<le> n \<and>
    live (headers s) bs (b + HEADER_SIZE) = None \<and>
    heap_step s s' bs' e ((live (headers s) bs)(b + HEADER_SIZE \<mapsto> n))"
proof -
  have fr: "block_free (headers s) b" using heap_shapeD(6) [OF s] b by auto
  have "vs = [] \<or> \<not> block_free (headers s) (hd vs)" if "bs = us @ b # vs" for us vs
    using co fr unfolding that coalesced_append by auto
  moreover have "live (headers s) bs (b + HEADER_SIZE) = None" using fr by (simp add: live_def)
  ultimately show ?thesis using hand_out_step [OF s b sz coalesced_but_weak [OF co]] by blast
qed

lemma allocate_grows:
  assumes s: "heap_shape s bs fs e" and co: "coalesced (headers s) bs" and e: "e + unat amount + 4152 < 2 ^ 64"
    and ok: "okk (backend s)" and lo: "low \<le> unat (virtual_base s)" "4096 dvd e"
    and none: "\<forall>f \<in> set fs. block_size (headers s) f < unat amount"
    and av: "\<forall>v. unat (virtual_base s) \<le> unat v \<and> unat v < e \<longrightarrow> backed (backend s) v \<noteq> None"
  obtains (fails) k where "find_or_create_free_block grow amount s = Inr (NULL, s\<lparr>backend := k\<rparr>)" "okk k"
      "\<forall>v. unat (virtual_base s) \<le> unat v \<and> unat v < e \<longrightarrow> backed k v \<noteq> None"
      "short (backend s) (unat (pages_needed amount))"
  | (new) k b s1 where "find_or_create_free_block grow amount s = Inr (b, s1)" "okk k" "backend s1 = k" "virtual_base s1 = virtual_base s"
      "heap_shape s1 (bs @ [b]) (b # fs) (e + unat (pages_needed amount) * 4096)" "b \<notin> set bs" "b \<noteq> NULL"
      "block_size (headers s1) = (block_size (headers s))(b := unat (pages_needed amount) * 4096 - 56)"
      "block_free (headers s1) = (block_free (headers s))(b := True)"
      "\<forall>v. unat (virtual_base s) \<le> unat v \<and> unat v < e + unat (pages_needed amount) * 4096 \<longrightarrow> backed k v \<noteq> None"
proof -
  note d = heap_shapeD [OF s]
  let ?n = "pages_needed amount" let ?a = "?n * HEAP_PAGE_SIZE - HEADER_SIZE"
  note pn = pages_needed_size [of amount]
  have a56: "unat amount + 4152 < 2 ^ 64" using e by simp
  note pn = pn [OF a56]
  obtain r where f: "find_free_block amount s = Inr (r, s)"
    "r = 0 \<and> (\<forall>f \<in> set fs. block_size (headers s) f < unat amount) \<or> r \<in> set fs \<and> unat amount \<le> block_size (headers s) r"
    by (rule find_free_block_run [OF d(2) free_header_Some [OF s]])
  have r: "r = 0" using f(2) none by fastforce
  have la: "get_last_block_header s = Inr (last bs, s)"
    by (rule get_last_block_header_run [OF d(1) heap_header_Some [OF s] d(5)])
  have lb: "last bs \<in> set bs" "last bs \<noteq> 0" using d(5,9) by (metis last_in_set)+
  obtain h where h: "headers s (last bs) = Some h" using heap_header_Some [OF s lb(1)] by blast
  define b where "b = virtual_base s + (bh_offset h + bh_size h + HEADER_SIZE) - HEADER_SIZE"
  note le = last_header_end [OF s h, folded b_def]
  have base: "unat (virtual_base s) \<le> e" using tiles_le [OF d(3)] .
  have b0: "b \<noteq> 0" using le(1) tiles_member [OF d(3) lb(1)] by auto
  have bound: "unat b + unat ?n * 4096 < 2 ^ 64" using le(1) pn(2) e by simp
  have low: "4096 dvd unat b" "low \<le> unat b" using le(1) lo base by simp_all
  obtain g k where g: "grow b ?n (backend s) = Inr (g, k)" "okk k"
    and keep: "\<forall>v. low \<le> unat v \<and> unat v < unat b \<longrightarrow> backed k v = backed (backend s) v"
    and out: "if g then \<forall>v. unat b \<le> unat v \<and> unat v < unat b + unat ?n * 4096 \<longrightarrow> backed k v \<noteq> None
      else short (backend s) (unat ?n)"
    using grow_law [OF ok low bound] by blast
  have kept: "\<forall>v. unat (virtual_base s) \<le> unat v \<and> unat v < e \<longrightarrow> backed k v \<noteq> None"
    using av keep lo(1) le(1) by (metis order_trans)
  have pre: "find_or_create_free_block grow amount s =
     (if g then bnd (thn (upd (\<lambda>s. s\<lparr>headers := (headers s)(b \<mapsto> new_header (bh_offset h + bh_size h + HEADER_SIZE) ?a (last bs) NULL)\<rparr>))
        (thn (set_header (last bs) (\<lambda>h. h\<lparr>bh_next_ptr := b\<rparr>))
             (add_block_to_free_list b))) (\<lambda>_. ret b) (s\<lparr>backend := k\<rparr>) else Inr (NULL, s\<lparr>backend := k\<rparr>))"
    using f(1) r la lb(2) h g(1) unfolding b_def
    by (cases s) (simp add: find_or_create_free_block_def Let_def del: assign_run split: sum.splits)
  show ?thesis
  proof (cases g)
    case False
    then show ?thesis using fails [of k] pre g(2) kept out by simp
  next
    case True
    have ua: "unat ?a = unat ?n * 4096 - 56" using pn(1,4) by (subst unat_sub_no_wrap) simp_all
    have e': "e + 56 + unat ?a = e + unat ?n * 4096" using ua pn(1) by simp
    have s': "heap_shape (s\<lparr>backend := k\<rparr>) bs fs e" using s by (simp add: heap_shape_backend)
    have bnd': "e + 56 + unat ?a < 2 ^ 64" using bound le(1) e' by simp
    have off: "virtual_base (s\<lparr>backend := k\<rparr>) + (bh_offset h + bh_size h + HEADER_SIZE) = b + HEADER_SIZE" using le(2) by simp
    obtain m where m: "thn (upd (\<lambda>s. s\<lparr>headers := (headers s)(b \<mapsto> new_header (bh_offset h + bh_size h + HEADER_SIZE) ?a (last bs) NULL)\<rparr>))
        (thn (set_header (last bs) (\<lambda>h. h\<lparr>bh_next_ptr := b\<rparr>))
             (add_block_to_free_list b)) (s\<lparr>backend := k\<rparr>) = Inr ((), s\<lparr>backend := k\<rparr>\<lparr>free_list_head := b, headers := m\<rparr>)"
      "heap_shape (s\<lparr>backend := k\<rparr>\<lparr>free_list_head := b, headers := m\<rparr>) (bs @ [b]) (b # fs) (e + 56 + unat ?a)"
      "b \<notin> set bs" "block_size m = (block_size (headers (s\<lparr>backend := k\<rparr>)))(b := unat ?a)"
      "block_free m = (block_free (headers (s\<lparr>backend := k\<rparr>)))(b := True)"
      by (rule grow_shape [OF s' bnd' le(1) off])
    have "\<forall>v. unat (virtual_base s) \<le> unat v \<and> unat v < e + unat ?n * 4096 \<longrightarrow> backed k v \<noteq> None"
      using kept out True le(1) by (metis not_le)
    then show ?thesis using m pre True g(2) b0 ua unfolding e'
      by (intro new [of b "s\<lparr>backend := k\<rparr>\<lparr>free_list_head := b, headers := m\<rparr>" k]) simp_all
  qed
qed

end

context page_supply
begin

lemma block_allocator_allocate_run:
  assumes "active (backend s)" "find_or_create_free_block grow amount s = Inr (b, s1)"
  shows "block_allocator_allocate active grow amount s = (if b = NULL then Inr (NULL, s1) else hand_out b amount s1)"
  using assms by (simp add: block_allocator_allocate_def hand_out_def)

text \<open>Allocation, and its two ways to find a block.\<close>

lemma allocate_correct:
  assumes inv: "heap s (room + unat amount + 4152) L"
  shows "\<exists>p s'. block_allocator_allocate active grow amount s = Inr (p, s') \<and>
    (p = NULL \<and> heap s' room L \<and> \<not> fits s amount \<and> short (backend s) (unat (pages_needed amount)) \<or>
     (\<exists>n \<ge> unat amount. L p = None \<and> heap s' room (L(p \<mapsto> n))))"
proof -
  obtain bs fs e where ok: "okk (backend s)" and lo: "low \<le> unat (virtual_base s)" and s: "heap_shape s bs fs e"
    and co: "coalesced (headers s) bs" and L: "live (headers s) bs = L" and e: "4096 dvd e" "e + (room + unat amount + 4152) < 2 ^ 64"
    and av: "\<forall>v. unat (virtual_base s) \<le> unat v \<and> unat v < e \<longrightarrow> backed (backend s) v \<noteq> None"
    using inv by (auto simp: heap_inv_def)
  note d = heap_shapeD [OF s] and run = block_allocator_allocate_run [OF active_ok [OF ok]]
  show ?thesis
  proof (cases "\<exists>f \<in> set fs. unat amount \<le> block_size (headers s) f")
    case True
    obtain b where f: "find_free_block amount s = Inr (b, s)" and b: "b \<in> set fs" "unat amount \<le> block_size (headers s) b"
      using find_free_block_run [OF d(2) free_header_Some [OF s], of amount] True by (metis not_le)
    have "b \<noteq> NULL" using b(1) d(2) free_list_nonnull by metis
    then have "block_allocator_allocate active grow amount s = hand_out b amount s"
      using f run [of amount b s] by (simp add: find_or_create_free_block_def)
    moreover obtain s' bs' n where "hand_out b amount s = Inr (b + HEADER_SIZE, s')" "unat amount \<le> n"
      "live (headers s) bs (b + HEADER_SIZE) = None" "heap_step s s' bs' e ((live (headers s) bs)(b + HEADER_SIZE \<mapsto> n))"
      using allocate_fits [OF s co b] by blast
    moreover from this have "heap s' room (L(b + HEADER_SIZE \<mapsto> n))"
      using heap_inv_step [where okk = okk and low = low and backed = backed, OF _ ok lo e(1) _ av] e(2) L by simp
    ultimately show ?thesis using L by auto
  next
    case False
    then have none: "\<forall>f \<in> set fs. block_size (headers s) f < unat amount" by auto
    have nf: "\<not> fits s amount" using none free_list_unique [OF d(2)] unfolding fits_def by (metis not_le)
    have e': "e + unat amount + 4152 < 2 ^ 64" using e(2) by simp
    show ?thesis
    proof (rule allocate_grows [OF s co e' ok lo e(1) none av], goal_cases fails new)
      case (fails k)
      have "heap_step (s\<lparr>backend := k\<rparr>) (s\<lparr>backend := k\<rparr>) bs e L"
        using s co L by (auto simp: heap_step_def heap_shape_backend)
      from heap_inv_step [OF this, of okk low room backed] have "heap (s\<lparr>backend := k\<rparr>) room L"
        using fails lo e by simp
      then show ?thesis using fails nf by (subst run [OF fails(1)]) simp
    next
      case (new k b s1)
      have a56: "unat amount + 4152 < 2 ^ 64" using e(2) by simp
      note pn = pages_needed_size [OF a56]
      let ?e = "e + unat (pages_needed amount) * 4096"
      have cob: "coalesced_but b (headers s1) (bs @ [b])"
      proof -
        have "coalesced_but b (headers s1) bs = coalesced_but b (headers s) bs"
          unfolding coalesced_but_def by (rule successively_cong) (use new(6,9) in auto)
        then show ?thesis using coalesced_but_weak [OF co, of b] by (simp add: coalesced_but_def successively_append_iff)
      qed
      have tl: "vs = [] \<or> \<not> block_free (headers s1) (hd vs)" if "bs @ [b] = us @ b # vs" for us vs
      proof -
        have "distinct (us @ b # vs)" using heap_shapeD(7) [OF new(5)] that by simp
        moreover have "last (us @ b # vs) = b" using that by (metis last_snoc)
        ultimately have "vs = []" by (cases vs rule: rev_cases) auto
        then show ?thesis by simp
      qed
      have sz: "unat amount \<le> block_size (headers s1) b" using new(8) pn(1) by simp
      obtain s' bs' n where ho: "hand_out b amount s1 = Inr (b + HEADER_SIZE, s')" "unat amount \<le> n"
        "heap_step s1 s' bs' ?e ((live (headers s1) (bs @ [b]))(b + HEADER_SIZE \<mapsto> n))"
        using hand_out_step [OF new(5) _ sz cob] tl by auto
      have l1: "live (headers s1) (bs @ [b]) = (live (headers s) bs)(b + HEADER_SIZE := None)"
        by (rule live_diff) (use new(6,8,9) in auto)
      have none: "live (headers s) bs (b + HEADER_SIZE) = None" using new(6) by (simp add: live_def)
      then have l2: "(live (headers s1) (bs @ [b]))(b + HEADER_SIZE \<mapsto> n) = L(b + HEADER_SIZE \<mapsto> n)"
        using l1 L by simp
      have dv: "4096 dvd ?e" using e(1) by simp
      have rm: "?e + room < 2 ^ 64" using pn(2) e(2) by simp
      have "heap s' room (L(b + HEADER_SIZE \<mapsto> n))"
        using heap_inv_step [OF ho(3) _ _ dv rm, of okk low backed] new(2-4,10) lo unfolding l2 by simp
      then show ?thesis using ho(1,2) none L run [OF new(1)] new(7) by auto
    qed
  qed
qed

lemma free_correct:
  assumes inv: "heap s room L" and p: "L p = Some n"
  shows "\<exists>s'. block_allocator_free active p s = Inr ((), s') \<and> heap s' room (L(p := None))"
proof -
  obtain bs fs e where ok: "okk (backend s)" and lo: "low \<le> unat (virtual_base s)" and s: "heap_shape s bs fs e"
    and co: "coalesced (headers s) bs" and L: "live (headers s) bs = L" and e: "4096 dvd e" "e + room < 2 ^ 64"
    and av: "\<forall>v. unat (virtual_base s) \<le> unat v \<and> unat v < e \<longrightarrow> backed (backend s) v \<noteq> None"
    using inv by (auto simp: heap_inv_def)
  obtain s' bs' where "block_allocator_free active p s = Inr ((), s')" "heap_step s s' bs' e (L(p := None))"
    using free_shape [where active = active, OF s co _ active_ok [OF ok], of p n] p L by auto
  then show ?thesis using heap_inv_step [where okk = okk and low = low and backed = backed, OF _ ok lo e av] by blast
qed

lemma free_null: "heap s room L \<Longrightarrow> block_allocator_free active NULL s = Inr ((), s)"
  by (simp add: block_allocator_free_def)

end

section \<open>The heap as a contract\<close>

text \<open>
  What the rest of the kernel relies on when it calls \<open>kmalloc\<close> and \<open>kfree\<close>: \<open>heap s room L\<close> is
  the invariant, \<open>L\<close> the allocated blocks. An allocation uses up at most its size and 4152 bytes
  of the remaining address space.
\<close>

locale kernel_allocator =
  fixes malloc :: "u64 \<Rightarrow> ('h, u64) prog" and mfree :: "u64 \<Rightarrow> ('h, unit) prog"
    and inv :: "'h \<Rightarrow> nat \<Rightarrow> (u64 \<rightharpoonup> nat) \<Rightarrow> bool"
  assumes malloc_law: "inv s (room + unat n + 4152) L \<Longrightarrow> \<exists>p s'. malloc n s = Inr (p, s') \<and>
      (p = NULL \<and> inv s' room L \<or> p \<noteq> NULL \<and> (\<exists>k \<ge> unat n. L p = None \<and> inv s' room (L(p \<mapsto> k))))"
    and free_law: "inv s room L \<Longrightarrow> L p = Some k \<Longrightarrow> \<exists>s'. mfree p s = Inr ((), s') \<and> inv s' room (L(p := None))"
    and free_null: "inv s room L \<Longrightarrow> mfree NULL s = Inr ((), s)"
    and regions: "inv s room L \<Longrightarrow> L p = Some k \<Longrightarrow> p \<noteq> NULL \<and> unat p + k < 2 ^ 64 \<and>
      (\<forall>q m. L q = Some m \<longrightarrow> q \<noteq> p \<longrightarrow> unat p + k \<le> unat q \<or> unat q + m \<le> unat p)"
    and inv_mono: "inv s room L \<Longrightarrow> room' \<le> room \<Longrightarrow> inv s room' L"

sublocale page_supply \<subseteq> alloc: kernel_allocator "block_allocator_allocate active grow" "block_allocator_free active"
  "heap_inv okk backed low"
proof
  fix s :: "'k block_allocator" and room and n :: u64 and L
  assume inv: "heap_inv okk backed low s (room + unat n + 4152) L"
  show "\<exists>p s'. block_allocator_allocate active grow n s = Inr (p, s') \<and>
      (p = NULL \<and> heap_inv okk backed low s' room L \<or>
       p \<noteq> NULL \<and> (\<exists>k \<ge> unat n. L p = None \<and> heap_inv okk backed low s' room (L(p \<mapsto> k))))"
    using allocate_correct [OF inv] heap_regions(1) by (metis fun_upd_same)
next
  fix s :: "'k block_allocator" and room room' :: nat and L p k
  assume inv: "heap_inv okk backed low s room L"
  show "block_allocator_free active NULL s = Inr ((), s)" by (rule free_null [OF inv])
  show "room' \<le> room \<Longrightarrow> heap_inv okk backed low s room' L" by (rule heap_inv_mono [OF inv])
  assume p: "L p = Some k"
  show "\<exists>s'. block_allocator_free active p s = Inr ((), s') \<and> heap_inv okk backed low s' room (L(p := None))"
    by (rule free_correct [OF inv p])
  show "p \<noteq> NULL \<and> unat p + k < 2 ^ 64 \<and>
      (\<forall>q m. L q = Some m \<longrightarrow> q \<noteq> p \<longrightarrow> unat p + k \<le> unat q \<or> unat q + m \<le> unat p)"
    using heap_regions(1,3,5) [OF inv p] by blast
qed

end
