(* ===== verification/Kernel_Heap.thy ===== *)
theory Kernel_Heap
  imports Address_Space Block_Allocator
begin

text \<open>
  The kernel's heap: \<open>kernel/kmalloc.c\<close> on top of \<open>kernel/block_allocator.c\<close>. The pages come from
  the page allocator and are mapped into the kernel's half with \<open>vmap_map_page\<close>; this theory
  shows that this way of growing satisfies \<open>page_supply\<close>, so that \<open>kmalloc\<close> and \<open>kfree\<close> inherit
  the results on the block allocator. It joins the page allocator, the bump allocator of table
  pages, the page tables and the direct map.
\<close>

section \<open>Operations\<close>

abbreviation KERNEL_HEAP_VIRTUAL_BASE :: u64 where "KERNEL_HEAP_VIRTUAL_BASE \<equiv> 0xffffffffa0000000"
abbreviation BLOCK_ALLOCATOR_DEFAULT_ORDER :: nat where "BLOCK_ALLOCATOR_DEFAULT_ORDER \<equiv> 10"

definition KERNEL_HEAP_PAGE_FLAGS :: u64 where
  "KERNEL_HEAP_PAGE_FLAGS = PAGE_FLAG_NORMAL_MEMORY OR PAGE_FLAG_EL1_RW OR PAGE_FLAG_NX"

text \<open>
  The part of \<open>g_kernel_heap\<close> that is about pages: the root of \<open>g_kernel_address_space\<close> and the
  page flags.
\<close>

record kernel_heap_state = kernel_state +
  heap_root :: u64
  heap_page_flags :: u64

abbreviation heap_vmap :: "kernel_heap_state \<Rightarrow> kernel_heap_state vmap" where
  "heap_vmap k \<equiv> build_vmap_table (heap_root k)"

type_synonym kernel_heap = "kernel_heap_state block_allocator"

definition heap_active :: "kernel_heap_state \<Rightarrow> bool" where
  "heap_active k = vmap_is_active (heap_vmap k) k"

text \<open>One round of the loop that obtains and maps the pages, and the rounds that are left.\<close>

definition heap_page :: "u64 \<Rightarrow> (kernel_heap_state, bool) prog" where
  "heap_page page_virtual_address =
     attempt (kernel_page_alloc_block PAGE_ALLOC_ORDER_4KB) False (\<lambda>page_address.
     bnd (\<lambda>k. vmap_map_page (heap_vmap k) page_address page_virtual_address (heap_page_flags k) k) (\<lambda>(r, v).
     thn (upd (\<lambda>k. k\<lparr>heap_root := root_page_table v\<rparr>))
         (ret (\<not> r < 0))))"

fun heap_pages :: "nat \<Rightarrow> u64 \<Rightarrow> (kernel_heap_state, bool) prog" where
  "heap_pages 0 page_virtual_address = ret True"
| "heap_pages (Suc n) page_virtual_address =
     bnd (heap_page page_virtual_address) (\<lambda>ok.
     if ok then heap_pages n (page_virtual_address + MMAP_GRANULE_SIZE) else ret False)"

definition heap_grow :: "kernel_heap_state pages_fn" where
  "heap_grow va n = heap_pages (unat n) va"

definition block_allocator_init :: "u64 \<Rightarrow> u64 \<Rightarrow> u64 \<Rightarrow> (kernel_heap, int) prog" where
  "block_allocator_init root base page_flags =
     thn (\<lambda>s. kassert (vmap_is_active (build_vmap_table root :: kernel_heap_state vmap) (backend s)) s)
    (thn (upd (\<lambda>s. s\<lparr>backend := (backend s)\<lparr>heap_root := root, heap_page_flags := page_flags\<rparr>,
                   virtual_base := base, block_list_head := 0, free_list_head := 0\<rparr>))
    (attempt (within backend backend_update (kernel_page_alloc_block BLOCK_ALLOCATOR_DEFAULT_ORDER)) (-1) (\<lambda>page_address.
     bnd (within backend backend_update (\<lambda>k. vmap_map_range (heap_vmap k) base
            (base + BLOCK_ALLOCATOR_DEFAULT_SIZE) page_address page_flags k)) (\<lambda>(r, v).
     thn (upd (\<lambda>s. s\<lparr>backend := (backend s)\<lparr>heap_root := root_page_table v\<rparr>\<rparr>))
         (if r < 0 then ret (-1)
          else thn (upd (block_allocator_setup base)) (ret 0))))))"

definition kernel_heap_init :: "(kernel_heap, int) prog" where
  "kernel_heap_init =
     bnd (within backend backend_update (mmap_build_vmap KERNEL_HEAP_VIRTUAL_BASE)) (\<lambda>address_space.
     case address_space of
       None \<Rightarrow> ret (-1)
     | Some v \<Rightarrow> block_allocator_init (root_page_table v) KERNEL_HEAP_VIRTUAL_BASE KERNEL_HEAP_PAGE_FLAGS)"

definition kmalloc :: "u64 \<Rightarrow> (kernel_heap, u64) prog" where
  "kmalloc amount = block_allocator_allocate heap_active heap_grow amount"

definition kfree :: "u64 \<Rightarrow> (kernel_heap, unit) prog" where
  "kfree address = block_allocator_free heap_active address"

section \<open>Translations of upper addresses\<close>

lemma prefix_0_upper:
  assumes "unat KERNEL_HEAP_VIRTUAL_BASE \<le> unat v"
  shows "unat (prefix 0 v) + 0xFFFF * 2 ^ 36 = unat v div 4096"
proof -
  have "unat v div 4096 = 0xFFFF * 2 ^ 36 + (unat v - 0xFFFF * 2 ^ 48) div 4096"
  proof -
    have "unat v = (0xFFFF * 2 ^ 36) * 4096 + (unat v - 0xFFFF * 2 ^ 48)" using assms by simp
    then have "unat v div 4096 = ((0xFFFF * 2 ^ 36) * 4096 + (unat v - 0xFFFF * 2 ^ 48)) div 4096" by simp
    then show ?thesis by simp
  qed
  moreover have "(unat v - 0xFFFF * 2 ^ 48) div 4096 < 2 ^ 36"
  proof -
    have "unat v < 0xFFFF * 2 ^ 48 + 2 ^ 48" using unat_lt_64 [of v] by simp
    moreover have "0xFFFF * 2 ^ 48 \<le> unat v" using assms by simp
    ultimately have "unat v - 0xFFFF * 2 ^ 48 < 2 ^ 48" by linarith
    then show ?thesis by simp
  qed
  moreover have "unat (prefix 0 v) = unat v div 4096 mod 2 ^ 36"
    using unat_prefix [of 0 v] by (simp add: region_size_def)
  moreover have "(0xFFFF * 2 ^ 36 + (unat v - 0xFFFF * 2 ^ 48) div 4096) mod 2 ^ 36 =
      (unat v - 0xFFFF * 2 ^ 48) div 4096 mod 2 ^ 36" by (metis mod_mult_self3)
  ultimately show ?thesis by (metis add.commute mod_less)
qed

lemma prefix_0_upper_eq:
  assumes "unat KERNEL_HEAP_VIRTUAL_BASE \<le> unat v" "unat KERNEL_HEAP_VIRTUAL_BASE \<le> unat w"
  shows "prefix 0 v = prefix 0 w \<longleftrightarrow> unat v div 4096 = unat w div 4096"
  using prefix_0_upper [OF assms(1)] prefix_0_upper [OF assms(2)]
  by (simp add: word_unat_eq_iff) linarith

text \<open>The direct map does not reach up to the heap.\<close>

lemma window_prefix:
  assumes "p < MMAP_PHYSICAL_REGION_SIZE" "unat KERNEL_HEAP_VIRTUAL_BASE \<le> unat v"
  shows "prefix 0 (MMAP_VIRTUAL_BASE_ADDRESS + p) \<noteq> prefix 0 v"
proof
  assume eq: "prefix 0 (MMAP_VIRTUAL_BASE_ADDRESS + p) = prefix 0 v"
  have p: "unat p < 2 ^ 34" using assms(1) by (simp add: word_less_nat_alt)
  have u: "unat (MMAP_VIRTUAL_BASE_ADDRESS + p) = unat MMAP_VIRTUAL_BASE_ADDRESS + unat p"
    by (rule window_half(1) [OF assms(1)])
  have "unat (prefix 0 (MMAP_VIRTUAL_BASE_ADDRESS + p)) = unat (MMAP_VIRTUAL_BASE_ADDRESS + p) div 4096 mod 2 ^ 36"
    using unat_prefix [of 0 "MMAP_VIRTUAL_BASE_ADDRESS + p"] by (simp add: region_size_def)
  also have "unat (MMAP_VIRTUAL_BASE_ADDRESS + p) div 4096 = 0xFFFF * 2 ^ 36 + (0x500000000 + unat p div 4096)"
    unfolding u by simp
  also have "(0xFFFF * 2 ^ 36 + (0x500000000 + unat p div 4096)) mod 2 ^ 36 = (0x500000000 + unat p div 4096) mod 2 ^ 36"
    by (metis mod_mult_self3)
  also have "\<dots> = 0x500000000 + unat p div 4096" using p by simp
  finally have "unat (prefix 0 v) < 0x500400000" using eq p by simp
  moreover have "unat KERNEL_HEAP_VIRTUAL_BASE div 4096 \<le> unat v div 4096" by (rule div_le_mono [OF assms(2)])
  ultimately show False using prefix_0_upper [OF assms(2)] by simp
qed

lemma unat_target_0:
  assumes "page_ok x" shows "unat (target 0 x v) = unat x + unat v mod 4096"
proof -
  have x: "x AND NOT (mask 12) = x"
  proof -
    have "bit x k \<Longrightarrow> 12 \<le> k" for k using page_bits [OF assms] bit_addr_mask [of k] by (metis bit_and_iff)
    then show ?thesis by (intro bit_word_eqI) (auto simp: bit_and_iff bit_not_iff bit_mask_iff not_less)
  qed
  have "target 0 x v = (x AND NOT (mask 12)) OR (v AND mask 12)"
    using page_bits [OF assms] by (simp add: target_def and.assoc [symmetric])
  also have "\<dots> = (x AND NOT (mask 12)) + (v AND mask 12)"
    by (rule disjunctive_add_eq_or [symmetric]) (auto simp: bit_eq_iff bit_simps)
  finally have t: "target 0 x v = x + (v AND mask 12)" unfolding x .
  have m: "unat (v AND mask 12) = unat v mod 4096" unfolding unat_and_mask by simp
  have "unat v mod 4096 < 4096" by simp
  then have "unat x + unat (v AND mask 12) < 2 ^ 34 + 4096" unfolding m using page_okD(3) [OF assms] by (rule add_strict_mono [rotated])
  also have "(2 :: nat) ^ 34 + 4096 < 2 ^ 64" by simp
  finally show ?thesis unfolding t by (subst unat_add_no_wrap) (simp_all add: m)
qed

lemma target_0_page: "page_ok x \<Longrightarrow> unat (target 0 x v) div 4096 = unat x div 4096"
  using page_okD(2) [of x] unat_target_0 [of x v] by (auto elim!: dvdE)

lemma target_0_inj:
  assumes "page_ok x" "target 0 x v = target 0 x w" "unat v div 4096 = unat w div 4096" shows "v = w"
proof -
  have "unat v mod 4096 = unat w mod 4096" using assms(2) unat_target_0 [OF assms(1)] by (metis add_left_cancel)
  then have "unat v = unat w" using assms(3) by (metis div_mult_mod_eq)
  then show ?thesis by (simp add: word_unat_eq_iff)
qed

section \<open>The backend's invariant\<close>

abbreviation HEAP_LOW :: nat where "HEAP_LOW \<equiv> unat KERNEL_HEAP_VIRTUAL_BASE"

definition heap_translate :: "kernel_heap_state \<Rightarrow> u64 \<Rightarrow> u64 option" where
  "heap_translate k v = vtranslate (heap_vmap k) k v"

text \<open>
  The translation registers hold the kernel's root; the pages of the page allocator and the table
  pages are disjoint; no block covers the heap's range; and every address of the range that is
  mapped has a byte of memory of its own, in a frame that is not free.
\<close>

definition heap_pages_ok :: "kernel_heap_state \<Rightarrow> bool" where
  "heap_pages_ok k \<longleftrightarrow> pages_ok k \<and> pages_avail k \<inter> mmap_avail k = {} \<and>
     (\<forall>v. HEAP_LOW \<le> unat v \<longrightarrow> no_block (heap_vmap k) k v) \<and>
     (\<forall>v w x. HEAP_LOW \<le> unat v \<longrightarrow> HEAP_LOW \<le> unat w \<longrightarrow>
        heap_translate k v = Some x \<longrightarrow> heap_translate k w = Some x \<longrightarrow> v = w) \<and>
     (\<forall>v x p. HEAP_LOW \<le> unat v \<longrightarrow> heap_translate k v = Some x \<longrightarrow> p \<in> pages_avail k \<longrightarrow>
        unat x div 4096 \<noteq> unat p div 4096)"

definition heap_regs_ok :: "kernel_heap_state \<Rightarrow> bool" where
  "heap_regs_ok k \<longleftrightarrow> heap_root k = g_ttbr1_table k \<and> heap_page_flags k AND TBL_ENTRY_ADDR_MASK = 0 \<and>
     drop_bit 1 (ttbr1_el1 k) = drop_bit 1 (heap_root k)"

definition heap_backend_ok :: "kernel_heap_state \<Rightarrow> bool" where
  "heap_backend_ok k \<longleftrightarrow> heap_regs_ok k \<and> heap_pages_ok k"

definition heap_short :: "kernel_heap_state \<Rightarrow> nat \<Rightarrow> bool" where
  "heap_short k n \<longleftrightarrow> card (pages_avail k) < n \<or> card (mmap_avail k) < 4 * n"

lemma kernel_root_vmap: "heap_root k = g_ttbr1_table k \<Longrightarrow> mmap_vmap MMAP_VIRTUAL_BASE_ADDRESS k = heap_vmap k"
  by (simp add: mmap_vmap_def)

text \<open>What mapping a page leaves alone.\<close>

definition same_frame :: "kernel_heap_state \<Rightarrow> kernel_heap_state \<Rightarrow> bool" where
  "same_frame k k' \<longleftrightarrow> page_frames k' = page_frames k \<and> heap_root k' = heap_root k \<and>
     heap_page_flags k' = heap_page_flags k \<and> ttbr1_el1 k' = ttbr1_el1 k \<and> g_ttbr1_table k' = g_ttbr1_table k \<and>
     g_ttbr0_table k' = g_ttbr0_table k"

lemma vmap_map_page_frame:
  assumes "vmap_map_page (heap_vmap k) pa va flags k = Inr (x, k')" shows "same_frame k k'"
proof -
  have "preserves (same_frame k) alloc_vmap_page" by (rule alloc_vmap_page_preserves) (auto simp: same_frame_def)
  then have "yields (same_frame k) (\<lambda>(r, v'). alloc_page v' = alloc_page (heap_vmap k)) (vmap_map_page (heap_vmap k) pa va flags)"
    by (intro vmap_map_yields(1)) (auto simp: same_frame_def)
  from yieldsD [OF this _ assms] show ?thesis by (simp add: same_frame_def)
qed

text \<open>The invariant after the page tables have changed outside the direct map.\<close>

lemma pages_ok_remapped:
  assumes ok: "pages_ok k" and dis: "pages_avail k \<inter> mmap_avail k = {}" and root: "heap_root k = g_ttbr1_table k"
    and fr: "same_frame k k'" and init: "g_mmap_initialized k' = g_mmap_initialized k" and mok: "mmap_pages_ok k'"
    and inv: "vmap_inv mmap_avail (\<lambda>_. {}) (heap_vmap k) k'"
    and tr: "\<And>p. p < MMAP_PHYSICAL_REGION_SIZE \<Longrightarrow>
      vtranslate (heap_vmap k) k' (MMAP_VIRTUAL_BASE_ADDRESS + p) = vtranslate (heap_vmap k) k (MMAP_VIRTUAL_BASE_ADDRESS + p)"
    and pg: "vmap_pages (heap_vmap k) k' \<subseteq> vmap_pages (heap_vmap k) k \<union> mmap_avail k"
  shows "pages_ok k'" "pages_avail k' = pages_avail k"
proof -
  have dm: "direct_map_ok k" using ok by (simp add: pages_ok_def)
  have nn: "g_ttbr1_table k \<noteq> NULL" by (rule direct_map_root [OF dm])
  have roots: "get_ttbr_table va k' = get_ttbr_table va k" for va using fr by (simp add: get_ttbr_table_def same_frame_def)
  have v: "mmap_vmap MMAP_VIRTUAL_BASE_ADDRESS k' = heap_vmap k" "mmap_vmap MMAP_VIRTUAL_BASE_ADDRESS k = heap_vmap k"
    using root roots by (simp_all add: mmap_vmap_def)
  have "mmap_translate k' (MMAP_VIRTUAL_BASE_ADDRESS + p) = Some p" if p: "p < MMAP_PHYSICAL_REGION_SIZE" for p
  proof -
    have "mmap_translate k (MMAP_VIRTUAL_BASE_ADDRESS + p) = Some p"
      using dm p by (simp add: direct_map_ok_def direct_mapped_def)
    then show ?thesis using tr [OF p] window_ttbr1 [OF p, of k] roots root by (simp add: mmap_translate_def mmap_vmap_def)
  qed
  then have dm': "direct_map_ok k'"
    using dm init mok inv v by (simp add: direct_map_ok_def direct_mapped_def mmap_inv_def)
  show av: "pages_avail k' = pages_avail k" using fr by (simp add: pages_avail_def same_frame_def)
  have "mmap_physical_to_virtual k' = mmap_physical_to_virtual k"
    using init by (simp add: fun_eq_iff mmap_physical_to_virtual_def)
  moreover have "kernel_tables k' \<subseteq> kernel_tables k \<union> mmap_avail k"
    using pg nn root fr by (simp add: vmap_pages_def kernel_tables_def same_frame_def)
  ultimately show "pages_ok k'" using ok dm' av dis fr unfolding pages_ok_def same_frame_def by auto
qed

text \<open>Taking a page from the page allocator.\<close>

lemma heap_take_page:
  assumes ok: "heap_backend_ok k"
  obtains "kernel_page_alloc_block 0 k = Inr (None, k)" "pages_avail k = {}"
  | x k1 where "kernel_page_alloc_block 0 k = Inr (Some x, k1)" "x \<in> pages_avail k" "page_ok x"
      "pages_ok k1" "pages_avail k1 = pages_avail k - {x}" "k1 = k\<lparr>page_frames := page_frames k1\<rparr>"
proof -
  have pok: "pages_ok k" using ok by (simp add: heap_backend_ok_def heap_pages_ok_def)
  show ?thesis
  proof (rule kernel_page_alloc_cases [OF pok])
    fix x a assume *: "kernel_page_alloc_block 0 k = Inr (Some x, k\<lparr>page_frames := a\<rparr>)"
      "x \<in> pages_avail k" "page_ok x" "frame_addr ` bitmap_free a = pages_avail k - {x}" "0 \<notin> bitmap_free a"
      "\<exists>fl. page_alloc_inv (mmap_physical_to_virtual k) (2 ^ 22) a fl"
    let ?k = "k\<lparr>page_frames := a\<rparr>"
    have av: "pages_avail ?k = pages_avail k - {x}" using *(4) by (simp add: pages_avail_def)
    have "mmap_physical_to_virtual ?k = mmap_physical_to_virtual k" by (simp add: fun_eq_iff mmap_physical_to_virtual_def)
    moreover have "kernel_tables ?k = kernel_tables k" by (simp add: kernel_tables_def)
    ultimately have "pages_ok ?k"
      using pok *(5,6) av by (auto simp: pages_ok_def direct_map_ok_frames)
    then show ?thesis using that(2) [of x ?k] * av by simp
  qed (use that(1) in blast)
qed

text \<open>Mapping a fresh page into the heap's range.\<close>

lemma heap_mapped_ok:
  assumes ok: "heap_backend_ok k" and va: "HEAP_LOW \<le> unat va" and x: "x \<in> pages_avail k" "page_ok x"
    and pok: "pages_ok k'" "pages_avail k' = pages_avail k - {x}" "mmap_avail k' \<subseteq> mmap_avail k" "same_frame (k\<lparr>page_frames := a\<rparr>) k'"
    and tr: "\<And>v. HEAP_LOW \<le> unat v \<Longrightarrow> heap_translate k' v =
      (if r \<and> unat v div 4096 = unat va div 4096 then Some (target 0 x v) else heap_translate k v)"
    and nb: "\<And>v. no_block (heap_vmap k) k v \<Longrightarrow> no_block (heap_vmap k) k' v"
  shows "heap_backend_ok k'"
proof -
  have regs: "heap_regs_ok k" and pages: "heap_pages_ok k" using ok by (simp_all add: heap_backend_ok_def)
  have dis: "pages_avail k \<inter> mmap_avail k = {}" and nb0: "\<And>v. HEAP_LOW \<le> unat v \<Longrightarrow> no_block (heap_vmap k) k v"
    and inj: "\<And>v w x. HEAP_LOW \<le> unat v \<Longrightarrow> HEAP_LOW \<le> unat w \<Longrightarrow> heap_translate k v = Some x \<Longrightarrow>
        heap_translate k w = Some x \<Longrightarrow> v = w"
    and own: "\<And>v x p. HEAP_LOW \<le> unat v \<Longrightarrow> heap_translate k v = Some x \<Longrightarrow> p \<in> pages_avail k \<Longrightarrow> unat x div 4096 \<noteq> unat p div 4096"
    using pages unfolding heap_pages_ok_def by blast+
  have root: "heap_root k' = heap_root k" "g_ttbr1_table k' = g_ttbr1_table k" "heap_page_flags k' = heap_page_flags k"
    "ttbr1_el1 k' = ttbr1_el1 k" using pok(4) by (simp_all add: same_frame_def)
  have regs': "heap_regs_ok k'" using regs root by (simp add: heap_regs_ok_def)
  have apart: "unat y div 4096 \<noteq> unat p div 4096"
    if "HEAP_LOW \<le> unat v" "heap_translate k' v = Some y" "p \<in> pages_avail k'" for v y p
  proof (cases "r \<and> unat v div 4096 = unat va div 4096")
    case True
    then have "y = target 0 x v" using that(2) tr [OF that(1)] by simp
    then have y: "unat y div 4096 = unat x div 4096" using target_0_page [OF x(2)] by simp
    have p: "page_ok p" "p \<noteq> x"
      using that(3) pok(1,2) process_pages.avail_pages [OF pok(1)] by auto
    show ?thesis
    proof
      assume "unat y div 4096 = unat p div 4096"
      then have "unat x div 4096 = unat p div 4096" using y by simp
      then show False using page_eq [OF x(2) p(1)] p(2) by simp
    qed
  next
    case False
    then have t: "heap_translate k v = Some y" using that tr [OF that(1)] by presburger
    have "p \<in> pages_avail k" using that(3) pok(2) by simp
    then show ?thesis by (rule own [OF that(1) t])
  qed
  have inj': "v = w" if v: "HEAP_LOW \<le> unat v" "HEAP_LOW \<le> unat w" "heap_translate k' v = Some y" "heap_translate k' w = Some y" for v w y
  proof -
    have outside: "heap_translate k u \<noteq> Some (target 0 x u')" if "HEAP_LOW \<le> unat u" for u u'
      using own [OF that _ x(1)] target_0_page [OF x(2)] by metis
    show ?thesis
      using v tr [OF v(1)] tr [OF v(2)] inj [OF v(1,2), of y] target_0_inj [OF x(2), of v w]
        outside [OF v(1), of w] outside [OF v(2), of v] by (auto split: if_splits)
  qed
  have "no_block (heap_vmap k') k' v" if "HEAP_LOW \<le> unat v" for v using nb [OF nb0 [OF that]] root(1) by simp
  then have "heap_pages_ok k'" unfolding heap_pages_ok_def using pok(1-3) dis apart inj' by blast
  with regs' show ?thesis by (simp add: heap_backend_ok_def)
qed

lemma heap_page_step:
  assumes ok: "heap_backend_ok k" and va: "HEAP_LOW \<le> unat va"
  shows "\<exists>r k'. heap_page va k = Inr (r, k') \<and> heap_backend_ok k' \<and>
    (\<forall>v. HEAP_LOW \<le> unat v \<longrightarrow> unat v div 4096 \<noteq> unat va div 4096 \<longrightarrow> heap_translate k' v = heap_translate k v) \<and>
    (if r then (\<forall>v. HEAP_LOW \<le> unat v \<longrightarrow> unat v div 4096 = unat va div 4096 \<longrightarrow> heap_translate k' v \<noteq> None) \<and>
       card (pages_avail k) = card (pages_avail k') + 1 \<and> card (mmap_avail k) \<le> card (mmap_avail k') + 4
     else pages_avail k = {} \<or> card (mmap_avail k) < 4)"
proof (rule heap_take_page [OF ok])
  assume "kernel_page_alloc_block 0 k = Inr (None, k)" "pages_avail k = {}"
  then have "heap_page va k = Inr (False, k)" by (simp add: heap_page_def)
  then show ?thesis using ok \<open>pages_avail k = {}\<close> by (intro exI [of _ False] exI [of _ k]) simp
next
  fix x k1 assume al: "kernel_page_alloc_block 0 k = Inr (Some x, k1)" and x: "x \<in> pages_avail k" "page_ok x"
    and p1: "pages_ok k1" "pages_avail k1 = pages_avail k - {x}" and k1: "k1 = k\<lparr>page_frames := page_frames k1\<rparr>"
  let ?v = "heap_vmap k"
  have regs: "heap_regs_ok k" and pages: "heap_pages_ok k" using ok by (simp_all add: heap_backend_ok_def)
  have r1: "heap_root k1 = heap_root k" "heap_page_flags k1 = heap_page_flags k" "g_ttbr1_table k1 = g_ttbr1_table k"
    "mmap_avail k1 = mmap_avail k" "phys k1 = phys k"
    by (subst k1, simp add: mmap_avail_def)+
  have root: "heap_root k1 = g_ttbr1_table k1" and fl: "heap_page_flags k AND TBL_ENTRY_ADDR_MASK = 0"
    using regs r1 by (simp_all add: heap_regs_ok_def)
  have dm: "direct_map_ok k1" using p1(1) by (simp add: pages_ok_def)
  have mi: "mmap_inv MMAP_VIRTUAL_BASE_ADDRESS k1" using dm by (simp add: direct_map_ok_def direct_mapped_def)
  have v1: "mmap_vmap MMAP_VIRTUAL_BASE_ADDRESS k1 = ?v" using root r1(1) by (simp add: mmap_vmap_def)
  have inv: "mmap_pages_ok k1" "vmap_inv mmap_avail (\<lambda>_. {}) ?v k1" using mi v1 by (simp_all add: mmap_inv_def)
  have nb: "no_block ?v k1 v \<longleftrightarrow> no_block ?v k v" for v using r1(5) by (simp add: no_block_def)
  have nbva: "no_block ?v k1 va" using pages va nb by (simp add: heap_pages_ok_def)
  have nn: "root_page_table ?v \<noteq> NULL" using direct_map_root [OF dm] root r1(1) by simp
  obtain r v' k' where run: "vmap_map_page ?v x va (heap_page_flags k) k1 = Inr ((r, v'), k')" and mok: "mmap_pages_ok k'"
    and cs: "r = 0 \<and> maps mmap_avail (\<lambda>_. {}) 4 0 va x ?v k1 v' k' \<or>
      r = -1 \<and> grows mmap_avail (\<lambda>_. {}) 0 4 ?v k1 v' k' \<and> card (mmap_avail k1) < 4"
    using mmap_pages.map_page_outcome [OF inv(1) build_vmap_mine inv(2) nbva fl, of x]
    by (auto simp: mmap_pages.map_outcome_def)
  have facts: "v' = ?v" "vmap_inv mmap_avail (\<lambda>_. {}) ?v k'" "g_mmap_initialized k' = g_mmap_initialized k1"
    "vmap_pages ?v k' \<subseteq> vmap_pages ?v k1 \<union> mmap_avail k1" "mmap_avail k' \<subseteq> mmap_avail k1"
    "\<And>v. no_block ?v k1 v \<Longrightarrow> no_block ?v k' v" "card (mmap_avail k1) \<le> card (mmap_avail k') + 4"
    and trv: "\<And>v. vtranslate ?v k' v = (if r = 0 \<and> prefix 0 v = prefix 0 va then Some (target 0 x v) else vtranslate ?v k1 v)"
    using cs nn by (auto simp: maps_def grows_def)
  have run1: "vmap_map_page (heap_vmap k1) x va (heap_page_flags k) k1 = Inr ((r, v'), k')" using run r1(1) by simp
  have frame: "same_frame k1 k'" by (rule vmap_map_page_frame [OF run1])
  then have rk: "heap_root k' = heap_root k" using r1(1) by (simp add: same_frame_def)
  have win: "vtranslate (heap_vmap k1) k' (MMAP_VIRTUAL_BASE_ADDRESS + p) = vtranslate (heap_vmap k1) k1 (MMAP_VIRTUAL_BASE_ADDRESS + p)"
    if "p < MMAP_PHYSICAL_REGION_SIZE" for p
    using trv [of "MMAP_VIRTUAL_BASE_ADDRESS + p"] window_prefix [OF that va] r1(1) by simp
  have dis1: "pages_avail k1 \<inter> mmap_avail k1 = {}" using pages p1(2) r1(4) by (auto simp: heap_pages_ok_def)
  note pk = pages_ok_remapped [OF p1(1) dis1 root frame facts(3) mok _ win, unfolded r1(1), OF facts(2) _ facts(4)]
  have tr: "heap_translate k' v = (if r = 0 \<and> unat v div 4096 = unat va div 4096 then Some (target 0 x v) else heap_translate k v)"
    if "HEAP_LOW \<le> unat v" for v
    using trv [of v] prefix_0_upper_eq [OF that va] rk r1(5) by (simp add: heap_translate_def vtranslate_def)
  have avail: "pages_avail k' = pages_avail k - {x}" "mmap_avail k' \<subseteq> mmap_avail k"
    using pk(2) p1(2) facts(5) r1(4) by simp_all
  have frame': "same_frame (k\<lparr>page_frames := page_frames k1\<rparr>) k'" using frame k1 by simp
  have nb': "no_block ?v k v \<Longrightarrow> no_block ?v k' v" for v using facts(6) nb by blast
  have ok': "heap_backend_ok k'"
    by (rule heap_mapped_ok [OF ok va x pk(1) avail frame' tr nb'])
  have fin: "finite (pages_avail k)" using process_pages.avail_pages pages by (auto simp: heap_pages_ok_def)
  then have card: "card (pages_avail k) = card (pages_avail k') + 1" using x(1) avail(1)
    by (metis Suc_eq_plus1 card.remove)
  have "heap_page va k = Inr (\<not> r < 0, k'\<lparr>heap_root := root_page_table v'\<rparr>)"
    using al run1 r1(2) by (simp add: heap_page_def)
  also have "k'\<lparr>heap_root := root_page_table v'\<rparr> = k'" using rk facts(1) by simp
  finally have "heap_page va k = Inr (\<not> r < 0, k')" .
  then show ?thesis using ok' tr card cs facts(7) r1(4) by (intro exI [of _ "\<not> r < 0"] exI [of _ k']) auto
qed

lemma heap_pages_outcome:
  assumes "heap_backend_ok k" "4096 dvd unat va" "HEAP_LOW \<le> unat va" "unat va + n * 4096 < 2 ^ 64"
  shows "\<exists>r k'. heap_pages n va k = Inr (r, k') \<and> heap_backend_ok k' \<and>
    (\<forall>v. HEAP_LOW \<le> unat v \<and> unat v < unat va \<longrightarrow> heap_translate k' v = heap_translate k v) \<and>
    (if r then \<forall>v. unat va \<le> unat v \<and> unat v < unat va + n * 4096 \<longrightarrow> heap_translate k' v \<noteq> None
     else heap_short k n)"
  using assms
proof (induction n arbitrary: k va)
  case 0
  then show ?case by (intro exI [of _ True] exI [of _ k]) auto
next
  case (Suc n)
  obtain r k1 where run: "heap_page va k = Inr (r, k1)" and ok1: "heap_backend_ok k1"
    and keep: "\<And>v. HEAP_LOW \<le> unat v \<Longrightarrow> unat v div 4096 \<noteq> unat va div 4096 \<Longrightarrow> heap_translate k1 v = heap_translate k v"
    and res: "if r then (\<forall>v. HEAP_LOW \<le> unat v \<longrightarrow> unat v div 4096 = unat va div 4096 \<longrightarrow> heap_translate k1 v \<noteq> None) \<and>
       card (pages_avail k) = card (pages_avail k1) + 1 \<and> card (mmap_avail k) \<le> card (mmap_avail k1) + 4
     else pages_avail k = {} \<or> card (mmap_avail k) < 4"
    using heap_page_step [OF Suc.prems(1,3)] by blast
  obtain q where q: "unat va = 4096 * q" using Suc.prems(2) by (auto elim!: dvdE)
  have below: "unat v div 4096 \<noteq> unat va div 4096" if "unat v < unat va" for v :: u64
    using that q by (metis div_mult_self1_is_m less_mult_imp_div_less mult.commute nat_less_le zero_less_numeral)
  show ?case
  proof (cases r)
    case False
    have "heap_short k (Suc n)" using res False by (auto simp: heap_short_def)
    then show ?thesis using run ok1 keep below False by (intro exI [of _ False] exI [of _ k1]) auto
  next
    case True
    have u: "unat (va + MMAP_GRANULE_SIZE) = unat va + 4096" using Suc.prems(4) by (subst unat_add_no_wrap) simp_all
    have dv: "4096 dvd unat (va + MMAP_GRANULE_SIZE)" and lo: "HEAP_LOW \<le> unat (va + MMAP_GRANULE_SIZE)"
      and hi: "unat (va + MMAP_GRANULE_SIZE) + n * 4096 < 2 ^ 64"
      unfolding u using Suc.prems(2-4) by simp_all
    obtain r' k' where run': "heap_pages n (va + MMAP_GRANULE_SIZE) k1 = Inr (r', k')" and ok': "heap_backend_ok k'"
      and keep': "\<forall>v. HEAP_LOW \<le> unat v \<and> unat v < unat va + 4096 \<longrightarrow> heap_translate k' v = heap_translate k1 v"
      and res': "if r' then \<forall>v. unat va + 4096 \<le> unat v \<and> unat v < unat va + 4096 + n * 4096 \<longrightarrow> heap_translate k' v \<noteq> None
        else heap_short k1 n"
      using Suc.IH [OF ok1 dv lo hi] unfolding u by blast
    have page: "unat v div 4096 = unat va div 4096" if "unat va \<le> unat v" "unat v < unat va + 4096" for v :: u64
      using that q by simp
    have "heap_translate k' v \<noteq> None" if "r'" "unat va \<le> unat v" "unat v < unat va + Suc n * 4096" for v
    proof (cases "unat v < unat va + 4096")
      case c: True
      have "HEAP_LOW \<le> unat v" using that(2) Suc.prems(3) by simp
      then show ?thesis using keep' c res True page [OF that(2) c] by simp
    next
      case False
      then show ?thesis using res' that by simp
    qed
    moreover have "heap_short k (Suc n)" if "\<not> r'"
      using that res res' True by (auto simp: heap_short_def)
    moreover have "heap_translate k' v = heap_translate k v" if "HEAP_LOW \<le> unat v" "unat v < unat va" for v
      using keep' keep [OF that(1) below [OF that(2)]] that by simp
    ultimately show ?thesis using run run' ok' True by (intro exI [of _ r'] exI [of _ k']) auto
  qed
qed

interpretation kernel_heap: page_supply heap_active heap_grow heap_backend_ok heap_translate heap_short HEAP_LOW
proof
  fix k v w x assume "heap_backend_ok k" "HEAP_LOW \<le> unat v" "HEAP_LOW \<le> unat w"
    "heap_translate k v = Some x" "heap_translate k w = Some x"
  then show "v = w" unfolding heap_backend_ok_def heap_pages_ok_def by blast
next
  fix k assume "heap_backend_ok k"
  then show "heap_active k"
    by (simp add: heap_backend_ok_def heap_regs_ok_def heap_active_def vmap_is_active_def)
next
  fix k and va n :: u64 assume "heap_backend_ok k" "4096 dvd unat va" "HEAP_LOW \<le> unat va" "unat va + unat n * 4096 < 2 ^ 64"
  then show "\<exists>r k'. heap_grow va n k = Inr (r, k') \<and> heap_backend_ok k' \<and>
      (\<forall>v. HEAP_LOW \<le> unat v \<and> unat v < unat va \<longrightarrow> heap_translate k' v = heap_translate k v) \<and>
      (if r then \<forall>v. unat va \<le> unat v \<and> unat v < unat va + unat n * 4096 \<longrightarrow> heap_translate k' v \<noteq> None
       else heap_short k (unat n))"
    unfolding heap_grow_def by (rule heap_pages_outcome)
qed

abbreviation kernel_heap_inv :: "kernel_heap \<Rightarrow> nat \<Rightarrow> (u64 \<rightharpoonup> nat) \<Rightarrow> bool" where
  "kernel_heap_inv \<equiv> heap_inv heap_backend_ok heap_translate HEAP_LOW"

lemmas kmalloc_correct = kernel_heap.allocate_correct [folded kmalloc_def]
lemmas kfree_correct = kernel_heap.free_correct [folded kfree_def]

end
