(* ===== verification/Heap_Safety.thy ===== *)
theory Heap_Safety
  imports Memory Kernel_Heap
begin

text \<open>
  The properties of \<open>kmalloc\<close> and \<open>kfree\<close>, and a concrete heap on which they are applied: the
  sample kernel of \<open>Memory\<close> with one page mapped at the base of the heap.
\<close>

section \<open>A sample heap\<close>

definition sample_backend :: kernel_heap_state where
  "sample_backend = kernel_state.extend (sample_kernel\<lparr>ttbr1_el1 := g_ttbr1_table sample_kernel\<rparr>)
     \<lparr>heap_root = g_ttbr1_table sample_kernel, heap_page_flags = KERNEL_HEAP_PAGE_FLAGS\<rparr>"

definition sample_heap_backend :: kernel_heap_state where
  "sample_heap_backend = (case heap_pages 1 KERNEL_HEAP_VIRTUAL_BASE sample_backend of
     Inl e \<Rightarrow> sample_backend | Inr (r, k) \<Rightarrow> k)"

definition sample_heap :: kernel_heap where
  "sample_heap = \<lparr>backend = sample_heap_backend, virtual_base = KERNEL_HEAP_VIRTUAL_BASE,
     block_list_head = KERNEL_HEAP_VIRTUAL_BASE, free_list_head = KERNEL_HEAP_VIRTUAL_BASE,
     headers = [KERNEL_HEAP_VIRTUAL_BASE \<mapsto> new_header HEADER_SIZE 4040 NULL NULL]\<rparr>"

lemma upper_prefix_2:
  assumes "unat KERNEL_HEAP_VIRTUAL_BASE \<le> unat v"
  shows "0x14010 \<le> unat (prefix 2 v)" "0xFFFF000000000000 \<le> v"
proof -
  have "unat (prefix 2 v) = unat v div 2 ^ 30 mod 2 ^ 18"
    using unat_prefix [of 2 v] by (simp add: region_size_def)
  moreover have "unat KERNEL_HEAP_VIRTUAL_BASE div 2 ^ 30 \<le> unat v div 2 ^ 30" by (rule div_le_mono [OF assms])
  then have "0x3FFFFFFFE \<le> unat v div 2 ^ 30" by simp
  moreover have "unat v div 2 ^ 30 < 0x400000000" using unat_lt_64 [of v] by (simp add: less_mult_imp_div_less)
  ultimately have "unat v div 2 ^ 30 = 0x3FFFFFFFE \<or> unat v div 2 ^ 30 = 0x3FFFFFFFF"
    "unat (prefix 2 v) = unat v div 2 ^ 30 mod 2 ^ 18" by linarith+
  then show "0x14010 \<le> unat (prefix 2 v)" by auto
  show "0xFFFF000000000000 \<le> v" using assms by (simp add: word_le_nat_alt)
qed

lemma page_state_extend:
  fixes s :: kernel_state and k :: kernel_heap_state
  assumes k: "k = kernel_state.extend (s\<lparr>ttbr1_el1 := r\<rparr>) m"
  shows "mmap_avail k = mmap_avail s" "pages_avail k = pages_avail s" "kernel_tables k = kernel_tables s"
    "mmap_translate k v = mmap_translate s v" "pages_ok k = pages_ok s"
proof -
  have f: "phys k = phys s" "g_ttbr0_table k = g_ttbr0_table s" "g_ttbr1_table k = g_ttbr1_table s"
    "g_page_table_allocator k = g_page_table_allocator s" "page_frames k = page_frames s"
    "g_mmap_initialized k = g_mmap_initialized s"
    by (simp_all add: k kernel_state.defs)
  show 1: "mmap_avail k = mmap_avail s" "pages_avail k = pages_avail s" "kernel_tables k = kernel_tables s"
    by (simp_all add: mmap_avail_def pages_avail_def kernel_tables_def f)
  have g: "get_ttbr_table v k = get_ttbr_table v s" for v by (simp add: get_ttbr_table_def f)
  show t: "mmap_translate k v = mmap_translate s v" for v
    by (simp add: mmap_translate_def mmap_vmap_def vtranslate_def g f)
  have "mmap_physical_to_virtual k = mmap_physical_to_virtual s"
    by (simp add: fun_eq_iff mmap_physical_to_virtual_def f)
  moreover have "direct_map_ok k = direct_map_ok s"
    by (simp add: direct_map_ok_def direct_mapped_def mmap_inv_def mmap_pages_ok_def vmap_inv_def mmap_vmap_def g f t 1)
  ultimately show "pages_ok k = pages_ok s" by (simp add: pages_ok_def f 1)
qed

lemma sample_backend_ok: "heap_backend_ok sample_backend" "16 = card (pages_avail sample_backend)"
  "2000 \<le> card (mmap_avail sample_backend)"
proof -
  note ext = page_state_extend [OF sample_backend_def]
  have av: "mmap_avail sample_kernel = mmap_avail sample_mapped" by (simp add: sample_kernel_def mmap_avail_def)
  show "16 = card (pages_avail sample_backend)" "2000 \<le> card (mmap_avail sample_backend)"
    using sample_kernel_room sample_mapped_ok(4) av ext by simp_all
  have roots: "heap_root sample_backend = g_ttbr1_table sample_backend" "g_ttbr1_table sample_backend = g_ttbr1_table sample_mapped"
    "phys sample_backend = phys sample_mapped"
    by (simp_all add: sample_backend_def kernel_state.defs sample_kernel_def)
  have none: "heap_translate sample_backend v = None" if "HEAP_LOW \<le> unat v" for v
    using sample_mapped_outside [of v] upper_prefix_2 [OF that] roots
    by (simp add: heap_translate_def mmap_translate_def mmap_vmap_def vtranslate_def get_ttbr_table_def)
  have nb: "no_block (heap_vmap sample_backend) sample_backend v" if "HEAP_LOW \<le> unat v" for v
    using none [OF that] by (intro unmapped_no_block) (simp add: heap_translate_def)
  have dis: "pages_avail sample_kernel \<inter> mmap_avail sample_kernel = {}"
  proof -
    have "mmap_avail sample_mapped \<subseteq> mmap_avail sample_boot" by (rule sample_mapped_avail)
    moreover have "pages_avail sample_kernel \<inter> mmap_avail sample_boot = {}" by (rule sample_kernel_separate)
    ultimately show ?thesis using av by auto
  qed
  have "heap_pages_ok sample_backend"
    using sample_kernel_ok(1) ext dis nb none by (auto simp: heap_pages_ok_def)
  moreover have "heap_regs_ok sample_backend"
    by (simp add: heap_regs_ok_def sample_backend_def kernel_state.defs KERNEL_HEAP_PAGE_FLAGS_def page_flag_defs)
  ultimately show "heap_backend_ok sample_backend" by (simp add: heap_backend_ok_def)
qed

lemma sample_heap_backend_ok:
  "heap_backend_ok sample_heap_backend"
  "HEAP_LOW \<le> unat v \<Longrightarrow> unat v < HEAP_LOW + 4096 \<Longrightarrow> heap_translate sample_heap_backend v \<noteq> None"
proof -
  obtain r k' where r: "heap_pages 1 KERNEL_HEAP_VIRTUAL_BASE sample_backend = Inr (r, k')" "heap_backend_ok k'"
    "if r then \<forall>v. unat KERNEL_HEAP_VIRTUAL_BASE \<le> unat v \<and> unat v < unat KERNEL_HEAP_VIRTUAL_BASE + 1 * 4096 \<longrightarrow> heap_translate k' v \<noteq> None
     else heap_short sample_backend 1"
    using heap_pages_outcome [OF sample_backend_ok(1), of KERNEL_HEAP_VIRTUAL_BASE 1] by auto
  have "\<not> heap_short sample_backend 1" using sample_backend_ok(2,3) by (simp add: heap_short_def)
  with r show "heap_backend_ok sample_heap_backend"
    "HEAP_LOW \<le> unat v \<Longrightarrow> unat v < HEAP_LOW + 4096 \<Longrightarrow> heap_translate sample_heap_backend v \<noteq> None"
    unfolding sample_heap_backend_def by (auto split: if_splits)
qed

lemma sample_heap_inv: "kernel_heap_inv sample_heap 0x5FFFE000 Map.empty"
proof -
  let ?b = "KERNEL_HEAP_VIRTUAL_BASE"
  let ?m = "[?b \<mapsto> new_header HEADER_SIZE 4040 NULL NULL]"
  have t: "tiles ?m ?b (unat ?b) [?b] (unat ?b + 4096)" by (simp add: new_header_def)
  have "block_list ?m ?b [?b]" "free_list ?m ?b [?b]"
    unfolding block_list_def free_list_def by (rule exI [of _ ?b], rule dll_singleton; simp add: fld_def new_header_def)+
  moreover have "{c \<in> set [?b]. block_free ?m c} = {?b}" by (auto simp: block_free_def fld_def new_header_def)
  ultimately have sh: "heap_shape sample_heap [?b] [?b] (unat ?b + 4096)"
    using t by (simp add: heap_shape_def sample_heap_def)
  have "live (headers sample_heap) [?b] = Map.empty"
    by (auto simp: live_def sample_heap_def block_free_def fld_def new_header_def)
  moreover have "coalesced (headers sample_heap) [?b]" by (simp add: coalesced_def)
  moreover have "(4096 :: nat) dvd unat ?b + 4096" "unat ?b + 4096 + 0x5FFFE000 < 2 ^ 64" by simp_all
  ultimately show ?thesis
    using sh sample_heap_backend_ok unfolding heap_inv_def
    by (intro conjI exI [of _ "[?b]"] exI [of _ "unat ?b + 4096"]) (auto simp: sample_heap_def)
qed

lemma sample_heap_fits: "fits sample_heap 100"
  unfolding fits_def
proof (intro exI conjI)
  let ?b = KERNEL_HEAP_VIRTUAL_BASE
  show "free_list (headers sample_heap) (free_list_head sample_heap) [?b]"
    unfolding free_list_def by (rule exI [of _ ?b]) (simp add: dll_def sample_heap_def fld_def new_header_def)
  show "?b \<in> set [?b]" by simp
  show "unat (100 :: u64) \<le> block_size (headers sample_heap) ?b"
    by (simp add: block_size_def sample_heap_def fld_def new_header_def)
qed

section \<open>Allocating and freeing kernel memory\<close>

text \<open>C9: \<open>kmalloc(n)\<close> returns. If it returns NULL then the allocated blocks are as before, no free
  block had room for \<open>n\<close> bytes, and the pages to grow by were not available. Otherwise the
  result is not NULL and at least \<open>n\<close> bytes from it are disjoint from every block that is
  allocated, and each of these bytes is mapped to a byte of memory no other address of the heap is
  mapped to. \<open>L\<close> lists the allocated blocks with their sizes; the precondition asks that
  \<open>n\<close> bytes, a header and a page of address space are left above the heap.\<close>

theorem kmalloc_safe:
  assumes "kernel_heap_inv s (room + unat n + 4152) L"
  shows "\<exists>p s'. kmalloc n s = Inr (p, s') \<and>
    (p = NULL \<and> kernel_heap_inv s' room L \<and> \<not> fits s n \<and> heap_short (backend s) (unat (pages_needed n)) \<or>
     p \<noteq> NULL \<and> (\<exists>k \<ge> unat n. kernel_heap_inv s' room (L(p \<mapsto> k)) \<and>
       (\<forall>q m. L q = Some m \<longrightarrow> unat p + k \<le> unat q \<or> unat q + m \<le> unat p) \<and>
       (\<forall>v. unat p \<le> unat v \<and> unat v < unat p + k \<longrightarrow>
          (\<exists>x. heap_translate (backend s') v = Some x \<and>
             (\<forall>w. HEAP_LOW \<le> unat w \<longrightarrow> heap_translate (backend s') w = Some x \<longrightarrow> w = v)))))"
proof -
  obtain p s' where run: "kmalloc n s = Inr (p, s')"
    and cs: "p = NULL \<and> kernel_heap_inv s' room L \<and> \<not> fits s n \<and> heap_short (backend s) (unat (pages_needed n)) \<or>
     (\<exists>k \<ge> unat n. L p = None \<and> kernel_heap_inv s' room (L(p \<mapsto> k)))"
    using kmalloc_correct [OF assms] by blast
  from cs show ?thesis
  proof (elim disjE exE conjE)
    fix k assume k: "unat n \<le> k" "L p = None" and inv: "kernel_heap_inv s' room (L(p \<mapsto> k))"
    note reg = heap_regions [OF inv, of p k, simplified]
    have ok: "heap_backend_ok (backend s')" using inv by (simp add: heap_inv_def)
    have dis: "unat p + k \<le> unat q \<or> unat q + m \<le> unat p" if "L q = Some m" for q m
      using reg(5) [of q m] that k(2) by (metis option.distinct(1))
    have "\<exists>x. heap_translate (backend s') v = Some x \<and>
        (\<forall>w. HEAP_LOW \<le> unat w \<longrightarrow> heap_translate (backend s') w = Some x \<longrightarrow> w = v)"
      if v: "unat p \<le> unat v" "unat v < unat p + k" for v
    proof -
      obtain x where x: "heap_translate (backend s') v = Some x" using heap_regions(4) [OF inv, of p k v] v by auto
      have "HEAP_LOW \<le> unat v" using heap_regions(2) [OF inv, of p k] v(1) by simp
      with x kernel_heap.no_alias [OF ok] show ?thesis by blast
    qed
    then show ?thesis using run inv k(1) reg(1) dis by blast
  qed (use run in blast)
qed

theorem kmalloc_safe_witness:
  "\<exists>p s' k. kmalloc 100 sample_heap = Inr (p, s') \<and> p \<noteq> NULL \<and> 100 \<le> k \<and>
     kernel_heap_inv s' 0x5FFFC000 [p \<mapsto> k]"
proof -
  have room: "kernel_heap_inv sample_heap (0x5FFFC000 + unat (100 :: u64) + 4152) Map.empty"
    by (rule heap_inv_mono [OF sample_heap_inv]) simp
  have "fits sample_heap 100" by (rule sample_heap_fits)
  with kmalloc_safe [OF room] show ?thesis by auto
qed

text \<open>C10: \<open>kfree\<close> of an allocated block returns and gives back exactly that block: the other
  allocated blocks are as before, whatever merging with free neighbours takes place, and the heap's
  invariants hold again. \<open>kfree(NULL)\<close> does nothing.\<close>

theorem kfree_exact:
  assumes "kernel_heap_inv s room L"
  shows "kfree NULL s = Inr ((), s) \<and>
    (\<forall>p n. L p = Some n \<longrightarrow> (\<exists>s'. kfree p s = Inr ((), s') \<and> kernel_heap_inv s' room (L(p := None))))"
  using kernel_heap.free_null [OF assms] kfree_correct [OF assms] by (simp_all add: kfree_def)

theorem kfree_exact_witness:
  "\<exists>p s'. (\<exists>s k. kernel_heap_inv s 0x5FFFC000 [p \<mapsto> k] \<and> kfree p s = Inr ((), s')) \<and>
     kernel_heap_inv s' 0x5FFFC000 Map.empty"
proof -
  have "kernel_heap_inv sample_heap (0x5FFFC000 + unat (100 :: u64) + 4152) Map.empty"
    by (rule heap_inv_mono [OF sample_heap_inv]) simp
  from kmalloc_correct [OF this] have "\<exists>p s k. kernel_heap_inv s 0x5FFFC000 [p \<mapsto> k]"
  proof (elim exE conjE disjE)
    fix p s' assume "\<not> fits sample_heap 100"
    moreover have "fits sample_heap 100" by (rule sample_heap_fits)
    ultimately show ?thesis by blast
  qed auto
  then obtain p s k where s: "kernel_heap_inv s 0x5FFFC000 [p \<mapsto> k]" by blast
  have "[p \<mapsto> k] p = Some k" "[p \<mapsto> k](p := None) = Map.empty" by auto
  with kfree_exact [OF s] s show ?thesis by metis
qed

end
