(* ===== verification/Objects.thy ===== *)
theory Objects
  imports Block_Allocator
begin

text \<open>
  What the containers and everything above them see of memory: \<open>kmalloc\<close> and \<open>kfree\<close>, the bytes
  of buffers, and objects of known types.

  The allocator is a parameter of the operations, because the containers exist twice:
  \<open>kernel/utils\<close> uses \<open>kmalloc\<close> and \<open>kfree\<close>, \<open>libraries/libcommon\<close> the \<open>malloc\<close> and \<open>free\<close> of libz.
  Its contract is \<open>kernel_allocator\<close>. Objects of a struct type are a typed heap, a field of the
  state of the component that owns the type; an object comes into being when it is allocated and
  initialised, and ceases to exist when it is freed, so that a later access is a \<open>Bad_Access\<close>.
  Buffers are bytes; an access outside the buffers that exist is a \<open>Bad_Access\<close> too.
\<close>

section \<open>State\<close>

record 'h kmem =
  kalloc :: 'h
  ram :: "u64 \<Rightarrow> u8"
  accessible :: "u64 \<Rightarrow> bool"
  raw :: "u64 \<rightharpoonup> u64"

type_synonym 'h malloc_fn = "u64 \<Rightarrow> ('h, u64) prog"
type_synonym 'h free_fn = "u64 \<Rightarrow> ('h, unit) prog"

section \<open>Bytes\<close>

definition read_byte :: "u64 \<Rightarrow> (('h, 'z) kmem_scheme, u8) prog" where
  "read_byte p = (\<lambda>s. if accessible s p then Inr (ram s p, s) else Inl Bad_Access)"

definition write_byte :: "u64 \<Rightarrow> u8 \<Rightarrow> (('h, 'z) kmem_scheme, unit) prog" where
  "write_byte p b = (\<lambda>s. if accessible s p then Inr ((), s\<lparr>ram := (ram s)(p := b)\<rparr>) else Inl Bad_Access)"

text \<open>\<open>kernel/memory.c\<close>: the loops, with the number of bytes that are left.\<close>

fun set_bytes :: "nat \<Rightarrow> u64 \<Rightarrow> u8 \<Rightarrow> (('h, 'z) kmem_scheme, unit) prog" where
  "set_bytes 0 address value = ret ()"
| "set_bytes (Suc n) address value = thn (write_byte address value) (set_bytes n (address + 1) value)"

definition memory_set :: "u64 \<Rightarrow> u8 \<Rightarrow> u64 \<Rightarrow> (('h, 'z) kmem_scheme, unit) prog" where
  "memory_set address value count = set_bytes (unat count) address value"

fun copy_bytes :: "nat \<Rightarrow> u64 \<Rightarrow> u64 \<Rightarrow> (('h, 'z) kmem_scheme, unit) prog" where
  "copy_bytes 0 destination source = ret ()"
| "copy_bytes (Suc n) destination source =
     bnd (read_byte source) (\<lambda>b.
     thn (write_byte destination b) (copy_bytes n (destination + 1) (source + 1)))"

definition memory_copy :: "u64 \<Rightarrow> u64 \<Rightarrow> u64 \<Rightarrow> (('h, 'z) kmem_scheme, unit) prog" where
  "memory_copy destination source count = copy_bytes (unat count) destination source"

fun compare_bytes :: "nat \<Rightarrow> u64 \<Rightarrow> u64 \<Rightarrow> (('h, 'z) kmem_scheme, int) prog" where
  "compare_bytes 0 a b = ret 0"
| "compare_bytes (Suc n) a b =
     bnd (read_byte a) (\<lambda>x. bnd (read_byte b) (\<lambda>y.
     if x < y then ret (-1) else if x > y then ret 1 else compare_bytes n (a + 1) (b + 1)))"

definition memory_compare :: "u64 \<Rightarrow> u64 \<Rightarrow> u64 \<Rightarrow> (('h, 'z) kmem_scheme, int) prog" where
  "memory_compare a b count = compare_bytes (unat count) a b"

text \<open>A \<open>uint64_t\<close> in memory, little endian.\<close>

fun le_bytes :: "nat \<Rightarrow> u64 \<Rightarrow> u8 list" where
  "le_bytes 0 w = []"
| "le_bytes (Suc n) w = ucast w # le_bytes n (drop_bit 8 w)"

fun of_le_bytes :: "u8 list \<Rightarrow> u64" where
  "of_le_bytes [] = 0"
| "of_le_bytes (b # bs) = ucast b OR push_bit 8 (of_le_bytes bs)"

fun read_bytes :: "nat \<Rightarrow> u64 \<Rightarrow> (('h, 'z) kmem_scheme, u8 list) prog" where
  "read_bytes 0 p = ret []"
| "read_bytes (Suc n) p = bnd (read_byte p) (\<lambda>b. bnd (read_bytes n (p + 1)) (\<lambda>bs. ret (b # bs)))"

fun write_bytes :: "u64 \<Rightarrow> u8 list \<Rightarrow> (('h, 'z) kmem_scheme, unit) prog" where
  "write_bytes p [] = ret ()"
| "write_bytes p (b # bs) = thn (write_byte p b) (write_bytes (p + 1) bs)"

definition read_u64 :: "u64 \<Rightarrow> (('h, 'z) kmem_scheme, u64) prog" where
  "read_u64 p = bnd (read_bytes 8 p) (\<lambda>bs. ret (of_le_bytes bs))"

section \<open>Allocation\<close>

text \<open>
  A buffer: its bytes become accessible, with whatever content the memory had. An object: \<open>put\<close>
  is the update of the typed heap it lives in.
\<close>

definition new_buffer :: "'h malloc_fn \<Rightarrow> u64 \<Rightarrow> (('h, 'z) kmem_scheme, u64) prog" where
  "new_buffer malloc n =
     bnd (within kalloc kalloc_update (malloc n)) (\<lambda>p.
     if p = NULL then ret NULL
     else thn (upd (\<lambda>s. s\<lparr>accessible := (\<lambda>a. accessible s a \<or> a - p < n), raw := (raw s)(p \<mapsto> n)\<rparr>)) (ret p))"

definition free_buffer :: "'h free_fn \<Rightarrow> u64 \<Rightarrow> (('h, 'z) kmem_scheme, unit) prog" where
  "free_buffer mfree p =
     thn (upd (\<lambda>s. case raw s p of None \<Rightarrow> s
             | Some n \<Rightarrow> s\<lparr>accessible := (\<lambda>a. accessible s a \<and> \<not> a - p < n), raw := (raw s)(p := None)\<rparr>))
         (within kalloc kalloc_update (mfree p))"

definition new_object ::
  "'h malloc_fn \<Rightarrow> u64 \<Rightarrow> (((u64 \<rightharpoonup> 'a) \<Rightarrow> (u64 \<rightharpoonup> 'a)) \<Rightarrow> ('h, 'z) kmem_scheme \<Rightarrow> ('h, 'z) kmem_scheme)
     \<Rightarrow> 'a \<Rightarrow> (('h, 'z) kmem_scheme, u64) prog" where
  "new_object malloc n put x =
     bnd (within kalloc kalloc_update (malloc n)) (\<lambda>p.
     if p = NULL then ret NULL else thn (upd (put (\<lambda>m. m(p \<mapsto> x)))) (ret p))"

definition free_object ::
  "'h free_fn \<Rightarrow> (((u64 \<rightharpoonup> 'a) \<Rightarrow> (u64 \<rightharpoonup> 'a)) \<Rightarrow> ('h, 'z) kmem_scheme \<Rightarrow> ('h, 'z) kmem_scheme)
     \<Rightarrow> u64 \<Rightarrow> (('h, 'z) kmem_scheme, unit) prog" where
  "free_object mfree put p =
     thn (upd (put (\<lambda>m. m(p := None)))) (within kalloc kalloc_update (mfree p))"

section \<open>Regions\<close>

definition bytes_at :: "(u64 \<Rightarrow> u8) \<Rightarrow> u64 \<Rightarrow> nat \<Rightarrow> u8 list" where
  "bytes_at m p n = map (\<lambda>i. m (p + of_nat i)) [0..<n]"

definition region :: "u64 \<Rightarrow> nat \<Rightarrow> u64 set" where
  "region p n = (\<lambda>i. p + of_nat i) ` {..<n}"

definition can_access :: "('h, 'z) kmem_scheme \<Rightarrow> u64 \<Rightarrow> nat \<Rightarrow> bool" where
  "can_access s p n \<longleftrightarrow> (\<forall>a \<in> region p n. accessible s a)"

lemma region_0 [simp]: "region p 0 = {}"
  by (simp add: region_def)

lemma region_Suc: "region p (Suc n) = insert p (region (p + 1) n)"
proof -
  have "region p (Suc n) = insert (p + of_nat 0) ((\<lambda>i. p + of_nat (Suc i)) ` {..<n})"
    unfolding region_def lessThan_Suc_eq_insert_0 image_insert image_image by simp
  then show ?thesis by (simp add: region_def algebra_simps)
qed

lemma region_iff: "n \<le> 2 ^ 64 \<Longrightarrow> a \<in> region p n \<longleftrightarrow> unat (a - p) < n"
proof
  assume n: "n \<le> 2 ^ 64" and "a \<in> region p n"
  then obtain i where i: "i < n" "a = p + of_nat i" by (auto simp: region_def)
  then have "unat (a - p) = i" using n by (simp add: unat_of_nat_64)
  then show "unat (a - p) < n" using i by simp
next
  assume "unat (a - p) < n"
  moreover have "a = p + of_nat (unat (a - p))" by simp
  ultimately show "a \<in> region p n" unfolding region_def by blast
qed

lemma bytes_at_Suc: "bytes_at m p (Suc n) = m p # bytes_at m (p + 1) n"
proof -
  have "[0..<Suc n] = 0 # map Suc [0..<n]" by (simp add: upt_conv_Cons map_Suc_upt del: upt_Suc)
  then show ?thesis by (simp add: bytes_at_def comp_def algebra_simps del: upt_Suc)
qed

lemma bytes_at_0 [simp]: "bytes_at m p 0 = []"
  by (simp add: bytes_at_def)

lemma bytes_at_length [simp]: "length (bytes_at m p n) = n"
  by (simp add: bytes_at_def)

lemma bytes_at_cong: "(\<And>a. a \<in> region p n \<Longrightarrow> m' a = m a) \<Longrightarrow> bytes_at m' p n = bytes_at m p n"
  by (auto simp: bytes_at_def region_def)

lemma can_access_Suc: "can_access s p (Suc n) \<longleftrightarrow> accessible s p \<and> can_access s (p + 1) n"
  by (simp add: can_access_def region_Suc)

lemma can_access_ram [simp]: "can_access (s\<lparr>ram := m\<rparr>) p n = can_access s p n"
  by (simp add: can_access_def)

lemma region_fresh: "Suc n \<le> 2 ^ 64 \<Longrightarrow> p \<notin> region (p + 1) n"
proof -
  assume n: "Suc n \<le> 2 ^ 64"
  have "p - (p + 1) = - 1" by simp
  then have "unat (p - (p + 1)) = 2 ^ 64 - 1" by (simp add: unsigned_minus_1_eq_mask mask_eq_exp_minus_1)
  then show ?thesis using n by (subst region_iff) simp_all
qed

section \<open>What the byte operations do\<close>

lemma copy_bytes_run:
  assumes "n \<le> 2 ^ 64" "can_access s d n" "can_access s p n" "region d n \<inter> region p n = {}"
  shows "\<exists>m. copy_bytes n d p s = Inr ((), s\<lparr>ram := m\<rparr>) \<and> bytes_at m d n = bytes_at (ram s) p n \<and>
    (\<forall>a. a \<notin> region d n \<longrightarrow> m a = ram s a)"
  using assms
proof (induction n arbitrary: d p s)
  case 0
  show ?case by (rule exI [of _ "ram s"]) simp
next
  case (Suc n)
  let ?s = "s\<lparr>ram := (ram s)(d := ram s p)\<rparr>"
  have acc: "accessible s d" "accessible s p" "can_access ?s (d + 1) n" "can_access ?s (p + 1) n"
    using Suc.prems(2,3) by (simp_all add: can_access_Suc)
  have dis: "region (d + 1) n \<inter> region (p + 1) n = {}" "d \<notin> region (p + 1) n"
    using Suc.prems(4) by (auto simp: region_Suc)
  have fr: "d \<notin> region (d + 1) n" using Suc.prems(1) by (rule region_fresh)
  obtain m where m: "copy_bytes n (d + 1) (p + 1) ?s = Inr ((), ?s\<lparr>ram := m\<rparr>)"
    "bytes_at m (d + 1) n = bytes_at (ram ?s) (p + 1) n" "\<forall>a. a \<notin> region (d + 1) n \<longrightarrow> m a = ram ?s a"
    using Suc.IH [OF _ acc(3,4) dis(1)] Suc.prems(1) Suc_leD by blast
  have "bytes_at (ram ?s) (p + 1) n = bytes_at (ram s) (p + 1) n" by (rule bytes_at_cong) (use dis in auto)
  then have "bytes_at m d (Suc n) = bytes_at (ram s) p (Suc n)" using m(2,3) fr by (simp add: bytes_at_Suc)
  moreover have "copy_bytes (Suc n) d p s = Inr ((), s\<lparr>ram := m\<rparr>)"
    using m(1) acc by (simp add: read_byte_def write_byte_def)
  moreover have "\<forall>a. a \<notin> region d (Suc n) \<longrightarrow> m a = ram s a" using m(3) by (simp add: region_Suc)
  ultimately show ?case by blast
qed

lemma set_bytes_run:
  assumes "n \<le> 2 ^ 64" "can_access s d n"
  shows "\<exists>m. set_bytes n d v s = Inr ((), s\<lparr>ram := m\<rparr>) \<and> bytes_at m d n = replicate n v \<and>
    (\<forall>a. a \<notin> region d n \<longrightarrow> m a = ram s a)"
  using assms
proof (induction n arbitrary: d s)
  case 0
  show ?case by (rule exI [of _ "ram s"]) simp
next
  case (Suc n)
  let ?s = "s\<lparr>ram := (ram s)(d := v)\<rparr>"
  have acc: "accessible s d" "can_access ?s (d + 1) n" using Suc.prems(2) by (simp_all add: can_access_Suc)
  have fr: "d \<notin> region (d + 1) n" using Suc.prems(1) by (rule region_fresh)
  obtain m where m: "set_bytes n (d + 1) v ?s = Inr ((), ?s\<lparr>ram := m\<rparr>)"
    "bytes_at m (d + 1) n = replicate n v" "\<forall>a. a \<notin> region (d + 1) n \<longrightarrow> m a = ram ?s a"
    using Suc.IH [OF _ acc(2)] Suc.prems(1) Suc_leD by blast
  have "bytes_at m d (Suc n) = replicate (Suc n) v" using m(2,3) fr by (simp add: bytes_at_Suc)
  moreover have "set_bytes (Suc n) d v s = Inr ((), s\<lparr>ram := m\<rparr>)" using m(1) acc by (simp add: write_byte_def)
  moreover have "\<forall>a. a \<notin> region d (Suc n) \<longrightarrow> m a = ram s a" using m(3) by (simp add: region_Suc)
  ultimately show ?case by blast
qed

lemma compare_bytes_run:
  assumes "can_access s a n" "can_access s b n"
  shows "\<exists>r. compare_bytes n a b s = Inr (r, s) \<and> (r = 0 \<longleftrightarrow> bytes_at (ram s) a n = bytes_at (ram s) b n)"
  using assms
proof (induction n arbitrary: a b)
  case (Suc n)
  have acc: "accessible s a" "accessible s b" using Suc.prems by (simp_all add: can_access_Suc)
  obtain r where r: "compare_bytes n (a + 1) (b + 1) s = Inr (r, s)"
    "r = 0 \<longleftrightarrow> bytes_at (ram s) (a + 1) n = bytes_at (ram s) (b + 1) n"
    using Suc.IH [of "a + 1" "b + 1"] Suc.prems by (auto simp: can_access_Suc)
  then show ?case using acc by (auto simp: read_byte_def bytes_at_Suc)
qed simp

lemma read_bytes_run: "can_access s p n \<Longrightarrow> read_bytes n p s = Inr (bytes_at (ram s) p n, s)"
  by (induction n arbitrary: p) (simp_all add: can_access_Suc read_byte_def bytes_at_Suc)

lemma write_bytes_run:
  assumes "length bs \<le> 2 ^ 64" "can_access s p (length bs)"
  shows "\<exists>m. write_bytes p bs s = Inr ((), s\<lparr>ram := m\<rparr>) \<and> bytes_at m p (length bs) = bs \<and>
    (\<forall>a. a \<notin> region p (length bs) \<longrightarrow> m a = ram s a)"
  using assms
proof (induction bs arbitrary: p s)
  case Nil
  show ?case by (rule exI [of _ "ram s"]) simp
next
  case (Cons b bs)
  let ?s = "s\<lparr>ram := (ram s)(p := b)\<rparr>"
  have acc: "accessible s p" "can_access ?s (p + 1) (length bs)" using Cons.prems(2) by (simp_all add: can_access_Suc)
  have fr: "p \<notin> region (p + 1) (length bs)" by (rule region_fresh) (use Cons.prems(1) in simp)
  obtain m where m: "write_bytes (p + 1) bs ?s = Inr ((), ?s\<lparr>ram := m\<rparr>)"
    "bytes_at m (p + 1) (length bs) = bs" "\<forall>a. a \<notin> region (p + 1) (length bs) \<longrightarrow> m a = ram ?s a"
    using Cons.IH [OF _ acc(2)] Cons.prems(1) by auto
  have "bytes_at m p (length (b # bs)) = b # bs" using m(2,3) fr by (simp add: bytes_at_Suc)
  moreover have "write_bytes p (b # bs) s = Inr ((), s\<lparr>ram := m\<rparr>)" using m(1) acc by (simp add: write_byte_def)
  moreover have "\<forall>a. a \<notin> region p (length (b # bs)) \<longrightarrow> m a = ram s a" using m(3) by (simp add: region_Suc)
  ultimately show ?case by blast
qed

lemma le_bytes_length [simp]: "length (le_bytes n w) = n"
  by (induction n arbitrary: w) auto

lemma of_le_bytes_le_bytes: "of_le_bytes (le_bytes n w) = take_bit (8 * n) w"
proof (induction n arbitrary: w)
  case (Suc n)
  show ?case
    by (rule bit_word_eqI)
       (auto simp: Suc bit_or_iff bit_push_bit_iff bit_take_bit_iff bit_drop_bit_eq bit_ucast_iff)
qed simp

lemma le_bytes_roundtrip: "of_le_bytes (le_bytes 8 w) = w"
  using of_le_bytes_le_bytes [of 8 w] by (simp add: take_bit_word_eq_self)

section \<open>Allocating and freeing\<close>

lemma region_bounds:
  assumes "unat p + n \<le> 2 ^ 64" shows "a \<in> region p n \<longleftrightarrow> unat p \<le> unat a \<and> unat a < unat p + n"
proof
  assume "a \<in> region p n"
  then obtain i where i: "i < n" "a = p + of_nat i" by (auto simp: region_def)
  then have "unat (of_nat i :: u64) = i" using assms by (intro unat_of_nat_64) simp
  then have "unat a = unat p + i" using i assms by (simp add: unat_add_no_wrap)
  then show "unat p \<le> unat a \<and> unat a < unat p + n" using i by simp
next
  assume a: "unat p \<le> unat a \<and> unat a < unat p + n"
  have "a = p + of_nat (unat a - unat p)" using a by (simp add: of_nat_diff)
  moreover have "unat a - unat p < n" using a by linarith
  ultimately show "a \<in> region p n" unfolding region_def by blast
qed

lemma region_disjoint:
  assumes "unat p + n \<le> 2 ^ 64" "unat q + m \<le> 2 ^ 64" "unat p + n \<le> unat q \<or> unat q + m \<le> unat p"
  shows "region p n \<inter> region q m = {}"
  using region_bounds [OF assms(1)] region_bounds [OF assms(2)] assms(3) by fastforce

lemma region_less: "a - p < n \<longleftrightarrow> a \<in> region p (unat n)"
proof -
  have "unat n \<le> 2 ^ 64" using unat_lt_64 [of n] by (simp add: less_imp_le)
  from region_iff [OF this] show ?thesis by (simp add: word_less_nat_alt)
qed

text \<open>The allocator has no \<open>n\<close> bytes to give.\<close>

definition refuses :: "'h malloc_fn \<Rightarrow> u64 \<Rightarrow> 'h \<Rightarrow> bool" where
  "refuses malloc n h \<longleftrightarrow> (\<exists>h'. malloc n h = Inr (NULL, h'))"

text \<open>Every buffer lies in an allocated block and can be accessed.\<close>

definition buffers_ok :: "('h, 'z) kmem_scheme \<Rightarrow> (u64 \<rightharpoonup> nat) \<Rightarrow> bool" where
  "buffers_ok s L \<longleftrightarrow> (\<forall>p n. raw s p = Some n \<longrightarrow>
     (\<exists>k. L p = Some k \<and> unat n \<le> k) \<and> can_access s p (unat n))"

lemma buffers_okD:
  assumes "buffers_ok s L" "raw s p = Some n"
  shows "\<exists>k. L p = Some k \<and> unat n \<le> k" "can_access s p (unat n)"
  using assms unfolding buffers_ok_def by blast+

context kernel_allocator
begin

lemma buffers_disjoint:
  assumes i: "inv h room L" and p: "L p = Some k" "n \<le> k" and q: "L q = Some l" "m \<le> l" and ne: "p \<noteq> q"
  shows "region p n \<inter> region q m = {}"
proof (rule region_disjoint)
  have "unat p + k < 2 ^ 64" "unat q + l < 2 ^ 64" "unat p + k \<le> unat q \<or> unat q + l \<le> unat p"
    using regions [OF i p(1)] regions [OF i q(1)] q(1) ne by blast+
  then show "unat p + n \<le> 2 ^ 64" "unat q + m \<le> 2 ^ 64" "unat p + n \<le> unat q \<or> unat q + m \<le> unat p"
    using p(2) q(2) by linarith+
qed

lemma new_object_run:
  assumes "inv (kalloc s) (room + unat n + 4152) L"
  obtains (null) h where "new_object malloc n put x s = Inr (NULL, s\<lparr>kalloc := h\<rparr>)" "inv h room L"
      "refuses malloc n (kalloc s)"
  | (new) h p k where "new_object malloc n put x s = Inr (p, put (\<lambda>m. m(p \<mapsto> x)) (s\<lparr>kalloc := h\<rparr>))" "p \<noteq> NULL"
      "L p = None" "unat n \<le> k" "inv h room (L(p \<mapsto> k))"
proof -
  obtain p h where m: "malloc n (kalloc s) = Inr (p, h)" and
    cs: "p = NULL \<and> inv h room L \<or> p \<noteq> NULL \<and> (\<exists>k \<ge> unat n. L p = None \<and> inv h room (L(p \<mapsto> k)))"
    using malloc_law [OF assms] by blast
  from cs show ?thesis
  proof
    assume "p = NULL \<and> inv h room L"
    then show ?thesis using m null [of h] by (simp add: new_object_def refuses_def)
  next
    assume *: "p \<noteq> NULL \<and> (\<exists>k \<ge> unat n. L p = None \<and> inv h room (L(p \<mapsto> k)))"
    then obtain k where "unat n \<le> k" "L p = None" "inv h room (L(p \<mapsto> k))" by blast
    then show ?thesis using m * new [of p h k] by (simp add: new_object_def)
  qed
qed

lemma free_object_run:
  assumes "inv (kalloc (put (\<lambda>m. m(p := None)) s)) room L" "L p = Some k"
  obtains h where "free_object mfree put p s = Inr ((), (put (\<lambda>m. m(p := None)) s)\<lparr>kalloc := h\<rparr>)" "inv h room (L(p := None))"
proof -
  obtain h where "mfree p (kalloc (put (\<lambda>m. m(p := None)) s)) = Inr ((), h)" "inv h room (L(p := None))"
    using free_law [OF assms] by blast
  then show ?thesis using that [of h] by (simp add: free_object_def)
qed

lemma new_buffer_run:
  assumes i: "inv (kalloc s) (room + unat n + 4152) L" and b: "buffers_ok s L"
  obtains (null) h where "new_buffer malloc n s = Inr (NULL, s\<lparr>kalloc := h\<rparr>)" "inv h room L" "buffers_ok (s\<lparr>kalloc := h\<rparr>) L"
      "refuses malloc n (kalloc s)"
  | (new) h p k acc where "new_buffer malloc n s = Inr (p, s\<lparr>kalloc := h, accessible := acc, raw := (raw s)(p \<mapsto> n)\<rparr>)" "p \<noteq> NULL"
      "L p = None" "unat n \<le> k" "inv h room (L(p \<mapsto> k))"
      "buffers_ok (s\<lparr>kalloc := h, accessible := acc, raw := (raw s)(p \<mapsto> n)\<rparr>) (L(p \<mapsto> k))"
      "\<And>a. accessible s a \<Longrightarrow> acc a" "raw s p = None"
proof -
  obtain p h where m: "malloc n (kalloc s) = Inr (p, h)" and
    cs: "p = NULL \<and> inv h room L \<or> p \<noteq> NULL \<and> (\<exists>k \<ge> unat n. L p = None \<and> inv h room (L(p \<mapsto> k)))"
    using malloc_law [OF i] by blast
  from cs show ?thesis
  proof
    assume "p = NULL \<and> inv h room L"
    then show ?thesis using m null [of h] b by (simp add: new_buffer_def buffers_ok_def can_access_def refuses_def)
  next
    assume *: "p \<noteq> NULL \<and> (\<exists>k \<ge> unat n. L p = None \<and> inv h room (L(p \<mapsto> k)))"
    then obtain k where k: "unat n \<le> k" "L p = None" "inv h room (L(p \<mapsto> k))" by blast
    let ?acc = "\<lambda>a. accessible s a \<or> a - p < n"
    have run: "new_buffer malloc n s = Inr (p, s\<lparr>kalloc := h, accessible := ?acc, raw := (raw s)(p \<mapsto> n)\<rparr>)"
      using m * by (simp add: new_buffer_def)
    have ok: "buffers_ok (s\<lparr>kalloc := h, accessible := ?acc, raw := (raw s)(p \<mapsto> n)\<rparr>) (L(p \<mapsto> k))"
      unfolding buffers_ok_def
    proof (intro allI impI)
      fix q m assume q: "raw (s\<lparr>kalloc := h, accessible := ?acc, raw := (raw s)(p \<mapsto> n)\<rparr>) q = Some m"
      show "(\<exists>l. (L(p \<mapsto> k)) q = Some l \<and> unat m \<le> l) \<and>
        can_access (s\<lparr>kalloc := h, accessible := ?acc, raw := (raw s)(p \<mapsto> n)\<rparr>) q (unat m)"
      proof (cases "q = p")
        case True
        then show ?thesis using q k(1) by (simp add: can_access_def region_less)
      next
        case False
        then have "raw s q = Some m" using q by simp
        from buffers_okD [OF b this] False show ?thesis by (simp add: can_access_def)
      qed
    qed
    have fresh: "raw s p = None"
    proof (cases "raw s p")
      case (Some m)
      then show ?thesis using buffers_okD(1) [OF b Some] k(2) by simp
    qed
    show ?thesis by (rule new [OF run conjunct1 [OF *] k(2,1,3) ok _ fresh]) simp
  qed
qed

lemma free_buffer_run:
  assumes i: "inv (kalloc s) room L" and b: "buffers_ok s L" and p: "raw s p = Some n"
  obtains h acc where "free_buffer mfree p s = Inr ((), s\<lparr>accessible := acc, raw := (raw s)(p := None), kalloc := h\<rparr>)"
    "inv h room (L(p := None))" "buffers_ok (s\<lparr>accessible := acc, raw := (raw s)(p := None), kalloc := h\<rparr>) (L(p := None))"
    "\<And>a. a \<notin> region p (unat n) \<Longrightarrow> acc a = accessible s a"
proof -
  obtain k where k: "L p = Some k" "unat n \<le> k" using buffers_okD(1) [OF b p] by blast
  obtain h where h: "mfree p (kalloc s) = Inr ((), h)" "inv h room (L(p := None))" using free_law [OF i k(1)] by blast
  let ?acc = "\<lambda>a. accessible s a \<and> \<not> a - p < n"
  let ?s = "s\<lparr>accessible := ?acc, raw := (raw s)(p := None), kalloc := h\<rparr>"
  have run: "free_buffer mfree p s = Inr ((), ?s)" using h(1) p by (simp add: free_buffer_def)
  have "buffers_ok ?s (L(p := None))"
    unfolding buffers_ok_def
  proof (intro allI impI)
    fix q m assume q: "raw ?s q = Some m"
    then have ne: "q \<noteq> p" and r: "raw s q = Some m" by (auto split: if_splits)
    obtain l where l: "L q = Some l" "unat m \<le> l" using buffers_okD(1) [OF b r] by blast
    have "region q (unat m) \<inter> region p (unat n) = {}" by (rule buffers_disjoint [OF i l k ne])
    then have "can_access ?s q (unat m)" using buffers_okD(2) [OF b r] by (auto simp: can_access_def region_less)
    then show "(\<exists>k. (L(p := None)) q = Some k \<and> unat m \<le> k) \<and> can_access ?s q (unat m)" using l ne by simp
  qed
  from that [OF run h(2) this] show ?thesis by (auto simp: region_less)
qed

end

end
