(* ===== verification/Vector.thy ===== *)
theory Vector
  imports Objects
begin

text \<open>
  \<open>kernel/utils/vector.c\<close> (and its copy in \<open>libraries/libcommon\<close>): growable arrays of
  elements of a fixed size in a buffer of the heap.

  A \<open>vector_t\<close> is always a field of another struct or a local variable of the caller, so the
  functions take it as a value and return it updated, beside the \<open>int\<close> of the code; the checks of
  the pointer to it against \<open>NULL\<close> have no counterpart. The \<open>void *data\<close> of \<open>vector_push_back\<close> and
  \<open>vector_set\<close> is the list of the bytes it points to, \<open>None\<close> being \<open>NULL\<close>.
\<close>

section \<open>The operations\<close>

record vector =
  vector_data :: u64
  vector_size :: u64
  vector_capacity :: u64
  vector_element_size :: u64

definition vector_init ::
  "'h malloc_fn \<Rightarrow> vector \<Rightarrow> u64 \<Rightarrow> u64 \<Rightarrow> (('h, 'z) kmem_scheme, int \<times> vector) prog" where
  "vector_init malloc v capacity element_size =
     (if capacity = 0 then ret (-1, v)
      else bnd (new_buffer malloc (capacity * element_size)) (\<lambda>data.
        if data = NULL then ret (-1, v\<lparr>vector_data := NULL\<rparr>)
        else ret (0, \<lparr>vector_data = data, vector_size = 0, vector_capacity = capacity,
                      vector_element_size = element_size\<rparr>)))"

definition vector_destroy :: "'h free_fn \<Rightarrow> vector \<Rightarrow> (('h, 'z) kmem_scheme, int \<times> vector) prog" where
  "vector_destroy mfree v =
     thn (free_buffer mfree (vector_data v))
         (ret (0, \<lparr>vector_data = NULL, vector_size = 0, vector_capacity = 0, vector_element_size = 0\<rparr>))"

text \<open>The second half of \<open>expand_capacity\<close> and of \<open>shrink_capacity\<close>: the move to a new buffer.\<close>

definition vector_move ::
  "'h malloc_fn \<Rightarrow> 'h free_fn \<Rightarrow> vector \<Rightarrow> (('h, 'z) kmem_scheme, int \<times> vector) prog" where
  "vector_move malloc mfree v =
     bnd (new_buffer malloc (vector_capacity v * vector_element_size v)) (\<lambda>data.
     if data = NULL then ret (-1, v)
     else thn (memory_copy data (vector_data v) (vector_size v * vector_element_size v))
         (thn (free_buffer mfree (vector_data v))
         (ret (0, v\<lparr>vector_data := data\<rparr>))))"

definition expand_capacity ::
  "'h malloc_fn \<Rightarrow> 'h free_fn \<Rightarrow> vector \<Rightarrow> (('h, 'z) kmem_scheme, int \<times> vector) prog" where
  "expand_capacity malloc mfree v = vector_move malloc mfree (v\<lparr>vector_capacity := vector_capacity v * 2\<rparr>)"

definition shrink_capacity ::
  "'h malloc_fn \<Rightarrow> 'h free_fn \<Rightarrow> vector \<Rightarrow> (('h, 'z) kmem_scheme, int \<times> vector) prog" where
  "shrink_capacity malloc mfree v =
     (if vector_size v \<ge> vector_capacity v div 2 then ret (0, v)
      else vector_move malloc mfree (v\<lparr>vector_capacity := vector_capacity v div 2\<rparr>))"

definition vector_push_back ::
  "'h malloc_fn \<Rightarrow> 'h free_fn \<Rightarrow> vector \<Rightarrow> u8 list option \<Rightarrow> (('h, 'z) kmem_scheme, int \<times> vector) prog" where
  "vector_push_back malloc mfree v data = (case data of None \<Rightarrow> ret (-1, v) | Some bytes \<Rightarrow>
     bnd (if vector_size v \<ge> vector_capacity v then expand_capacity malloc mfree v else ret (0, v)) (\<lambda>(r, v).
     if r < 0 then ret (-1, v)
     else thn (write_bytes (vector_data v + vector_size v * vector_element_size v)
                 (take (unat (vector_element_size v)) bytes))
         (ret (0, v\<lparr>vector_size := vector_size v + 1\<rparr>))))"

text \<open>The element that was popped is the third component of the result.\<close>

definition vector_pop_back ::
  "'h malloc_fn \<Rightarrow> 'h free_fn \<Rightarrow> vector \<Rightarrow> (('h, 'z) kmem_scheme, int \<times> vector \<times> u8 list) prog" where
  "vector_pop_back malloc mfree v =
     (if vector_size v = 0 then ret (-1, v, [])
      else bnd (read_bytes (unat (vector_element_size v))
                 (vector_data v + (vector_size v - 1) * vector_element_size v)) (\<lambda>data.
        let v = v\<lparr>vector_size := vector_size v - 1\<rparr> in
        if vector_size v < vector_capacity v div 2
        then bnd (shrink_capacity malloc mfree v) (\<lambda>(r, v).
          if r < 0 then ret (-1, v, data) else ret (0, v, data))
        else ret (0, v, data)))"

text \<open>\<open>vector_get\<close> yields the address of the element.\<close>

definition vector_get :: "vector \<Rightarrow> u64 \<Rightarrow> int \<times> u64 option" where
  "vector_get v index =
     (if index \<ge> vector_size v then (-1, None)
      else (0, Some (vector_data v + index * vector_element_size v)))"

definition vector_set :: "vector \<Rightarrow> u64 \<Rightarrow> u8 list option \<Rightarrow> (('h, 'z) kmem_scheme, int) prog" where
  "vector_set v index data = (case data of None \<Rightarrow> ret (-1) | Some bytes \<Rightarrow>
     if index \<ge> vector_size v then ret (-1)
     else thn (write_bytes (vector_data v + index * vector_element_size v)
                 (take (unat (vector_element_size v)) bytes))
         (ret 0))"

section \<open>Contents\<close>

text \<open>A list of bytes cut into \<open>n\<close> elements of \<open>k\<close> bytes.\<close>

definition chunks :: "nat \<Rightarrow> nat \<Rightarrow> u8 list \<Rightarrow> u8 list list" where
  "chunks n k bs = map (\<lambda>i. take k (drop (i * k) bs)) [0..<n]"

lemma chunks_length [simp]: "length (chunks n k bs) = n"
  by (simp add: chunks_def)

lemma chunks_nth [simp]: "i < n \<Longrightarrow> chunks n k bs ! i = take k (drop (i * k) bs)"
  by (simp add: chunks_def)

lemma chunk_fits: "i < (n :: nat) \<Longrightarrow> i * k + k \<le> n * k"
  using mult_le_mono1 [of "Suc i" n k] by simp

lemma chunks_snoc:
  assumes "length bs = n * k" "length x = k" shows "chunks (Suc n) k (bs @ x) = chunks n k bs @ [x]"
proof (rule nth_equalityI)
  fix i assume "i < length (chunks (Suc n) k (bs @ x))"
  then have "i < n \<or> i = n" by auto
  then show "chunks (Suc n) k (bs @ x) ! i = (chunks n k bs @ [x]) ! i"
    using assms chunk_fits [of i n k] by (auto simp: nth_append)
qed simp

lemma chunks_take: "n \<le> m \<Longrightarrow> chunks n k (take (m * k) bs) = take n (chunks m k bs)"
proof (rule nth_equalityI)
  fix i assume n: "n \<le> m" and "i < length (chunks n k (take (m * k) bs))"
  then have i: "i < n" by simp
  then have "i * k + k \<le> m * k" using chunk_fits [of i m k] n by simp
  then show "chunks n k (take (m * k) bs) ! i = take n (chunks m k bs) ! i"
    using i n by (simp add: drop_take min_absorb1)
qed simp

lemma chunks_update:
  assumes i: "i < n" and b: "length bs = n * k" and x: "length x = k"
  shows "chunks n k (take (i * k) bs @ x @ drop (i * k + k) bs) = (chunks n k bs)[i := x]"
proof (rule nth_equalityI)
  fix j assume "j < length (chunks n k (take (i * k) bs @ x @ drop (i * k + k) bs))"
  then have j: "j < n" by simp
  note f = chunk_fits [OF i, of k] chunk_fits [OF j, of k]
  consider "j < i" | "j = i" | "i < j" by linarith
  then show "chunks n k (take (i * k) bs @ x @ drop (i * k + k) bs) ! j = (chunks n k bs)[i := x] ! j"
  proof cases
    case 1
    then show ?thesis using j f b chunk_fits [of j i k] by (simp add: drop_take min_absorb1)
  next
    case 2
    then show ?thesis using j f b x by simp
  next
    case 3
    then have g: "i * k + k \<le> j * k" using chunk_fits by blast
    have m: "min (n * k) (i * k) = i * k" using f(1) by simp
    from g have "drop (j * k) (take (i * k) bs @ x @ drop (i * k + k) bs) = drop (j * k) bs"
      using 3 f b x m by simp
    then show ?thesis using 3 j by simp
  qed
qed simp

text \<open>The same for memory: a part of a region, and what a write to a part does.\<close>

lemma bytes_at_add: "bytes_at m p (n + k) = bytes_at m p n @ bytes_at m (p + of_nat n) k"
  by (induction n arbitrary: p) (simp_all add: bytes_at_Suc algebra_simps)

lemma bytes_at_take: "n \<le> k \<Longrightarrow> take n (bytes_at m p k) = bytes_at m p n"
  using bytes_at_add [of m p n "k - n"] by simp

lemma bytes_at_part: "i + k \<le> n \<Longrightarrow> take k (drop i (bytes_at m p n)) = bytes_at m (p + of_nat i) k"
  using bytes_at_add [of m p i "n - i"] by (simp add: bytes_at_take)

lemma region_part: "i + k \<le> n \<Longrightarrow> region (p + of_nat i) k \<subseteq> region p n"
proof
  fix a assume n: "i + k \<le> n" and "a \<in> region (p + of_nat i) k"
  then obtain j where "j < k" "a = p + of_nat (i + j)" by (auto simp: region_def algebra_simps)
  then show "a \<in> region p n" using n unfolding region_def by (intro image_eqI [of _ _ "i + j"]) auto
qed

lemma region_mono: "k \<le> n \<Longrightarrow> region p k \<subseteq> region p n"
  using region_part [of 0 k n p] by simp

lemma can_access_part: "can_access s p n \<Longrightarrow> i + k \<le> n \<Longrightarrow> can_access s (p + of_nat i) k"
  using region_part [of i k n p] by (auto simp: can_access_def)

lemma can_access_less: "can_access s p n \<Longrightarrow> k \<le> n \<Longrightarrow> can_access s p k"
  using region_mono [of k n p] by (auto simp: can_access_def)

lemma bytes_at_splice:
  assumes n: "n \<le> 2 ^ 64" and i: "i + k \<le> n" and w: "bytes_at m' (p + of_nat i) k = x"
    and o: "\<And>a. a \<notin> region (p + of_nat i) k \<Longrightarrow> m' a = m a"
  shows "bytes_at m' p n = take i (bytes_at m p n) @ x @ drop (i + k) (bytes_at m p n)"
proof -
  have split: "bytes_at f p n = bytes_at f p i @ bytes_at f (p + of_nat i) k @ bytes_at f (p + of_nat (i + k)) (n - (i + k))" for f
    using bytes_at_add [of f p i "n - i"] bytes_at_add [of f "p + of_nat i" k "n - (i + k)"] i by (simp add: algebra_simps)
  have "a \<notin> region (p + of_nat i) k" if "a \<in> region p i" for a
  proof
    assume "a \<in> region (p + of_nat i) k"
    with that obtain j l where "j < i" "l < k" "p + of_nat j = p + of_nat (i + l)" by (auto simp: region_def algebra_simps)
    then show False using of_nat_64_inject [of j "i + l"] n i by simp
  qed
  then have 1: "bytes_at m' p i = bytes_at m p i" by (intro bytes_at_cong o)
  have "a \<notin> region (p + of_nat i) k" if "a \<in> region (p + of_nat (i + k)) (n - (i + k))" for a
  proof
    assume "a \<in> region (p + of_nat i) k"
    with that obtain j l where jl: "j < n - (i + k)" "l < k" "p + of_nat (i + k + j) = p + of_nat (i + l)"
      by (auto simp: region_def algebra_simps)
    then have "(of_nat (i + k + j) :: u64) = of_nat (i + l)" by (simp only: add_left_cancel)
    moreover have "i + k + j < 2 ^ 64" "i + l < 2 ^ 64" using jl(1,2) n i by linarith+
    ultimately have "i + k + j = i + l" by (simp only: of_nat_64_inject)
    then show False using jl(2) by simp
  qed
  then have 2: "bytes_at m' (p + of_nat (i + k)) (n - (i + k)) = bytes_at m (p + of_nat (i + k)) (n - (i + k))"
    by (intro bytes_at_cong o)
  show ?thesis using split [of m'] split [of m] 1 2 w by simp
qed
section \<open>What the operations do\<close>

text \<open>
  A step of a container: it changes nothing but the allocator and the memory, and keeps the
  allocated blocks and the contents of the buffers outside \<open>P\<close>.
\<close>

definition kmem_step ::
  "('h, 'z) kmem_scheme \<Rightarrow> (u64 \<rightharpoonup> nat) \<Rightarrow> u64 set \<Rightarrow> ('h, 'z) kmem_scheme \<Rightarrow> (u64 \<rightharpoonup> nat) \<Rightarrow> bool" where
  "kmem_step s L P s' L' \<longleftrightarrow>
     (\<exists>h m acc r. s' = s\<lparr>kalloc := h, ram := m, accessible := acc, raw := r\<rparr>) \<and>
     (\<forall>q k. q \<notin> P \<longrightarrow> L q = Some k \<longrightarrow> L' q = Some k) \<and>
     (\<forall>q n. q \<notin> P \<longrightarrow> raw s q = Some n \<longrightarrow> raw s' q = Some n \<and>
        bytes_at (ram s') q (unat n) = bytes_at (ram s) q (unat n))"

lemma kmem_stepI:
  assumes "s' = s\<lparr>kalloc := h, ram := m, accessible := acc, raw := r\<rparr>"
    and "\<And>q k. q \<notin> P \<Longrightarrow> L q = Some k \<Longrightarrow> L' q = Some k"
    and "\<And>q n. q \<notin> P \<Longrightarrow> raw s q = Some n \<Longrightarrow> r q = Some n \<and> bytes_at m q (unat n) = bytes_at (ram s) q (unat n)"
  shows "kmem_step s L P s' L'"
  using assms unfolding kmem_step_def by auto

lemma kmem_step_refl [simp]: "kmem_step s L P s L"
  by (rule kmem_stepI [where h = "kalloc s" and m = "ram s" and acc = "accessible s" and r = "raw s"]) auto

lemma kmem_step_trans:
  assumes "kmem_step s L P t M" "kmem_step t M Q u N" shows "kmem_step s L (P \<union> Q) u N"
proof -
  obtain h m a r h' m' a' r' where "t = s\<lparr>kalloc := h, ram := m, accessible := a, raw := r\<rparr>"
    "u = t\<lparr>kalloc := h', ram := m', accessible := a', raw := r'\<rparr>"
    using assms unfolding kmem_step_def by blast
  then have 1: "u = s\<lparr>kalloc := h', ram := m', accessible := a', raw := r'\<rparr>" and r: "r' = raw u" "m' = ram u" by simp_all
  have 2: "N q = Some k" if "q \<notin> P \<union> Q" "L q = Some k" for q k
    using that assms by (simp add: kmem_step_def)
  have 3: "raw u q = Some n \<and> bytes_at (ram u) q (unat n) = bytes_at (ram s) q (unat n)"
    if "q \<notin> P \<union> Q" "raw s q = Some n" for q n
    using that assms by (simp add: kmem_step_def)
  show ?thesis using 1 2 3 unfolding r by (rule kmem_stepI)
qed

lemma kmem_step_mono: "kmem_step s L P s' L' \<Longrightarrow> P \<subseteq> Q \<Longrightarrow> kmem_step s L Q s' L'"
  unfolding kmem_step_def by blast

lemma kmem_stepD:
  assumes "kmem_step s L P s' L'" "q \<notin> P"
  shows "L q = Some k \<Longrightarrow> L' q = Some k" "raw s q = Some n \<Longrightarrow> raw s' q = Some n"
    "raw s q = Some n \<Longrightarrow> bytes_at (ram s') q (unat n) = bytes_at (ram s) q (unat n)"
  using assms unfolding kmem_step_def by blast+

text \<open>What happens to a block that did not exist before does not matter.\<close>

lemma kmem_step_fresh:
  assumes "kmem_step s L {p} t M" "kmem_step t M {d} u N" "L d = None" "raw s d = None"
  shows "kmem_step s L {p} u N"
proof -
  have 0: "kmem_step s L ({p} \<union> {d}) u N" using assms(1,2) by (rule kmem_step_trans)
  then obtain h m a r where 1: "u = s\<lparr>kalloc := h, ram := m, accessible := a, raw := r\<rparr>" unfolding kmem_step_def by blast
  then have r: "r = raw u" "m = ram u" by simp_all
  have 2: "N q = Some k" if "q \<notin> {p}" "L q = Some k" for q k
    using that assms(3) 0 by (cases "q = d") (simp_all add: kmem_step_def)
  have 3: "raw u q = Some n \<and> bytes_at (ram u) q (unat n) = bytes_at (ram s) q (unat n)" if "q \<notin> {p}" "raw s q = Some n" for q n
    using that assms(4) 0 by (cases "q = d") (simp_all add: kmem_step_def)
  show ?thesis using 1 2 3 unfolding r by (rule kmem_stepI)
qed

definition vector_ok :: "('h, 'z) kmem_scheme \<Rightarrow> vector \<Rightarrow> bool" where
  "vector_ok s v \<longleftrightarrow> raw s (vector_data v) = Some (vector_capacity v * vector_element_size v) \<and>
     0 < unat (vector_capacity v) \<and> 0 < unat (vector_element_size v) \<and>
     unat (vector_capacity v) * unat (vector_element_size v) < 2 ^ 64 \<and> vector_size v \<le> vector_capacity v"

definition vector_bytes :: "('h, 'z) kmem_scheme \<Rightarrow> vector \<Rightarrow> u8 list" where
  "vector_bytes s v = bytes_at (ram s) (vector_data v) (unat (vector_size v) * unat (vector_element_size v))"

definition vector_elems :: "('h, 'z) kmem_scheme \<Rightarrow> vector \<Rightarrow> u8 list list" where
  "vector_elems s v = chunks (unat (vector_size v)) (unat (vector_element_size v)) (vector_bytes s v)"

lemma vector_elems_length [simp]: "length (vector_elems s v) = unat (vector_size v)"
  by (simp add: vector_elems_def)

lemma vector_bytes_length [simp]:
  "length (vector_bytes s v) = unat (vector_size v) * unat (vector_element_size v)"
  by (simp add: vector_bytes_def)

lemma vector_ok_size:
  assumes "vector_ok s v"
  shows "unat (vector_capacity v * vector_element_size v) = unat (vector_capacity v) * unat (vector_element_size v)"
    "unat (vector_size v) * unat (vector_element_size v) \<le> unat (vector_capacity v) * unat (vector_element_size v)"
    "unat (vector_size v * vector_element_size v) = unat (vector_size v) * unat (vector_element_size v)"
proof -
  show c: "unat (vector_capacity v * vector_element_size v) = unat (vector_capacity v) * unat (vector_element_size v)"
    using assms by (intro unat_mult_no_wrap) (simp add: vector_ok_def)
  show d: "unat (vector_size v) * unat (vector_element_size v) \<le> unat (vector_capacity v) * unat (vector_element_size v)"
    using assms by (intro mult_le_mono1) (simp add: vector_ok_def word_le_nat_alt)
  show "unat (vector_size v * vector_element_size v) = unat (vector_size v) * unat (vector_element_size v)"
    using le_less_trans [OF d, of "2 ^ 64"] assms by (intro unat_mult_no_wrap) (simp add: vector_ok_def)
qed

context kernel_allocator
begin

text \<open>The move to a new buffer keeps the elements, or fails and changes nothing.\<close>

lemma vector_move_run:
  assumes i: "inv (kalloc s) (room + unat (vector_capacity v * vector_element_size v) + 4152) L"
    and b: "buffers_ok s L" and old: "raw s (vector_data v) = Some n"
    and fits: "unat (vector_size v * vector_element_size v) \<le> unat n"
      "unat (vector_size v * vector_element_size v) \<le> unat (vector_capacity v * vector_element_size v)"
  obtains (no_memory) h where "vector_move malloc mfree v s = Inr ((-1, v), s\<lparr>kalloc := h\<rparr>)"
      "inv h room L" "buffers_ok (s\<lparr>kalloc := h\<rparr>) L"
      "refuses malloc (vector_capacity v * vector_element_size v) (kalloc s)"
  | (moved) d k s' where "vector_move malloc mfree v s = Inr ((0, v\<lparr>vector_data := d\<rparr>), s')"
      "d \<noteq> vector_data v" "L d = None" "raw s d = None"
      "inv (kalloc s') room (L(d \<mapsto> k, vector_data v := None))"
      "buffers_ok s' (L(d \<mapsto> k, vector_data v := None))"
      "raw s' d = Some (vector_capacity v * vector_element_size v)"
      "bytes_at (ram s') d (unat (vector_size v * vector_element_size v)) =
         bytes_at (ram s) (vector_data v) (unat (vector_size v * vector_element_size v))"
      "kmem_step s L {vector_data v} s' (L(d \<mapsto> k, vector_data v := None))"
proof (rule new_buffer_run [OF i b])
  fix h assume "new_buffer malloc (vector_capacity v * vector_element_size v) s = Inr (NULL, s\<lparr>kalloc := h\<rparr>)"
    "inv h room L" "buffers_ok (s\<lparr>kalloc := h\<rparr>) L" "refuses malloc (vector_capacity v * vector_element_size v) (kalloc s)"
  then show thesis by (intro no_memory) (simp_all add: vector_move_def)
next
  let ?n = "vector_capacity v * vector_element_size v" and ?m = "vector_size v * vector_element_size v"
  fix h p k acc
  let ?s1 = "s\<lparr>kalloc := h, accessible := acc, raw := (raw s)(p \<mapsto> ?n)\<rparr>"
  assume new: "new_buffer malloc ?n s = Inr (p, ?s1)" "p \<noteq> NULL" "L p = None" "unat ?n \<le> k"
    "inv h room (L(p \<mapsto> k))" "buffers_ok ?s1 (L(p \<mapsto> k))" "\<And>a. accessible s a \<Longrightarrow> acc a" "raw s p = None"
  have ne: "p \<noteq> vector_data v" using new(8) old by auto
  obtain l where l: "L (vector_data v) = Some l" "unat n \<le> l" using buffers_okD(1) [OF b old] by blast
  have i1: "inv h room (L(p \<mapsto> k))" by (rule new(5))
  have dis: "region p (unat ?n) \<inter> region q (unat m) = {}" if q: "raw s q = Some m" for q m
  proof -
    obtain j where j: "L q = Some j" "unat m \<le> j" using buffers_okD(1) [OF b q] by blast
    have "q \<noteq> p" using q new(8) by auto
    with j new(4) show ?thesis by (intro buffers_disjoint [OF i1, of p k _ q j]) auto
  qed
  have acc: "can_access ?s1 p (unat ?m)" "can_access ?s1 (vector_data v) (unat ?m)"
    using buffers_okD(2) [OF new(6), of p ?n] buffers_okD(2) [OF new(6), of "vector_data v" n] old ne fits
    by (auto intro: can_access_less)
  have "region p (unat ?m) \<inter> region (vector_data v) (unat ?m) = {}"
    using dis [OF old] region_mono [OF fits(1), of "vector_data v"] region_mono [OF fits(2), of p] by blast
  moreover have "unat ?m \<le> 2 ^ 64" using unat_lt_64 [of ?m] by (simp add: less_imp_le)
  ultimately obtain m where m: "copy_bytes (unat ?m) p (vector_data v) ?s1 = Inr ((), ?s1\<lparr>ram := m\<rparr>)"
    "bytes_at m p (unat ?m) = bytes_at (ram ?s1) (vector_data v) (unat ?m)"
    "\<forall>a. a \<notin> region p (unat ?m) \<longrightarrow> m a = ram ?s1 a"
    using copy_bytes_run [OF _ acc] by blast
  let ?s2 = "?s1\<lparr>ram := m\<rparr>"
  have b2: "buffers_ok ?s2 (L(p \<mapsto> k))" using new(6) by (simp add: buffers_ok_def)
  have i2: "inv (kalloc ?s2) room (L(p \<mapsto> k))" using i1 by simp
  have o2: "raw ?s2 (vector_data v) = Some n" using old ne by simp
  obtain h' acc' where f: "free_buffer mfree (vector_data v) ?s2 =
      Inr ((), ?s2\<lparr>accessible := acc', raw := (raw ?s2)(vector_data v := None), kalloc := h'\<rparr>)"
    "inv h' room ((L(p \<mapsto> k))(vector_data v := None))"
    "buffers_ok (?s2\<lparr>accessible := acc', raw := (raw ?s2)(vector_data v := None), kalloc := h'\<rparr>) ((L(p \<mapsto> k))(vector_data v := None))"
    by (rule free_buffer_run [OF i2 b2 o2])
  let ?s3 = "?s2\<lparr>accessible := acc', raw := (raw ?s2)(vector_data v := None), kalloc := h'\<rparr>"
  have run: "vector_move malloc mfree v s = Inr ((0, v\<lparr>vector_data := p\<rparr>), ?s3)"
    using new(1,2) m(1) f(1) by (simp add: vector_move_def memory_copy_def)
  have other: "bytes_at m q (unat j) = bytes_at (ram s) q (unat j)" if q: "raw s q = Some j" for q j
  proof (rule bytes_at_cong)
    fix a assume "a \<in> region q (unat j)"
    then have "a \<notin> region p (unat ?m)" using dis [OF q] region_mono [OF fits(2), of p] by blast
    then show "m a = ram s a" using m(3) by simp
  qed
  show thesis
  proof (rule moved [OF run ne new(3,8)])
    show "kmem_step s L {vector_data v} ?s3 (L(p \<mapsto> k, vector_data v := None))"
      by (rule kmem_stepI [where h = h' and m = m and acc = acc' and r = "((raw s)(p \<mapsto> ?n))(vector_data v := None)"])
         (use new(3,8) other in \<open>auto split: if_splits\<close>)
  qed (use f(2,3) m(2) ne in simp_all)
qed

end
lemma take_splice:
  assumes "i + k \<le> n" "n \<le> length B" "length x = k"
  shows "take n (take i B @ x @ drop (i + k) B) = take i (take n B) @ x @ drop (i + k) (take n B)"
proof -
  have "i \<le> length B" "i \<le> n" using assms(1,2) by simp_all
  then show ?thesis using assms by (simp add: min_absorb1 drop_take)
qed

section \<open>Correctness\<close>

text \<open>An element written inside the buffer of a vector.\<close>

context kernel_allocator
begin

lemma vector_write_run:
  assumes i: "inv (kalloc s) room L" and b: "buffers_ok s L" and v: "vector_ok s v"
    and idx: "idx < vector_capacity v" and x: "length x = unat (vector_element_size v)"
  obtains m where "write_bytes (vector_data v + idx * vector_element_size v) x s = Inr ((), s\<lparr>ram := m\<rparr>)"
    "bytes_at m (vector_data v) (unat (vector_capacity v) * unat (vector_element_size v)) =
       (let B = bytes_at (ram s) (vector_data v) (unat (vector_capacity v) * unat (vector_element_size v)) in
        take (unat idx * unat (vector_element_size v)) B @ x @
        drop (unat idx * unat (vector_element_size v) + unat (vector_element_size v)) B)"
    "kmem_step s L {vector_data v} (s\<lparr>ram := m\<rparr>) L" "buffers_ok (s\<lparr>ram := m\<rparr>) L" "vector_ok (s\<lparr>ram := m\<rparr>) v"
proof -
  let ?es = "unat (vector_element_size v)" and ?cap = "unat (vector_capacity v)"
  let ?d = "vector_data v" and ?off = "unat idx * ?es"
  have r: "raw s ?d = Some (vector_capacity v * vector_element_size v)" using v by (simp add: vector_ok_def)
  have lt: "?cap * ?es < 2 ^ 64" using v by (simp add: vector_ok_def)
  have fit: "?off + ?es \<le> ?cap * ?es" using idx by (intro chunk_fits) (simp add: word_less_nat_alt)
  have addr: "?d + idx * vector_element_size v = ?d + of_nat ?off" by simp
  have acc: "can_access s ?d (?cap * ?es)" using buffers_okD(2) [OF b r] vector_ok_size(1) [OF v] by simp
  have "can_access s (?d + of_nat ?off) (length x)" using can_access_part [OF acc fit] x by simp
  moreover have "length x \<le> 2 ^ 64" using x unat_lt_64 [of "vector_element_size v"] by (simp add: less_imp_le)
  ultimately obtain m where m: "write_bytes (?d + of_nat ?off) x s = Inr ((), s\<lparr>ram := m\<rparr>)"
    "bytes_at m (?d + of_nat ?off) (length x) = x" "\<forall>a. a \<notin> region (?d + of_nat ?off) (length x) \<longrightarrow> m a = ram s a"
    using write_bytes_run [of x s "?d + of_nat ?off"] by blast
  show thesis
  proof (rule that)
    show "write_bytes (?d + idx * vector_element_size v) x s = Inr ((), s\<lparr>ram := m\<rparr>)" using m(1) by (simp only: addr)
    have "bytes_at m ?d (?cap * ?es) = take ?off (bytes_at (ram s) ?d (?cap * ?es)) @ x @ drop (?off + ?es) (bytes_at (ram s) ?d (?cap * ?es))"
      using m(2,3) x by (intro bytes_at_splice [OF _ fit]) (use lt in simp_all)
    then show "bytes_at m ?d (?cap * ?es) = (let B = bytes_at (ram s) ?d (?cap * ?es) in take ?off B @ x @ drop (?off + ?es) B)"
      by (simp only: Let_def)
    show "buffers_ok (s\<lparr>ram := m\<rparr>) L" using b by (simp add: buffers_ok_def)
    show "vector_ok (s\<lparr>ram := m\<rparr>) v" using v by (simp add: vector_ok_def)
    show "kmem_step s L {?d} (s\<lparr>ram := m\<rparr>) L"
    proof (rule kmem_stepI [where h = "kalloc s" and m = m and acc = "accessible s" and r = "raw s"])
      fix q n assume q: "q \<notin> {?d}" "raw s q = Some n"
      obtain k l where k: "L ?d = Some k" "?cap * ?es \<le> k" and l: "L q = Some l" "unat n \<le> l"
        using buffers_okD(1) [OF b r] buffers_okD(1) [OF b q(2)] vector_ok_size(1) [OF v] by auto
      have "region ?d (?cap * ?es) \<inter> region q (unat n) = {}"
        using q(1) by (intro buffers_disjoint [OF i k l]) auto
      moreover have "region (?d + of_nat ?off) (length x) \<subseteq> region ?d (?cap * ?es)" using region_part [OF fit] x by simp
      ultimately have "bytes_at m q (unat n) = bytes_at (ram s) q (unat n)"
        using m(3) by (intro bytes_at_cong) blast
      with q show "raw s q = Some n \<and> bytes_at m q (unat n) = bytes_at (ram s) q (unat n)" by simp
    qed auto
  qed
qed

lemma vector_append_run:
  assumes i: "inv (kalloc s) room L" and b: "buffers_ok s L" and v: "vector_ok s v"
    and room: "vector_size v < vector_capacity v" and x: "length x = unat (vector_element_size v)"
  obtains m where "write_bytes (vector_data v + vector_size v * vector_element_size v) x s = Inr ((), s\<lparr>ram := m\<rparr>)"
    "vector_ok (s\<lparr>ram := m\<rparr>) (v\<lparr>vector_size := vector_size v + 1\<rparr>)"
    "vector_elems (s\<lparr>ram := m\<rparr>) (v\<lparr>vector_size := vector_size v + 1\<rparr>) = vector_elems s v @ [x]"
    "kmem_step s L {vector_data v} (s\<lparr>ram := m\<rparr>) L" "buffers_ok (s\<lparr>ram := m\<rparr>) L"
proof (rule vector_write_run [OF i b v room x])
  let ?es = "unat (vector_element_size v)" and ?cap = "unat (vector_capacity v)" and ?n = "unat (vector_size v)"
  fix m
  assume w: "write_bytes (vector_data v + vector_size v * vector_element_size v) x s = Inr ((), s\<lparr>ram := m\<rparr>)"
    "bytes_at m (vector_data v) (?cap * ?es) = (let B = bytes_at (ram s) (vector_data v) (?cap * ?es) in
        take (?n * ?es) B @ x @ drop (?n * ?es + ?es) B)"
    "kmem_step s L {vector_data v} (s\<lparr>ram := m\<rparr>) L" "buffers_ok (s\<lparr>ram := m\<rparr>) L" "vector_ok (s\<lparr>ram := m\<rparr>) v"
  have lt: "?n < ?cap" using room by (simp add: word_less_nat_alt)
  then have fit: "Suc ?n * ?es \<le> ?cap * ?es" and fit': "?n * ?es \<le> ?cap * ?es" by (intro mult_le_mono1; simp)+
  have "?n < 18446744073709551615" using lt unat_lt_64 [of "vector_capacity v"] by linarith
  then have n: "unat (vector_size v + 1) = Suc ?n" by (subst unat_add_no_wrap) simp_all
  have "bytes_at m (vector_data v) (Suc ?n * ?es) = take (Suc ?n * ?es) (bytes_at m (vector_data v) (?cap * ?es))"
    by (rule bytes_at_take [OF fit, symmetric])
  also have "\<dots> = take (?n * ?es) (bytes_at (ram s) (vector_data v) (?cap * ?es)) @ x"
    using fit fit' x by (simp add: w(2) Let_def min_absorb1)
  also have "\<dots> = vector_bytes s v @ x" by (simp only: bytes_at_take [OF fit'] vector_bytes_def)
  finally have "vector_elems (s\<lparr>ram := m\<rparr>) (v\<lparr>vector_size := vector_size v + 1\<rparr>) = chunks (Suc ?n) ?es (vector_bytes s v @ x)"
    by (simp add: vector_elems_def vector_bytes_def n)
  then have e: "vector_elems (s\<lparr>ram := m\<rparr>) (v\<lparr>vector_size := vector_size v + 1\<rparr>) = vector_elems s v @ [x]"
    using x by (simp add: chunks_snoc vector_elems_def)
  have "vector_ok (s\<lparr>ram := m\<rparr>) (v\<lparr>vector_size := vector_size v + 1\<rparr>)"
    using w(5) lt n by (simp add: vector_ok_def word_le_nat_alt)
  from that [OF w(1) this e w(3,4)] show thesis .
qed

lemma vector_set_run:
  assumes i: "inv (kalloc s) room L" and b: "buffers_ok s L" and v: "vector_ok s v"
    and idx: "idx < vector_size v" and x: "length x = unat (vector_element_size v)"
  obtains m where "vector_set v idx (Some x) s = Inr (0, s\<lparr>ram := m\<rparr>)" "vector_ok (s\<lparr>ram := m\<rparr>) v"
    "vector_elems (s\<lparr>ram := m\<rparr>) v = (vector_elems s v)[unat idx := x]"
    "kmem_step s L {vector_data v} (s\<lparr>ram := m\<rparr>) L" "buffers_ok (s\<lparr>ram := m\<rparr>) L"
proof -
  have c: "idx < vector_capacity v" using v order.strict_trans2 [OF idx, of "vector_capacity v"] by (simp add: vector_ok_def)
  show thesis
  proof (rule vector_write_run [OF i b v c x])
    let ?es = "unat (vector_element_size v)" and ?cap = "unat (vector_capacity v)" and ?n = "unat (vector_size v)" and ?i = "unat idx"
    fix m
    assume w: "write_bytes (vector_data v + idx * vector_element_size v) x s = Inr ((), s\<lparr>ram := m\<rparr>)"
      "bytes_at m (vector_data v) (?cap * ?es) = (let B = bytes_at (ram s) (vector_data v) (?cap * ?es) in
          take (?i * ?es) B @ x @ drop (?i * ?es + ?es) B)"
      "kmem_step s L {vector_data v} (s\<lparr>ram := m\<rparr>) L" "buffers_ok (s\<lparr>ram := m\<rparr>) L" "vector_ok (s\<lparr>ram := m\<rparr>) v"
    have lt: "?i < ?n" using idx by (simp add: word_less_nat_alt)
    note fit = vector_ok_size(2) [OF v] and fi = chunk_fits [OF lt, of ?es]
    have B: "vector_bytes s v = take (?n * ?es) (bytes_at (ram s) (vector_data v) (?cap * ?es))"
      using fit by (simp add: bytes_at_take vector_bytes_def)
    have "vector_bytes (s\<lparr>ram := m\<rparr>) v = take (?n * ?es) (bytes_at m (vector_data v) (?cap * ?es))"
      using fit by (simp add: bytes_at_take vector_bytes_def)
    also have "\<dots> = take (?i * ?es) (vector_bytes s v) @ x @ drop (?i * ?es + ?es) (vector_bytes s v)"
      unfolding w(2) Let_def B by (rule take_splice [OF fi]) (use fit x in simp_all)
    finally have "vector_elems (s\<lparr>ram := m\<rparr>) v = (vector_elems s v)[?i := x]"
      using lt x by (simp add: vector_elems_def chunks_update)
    moreover have "vector_set v idx (Some x) s = Inr (0, s\<lparr>ram := m\<rparr>)" using w(1) idx x by (simp add: vector_set_def not_le)
    ultimately show thesis using that w(3-5) by blast
  qed
qed

text \<open>
  \<open>vector_push_back\<close> appends the element. When no memory is left for a larger buffer it fails and
  leaves the elements alone, but the vector then claims the capacity it did not get.
\<close>

lemma vector_push_back_run:
  assumes i: "inv (kalloc s) (room + 2 * (unat (vector_capacity v) * unat (vector_element_size v)) + 4152) L"
    and b: "buffers_ok s L" and v: "vector_ok s v" and x: "length x = unat (vector_element_size v)"
    and lt: "2 * (unat (vector_capacity v) * unat (vector_element_size v)) < 2 ^ 64"
  obtains (pushed) v' s' L' where "vector_push_back malloc mfree v (Some x) s = Inr ((0, v'), s')" "vector_ok s' v'"
      "vector_elems s' v' = vector_elems s v @ [x]" "inv (kalloc s') room L'" "buffers_ok s' L'"
      "kmem_step s L {vector_data v} s' L'" "vector_element_size v' = vector_element_size v"
      "vector_data v' = vector_data v \<or> L (vector_data v') = None"
  | (no_memory) h where "vector_push_back malloc mfree v (Some x) s =
        Inr ((-1, v\<lparr>vector_capacity := vector_capacity v * 2\<rparr>), s\<lparr>kalloc := h\<rparr>)"
      "vector_size v = vector_capacity v" "inv h room L" "buffers_ok (s\<lparr>kalloc := h\<rparr>) L"
      "refuses malloc (vector_capacity v * 2 * vector_element_size v) (kalloc s)"
proof (cases "vector_size v < vector_capacity v")
  case True
  have i0: "inv (kalloc s) room L" by (rule inv_mono [OF i]) simp
  show thesis
  proof (rule vector_append_run [OF i0 b v True x])
    fix m assume *: "write_bytes (vector_data v + vector_size v * vector_element_size v) x s = Inr ((), s\<lparr>ram := m\<rparr>)"
      "vector_ok (s\<lparr>ram := m\<rparr>) (v\<lparr>vector_size := vector_size v + 1\<rparr>)"
      "vector_elems (s\<lparr>ram := m\<rparr>) (v\<lparr>vector_size := vector_size v + 1\<rparr>) = vector_elems s v @ [x]"
      "kmem_step s L {vector_data v} (s\<lparr>ram := m\<rparr>) L" "buffers_ok (s\<lparr>ram := m\<rparr>) L"
    then have run: "vector_push_back malloc mfree v (Some x) s = Inr ((0, v\<lparr>vector_size := vector_size v + 1\<rparr>), s\<lparr>ram := m\<rparr>)"
      using iffD2 [OF not_le True] x by (simp add: vector_push_back_def)
    show thesis using i0 by (intro pushed [OF run *(2,3) _ *(5,4)]) simp_all
  qed
next
  case False
  let ?v = "v\<lparr>vector_capacity := vector_capacity v * 2\<rparr>"
  let ?n = "unat (vector_capacity v) * unat (vector_element_size v)"
  have full: "vector_size v = vector_capacity v" using False v by (simp add: vector_ok_def)
  have pos: "0 < unat (vector_capacity v)" "0 < unat (vector_element_size v)" using v by (simp_all add: vector_ok_def)
  then have "unat (vector_capacity v) \<le> ?n" by simp
  then have "unat (vector_capacity v) * 2 < 2 ^ 64" using lt by linarith
  then have c: "unat (vector_capacity v * 2) = 2 * unat (vector_capacity v)" by (subst unat_mult_no_wrap) simp_all
  have cn: "unat (vector_capacity ?v * vector_element_size ?v) = 2 * ?n"
    using lt c by (simp add: unat_mult_no_wrap)
  have r: "raw s (vector_data ?v) = Some (vector_capacity v * vector_element_size v)" using v by (simp add: vector_ok_def)
  note sz = vector_ok_size [OF v]
  have i': "inv (kalloc s) (room + unat (vector_capacity ?v * vector_element_size ?v) + 4152) L" using i cn by (simp only:)
  have fits: "unat (vector_size ?v * vector_element_size ?v) \<le> unat (vector_capacity v * vector_element_size v)"
    "unat (vector_size ?v * vector_element_size ?v) \<le> unat (vector_capacity ?v * vector_element_size ?v)"
    using sz cn full by simp_all
  show thesis
  proof (rule vector_move_run [OF i' b r fits])
    fix h assume "vector_move malloc mfree ?v s = Inr ((-1, ?v), s\<lparr>kalloc := h\<rparr>)" "inv h room L" "buffers_ok (s\<lparr>kalloc := h\<rparr>) L"
      "refuses malloc (vector_capacity ?v * vector_element_size ?v) (kalloc s)"
    then show thesis using False full by (intro no_memory) (simp_all add: vector_push_back_def expand_capacity_def)
  next
    fix d k s' assume mv: "vector_move malloc mfree ?v s = Inr ((0, ?v\<lparr>vector_data := d\<rparr>), s')" "d \<noteq> vector_data ?v"
      "L d = None" "raw s d = None" "inv (kalloc s') room (L(d \<mapsto> k, vector_data ?v := None))"
      "buffers_ok s' (L(d \<mapsto> k, vector_data ?v := None))" "raw s' d = Some (vector_capacity ?v * vector_element_size ?v)"
      "bytes_at (ram s') d (unat (vector_size ?v * vector_element_size ?v)) =
         bytes_at (ram s) (vector_data ?v) (unat (vector_size ?v * vector_element_size ?v))"
      "kmem_step s L {vector_data ?v} s' (L(d \<mapsto> k, vector_data ?v := None))"
    let ?w = "?v\<lparr>vector_data := d\<rparr>" and ?L = "L(d \<mapsto> k, vector_data ?v := None)"
    have w: "vector_ok s' ?w" using mv(7) pos c lt full by (simp add: vector_ok_def word_le_nat_alt)
    have "vector_bytes s' ?w = vector_bytes s v" using mv(8) sz(3) by (simp add: vector_bytes_def)
    then have e: "vector_elems s' ?w = vector_elems s v" by (simp add: vector_elems_def)
    have "vector_size ?w < vector_capacity ?w" using full c pos by (simp add: word_less_nat_alt)
    moreover have "length x = unat (vector_element_size ?w)" using x by simp
    ultimately show thesis
    proof (rule vector_append_run [OF mv(5,6) w])
      fix m assume *: "write_bytes (vector_data ?w + vector_size ?w * vector_element_size ?w) x s' = Inr ((), s'\<lparr>ram := m\<rparr>)"
        "vector_ok (s'\<lparr>ram := m\<rparr>) (?w\<lparr>vector_size := vector_size ?w + 1\<rparr>)"
        "vector_elems (s'\<lparr>ram := m\<rparr>) (?w\<lparr>vector_size := vector_size ?w + 1\<rparr>) = vector_elems s' ?w @ [x]"
        "kmem_step s' ?L {vector_data ?w} (s'\<lparr>ram := m\<rparr>) ?L" "buffers_ok (s'\<lparr>ram := m\<rparr>) ?L"
      have run: "vector_push_back malloc mfree v (Some x) s = Inr ((0, ?w\<lparr>vector_size := vector_size ?w + 1\<rparr>), s'\<lparr>ram := m\<rparr>)"
        using mv(1) *(1) full x by (simp add: vector_push_back_def expand_capacity_def)
      have "kmem_step s L {vector_data v} (s'\<lparr>ram := m\<rparr>) ?L"
        using kmem_step_fresh [of s L "vector_data v" s' ?L d "s'\<lparr>ram := m\<rparr>" ?L] mv(3,4,9) *(4) by simp
      with *(2,3,5) e mv(3,5) show thesis by (intro pushed [OF run]) simp_all
    qed
  qed
qed

end

end
