(* ===== verification/Ring_Buffer.thy ===== *)
theory Ring_Buffer
  imports Vector
begin

text \<open>
  \<open>kernel/utils/ring_buffer.c\<close> (and its copy in \<open>libraries/libcommon\<close>): a bounded queue of
  elements of a fixed size in memory that the caller provides. As for vectors, the struct is taken
  and returned as a value; the elements are copied from and to addresses.
\<close>

section \<open>The operations\<close>

record ring_buffer =
  base_address :: u64
  enqueue_ptr :: u64
  dequeue_ptr :: u64
  ring_size :: u64
  data_size :: u64
  used_count :: u64

definition ring_buffer_advance_ptr :: "ring_buffer \<Rightarrow> u64 \<Rightarrow> u64" where
  "ring_buffer_advance_ptr rb ptr =
     (let ptr = ptr + data_size rb in
      if ptr \<ge> base_address rb + ring_size rb * data_size rb then base_address rb else ptr)"

definition ring_buffer_init :: "ring_buffer \<Rightarrow> u64 \<Rightarrow> u64 \<Rightarrow> u64 \<Rightarrow> int \<times> ring_buffer" where
  "ring_buffer_init rb base rsize dsize =
     (if dsize = 0 \<or> rsize = 0 then (-1, rb)
      else (0, \<lparr>base_address = base, enqueue_ptr = base, dequeue_ptr = base, ring_size = rsize,
                data_size = dsize, used_count = 0\<rparr>))"

definition ring_buffer_is_empty :: "ring_buffer \<Rightarrow> bool" where
  "ring_buffer_is_empty rb \<longleftrightarrow> used_count rb = 0"

definition ring_buffer_is_full :: "ring_buffer \<Rightarrow> bool" where
  "ring_buffer_is_full rb \<longleftrightarrow> data_size rb \<noteq> 0 \<and> used_count rb = ring_size rb"

definition ring_buffer_enqueue ::
  "ring_buffer \<Rightarrow> u64 \<Rightarrow> u64 \<Rightarrow> (('h, 'z) kmem_scheme, int \<times> ring_buffer) prog" where
  "ring_buffer_enqueue rb data dsize =
     (if data = 0 \<or> dsize > data_size rb then ret (-1, rb)
      else if ring_buffer_is_full rb then ret (-1, rb)
      else thn (memory_copy (enqueue_ptr rb) data dsize)
        (ret (0, rb\<lparr>enqueue_ptr := ring_buffer_advance_ptr rb (enqueue_ptr rb),
                    used_count := used_count rb + 1\<rparr>)))"

definition ring_buffer_dequeue ::
  "ring_buffer \<Rightarrow> u64 \<Rightarrow> u64 \<Rightarrow> (('h, 'z) kmem_scheme, int \<times> ring_buffer) prog" where
  "ring_buffer_dequeue rb data dsize =
     (if data = 0 \<or> dsize > data_size rb then ret (-1, rb)
      else if ring_buffer_is_empty rb then ret (-1, rb)
      else thn (memory_copy data (dequeue_ptr rb) dsize)
        (ret (0, rb\<lparr>dequeue_ptr := ring_buffer_advance_ptr rb (dequeue_ptr rb),
                    used_count := used_count rb - 1\<rparr>)))"

definition ring_buffer_peek ::
  "ring_buffer \<Rightarrow> u64 \<Rightarrow> u64 \<Rightarrow> (('h, 'z) kmem_scheme, int) prog" where
  "ring_buffer_peek rb data dsize =
     (if data = 0 \<or> dsize > data_size rb then ret (-1)
      else if ring_buffer_is_empty rb then ret (-1)
      else thn (memory_copy data (dequeue_ptr rb) dsize) (ret 0))"

section \<open>The queue it implements\<close>

definition slot :: "ring_buffer \<Rightarrow> nat \<Rightarrow> u64" where
  "slot rb i = base_address rb + of_nat (i * unat (data_size rb))"

lemma slot_pointers [simp]:
  "slot (rb\<lparr>enqueue_ptr := x\<rparr>) = slot rb" "slot (rb\<lparr>dequeue_ptr := x\<rparr>) = slot rb"
  "slot (rb\<lparr>used_count := n\<rparr>) = slot rb"
  by (simp_all add: fun_eq_iff slot_def)

definition ring_bytes :: "ring_buffer \<Rightarrow> nat" where
  "ring_bytes rb = unat (ring_size rb) * unat (data_size rb)"

definition ring_ok :: "('h, 'z) kmem_scheme \<Rightarrow> ring_buffer \<Rightarrow> bool" where
  "ring_ok s rb \<longleftrightarrow> 0 < unat (ring_size rb) \<and> 0 < unat (data_size rb) \<and>
     unat (base_address rb) + ring_bytes rb < 2 ^ 64 \<and> can_access s (base_address rb) (ring_bytes rb)"

text \<open>The ring \<open>rb\<close> holds the queue \<open>q\<close>, whose first element is in slot \<open>j\<close>.\<close>

definition ring_holds :: "('h, 'z) kmem_scheme \<Rightarrow> ring_buffer \<Rightarrow> u8 list list \<Rightarrow> bool" where
  "ring_holds s rb q \<longleftrightarrow> ring_ok s rb \<and> length q = unat (used_count rb) \<and> length q \<le> unat (ring_size rb) \<and>
     (\<exists>j < unat (ring_size rb). dequeue_ptr rb = slot rb j \<and>
        enqueue_ptr rb = slot rb ((j + length q) mod unat (ring_size rb)) \<and>
        (\<forall>k < length q. bytes_at (ram s) (slot rb ((j + k) mod unat (ring_size rb))) (unat (data_size rb)) = q ! k))"

lemma slot_fits: "i < unat (ring_size rb) \<Longrightarrow> i * unat (data_size rb) + unat (data_size rb) \<le> ring_bytes rb"
  unfolding ring_bytes_def by (rule chunk_fits)

lemma unat_ring_slot:
  assumes "ring_ok s rb" "i \<le> unat (ring_size rb)"
  shows "unat (slot rb i) = unat (base_address rb) + i * unat (data_size rb)"
proof -
  have "i * unat (data_size rb) \<le> ring_bytes rb" unfolding ring_bytes_def using assms(2) by (rule mult_le_mono1)
  then have lt: "unat (base_address rb) + i * unat (data_size rb) < 2 ^ 64" using assms(1) unfolding ring_ok_def by linarith
  then have "unat (of_nat (i * unat (data_size rb)) :: u64) = i * unat (data_size rb)" by (intro unat_of_nat_64) linarith
  then show ?thesis using lt unfolding slot_def by (subst unat_add_no_wrap) simp_all
qed

lemma advance_slot:
  assumes ok: "ring_ok s rb" and i: "i < unat (ring_size rb)"
  shows "ring_buffer_advance_ptr rb (slot rb i) = slot rb (Suc i mod unat (ring_size rb))"
proof -
  have "slot rb i + data_size rb = slot rb (Suc i)" by (simp add: slot_def algebra_simps)
  moreover have "base_address rb + ring_size rb * data_size rb = slot rb (unat (ring_size rb))"
    by (simp add: slot_def)
  ultimately have eq: "ring_buffer_advance_ptr rb (slot rb i) =
      (if slot rb (unat (ring_size rb)) \<le> slot rb (Suc i) then base_address rb else slot rb (Suc i))"
    by (simp add: ring_buffer_advance_ptr_def Let_def)
  have d: "0 < unat (data_size rb)" using ok by (simp add: ring_ok_def)
  have le: "slot rb (unat (ring_size rb)) \<le> slot rb (Suc i) \<longleftrightarrow> unat (ring_size rb) \<le> Suc i"
    using i d by (simp add: word_le_nat_alt unat_ring_slot [OF ok] del: mult_Suc)
  show ?thesis
  proof (cases "Suc i = unat (ring_size rb)")
    case True
    then show ?thesis using eq by (simp add: slot_def)
  next
    case False
    then have "Suc i < unat (ring_size rb)" using i by simp
    then show ?thesis using eq le by simp
  qed
qed

lemma slot_region: "i < unat (ring_size rb) \<Longrightarrow> region (slot rb i) (unat (data_size rb)) \<subseteq> region (base_address rb) (ring_bytes rb)"
  unfolding slot_def by (rule region_part [OF slot_fits])

lemma slot_access:
  assumes "ring_ok s rb" "i < unat (ring_size rb)" shows "can_access s (slot rb i) (unat (data_size rb))"
  unfolding slot_def by (rule can_access_part [OF _ slot_fits [OF assms(2)]]) (use assms(1) in \<open>simp add: ring_ok_def\<close>)

lemma slots_disjoint:
  assumes ok: "ring_ok s rb" and i: "i < unat (ring_size rb)" and j: "j < unat (ring_size rb)" and ne: "i \<noteq> j"
  shows "region (slot rb i) (unat (data_size rb)) \<inter> region (slot rb j) (unat (data_size rb)) = {}"
proof (rule region_disjoint)
  note u = unat_ring_slot [OF ok less_imp_le [OF i]] unat_ring_slot [OF ok less_imp_le [OF j]]
  have lt: "unat (base_address rb) + ring_bytes rb < 2 ^ 64" using ok by (simp add: ring_ok_def)
  show "unat (slot rb i) + unat (data_size rb) \<le> 2 ^ 64" "unat (slot rb j) + unat (data_size rb) \<le> 2 ^ 64"
    using u lt slot_fits [OF i] slot_fits [OF j] by linarith+
  show "unat (slot rb i) + unat (data_size rb) \<le> unat (slot rb j) \<or> unat (slot rb j) + unat (data_size rb) \<le> unat (slot rb i)"
  proof (cases "i < j")
    case True
    then show ?thesis using u chunk_fits [of i j "unat (data_size rb)"] by linarith
  next
    case False
    with ne have "j < i" by simp
    then show ?thesis using u chunk_fits [of j i "unat (data_size rb)"] by linarith
  qed
qed

lemma index_other:
  assumes "j < n" "k < m" "m < n" shows "(j + k) mod n \<noteq> (j + m) mod (n :: nat)"
proof
  assume eq: "(j + k) mod n = (j + m) mod n"
  then have "(j + k) mod n = (j + k + (m - k)) mod n" using assms(2) by simp
  then have "n dvd (m - k)" by (metis add_diff_cancel_left' le_add1 mod_eq_dvd_iff_nat)
  then show False using assms by (auto dest: dvd_imp_le)
qed

text \<open>
  Enqueueing appends a copy of the element, and only the free slot of memory changes; a full ring
  refuses it.
\<close>

lemma ring_buffer_enqueue_run:
  assumes h: "ring_holds s rb q" and d: "data \<noteq> 0" "can_access s data (unat (data_size rb))"
    and dis: "region data (unat (data_size rb)) \<inter> region (base_address rb) (ring_bytes rb) = {}"
    and free: "length q < unat (ring_size rb)"
  obtains m rb' where "ring_buffer_enqueue rb data (data_size rb) s = Inr ((0, rb'), s\<lparr>ram := m\<rparr>)"
    "ring_holds (s\<lparr>ram := m\<rparr>) rb' (q @ [bytes_at (ram s) data (unat (data_size rb))])"
    "\<And>a. a \<notin> region (base_address rb) (ring_bytes rb) \<Longrightarrow> m a = ram s a"
    "base_address rb' = base_address rb" "ring_size rb' = ring_size rb" "data_size rb' = data_size rb"
proof -
  let ?n = "unat (ring_size rb)" and ?d = "unat (data_size rb)"
  obtain j where ok: "ring_ok s rb" and len: "length q = unat (used_count rb)" and j: "j < ?n"
    and dq: "dequeue_ptr rb = slot rb j" and eq: "enqueue_ptr rb = slot rb ((j + length q) mod ?n)"
    and c: "\<And>k. k < length q \<Longrightarrow> bytes_at (ram s) (slot rb ((j + k) mod ?n)) ?d = q ! k"
    using h unfolding ring_holds_def by blast
  let ?e = "(j + length q) mod ?n"
  have e: "?e < ?n" using j by simp
  have acc: "can_access s (slot rb ?e) ?d"
    by (rule slot_access [OF ok e])
  have "?d \<le> 2 ^ 64" using unat_lt_64 [of "data_size rb"] by (simp add: less_imp_le)
  moreover have "region (slot rb ?e) ?d \<inter> region data ?d = {}" using dis slot_region [OF e] by blast
  ultimately obtain m where m: "copy_bytes ?d (slot rb ?e) data s = Inr ((), s\<lparr>ram := m\<rparr>)"
    "bytes_at m (slot rb ?e) ?d = bytes_at (ram s) data ?d"
    "\<forall>a. a \<notin> region (slot rb ?e) ?d \<longrightarrow> m a = ram s a"
    using copy_bytes_run [OF _ acc d(2)] by blast
  let ?rb = "rb\<lparr>enqueue_ptr := slot rb (Suc ?e mod ?n), used_count := used_count rb + 1\<rparr>"
  have "used_count rb \<noteq> ring_size rb" using free len by auto
  then have run: "ring_buffer_enqueue rb data (data_size rb) s = Inr ((0, ?rb), s\<lparr>ram := m\<rparr>)"
    using d(1) m(1) eq advance_slot [OF ok e] by (simp add: ring_buffer_enqueue_def ring_buffer_is_full_def memory_copy_def)
  have "unat (used_count rb) < 18446744073709551615" using free len unat_lt_64 [of "ring_size rb"] by linarith
  then have u: "unat (used_count rb + 1) = Suc (length q)" using len by (subst unat_add_no_wrap) simp_all
  have old: "bytes_at m (slot rb ((j + k) mod ?n)) ?d = q ! k" if k: "k < length q" for k
  proof -
    have "region (slot rb ((j + k) mod ?n)) ?d \<inter> region (slot rb ?e) ?d = {}"
      using j index_other [OF j k free] by (intro slots_disjoint [OF ok]) simp_all
    then have "bytes_at m (slot rb ((j + k) mod ?n)) ?d = bytes_at (ram s) (slot rb ((j + k) mod ?n)) ?d"
      using m(3) by (intro bytes_at_cong) blast
    then show ?thesis using c [OF k] by simp
  qed
  have ok': "ring_ok (s\<lparr>ram := m\<rparr>) ?rb" using ok by (simp add: ring_ok_def ring_bytes_def)
  have "ring_holds (s\<lparr>ram := m\<rparr>) ?rb (q @ [bytes_at (ram s) data ?d])"
    unfolding ring_holds_def
  proof (intro conjI exI [of _ j])
    show "\<forall>k < length (q @ [bytes_at (ram s) data ?d]). bytes_at (ram (s\<lparr>ram := m\<rparr>))
      (slot ?rb ((j + k) mod unat (ring_size ?rb))) (unat (data_size ?rb)) = (q @ [bytes_at (ram s) data ?d]) ! k"
      using old m(2) by (auto simp: nth_append less_Suc_eq)
  qed (use ok' u j dq free in \<open>simp_all add: mod_Suc_eq\<close>)
  moreover have "m a = ram s a" if "a \<notin> region (base_address rb) (ring_bytes rb)" for a
    using that m(3) slot_region [OF e] by blast
  ultimately show thesis using that [OF run] by simp
qed

text \<open>Dequeueing copies the oldest element to the caller and removes it.\<close>

lemma ring_buffer_dequeue_run:
  assumes h: "ring_holds s rb (x # q)" and d: "data \<noteq> 0" "can_access s data (unat (data_size rb))"
    and dis: "region data (unat (data_size rb)) \<inter> region (base_address rb) (ring_bytes rb) = {}"
  obtains m rb' where "ring_buffer_dequeue rb data (data_size rb) s = Inr ((0, rb'), s\<lparr>ram := m\<rparr>)"
    "ring_holds (s\<lparr>ram := m\<rparr>) rb' q" "bytes_at m data (unat (data_size rb)) = x"
    "\<And>a. a \<notin> region data (unat (data_size rb)) \<Longrightarrow> m a = ram s a"
    "base_address rb' = base_address rb" "ring_size rb' = ring_size rb" "data_size rb' = data_size rb"
proof -
  let ?n = "unat (ring_size rb)" and ?d = "unat (data_size rb)"
  obtain j where ok: "ring_ok s rb" and len: "Suc (length q) = unat (used_count rb)" "Suc (length q) \<le> ?n" and j: "j < ?n"
    and dq: "dequeue_ptr rb = slot rb j" and eq: "enqueue_ptr rb = slot rb ((j + Suc (length q)) mod ?n)"
    and c: "\<And>k. k < Suc (length q) \<Longrightarrow> bytes_at (ram s) (slot rb ((j + k) mod ?n)) ?d = (x # q) ! k"
    using h unfolding ring_holds_def length_Cons by blast
  have acc: "can_access s (slot rb j) ?d"
    by (rule slot_access [OF ok j])
  have "?d \<le> 2 ^ 64" using unat_lt_64 [of "data_size rb"] by (simp add: less_imp_le)
  moreover have "region data ?d \<inter> region (slot rb j) ?d = {}" using dis slot_region [OF j] by blast
  ultimately obtain m where m: "copy_bytes ?d data (slot rb j) s = Inr ((), s\<lparr>ram := m\<rparr>)"
    "bytes_at m data ?d = bytes_at (ram s) (slot rb j) ?d"
    "\<forall>a. a \<notin> region data ?d \<longrightarrow> m a = ram s a"
    using copy_bytes_run [OF _ d(2) acc] by blast
  let ?rb = "rb\<lparr>dequeue_ptr := slot rb (Suc j mod ?n), used_count := used_count rb - 1\<rparr>"
  have ne: "used_count rb \<noteq> 0" using len(1) by auto
  then have run: "ring_buffer_dequeue rb data (data_size rb) s = Inr ((0, ?rb), s\<lparr>ram := m\<rparr>)"
    using d(1) m(1) dq advance_slot [OF ok j] by (simp add: ring_buffer_dequeue_def ring_buffer_is_empty_def memory_copy_def)
  have u: "unat (used_count rb - 1) = length q"
    using len(1) by (subst unat_sub_no_wrap) simp_all
  have idx: "(Suc j mod ?n + k) mod ?n = (j + Suc k) mod ?n" for k
    by (simp add: mod_add_left_eq)
  have old: "bytes_at m (slot rb ((j + Suc k) mod ?n)) ?d = q ! k" if k: "k < length q" for k
  proof -
    have "region (slot rb ((j + Suc k) mod ?n)) ?d \<inter> region data ?d = {}"
      using j slot_region [of "(j + Suc k) mod ?n" rb] dis by auto
    then have "bytes_at m (slot rb ((j + Suc k) mod ?n)) ?d = bytes_at (ram s) (slot rb ((j + Suc k) mod ?n)) ?d"
      using m(3) by (intro bytes_at_cong) blast
    then show ?thesis using c [of "Suc k"] k by simp
  qed
  have ok': "ring_ok (s\<lparr>ram := m\<rparr>) ?rb" using ok by (simp add: ring_ok_def ring_bytes_def)
  have "ring_holds (s\<lparr>ram := m\<rparr>) ?rb q"
    unfolding ring_holds_def
  proof (intro conjI exI [of _ "Suc j mod ?n"])
    show "\<forall>k < length q. bytes_at (ram (s\<lparr>ram := m\<rparr>))
      (slot ?rb ((Suc j mod ?n + k) mod unat (ring_size ?rb))) (unat (data_size ?rb)) = q ! k"
      using old by (simp add: idx)
  next
    show "enqueue_ptr ?rb = slot ?rb ((Suc j mod ?n + length q) mod unat (ring_size ?rb))" using eq by (simp add: mod_add_left_eq)
  qed (use ok' u j len in simp_all)
  moreover have "bytes_at m data ?d = x" using m(2) c [of 0] j by simp
  ultimately show thesis using that [OF run] m(3) by simp
qed

lemma ring_buffer_full_run:
  assumes h: "ring_holds s rb q" and n: "length q = unat (ring_size rb)"
  shows "ring_buffer_enqueue rb data dsize s = Inr ((-1, rb), s)"
proof -
  have "used_count rb = ring_size rb" using h n by (simp add: ring_holds_def word_unat_eq_iff)
  moreover have "data_size rb \<noteq> 0" using h by (auto simp: ring_holds_def ring_ok_def)
  ultimately show ?thesis by (simp add: ring_buffer_enqueue_def ring_buffer_is_full_def)
qed

lemma ring_buffer_empty_run:
  assumes "ring_holds s rb []" shows "ring_buffer_dequeue rb data dsize s = Inr ((-1, rb), s)"
proof -
  have "used_count rb = 0" using assms by (simp add: ring_holds_def word_unat_eq_iff)
  then show ?thesis by (simp add: ring_buffer_dequeue_def ring_buffer_is_empty_def)
qed

lemma ring_buffer_init_holds:
  assumes "0 < unat rsize" "0 < unat dsize" "unat base + unat rsize * unat dsize < 2 ^ 64"
    "can_access s base (unat rsize * unat dsize)"
  shows "\<exists>rb'. ring_buffer_init rb base rsize dsize = (0, rb') \<and> ring_holds s rb' [] \<and>
    base_address rb' = base \<and> ring_size rb' = rsize \<and> data_size rb' = dsize"
  using assms by (auto simp: ring_buffer_init_def ring_holds_def ring_ok_def ring_bytes_def slot_def intro!: exI [of _ 0])

end
