(* ===== verification/Linked_List.thy ===== *)
theory Linked_List
  imports Dll Objects
begin

text \<open>
  \<open>kernel/utils/linked_list.c\<close> (and its copy in \<open>libraries/libcommon\<close>): doubly linked lists of
  pointers. The nodes are a typed heap; the \<open>linked_list_t\<close> with the two ends is a value, as it is
  always a field of another struct. The run queue of the scheduler, the queues of channels and input
  files and the lists of a process are such lists.
\<close>

section \<open>The operations\<close>

record linked_list_node =
  ll_data :: u64
  ll_next :: u64
  ll_prev :: u64
  list_is_owner :: u8

record linked_list =
  list_head :: u64
  list_tail :: u64

record 'h list_mem = "'h kmem" +
  list_nodes :: "u64 \<rightharpoonup> linked_list_node"

definition LIST_NODE_SIZE :: u64 where "LIST_NODE_SIZE = 32"

definition linked_list_init :: "linked_list \<Rightarrow> int \<times> linked_list" where
  "linked_list_init l = (0, \<lparr>list_head = NULL, list_tail = NULL\<rparr>)"

definition linked_list_insert_node ::
  "linked_list \<Rightarrow> u64 \<Rightarrow> (('h, 'z) list_mem_scheme, int \<times> linked_list) prog" where
  "linked_list_insert_node l node =
     (if node = NULL then ret (-1, l)
      else if list_head l = NULL then ret (0, \<lparr>list_head = node, list_tail = node\<rparr>)
      else thn (assign list_nodes list_nodes_update (list_tail l) (\<lambda>n. n\<lparr>ll_next := node\<rparr>))
          (thn (assign list_nodes list_nodes_update node (\<lambda>n. n\<lparr>ll_prev := list_tail l\<rparr>))
          (ret (0, l\<lparr>list_tail := node\<rparr>))))"

text \<open>The third component is the \<open>node\<close> that is handed out.\<close>

definition linked_list_insert ::
  "'h malloc_fn \<Rightarrow> 'h free_fn \<Rightarrow> linked_list \<Rightarrow> u64
     \<Rightarrow> (('h, 'z) list_mem_scheme, int \<times> linked_list \<times> u64 option) prog" where
  "linked_list_insert malloc mfree l data =
     bnd (new_object malloc LIST_NODE_SIZE list_nodes_update
            \<lparr>ll_data = data, ll_next = NULL, ll_prev = NULL, list_is_owner = 1\<rparr>) (\<lambda>new_node.
     if new_node = NULL then ret (-1, l, None)
     else bnd (linked_list_insert_node l new_node) (\<lambda>(r, l).
       if r < 0 then thn (free_object mfree list_nodes_update new_node) (ret (-1, l, None))
       else ret (0, l, Some new_node)))"

text \<open>\<open>linked_list_remove\<close> first joins the neighbours of the node, or moves the ends of the list.\<close>

definition list_unlink ::
  "linked_list \<Rightarrow> linked_list_node \<Rightarrow> (('h, 'z) list_mem_scheme, linked_list) prog" where
  "list_unlink l n =
     bnd (if ll_prev n \<noteq> NULL
          then thn (assign list_nodes list_nodes_update (ll_prev n) (\<lambda>p. p\<lparr>ll_next := ll_next n\<rparr>)) (ret l)
          else ret (l\<lparr>list_head := ll_next n\<rparr>)) (\<lambda>l.
     if ll_next n \<noteq> NULL
     then thn (assign list_nodes list_nodes_update (ll_next n) (\<lambda>q. q\<lparr>ll_prev := ll_prev n\<rparr>)) (ret l)
     else ret (l\<lparr>list_tail := ll_prev n\<rparr>))"

definition linked_list_remove ::
  "'h free_fn \<Rightarrow> linked_list \<Rightarrow> u64 \<Rightarrow> (('h, 'z) list_mem_scheme, int \<times> linked_list) prog" where
  "linked_list_remove mfree l node =
     (if node = NULL then ret (-1, l)
      else bnd (deref list_nodes node) (\<lambda>n.
        bnd (list_unlink l n) (\<lambda>l.
        thn (assign list_nodes list_nodes_update node (\<lambda>n. n\<lparr>ll_next := NULL, ll_prev := NULL\<rparr>))
       (thn (if list_is_owner n \<noteq> 0 then free_object mfree list_nodes_update node else ret ())
       (ret (0, l))))))"

partial_function (option) destroy_nodes ::
  "'h free_fn \<Rightarrow> u64 \<Rightarrow> ('h, 'z) list_mem_scheme \<Rightarrow> (fault + unit \<times> ('h, 'z) list_mem_scheme) option" where
  "destroy_nodes mfree node s =
     (if node = NULL then Some (Inr ((), s))
      else case list_nodes s node of None \<Rightarrow> Some (Inl Bad_Access)
      | Some n \<Rightarrow>
          (case (if list_is_owner n \<noteq> 0 then free_object mfree list_nodes_update node else ret ()) s of
             Inl e \<Rightarrow> Some (Inl e)
           | Inr (u, s') \<Rightarrow> destroy_nodes mfree (ll_next n) s'))"

definition linked_list_destroy ::
  "'h free_fn \<Rightarrow> linked_list \<Rightarrow> (('h, 'z) list_mem_scheme, int \<times> linked_list) prog" where
  "linked_list_destroy mfree l =
     thn (\<lambda>s. loop (destroy_nodes mfree (list_head l) s)) (ret (0, \<lparr>list_head = NULL, list_tail = NULL\<rparr>))"

section \<open>Correctness\<close>

text \<open>\<open>list_at s l ps\<close>: the list \<open>l\<close> consists of the nodes \<open>ps\<close>, all allocated by the list.\<close>

definition list_at :: "('h, 'z) list_mem_scheme \<Rightarrow> linked_list \<Rightarrow> u64 list \<Rightarrow> bool" where
  "list_at s l ps \<longleftrightarrow> dll (fld ll_next (list_nodes s)) (fld ll_prev (list_nodes s)) (list_head l) (list_tail l) ps \<and>
     (\<forall>p \<in> set ps. \<exists>n. list_nodes s p = Some n \<and> list_is_owner n \<noteq> 0)"

definition list_data :: "('h, 'z) list_mem_scheme \<Rightarrow> u64 list \<Rightarrow> u64 list" where
  "list_data s ps = map (fld ll_data (list_nodes s)) ps"

lemma list_at_dll: "list_at s l ps \<Longrightarrow>
    dll (fld ll_next (list_nodes s)) (fld ll_prev (list_nodes s)) (list_head l) (list_tail l) ps"
  by (simp add: list_at_def)

lemma list_at_node: "list_at s l ps \<Longrightarrow> p \<in> set ps \<Longrightarrow> \<exists>n. list_nodes s p = Some n \<and> list_is_owner n \<noteq> 0"
  by (simp add: list_at_def)

lemma list_at_empty: "list_at s \<lparr>list_head = NULL, list_tail = NULL\<rparr> []"
  by (simp add: list_at_def)

lemma list_at_head: "list_at s l ps \<Longrightarrow> list_head l = (if ps = [] then 0 else hd ps)"
  by (drule list_at_dll) (rule dll_head)

lemma list_at_head_null: "list_at s l ps \<Longrightarrow> list_head l = NULL \<longleftrightarrow> ps = []"
  by (drule list_at_dll) (rule dll_head_null)

lemma list_at_cong:
  assumes "\<And>p. p \<in> set ps \<Longrightarrow> list_nodes t p = list_nodes s p" shows "list_at t l ps = list_at s l ps"
proof -
  have "dll (fld ll_next (list_nodes t)) (fld ll_prev (list_nodes t)) (list_head l) (list_tail l) ps =
    dll (fld ll_next (list_nodes s)) (fld ll_prev (list_nodes s)) (list_head l) (list_tail l) ps"
    by (rule dll_cong) (simp_all add: fld_def assms)
  then show ?thesis using assms by (simp add: list_at_def)
qed

lemma list_data_cong: "(\<And>p. p \<in> set ps \<Longrightarrow> list_nodes t p = list_nodes s p) \<Longrightarrow> list_data t ps = list_data s ps"
  by (simp add: list_data_def fld_def)

lemma list_data_append [simp]: "list_data s (ps @ qs) = list_data s ps @ list_data s qs"
  by (simp add: list_data_def)

lemma list_data_Nil [simp]: "list_data s [] = []"
  by (simp add: list_data_def)

lemma list_data_Cons: "list_data s (p # ps) = fld ll_data (list_nodes s) p # list_data s ps"
  by (simp add: list_data_def)

text \<open>The pointer part of the two operations, on the heap of nodes alone.\<close>

lemma insert_node_run:
  assumes l: "list_at s l ps" and p: "p \<noteq> 0" "p \<notin> set ps"
    and n: "list_nodes s p = Some \<lparr>ll_data = d, ll_next = NULL, ll_prev = NULL, list_is_owner = 1\<rparr>"
  obtains l' m where "linked_list_insert_node l p s = Inr ((0, l'), s\<lparr>list_nodes := m\<rparr>)"
    "list_at (s\<lparr>list_nodes := m\<rparr>) l' (ps @ [p])" "fld ll_data m = fld ll_data (list_nodes s)"
    "\<And>q. q \<notin> set ps \<Longrightarrow> q \<noteq> p \<Longrightarrow> m q = list_nodes s q" "dom m = dom (list_nodes s)"
proof (cases ps)
  case Nil
  then have "list_head l = NULL" using list_at_head_null [OF l] by simp
  then have run: "linked_list_insert_node l p s = Inr ((0, \<lparr>list_head = p, list_tail = p\<rparr>), s)"
    using p by (simp add: linked_list_insert_node_def)
  have "dll (fld ll_next (list_nodes s)) (fld ll_prev (list_nodes s)) p p [p]"
    using p n by (intro dll_singleton) (simp_all add: fld_def)
  then have "list_at s \<lparr>list_head = p, list_tail = p\<rparr> [p]" using n by (simp add: list_at_def)
  then show thesis using Nil run by (intro that [of _ "list_nodes s"]) simp_all
next
  case (Cons q qs)
  let ?t = "list_tail l"
  note d = list_at_dll [OF l]
  have h: "list_head l \<noteq> NULL" and t: "?t \<noteq> 0" using list_at_head_null [OF l] dll_tail_null [OF d] Cons by simp_all
  have tin: "?t \<in> set ps" using dll_tail [OF d] Cons by simp
  then have ne: "?t \<noteq> p" using p(2) by blast
  obtain nt where nt: "list_nodes s ?t = Some nt" "list_is_owner nt \<noteq> 0" using list_at_node [OF l tin] by blast
  let ?m = "(list_nodes s)(?t \<mapsto> nt\<lparr>ll_next := p\<rparr>, p \<mapsto> \<lparr>ll_data = d, ll_next = NULL, ll_prev = ?t, list_is_owner = 1\<rparr>)"
  have run: "linked_list_insert_node l p s = Inr ((0, l\<lparr>list_tail := p\<rparr>), s\<lparr>list_nodes := ?m\<rparr>)"
    using p h ne nt n by (simp add: linked_list_insert_node_def)
  have "dll ((fld ll_next (list_nodes s))(?t := p)) ((fld ll_prev (list_nodes s))(p := ?t)) (list_head l) p (ps @ [p])"
    by (rule dll_append_tail [OF d t p]) (simp add: fld_def n)
  moreover have "fld ll_next ?m = (fld ll_next (list_nodes s))(?t := p)"
    using n ne by (auto simp: fld_def fun_eq_iff)
  moreover have "fld ll_prev ?m = (fld ll_prev (list_nodes s))(p := ?t)"
    using nt ne by (auto simp: fld_def fun_eq_iff)
  ultimately have at: "list_at (s\<lparr>list_nodes := ?m\<rparr>) (l\<lparr>list_tail := p\<rparr>) (ps @ [p])"
    using l nt(2) by (auto simp: list_at_def)
  have "fld ll_data ?m = fld ll_data (list_nodes s)" using n nt by (auto simp: fld_def fun_eq_iff)
  moreover have "dom ?m = dom (list_nodes s)" using n nt by auto
  ultimately show thesis using tin by (intro that [OF run at]) auto
qed

lemma unlink_run:
  assumes l: "list_at s l (ps @ p # qs)" and n: "list_nodes s p = Some n"
  obtains l' m where "list_unlink l n s = Inr (l', s\<lparr>list_nodes := m\<rparr>)"
    "list_at (s\<lparr>list_nodes := m\<rparr>) l' (ps @ qs)" "m p = Some n" "fld ll_data m = fld ll_data (list_nodes s)"
    "\<And>q. q \<notin> set (ps @ qs) \<Longrightarrow> m q = list_nodes s q" "dom m = dom (list_nodes s)"
proof -
  note d = list_at_dll [OF l]
  let ?nx = "ll_next n" and ?pv = "ll_prev n"
  have f: "fld ll_next (list_nodes s) p = ?nx" "fld ll_prev (list_nodes s) p = ?pv" using n by (simp_all add: fld_def)
  have pv: "?pv = (if ps = [] then 0 else last ps)" and nx: "?nx = (if qs = [] then 0 else hd qs)"
    using dll_prev [OF d] dll_next [OF d] f by simp_all
  have dist: "distinct (ps @ p # qs)" and nz: "0 \<notin> set (ps @ p # qs)" using dll_distinct [OF d] dll_nonnull [OF d] by blast+
  have pvin: "?pv \<noteq> 0 \<Longrightarrow> ?pv \<in> set ps" and nxin: "?nx \<noteq> 0 \<Longrightarrow> ?nx \<in> set qs" using pv nx by (auto split: if_splits)
  have ne: "?pv \<noteq> p" "?nx \<noteq> p" "?nx \<noteq> ?pv \<or> ?nx = 0" using pvin nxin dist nz by auto
  define m1 where "m1 = (if ?pv = 0 then list_nodes s else (list_nodes s)(?pv \<mapsto> (the (list_nodes s ?pv))\<lparr>ll_next := ?nx\<rparr>))"
  define m2 where "m2 = (if ?nx = 0 then m1 else m1(?nx \<mapsto> (the (list_nodes s ?nx))\<lparr>ll_prev := ?pv\<rparr>))"
  define l1 where "l1 = (if ?pv = 0 then l\<lparr>list_head := ?nx\<rparr> else l)"
  define l2 where "l2 = (if ?nx = 0 then l1\<lparr>list_tail := ?pv\<rparr> else l1)"
  have ex: "?pv \<noteq> 0 \<Longrightarrow> \<exists>x. list_nodes s ?pv = Some x \<and> list_is_owner x \<noteq> 0"
    "?nx \<noteq> 0 \<Longrightarrow> \<exists>x. list_nodes s ?nx = Some x \<and> list_is_owner x \<noteq> 0"
    using list_at_node [OF l] pvin nxin by auto
  have r1: "(if ?pv \<noteq> NULL then thn (assign list_nodes list_nodes_update ?pv (\<lambda>p. p\<lparr>ll_next := ?nx\<rparr>)) (ret l)
       else ret (l\<lparr>list_head := ?nx\<rparr>)) s = Inr (l1, s\<lparr>list_nodes := m1\<rparr>)"
    using ex(1) by (auto simp: m1_def l1_def)
  have "?nx \<noteq> 0 \<Longrightarrow> m1 ?nx = list_nodes s ?nx" using ne(3) by (auto simp: m1_def)
  then have r2: "(if ?nx \<noteq> NULL then thn (assign list_nodes list_nodes_update ?nx (\<lambda>q. q\<lparr>ll_prev := ?pv\<rparr>)) (ret l1)
       else ret (l1\<lparr>list_tail := ?pv\<rparr>)) (s\<lparr>list_nodes := m1\<rparr>) = Inr (l2, s\<lparr>list_nodes := m2\<rparr>)"
    using ex(2) by (auto simp: m2_def l2_def)
  have "fld ll_next m2 = (if ?pv = 0 then fld ll_next (list_nodes s) else (fld ll_next (list_nodes s))(?pv := ?nx))"
    using ex ne(3) by (auto simp: fld_def fun_eq_iff m1_def m2_def)
  moreover have "fld ll_prev m2 = (if ?nx = 0 then fld ll_prev (list_nodes s) else (fld ll_prev (list_nodes s))(?nx := ?pv))"
    using ex ne(3) by (auto simp: fld_def fun_eq_iff m1_def m2_def)
  moreover have "list_head l2 = (if ?pv = 0 then ?nx else list_head l)" "list_tail l2 = (if ?nx = 0 then ?pv else list_tail l)"
    by (simp_all add: l1_def l2_def)
  ultimately have "dll (fld ll_next m2) (fld ll_prev m2) (list_head l2) (list_tail l2) (ps @ qs)"
    using dll_unlink [OF d] by (simp only: f)
  moreover have "\<exists>x. m2 q = Some x \<and> list_is_owner x \<noteq> 0" if "q \<in> set (ps @ qs)" for q
    using that list_at_node [OF l, of q] ex by (auto simp: m1_def m2_def)
  ultimately have "list_at (s\<lparr>list_nodes := m2\<rparr>) l2 (ps @ qs)" by (simp add: list_at_def)
  moreover have "m2 p = Some n" using ne n by (auto simp: m1_def m2_def)
  moreover have "fld ll_data m2 = fld ll_data (list_nodes s)" using ex by (auto simp: fld_def fun_eq_iff m1_def m2_def)
  moreover have "dom m2 = dom (list_nodes s)" using ex by (auto simp: m1_def m2_def)
  moreover have "m2 q = list_nodes s q" if "q \<notin> set (ps @ qs)" for q using that pvin nxin by (auto simp: m1_def m2_def)
  moreover have "list_unlink l n s = Inr (l2, s\<lparr>list_nodes := m2\<rparr>)"
    unfolding list_unlink_def bnd_run r1 sum.case prod.case by (rule r2)
  ultimately show thesis by (intro that [of l2 m2]) simp_all
qed

context kernel_allocator
begin

text \<open>\<open>linked_list_insert\<close> appends a node of its own; the nodes of other lists stay what they are.\<close>

lemma linked_list_insert_run:
  assumes i: "inv (kalloc s) (room + 4184) L" and d: "dom (list_nodes s) \<subseteq> dom L" and l: "list_at s l ps"
  obtains (inserted) l' p m h k where
      "linked_list_insert malloc mfree l data s = Inr ((0, l', Some p), s\<lparr>kalloc := h, list_nodes := m\<rparr>)"
      "list_at (s\<lparr>kalloc := h, list_nodes := m\<rparr>) l' (ps @ [p])" "p \<notin> set ps" "p \<noteq> NULL"
      "list_data (s\<lparr>kalloc := h, list_nodes := m\<rparr>) (ps @ [p]) = list_data s ps @ [data]"
      "list_nodes s p = None" "L p = None" "inv h room (L(p \<mapsto> k))" "dom m = insert p (dom (list_nodes s))"
      "\<And>q. q \<notin> set ps \<Longrightarrow> q \<noteq> p \<Longrightarrow> m q = list_nodes s q"
  | (no_memory) h where "linked_list_insert malloc mfree l data s = Inr ((-1, l, None), s\<lparr>kalloc := h\<rparr>)" "inv h room L"
      "refuses malloc LIST_NODE_SIZE (kalloc s)"
proof -
  let ?n = "\<lparr>ll_data = data, ll_next = NULL, ll_prev = NULL, list_is_owner = 1\<rparr>"
  have i': "inv (kalloc s) (room + unat LIST_NODE_SIZE + 4152) L" using i by (simp add: LIST_NODE_SIZE_def add.commute [of 4184])
  show thesis
  proof (rule new_object_run [where put = list_nodes_update and x = ?n, OF i'])
    fix h assume "new_object malloc LIST_NODE_SIZE list_nodes_update ?n s = Inr (NULL, s\<lparr>kalloc := h\<rparr>)" "inv h room L"
      "refuses malloc LIST_NODE_SIZE (kalloc s)"
    then show thesis by (intro no_memory) (simp_all add: linked_list_insert_def)
  next
    fix h p k assume new: "new_object malloc LIST_NODE_SIZE list_nodes_update ?n s =
        Inr (p, list_nodes_update (\<lambda>m. m(p \<mapsto> ?n)) (s\<lparr>kalloc := h\<rparr>))" "p \<noteq> NULL" "L p = None"
      "unat LIST_NODE_SIZE \<le> k" "inv h room (L(p \<mapsto> k))"
    let ?s = "s\<lparr>kalloc := h, list_nodes := (list_nodes s)(p \<mapsto> ?n)\<rparr>"
    have e: "list_nodes_update (\<lambda>m. m(p \<mapsto> ?n)) (s\<lparr>kalloc := h\<rparr>) = ?s" by simp
    have fresh: "list_nodes s p = None" using d new(3) by auto
    have out: "p \<notin> set ps" using list_at_node [OF l, of p] fresh by auto
    have l1: "list_at ?s l ps" using out l by (subst list_at_cong [where s = s]) auto
    show thesis
    proof (rule insert_node_run [OF l1 new(2) out, where d = data])
      show "list_nodes ?s p = Some ?n" by simp
    next
      fix l' m assume *: "linked_list_insert_node l p ?s = Inr ((0, l'), ?s\<lparr>list_nodes := m\<rparr>)"
        "list_at (?s\<lparr>list_nodes := m\<rparr>) l' (ps @ [p])" "fld ll_data m = fld ll_data (list_nodes ?s)"
        "\<And>q. q \<notin> set ps \<Longrightarrow> q \<noteq> p \<Longrightarrow> m q = list_nodes ?s q" "dom m = dom (list_nodes ?s)"
      have run: "linked_list_insert malloc mfree l data s = Inr ((0, l', Some p), s\<lparr>kalloc := h, list_nodes := m\<rparr>)"
        using new(1) [unfolded e] new(2) *(1) by (simp add: linked_list_insert_def)
      have "list_data (s\<lparr>kalloc := h, list_nodes := m\<rparr>) (ps @ [p]) = list_data s ps @ [data]"
        using *(3) out by (simp add: list_data_def)
      then show thesis using *(2,4,5) new(2,3,5) fresh out by (intro inserted [OF run]) auto
    qed
  qed
qed

text \<open>\<open>linked_list_remove\<close> unlinks a node of the list and frees it.\<close>

lemma linked_list_remove_run:
  assumes i: "inv (kalloc s) room L" and d: "dom (list_nodes s) \<subseteq> dom L" and l: "list_at s l (ps @ p # qs)"
  obtains l' m h where "linked_list_remove mfree l p s = Inr ((0, l'), s\<lparr>kalloc := h, list_nodes := m\<rparr>)"
    "list_at (s\<lparr>kalloc := h, list_nodes := m\<rparr>) l' (ps @ qs)"
    "list_data (s\<lparr>kalloc := h, list_nodes := m\<rparr>) (ps @ qs) = list_data s (ps @ qs)"
    "inv h room (L(p := None))" "dom m = dom (list_nodes s) - {p}"
    "\<And>q. q \<notin> set (ps @ p # qs) \<Longrightarrow> m q = list_nodes s q"
proof -
  have nz: "p \<noteq> 0" and dist: "p \<notin> set (ps @ qs)"
    using dll_nonnull [OF list_at_dll [OF l]] dll_distinct [OF list_at_dll [OF l]] by auto
  obtain n where n: "list_nodes s p = Some n" "list_is_owner n \<noteq> 0" using list_at_node [OF l, of p] by auto
  obtain k where k: "L p = Some k" using d n by auto
  show thesis
  proof (rule unlink_run [OF l n(1)])
    fix l' m assume u: "list_unlink l n s = Inr (l', s\<lparr>list_nodes := m\<rparr>)"
      "list_at (s\<lparr>list_nodes := m\<rparr>) l' (ps @ qs)" "m p = Some n" "fld ll_data m = fld ll_data (list_nodes s)"
      "\<And>q. q \<notin> set (ps @ qs) \<Longrightarrow> m q = list_nodes s q" "dom m = dom (list_nodes s)"
    let ?s = "s\<lparr>list_nodes := m(p \<mapsto> n\<lparr>ll_next := NULL, ll_prev := NULL\<rparr>)\<rparr>"
    have "inv (kalloc (list_nodes_update (\<lambda>m. m(p := None)) ?s)) room L" using i by simp
    then obtain h where f: "free_object mfree list_nodes_update p ?s =
        Inr ((), (list_nodes_update (\<lambda>m. m(p := None)) ?s)\<lparr>kalloc := h\<rparr>)" "inv h room (L(p := None))"
      using k by (rule free_object_run)
    let ?m = "m(p := None)"
    have run: "linked_list_remove mfree l p s = Inr ((0, l'), s\<lparr>kalloc := h, list_nodes := ?m\<rparr>)"
      using u(1,3) n f(1) nz by (simp add: linked_list_remove_def comp_def)
    have "list_at (s\<lparr>kalloc := h, list_nodes := ?m\<rparr>) l' (ps @ qs)"
      using u(2) dist by (subst list_at_cong [where s = "s\<lparr>list_nodes := m\<rparr>"]) auto
    moreover have "list_data (s\<lparr>kalloc := h, list_nodes := ?m\<rparr>) (ps @ qs) = list_data s (ps @ qs)"
      using u(4) dist by (auto simp: list_data_def fld_def fun_eq_iff)
    ultimately show thesis using u(5,6) f(2) by (intro that [OF run]) auto
  qed
qed

end
section \<open>Destroying a list\<close>

lemma destroy_nodes_null [simp]: "destroy_nodes mfree NULL s = Some (Inr ((), s))"
  by (subst destroy_nodes.simps) simp

context kernel_allocator
begin

lemma destroy_nodes_run:
  assumes "inv (kalloc s) room L" "dom (list_nodes s) \<subseteq> dom L"
    "dseg (fld ll_next (list_nodes s)) (fld ll_prev (list_nodes s)) b x ps t 0"
    "\<forall>p \<in> set ps. \<exists>n. list_nodes s p = Some n \<and> list_is_owner n \<noteq> 0"
  shows "\<exists>h. destroy_nodes mfree x s = Some (Inr ((), s\<lparr>kalloc := h, list_nodes := list_nodes s |` (- set ps)\<rparr>)) \<and>
    inv h room (L |` (- set ps))"
  using assms
proof (induction ps arbitrary: b x s L)
  case Nil
  then show ?case by (intro exI [of _ "kalloc s"]) (simp add: restrict_map_def)
next
  case (Cons p ps)
  obtain n where n: "list_nodes s p = Some n" "list_is_owner n \<noteq> 0" using Cons.prems(4) by auto
  obtain k where k: "L p = Some k" using Cons.prems(2) n by auto
  have dist: "p \<notin> set ps" using dseg_null_distinct [OF Cons.prems(3)] by simp
  have x: "x = p" "p \<noteq> 0" and seg: "dseg (fld ll_next (list_nodes s)) (fld ll_prev (list_nodes s)) p (ll_next n) ps t 0"
    using Cons.prems(3) fld_Some [where f = ll_next and m = "list_nodes s" and p = p and h = n, OF n(1)] by simp_all
  have "inv (kalloc (list_nodes_update (\<lambda>m. m(p := None)) s)) room L" using Cons.prems(1) by simp
  then obtain h where f: "free_object mfree list_nodes_update p s =
      Inr ((), (list_nodes_update (\<lambda>m. m(p := None)) s)\<lparr>kalloc := h\<rparr>)" "inv h room (L(p := None))"
    using k by (rule free_object_run)
  let ?s = "s\<lparr>kalloc := h, list_nodes := (list_nodes s)(p := None)\<rparr>"
  have e: "(list_nodes_update (\<lambda>m. m(p := None)) s)\<lparr>kalloc := h\<rparr> = ?s" by simp
  have seg': "dseg (fld ll_next (list_nodes ?s)) (fld ll_prev (list_nodes ?s)) p (ll_next n) ps t 0"
    using seg dist by (subst dseg_cong [where nx' = "fld ll_next (list_nodes s)" and pv' = "fld ll_prev (list_nodes s)"])
      (auto simp: fld_def)
  have own: "\<forall>q \<in> set ps. \<exists>n. list_nodes ?s q = Some n \<and> list_is_owner n \<noteq> 0" using Cons.prems(4) dist by auto
  have dm: "dom (list_nodes ?s) \<subseteq> dom (L(p := None))" using Cons.prems(2) by auto
  have i': "inv (kalloc ?s) room (L(p := None))" using f(2) by simp
  obtain h' where h': "destroy_nodes mfree (ll_next n) ?s =
      Some (Inr ((), ?s\<lparr>kalloc := h', list_nodes := list_nodes ?s |` (- set ps)\<rparr>))" "inv h' room ((L(p := None)) |` (- set ps))"
    using Cons.IH [OF i' dm seg' own] by (elim exE conjE)
  have r: "m(p := None) |` (- set ps) = m |` (- set (p # ps))" for m :: "u64 \<rightharpoonup> 'x"
    by (auto simp: restrict_map_def fun_eq_iff)
  have "destroy_nodes mfree x s =
      Some (Inr ((), s\<lparr>kalloc := h', list_nodes := list_nodes s |` (- set (p # ps))\<rparr>))"
    using h'(1) n x f(1) [unfolded e] r [of "list_nodes s"] by (subst destroy_nodes.simps) simp
  moreover have "inv h' room (L |` (- set (p # ps)))" using h'(2) by (simp only: r)
  ultimately show ?case by blast
qed

text \<open>\<open>linked_list_destroy\<close> ends, and frees all nodes of the list.\<close>

lemma linked_list_destroy_run:
  assumes i: "inv (kalloc s) room L" and d: "dom (list_nodes s) \<subseteq> dom L" and l: "list_at s l ps"
  shows "\<exists>h. linked_list_destroy mfree l s = Inr ((0, \<lparr>list_head = NULL, list_tail = NULL\<rparr>),
      s\<lparr>kalloc := h, list_nodes := list_nodes s |` (- set ps)\<rparr>) \<and> inv h room (L |` (- set ps))"
  using destroy_nodes_run [OF i d, of 0 "list_head l" ps "list_tail l"] l
  by (auto simp: linked_list_destroy_def list_at_def dll_def)

end

end
