(* ===== verification/Handle_Table.thy ===== *)
theory Handle_Table
  imports Vector
begin

text \<open>
  \<open>kernel/utils/handle_table.c\<close>: objects by number, and \<open>kernel/process/fd_table.c\<close>, the table of a
  process, which delegates to it. The slots are \<open>uint64_t\<close>s in a vector, little endian; a slot that
  was removed holds 0.
\<close>

type_synonym i64 = "64 word"

section \<open>Handle tables\<close>

record handle_table =
  handles :: vector

definition handle_table_init ::
  "'h malloc_fn \<Rightarrow> handle_table \<Rightarrow> u64 \<Rightarrow> (('h, 'z) kmem_scheme, int \<times> handle_table) prog" where
  "handle_table_init malloc ht capacity =
     (if capacity = 0 then ret (-1, ht)
      else bnd (vector_init malloc (handles ht) capacity 8) (\<lambda>(r, v).
        if r < 0 then ret (-1, ht\<lparr>handles := v\<rparr>) else ret (0, ht\<lparr>handles := v\<rparr>)))"

definition handle_table_destroy ::
  "'h free_fn \<Rightarrow> handle_table \<Rightarrow> (('h, 'z) kmem_scheme, int \<times> handle_table) prog" where
  "handle_table_destroy mfree ht =
     bnd (vector_destroy mfree (handles ht)) (\<lambda>(r, v).
     if r < 0 then ret (-1, ht\<lparr>handles := v\<rparr>)
     else ret (0, ht\<lparr>handles := \<lparr>vector_data = 0, vector_size = 0, vector_capacity = 0, vector_element_size = 0\<rparr>\<rparr>))"

definition handle_table_insert ::
  "'h malloc_fn \<Rightarrow> 'h free_fn \<Rightarrow> handle_table \<Rightarrow> u64
     \<Rightarrow> (('h, 'z) kmem_scheme, int \<times> handle_table \<times> i64 option) prog" where
  "handle_table_insert malloc mfree ht data =
     (if data = NULL then ret (-1, ht, None)
      else bnd (vector_push_back malloc mfree (handles ht) (Some (le_bytes 8 data))) (\<lambda>(r, v).
        if r < 0 then ret (-1, ht\<lparr>handles := v\<rparr>, None)
        else ret (0, ht\<lparr>handles := v\<rparr>, Some (vector_size v - 1))))"

text \<open>The guards of the other operations: \<open>handle < 0\<close>, and the comparison of \<open>int32_t\<close>s.\<close>

definition invalid_handle :: "handle_table \<Rightarrow> i64 \<Rightarrow> bool" where
  "invalid_handle ht handle \<longleftrightarrow> handle <s 0 \<or>
     (ucast (vector_size (handles ht)) :: i32) <=s (ucast handle :: i32)"

definition handle_table_remove :: "handle_table \<Rightarrow> i64 \<Rightarrow> (('h, 'z) kmem_scheme, int) prog" where
  "handle_table_remove ht handle =
     (if invalid_handle ht handle then ret (-1)
      else bnd (vector_set (handles ht) handle (Some (le_bytes 8 0))) (\<lambda>r.
        if r < 0 then ret (-1) else ret 0))"

definition handle_table_get :: "handle_table \<Rightarrow> i64 \<Rightarrow> (('h, 'z) kmem_scheme, int \<times> u64 option) prog" where
  "handle_table_get ht handle =
     (if invalid_handle ht handle then ret (-1, None)
      else case vector_get (handles ht) handle of
        (r, item) \<Rightarrow> if r < 0 then ret (-1, None)
          else bnd (read_u64 (case item of None \<Rightarrow> NULL | Some p \<Rightarrow> p)) (\<lambda>data. ret (0, Some data)))"

definition handle_table_set :: "handle_table \<Rightarrow> i64 \<Rightarrow> u64 \<Rightarrow> (('h, 'z) kmem_scheme, int) prog" where
  "handle_table_set ht handle data =
     (if data = NULL \<or> invalid_handle ht handle then ret (-1)
      else bnd (vector_set (handles ht) handle (Some (le_bytes 8 data))) (\<lambda>r.
        if r < 0 then ret (-1) else ret 0))"

section \<open>File descriptor tables\<close>

record fd_table =
  fd_handles :: handle_table

definition DEFAULT_FD_TABLE_CAPACITY :: u64 where "DEFAULT_FD_TABLE_CAPACITY = 64"

definition fd_table_init :: "'h malloc_fn \<Rightarrow> fd_table \<Rightarrow> (('h, 'z) kmem_scheme, int \<times> fd_table) prog" where
  "fd_table_init malloc t =
     bnd (handle_table_init malloc (fd_handles t) DEFAULT_FD_TABLE_CAPACITY) (\<lambda>(r, ht).
     if r < 0 then ret (-1, t\<lparr>fd_handles := ht\<rparr>) else ret (0, t\<lparr>fd_handles := ht\<rparr>))"

definition fd_table_destroy :: "'h free_fn \<Rightarrow> fd_table \<Rightarrow> (('h, 'z) kmem_scheme, int \<times> fd_table) prog" where
  "fd_table_destroy mfree t =
     bnd (handle_table_destroy mfree (fd_handles t)) (\<lambda>(r, ht).
     if r < 0 then ret (-1, t\<lparr>fd_handles := ht\<rparr>) else ret (0, t\<lparr>fd_handles := ht\<rparr>))"

definition fd_table_open ::
  "'h malloc_fn \<Rightarrow> 'h free_fn \<Rightarrow> fd_table \<Rightarrow> u64 \<Rightarrow> (('h, 'z) kmem_scheme, int \<times> fd_table \<times> i64 option) prog" where
  "fd_table_open malloc mfree t file =
     (if file = NULL then ret (-1, t, None)
      else bnd (handle_table_insert malloc mfree (fd_handles t) file) (\<lambda>(r, ht, fd).
        if r < 0 then ret (-1, t\<lparr>fd_handles := ht\<rparr>, fd) else ret (0, t\<lparr>fd_handles := ht\<rparr>, fd)))"

definition fd_table_close :: "fd_table \<Rightarrow> i64 \<Rightarrow> (('h, 'z) kmem_scheme, int) prog" where
  "fd_table_close t fd =
     (if fd <s 0 then ret (-1)
      else bnd (handle_table_remove (fd_handles t) fd) (\<lambda>r. if r < 0 then ret (-1) else ret 0))"

definition fd_table_get :: "fd_table \<Rightarrow> i64 \<Rightarrow> (('h, 'z) kmem_scheme, int \<times> u64 option) prog" where
  "fd_table_get t fd = (if fd <s 0 then ret (-1, None) else handle_table_get (fd_handles t) fd)"

section \<open>Correctness\<close>

text \<open>The table as the list of its slots.\<close>

definition handle_list :: "('h, 'z) kmem_scheme \<Rightarrow> handle_table \<Rightarrow> u64 list" where
  "handle_list s ht = map of_le_bytes (vector_elems s (handles ht))"

definition handle_table_ok :: "('h, 'z) kmem_scheme \<Rightarrow> handle_table \<Rightarrow> bool" where
  "handle_table_ok s ht \<longleftrightarrow> vector_ok s (handles ht) \<and> vector_element_size (handles ht) = 8 \<and>
     unat (vector_size (handles ht)) < 2 ^ 31"

lemma handle_list_length [simp]: "length (handle_list s ht) = unat (vector_size (handles ht))"
  by (simp add: handle_list_def)

lemma uint_small: "unat (w :: u64) < 2 ^ 31 \<Longrightarrow> uint w < 2 ^ 31"
  by (simp add: uint_nat del: of_nat_unat)

lemma sint_u32_small:
  assumes "unat (w :: u64) < 2 ^ 31" shows "sint (ucast w :: i32) = uint w"
proof -
  have u: "uint w < 2 ^ 31" using assms by (rule uint_small)
  then have "uint (ucast w :: i32) = uint w"
    by (simp add: unsigned_ucast_eq take_bit_int_eq_self)
  moreover have "signed_take_bit 31 (uint w) = uint w"
    by (rule signed_take_bit_int_eq_self) (use u in \<open>simp_all add: order_trans [OF _ uint_ge_0]\<close>)
  ultimately show ?thesis by (simp add: sint_uint)
qed

lemma not_negative_small:
  assumes "unat (w :: u64) < 2 ^ 31" shows "\<not> w <s 0"
proof -
  have "uint w < 2 ^ 31" using assms by (rule uint_small)
  then have "signed_take_bit 63 (uint w) = uint w"
    by (intro signed_take_bit_int_eq_self) (simp_all add: order_trans [OF _ uint_ge_0])
  then have "sint w = uint w" by (simp add: sint_uint)
  then show ?thesis by (simp add: word_sless_alt)
qed

lemma valid_handle:
  assumes "handle_table_ok s ht" "h < vector_size (handles ht)" shows "\<not> invalid_handle ht h"
proof -
  have b: "unat h < 2 ^ 31" "unat (vector_size (handles ht)) < 2 ^ 31"
    using assms by (simp_all add: handle_table_ok_def word_less_nat_alt)
  have "uint h < uint (vector_size (handles ht))" using assms(2) by (simp add: word_less_def)
  then show ?thesis using b by (simp add: invalid_handle_def not_negative_small word_sle_eq sint_u32_small)
qed

lemma handle_list_nth:
  "i < unat (vector_size (handles ht)) \<Longrightarrow> vector_element_size (handles ht) = 8 \<Longrightarrow>
   handle_list s ht ! i = of_le_bytes (bytes_at (ram s) (vector_data (handles ht) + of_nat i * 8) 8)"
  using chunk_fits [of i "unat (vector_size (handles ht))" 8]
  by (simp add: handle_list_def vector_elems_def vector_bytes_def bytes_at_part)

lemma vector_elem_access:
  assumes b: "buffers_ok s L" and v: "vector_ok s v" and i: "i < vector_size v"
  shows "can_access s (vector_data v + i * vector_element_size v) (unat (vector_element_size v))"
proof -
  have "unat i < unat (vector_capacity v)" using i v by (simp add: vector_ok_def word_less_nat_alt word_le_nat_alt)
  then have f: "unat i * unat (vector_element_size v) + unat (vector_element_size v) \<le>
      unat (vector_capacity v) * unat (vector_element_size v)" by (rule chunk_fits)
  have "raw s (vector_data v) = Some (vector_capacity v * vector_element_size v)" using v by (simp add: vector_ok_def)
  then have "can_access s (vector_data v) (unat (vector_capacity v) * unat (vector_element_size v))"
    using buffers_okD(2) [OF b] vector_ok_size(1) [OF v] by metis
  from can_access_part [OF this f] show ?thesis by simp
qed

text \<open>\<open>handle_table_get\<close> reads the slot of a handle that was given out, and refuses all others.\<close>

lemma handle_table_get_run:
  assumes b: "buffers_ok s L" and t: "handle_table_ok s ht"
  shows "handle_table_get ht h s =
    Inr (if unat h < length (handle_list s ht) then (0, Some (handle_list s ht ! unat h)) else (-1, None), s)"
proof (cases "h < vector_size (handles ht)")
  case True
  have es: "vector_element_size (handles ht) = 8" and v: "vector_ok s (handles ht)" using t by (simp_all add: handle_table_ok_def)
  have lt: "unat h < unat (vector_size (handles ht))" using True by (simp add: word_less_nat_alt)
  have "can_access s (vector_data (handles ht) + h * 8) 8" using vector_elem_access [OF b v True] es by simp
  then have "read_u64 (vector_data (handles ht) + h * 8) s = Inr (handle_list s ht ! unat h, s)"
    using lt es by (simp add: read_u64_def read_bytes_run handle_list_nth)
  then show ?thesis using valid_handle [OF t True] lt es True
    by (simp add: handle_table_get_def vector_get_def linorder_not_le)
next
  case False
  then have "\<not> unat h < unat (vector_size (handles ht))" by (simp add: word_less_nat_alt)
  then show ?thesis using False by (simp add: handle_table_get_def vector_get_def not_less)
qed

lemma handle_table_ok_bytes:
  assumes "handle_table_ok s ht" "vector_ok s' (handles ht)" shows "handle_table_ok s' ht"
  using assms by (simp add: handle_table_ok_def)

text \<open>A step that keeps the buffer of a table keeps the table.\<close>

lemma handle_table_kept:
  assumes t: "handle_table_ok s ht" and k: "kmem_step s L P s' L'" and p: "vector_data (handles ht) \<notin> P"
  shows "handle_table_ok s' ht" "handle_list s' ht = handle_list s ht"
proof -
  let ?v = "handles ht"
  have v: "vector_ok s ?v" using t by (simp add: handle_table_ok_def)
  then have r: "raw s (vector_data ?v) = Some (vector_capacity ?v * vector_element_size ?v)" by (simp add: vector_ok_def)
  note sz = vector_ok_size [OF v]
  have r': "raw s' (vector_data ?v) = Some (vector_capacity ?v * vector_element_size ?v)"
    and c: "bytes_at (ram s') (vector_data ?v) (unat (vector_capacity ?v) * unat (vector_element_size ?v)) =
      bytes_at (ram s) (vector_data ?v) (unat (vector_capacity ?v) * unat (vector_element_size ?v))"
    using kmem_stepD(2,3) [OF k p r] sz(1) by simp_all
  have "vector_ok s' ?v" using v r' unfolding vector_ok_def by blast
  then show "handle_table_ok s' ht" by (rule handle_table_ok_bytes [OF t])
  have "vector_bytes s' ?v = vector_bytes s ?v"
    using arg_cong [OF c, of "take (unat (vector_size ?v) * unat (vector_element_size ?v))"] sz(2)
    by (simp add: vector_bytes_def bytes_at_take)
  then show "handle_list s' ht = handle_list s ht" by (simp add: handle_list_def vector_elems_def)
qed

context kernel_allocator
begin

lemma slot_write_run:
  assumes i: "inv (kalloc s) room L" and b: "buffers_ok s L" and t: "handle_table_ok s ht"
    and h: "h < vector_size (handles ht)"
  obtains m where "vector_set (handles ht) h (Some (le_bytes 8 data)) s = Inr (0, s\<lparr>ram := m\<rparr>)"
    "handle_table_ok (s\<lparr>ram := m\<rparr>) ht" "handle_list (s\<lparr>ram := m\<rparr>) ht = (handle_list s ht)[unat h := data]"
    "kmem_step s L {vector_data (handles ht)} (s\<lparr>ram := m\<rparr>) L" "buffers_ok (s\<lparr>ram := m\<rparr>) L"
proof -
  have v: "vector_ok s (handles ht)" and x: "length (le_bytes 8 data) = unat (vector_element_size (handles ht))"
    using t by (simp_all add: handle_table_ok_def)
  show thesis
  proof (rule vector_set_run [OF i b v h x])
    fix m assume "vector_set (handles ht) h (Some (le_bytes 8 data)) s = Inr (0, s\<lparr>ram := m\<rparr>)" "vector_ok (s\<lparr>ram := m\<rparr>) (handles ht)"
      "vector_elems (s\<lparr>ram := m\<rparr>) (handles ht) = (vector_elems s (handles ht))[unat h := le_bytes 8 data]"
      "kmem_step s L {vector_data (handles ht)} (s\<lparr>ram := m\<rparr>) L" "buffers_ok (s\<lparr>ram := m\<rparr>) L"
    then show thesis by (intro that [of m] handle_table_ok_bytes [OF t]) (simp_all add: handle_list_def map_update le_bytes_roundtrip)
  qed
qed

text \<open>\<open>handle_table_remove\<close> and \<open>handle_table_set\<close> overwrite one slot.\<close>

lemma handle_table_remove_run:
  assumes i: "inv (kalloc s) room L" and b: "buffers_ok s L" and t: "handle_table_ok s ht"
    and h: "unat h < length (handle_list s ht)"
  obtains m where "handle_table_remove ht h s = Inr (0, s\<lparr>ram := m\<rparr>)" "handle_table_ok (s\<lparr>ram := m\<rparr>) ht"
    "handle_list (s\<lparr>ram := m\<rparr>) ht = (handle_list s ht)[unat h := 0]"
    "kmem_step s L {vector_data (handles ht)} (s\<lparr>ram := m\<rparr>) L" "buffers_ok (s\<lparr>ram := m\<rparr>) L"
proof -
  have h': "h < vector_size (handles ht)" using h by (simp add: word_less_nat_alt)
  show thesis
    by (rule slot_write_run [OF i b t h', of 0])
       (rule that, simp_all add: handle_table_remove_def valid_handle [OF t h'])
qed

lemma handle_table_insert_run:
  assumes i: "inv (kalloc s) (room + 2 * (unat (vector_capacity (handles ht)) * 8) + 4152) L"
    and b: "buffers_ok s L" and t: "handle_table_ok s ht" and d: "data \<noteq> NULL"
    and lt: "2 * (unat (vector_capacity (handles ht)) * 8) < 2 ^ 64" "length (handle_list s ht) + 1 < 2 ^ 31"
  obtains (inserted) ht' s' L' where
      "handle_table_insert malloc mfree ht data s = Inr ((0, ht', Some (of_nat (length (handle_list s ht)))), s')"
      "handle_table_ok s' ht'" "handle_list s' ht' = handle_list s ht @ [data]"
      "inv (kalloc s') room L'" "buffers_ok s' L'" "kmem_step s L {vector_data (handles ht)} s' L'"
      "vector_data (handles ht') = vector_data (handles ht) \<or> L (vector_data (handles ht')) = None"
  | (no_memory) ht' h where "handle_table_insert malloc mfree ht data s = Inr ((-1, ht', None), s\<lparr>kalloc := h\<rparr>)"
      "inv h room L" "buffers_ok (s\<lparr>kalloc := h\<rparr>) L" "vector_size (handles ht) = vector_capacity (handles ht)"
      "refuses malloc (vector_capacity (handles ht) * 2 * 8) (kalloc s)"
proof -
  have v: "vector_ok s (handles ht)" and es: "vector_element_size (handles ht) = 8" using t by (simp_all add: handle_table_ok_def)
  have x: "length (le_bytes 8 data) = unat (vector_element_size (handles ht))" using es by simp
  have i': "inv (kalloc s) (room + 2 * (unat (vector_capacity (handles ht)) * unat (vector_element_size (handles ht))) + 4152) L"
    and lt': "2 * (unat (vector_capacity (handles ht)) * unat (vector_element_size (handles ht))) < 2 ^ 64"
    using i lt(1) es by simp_all
  show thesis
  proof (rule vector_push_back_run [OF i' b v x lt'])
    fix v' s' L' assume p: "vector_push_back malloc mfree (handles ht) (Some (le_bytes 8 data)) s = Inr ((0, v'), s')"
      "vector_ok s' v'" "vector_elems s' v' = vector_elems s (handles ht) @ [le_bytes 8 data]" "inv (kalloc s') room L'"
      "buffers_ok s' L'" "kmem_step s L {vector_data (handles ht)} s' L'"
      "vector_element_size v' = vector_element_size (handles ht)" "vector_data v' = vector_data (handles ht) \<or> L (vector_data v') = None"
    have n: "unat (vector_size v') = Suc (unat (vector_size (handles ht)))"
      using arg_cong [OF p(3), of length] by simp
    have "vector_size v' = of_nat (unat (vector_size v'))" by simp
    also have "\<dots> = vector_size (handles ht) + 1" unfolding n by simp
    finally have "vector_size v' - 1 = of_nat (unat (vector_size (handles ht)))" by simp
    then have run: "handle_table_insert malloc mfree ht data s = Inr ((0, ht\<lparr>handles := v'\<rparr>, Some (of_nat (length (handle_list s ht)))), s')"
      using d p(1) by (simp add: handle_table_insert_def)
    show thesis
      by (rule inserted [OF run _ _ p(4,5,6)])
         (use p(2,3,7,8) es lt(2) n in \<open>simp_all add: handle_table_ok_def handle_list_def le_bytes_roundtrip\<close>)
  next
    fix h assume "vector_push_back malloc mfree (handles ht) (Some (le_bytes 8 data)) s =
        Inr ((-1, (handles ht)\<lparr>vector_capacity := vector_capacity (handles ht) * 2\<rparr>), s\<lparr>kalloc := h\<rparr>)"
      "vector_size (handles ht) = vector_capacity (handles ht)" "inv h room L" "buffers_ok (s\<lparr>kalloc := h\<rparr>) L"
      "refuses malloc (vector_capacity (handles ht) * 2 * vector_element_size (handles ht)) (kalloc s)"
    then show thesis using d es by (intro no_memory) (simp_all add: handle_table_insert_def)
  qed
qed

end

end
