(* ===== verification/Hash_Table.thy ===== *)
theory Hash_Table
  imports Linked_List Handle_Table
begin

text \<open>
  \<open>kernel/utils/hash_table.c\<close> (and its copy in \<open>libraries/libcommon\<close>): a hash table with chaining.
  The array of buckets is a buffer of the heap; the nodes of the chains are a typed heap. A key is a
  number when its size is 0, and otherwise the address of that many bytes, so that comparing and
  hashing keys reads memory.
\<close>

section \<open>The operations\<close>

record hash_key =
  key_u64 :: u64
  key_size :: u64

record hash_node =
  node_key :: hash_key
  node_data :: u64
  node_next :: u64
  node_prev :: u64

record hash_table =
  buckets :: u64
  bucket_count :: u64
  node_count :: u64

record 'h hash_mem = "'h list_mem" +
  hash_nodes :: "u64 \<rightharpoonup> hash_node"

definition OFFSET_BASIS :: u64 where "OFFSET_BASIS = 14695981039346656037"
definition PRIME :: u64 where "PRIME = 1099511628211"

definition HASH_NODE_SIZE :: u64 where "HASH_NODE_SIZE = 40"

definition is_power_of_2 :: "u64 \<Rightarrow> bool" where
  "is_power_of_2 v \<longleftrightarrow> v AND (v - 1) = 0"

fun clear_buckets :: "nat \<Rightarrow> u64 \<Rightarrow> (('h, 'z) kmem_scheme, unit) prog" where
  "clear_buckets 0 p = ret ()"
| "clear_buckets (Suc n) p = thn (write_bytes p (le_bytes 8 NULL)) (clear_buckets n (p + 8))"

definition hash_table_init ::
  "'h malloc_fn \<Rightarrow> hash_table \<Rightarrow> u64 \<Rightarrow> (('h, 'z) kmem_scheme, int \<times> hash_table) prog" where
  "hash_table_init malloc ht count =
     (if count = 0 then ret (-1, ht)
      else if \<not> is_power_of_2 count then ret (-1, ht)
      else bnd (new_buffer malloc (count * 8)) (\<lambda>b.
        if b = NULL then ret (-1, ht\<lparr>buckets := NULL\<rparr>)
        else thn (clear_buckets (unat count) b)
          (ret (0, \<lparr>buckets = b, bucket_count = count, node_count = 0\<rparr>))))"

partial_function (option) destroy_chain ::
  "'h free_fn \<Rightarrow> u64 \<Rightarrow> ('h, 'z) hash_mem_scheme \<Rightarrow> (fault + unit \<times> ('h, 'z) hash_mem_scheme) option" where
  "destroy_chain mfree node s =
     (if node = NULL then Some (Inr ((), s))
      else case hash_nodes s node of None \<Rightarrow> Some (Inl Bad_Access)
      | Some n \<Rightarrow> (case free_object mfree hash_nodes_update node s of
             Inl e \<Rightarrow> Some (Inl e)
           | Inr (u, s') \<Rightarrow> destroy_chain mfree (node_next n) s'))"

fun destroy_buckets :: "'h free_fn \<Rightarrow> nat \<Rightarrow> u64 \<Rightarrow> (('h, 'z) hash_mem_scheme, unit) prog" where
  "destroy_buckets mfree 0 p = ret ()"
| "destroy_buckets mfree (Suc n) p =
     bnd (read_u64 p) (\<lambda>node.
     thn (if node = NULL then ret ()
          else thn (\<lambda>s. loop (destroy_chain mfree node s)) (write_bytes p (le_bytes 8 NULL)))
         (destroy_buckets mfree n (p + 8)))"

definition hash_table_destroy ::
  "'h free_fn \<Rightarrow> hash_table \<Rightarrow> (('h, 'z) hash_mem_scheme, int \<times> hash_table) prog" where
  "hash_table_destroy mfree ht =
     thn (destroy_buckets mfree (unat (bucket_count ht)) (buckets ht))
    (thn (free_buffer mfree (buckets ht))
         (ret (0, \<lparr>buckets = NULL, bucket_count = 0, node_count = 0\<rparr>)))"

text \<open>FNV-1a.\<close>

fun hash_bytes :: "u64 \<Rightarrow> u8 list \<Rightarrow> u64" where
  "hash_bytes h [] = h"
| "hash_bytes h (b # bs) = hash_bytes ((h XOR ucast b) * PRIME) bs"

definition hash_function :: "u64 \<Rightarrow> u64 \<Rightarrow> (('h, 'z) kmem_scheme, u64) prog" where
  "hash_function data n = bnd (read_bytes (unat n) data) (\<lambda>bs. ret (hash_bytes OFFSET_BASIS bs))"

definition hash_key_to_index :: "hash_table \<Rightarrow> hash_key \<Rightarrow> (('h, 'z) kmem_scheme, u64) prog" where
  "hash_key_to_index ht key =
     bnd (if key_size key = 0 then ret (hash_bytes OFFSET_BASIS (le_bytes 8 (key_u64 key)))
          else hash_function (key_u64 key) (key_size key)) (\<lambda>hash_value.
     ret (hash_value AND (bucket_count ht - 1)))"

definition key_matches :: "hash_node \<Rightarrow> hash_key \<Rightarrow> (('h, 'z) kmem_scheme, bool) prog" where
  "key_matches node key =
     (if key_size (node_key node) = 0 then ret (key_u64 (node_key node) = key_u64 key)
      else if key_size (node_key node) = key_size key
      then bnd (memory_compare (key_u64 (node_key node)) (key_u64 key) (key_size (node_key node))) (\<lambda>r. ret (r = 0))
      else ret False)"

partial_function (option) find_node_from ::
  "hash_key \<Rightarrow> u64 \<Rightarrow> ('h, 'z) hash_mem_scheme \<Rightarrow> (fault + u64 \<times> ('h, 'z) hash_mem_scheme) option" where
  "find_node_from key node s =
     (if node = NULL then Some (Inr (NULL, s))
      else case hash_nodes s node of None \<Rightarrow> Some (Inl Bad_Access)
      | Some n \<Rightarrow> (case key_matches n key s of
             Inl e \<Rightarrow> Some (Inl e)
           | Inr (b, s') \<Rightarrow> if b then Some (Inr (node, s')) else find_node_from key (node_next n) s'))"

definition find_node_by_bucket :: "hash_table \<Rightarrow> u64 \<Rightarrow> hash_key \<Rightarrow> (('h, 'z) hash_mem_scheme, u64) prog" where
  "find_node_by_bucket ht bucket_idx key =
     bnd (read_u64 (buckets ht + bucket_idx * 8)) (\<lambda>node. \<lambda>s. loop (find_node_from key node s))"

definition find_node :: "hash_table \<Rightarrow> hash_key \<Rightarrow> (('h, 'z) hash_mem_scheme, u64) prog" where
  "find_node ht key = bnd (hash_key_to_index ht key) (\<lambda>index. find_node_by_bucket ht index key)"

definition hash_table_get :: "hash_table \<Rightarrow> hash_key \<Rightarrow> (('h, 'z) hash_mem_scheme, int \<times> u64 option) prog" where
  "hash_table_get ht key =
     bnd (find_node ht key) (\<lambda>node.
     if node = NULL then ret (-1, None)
     else bnd (deref hash_nodes node) (\<lambda>n. ret (0, Some (node_data n))))"

text \<open>\<open>hash_table_set\<close>; first what it does when no node has the key.\<close>

definition hash_table_add ::
  "'h malloc_fn \<Rightarrow> hash_table \<Rightarrow> u64 \<Rightarrow> hash_key \<Rightarrow> (('h, 'z) hash_mem_scheme, hash_table \<times> u64) prog" where
  "hash_table_add malloc ht index key =
     bnd (new_object malloc HASH_NODE_SIZE hash_nodes_update
            \<lparr>node_key = key, node_data = 0, node_next = NULL, node_prev = NULL\<rparr>) (\<lambda>node.
     if node = NULL then ret (ht, NULL)
     else bnd (read_u64 (buckets ht + index * 8)) (\<lambda>list_head.
       thn (if list_head \<noteq> NULL
            then thn (assign hash_nodes hash_nodes_update node (\<lambda>n. n\<lparr>node_next := list_head\<rparr>))
                     (assign hash_nodes hash_nodes_update list_head (\<lambda>n. n\<lparr>node_prev := node\<rparr>))
            else ret ())
      (thn (write_bytes (buckets ht + index * 8) (le_bytes 8 node))
           (ret (ht\<lparr>node_count := node_count ht + 1\<rparr>, node)))))"

definition hash_table_set ::
  "'h malloc_fn \<Rightarrow> hash_table \<Rightarrow> hash_key \<Rightarrow> u64 \<Rightarrow> (('h, 'z) hash_mem_scheme, int \<times> hash_table) prog" where
  "hash_table_set malloc ht key data =
     (if data = NULL then ret (-1, ht)
      else bnd (hash_key_to_index ht key) (\<lambda>index.
        bnd (find_node_by_bucket ht index key) (\<lambda>node.
        bnd (if node = NULL then hash_table_add malloc ht index key else ret (ht, node)) (\<lambda>(ht, node).
        if node = NULL then ret (-1, ht)
        else thn (assign hash_nodes hash_nodes_update node (\<lambda>n. n\<lparr>node_data := data\<rparr>))
                 (ret (0, ht))))))"

definition hash_table_remove ::
  "'h free_fn \<Rightarrow> hash_table \<Rightarrow> hash_key \<Rightarrow> (('h, 'z) hash_mem_scheme, int) prog" where
  "hash_table_remove mfree ht key =
     bnd (hash_key_to_index ht key) (\<lambda>index.
     bnd (find_node_by_bucket ht index key) (\<lambda>node.
     if node = NULL then ret (-1)
     else bnd (read_u64 (buckets ht + index * 8)) (\<lambda>list_head.
       bnd (deref hash_nodes node) (\<lambda>n.
       thn (if list_head = node
            then thn (write_bytes (buckets ht + index * 8) (le_bytes 8 (node_next n)))
                     (assign hash_nodes hash_nodes_update (node_next n) (\<lambda>m. m\<lparr>node_prev := NULL\<rparr>))
            else thn (if node_prev n \<noteq> NULL
                      then assign hash_nodes hash_nodes_update (node_prev n) (\<lambda>m. m\<lparr>node_next := node_next n\<rparr>)
                      else ret ())
                     (if node_next n \<noteq> NULL
                      then assign hash_nodes hash_nodes_update (node_next n) (\<lambda>m. m\<lparr>node_prev := node_prev n\<rparr>)
                      else ret ()))
      (thn (free_object mfree hash_nodes_update node)
           (ret 0))))))"

definition hash_table_contains :: "hash_table \<Rightarrow> hash_key \<Rightarrow> (('h, 'z) hash_mem_scheme, bool) prog" where
  "hash_table_contains ht key = bnd (find_node ht key) (\<lambda>node. ret (node \<noteq> NULL))"

definition hash_key_create_data :: "u64 \<Rightarrow> u64 \<Rightarrow> hash_key" where
  "hash_key_create_data data n = \<lparr>key_u64 = data, key_size = n\<rparr>"

definition hash_key_create_u64 :: "u64 \<Rightarrow> hash_key" where
  "hash_key_create_u64 value = \<lparr>key_u64 = value, key_size = 0\<rparr>"

section \<open>Keys\<close>

text \<open>What a key stands for: its kind and its bytes.\<close>

definition key_bytes :: "('h, 'z) kmem_scheme \<Rightarrow> hash_key \<Rightarrow> u8 list" where
  "key_bytes s k = (if key_size k = 0 then le_bytes 8 (key_u64 k) else bytes_at (ram s) (key_u64 k) (unat (key_size k)))"

definition key_value :: "('h, 'z) kmem_scheme \<Rightarrow> hash_key \<Rightarrow> bool \<times> u8 list" where
  "key_value s k = (key_size k = 0, key_bytes s k)"

definition key_ok :: "('h, 'z) kmem_scheme \<Rightarrow> hash_key \<Rightarrow> bool" where
  "key_ok s k \<longleftrightarrow> key_size k \<noteq> 0 \<longrightarrow> can_access s (key_u64 k) (unat (key_size k))"

definition bucket_of :: "hash_table \<Rightarrow> bool \<times> u8 list \<Rightarrow> nat" where
  "bucket_of ht c = unat (hash_bytes OFFSET_BASIS (snd c) AND (bucket_count ht - 1))"

lemma le_bytes_inject: "le_bytes 8 a = le_bytes 8 b \<longleftrightarrow> a = b"
  using le_bytes_roundtrip by metis

lemma hash_key_to_index_run:
  "key_ok s k \<Longrightarrow> hash_key_to_index ht k s = Inr (of_nat (bucket_of ht (key_value s k)), s)"
  by (simp add: hash_key_to_index_def hash_function_def key_ok_def key_value_def key_bytes_def bucket_of_def read_bytes_run)

lemma bucket_of_less: "0 < unat (bucket_count ht) \<Longrightarrow> bucket_of ht c < unat (bucket_count ht)"
proof -
  assume pos: "0 < unat (bucket_count ht)"
  have "hash_bytes OFFSET_BASIS (snd c) AND (bucket_count ht - 1) \<le> bucket_count ht - 1" by (rule word_and_le1)
  then have "bucket_of ht c \<le> unat (bucket_count ht - 1)" by (simp add: bucket_of_def word_le_nat_alt)
  also have "\<dots> = unat (bucket_count ht) - 1" using pos by (subst unat_sub_no_wrap) simp_all
  finally show ?thesis using pos by simp
qed

text \<open>
  Two keys match exactly when they stand for the same value. A node whose key is a number also
  matches a key that is an address with that value, which the hypothesis excludes.
\<close>

lemma key_matches_run:
  assumes "key_ok s (node_key n)" "key_ok s k" "key_size (node_key n) = 0 \<longrightarrow> key_size k = 0"
  shows "key_matches n k s = Inr (key_value s (node_key n) = key_value s k, s)"
proof (cases "key_size (node_key n) = 0")
  case True
  then show ?thesis using assms(3) by (simp add: key_matches_def key_value_def key_bytes_def le_bytes_inject)
next
  case False
  show ?thesis
  proof (cases "key_size (node_key n) = key_size k")
    case True
    then obtain r where "compare_bytes (unat (key_size k)) (key_u64 (node_key n)) (key_u64 k) s = Inr (r, s)"
      "r = 0 \<longleftrightarrow> bytes_at (ram s) (key_u64 (node_key n)) (unat (key_size k)) = bytes_at (ram s) (key_u64 k) (unat (key_size k))"
      using compare_bytes_run [of s "key_u64 (node_key n)" "unat (key_size k)" "key_u64 k"] assms(1,2) False
      by (auto simp: key_ok_def)
    then show ?thesis using True False by (auto simp: key_matches_def memory_compare_def key_value_def key_bytes_def)
  next
    case ne: False
    have "key_value s (node_key n) \<noteq> key_value s k"
    proof
      assume "key_value s (node_key n) = key_value s k"
      then have "length (key_bytes s (node_key n)) = length (key_bytes s k)" "key_size k \<noteq> 0"
        using False by (simp_all add: key_value_def)
      then show False using False ne by (simp add: key_bytes_def word_unat_eq_iff)
    qed
    then show ?thesis using False ne by (simp add: key_matches_def)
  qed
qed
section \<open>The invariant and the abstract map\<close>

text \<open>
  The array of buckets is a table of \<open>uint64_t\<close>s of fixed length. A chain is a list of nodes; a node
  lies in the bucket of its key, no two nodes have the same key, and the bytes of a key lie in a
  buffer of their own (\<open>owned_key\<close>). All keys of a table are of one kind: numbers, or addresses.
\<close>

definition bucket_table :: "hash_table \<Rightarrow> handle_table" where
  "bucket_table ht = \<lparr>handles = \<lparr>vector_data = buckets ht, vector_size = bucket_count ht,
     vector_capacity = bucket_count ht, vector_element_size = 8\<rparr>\<rparr>"

abbreviation heads :: "('h, 'z) kmem_scheme \<Rightarrow> hash_table \<Rightarrow> u64 list" where
  "heads s ht \<equiv> handle_list s (bucket_table ht)"

definition owned_key :: "('h, 'z) kmem_scheme \<Rightarrow> hash_table \<Rightarrow> bool \<Rightarrow> hash_key \<Rightarrow> bool" where
  "owned_key s ht numeric k \<longleftrightarrow> (key_size k = 0) = numeric \<and>
     (key_size k \<noteq> 0 \<longrightarrow> key_u64 k \<noteq> buckets ht \<and> (\<exists>n. raw s (key_u64 k) = Some n \<and> unat (key_size k) \<le> unat n))"

definition chain_at :: "(u64 \<rightharpoonup> hash_node) \<Rightarrow> u64 \<Rightarrow> u64 list \<Rightarrow> bool" where
  "chain_at N h ps \<longleftrightarrow> (\<exists>t. dll (fld node_next N) (fld node_prev N) h t ps)"

definition value_at :: "('h, 'z) hash_mem_scheme \<Rightarrow> u64 \<Rightarrow> bool \<times> u8 list" where
  "value_at s p = key_value s (node_key (the (hash_nodes s p)))"

definition data_at :: "('h, 'z) hash_mem_scheme \<Rightarrow> u64 \<Rightarrow> u64" where
  "data_at s p = node_data (the (hash_nodes s p))"

definition table_ok ::
  "('h, 'z) hash_mem_scheme \<Rightarrow> (u64 \<rightharpoonup> nat) \<Rightarrow> hash_table \<Rightarrow> bool \<Rightarrow> u64 list list \<Rightarrow> bool" where
  "table_ok s L ht numeric cs \<longleftrightarrow> handle_table_ok s (bucket_table ht) \<and> buffers_ok s L \<and>
     dom (hash_nodes s) \<subseteq> dom L \<and> length cs = unat (bucket_count ht) \<and>
     (\<forall>i < length cs. chain_at (hash_nodes s) (heads s ht ! i) (cs ! i) \<and>
        (\<forall>p \<in> set (cs ! i). bucket_of ht (value_at s p) = i)) \<and>
     (\<forall>p \<in> set (concat cs). \<exists>n. hash_nodes s p = Some n \<and> owned_key s ht numeric (node_key n)) \<and>
     inj_on (value_at s) (set (concat cs))"

definition hash_map :: "('h, 'z) hash_mem_scheme \<Rightarrow> u64 list list \<Rightarrow> bool \<times> u8 list \<rightharpoonup> u64" where
  "hash_map s cs = map_of (map (\<lambda>p. (value_at s p, data_at s p)) (concat cs))"

lemma table_okD:
  assumes "table_ok s L ht numeric cs"
  shows "handle_table_ok s (bucket_table ht)" "buffers_ok s L" "dom (hash_nodes s) \<subseteq> dom L"
    "length cs = unat (bucket_count ht)"
    "\<And>i. i < length cs \<Longrightarrow> chain_at (hash_nodes s) (heads s ht ! i) (cs ! i)"
    "\<And>i p. i < length cs \<Longrightarrow> p \<in> set (cs ! i) \<Longrightarrow> bucket_of ht (value_at s p) = i"
    "\<And>p. p \<in> set (concat cs) \<Longrightarrow> \<exists>n. hash_nodes s p = Some n \<and> owned_key s ht numeric (node_key n)"
    "inj_on (value_at s) (set (concat cs))"
  using assms unfolding table_ok_def by blast+

lemma table_count_pos: "handle_table_ok s (bucket_table ht) \<Longrightarrow> 0 < unat (bucket_count ht)"
  by (simp add: handle_table_ok_def vector_ok_def bucket_table_def)

lemma owned_key_ok:
  assumes "buffers_ok s L" "owned_key s ht numeric k" shows "key_ok s k"
  unfolding key_ok_def
proof
  assume "key_size k \<noteq> 0"
  then obtain n where n: "raw s (key_u64 k) = Some n" "unat (key_size k) \<le> unat n" using assms(2) by (auto simp: owned_key_def)
  from can_access_less [OF buffers_okD(2) [OF assms(1) n(1)] n(2)] show "can_access s (key_u64 k) (unat (key_size k))" .
qed

lemma hash_map_Some:
  assumes "inj_on (value_at s) (set (concat cs))"
  shows "hash_map s cs c = Some d \<longleftrightarrow> (\<exists>p \<in> set (concat cs). value_at s p = c \<and> data_at s p = d)"
proof
  assume "hash_map s cs c = Some d"
  then have "(c, d) \<in> set (map (\<lambda>p. (value_at s p, data_at s p)) (concat cs))"
    unfolding hash_map_def by (rule map_of_SomeD)
  then show "\<exists>p \<in> set (concat cs). value_at s p = c \<and> data_at s p = d" by auto
next
  assume "\<exists>p \<in> set (concat cs). value_at s p = c \<and> data_at s p = d"
  then obtain p where p: "p \<in> set (concat cs)" "value_at s p = c" "data_at s p = d" by blast
  have "hash_map s cs c \<noteq> None"
    using p unfolding hash_map_def map_of_eq_None_iff by force
  then obtain e where e: "hash_map s cs c = Some e" by blast
  then have "(c, e) \<in> set (map (\<lambda>p. (value_at s p, data_at s p)) (concat cs))"
    unfolding hash_map_def by (rule map_of_SomeD)
  then obtain q where q: "q \<in> set (concat cs)" "value_at s q = c" "data_at s q = e" by auto
  then have "q = p" using p assms by (auto dest: inj_onD)
  then show "hash_map s cs c = Some d" using e q(3) p(3) by simp
qed

section \<open>Looking up\<close>

lemma find_node_null [simp]: "find_node_from k NULL s = Some (Inr (NULL, s))"
  by (subst find_node_from.simps) simp

lemma find_node_from_run:
  assumes "dseg (fld node_next (hash_nodes s)) (fld node_prev (hash_nodes s)) b x ps t 0"
    and "\<forall>p \<in> set ps. \<exists>n. hash_nodes s p = Some n \<and> key_ok s (node_key n) \<and> (key_size (node_key n) = 0 \<longrightarrow> key_size k = 0)"
    and "key_ok s k"
  shows "find_node_from k x s =
    Some (Inr (case find (\<lambda>p. value_at s p = key_value s k) ps of None \<Rightarrow> NULL | Some p \<Rightarrow> p, s))"
  using assms(1,2)
proof (induction ps arbitrary: b x)
  case Nil
  then show ?case by simp
next
  case (Cons p ps)
  obtain n where n: "hash_nodes s p = Some n" "key_ok s (node_key n)" "key_size (node_key n) = 0 \<longrightarrow> key_size k = 0"
    using Cons.prems(2) by auto
  have x: "x = p" "p \<noteq> 0"
    and seg: "dseg (fld node_next (hash_nodes s)) (fld node_prev (hash_nodes s)) p (node_next n) ps t 0"
    using Cons.prems(1) fld_Some [where f = node_next and m = "hash_nodes s" and p = p and h = n, OF n(1)] by simp_all
  have "find_node_from k (node_next n) s =
      Some (Inr (case find (\<lambda>p. value_at s p = key_value s k) ps of None \<Rightarrow> NULL | Some p \<Rightarrow> p, s))"
    using Cons.IH [OF seg] Cons.prems(2) by simp
  moreover have "key_matches n k s = Inr (value_at s p = key_value s k, s)"
    using key_matches_run [OF n(2) assms(3) n(3)] n(1) by (simp add: value_at_def)
  ultimately show ?case using x n(1) by (subst find_node_from.simps) simp
qed

lemma read_bucket_run:
  assumes t: "handle_table_ok s (bucket_table ht)" and b: "buffers_ok s L" and i: "i < unat (bucket_count ht)"
  shows "read_u64 (buckets ht + of_nat i * 8) s = Inr (heads s ht ! i, s)"
proof -
  have v: "vector_ok s (handles (bucket_table ht))" using t by (simp add: handle_table_ok_def)
  have u: "unat (of_nat i :: u64) = i" using i by (intro unat_of_nat_64) (simp add: less_trans [OF _ unat_lt_64])
  have lt: "of_nat i < vector_size (handles (bucket_table ht))" using i u by (simp add: bucket_table_def word_less_nat_alt)
  have "can_access s (buckets ht + of_nat i * 8) 8" using vector_elem_access [OF b v lt] by (simp add: bucket_table_def)
  then show ?thesis using i handle_list_nth [of i "bucket_table ht" s]
    by (simp add: read_u64_def read_bytes_run bucket_table_def)
qed

text \<open>The search in the bucket of a key finds the one node with that key, wherever nodes are.\<close>

lemma find_by_bucket_run:
  assumes t: "table_ok s L ht numeric cs" and k: "key_ok s k" "(key_size k = 0) = numeric"
  obtains (found) p n where "find_node_by_bucket ht (of_nat (bucket_of ht (key_value s k))) k s = Inr (p, s)"
      "p \<in> set (concat cs)" "value_at s p = key_value s k" "hash_nodes s p = Some n" "p \<noteq> NULL"
      "p \<in> set (cs ! bucket_of ht (key_value s k))"
  | (absent) "find_node_by_bucket ht (of_nat (bucket_of ht (key_value s k))) k s = Inr (NULL, s)"
      "\<forall>p \<in> set (concat cs). value_at s p \<noteq> key_value s k"
proof -
  let ?i = "bucket_of ht (key_value s k)"
  note d = table_okD [OF t]
  have i: "?i < unat (bucket_count ht)" by (rule bucket_of_less [OF table_count_pos [OF d(1)]])
  then have li: "?i < length cs" using d(4) by simp
  from d(5) [OF li] obtain tl where c: "dll (fld node_next (hash_nodes s)) (fld node_prev (hash_nodes s)) (heads s ht ! ?i) tl (cs ! ?i)"
    by (auto simp: chain_at_def)
  have sub: "p \<in> set (concat cs)" if "p \<in> set (cs ! ?i)" for p using that li nth_mem [of ?i cs] by auto
  have nodes: "\<forall>p \<in> set (cs ! ?i). \<exists>n. hash_nodes s p = Some n \<and> key_ok s (node_key n) \<and> (key_size (node_key n) = 0 \<longrightarrow> key_size k = 0)"
  proof
    fix p assume "p \<in> set (cs ! ?i)"
    then obtain n where n: "hash_nodes s p = Some n" "owned_key s ht numeric (node_key n)" using d(7) [OF sub] by blast
    moreover have "(key_size (node_key n) = 0) = numeric" using n(2) by (simp add: owned_key_def)
    ultimately show "\<exists>n. hash_nodes s p = Some n \<and> key_ok s (node_key n) \<and> (key_size (node_key n) = 0 \<longrightarrow> key_size k = 0)"
      using owned_key_ok [OF d(2)] k(2) by blast
  qed
  have run: "find_node_by_bucket ht (of_nat ?i) k s =
      Inr (case find (\<lambda>p. value_at s p = key_value s k) (cs ! ?i) of None \<Rightarrow> NULL | Some p \<Rightarrow> p, s)"
    using find_node_from_run [OF c [unfolded dll_def] nodes k(1)] read_bucket_run [OF d(1,2) i]
    by (simp add: find_node_by_bucket_def)
  show thesis
  proof (cases "find (\<lambda>p. value_at s p = key_value s k) (cs ! ?i)")
    case None
    have "value_at s p \<noteq> key_value s k" if p: "p \<in> set (concat cs)" for p
    proof
      assume e: "value_at s p = key_value s k"
      obtain j where j: "j < length cs" "p \<in> set (cs ! j)" using p unfolding in_set_conv_nth [of _ cs] set_concat by (auto simp: in_set_conv_nth [of _ cs])
      have "j = ?i" using d(6) [OF j] e by simp
      then show False using None j(2) e by (auto simp: find_None_iff)
    qed
    then show thesis using run None by (intro absent) simp_all
  next
    case (Some p)
    then have p: "p \<in> set (cs ! ?i)" "value_at s p = key_value s k" by (auto simp: find_Some_iff)
    obtain n where n: "hash_nodes s p = Some n" using nodes p(1) by blast
    have "p \<noteq> NULL" using dll_nonnull [OF c] p(1) by auto
    then show thesis using run Some p n sub [OF p(1)] by (intro found [of p n]) simp_all
  qed
qed

lemma hash_table_get_run:
  assumes t: "table_ok s L ht numeric cs" and k: "key_ok s k" "(key_size k = 0) = numeric"
  shows "hash_table_get ht k s =
    Inr (case hash_map s cs (key_value s k) of None \<Rightarrow> (-1, None) | Some d \<Rightarrow> (0, Some d), s)"
    "hash_table_contains ht k s = Inr (hash_map s cs (key_value s k) \<noteq> None, s)"
proof -
  note inj = table_okD(8) [OF t]
  have "hash_table_get ht k s = Inr (case hash_map s cs (key_value s k) of None \<Rightarrow> (-1, None) | Some d \<Rightarrow> (0, Some d), s) \<and>
    hash_table_contains ht k s = Inr (hash_map s cs (key_value s k) \<noteq> None, s)"
  proof (rule find_by_bucket_run [OF t k])
    fix p n assume f: "find_node_by_bucket ht (of_nat (bucket_of ht (key_value s k))) k s = Inr (p, s)"
      "p \<in> set (concat cs)" "value_at s p = key_value s k" "hash_nodes s p = Some n" "p \<noteq> NULL"
    have "hash_map s cs (key_value s k) = Some (node_data n)"
      unfolding hash_map_Some [OF inj] using f by (intro bexI [of _ p]) (simp_all add: data_at_def)
    then show ?thesis using f
      by (simp add: hash_table_get_def hash_table_contains_def find_node_def hash_key_to_index_run [OF k(1)])
  next
    assume f: "find_node_by_bucket ht (of_nat (bucket_of ht (key_value s k))) k s = Inr (NULL, s)"
      "\<forall>p \<in> set (concat cs). value_at s p \<noteq> key_value s k"
    have "hash_map s cs (key_value s k) = None"
    proof (rule ccontr)
      assume "hash_map s cs (key_value s k) \<noteq> None"
      then obtain e where "hash_map s cs (key_value s k) = Some e" by blast
      then show False using f(2) unfolding hash_map_Some [OF inj] by blast
    qed
    then show ?thesis using f(1)
      by (simp add: hash_table_get_def hash_table_contains_def find_node_def hash_key_to_index_run [OF k(1)])
  qed
  then show "hash_table_get ht k s = Inr (case hash_map s cs (key_value s k) of None \<Rightarrow> (-1, None) | Some d \<Rightarrow> (0, Some d), s)"
    "hash_table_contains ht k s = Inr (hash_map s cs (key_value s k) \<noteq> None, s)" by blast+
qed
section \<open>Setting and removing\<close>

lemma map_eqI: "(\<And>c d. m c = Some d \<longleftrightarrow> m' c = Some d) \<Longrightarrow> m = m'"
  by (rule ext) (metis not_Some_eq)

lemma count_irrelevant [simp]:
  "bucket_table (ht\<lparr>node_count := c\<rparr>) = bucket_table ht" "bucket_of (ht\<lparr>node_count := c\<rparr>) = bucket_of ht"
  "owned_key s (ht\<lparr>node_count := c\<rparr>) = owned_key s ht"
  by (simp_all add: bucket_table_def bucket_of_def owned_key_def fun_eq_iff)

text \<open>What the heap of nodes and the allocator do not matter for.\<close>

lemma hash_frame [simp]:
  "key_value (s\<lparr>hash_nodes := N\<rparr>) = key_value s" "key_value (s\<lparr>kalloc := h\<rparr>) = key_value s"
  "owned_key (s\<lparr>hash_nodes := N\<rparr>) = owned_key s" "owned_key (s\<lparr>kalloc := h\<rparr>) = owned_key s"
  "handle_list (s\<lparr>hash_nodes := N\<rparr>) = handle_list s" "handle_list (s\<lparr>kalloc := h\<rparr>) = handle_list s"
  "handle_table_ok (s\<lparr>hash_nodes := N\<rparr>) = handle_table_ok s" "handle_table_ok (s\<lparr>kalloc := h\<rparr>) = handle_table_ok s"
  "buffers_ok (s\<lparr>hash_nodes := N\<rparr>) = buffers_ok s" "buffers_ok (s\<lparr>kalloc := h\<rparr>) = buffers_ok s"
  "key_ok (s\<lparr>hash_nodes := N\<rparr>) = key_ok s" "key_ok (s\<lparr>kalloc := h\<rparr>) = key_ok s"
  by (simp_all add: fun_eq_iff key_value_def key_bytes_def owned_key_def handle_list_def vector_elems_def
    vector_bytes_def handle_table_ok_def vector_ok_def buffers_ok_def can_access_def key_ok_def)

lemma key_value_kept:
  assumes o: "owned_key s ht numeric k" and st: "kmem_step s L {buckets ht} s' L'"
  shows "key_value s' k = key_value s k" "owned_key s' ht numeric k"
proof -
  have "key_value s' k = key_value s k \<and> owned_key s' ht numeric k"
  proof (cases "key_size k = 0")
    case True
    then show ?thesis using o by (simp add: key_value_def key_bytes_def owned_key_def)
  next
    case False
    then obtain n where n: "key_u64 k \<notin> {buckets ht}" "raw s (key_u64 k) = Some n" "unat (key_size k) \<le> unat n"
      using o by (auto simp: owned_key_def)
    have r: "raw s' (key_u64 k) = Some n" by (rule kmem_stepD(2) [OF st n(1,2)])
    have "take (unat (key_size k)) (bytes_at (ram s') (key_u64 k) (unat n)) =
        take (unat (key_size k)) (bytes_at (ram s) (key_u64 k) (unat n))"
      unfolding kmem_stepD(3) [OF st n(1,2)] by simp
    then have "bytes_at (ram s') (key_u64 k) (unat (key_size k)) = bytes_at (ram s) (key_u64 k) (unat (key_size k))"
      using n(3) by (simp add: bytes_at_take)
    then show ?thesis using False o n r by (auto simp: key_value_def key_bytes_def owned_key_def)
  qed
  then show "key_value s' k = key_value s k" "owned_key s' ht numeric k" by blast+
qed

lemma set_concat_push: "i < length cs \<Longrightarrow> set (concat (cs[i := p # cs ! i])) = insert p (set (concat cs))"
proof -
  assume i: "i < length cs"
  have cs: "cs = take i cs @ cs ! i # drop (Suc i) cs" using i by (rule id_take_nth_drop)
  have "cs[i := p # cs ! i] = take i cs @ (p # cs ! i) # drop (Suc i) cs" using i by (simp add: upd_conv_take_nth_drop)
  moreover have "set (concat cs) = set (concat (take i cs @ cs ! i # drop (Suc i) cs))" using cs by simp
  ultimately show ?thesis by auto
qed

lemma table_okI:
  assumes "handle_table_ok s (bucket_table ht)" "buffers_ok s L" "dom (hash_nodes s) \<subseteq> dom L"
    "length cs = unat (bucket_count ht)"
    "\<And>i. i < length cs \<Longrightarrow> chain_at (hash_nodes s) (heads s ht ! i) (cs ! i)"
    "\<And>i p. i < length cs \<Longrightarrow> p \<in> set (cs ! i) \<Longrightarrow> bucket_of ht (value_at s p) = i"
    "\<And>p. p \<in> set (concat cs) \<Longrightarrow> \<exists>n. hash_nodes s p = Some n \<and> owned_key s ht numeric (node_key n)"
    "inj_on (value_at s) (set (concat cs))"
  shows "table_ok s L ht numeric cs"
  unfolding table_ok_def using assms by blast

text \<open>Overwriting the data of a node.\<close>

lemma table_set_data:
  assumes t: "table_ok s L ht numeric cs" and p: "p \<in> set (concat cs)" "hash_nodes s p = Some n" "value_at s p = c"
  shows "table_ok (s\<lparr>hash_nodes := (hash_nodes s)(p \<mapsto> n\<lparr>node_data := d\<rparr>)\<rparr>) L ht numeric cs"
    "hash_map (s\<lparr>hash_nodes := (hash_nodes s)(p \<mapsto> n\<lparr>node_data := d\<rparr>)\<rparr>) cs = (hash_map s cs)(c \<mapsto> d)"
proof -
  let ?s = "s\<lparr>hash_nodes := (hash_nodes s)(p \<mapsto> n\<lparr>node_data := d\<rparr>)\<rparr>"
  note td = table_okD [OF t]
  have v: "value_at ?s = value_at s" using p(2) by (auto simp: value_at_def fun_eq_iff)
  have da: "data_at ?s = (data_at s)(p := d)" by (auto simp: data_at_def fun_eq_iff)
  have f: "fld node_next (hash_nodes ?s) = fld node_next (hash_nodes s)" "fld node_prev (hash_nodes ?s) = fld node_prev (hash_nodes s)"
    using p(2) by (auto simp: fld_def fun_eq_iff)
  have 1: "chain_at (hash_nodes ?s) h ps = chain_at (hash_nodes s) h ps" for h ps by (simp only: chain_at_def f)
  have 2: "\<exists>n. hash_nodes ?s q = Some n \<and> owned_key ?s ht numeric (node_key n)" if q: "q \<in> set (concat cs)" for q
  proof -
    obtain x where "hash_nodes s q = Some x" "owned_key s ht numeric (node_key x)" using td(7) [OF q] by blast
    then show ?thesis using p(2) by (cases "q = p") simp_all
  qed
  have 3: "dom (hash_nodes ?s) \<subseteq> dom L" using td(3) p(2) by auto
  show "table_ok ?s L ht numeric cs"
    by (rule table_okI) (use td(1,2) in simp, use td(1,2) in simp, fact 3, fact td(4),
      use 1 td(5) in simp, use td(6) v in simp, fact 2, use td(8) v in simp)
  have inj': "inj_on (value_at ?s) (set (concat cs))" unfolding v by (rule td(8))
  show "hash_map ?s cs = (hash_map s cs)(c \<mapsto> d)"
  proof (rule map_eqI)
    fix c' e
    have u: "q = p" if "q \<in> set (concat cs)" "value_at s q = c" for q
      using inj_onD [OF td(8) _ that(1) p(1)] that(2) p(3) by simp
    show "hash_map ?s cs c' = Some e \<longleftrightarrow> ((hash_map s cs)(c \<mapsto> d)) c' = Some e"
    proof (cases "c' = c")
      case True
      then show ?thesis unfolding hash_map_Some [OF inj'] v da using p(1,3) u by (metis fun_upd_apply option.inject)
    next
      case False
      then have "\<And>q. value_at s q = c' \<Longrightarrow> q \<noteq> p" using p(3) by blast
      then have "(\<exists>q \<in> set (concat cs). value_at s q = c' \<and> ((data_at s)(p := d)) q = e) \<longleftrightarrow>
          (\<exists>q \<in> set (concat cs). value_at s q = c' \<and> data_at s q = e)" by (metis fun_upd_other)
      then show ?thesis using False unfolding hash_map_Some [OF inj'] v da by (simp only: hash_map_Some [OF td(8)] fun_upd_other not_False_eq_True)
    qed
  qed
qed

text \<open>Pushing a node in front of the chain of its bucket.\<close>

definition push_nodes :: "(u64 \<rightharpoonup> hash_node) \<Rightarrow> u64 \<Rightarrow> hash_key \<Rightarrow> u64 \<Rightarrow> u64 \<Rightarrow> (u64 \<rightharpoonup> hash_node)" where
  "push_nodes N p k d h = (let N' = N(p \<mapsto> \<lparr>node_key = k, node_data = d, node_next = h, node_prev = NULL\<rparr>) in
     if h = NULL then N' else N'(h \<mapsto> (the (N h))\<lparr>node_prev := p\<rparr>))"

lemma push_nodes_chain:
  assumes c: "chain_at N h ps" and n: "set ps \<subseteq> dom N" and p: "p \<noteq> 0" "N p = None"
  shows "chain_at (push_nodes N p k d h) p (p # ps)"
proof -
  obtain t where t: "dll (fld node_next N) (fld node_prev N) h t ps" using c by (auto simp: chain_at_def)
  have out: "p \<notin> set ps" using n p(2) by auto
  have h: "h \<noteq> 0 \<Longrightarrow> h \<in> set ps \<and> h \<noteq> p"
    using dll_head [OF t] dll_head_null [OF t] out by (cases ps) auto
  have hn: "h \<noteq> 0 \<Longrightarrow> \<exists>x. N h = Some x" using h n by auto
  have "fld node_next (push_nodes N p k d h) = (fld node_next N)(p := h)"
    using h hn by (auto simp: push_nodes_def fld_def fun_eq_iff Let_def)
  moreover have "fld node_prev (push_nodes N p k d h) =
      (if h = 0 then (fld node_prev N)(p := 0) else ((fld node_prev N)(p := 0))(h := p))"
    using h hn by (auto simp: push_nodes_def fld_def fun_eq_iff Let_def)
  ultimately show ?thesis using dll_push_front [OF t p(1) out] unfolding chain_at_def by (simp only:) (rule exI)
qed

lemma push_nodes_other:
  assumes "q \<noteq> p" "h \<noteq> 0 \<longrightarrow> N h \<noteq> None" "h \<noteq> p"
  shows "push_nodes N p k d h q = None \<longleftrightarrow> N q = None"
    "N q = Some x \<Longrightarrow> \<exists>y. push_nodes N p k d h q = Some y \<and> node_key y = node_key x \<and> node_data y = node_data x \<and>
       node_next y = node_next x \<and> (q \<noteq> h \<longrightarrow> y = x)"
  using assms by (auto simp: push_nodes_def Let_def)

lemma push_nodes_new: "h \<noteq> p \<Longrightarrow> push_nodes N p k d h p = Some \<lparr>node_key = k, node_data = d, node_next = h, node_prev = NULL\<rparr>"
  by (simp add: push_nodes_def Let_def)
lemma value_at_kalloc [simp]:
  "value_at (s\<lparr>kalloc := h\<rparr>) = value_at s" "data_at (s\<lparr>kalloc := h\<rparr>) = data_at s"
  by (simp_all add: fun_eq_iff value_at_def data_at_def)

lemma table_push:
  assumes t: "table_ok s L ht numeric cs" and k: "owned_key s ht numeric k" "key_value s k = c"
    and new: "\<forall>q \<in> set (concat cs). value_at s q \<noteq> c" and i: "i = bucket_of ht c"
    and p: "p \<noteq> 0" "hash_nodes s p = None" and N: "hash_nodes s' = push_nodes (hash_nodes s) p k d (heads s ht ! i)"
    and keep: "\<And>kk. owned_key s ht numeric kk \<Longrightarrow> key_value s' kk = key_value s kk \<and> owned_key s' ht numeric kk"
    and t': "handle_table_ok s' (bucket_table ht)" "heads s' ht = (heads s ht)[i := p]" "buffers_ok s' L'"
      "dom (hash_nodes s') \<subseteq> dom L'"
  shows "table_ok s' L' ht numeric (cs[i := p # cs ! i])" "hash_map s' (cs[i := p # cs ! i]) = (hash_map s cs)(c \<mapsto> d)"
    "value_at s' p = c"
proof -
  note td = table_okD [OF t]
  let ?h = "heads s ht ! i" and ?cs = "cs[i := p # cs ! i]"
  have il: "i < length cs" using bucket_of_less [OF table_count_pos [OF td(1)]] td(4) i by simp
  have S: "set (concat ?cs) = insert p (set (concat cs))" by (rule set_concat_push [OF il])
  have sub: "set (cs ! j) \<subseteq> set (concat cs)" if "j < length cs" for j using nth_mem [OF that] by (auto intro!: bexI [of _ "cs ! j"])
  have dm: "set (cs ! j) \<subseteq> dom (hash_nodes s)" if "j < length cs" for j using sub [OF that] td(7) by blast
  have out: "p \<notin> set (concat cs)" using td(7) p(2) by force
  have hin: "?h \<noteq> 0 \<Longrightarrow> ?h \<in> set (cs ! i)"
  proof -
    assume h: "?h \<noteq> 0"
    obtain tl where c: "dll (fld node_next (hash_nodes s)) (fld node_prev (hash_nodes s)) ?h tl (cs ! i)"
      using td(5) [OF il] by (auto simp: chain_at_def)
    show "?h \<in> set (cs ! i)" using dll_head [OF c] dll_head_null [OF c] h by (cases "cs ! i") auto
  qed
  have hn: "?h \<noteq> 0 \<longrightarrow> hash_nodes s ?h \<noteq> None" using hin dm [OF il] by blast
  have hp: "?h \<noteq> p" using hin sub [OF il] out p(1) by (cases "?h = 0") auto
  note other = push_nodes_other [where N = "hash_nodes s" and h = ?h and p = p and k = k and d = d, OF _ hn hp, folded N]
    and pn = push_nodes_new [OF hp, of "hash_nodes s" k d, folded N]
  have old: "\<exists>y. hash_nodes s' q = Some y \<and> owned_key s' ht numeric (node_key y) \<and> value_at s' q = value_at s q \<and> data_at s' q = data_at s q"
    if q: "q \<in> set (concat cs)" for q
  proof -
    obtain x where x: "hash_nodes s q = Some x" "owned_key s ht numeric (node_key x)" using td(7) [OF q] by blast
    have "q \<noteq> p" using q out by blast
    from other(2) [OF this x(1)] obtain y where y: "hash_nodes s' q = Some y" "node_key y = node_key x" "node_data y = node_data x" by blast
    then show ?thesis using keep [OF x(2)] x(1) by (simp add: value_at_def data_at_def)
  qed
  have vp: "value_at s' p = c" and dp: "data_at s' p = d"
    using pn keep [OF k(1)] k(2) by (simp_all add: value_at_def data_at_def)
  then show "value_at s' p = c" by blast
  have chain: "chain_at (hash_nodes s') (heads s' ht ! j) (?cs ! j)" if j: "j < length ?cs" for j
  proof (cases "j = i")
    case True
    have "chain_at (hash_nodes s') p (p # cs ! i)"
      unfolding N by (rule push_nodes_chain [OF td(5) [OF il] dm [OF il] p])
    then show ?thesis using True il td(4) t'(2) by (simp add: bucket_table_def)
  next
    case False
    have jl: "j < length cs" using j by simp
    have ne: "q \<noteq> p \<and> q \<noteq> ?h" if q: "q \<in> set (cs ! j)" for q
    proof
      show "q \<noteq> p" using q sub [OF jl] out by blast
      show "q \<noteq> ?h"
      proof
        assume e: "q = ?h"
        obtain x where "hash_nodes s q = Some x" using dm [OF jl] q by blast
        obtain tl where c: "dll (fld node_next (hash_nodes s)) (fld node_prev (hash_nodes s)) (heads s ht ! j) tl (cs ! j)"
          using td(5) [OF jl] by (auto simp: chain_at_def)
        have "q \<noteq> 0" using dll_nonnull [OF c] q by auto
        then have "q \<in> set (cs ! i)" using hin e by simp
        then show False using td(6) [OF il] td(6) [OF jl q] False by simp
      qed
    qed
    have same: "hash_nodes s' q = hash_nodes s q" if q: "q \<in> set (cs ! j)" for q
    proof -
      obtain x where x: "hash_nodes s q = Some x" using dm [OF jl] q by blast
      then show ?thesis using other(2) [OF conjunct1 [OF ne [OF q]] x] ne [OF q] by auto
    qed
    have "dll (fld node_next (hash_nodes s')) (fld node_prev (hash_nodes s')) h tl (cs ! j) =
        dll (fld node_next (hash_nodes s)) (fld node_prev (hash_nodes s)) h tl (cs ! j)" for h tl
      by (rule dll_cong) (simp_all add: fld_def same)
    then show ?thesis using td(5) [OF jl] False t'(2) by (simp add: chain_at_def)
  qed
  have inj': "inj_on (value_at s') (set (concat ?cs))"
    unfolding S
  proof (rule inj_onI)
    fix a b assume a: "a \<in> insert p (set (concat cs))" and b: "b \<in> insert p (set (concat cs))" and e: "value_at s' a = value_at s' b"
    consider "a = p" "b = p" | "a = p" "b \<in> set (concat cs)" | "b = p" "a \<in> set (concat cs)"
      | "a \<in> set (concat cs)" "b \<in> set (concat cs)" using a b by blast
    then show "a = b"
    proof cases
      case 2
      then have "value_at s b = c" using e vp old [OF 2(2)] by auto
      then show ?thesis using new 2(2) by blast
    next
      case 3
      then have "value_at s a = c" using e vp old [OF 3(2)] by auto
      then show ?thesis using new 3(2) by blast
    next
      case 4
      have "value_at s a = value_at s b" using e old [OF 4(1)] old [OF 4(2)] by auto
      then show ?thesis by (rule inj_onD [OF td(8) _ 4])
    qed simp
  qed
  show "table_ok s' L' ht numeric ?cs"
  proof (rule table_okI [OF t'(1,3,4) _ chain _ _ inj'])
    show "length ?cs = unat (bucket_count ht)" using td(4) by simp
  next
    fix j q assume j: "j < length ?cs" and q: "q \<in> set (?cs ! j)"
    have jl: "j < length cs" using j by simp
    consider "j = i" "q = p" | "q \<in> set (cs ! j)" using q jl by (cases "j = i") auto
    then show "bucket_of ht (value_at s' q) = j"
    proof cases
      case 1
      then show ?thesis using vp i by simp
    next
      case 2
      then have "q \<in> set (concat cs)" using sub [OF jl] by blast
      then show ?thesis using old [of q] td(6) [OF jl 2] by auto
    qed
  next
    fix q assume "q \<in> set (concat ?cs)"
    then have "q = p \<or> q \<in> set (concat cs)" using S by blast
    then show "\<exists>n. hash_nodes s' q = Some n \<and> owned_key s' ht numeric (node_key n)"
    proof
      assume "q = p"
      then show ?thesis using pn keep [OF k(1)] by simp
    qed (use old in blast)
  qed
  show "hash_map s' ?cs = (hash_map s cs)(c \<mapsto> d)"
  proof (rule map_eqI)
    fix c' e
    have "(\<exists>q \<in> insert p (set (concat cs)). value_at s' q = c' \<and> data_at s' q = e) \<longleftrightarrow>
        c' = c \<and> e = d \<or> (\<exists>q \<in> set (concat cs). value_at s q = c' \<and> data_at s q = e)"
    proof -
      have "(\<exists>q \<in> set (concat cs). value_at s' q = c' \<and> data_at s' q = e) \<longleftrightarrow>
          (\<exists>q \<in> set (concat cs). value_at s q = c' \<and> data_at s q = e)" using old by (metis (no_types))
      then show ?thesis using vp dp by auto
    qed
    moreover have "\<not> (\<exists>q \<in> set (concat cs). value_at s q = c \<and> data_at s q = e)" using new by blast
    ultimately show "hash_map s' ?cs c' = Some e \<longleftrightarrow> ((hash_map s cs)(c \<mapsto> d)) c' = Some e"
      unfolding hash_map_Some [OF inj'] S using hash_map_Some [OF td(8), of c' e]
      by (cases "c' = c") auto
  qed
qed
section \<open>Removing the only node of a bucket\<close>

text \<open>
  \<open>hash_table_remove\<close> clears the \<open>prev\<close> of the node behind the head without a check that there is
  one. So a key that has its bucket to itself cannot be removed: the write goes to address 0.
\<close>

context kernel_allocator
begin

lemma hash_table_remove_only_node:
  assumes i: "inv (kalloc s) room L" and t: "table_ok s L ht numeric cs" and k: "owned_key s ht numeric k"
    and only: "cs ! bucket_of ht (key_value s k) = [p]" and p: "value_at s p = key_value s k"
  shows "hash_table_remove mfree ht k s = Inl Bad_Access"
proof -
  let ?c = "key_value s k" and ?i = "bucket_of ht (key_value s k)"
  note td = table_okD [OF t]
  have ko: "key_ok s k" "(key_size k = 0) = numeric" using owned_key_ok [OF td(2) k] k by (simp_all add: owned_key_def)
  note idx = hash_key_to_index_run [OF ko(1), of ht]
  have il: "?i < unat (bucket_count ht)" by (rule bucket_of_less [OF table_count_pos [OF td(1)]])
  then have il': "?i < length cs" using td(4) by simp
  obtain tl where c: "dll (fld node_next (hash_nodes s)) (fld node_prev (hash_nodes s)) (heads s ht ! ?i) tl [p]"
    using td(5) [OF il'] only by (auto simp: chain_at_def)
  have pin: "p \<in> set (concat cs)" using nth_mem [OF il'] only by (auto intro!: bexI [of _ "cs ! ?i"])
  obtain n where n: "hash_nodes s p = Some n" using td(7) [OF pin] by blast
  have hd: "heads s ht ! ?i = p" and pz: "p \<noteq> 0" using dll_head [OF c] dll_nonnull [OF c] by auto
  have nx: "node_next n = NULL" using c fld_Some [where f = node_next and m = "hash_nodes s" and p = p and h = n, OF n]
    by (simp add: dll_def)
  have null: "hash_nodes s NULL = None"
  proof (rule ccontr)
    assume "hash_nodes s NULL \<noteq> None"
    then obtain l where "L NULL = Some l" using td(3) by auto
    then show False using regions [OF i] by blast
  qed
  show ?thesis
  proof (rule find_by_bucket_run [OF t ko])
    fix q m assume f: "find_node_by_bucket ht (of_nat ?i) k s = Inr (q, s)" "q \<in> set (cs ! ?i)"
    have ix: "of_nat ?i < vector_size (handles (bucket_table ht))"
      using il by (simp add: bucket_table_def bucket_of_def word_less_nat_alt)
    show ?thesis
    proof (rule slot_write_run [OF i td(2,1) ix, of NULL])
      fix m assume w: "vector_set (handles (bucket_table ht)) (of_nat ?i) (Some (le_bytes 8 NULL)) s = Inr (0, s\<lparr>ram := m\<rparr>)"
      have wb: "write_bytes (buckets ht + of_nat ?i * 8) (le_bytes 8 NULL) s = Inr ((), s\<lparr>ram := m\<rparr>)"
        using w iffD2 [OF not_le ix] by (simp add: vector_set_def bucket_table_def split: sum.splits prod.splits)
      have "q = p" using f(2) only by simp
      then show ?thesis using f(1) n nx null pz
        by (simp add: hash_table_remove_def idx read_bucket_run [OF td(1,2) il] hd wb del: le_bytes.simps)
    qed
  next
    assume "\<forall>q \<in> set (concat cs). value_at s q \<noteq> ?c"
    then show ?thesis using pin p by blast
  qed
qed

end
context kernel_allocator
begin

text \<open>
  \<open>hash_table_set\<close> refines the update of the map; when there is no memory for a node, it
  returns -1 and the table is what it was.
\<close>

lemma hash_table_set_run:
  assumes i: "inv (kalloc s) (room + 4192) L" and t: "table_ok s L ht numeric cs" and k: "owned_key s ht numeric k"
    and d: "d \<noteq> NULL"
  obtains (set) s' L' ht' cs' where "hash_table_set malloc ht k d s = Inr ((0, ht'), s')"
      "table_ok s' L' ht' numeric cs'" "hash_map s' cs' = (hash_map s cs)(key_value s k \<mapsto> d)"
      "inv (kalloc s') room L'" "key_value s' k = key_value s k" "owned_key s' ht' numeric k" "bucket_of ht' = bucket_of ht"
      "cs ! bucket_of ht (key_value s k) = [] \<longrightarrow> (\<exists>p. cs' ! bucket_of ht (key_value s k) = [p] \<and> value_at s' p = key_value s k)"
  | (no_memory) h where "hash_table_set malloc ht k d s = Inr ((-1, ht), s\<lparr>kalloc := h\<rparr>)" "inv h room L"
      "table_ok (s\<lparr>kalloc := h\<rparr>) L ht numeric cs" "hash_map s cs (key_value s k) = None"
      "refuses malloc HASH_NODE_SIZE (kalloc s)"
proof -
  let ?c = "key_value s k" and ?i = "bucket_of ht (key_value s k)"
  note td = table_okD [OF t]
  have ko: "key_ok s k" "(key_size k = 0) = numeric" using owned_key_ok [OF td(2) k] k by (simp_all add: owned_key_def)
  note idx = hash_key_to_index_run [OF ko(1), of ht]
  show thesis
  proof (rule find_by_bucket_run [OF t ko])
    fix p n assume f: "find_node_by_bucket ht (of_nat ?i) k s = Inr (p, s)" "p \<in> set (concat cs)"
      "value_at s p = ?c" "hash_nodes s p = Some n" "p \<noteq> NULL" "p \<in> set (cs ! ?i)"
    let ?s = "s\<lparr>hash_nodes := (hash_nodes s)(p \<mapsto> n\<lparr>node_data := d\<rparr>)\<rparr>"
    have "hash_nodes_update (\<lambda>m. m(p \<mapsto> n\<lparr>node_data := d\<rparr>)) s = ?s" by simp
    then have run: "hash_table_set malloc ht k d s = Inr ((0, ht), ?s)"
      using d f idx by (simp add: hash_table_set_def)
    have "inv (kalloc ?s) room L" using inv_mono [OF i] by simp
    from set [OF run table_set_data(1) [OF t f(2,4,3)] table_set_data(2) [OF t f(2,4,3)] this] k f(6) show thesis by (cases "cs ! ?i") simp_all
  next
    assume f: "find_node_by_bucket ht (of_nat ?i) k s = Inr (NULL, s)" "\<forall>p \<in> set (concat cs). value_at s p \<noteq> ?c"
    have none: "hash_map s cs ?c = None"
    proof (rule ccontr)
      assume "hash_map s cs ?c \<noteq> None"
      then obtain e where "hash_map s cs ?c = Some e" by blast
      then show False using f(2) unfolding hash_map_Some [OF td(8)] by blast
    qed
    let ?n0 = "\<lparr>node_key = k, node_data = 0, node_next = NULL, node_prev = NULL\<rparr>"
    have "unat HASH_NODE_SIZE = 40" by (simp add: HASH_NODE_SIZE_def)
    then have i': "inv (kalloc s) (room + unat HASH_NODE_SIZE + 4152) L" using i by (simp add: add.commute)
    show thesis
    proof (rule new_object_run [OF i', of hash_nodes_update ?n0])
      fix h assume n: "new_object malloc HASH_NODE_SIZE hash_nodes_update ?n0 s = Inr (NULL, s\<lparr>kalloc := h\<rparr>)" "inv h room L"
        "refuses malloc HASH_NODE_SIZE (kalloc s)"
      have "hash_table_set malloc ht k d s = Inr ((-1, ht), s\<lparr>kalloc := h\<rparr>)"
        using n d f idx by (simp add: hash_table_set_def hash_table_add_def)
      moreover have "table_ok (s\<lparr>kalloc := h\<rparr>) L ht numeric cs"
        by (rule table_okI) (use td in simp_all)
      ultimately show thesis using n(2,3) none by (intro no_memory)
    next
      fix h p l assume n: "new_object malloc HASH_NODE_SIZE hash_nodes_update ?n0 s =
          Inr (p, hash_nodes_update (\<lambda>m. m(p \<mapsto> ?n0)) (s\<lparr>kalloc := h\<rparr>))" "p \<noteq> NULL" "L p = None" "inv h room (L(p \<mapsto> l))"
      let ?h = "heads s ht ! ?i" and ?L = "L(p \<mapsto> l)"
      have il: "?i < unat (bucket_count ht)" by (rule bucket_of_less [OF table_count_pos [OF td(1)]])
      have np: "hash_nodes s p = None" using td(3) n(3) by auto
      define N where "N = (\<lambda>d. push_nodes (hash_nodes s) p k d ?h)"
      define s1 where "s1 = s\<lparr>kalloc := h, hash_nodes := (hash_nodes s)(p \<mapsto> ?n0)\<rparr>"
      define s2 where "s2 = s\<lparr>kalloc := h, hash_nodes := N 0\<rparr>"
      have e1: "hash_nodes_update (\<lambda>m. m(p \<mapsto> ?n0)) (s\<lparr>kalloc := h\<rparr>) = s1" by (simp add: s1_def)
      have b1: "buffers_ok s ?L"
        unfolding buffers_ok_def
      proof (intro allI impI)
        fix q m assume "raw s q = Some m"
        from buffers_okD [OF td(2) this] n(3) show "(\<exists>k. ?L q = Some k \<and> unat m \<le> k) \<and> can_access s q (unat m)"
          by (cases "q = p") auto
      qed
      have ok1: "handle_table_ok s1 (bucket_table ht)" "buffers_ok s1 ?L" "heads s1 ht = heads s ht"
        and ok2: "handle_table_ok s2 (bucket_table ht)" "buffers_ok s2 ?L" "heads s2 ht = heads s ht" "inv (kalloc s2) room ?L"
        using td(1) b1 n(4) by (simp_all add: s1_def s2_def)
      have rb: "read_u64 (buckets ht + of_nat ?i * 8) s1 = Inr (?h, s1)"
        using read_bucket_run [OF ok1(1,2) il] ok1(3) by simp
      obtain tl where c: "dll (fld node_next (hash_nodes s)) (fld node_prev (hash_nodes s)) ?h tl (cs ! ?i)"
        using td(5) [of ?i] il td(4) by (auto simp: chain_at_def)
      have hn: "\<exists>x. hash_nodes s ?h = Some x \<and> ?h \<noteq> p" if "?h \<noteq> NULL"
      proof -
        have "?h \<in> set (cs ! ?i)" using dll_head [OF c] dll_head_null [OF c] that by (cases "cs ! ?i") auto
        then have "?h \<in> set (concat cs)" using nth_mem [of ?i cs] il td(4) by auto
        then show ?thesis using td(7) [of ?h] np by force
      qed
      have link: "(if ?h \<noteq> NULL then thn (assign hash_nodes hash_nodes_update p (\<lambda>n. n\<lparr>node_next := ?h\<rparr>))
            (assign hash_nodes hash_nodes_update ?h (\<lambda>n. n\<lparr>node_prev := p\<rparr>)) else ret ()) s1 = Inr ((), s2)"
      proof (cases "?h = NULL")
        case True
        then show ?thesis by (simp add: s1_def s2_def N_def push_nodes_def)
      next
        case False
        from hn [OF this] obtain x where "hash_nodes s ?h = Some x" "?h \<noteq> p" by blast
        then show ?thesis using False by (simp add: s1_def s2_def N_def push_nodes_def Let_def comp_def)
      qed
      have ix: "of_nat ?i < vector_size (handles (bucket_table ht))"
        and iu: "unat (of_nat ?i :: u64) = ?i" using il by (simp_all add: bucket_table_def bucket_of_def word_less_nat_alt)
      show thesis
      proof (rule slot_write_run [OF ok2(4,2,1) ix, of p])
        fix m assume w: "vector_set (handles (bucket_table ht)) (of_nat ?i) (Some (le_bytes 8 p)) s2 = Inr (0, s2\<lparr>ram := m\<rparr>)"
          "handle_table_ok (s2\<lparr>ram := m\<rparr>) (bucket_table ht)"
          "handle_list (s2\<lparr>ram := m\<rparr>) (bucket_table ht) = (handle_list s2 (bucket_table ht))[unat (of_nat ?i :: u64) := p]"
          "kmem_step s2 ?L {vector_data (handles (bucket_table ht))} (s2\<lparr>ram := m\<rparr>) ?L" "buffers_ok (s2\<lparr>ram := m\<rparr>) ?L"
        have wb: "write_bytes (buckets ht + of_nat ?i * 8) (le_bytes 8 p) s2 = Inr ((), s2\<lparr>ram := m\<rparr>)"
          using w(1) iffD2 [OF not_le ix] by (simp add: vector_set_def bucket_table_def split: sum.splits prod.splits)
        let ?s3 = "s2\<lparr>ram := m\<rparr>" and ?s4 = "(s2\<lparr>ram := m\<rparr>)\<lparr>hash_nodes := N d\<rparr>"
        let ?ht = "ht\<lparr>node_count := node_count ht + 1\<rparr>"
        have hp: "?h \<noteq> p" using hn n(2) by (cases "?h = NULL") auto
        have add: "hash_table_add malloc ht (of_nat ?i) k s = Inr ((?ht, p), ?s3)"
          using n(2) by (simp add: hash_table_add_def n(1) e1 rb link [simplified] wb)
        have "hash_nodes ?s3 p = Some (?n0\<lparr>node_next := ?h\<rparr>)"
          by (simp add: s2_def N_def push_nodes_new [OF hp])
        moreover have "(N 0)(p \<mapsto> ?n0\<lparr>node_next := ?h, node_data := d\<rparr>) = N d"
          using hp by (auto simp: N_def push_nodes_def Let_def fun_eq_iff)
        ultimately have data: "assign hash_nodes hash_nodes_update p (\<lambda>n. n\<lparr>node_data := d\<rparr>) ?s3 = Inr ((), ?s4)"
          by (simp add: s2_def)
        have run: "hash_table_set malloc ht k d s = Inr ((0, ?ht), ?s4)"
          unfolding hash_table_set_def using d n(2) by (simp add: idx f(1) add data del: assign_run)
        have keep: "key_value ?s4 kk = key_value s kk \<and> owned_key ?s4 ht numeric kk" if "owned_key s ht numeric kk" for kk
        proof -
          have o2: "owned_key s2 ht numeric kk" "key_value s2 kk = key_value s kk" using that by (simp_all add: s2_def)
          have st: "kmem_step s2 ?L {buckets ht} ?s3 ?L" using w(4) by (simp add: bucket_table_def)
          from key_value_kept [OF o2(1) st] o2(2) show ?thesis by (simp only: hash_frame)
        qed
        have N4: "hash_nodes ?s4 = push_nodes (hash_nodes s) p k d ?h" by (simp add: N_def)
        have heads4: "heads ?s4 ht = (heads s ht)[?i := p]" using w(3) ok2(3) iu by simp
        have dom4: "dom (hash_nodes ?s4) \<subseteq> dom ?L"
        proof -
          have "dom (N d) \<subseteq> insert p (dom (hash_nodes s))" using hn by (auto simp: N_def push_nodes_def Let_def split: if_splits)
          then show ?thesis using td(3) by auto
        qed
        have ok4: "handle_table_ok ?s4 (bucket_table ht)" "buffers_ok ?s4 ?L" using w(2,5) by simp_all
        note push = table_push [OF t k refl f(2) refl n(2) np N4 keep ok4(1) heads4 ok4(2) dom4]
        have "table_ok ?s4 ?L ?ht numeric (cs[?i := p # cs ! ?i])" using push(1) by (simp add: table_ok_def)
        moreover have "inv (kalloc ?s4) room ?L" using n(4) by (simp add: s2_def)
        moreover have "cs ! ?i = [] \<longrightarrow> (\<exists>q. (cs[?i := p # cs ! ?i]) ! ?i = [q] \<and> value_at ?s4 q = ?c)"
          using push(3) il td(4) by simp
        ultimately show thesis using push(2) keep [OF k] by (intro set [OF run, where cs' = "cs[?i := p # cs ! ?i]" and L' = ?L]) simp_all
      qed
    qed
  qed
qed

end

end
