(* ===== verification/Containers.thy ===== *)
theory Containers
  imports Heap_Safety Ring_Buffer Hash_Table
begin

text \<open>
  The containers of \<open>kernel/utils\<close> on the kernel's heap: the contract of the allocator is
  instantiated with \<open>kmalloc\<close> and \<open>kfree\<close>, and the properties of handle tables, ring buffers
  and vectors are stated.
\<close>

section \<open>The kernel's heap as an allocator\<close>

lemma kmalloc_eq: "kmalloc = block_allocator_allocate heap_active heap_grow"
  by (simp add: fun_eq_iff kmalloc_def)

lemma kfree_eq: "kfree = block_allocator_free heap_active"
  by (simp add: fun_eq_iff kfree_def)

interpretation heap: kernel_allocator kmalloc kfree kernel_heap_inv
  unfolding kmalloc_eq kfree_eq by (rule kernel_heap.alloc.kernel_allocator_axioms)

text \<open>
  Why a request is refused (see \<open>kmalloc_safe\<close>): no free block has room for \<open>n\<close> bytes, and the
  pages to grow the heap by are not available.
\<close>

definition out_of_memory :: "kernel_heap \<Rightarrow> u64 \<Rightarrow> bool" where
  "out_of_memory h n \<longleftrightarrow> \<not> fits h n \<and> heap_short (backend h) (unat (pages_needed n))"

lemma refused_out_of_memory:
  assumes "kernel_heap_inv h (room + unat n + 4152) L" "refuses kmalloc n h" shows "out_of_memory h n"
  using kmalloc_correct [OF assms(1)]
proof (elim exE conjE disjE)
  fix p h' k assume "kmalloc n h = Inr (p, h')" "kernel_heap_inv h' room (L(p \<mapsto> k))"
  moreover from heap_regions(1) [OF this(2), of p k] have "p \<noteq> NULL" by simp
  ultimately show ?thesis using assms(2) by (simp add: refuses_def)
qed (simp add: out_of_memory_def)

section \<open>A sample state\<close>

text \<open>A heap of one page with one allocated block of 200 bytes and one free block behind it.\<close>

definition sample_used_heap :: kernel_heap where
  "sample_used_heap = \<lparr>backend = sample_heap_backend, virtual_base = KERNEL_HEAP_VIRTUAL_BASE,
     block_list_head = KERNEL_HEAP_VIRTUAL_BASE, free_list_head = KERNEL_HEAP_VIRTUAL_BASE + 256,
     headers = [KERNEL_HEAP_VIRTUAL_BASE \<mapsto>
         (new_header HEADER_SIZE 200 NULL (KERNEL_HEAP_VIRTUAL_BASE + 256))\<lparr>bh_is_free := 0\<rparr>,
       KERNEL_HEAP_VIRTUAL_BASE + 256 \<mapsto> new_header 312 3784 KERNEL_HEAP_VIRTUAL_BASE NULL]\<rparr>"

lemma sample_used_heap_inv:
  "kernel_heap_inv sample_used_heap 0x5FFFE000 [KERNEL_HEAP_VIRTUAL_BASE + HEADER_SIZE \<mapsto> 200]"
proof -
  let ?b = "KERNEL_HEAP_VIRTUAL_BASE" let ?c = "KERNEL_HEAP_VIRTUAL_BASE + 256 :: u64" let ?m = "headers sample_used_heap"
  note d = sample_used_heap_def fld_def new_header_def
  have t: "tiles ?m ?b (unat ?b) [?b, ?c] (unat ?b + 4096)" by (simp add: d)
  have "block_list ?m ?b [?b, ?c]" "free_list ?m ?c [?c]" by (simp_all add: block_list_def free_list_def dll_def d)
  moreover have "{c \<in> set [?b, ?c]. block_free ?m c} = {?c}" by (auto simp: block_free_def d)
  ultimately have sh: "heap_shape sample_used_heap [?b, ?c] [?c] (unat ?b + 4096)"
    using t by (simp add: heap_shape_def sample_used_heap_def)
  have "live ?m [?b, ?c] p = [?b + HEADER_SIZE \<mapsto> 200] p" for p
  proof -
    have "p - HEADER_SIZE = ?b \<longleftrightarrow> p = ?b + HEADER_SIZE" by (metis add_diff_cancel diff_add_cancel)
    then show ?thesis by (auto simp: live_def block_free_def block_size_def d)
  qed
  then have "live ?m [?b, ?c] = [?b + HEADER_SIZE \<mapsto> 200]" by blast
  moreover have "coalesced ?m [?b, ?c]" by (simp add: coalesced_def block_free_def d)
  moreover have "(4096 :: nat) dvd unat ?b + 4096" "unat ?b + 4096 + 0x5FFFE000 < 2 ^ 64" by simp_all
  ultimately show ?thesis
    using sh sample_heap_backend_ok unfolding heap_inv_def
    by (intro conjI exI [of _ "[?b, ?c]"] exI [of _ "[?c]"] exI [of _ "unat ?b + 4096"]) (auto simp: sample_used_heap_def)
qed

lemma sample_used_heap_fits: "unat n \<le> 3784 \<Longrightarrow> fits sample_used_heap n"
proof -
  let ?c = "KERNEL_HEAP_VIRTUAL_BASE + 256 :: u64"
  assume "unat n \<le> 3784"
  moreover have "free_list (headers sample_used_heap) (free_list_head sample_used_heap) [?c]"
    by (simp add: free_list_def dll_def sample_used_heap_def fld_def new_header_def)
  moreover have "block_size (headers sample_used_heap) ?c = 3784"
    by (simp add: block_size_def sample_used_heap_def fld_def new_header_def)
  ultimately show ?thesis unfolding fits_def by (intro exI [of _ "[?c]"] exI [of _ ?c]) simp
qed

lemma sample_block: "\<exists>h p k. kernel_heap_inv h 0x5FFFC000 [p \<mapsto> k] \<and> 100 \<le> k \<and> (\<forall>n. unat n \<le> 3784 \<longrightarrow> fits h n)"
  using heap_inv_mono [OF sample_used_heap_inv, where room' = "0x5FFFC000"] sample_used_heap_fits
  by (intro exI [of _ sample_used_heap] exI [of _ "KERNEL_HEAP_VIRTUAL_BASE + HEADER_SIZE"] exI [of _ "200 :: nat"]) simp

definition sample_memory :: "kernel_heap \<Rightarrow> u64 \<Rightarrow> kernel_heap kmem" where
  "sample_memory h p = \<lparr>kalloc = h, ram = (\<lambda>_. 0), accessible = (\<lambda>a. a \<in> region p 64), raw = [p \<mapsto> 64]\<rparr>"

definition sample_table :: "u64 \<Rightarrow> handle_table" where
  "sample_table p = \<lparr>handles = \<lparr>vector_data = p, vector_size = 1, vector_capacity = 8, vector_element_size = 8\<rparr>\<rparr>"

lemma sample_memory_ok:
  assumes "100 \<le> k" shows "buffers_ok (sample_memory h p) [p \<mapsto> k]" "handle_table_ok (sample_memory h p) (sample_table p)"
  using assms by (auto simp: buffers_ok_def sample_memory_def can_access_def handle_table_ok_def sample_table_def vector_ok_def
    split: if_splits)

section \<open>Handle tables\<close>

text \<open>C11: \<open>handle_table_insert\<close> gives out a new handle, for which \<open>handle_table_get\<close> then yields the
  object that was inserted, while every handle given out before yields what it did. A handle that
  was not given out is refused, before the insertion and after it. The insertion fails only when
  the table is full and the heap has no room for one twice as large; then no block of the heap is
  lost. \<open>handle_list s ht\<close> is the list of the slots.\<close>

theorem handle_table_round_trip:
  assumes "kernel_heap_inv (kalloc s) (room + 2 * (unat (vector_capacity (handles ht)) * 8) + 4152) L"
    and "buffers_ok s L" and "handle_table_ok s ht" and "data \<noteq> NULL"
    and "2 * (unat (vector_capacity (handles ht)) * 8) < 2 ^ 64" and "length (handle_list s ht) + 1 < 2 ^ 31"
  shows "(\<forall>h. length (handle_list s ht) \<le> unat h \<longrightarrow> handle_table_get ht h s = Inr ((-1, None), s)) \<and>
    ((\<exists>ht' s' L'. handle_table_insert kmalloc kfree ht data s = Inr ((0, ht', Some (of_nat (length (handle_list s ht)))), s') \<and>
        kernel_heap_inv (kalloc s') room L' \<and> buffers_ok s' L' \<and> handle_table_ok s' ht' \<and>
        handle_table_get ht' (of_nat (length (handle_list s ht))) s' = Inr ((0, Some data), s') \<and>
        (\<forall>i < length (handle_list s ht). handle_table_get ht' (of_nat i) s' = Inr ((0, Some (handle_list s ht ! i)), s')) \<and>
        (\<forall>h. length (handle_list s ht) < unat h \<longrightarrow> handle_table_get ht' h s' = Inr ((-1, None), s'))) \<or>
     vector_size (handles ht) = vector_capacity (handles ht) \<and>
     out_of_memory (kalloc s) (vector_capacity (handles ht) * 2 * 8) \<and>
     (\<exists>ht' s'. handle_table_insert kmalloc kfree ht data s = Inr ((-1, ht', None), s') \<and>
        kernel_heap_inv (kalloc s') room L \<and> buffers_ok s' L))"
proof
  let ?n = "length (handle_list s ht)"
  have u: "unat (of_nat i :: i64) = i" if "i \<le> ?n" for i using that assms(6) by (intro unat_of_nat_64) simp
  show "\<forall>h. ?n \<le> unat h \<longrightarrow> handle_table_get ht h s = Inr ((-1, None), s)"
    using handle_table_get_run [OF assms(2,3)] by simp
  show "(\<exists>ht' s' L'. handle_table_insert kmalloc kfree ht data s = Inr ((0, ht', Some (of_nat ?n)), s') \<and>
        kernel_heap_inv (kalloc s') room L' \<and> buffers_ok s' L' \<and> handle_table_ok s' ht' \<and>
        handle_table_get ht' (of_nat ?n) s' = Inr ((0, Some data), s') \<and>
        (\<forall>i < ?n. handle_table_get ht' (of_nat i) s' = Inr ((0, Some (handle_list s ht ! i)), s')) \<and>
        (\<forall>h. ?n < unat h \<longrightarrow> handle_table_get ht' h s' = Inr ((-1, None), s'))) \<or>
     vector_size (handles ht) = vector_capacity (handles ht) \<and>
     out_of_memory (kalloc s) (vector_capacity (handles ht) * 2 * 8) \<and>
     (\<exists>ht' s'. handle_table_insert kmalloc kfree ht data s = Inr ((-1, ht', None), s') \<and>
        kernel_heap_inv (kalloc s') room L \<and> buffers_ok s' L)"
  proof (rule heap.handle_table_insert_run [OF assms])
    fix ht' s' L'
    assume r: "handle_table_insert kmalloc kfree ht data s = Inr ((0, ht', Some (of_nat ?n)), s')" "handle_table_ok s' ht'"
      "handle_list s' ht' = handle_list s ht @ [data]" "kernel_heap_inv (kalloc s') room L'" "buffers_ok s' L'"
    note get = handle_table_get_run [OF r(5,2)]
    have g: "handle_table_get ht' (of_nat i) s' = Inr ((0, Some ((handle_list s ht @ [data]) ! i)), s')" if "i \<le> ?n" for i
      using get u [OF that] that r(3) by simp
    have "handle_table_get ht' (of_nat ?n) s' = Inr ((0, Some data), s')" using g [of ?n] by (simp add: nth_append)
    moreover have "\<forall>i < ?n. handle_table_get ht' (of_nat i) s' = Inr ((0, Some (handle_list s ht ! i)), s')"
      using g by (simp add: nth_append)
    moreover have "handle_table_get ht' h s' = Inr ((-1, None), s')" if "?n < unat h" for h
      using get [of h] r(3) that by (simp del: handle_list_length)
    ultimately show ?thesis using r(1,2,4,5) by blast
  next
    fix ht' h assume r: "handle_table_insert kmalloc kfree ht data s = Inr ((-1, ht', None), s\<lparr>kalloc := h\<rparr>)"
      "kernel_heap_inv h room L" "buffers_ok (s\<lparr>kalloc := h\<rparr>) L" "vector_size (handles ht) = vector_capacity (handles ht)"
      "refuses kmalloc (vector_capacity (handles ht) * 2 * 8) (kalloc s)"
    have "unat (vector_capacity (handles ht) * 2 * 8) = 2 * (unat (vector_capacity (handles ht)) * 8)"
      using assms(5) unat_mult_no_wrap [of "vector_capacity (handles ht)" 16] by (simp add: mult.assoc)
    with assms(1) refused_out_of_memory [OF _ r(5), of room L]
    have "out_of_memory (kalloc s) (vector_capacity (handles ht) * 2 * 8)" by (simp only:)
    moreover have "kernel_heap_inv (kalloc (s\<lparr>kalloc := h\<rparr>)) room L" using r(2) by simp
    ultimately show ?thesis using r(1,3,4) by blast
  qed
qed

text \<open>A table with one handle and room for seven more: the next handle is 1.\<close>

theorem handle_table_round_trip_witness:
  "\<exists>(s :: kernel_heap kmem) ht ht' s'. length (handle_list s ht) = 1 \<and>
     handle_table_get ht 1 s = Inr ((-1, None), s) \<and>
     handle_table_insert kmalloc kfree ht 42 s = Inr ((0, ht', Some 1), s') \<and>
     handle_table_get ht' 1 s' = Inr ((0, Some 42), s') \<and>
     handle_table_get ht' 0 s' = Inr ((0, Some (handle_list s ht ! 0)), s') \<and>
     handle_table_get ht' 2 s' = Inr ((-1, None), s')"
proof -
  obtain h p k where h: "kernel_heap_inv h 0x5FFFC000 [p \<mapsto> k]" "100 \<le> k" using sample_block by blast
  let ?s = "sample_memory h p" and ?t = "sample_table p"
  have i: "kernel_heap_inv (kalloc ?s) (0x5FFF0000 + 2 * (unat (vector_capacity (handles ?t)) * 8) + 4152) [p \<mapsto> k]"
  proof -
    have 1: "kalloc ?s = h" by (simp add: sample_memory_def)
    have 2: "0x5FFF0000 + 2 * (unat (vector_capacity (handles ?t)) * 8) + 4152 \<le> (0x5FFFC000 :: nat)"
      by (simp add: sample_table_def)
    show ?thesis unfolding 1 by (rule heap_inv_mono [OF h(1) 2])
  qed
  have len: "length (handle_list ?s ?t) = 1" by (simp add: sample_table_def)
  have nz: "(42 :: u64) \<noteq> NULL" by simp
  have lt: "2 * (unat (vector_capacity (handles ?t)) * 8) < 2 ^ 64" "length (handle_list ?s ?t) + 1 < 2 ^ 31"
    by (simp_all add: sample_table_def)
  have room: "vector_size (handles ?t) \<noteq> vector_capacity (handles ?t)" by (simp add: sample_table_def)
  note rt = handle_table_round_trip [OF i sample_memory_ok(1) [OF h(2)] sample_memory_ok(2) [OF h(2)] nz lt, unfolded len]
  have "handle_table_get ?t 1 ?s = Inr ((-1, None), ?s)" using conjunct1 [OF rt] by simp
  moreover obtain ht' s' where "handle_table_insert kmalloc kfree ?t 42 ?s = Inr ((0, ht', Some (of_nat 1)), s')"
    "handle_table_get ht' (of_nat 1) s' = Inr ((0, Some 42), s')"
    "\<forall>i < 1. handle_table_get ht' (of_nat i) s' = Inr ((0, Some (handle_list ?s ?t ! i)), s')"
    "\<forall>h. 1 < unat h \<longrightarrow> handle_table_get ht' h s' = Inr ((-1, None), s')"
    using rt room by blast
  moreover from this(4) have "handle_table_get ht' 2 s' = Inr ((-1, None), s')" by simp
  ultimately show ?thesis using len by (intro exI [of _ ?s] exI [of _ ?t] exI [of _ ht'] exI [of _ s']) simp
qed

text \<open>C16: Removing a handle clears its slot and no other. A removed handle is still answered with
  success: \<open>handle_table_get\<close> yields a null pointer for it, and the same goes for \<open>fd_table_get\<close> of a
  descriptor after \<open>fd_table_close\<close>. A handle that is negative or was never given out is refused
  by both operations.\<close>

theorem fd_table_close_clears:
  assumes "kernel_heap_inv (kalloc s) room L" and "buffers_ok s L" and "handle_table_ok s (fd_handles t)"
    and "unat fd < length (handle_list s (fd_handles t))"
  shows "\<exists>s'. fd_table_close t fd s = Inr (0, s') \<and> handle_table_ok s' (fd_handles t) \<and>
    fd_table_get t fd s' = Inr ((0, Some NULL), s') \<and>
    (\<forall>g. g \<noteq> fd \<longrightarrow> fd_table_get t g s' = (case fd_table_get t g s of Inl e \<Rightarrow> Inl e | Inr (r, _) \<Rightarrow> Inr (r, s'))) \<and>
    (\<forall>g. g <s 0 \<or> length (handle_list s (fd_handles t)) \<le> unat g \<longrightarrow>
       fd_table_get t g s = Inr ((-1, None), s) \<and> fd_table_close t g s = Inr (-1, s))"
proof -
  let ?ht = "fd_handles t"
  obtain m where m: "handle_table_remove ?ht fd s = Inr (0, s\<lparr>ram := m\<rparr>)" "handle_table_ok (s\<lparr>ram := m\<rparr>) ?ht"
    "handle_list (s\<lparr>ram := m\<rparr>) ?ht = (handle_list s ?ht)[unat fd := 0]" "buffers_ok (s\<lparr>ram := m\<rparr>) L"
    by (rule heap.handle_table_remove_run [OF assms])
  let ?s = "s\<lparr>ram := m\<rparr>"
  have lt: "unat (vector_size (handles ?ht)) < 2 ^ 31" using assms(3) by (simp add: handle_table_ok_def)
  have pos: "\<not> g <s 0" if "unat g < length (handle_list s ?ht)" for g :: i64
    by (rule not_negative_small) (use that lt in simp)
  have get: "fd_table_get t g s = Inr (if unat g < length (handle_list s ?ht) then (0, Some (handle_list s ?ht ! unat g)) else (-1, None), s)" for g :: i64
    using handle_table_get_run [OF assms(2,3), of g] pos [of g] by (auto simp: fd_table_get_def)
  have get': "fd_table_get t g ?s =
      Inr (if unat g < length (handle_list s ?ht) then (0, Some ((handle_list s ?ht)[unat fd := 0] ! unat g)) else (-1, None), ?s)" for g
    using handle_table_get_run [OF m(4,2), of g] m(3) pos [of g] by (auto simp: fd_table_get_def)
  have bad: "fd_table_close t g s = Inr (-1, s)" if "length (handle_list s ?ht) \<le> unat g" for g :: i64
  proof -
    have "vector_size (handles ?ht) \<le> g" using that by (simp add: word_le_nat_alt)
    then show ?thesis by (simp add: fd_table_close_def handle_table_remove_def vector_set_def)
  qed
  have neg: "length (handle_list s ?ht) \<le> unat g" if "g <s 0" for g :: i64 using pos [of g] that by linarith
  have "fd_table_close t fd s = Inr (0, ?s)" using m(1) pos [OF assms(4)] by (simp add: fd_table_close_def)
  then show ?thesis using m(2) get get' bad neg assms(4) by (auto simp: word_unat_eq_iff dest!: neg)
qed

theorem fd_table_close_clears_witness:
  "\<exists>(s :: kernel_heap kmem) t s'. fd_table_close t 0 s = Inr (0, s') \<and> fd_table_get t 0 s' = Inr ((0, Some NULL), s')"
proof -
  obtain h p k where h: "kernel_heap_inv h 0x5FFFC000 [p \<mapsto> k]" "100 \<le> k" using sample_block by blast
  let ?s = "sample_memory h p" and ?t = "\<lparr>fd_handles = sample_table p\<rparr>"
  have i: "kernel_heap_inv (kalloc ?s) 0x5FFFC000 [p \<mapsto> k]" using h(1) by (simp add: sample_memory_def)
  have t: "handle_table_ok ?s (fd_handles ?t)" using sample_memory_ok(2) [OF h(2)] by simp
  have "unat (0 :: i64) < length (handle_list ?s (fd_handles ?t))" by (simp add: sample_table_def)
  from fd_table_close_clears [OF i sample_memory_ok(1) [OF h(2)] t this] show ?thesis by blast
qed

section \<open>Ring buffers\<close>

text \<open>C12: A ring buffer is a bounded first-in-first-out queue: \<open>ring_buffer_enqueue\<close> appends a copy
  of the element, or refuses it when \<open>ring_size\<close> elements are queued; \<open>ring_buffer_dequeue\<close> copies
  the oldest element out, or fails on the empty queue. Neither touches memory outside the ring and
  the element. \<open>ring_holds s rb q\<close> says that the ring represents the queue \<open>q\<close>; it implies that
  both pointers are at slots of the ring.\<close>

theorem ring_buffer_fifo:
  assumes "ring_holds s rb q" and "data \<noteq> 0" and "can_access s data (unat (data_size rb))"
    and "region data (unat (data_size rb)) \<inter> region (base_address rb) (ring_bytes rb) = {}"
  shows "(\<exists>s' rb'. ring_buffer_enqueue rb data (data_size rb) s =
        (if length q = unat (ring_size rb) then Inr ((-1, rb), s) else Inr ((0, rb'), s')) \<and>
      (length q \<noteq> unat (ring_size rb) \<longrightarrow> ring_holds s' rb' (q @ [bytes_at (ram s) data (unat (data_size rb))]) \<and>
         (\<forall>a. a \<notin> region (base_address rb) (ring_bytes rb) \<longrightarrow> ram s' a = ram s a))) \<and>
    (\<exists>s' rb'. ring_buffer_dequeue rb data (data_size rb) s = (if q = [] then Inr ((-1, rb), s) else Inr ((0, rb'), s')) \<and>
      (q \<noteq> [] \<longrightarrow> ring_holds s' rb' (tl q) \<and> bytes_at (ram s') data (unat (data_size rb)) = hd q \<and>
         (\<forall>a. a \<notin> region data (unat (data_size rb)) \<longrightarrow> ram s' a = ram s a)))"
proof
  show "\<exists>s' rb'. ring_buffer_enqueue rb data (data_size rb) s =
        (if length q = unat (ring_size rb) then Inr ((-1, rb), s) else Inr ((0, rb'), s')) \<and>
      (length q \<noteq> unat (ring_size rb) \<longrightarrow> ring_holds s' rb' (q @ [bytes_at (ram s) data (unat (data_size rb))]) \<and>
         (\<forall>a. a \<notin> region (base_address rb) (ring_bytes rb) \<longrightarrow> ram s' a = ram s a))"
  proof (cases "length q = unat (ring_size rb)")
    case True
    then show ?thesis using ring_buffer_full_run [OF assms(1)] by auto
  next
    case False
    then have lt: "length q < unat (ring_size rb)" using assms(1) by (simp add: ring_holds_def)
    show ?thesis by (rule ring_buffer_enqueue_run [OF assms lt]) (use False in auto)
  qed
  show "\<exists>s' rb'. ring_buffer_dequeue rb data (data_size rb) s = (if q = [] then Inr ((-1, rb), s) else Inr ((0, rb'), s')) \<and>
      (q \<noteq> [] \<longrightarrow> ring_holds s' rb' (tl q) \<and> bytes_at (ram s') data (unat (data_size rb)) = hd q \<and>
         (\<forall>a. a \<notin> region data (unat (data_size rb)) \<longrightarrow> ram s' a = ram s a))"
  proof (cases q)
    case Nil
    then show ?thesis using ring_buffer_empty_run [of s rb] assms(1) by auto
  next
    case (Cons x xs)
    then have h: "ring_holds s rb (x # xs)" using assms(1) by simp
    show ?thesis by (rule ring_buffer_dequeue_run [OF h assms(2-4)]) (use Cons in auto)
  qed
qed

definition sample_ring_memory :: "unit kmem" where
  "sample_ring_memory = \<lparr>kalloc = (), ram = (\<lambda>a. ucast a), accessible = (\<lambda>_. True), raw = Map.empty\<rparr>"

theorem ring_buffer_fifo_witness:
  "\<exists>rb rb' s'. ring_buffer_init rb 0x1000 4 8 = (0, rb') \<and>
     ring_buffer_enqueue rb' 0x2000 8 sample_ring_memory = Inr s' \<and> fst (fst s') = 0"
proof -
  have "can_access sample_ring_memory 0x1000 (unat (4 :: u64) * unat (8 :: u64))" by (simp add: can_access_def sample_ring_memory_def)
  then obtain rb' where rb: "ring_buffer_init undefined 0x1000 4 8 = (0, rb')" "ring_holds sample_ring_memory rb' []"
    "base_address rb' = 0x1000" "ring_size rb' = 4" "data_size rb' = 8"
    using ring_buffer_init_holds [of 4 8 "0x1000" sample_ring_memory undefined] by auto
  have "region 0x2000 (unat (data_size rb')) \<inter> region (base_address rb') (ring_bytes rb') = {}"
    using rb by (intro region_disjoint) (simp_all add: ring_bytes_def)
  moreover have "can_access sample_ring_memory 0x2000 (unat (data_size rb'))" by (simp add: can_access_def sample_ring_memory_def)
  ultimately show ?thesis using ring_buffer_fifo [OF rb(2), of "0x2000"] rb by auto
qed

section \<open>Vectors\<close>

text \<open>C17: \<open>vector_push_back\<close> is not safe once memory has run out: when the allocator has no room
  for the larger buffer it returns -1, but the vector has doubled its capacity already, so the next
  \<open>vector_push_back\<close> does not grow it and writes behind the end of the buffer. Here that address is
  not accessible, so that the write is an access violation.\<close>

theorem vector_push_back_overflow:
  assumes "malloc (vector_capacity v * 2 * vector_element_size v) (kalloc s) = Inr (NULL, h)"
    and "vector_size v = vector_capacity v" and "vector_capacity v < vector_capacity v * 2"
    and "bytes \<noteq> []" and "vector_element_size v \<noteq> 0"
    and "\<not> accessible s (vector_data v + vector_size v * vector_element_size v)"
  shows "\<exists>v' s'. vector_push_back malloc mfree v (Some bytes) s = Inr ((-1, v'), s') \<and>
    vector_push_back malloc mfree v' (Some bytes) s' = Inl Bad_Access"
proof -
  let ?v = "v\<lparr>vector_capacity := vector_capacity v * 2\<rparr>"
  have "vector_push_back malloc mfree v (Some bytes) s = Inr ((-1, ?v), s\<lparr>kalloc := h\<rparr>)"
    using assms(1,2) by (simp add: vector_push_back_def expand_capacity_def vector_move_def new_buffer_def)
  moreover have "take (unat (vector_element_size v)) bytes \<noteq> []" using assms(4,5) by (simp add: unat_eq_zero)
  then obtain b bs where b: "take (unat (vector_element_size v)) bytes = b # bs" by (meson neq_Nil_conv)
  have nl: "\<not> vector_capacity v * 2 \<le> vector_capacity v" using assms(3) by (simp add: not_le)
  have "vector_push_back malloc mfree ?v (Some bytes) (s\<lparr>kalloc := h\<rparr>) = Inl Bad_Access"
    using assms(2,6) b nl by (simp add: vector_push_back_def write_byte_def)
  ultimately show ?thesis by blast
qed

theorem vector_push_back_overflow_witness:
  "\<exists>(s :: unit kmem) v v' s'. vector_push_back (\<lambda>_. ret NULL) (\<lambda>_. ret ()) v (Some [1]) s = Inr ((-1, v'), s') \<and>
     vector_push_back (\<lambda>_. ret NULL) (\<lambda>_. ret ()) v' (Some [1]) s' = Inl Bad_Access"
proof -
  let ?s = "\<lparr>kalloc = (), ram = (\<lambda>_. 0), accessible = (\<lambda>a. a < 8), raw = Map.empty\<rparr>"
    and ?v = "\<lparr>vector_data = 0, vector_size = 1, vector_capacity = 1, vector_element_size = 8\<rparr>"
  show ?thesis
    using vector_push_back_overflow [of "\<lambda>_. ret NULL" ?v ?s "()" "[1]" "\<lambda>_. ret ()"] by force
qed
section \<open>Hash tables\<close>

text \<open>C18: The hash table refines a map from key values to data. A lookup yields the datum of the
  map, or -1; \<open>hash_table_contains\<close> agrees. \<open>hash_table_set\<close> makes the map yield the new datum for
  the key and leaves all other keys alone, so that a lookup that follows finds it, whatever the
  other keys in its bucket are. It returns -1 only for a key the map does not have yet, when the
  heap has no room for a node, and then the map stays. \<open>table_ok\<close> is the invariant of the table, \<open>hash_map\<close> the abstraction and \<open>key_value\<close> what a key
  stands for: a number, or the bytes it points to.\<close>

theorem hash_table_refines_map:
  assumes "kernel_heap_inv (kalloc s) (room + 4192) L" and "table_ok s L ht numeric cs"
    and "owned_key s ht numeric k" and "d \<noteq> NULL"
  shows "hash_table_get ht k s =
      Inr (case hash_map s cs (key_value s k) of None \<Rightarrow> (-1, None) | Some e \<Rightarrow> (0, Some e), s) \<and>
    hash_table_contains ht k s = Inr (hash_map s cs (key_value s k) \<noteq> None, s) \<and>
    ((\<exists>s' L' ht' cs'. hash_table_set kmalloc ht k d s = Inr ((0, ht'), s') \<and>
        kernel_heap_inv (kalloc s') room L' \<and> table_ok s' L' ht' numeric cs' \<and>
        hash_map s' cs' = (hash_map s cs)(key_value s k \<mapsto> d) \<and>
        hash_table_get ht' k s' = Inr ((0, Some d), s')) \<or>
     hash_map s cs (key_value s k) = None \<and> out_of_memory (kalloc s) HASH_NODE_SIZE \<and>
     (\<exists>s'. hash_table_set kmalloc ht k d s = Inr ((-1, ht), s') \<and> kernel_heap_inv (kalloc s') room L \<and>
        table_ok s' L ht numeric cs \<and> hash_map s' cs = hash_map s cs))"
proof -
  have num: "(key_size k = 0) = numeric" using assms(3) by (simp add: owned_key_def)
  have ko: "key_ok s k" by (rule owned_key_ok [OF table_okD(2) [OF assms(2)] assms(3)])
  note get = hash_table_get_run [OF assms(2) ko num]
  have "(\<exists>s' L' ht' cs'. hash_table_set kmalloc ht k d s = Inr ((0, ht'), s') \<and>
        kernel_heap_inv (kalloc s') room L' \<and> table_ok s' L' ht' numeric cs' \<and>
        hash_map s' cs' = (hash_map s cs)(key_value s k \<mapsto> d) \<and>
        hash_table_get ht' k s' = Inr ((0, Some d), s')) \<or>
     hash_map s cs (key_value s k) = None \<and> out_of_memory (kalloc s) HASH_NODE_SIZE \<and>
     (\<exists>s'. hash_table_set kmalloc ht k d s = Inr ((-1, ht), s') \<and> kernel_heap_inv (kalloc s') room L \<and>
        table_ok s' L ht numeric cs \<and> hash_map s' cs = hash_map s cs)"
  proof (rule heap.hash_table_set_run [OF assms])
    fix s' L' ht' cs'
    assume r: "hash_table_set kmalloc ht k d s = Inr ((0, ht'), s')" "table_ok s' L' ht' numeric cs'"
      "hash_map s' cs' = (hash_map s cs)(key_value s k \<mapsto> d)" "kernel_heap_inv (kalloc s') room L'"
      "key_value s' k = key_value s k" "owned_key s' ht' numeric k"
    have "key_ok s' k" by (rule owned_key_ok [OF table_okD(2) [OF r(2)] r(6)])
    from hash_table_get_run(1) [OF r(2) this num] have "hash_table_get ht' k s' = Inr ((0, Some d), s')"
      by (simp add: r(3,5))
    then show ?thesis using r(1,2,3,4) by blast
  next
    fix h assume r: "hash_table_set kmalloc ht k d s = Inr ((-1, ht), s\<lparr>kalloc := h\<rparr>)" "kernel_heap_inv h room L"
      "table_ok (s\<lparr>kalloc := h\<rparr>) L ht numeric cs" "hash_map s cs (key_value s k) = None"
      "refuses kmalloc HASH_NODE_SIZE (kalloc s)"
    have out: "out_of_memory (kalloc s) HASH_NODE_SIZE"
      by (rule refused_out_of_memory [OF _ r(5), of room L]) (use assms(1) in \<open>simp add: HASH_NODE_SIZE_def add.assoc\<close>)
    have "hash_map (s\<lparr>kalloc := h\<rparr>) cs = hash_map s cs" by (simp add: hash_map_def)
    moreover have e: "kalloc (s\<lparr>kalloc := h\<rparr>) = h" by simp
    have "kernel_heap_inv (kalloc (s\<lparr>kalloc := h\<rparr>)) room L" unfolding e by (rule r(2))
    with calculation show ?thesis using r(1,3,4) out by blast
  qed
  then show ?thesis using get by blast
qed

text \<open>A table with one bucket and no node.\<close>

definition sample_hash_memory :: "kernel_heap \<Rightarrow> u64 \<Rightarrow> kernel_heap hash_mem" where
  "sample_hash_memory h p = \<lparr>kalloc = h, ram = (\<lambda>_. 0), accessible = (\<lambda>a. a \<in> region p 8), raw = [p \<mapsto> 8],
     list_nodes = Map.empty, hash_nodes = Map.empty\<rparr>"

definition sample_hash_table :: "u64 \<Rightarrow> hash_table" where
  "sample_hash_table p = \<lparr>buckets = p, bucket_count = 1, node_count = 0\<rparr>"

lemma sample_hash_ok:
  assumes "100 \<le> k" shows "table_ok (sample_hash_memory h p) [p \<mapsto> k] (sample_hash_table p) True [[]]"
proof (rule table_okI)
  let ?s = "sample_hash_memory h p"
  show t: "handle_table_ok ?s (bucket_table (sample_hash_table p))"
    by (simp add: handle_table_ok_def vector_ok_def sample_hash_table_def sample_hash_memory_def bucket_table_def)
  show "buffers_ok ?s [p \<mapsto> k]"
    using assms by (auto simp: buffers_ok_def sample_hash_memory_def can_access_def split: if_splits)
  fix i assume "i < length ([[]] :: u64 list list)"
  then have "i = 0" by simp
  moreover have "heads ?s (sample_hash_table p) ! 0 = 0"
    using handle_list_nth [of 0 "bucket_table (sample_hash_table p)" ?s]
    by (simp add: bucket_table_def sample_hash_table_def sample_hash_memory_def bytes_at_def upt_rec)
  ultimately show "chain_at (hash_nodes ?s) (heads ?s (sample_hash_table p) ! i) ([[]] ! i)"
    by (simp add: chain_at_def)
qed (simp_all add: sample_hash_memory_def sample_hash_table_def)

lemma sample_hash_table_run:
  assumes "kernel_heap_inv h 0x5FFFC000 [p \<mapsto> k]" "100 \<le> k" "\<forall>n. unat n \<le> 3784 \<longrightarrow> fits h n"
  shows "kernel_heap_inv (kalloc (sample_hash_memory h p)) (0x5FFF0000 + 4192) [p \<mapsto> k]"
    "table_ok (sample_hash_memory h p) [p \<mapsto> k] (sample_hash_table p) True [[]]"
    "owned_key (sample_hash_memory h p) (sample_hash_table p) True (hash_key_create_u64 n)"
    "\<not> out_of_memory (kalloc (sample_hash_memory h p)) HASH_NODE_SIZE"
proof -
  have 1: "kalloc (sample_hash_memory h p) = h" by (simp add: sample_hash_memory_def)
  have 2: "0x5FFF0000 + 4192 \<le> (0x5FFFC000 :: nat)" by simp
  show "kernel_heap_inv (kalloc (sample_hash_memory h p)) (0x5FFF0000 + 4192) [p \<mapsto> k]"
    unfolding 1 by (rule heap_inv_mono [OF assms(1) 2])
  show "table_ok (sample_hash_memory h p) [p \<mapsto> k] (sample_hash_table p) True [[]]" by (rule sample_hash_ok [OF assms(2)])
  show "owned_key (sample_hash_memory h p) (sample_hash_table p) True (hash_key_create_u64 n)"
    by (simp add: owned_key_def hash_key_create_u64_def)
  have "fits h HASH_NODE_SIZE" using assms(3) by (simp add: HASH_NODE_SIZE_def)
  then show "\<not> out_of_memory (kalloc (sample_hash_memory h p)) HASH_NODE_SIZE" unfolding 1 by (simp add: out_of_memory_def)
qed

text \<open>The key 5 is not in the empty table; it is stored, and then it is found.\<close>

theorem hash_table_refines_map_witness:
  "\<exists>(s :: kernel_heap hash_mem) ht ht' s' cs. hash_table_get ht (hash_key_create_u64 5) s = Inr ((-1, None), s) \<and>
     hash_table_set kmalloc ht (hash_key_create_u64 5) 7 s = Inr ((0, ht'), s') \<and>
     hash_table_get ht' (hash_key_create_u64 5) s' = Inr ((0, Some 7), s') \<and>
     hash_map s' cs = [key_value s (hash_key_create_u64 5) \<mapsto> 7]"
proof -
  obtain h p k where h: "kernel_heap_inv h 0x5FFFC000 [p \<mapsto> k]" "100 \<le> k" "\<forall>n. unat n \<le> 3784 \<longrightarrow> fits h n"
    using sample_block by blast
  let ?s = "sample_hash_memory h p" and ?t = "sample_hash_table p" and ?k = "hash_key_create_u64 5"
  note run = sample_hash_table_run [OF h]
  have d: "(7 :: u64) \<noteq> NULL" by simp
  note r = hash_table_refines_map [OF run(1-3) d, of 5]
  have none: "hash_map ?s [[]] = Map.empty" by (simp add: hash_map_def fun_eq_iff)
  then have "hash_table_get ?t ?k ?s = Inr ((-1, None), ?s)" using r by simp
  moreover obtain s' ht' cs' where "hash_table_set kmalloc ?t ?k 7 ?s = Inr ((0, ht'), s')"
    "hash_map s' cs' = (hash_map ?s [[]])(key_value ?s ?k \<mapsto> 7)" "hash_table_get ht' ?k s' = Inr ((0, Some 7), s')"
    using r run(4) by blast
  ultimately show ?thesis unfolding none by blast
qed

text \<open>C19: A key that is alone in its bucket cannot be removed: after \<open>hash_table_set\<close> has put it
  there, \<open>hash_table_remove\<close> clears the \<open>prev\<close> field of the node behind it although there is none,
  a write through a null pointer. (\<open>file_table_close\<close> of a file with a path does this.) The only
  condition is that the heap has room for the node.\<close>

theorem hash_table_remove_faults:
  assumes "kernel_heap_inv (kalloc s) (room + 4192) L" and "table_ok s L ht numeric cs"
    and "owned_key s ht numeric k" and "d \<noteq> NULL" and "cs ! bucket_of ht (key_value s k) = []"
    and "\<not> out_of_memory (kalloc s) HASH_NODE_SIZE"
  shows "\<exists>s' ht'. hash_table_set kmalloc ht k d s = Inr ((0, ht'), s') \<and>
      hash_table_get ht' k s' = Inr ((0, Some d), s') \<and> hash_table_remove kfree ht' k s' = Inl Bad_Access"
proof (rule heap.hash_table_set_run [OF assms(1-4)])
  fix s' L' ht' cs'
  assume r: "hash_table_set kmalloc ht k d s = Inr ((0, ht'), s')" "table_ok s' L' ht' numeric cs'"
    "hash_map s' cs' = (hash_map s cs)(key_value s k \<mapsto> d)" "kernel_heap_inv (kalloc s') room L'"
    "key_value s' k = key_value s k" "owned_key s' ht' numeric k" "bucket_of ht' = bucket_of ht"
    "cs ! bucket_of ht (key_value s k) = [] \<longrightarrow> (\<exists>p. cs' ! bucket_of ht (key_value s k) = [p] \<and> value_at s' p = key_value s k)"
  obtain p where p: "cs' ! bucket_of ht' (key_value s' k) = [p]" "value_at s' p = key_value s' k"
    using r(8) assms(5) by (auto simp: r(5,7))
  have ko: "key_ok s' k" "(key_size k = 0) = numeric"
    using owned_key_ok [OF table_okD(2) [OF r(2)] r(6)] r(6) by (simp_all add: owned_key_def)
  have "hash_table_get ht' k s' = Inr ((0, Some d), s')"
    using hash_table_get_run(1) [OF r(2) ko] by (simp add: r(3,5))
  moreover have "hash_table_remove kfree ht' k s' = Inl Bad_Access"
    by (rule heap.hash_table_remove_only_node [OF r(4,2,6) p])
  ultimately show ?thesis using r(1) by blast
next
  assume "refuses kmalloc HASH_NODE_SIZE (kalloc s)"
  then have "out_of_memory (kalloc s) HASH_NODE_SIZE"
    by (rule refused_out_of_memory [rotated, of _ _ room L]) (use assms(1) in \<open>simp add: HASH_NODE_SIZE_def add.assoc\<close>)
  with assms(6) show ?thesis by blast
qed

theorem hash_table_remove_faults_witness:
  "\<exists>(s :: kernel_heap hash_mem) ht ht' s'. hash_table_set kmalloc ht (hash_key_create_u64 5) 7 s = Inr ((0, ht'), s') \<and>
     hash_table_get ht' (hash_key_create_u64 5) s' = Inr ((0, Some 7), s') \<and>
     hash_table_remove kfree ht' (hash_key_create_u64 5) s' = Inl Bad_Access"
proof -
  obtain h p k where h: "kernel_heap_inv h 0x5FFFC000 [p \<mapsto> k]" "100 \<le> k" "\<forall>n. unat n \<le> 3784 \<longrightarrow> fits h n"
    using sample_block by blast
  let ?s = "sample_hash_memory h p" and ?t = "sample_hash_table p" and ?k = "hash_key_create_u64 5"
  note run = sample_hash_table_run [OF h]
  have e: "[[]] ! bucket_of ?t (key_value ?s ?k) = ([] :: u64 list)" by (simp add: bucket_of_def sample_hash_table_def)
  have d: "(7 :: u64) \<noteq> NULL" by simp
  show ?thesis using hash_table_remove_faults [OF run(1-3) d e run(4)] by blast
qed

end
