(* ===== verification/Scheduler.thy ===== *)
theory Scheduler
  imports Hash_Table
begin

text \<open>
  \<open>kernel/scheduler\<close>: threads (\<open>thread.c\<close>) and the cooperative scheduler (\<open>scheduler.c\<close>), with the
  processes the threads belong to (\<open>process_t\<close> of \<open>process/process.h\<close>).

  The run queue is a linked list of pointers to threads. \<open>context_switch\<close> does not return: it gives
  the processor to another thread. A function that may end this way returns a \<open>control\<close>:
  \<open>Switch t\<close> when the thread \<open>t\<close> continues, with what \<open>scheduler_switch_to_thread\<close> restores of its
  context (\<open>resume\<close>), and \<open>Return\<close> otherwise. The two operations on the translation registers,
  \<open>vmap_apply_table\<close> with the page table of a process and \<open>mmap_apply_mappings\<close>, act on the part of
  the machine the allocator owns, so they are arguments here, as \<open>kmalloc\<close> and \<open>kfree\<close> are.
\<close>

section \<open>Threads and processes\<close>

datatype thread_state = THREAD_STATE_READY | THREAD_STATE_RUNNING | THREAD_STATE_SUSPENDED
  | THREAD_STATE_BLOCKED | THREAD_STATE_TERMINATED

datatype thread_type = THREAD_TYPE_KERNEL | THREAD_TYPE_USER

record thread_context =
  entry_point :: u64
  ctx_sp :: u64
  registers :: "u64 list"
  spsr :: u64
  elr :: u64

record thread =
  thread_process :: u64
  kernel_stack_top :: u64
  stack_top :: u64
  thread_state :: thread_state
  thread_type :: thread_type
  ctx :: thread_context
  run_queue_node :: u64

record process =
  process_handle :: i64
  main_thread :: u64
  process_threads :: linked_list
  page_table :: u64
  memory_pages :: linked_list
  mmap_entries :: linked_list
  process_fd_table :: fd_table

text \<open>The state: \<open>g_scheduler\<close>, whose idle thread has an address of its own, and the objects.\<close>

record 'h task_mem = "'h hash_mem" +
  threads :: "u64 \<rightharpoonup> thread"
  processes :: "u64 \<rightharpoonup> process"
  current_thread :: u64
  run_queue :: linked_list
  idle_thread :: u64

datatype 'a control = Return 'a | Switch u64

type_synonym 'h apply_fn = "u64 \<Rightarrow> ('h, int) prog"

definition KERNEL_STACK_SIZE :: u64 where "KERNEL_STACK_SIZE = 8 * 4096"

definition SPSR_MODE_EL0 :: u64 where "SPSR_MODE_EL0 = 0"
definition SPSR_MODE_EL1_H :: u64 where "SPSR_MODE_EL1_H = 5"

definition zero_context :: thread_context where
  "zero_context = \<lparr>entry_point = 0, ctx_sp = 0, registers = replicate 32 0, spsr = 0, elr = 0\<rparr>"

definition thread_init ::
  "'h malloc_fn \<Rightarrow> u64 \<Rightarrow> u64 \<Rightarrow> u64 \<Rightarrow> thread_type \<Rightarrow> (('h, 'z) task_mem_scheme, int) prog" where
  "thread_init malloc thread entry stack type =
     thn (assign threads threads_update thread (\<lambda>_. \<lparr>thread_process = NULL, kernel_stack_top = 0, stack_top = stack,
            thread_state = THREAD_STATE_READY, thread_type = type, ctx = zero_context, run_queue_node = NULL\<rparr>))
    (bnd (new_buffer malloc KERNEL_STACK_SIZE) (\<lambda>kernel_stack.
     if kernel_stack = 0 then ret (-1)
     else thn (assign threads threads_update thread (\<lambda>t. t\<lparr>kernel_stack_top := kernel_stack + KERNEL_STACK_SIZE,
            ctx := (ctx t)\<lparr>entry_point := entry, elr := entry, ctx_sp := stack,
              spsr := (case type of THREAD_TYPE_KERNEL \<Rightarrow> SPSR_MODE_EL1_H | THREAD_TYPE_USER \<Rightarrow> SPSR_MODE_EL0)\<rparr>\<rparr>))
         (ret 0)))"

section \<open>The scheduler\<close>

definition scheduler_add_thread ::
  "'h malloc_fn \<Rightarrow> 'h free_fn \<Rightarrow> u64 \<Rightarrow> (('h, 'z) task_mem_scheme, int) prog" where
  "scheduler_add_thread malloc mfree thread =
     bnd (deref threads thread) (\<lambda>t.
     thn (kassert (run_queue_node t = NULL))
    (thn (kassert (thread_state t = THREAD_STATE_READY \<or> thread_state t = THREAD_STATE_SUSPENDED))
    (bnd (rd run_queue) (\<lambda>queue.
     bnd (linked_list_insert malloc mfree queue thread) (\<lambda>(r, queue, node).
     thn (upd (\<lambda>s. s\<lparr>run_queue := queue\<rparr>))
    (if r < 0 then ret (-1)
     else thn (assign threads threads_update thread (\<lambda>t. t\<lparr>run_queue_node := (case node of None \<Rightarrow> NULL | Some p \<Rightarrow> p)\<rparr>))
         (ret 0)))))))"

definition scheduler_remove_thread :: "'h free_fn \<Rightarrow> u64 \<Rightarrow> (('h, 'z) task_mem_scheme, int) prog" where
  "scheduler_remove_thread mfree thread =
     bnd (deref threads thread) (\<lambda>t.
     thn (kassert (run_queue_node t \<noteq> NULL))
    (bnd (rd run_queue) (\<lambda>queue.
     bnd (linked_list_remove mfree queue (run_queue_node t)) (\<lambda>(r, queue).
     thn (upd (\<lambda>s. s\<lparr>run_queue := queue\<rparr>))
    (thn (assign threads threads_update thread (\<lambda>t. t\<lparr>run_queue_node := NULL\<rparr>))
         (ret 0))))))"

definition thread_start :: "'h malloc_fn \<Rightarrow> 'h free_fn \<Rightarrow> u64 \<Rightarrow> (('h, 'z) task_mem_scheme, int) prog" where
  "thread_start malloc mfree thread = scheduler_add_thread malloc mfree thread"

definition scheduler_get_current_thread :: "(('h, 'z) task_mem_scheme, u64) prog" where
  "scheduler_get_current_thread = rd current_thread"

text \<open>\<open>idle\<close> is the address of the idle thread and \<open>entry\<close> that of \<open>idle_thread_entry\<close>.\<close>

definition scheduler_init :: "'h malloc_fn \<Rightarrow> u64 \<Rightarrow> u64 \<Rightarrow> (('h, 'z) task_mem_scheme, int) prog" where
  "scheduler_init malloc idle entry =
     thn (upd (\<lambda>s. s\<lparr>run_queue := snd (linked_list_init \<lparr>list_head = 0, list_tail = 0\<rparr>), current_thread := NULL,
            idle_thread := idle, threads := (threads s)(idle \<mapsto> \<lparr>thread_process = NULL, kernel_stack_top = 0,
              stack_top = 0, thread_state = THREAD_STATE_READY, thread_type = THREAD_TYPE_KERNEL,
              ctx = zero_context, run_queue_node = NULL\<rparr>)\<rparr>))
    (bnd (new_buffer malloc 4096) (\<lambda>idle_thread_stack.
     if idle_thread_stack = NULL then ret (-1)
     else bnd (thread_init malloc idle entry (idle_thread_stack + 4096) THREAD_TYPE_KERNEL) (\<lambda>_. ret 0)))"

definition context_switch :: "'h apply_fn \<Rightarrow> u64 \<Rightarrow> (('h, 'z) task_mem_scheme, unit control) prog" where
  "context_switch apply_user next_thread =
     bnd (deref threads next_thread) (\<lambda>t.
     thn (if thread_process t \<noteq> NULL
          then bnd (deref processes (thread_process t)) (\<lambda>p.
            bnd (within kalloc kalloc_update (apply_user (page_table p))) (\<lambda>r. kassert (r = 0)))
          else ret ())
         (ret (Switch next_thread)))"

text \<open>The registers at the \<open>eret\<close> of \<open>scheduler_switch_to_thread\<close>: x0 to x3 have been used up.\<close>

definition resume :: "thread_context \<Rightarrow> u64 list" where
  "resume c = (registers c)[0 := elr c, 1 := ctx_sp c, 2 := drop_bit 63 (ctx_sp c), 3 := spsr c]"

text \<open>The loop of \<open>scheduler_run\<close> that skips terminated threads.\<close>

partial_function (option) next_runnable ::
  "'h free_fn \<Rightarrow> u64 \<Rightarrow> ('h, 'z) task_mem_scheme \<Rightarrow> (fault + u64 \<times> ('h, 'z) task_mem_scheme) option" where
  "next_runnable mfree next_thread s =
     (case threads s next_thread of None \<Rightarrow> Some (Inl Bad_Access)
      | Some t \<Rightarrow>
          if list_head (run_queue s) \<noteq> NULL \<and> thread_state t = THREAD_STATE_TERMINATED
          then (case list_nodes s (list_head (run_queue s)) of None \<Rightarrow> Some (Inl Bad_Access)
                | Some n \<Rightarrow> (case scheduler_remove_thread mfree (ll_data n) s of
                    Inl e \<Rightarrow> Some (Inl e)
                  | Inr (r, s') \<Rightarrow> next_runnable mfree (ll_data n) s'))
          else Some (Inr (next_thread, s)))"

text \<open>The end of \<open>scheduler_run\<close>: the thread that was found becomes the current one.\<close>

definition dispatch :: "'h apply_fn \<Rightarrow> u64 \<Rightarrow> u64 \<Rightarrow> (('h, 'z) task_mem_scheme, unit control) prog" where
  "dispatch apply_user prev_thread next_thread =
     thn (upd (\<lambda>s. s\<lparr>current_thread := next_thread\<rparr>))
    (thn (assign threads threads_update next_thread (\<lambda>t. t\<lparr>thread_state := THREAD_STATE_RUNNING\<rparr>))
    (if prev_thread \<noteq> next_thread then context_switch apply_user next_thread else ret (Return ())))"

definition scheduler_run :: "'h free_fn \<Rightarrow> 'h apply_fn \<Rightarrow> (('h, 'z) task_mem_scheme, unit control) prog" where
  "scheduler_run mfree apply_user =
     bnd (rd current_thread) (\<lambda>prev_thread.
     bnd (rd run_queue) (\<lambda>queue.
     bnd (if list_head queue \<noteq> NULL
          then bnd (deref list_nodes (list_head queue)) (\<lambda>n.
            thn (scheduler_remove_thread mfree (ll_data n)) (\<lambda>s. loop (next_runnable mfree (ll_data n) s)))
          else ret NULL) (\<lambda>next_thread.
     bnd (if next_thread = NULL then rd idle_thread else ret next_thread) (\<lambda>next_thread.
     dispatch apply_user prev_thread next_thread))))"

record exception_frame =
  frame_registers :: "u64 list"
  frame_sp :: u64
  frame_spsr :: u64
  frame_elr :: u64

definition scheduler_yield ::
  "'h malloc_fn \<Rightarrow> 'h free_fn \<Rightarrow> ('h, int) prog \<Rightarrow> 'h apply_fn \<Rightarrow> exception_frame
     \<Rightarrow> (('h, 'z) task_mem_scheme, unit control) prog" where
  "scheduler_yield malloc mfree apply_kernel apply_user frame =
     bnd (rd current_thread) (\<lambda>current.
     thn (kassert (current \<noteq> NULL))
    (thn (assign threads threads_update current (\<lambda>t. t\<lparr>ctx := (ctx t)\<lparr>
            registers := map ((!) (frame_registers frame)) [0..<32],
            ctx_sp := frame_sp frame, spsr := frame_spsr frame, elr := frame_elr frame\<rparr>,
          thread_state := THREAD_STATE_SUSPENDED\<rparr>))
    (bnd (scheduler_add_thread malloc mfree current) (\<lambda>_.
     bnd (within kalloc kalloc_update apply_kernel) (\<lambda>r.
     thn (kassert (r = 0))
         (scheduler_run mfree apply_user))))))"

text \<open>
  \<open>scheduler_save_and_block\<close> (\<open>scheduler.S\<close>) with the callee-saved registers \<open>saved\<close> (x19 to x30)
  and the stack pointer of the caller.
\<close>

definition scheduler_save_and_block ::
  "'h free_fn \<Rightarrow> ('h, int) prog \<Rightarrow> 'h apply_fn \<Rightarrow> u64 list \<Rightarrow> u64 \<Rightarrow> u64
     \<Rightarrow> (('h, 'z) task_mem_scheme, unit control) prog" where
  "scheduler_save_and_block mfree apply_kernel apply_user saved sp thread =
     thn (assign threads threads_update thread (\<lambda>t. t\<lparr>ctx := (ctx t)\<lparr>
            registers := take 19 (registers (ctx t)) @ take 12 saved @ drop 31 (registers (ctx t)),
            ctx_sp := sp, elr := saved ! 11, spsr := SPSR_MODE_EL1_H\<rparr>,
          thread_state := THREAD_STATE_BLOCKED\<rparr>))
    (bnd (within kalloc kalloc_update apply_kernel) (\<lambda>_. scheduler_run mfree apply_user))"

definition scheduler_wait_for_event ::
  "'h free_fn \<Rightarrow> ('h, int) prog \<Rightarrow> 'h apply_fn \<Rightarrow> u64 list \<Rightarrow> u64
     \<Rightarrow> (('h, 'z) task_mem_scheme, unit control) prog" where
  "scheduler_wait_for_event mfree apply_kernel apply_user saved sp =
     bnd (rd current_thread) (\<lambda>t. scheduler_save_and_block mfree apply_kernel apply_user saved sp t)"

definition scheduler_wake_up ::
  "'h malloc_fn \<Rightarrow> 'h free_fn \<Rightarrow> u64 \<Rightarrow> (('h, 'z) task_mem_scheme, unit) prog" where
  "scheduler_wake_up malloc mfree thread =
     bnd (deref threads thread) (\<lambda>t.
     thn (kassert (thread_state t = THREAD_STATE_BLOCKED))
    (thn (assign threads threads_update thread (\<lambda>t. t\<lparr>thread_state := THREAD_STATE_SUSPENDED\<rparr>))
    (bnd (scheduler_add_thread malloc mfree thread) (\<lambda>_. ret ()))))"

definition scheduler_terminate ::
  "'h free_fn \<Rightarrow> ('h, int) prog \<Rightarrow> 'h apply_fn \<Rightarrow> (('h, 'z) task_mem_scheme, unit control) prog" where
  "scheduler_terminate mfree apply_kernel apply_user =
     bnd (rd current_thread) (\<lambda>current.
     thn (assign threads threads_update current (\<lambda>t. t\<lparr>thread_state := THREAD_STATE_TERMINATED\<rparr>))
    (bnd (within kalloc kalloc_update apply_kernel) (\<lambda>r.
     thn (kassert (r = 0)) (scheduler_run mfree apply_user))))"
section \<open>The run queue\<close>

text \<open>
  \<open>queue_at s ps\<close>: the run queue consists of the nodes \<open>ps\<close>; the threads they point to are ready or
  suspended and know their node; no other thread claims to be queued.
\<close>

definition runnable :: "thread \<Rightarrow> bool" where
  "runnable t \<longleftrightarrow> thread_state t = THREAD_STATE_READY \<or> thread_state t = THREAD_STATE_SUSPENDED"

abbreviation node_thread :: "('h, 'z) task_mem_scheme \<Rightarrow> u64 \<Rightarrow> u64" where
  "node_thread s \<equiv> fld ll_data (list_nodes s)"

definition queue_at :: "('h, 'z) task_mem_scheme \<Rightarrow> u64 list \<Rightarrow> bool" where
  "queue_at s ps \<longleftrightarrow> list_at s (run_queue s) ps \<and>
     (\<forall>p \<in> set ps. \<exists>t. threads s (node_thread s p) = Some t \<and> run_queue_node t = p \<and> runnable t) \<and>
     (\<forall>a t. threads s a = Some t \<longrightarrow> a \<notin> set (list_data s ps) \<longrightarrow> run_queue_node t = NULL)"

lemma queue_at_list: "queue_at s ps \<Longrightarrow> list_at s (run_queue s) ps"
  by (simp add: queue_at_def)

lemma queue_at_thread:
  "queue_at s ps \<Longrightarrow> p \<in> set ps \<Longrightarrow> \<exists>t. threads s (node_thread s p) = Some t \<and> run_queue_node t = p \<and> runnable t"
  by (simp add: queue_at_def)

lemma queue_at_other: "queue_at s ps \<Longrightarrow> threads s a = Some t \<Longrightarrow> a \<notin> set (list_data s ps) \<Longrightarrow> run_queue_node t = NULL"
  by (simp add: queue_at_def)

lemma queue_at_inj:
  assumes "queue_at s ps" "p \<in> set ps" "q \<in> set ps" "node_thread s p = node_thread s q" shows "p = q"
proof -
  obtain t where t: "threads s (node_thread s p) = Some t" "run_queue_node t = p" using queue_at_thread [OF assms(1,2)] by blast
  obtain u where u: "threads s (node_thread s q) = Some u" "run_queue_node u = q" using queue_at_thread [OF assms(1,3)] by blast
  have "t = u" using t(1) u(1) unfolding assms(4) by simp
  then show ?thesis using t(2) u(2) by simp
qed

lemma queue_at_distinct:
  assumes "queue_at s ps" shows "distinct (list_data s ps)"
proof -
  have "distinct ps" by (rule dll_distinct [OF list_at_dll [OF queue_at_list [OF assms]]])
  moreover have "inj_on (node_thread s) (set ps)" by (rule inj_onI) (rule queue_at_inj [OF assms])
  ultimately show ?thesis by (simp add: list_data_def distinct_map)
qed

lemma queued_iff:
  assumes q: "queue_at s ps" and t: "threads s a = Some t"
  shows "a \<in> set (list_data s ps) \<longleftrightarrow> run_queue_node t \<noteq> NULL"
proof
  assume "a \<in> set (list_data s ps)"
  then obtain p where p: "p \<in> set ps" "a = node_thread s p" by (auto simp: list_data_def)
  with queue_at_thread [OF q p(1)] t have "run_queue_node t = p" by auto
  then show "run_queue_node t \<noteq> NULL" using p(1) dll_nonnull [OF list_at_dll [OF queue_at_list [OF q]]] by auto
qed (use queue_at_other [OF q t] in blast)

text \<open>An update of a thread that is not queued keeps the queue.\<close>

lemma queue_at_update:
  assumes q: "queue_at s ps" and a: "a \<notin> set (list_data s ps)" and t: "run_queue_node t = NULL"
  shows "queue_at (s\<lparr>threads := (threads s)(a \<mapsto> t)\<rparr>) ps"
proof -
  let ?s = "s\<lparr>threads := (threads s)(a \<mapsto> t)\<rparr>"
  have 1: "list_at ?s (run_queue ?s) ps" using queue_at_list [OF q] by (simp add: list_at_def)
  have 2: "\<exists>t. threads ?s (node_thread ?s p) = Some t \<and> run_queue_node t = p \<and> runnable t" if "p \<in> set ps" for p
    using queue_at_thread [OF q that] that a by (auto simp: list_data_def)
  have 3: "list_data ?s ps = list_data s ps" by (simp add: list_data_def)
  show ?thesis unfolding queue_at_def 3 using 1 2 queue_at_other [OF q] t by auto
qed

text \<open>The queue depends on nothing but its nodes and the threads.\<close>

lemma queue_at_cong:
  assumes q: "queue_at s ps" and n: "\<And>p. p \<in> set ps \<Longrightarrow> list_nodes s' p = list_nodes s p"
    and r: "run_queue s' = run_queue s" "threads s' = threads s"
  shows "queue_at s' ps"
proof -
  have f: "node_thread s' p = node_thread s p" if "p \<in> set ps" for p using n [OF that] by (simp add: fld_def)
  have "list_at s' (run_queue s') ps" using queue_at_list [OF q] n r(1) by (simp add: list_at_cong [of ps s' s])
  moreover have "list_data s' ps = list_data s ps" by (rule list_data_cong) (rule n)
  ultimately show ?thesis using q unfolding queue_at_def r(2) by (simp add: f)
qed

context kernel_allocator
begin

lemma scheduler_add_thread_run:
  assumes i: "inv (kalloc s) (room + 4184) L" and d: "dom (list_nodes s) \<subseteq> dom L" and q: "queue_at s ps"
    and t: "threads s a = Some t" "run_queue_node t = NULL" "runnable t"
  obtains (added) l p m h k where "scheduler_add_thread malloc mfree a s = Inr (0, s\<lparr>kalloc := h, list_nodes := m,
        run_queue := l, threads := (threads s)(a \<mapsto> t\<lparr>run_queue_node := p\<rparr>)\<rparr>)"
      "queue_at (s\<lparr>kalloc := h, list_nodes := m, run_queue := l, threads := (threads s)(a \<mapsto> t\<lparr>run_queue_node := p\<rparr>)\<rparr>) (ps @ [p])"
      "map (fld ll_data m) (ps @ [p]) = list_data s ps @ [a]" "list_nodes s p = None" "L p = None" "inv h room (L(p \<mapsto> k))"
      "dom m = insert p (dom (list_nodes s))" "\<And>q. q \<notin> set ps \<Longrightarrow> q \<noteq> p \<Longrightarrow> m q = list_nodes s q" "p \<noteq> NULL" "p \<notin> set ps"
  | (no_memory) h where "scheduler_add_thread malloc mfree a s = Inr (-1, s\<lparr>kalloc := h\<rparr>)" "inv h room L"
      "refuses malloc LIST_NODE_SIZE (kalloc s)"
proof (rule linked_list_insert_run [OF i d queue_at_list [OF q], of a])
  fix h assume "linked_list_insert malloc mfree (run_queue s) a s = Inr ((-1, run_queue s, None), s\<lparr>kalloc := h\<rparr>)" "inv h room L"
    "refuses malloc LIST_NODE_SIZE (kalloc s)"
  then show thesis using t by (intro no_memory) (simp_all add: scheduler_add_thread_def runnable_def)
next
  fix l p m h k
  assume r: "linked_list_insert malloc mfree (run_queue s) a s = Inr ((0, l, Some p), s\<lparr>kalloc := h, list_nodes := m\<rparr>)"
    "list_at (s\<lparr>kalloc := h, list_nodes := m\<rparr>) l (ps @ [p])" "p \<notin> set ps" "p \<noteq> NULL"
    "list_data (s\<lparr>kalloc := h, list_nodes := m\<rparr>) (ps @ [p]) = list_data s ps @ [a]"
    "list_nodes s p = None" "L p = None" "inv h room (L(p \<mapsto> k))" "dom m = insert p (dom (list_nodes s))"
    "\<And>q. q \<notin> set ps \<Longrightarrow> q \<noteq> p \<Longrightarrow> m q = list_nodes s q"
  let ?s = "s\<lparr>kalloc := h, list_nodes := m, run_queue := l, threads := (threads s)(a \<mapsto> t\<lparr>run_queue_node := p\<rparr>)\<rparr>"
  have run: "scheduler_add_thread malloc mfree a s = Inr (0, ?s)"
    using r(1) t by (simp add: scheduler_add_thread_def runnable_def)
  have data: "map (fld ll_data m) ps = list_data s ps" "fld ll_data m p = a" using r(5) by (simp_all add: list_data_def)
  have f: "fld ll_data m x = node_thread s x" if "x \<in> set ps" for x using data(1) that by (simp add: list_data_def)
  have a: "a \<notin> set (list_data s ps)" using queued_iff [OF q t(1)] t(2) by simp
  have "list_at ?s (run_queue ?s) (ps @ [p])" using r(2) by (simp add: list_at_def)
  moreover have "\<exists>t. threads ?s (node_thread ?s x) = Some t \<and> run_queue_node t = x \<and> runnable t" if x: "x \<in> set (ps @ [p])" for x
  proof (cases "x = p")
    case True
    then show ?thesis using data(2) t(3) by (simp add: runnable_def)
  next
    case False
    then have "x \<in> set ps" using x by simp
    moreover from this have "node_thread s x \<noteq> a" using a by (auto simp: list_data_def)
    ultimately show ?thesis using queue_at_thread [OF q, of x] f by simp
  qed
  moreover have "run_queue_node u = NULL" if "threads ?s b = Some u" "b \<notin> set (list_data ?s (ps @ [p]))" for b u
    using that data queue_at_other [OF q, of b] by (auto simp: list_data_def)
  ultimately have "queue_at ?s (ps @ [p])" unfolding queue_at_def by blast
  then show thesis using r data by (intro added [OF run]) simp_all
qed

lemma scheduler_remove_thread_run:
  assumes i: "inv (kalloc s) room L" and d: "dom (list_nodes s) \<subseteq> dom L" and q: "queue_at s (ps @ p # qs)"
    and a: "a = node_thread s p"
  obtains l m h t where "scheduler_remove_thread mfree a s = Inr (0, s\<lparr>kalloc := h, list_nodes := m, run_queue := l,
        threads := (threads s)(a \<mapsto> t\<lparr>run_queue_node := NULL\<rparr>)\<rparr>)"
    "queue_at (s\<lparr>kalloc := h, list_nodes := m, run_queue := l, threads := (threads s)(a \<mapsto> t\<lparr>run_queue_node := NULL\<rparr>)\<rparr>) (ps @ qs)"
    "map (fld ll_data m) (ps @ qs) = list_data s (ps @ qs)" "threads s a = Some t" "runnable t"
    "inv h room (L(p := None))" "dom m = dom (list_nodes s) - {p}"
    "\<And>q. q \<notin> set (ps @ p # qs) \<Longrightarrow> m q = list_nodes s q"
proof -
  obtain t where t: "threads s a = Some t" "run_queue_node t = p" "runnable t"
    using queue_at_thread [OF q, of p] a by auto
  have nz: "p \<noteq> NULL" using dll_nonnull [OF list_at_dll [OF queue_at_list [OF q]]] by auto
  show thesis
  proof (rule linked_list_remove_run [OF i d queue_at_list [OF q]])
    fix l m h assume r: "linked_list_remove mfree (run_queue s) p s = Inr ((0, l), s\<lparr>kalloc := h, list_nodes := m\<rparr>)"
      "list_at (s\<lparr>kalloc := h, list_nodes := m\<rparr>) l (ps @ qs)"
      "list_data (s\<lparr>kalloc := h, list_nodes := m\<rparr>) (ps @ qs) = list_data s (ps @ qs)"
      "inv h room (L(p := None))" "dom m = dom (list_nodes s) - {p}" "\<And>q. q \<notin> set (ps @ p # qs) \<Longrightarrow> m q = list_nodes s q"
    let ?s = "s\<lparr>kalloc := h, list_nodes := m, run_queue := l, threads := (threads s)(a \<mapsto> t\<lparr>run_queue_node := NULL\<rparr>)\<rparr>"
    have run: "scheduler_remove_thread mfree a s = Inr (0, ?s)"
      using r(1) t nz by (simp add: scheduler_remove_thread_def)
    have data: "map (fld ll_data m) (ps @ qs) = list_data s (ps @ qs)" using r(3) by (simp add: list_data_def)
    have f: "fld ll_data m x = node_thread s x" if "x \<in> set (ps @ qs)" for x using data that by (auto simp: list_data_def)
    have "distinct (list_data s (ps @ p # qs))" by (rule queue_at_distinct [OF q])
    then have aout: "a \<notin> set (list_data s (ps @ qs))" using a by (auto simp: list_data_def)
    have "list_at ?s (run_queue ?s) (ps @ qs)" using r(2) by (simp add: list_at_def)
    moreover have "\<exists>t. threads ?s (node_thread ?s x) = Some t \<and> run_queue_node t = x \<and> runnable t" if x: "x \<in> set (ps @ qs)" for x
    proof -
      have "node_thread s x \<noteq> a" using aout x by (auto simp: list_data_def)
      then show ?thesis using queue_at_thread [OF q, of x] f [OF x] x by auto
    qed
    moreover have "run_queue_node u = NULL" if u: "threads ?s b = Some u" "b \<notin> set (list_data ?s (ps @ qs))" for b u
    proof (cases "b = a")
      case True
      then show ?thesis using u by auto
    next
      case False
      then have "b \<notin> set (list_data s (ps @ p # qs))" using u(2) data a by (auto simp: list_data_def)
      then show ?thesis using queue_at_other [OF q, of b] u(1) False by simp
    qed
    ultimately have "queue_at ?s (ps @ qs)" unfolding queue_at_def by blast
    then show thesis using that [OF run _ data t(1,3) r(4,5,6)] by simp
  qed
qed

end
section \<open>The invariant of the scheduler\<close>

text \<open>
  \<open>tasks_ok\<close>: the queue is in order, the idle thread exists and is never queued, and threads belong
  to processes that exist. \<open>scheduler_ok\<close>: moreover the current thread is the one that is running.
\<close>

definition tasks_ok :: "('h, 'z) task_mem_scheme \<Rightarrow> (u64 \<rightharpoonup> nat) \<Rightarrow> u64 list \<Rightarrow> bool" where
  "tasks_ok s L ps \<longleftrightarrow> dom (list_nodes s) \<subseteq> dom L \<and> queue_at s ps \<and>
     idle_thread s \<notin> set (list_data s ps) \<and> (\<exists>t. threads s (idle_thread s) = Some t \<and> thread_process t = NULL) \<and>
     threads s NULL = None \<and>
     (\<forall>a t. threads s a = Some t \<longrightarrow> thread_process t \<noteq> NULL \<longrightarrow> processes s (thread_process t) \<noteq> None)"

definition scheduler_ok :: "('h, 'z) task_mem_scheme \<Rightarrow> (u64 \<rightharpoonup> nat) \<Rightarrow> u64 list \<Rightarrow> bool" where
  "scheduler_ok s L ps \<longleftrightarrow> tasks_ok s L ps \<and>
     (\<exists>t. threads s (current_thread s) = Some t \<and> thread_state t = THREAD_STATE_RUNNING) \<and>
     (\<forall>a t. threads s a = Some t \<longrightarrow> thread_state t = THREAD_STATE_RUNNING \<longrightarrow> a = current_thread s)"

lemma tasks_okD:
  assumes "tasks_ok s L ps"
  shows "dom (list_nodes s) \<subseteq> dom L" "queue_at s ps" "idle_thread s \<notin> set (list_data s ps)"
    "\<exists>t. threads s (idle_thread s) = Some t \<and> thread_process t = NULL" "threads s NULL = None"
    "threads s a = Some t \<Longrightarrow> thread_process t \<noteq> NULL \<Longrightarrow> \<exists>p. processes s (thread_process t) = Some p"
  using assms unfolding tasks_ok_def by blast+

lemma running_not_queued:
  assumes "queue_at s ps" "threads s a = Some t" "thread_state t = THREAD_STATE_RUNNING"
  shows "a \<notin> set (list_data s ps)"
proof
  assume "a \<in> set (list_data s ps)"
  then obtain p where p: "p \<in> set ps" "a = node_thread s p" by (auto simp: list_data_def)
  obtain u where "threads s (node_thread s p) = Some u" "runnable u" using queue_at_thread [OF assms(1) p(1)] by blast
  then show False using assms(2,3) p(2) by (simp add: runnable_def)
qed

text \<open>An update of a thread that is not queued and keeps its process.\<close>

lemma tasks_ok_update:
  assumes ok: "tasks_ok s L ps" and a: "a \<notin> set (list_data s ps)" "threads s a = Some t"
    and u: "run_queue_node u = NULL" "thread_process u = thread_process t"
  shows "tasks_ok (s\<lparr>threads := (threads s)(a \<mapsto> u)\<rparr>) L ps"
proof -
  let ?s = "s\<lparr>threads := (threads s)(a \<mapsto> u)\<rparr>"
  have q: "queue_at ?s ps" using tasks_okD(2) [OF ok] a(1) u(1) by (rule queue_at_update)
  have dat: "list_data ?s ps = list_data s ps" by (simp add: list_data_def)
  have "a \<noteq> NULL" using a(2) tasks_okD(5) [OF ok] by auto
  then show ?thesis using q ok a u unfolding tasks_ok_def dat by auto
qed

lemma tasks_ok_cong:
  assumes ok: "tasks_ok s L ps" and h: "list_nodes s' = list_nodes s" "run_queue s' = run_queue s" "threads s' = threads s"
    "idle_thread s' = idle_thread s" "processes s' = processes s"
  shows "tasks_ok s' L ps"
proof -
  have "queue_at s' ps" by (rule queue_at_cong [OF tasks_okD(2) [OF ok]]) (simp_all add: h)
  moreover have "list_data s' ps = list_data s ps" by (simp add: list_data_def h)
  ultimately show ?thesis using ok unfolding tasks_ok_def by (simp add: h)
qed

lemma next_runnable_stop:
  "threads s a = Some t \<Longrightarrow> thread_state t \<noteq> THREAD_STATE_TERMINATED \<Longrightarrow> next_runnable mfree a s = Some (Inr (a, s))"
  by (subst next_runnable.simps) simp

locale kernel_tasks = kernel_allocator malloc mfree inv
  for malloc :: "'h malloc_fn" and mfree :: "'h free_fn" and inv :: "'h \<Rightarrow> nat \<Rightarrow> (u64 \<rightharpoonup> nat) \<Rightarrow> bool" +
  fixes apply_kernel :: "('h, int) prog" and apply_user :: "'h apply_fn"
  assumes apply_kernel_law: "inv h room L \<Longrightarrow> \<exists>h'. apply_kernel h = Inr (0, h') \<and> inv h' room L"
    and apply_user_law: "inv h room L \<Longrightarrow> \<exists>h'. apply_user root h = Inr (0, h') \<and> inv h' room L"
begin

lemma context_switch_run:
  assumes i: "inv (kalloc s) room L" and t: "threads s a = Some t"
    and p: "thread_process t \<noteq> NULL \<Longrightarrow> \<exists>p. processes s (thread_process t) = Some p"
  obtains h where "context_switch apply_user a s = Inr (Switch a, s\<lparr>kalloc := h\<rparr>)" "inv h room L"
proof (cases "thread_process t = NULL")
  case True
  then show thesis using t i by (intro that [of "kalloc s"]) (simp_all add: context_switch_def)
next
  case False
  then obtain q where q: "processes s (thread_process t) = Some q" using p by blast
  obtain h where "apply_user (page_table q) (kalloc s) = Inr (0, h)" "inv h room L" using apply_user_law [OF i] by blast
  then show thesis using t q False by (intro that [of h]) (simp_all add: context_switch_def)
qed

text \<open>
  \<open>scheduler_run\<close> makes the first thread of the queue the running one, or the idle thread when the
  queue is empty.
\<close>

lemma dispatch_run:
  assumes i: "inv (kalloc s) room L" and ok: "tasks_ok s L ps" and a: "a \<notin> set (list_data s ps)" "threads s a = Some t"
    and nq: "run_queue_node t = NULL" and none: "\<And>b u. threads s b = Some u \<Longrightarrow> thread_state u \<noteq> THREAD_STATE_RUNNING"
  obtains h where "dispatch apply_user prev a s =
    Inr (if prev = a then Return () else Switch a, s\<lparr>kalloc := h, current_thread := a,
      threads := (threads s)(a \<mapsto> t\<lparr>thread_state := THREAD_STATE_RUNNING\<rparr>)\<rparr>)" "inv h room L"
    "scheduler_ok (s\<lparr>kalloc := h, current_thread := a,
      threads := (threads s)(a \<mapsto> t\<lparr>thread_state := THREAD_STATE_RUNNING\<rparr>)\<rparr>) L ps"
proof -
  let ?u = "t\<lparr>thread_state := THREAD_STATE_RUNNING\<rparr>"
  let ?s = "s\<lparr>current_thread := a, threads := (threads s)(a \<mapsto> ?u)\<rparr>"
  have ts: "tasks_ok (s\<lparr>threads := (threads s)(a \<mapsto> ?u)\<rparr>) L ps"
    by (rule tasks_ok_update [OF ok a]) (simp_all add: nq)
  have ok': "scheduler_ok (s\<lparr>kalloc := h, current_thread := a, threads := (threads s)(a \<mapsto> ?u)\<rparr>) L ps" for h
    using tasks_ok_cong [OF ts, of "s\<lparr>kalloc := h, current_thread := a, threads := (threads s)(a \<mapsto> ?u)\<rparr>"] none
    by (auto simp: scheduler_ok_def)
  obtain h where h: "context_switch apply_user a ?s = Inr (Switch a, ?s\<lparr>kalloc := h\<rparr>)" "inv h room L"
  proof (rule context_switch_run)
    show "inv (kalloc ?s) room L" using i by simp
    show "threads ?s a = Some ?u" by simp
    show "thread_process ?u \<noteq> NULL \<Longrightarrow> \<exists>p. processes ?s (thread_process ?u) = Some p"
      using tasks_okD(6) [OF ok a(2)] by simp
  qed
  have e: "threads_update (\<lambda>m. m(a \<mapsto> ?u)) (s\<lparr>current_thread := a\<rparr>) = ?s" by simp
  show thesis
  proof (cases "prev = a")
    case True
    then show thesis using a(2) i ok' [of "kalloc s"] by (intro that [of "kalloc s"]) (simp_all add: dispatch_def)
  next
    case False
    then have "dispatch apply_user prev a s = Inr (Switch a, ?s\<lparr>kalloc := h\<rparr>)"
      using a(2) h(1) [folded e] by (simp add: dispatch_def)
    then show thesis using False h(2) ok' [of h] by (intro that [of h]) simp_all
  qed
qed

lemma scheduler_run_run:
  assumes i: "inv (kalloc s) room L" and ok: "tasks_ok s L ps"
    and none: "\<And>b u. threads s b = Some u \<Longrightarrow> thread_state u \<noteq> THREAD_STATE_RUNNING"
    and a: "a = (if ps = [] then idle_thread s else node_thread s (hd ps))"
  obtains h m l t where "threads s a = Some t"
    "scheduler_run mfree apply_user s = Inr (if current_thread s = a then Return () else Switch a,
       s\<lparr>kalloc := h, list_nodes := m, run_queue := l, current_thread := a,
         threads := (threads s)(a \<mapsto> t\<lparr>run_queue_node := NULL, thread_state := THREAD_STATE_RUNNING\<rparr>)\<rparr>)"
    "scheduler_ok (s\<lparr>kalloc := h, list_nodes := m, run_queue := l, current_thread := a,
         threads := (threads s)(a \<mapsto> t\<lparr>run_queue_node := NULL, thread_state := THREAD_STATE_RUNNING\<rparr>)\<rparr>)
       (L |` (- set (take 1 ps))) (tl ps)"
    "inv h room (L |` (- set (take 1 ps)))" "map (fld ll_data m) (tl ps) = tl (list_data s ps)"
    "\<And>q. q \<notin> set ps \<Longrightarrow> m q = list_nodes s q"
proof (cases ps)
  case Nil
  have q: "queue_at s []" using tasks_okD(2) [OF ok] Nil by simp
  then have h: "list_head (run_queue s) = NULL" using list_at_head_null [OF queue_at_list [OF q]] by simp
  obtain t where t: "threads s a = Some t" using tasks_okD(4) [OF ok] a Nil by auto
  have nq: "run_queue_node t = NULL" using queue_at_other [OF q t] by simp
  have out: "a \<notin> set (list_data s ps)" using Nil by simp
  have e: "t\<lparr>run_queue_node := NULL, thread_state := THREAD_STATE_RUNNING\<rparr> = t\<lparr>thread_state := THREAD_STATE_RUNNING\<rparr>"
    using nq by simp
  obtain h where r: "dispatch apply_user (current_thread s) a s =
    Inr (if current_thread s = a then Return () else Switch a, s\<lparr>kalloc := h, current_thread := a,
      threads := (threads s)(a \<mapsto> t\<lparr>thread_state := THREAD_STATE_RUNNING\<rparr>)\<rparr>)" "inv h room L"
    "scheduler_ok (s\<lparr>kalloc := h, current_thread := a,
      threads := (threads s)(a \<mapsto> t\<lparr>thread_state := THREAD_STATE_RUNNING\<rparr>)\<rparr>) L ps"
    by (rule dispatch_run [OF i ok out t nq none])
  have "scheduler_run mfree apply_user s = Inr (if current_thread s = a then Return () else Switch a,
      s\<lparr>kalloc := h, current_thread := a, threads := (threads s)(a \<mapsto> t\<lparr>thread_state := THREAD_STATE_RUNNING\<rparr>)\<rparr>)"
    using r(1) h a Nil by (simp add: scheduler_run_def)
  moreover have "L |` UNIV = L" by (simp add: restrict_map_def)
  ultimately show thesis using t r(2,3) Nil e by (intro that [where h = h and m = "list_nodes s" and l = "run_queue s" and t = t]) simp_all
next
  case (Cons p qs)
  have q: "queue_at s ([] @ p # qs)" using tasks_okD(2) [OF ok] Cons by simp
  have head: "list_head (run_queue s) = p" using list_at_head [OF queue_at_list [OF q]] by simp
  have nz: "p \<noteq> NULL" using dll_nonnull [OF list_at_dll [OF queue_at_list [OF q]]] by auto
  have ap: "a = node_thread s p" using a Cons by simp
  obtain n where n: "list_nodes s p = Some n" using list_at_node [OF queue_at_list [OF q], of p] by auto
  have nd: "ll_data n = a" using n ap by (simp add: fld_def)
  show thesis
  proof (rule scheduler_remove_thread_run [OF i tasks_okD(1) [OF ok] q ap])
    fix l m h and t :: thread
    let ?t = "t\<lparr>run_queue_node := NULL\<rparr>"
    let ?s = "s\<lparr>kalloc := h, list_nodes := m, run_queue := l, threads := (threads s)(a \<mapsto> ?t)\<rparr>" and ?L = "L(p := None)"
    assume r: "scheduler_remove_thread mfree a s = Inr (0, ?s)" "queue_at ?s ([] @ qs)"
      "map (fld ll_data m) ([] @ qs) = list_data s ([] @ qs)" "threads s a = Some t" "runnable t"
      "inv h room ?L" "dom m = dom (list_nodes s) - {p}" "\<And>q. q \<notin> set ([] @ p # qs) \<Longrightarrow> m q = list_nodes s q"
    have dat: "list_data ?s qs = list_data s qs" using r(3) by (simp add: list_data_def)
    have dist: "distinct (a # list_data s qs)" using queue_at_distinct [OF q] ap by (simp add: list_data_def)
    have ok1: "tasks_ok ?s ?L qs"
      unfolding tasks_ok_def
    proof (intro conjI allI impI)
      show "dom (list_nodes ?s) \<subseteq> dom ?L" using r(7) tasks_okD(1) [OF ok] by auto
      show "queue_at ?s qs" using r(2) by simp
      show "idle_thread ?s \<notin> set (list_data ?s qs)" using tasks_okD(3) [OF ok] Cons unfolding dat by (simp add: list_data_def)
      show "\<exists>t. threads ?s (idle_thread ?s) = Some t \<and> thread_process t = NULL"
        using tasks_okD(4) [OF ok] r(4) by auto
      show "threads ?s NULL = None" using tasks_okD(5) [OF ok] r(4) by auto
      fix b u assume "threads ?s b = Some u" "thread_process u \<noteq> NULL"
      then show "processes ?s (thread_process u) \<noteq> None"
        using tasks_okD(6) [OF ok, of a t] tasks_okD(6) [OF ok, of b u] r(4) by (auto split: if_splits)
    qed
    have none1: "thread_state u \<noteq> THREAD_STATE_RUNNING" if "threads ?s b = Some u" for b u
      using that none [of b u] none [of a t] r(4) by (auto split: if_splits)
    have i1: "inv (kalloc ?s) room ?L" using r(6) by simp
    have out: "a \<notin> set (list_data ?s qs)" using dist dat by simp
    have t1: "threads ?s a = Some ?t" by simp
    have nq: "run_queue_node ?t = NULL" by simp
    obtain h' where d: "dispatch apply_user (current_thread s) a ?s =
      Inr (if current_thread s = a then Return () else Switch a, ?s\<lparr>kalloc := h', current_thread := a,
        threads := (threads ?s)(a \<mapsto> ?t\<lparr>thread_state := THREAD_STATE_RUNNING\<rparr>)\<rparr>)" "inv h' room ?L"
      "scheduler_ok (?s\<lparr>kalloc := h', current_thread := a,
        threads := (threads ?s)(a \<mapsto> ?t\<lparr>thread_state := THREAD_STATE_RUNNING\<rparr>)\<rparr>) ?L qs"
      by (rule dispatch_run [OF i1 ok1 out t1 nq none1])
    have "thread_state ?t \<noteq> THREAD_STATE_TERMINATED" using r(5) by (auto simp: runnable_def)
    then have nr: "next_runnable mfree a ?s = Some (Inr (a, ?s))" by (rule next_runnable_stop [OF t1])
    have "a \<noteq> NULL" using r(4) tasks_okD(5) [OF ok] by auto
    then have run: "scheduler_run mfree apply_user s = Inr (if current_thread s = a then Return () else Switch a,
        ?s\<lparr>kalloc := h', current_thread := a, threads := (threads ?s)(a \<mapsto> ?t\<lparr>thread_state := THREAD_STATE_RUNNING\<rparr>)\<rparr>)"
      using d(1) head nz n nd r(1) nr by (simp add: scheduler_run_def)
    have e: "?s\<lparr>kalloc := h', current_thread := a, threads := (threads ?s)(a \<mapsto> ?t\<lparr>thread_state := THREAD_STATE_RUNNING\<rparr>)\<rparr> =
      s\<lparr>kalloc := h', list_nodes := m, run_queue := l, current_thread := a,
        threads := (threads s)(a \<mapsto> t\<lparr>run_queue_node := NULL, thread_state := THREAD_STATE_RUNNING\<rparr>)\<rparr>" by simp
    have L: "?L = L |` (- set (take 1 ps))" using Cons by (auto simp: restrict_map_def)
    show thesis
      by (rule that [where h = h' and m = m and l = l and t = t])
         (use run [unfolded e] d(2) d(3) [unfolded e] r(3,4,8) Cons L [symmetric] in \<open>simp_all add: list_data_def\<close>)
  qed
qed

end
section \<open>Yielding, blocking, waking up, terminating\<close>

text \<open>The thread that runs next, given the queue, and the queue that is left.\<close>

definition next_thread :: "u64 \<Rightarrow> u64 list \<Rightarrow> u64" where
  "next_thread idle q = (if q = [] then idle else hd q)"

lemma scheduler_okD:
  assumes "scheduler_ok s L ps"
  shows "tasks_ok s L ps" "\<exists>t. threads s (current_thread s) = Some t \<and> thread_state t = THREAD_STATE_RUNNING \<and> run_queue_node t = NULL"
    "current_thread s \<notin> set (list_data s ps)"
    "threads s a = Some t \<Longrightarrow> thread_state t = THREAD_STATE_RUNNING \<Longrightarrow> a = current_thread s"
proof -
  show ok: "tasks_ok s L ps" using assms by (simp add: scheduler_ok_def)
  obtain t where t: "threads s (current_thread s) = Some t" "thread_state t = THREAD_STATE_RUNNING"
    using assms by (auto simp: scheduler_ok_def)
  show out: "current_thread s \<notin> set (list_data s ps)" by (rule running_not_queued [OF tasks_okD(2) [OF ok] t])
  show "\<exists>t. threads s (current_thread s) = Some t \<and> thread_state t = THREAD_STATE_RUNNING \<and> run_queue_node t = NULL"
    using t queue_at_other [OF tasks_okD(2) [OF ok] t(1) out] by blast
  show "threads s a = Some t \<Longrightarrow> thread_state t = THREAD_STATE_RUNNING \<Longrightarrow> a = current_thread s" for a t
    using assms by (simp add: scheduler_ok_def)
qed

text \<open>The current thread stops running and is not queued: it blocks or terminates.\<close>

lemma stop_current:
  assumes ok: "scheduler_ok s L ps" and t: "threads s (current_thread s) = Some t"
    and u: "run_queue_node u = NULL" "thread_process u = thread_process t" "thread_state u \<noteq> THREAD_STATE_RUNNING"
  shows "tasks_ok (s\<lparr>threads := (threads s)(current_thread s \<mapsto> u)\<rparr>) L ps"
    "threads (s\<lparr>threads := (threads s)(current_thread s \<mapsto> u)\<rparr>) b = Some x \<Longrightarrow> thread_state x \<noteq> THREAD_STATE_RUNNING"
  using tasks_ok_update [OF scheduler_okD(1,3) [OF ok] t u(1,2)] scheduler_okD(4) [OF ok, of b x] u(3)
  by (auto split: if_splits)

context kernel_tasks
begin

text \<open>What every dispatch has in common, with \<open>q\<close> the queue it chooses from.\<close>

definition dispatches ::
  "('h, 'z) task_mem_scheme \<Rightarrow> nat \<Rightarrow> u64 list \<Rightarrow> unit control \<Rightarrow> ('h, 'z) task_mem_scheme \<Rightarrow> bool" where
  "dispatches s room q r s' \<longleftrightarrow> (\<exists>L' ps'. scheduler_ok s' L' ps' \<and> inv (kalloc s') room L' \<and>
     current_thread s' = next_thread (idle_thread s) q \<and> list_data s' ps' = tl q \<and> idle_thread s' = idle_thread s \<and>
     r = (if current_thread s' = current_thread s then Return () else Switch (current_thread s')))"

lemma scheduler_run_dispatches:
  assumes "inv (kalloc s) room L" "tasks_ok s L ps"
    "\<And>b u. threads s b = Some u \<Longrightarrow> thread_state u \<noteq> THREAD_STATE_RUNNING"
  shows "\<exists>r s'. scheduler_run mfree apply_user s = Inr (r, s') \<and> dispatches s room (list_data s ps) r s'"
proof (rule scheduler_run_run [OF assms refl])
  let ?a = "if ps = [] then idle_thread s else node_thread s (hd ps)"
  fix h m l t
  assume r: "threads s ?a = Some t"
    "scheduler_run mfree apply_user s = Inr (if current_thread s = ?a then Return () else Switch ?a,
       s\<lparr>kalloc := h, list_nodes := m, run_queue := l, current_thread := ?a,
         threads := (threads s)(?a \<mapsto> t\<lparr>run_queue_node := NULL, thread_state := THREAD_STATE_RUNNING\<rparr>)\<rparr>)"
    "scheduler_ok (s\<lparr>kalloc := h, list_nodes := m, run_queue := l, current_thread := ?a,
         threads := (threads s)(?a \<mapsto> t\<lparr>run_queue_node := NULL, thread_state := THREAD_STATE_RUNNING\<rparr>)\<rparr>)
       (L |` (- set (take 1 ps))) (tl ps)"
    "inv h room (L |` (- set (take 1 ps)))" "map (fld ll_data m) (tl ps) = tl (list_data s ps)"
    "\<And>q. q \<notin> set ps \<Longrightarrow> m q = list_nodes s q"
  have a: "?a = next_thread (idle_thread s) (list_data s ps)" by (cases ps) (simp_all add: next_thread_def list_data_def)
  show ?thesis
    unfolding dispatches_def r(2)
    by (intro exI conjI, rule refl, rule r(3)) (use r(4,5) a in \<open>simp_all add: list_data_def\<close>)
qed

text \<open>\<open>scheduler_yield\<close> puts the current thread behind the queue; without memory for the node it is lost.\<close>

lemma scheduler_yield_run:
  assumes i: "inv (kalloc s) (room + 4184) L" and ok: "scheduler_ok s L ps" and ni: "current_thread s \<noteq> idle_thread s"
  shows "\<exists>r s' q. scheduler_yield malloc mfree apply_kernel apply_user frame s = Inr (r, s') \<and> dispatches s room q r s' \<and>
    (q = list_data s ps @ [current_thread s] \<or> q = list_data s ps \<and> refuses malloc LIST_NODE_SIZE (kalloc s))"
proof -
  let ?c = "current_thread s"
  obtain t where t: "threads s ?c = Some t" "run_queue_node t = NULL" using scheduler_okD(2) [OF ok] by blast
  let ?u = "t\<lparr>ctx := (ctx t)\<lparr>registers := map ((!) (frame_registers frame)) [0..<32], ctx_sp := frame_sp frame,
      spsr := frame_spsr frame, elr := frame_elr frame\<rparr>, thread_state := THREAD_STATE_SUSPENDED\<rparr>"
  let ?s = "s\<lparr>threads := (threads s)(?c \<mapsto> ?u)\<rparr>"
  let ?tail = "bnd (within kalloc kalloc_update apply_kernel) (\<lambda>r. thn (kassert (r = 0)) (scheduler_run mfree apply_user))"
  have ts: "tasks_ok ?s L ps" by (rule stop_current(1) [OF ok t(1)]) (simp_all add: t(2))
  have none: "thread_state x \<noteq> THREAD_STATE_RUNNING" if "threads ?s b = Some x" for b x
    by (rule stop_current(2) [OF ok t(1) _ _ _ that]) (simp_all add: t(2))
  have nz: "?c \<noteq> NULL" using t(1) tasks_okD(5) [OF scheduler_okD(1) [OF ok]] by auto
  have dat: "list_data ?s ps = list_data s ps" by (simp add: list_data_def)
  have e: "threads_update (\<lambda>m. m(?c \<mapsto> ?u)) s = ?s" by simp
  have i0: "inv (kalloc ?s) (room + 4184) L" using i by simp
  have u: "threads ?s ?c = Some ?u" "run_queue_node ?u = NULL" "runnable ?u" using t(2) by (simp_all add: runnable_def)
  have y: "scheduler_yield malloc mfree apply_kernel apply_user frame s =
      (case scheduler_add_thread malloc mfree ?c ?s of Inl e \<Rightarrow> Inl e | Inr (_, s1) \<Rightarrow>
        ?tail s1)"
    using t(1) nz unfolding scheduler_yield_def by (simp add: e del: within_run)
  have fin: "\<exists>r s'. ?tail s1 =
      Inr (r, s') \<and> dispatches s room (list_data s1 ps1) r s'"
    if i1: "inv (kalloc s1) room L1" and ts1: "tasks_ok s1 L1 ps1" and n1: "\<forall>b u. threads s1 b = Some u \<longrightarrow> thread_state u \<noteq> THREAD_STATE_RUNNING"
      and id: "idle_thread s1 = idle_thread s" "current_thread s1 = current_thread s" for s1 L1 ps1
  proof -
    obtain h where h: "apply_kernel (kalloc s1) = Inr (0, h)" "inv h room L1" using apply_kernel_law [OF i1] by blast
    let ?s2 = "s1\<lparr>kalloc := h\<rparr>"
    have ts2: "tasks_ok ?s2 L1 ps1" by (rule tasks_ok_cong [OF ts1]) simp_all
    have i2: "inv (kalloc ?s2) room L1" using h(2) by simp
    have n2: "\<And>b u. threads ?s2 b = Some u \<Longrightarrow> thread_state u \<noteq> THREAD_STATE_RUNNING" using n1 by simp
    have "list_data ?s2 ps1 = list_data s1 ps1" by (simp add: list_data_def)
    then show ?thesis using scheduler_run_dispatches [OF i2 ts2 n2] h(1) id by (auto simp: dispatches_def)
  qed
  show ?thesis
  proof (rule scheduler_add_thread_run [OF i0 tasks_okD(1,2) [OF ts] u])
    fix l p m h k
    let ?s1 = "?s\<lparr>kalloc := h, list_nodes := m, run_queue := l, threads := (threads ?s)(?c \<mapsto> ?u\<lparr>run_queue_node := p\<rparr>)\<rparr>"
    assume a: "scheduler_add_thread malloc mfree ?c ?s = Inr (0, ?s1)" "queue_at ?s1 (ps @ [p])"
      "map (fld ll_data m) (ps @ [p]) = list_data ?s ps @ [?c]" "list_nodes ?s p = None" "L p = None" "inv h room (L(p \<mapsto> k))"
      "dom m = insert p (dom (list_nodes ?s))" "\<And>q. q \<notin> set ps \<Longrightarrow> q \<noteq> p \<Longrightarrow> m q = list_nodes ?s q" "p \<noteq> NULL" "p \<notin> set ps"
    have d1: "list_data ?s1 (ps @ [p]) = list_data s ps @ [?c]" using a(3) dat by (simp add: list_data_def)
    have ts1: "tasks_ok ?s1 (L(p \<mapsto> k)) (ps @ [p])"
      unfolding tasks_ok_def d1
    proof (intro conjI allI impI)
      show "dom (list_nodes ?s1) \<subseteq> dom (L(p \<mapsto> k))" using a(7) tasks_okD(1) [OF ts] by auto
      show "queue_at ?s1 (ps @ [p])" by (rule a(2))
      show "idle_thread ?s1 \<notin> set (list_data s ps @ [?c])" using tasks_okD(3) [OF ts] ni dat by simp
      show "\<exists>t. threads ?s1 (idle_thread ?s1) = Some t \<and> thread_process t = NULL"
        using tasks_okD(4) [OF ts] ni by auto
      show "threads ?s1 NULL = None" using tasks_okD(5) [OF ts] nz by simp
      fix b x assume "threads ?s1 b = Some x" "thread_process x \<noteq> NULL"
      then show "processes ?s1 (thread_process x) \<noteq> None"
        using tasks_okD(6) [OF ts, of b x] tasks_okD(6) [OF ts, of ?c ?u] by (auto split: if_splits)
    qed
    have n1: "\<forall>b x. threads ?s1 b = Some x \<longrightarrow> thread_state x \<noteq> THREAD_STATE_RUNNING"
    proof (intro allI impI)
      fix b x assume "threads ?s1 b = Some x"
      then show "thread_state x \<noteq> THREAD_STATE_RUNNING" using none [of b x] by (cases "b = ?c") auto
    qed
    have i1: "inv (kalloc ?s1) room (L(p \<mapsto> k))" using a(6) by simp
    have id: "idle_thread ?s1 = idle_thread s" "current_thread ?s1 = current_thread s" by simp_all
    obtain r s' where f: "?tail ?s1 = Inr (r, s')" "dispatches s room (list_data ?s1 (ps @ [p])) r s'"
      using fin [OF i1 ts1 n1 id] by (elim exE conjE)
    have "scheduler_yield malloc mfree apply_kernel apply_user frame s = Inr (r, s')"
      by (simp only: y a(1) sum.case prod.case f(1))
    moreover have "dispatches s room (list_data s ps @ [?c]) r s'" using f(2) by (simp only: d1)
    ultimately show ?thesis by blast
  next
    fix h assume a: "scheduler_add_thread malloc mfree ?c ?s = Inr (-1, ?s\<lparr>kalloc := h\<rparr>)" "inv h room L"
      "refuses malloc LIST_NODE_SIZE (kalloc ?s)"
    let ?s1 = "?s\<lparr>kalloc := h\<rparr>"
    have ts1: "tasks_ok ?s1 L ps" by (rule tasks_ok_cong [OF ts]) simp_all
    have i1: "inv (kalloc ?s1) room L" using a(2) by simp
    have n1: "\<forall>b x. threads ?s1 b = Some x \<longrightarrow> thread_state x \<noteq> THREAD_STATE_RUNNING"
    proof (intro allI impI)
      fix b x assume "threads ?s1 b = Some x"
      then show "thread_state x \<noteq> THREAD_STATE_RUNNING" using none [of b x] by (cases "b = ?c") auto
    qed
    have d1: "list_data ?s1 ps = list_data s ps" by (simp add: list_data_def)
    have id: "idle_thread ?s1 = idle_thread s" "current_thread ?s1 = current_thread s" by simp_all
    obtain r s' where f: "?tail ?s1 = Inr (r, s')" "dispatches s room (list_data ?s1 ps) r s'"
      using fin [OF i1 ts1 n1 id] by (elim exE conjE)
    have "scheduler_yield malloc mfree apply_kernel apply_user frame s = Inr (r, s')"
      by (simp only: y a(1) sum.case prod.case f(1))
    moreover have "dispatches s room (list_data s ps) r s'" using f(2) by (simp only: d1)
    moreover have "refuses malloc LIST_NODE_SIZE (kalloc s)" using a(3) by simp
    ultimately show ?thesis by blast
  qed
qed

end
text \<open>Blocking and terminating: the current thread leaves, the queue stays.\<close>

context kernel_tasks
begin

lemma scheduler_run_total:
  assumes "inv (kalloc s) room L" "tasks_ok s L ps" "\<forall>b u. threads s b = Some u \<longrightarrow> thread_state u \<noteq> THREAD_STATE_RUNNING"
  shows "\<exists>r s'. scheduler_run mfree apply_user s = Inr (r, s') \<and> dispatches s room (list_data s ps) r s'"
  by (rule scheduler_run_dispatches [OF assms(1,2)]) (use assms(3) in blast)

lemma leave_run:
  assumes i: "inv (kalloc s) room L" and ok: "scheduler_ok s L ps" and t: "threads s (current_thread s) = Some t"
    and u: "run_queue_node u = NULL" "thread_process u = thread_process t" "thread_state u \<noteq> THREAD_STATE_RUNNING"
  obtains h r s' where "apply_kernel (kalloc s) = Inr (0, h)"
    "scheduler_run mfree apply_user (s\<lparr>threads := (threads s)(current_thread s \<mapsto> u), kalloc := h\<rparr>) = Inr (r, s')"
    "dispatches s room (list_data s ps) r s'"
proof -
  let ?s = "s\<lparr>threads := (threads s)(current_thread s \<mapsto> u)\<rparr>"
  obtain h where h: "apply_kernel (kalloc s) = Inr (0, h)" "inv h room L" using apply_kernel_law [OF i] by blast
  let ?s2 = "?s\<lparr>kalloc := h\<rparr>"
  have ts: "tasks_ok ?s L ps" by (rule stop_current(1) [OF ok t u])
  have ts2: "tasks_ok ?s2 L ps" by (rule tasks_ok_cong [OF ts]) simp_all
  have n2: "\<forall>b x. threads ?s2 b = Some x \<longrightarrow> thread_state x \<noteq> THREAD_STATE_RUNNING"
  proof (intro allI impI)
    fix b x assume "threads ?s2 b = Some x"
    then show "thread_state x \<noteq> THREAD_STATE_RUNNING" using stop_current(2) [OF ok t u, of b x] by simp
  qed
  have i2: "inv (kalloc ?s2) room L" using h(2) by simp
  have d: "list_data ?s2 ps = list_data s ps" by (simp add: list_data_def)
  obtain r s' where "scheduler_run mfree apply_user ?s2 = Inr (r, s')" "dispatches ?s2 room (list_data ?s2 ps) r s'"
    using scheduler_run_total [OF i2 ts2 n2] by blast
  then show thesis using that [OF h(1)] d by (simp add: dispatches_def)
qed

lemma scheduler_wait_for_event_run:
  assumes i: "inv (kalloc s) room L" and ok: "scheduler_ok s L ps"
  shows "\<exists>r s'. scheduler_wait_for_event mfree apply_kernel apply_user saved sp s = Inr (r, s') \<and>
    dispatches s room (list_data s ps) r s'"
proof -
  obtain t where t: "threads s (current_thread s) = Some t" "run_queue_node t = NULL" using scheduler_okD(2) [OF ok] by blast
  let ?u = "t\<lparr>ctx := (ctx t)\<lparr>registers := take 19 (registers (ctx t)) @ take 12 saved @ drop 31 (registers (ctx t)),
      ctx_sp := sp, elr := saved ! 11, spsr := SPSR_MODE_EL1_H\<rparr>, thread_state := THREAD_STATE_BLOCKED\<rparr>"
  have e: "(threads_update (\<lambda>m. m(current_thread s \<mapsto> ?u)) s)\<lparr>kalloc := h\<rparr> =
      s\<lparr>threads := (threads s)(current_thread s \<mapsto> ?u), kalloc := h\<rparr>" for h by simp
  have u: "run_queue_node ?u = NULL" "thread_process ?u = thread_process t" "thread_state ?u \<noteq> THREAD_STATE_RUNNING"
    using t(2) by simp_all
  show ?thesis
    by (rule leave_run [OF i ok t(1) u])
       (simp add: scheduler_wait_for_event_def scheduler_save_and_block_def t(1) e)
qed

lemma scheduler_terminate_run:
  assumes i: "inv (kalloc s) room L" and ok: "scheduler_ok s L ps"
  shows "\<exists>r s'. scheduler_terminate mfree apply_kernel apply_user s = Inr (r, s') \<and>
    dispatches s room (list_data s ps) r s'"
proof -
  obtain t where t: "threads s (current_thread s) = Some t" "run_queue_node t = NULL" using scheduler_okD(2) [OF ok] by blast
  let ?u = "t\<lparr>thread_state := THREAD_STATE_TERMINATED\<rparr>"
  have e: "(threads_update (\<lambda>m. m(current_thread s \<mapsto> ?u)) s)\<lparr>kalloc := h\<rparr> =
      s\<lparr>threads := (threads s)(current_thread s \<mapsto> ?u), kalloc := h\<rparr>" for h by simp
  have u: "run_queue_node ?u = NULL" "thread_process ?u = thread_process t" "thread_state ?u \<noteq> THREAD_STATE_RUNNING"
    using t(2) by simp_all
  show ?thesis
    by (rule leave_run [OF i ok t(1) u]) (simp add: scheduler_terminate_def t(1) e)
qed

text \<open>A thread that becomes ready goes to the end of the queue; nothing else changes for the scheduler.\<close>

definition enqueues ::
  "('h, 'z) task_mem_scheme \<Rightarrow> nat \<Rightarrow> u64 list \<Rightarrow> ('h, 'z) task_mem_scheme \<Rightarrow> bool" where
  "enqueues s room q s' \<longleftrightarrow> (\<exists>L' ps'. scheduler_ok s' L' ps' \<and> inv (kalloc s') room L' \<and> list_data s' ps' = q \<and>
     current_thread s' = current_thread s \<and> idle_thread s' = idle_thread s)"

lemma add_thread_enqueues:
  assumes i: "inv (kalloc s) (room + 4184) L" and ok: "scheduler_ok s L ps" and t: "threads s a = Some t" "runnable t"
    "a \<notin> set (list_data s ps)" and ni: "a \<noteq> idle_thread s"
  shows "\<exists>r s' q. scheduler_add_thread malloc mfree a s = Inr (r, s') \<and> enqueues s room q s' \<and>
    (q = list_data s ps @ [a] \<or> q = list_data s ps \<and> refuses malloc LIST_NODE_SIZE (kalloc s))"
proof -
  note ts = scheduler_okD(1) [OF ok]
  have nq: "run_queue_node t = NULL" by (rule queue_at_other [OF tasks_okD(2) [OF ts] t(1,3)])
  show ?thesis
  proof (rule scheduler_add_thread_run [OF i tasks_okD(1,2) [OF ts] t(1) nq t(2)])
    fix l p m h k
    let ?s1 = "s\<lparr>kalloc := h, list_nodes := m, run_queue := l, threads := (threads s)(a \<mapsto> t\<lparr>run_queue_node := p\<rparr>)\<rparr>"
    assume r: "scheduler_add_thread malloc mfree a s = Inr (0, ?s1)" "queue_at ?s1 (ps @ [p])"
      "map (fld ll_data m) (ps @ [p]) = list_data s ps @ [a]" "list_nodes s p = None" "L p = None" "inv h room (L(p \<mapsto> k))"
      "dom m = insert p (dom (list_nodes s))" "\<And>q. q \<notin> set ps \<Longrightarrow> q \<noteq> p \<Longrightarrow> m q = list_nodes s q" "p \<noteq> NULL" "p \<notin> set ps"
    have d1: "list_data ?s1 (ps @ [p]) = list_data s ps @ [a]" using r(3) by (simp add: list_data_def)
    have nz: "a \<noteq> NULL" using t(1) tasks_okD(5) [OF ts] by auto
    have run: "thread_state t \<noteq> THREAD_STATE_RUNNING" using t(2) by (auto simp: runnable_def)
    have ts1: "tasks_ok ?s1 (L(p \<mapsto> k)) (ps @ [p])"
      unfolding tasks_ok_def d1
    proof (intro conjI allI impI)
      show "dom (list_nodes ?s1) \<subseteq> dom (L(p \<mapsto> k))" using r(7) tasks_okD(1) [OF ts] by auto
      show "queue_at ?s1 (ps @ [p])" by (rule r(2))
      show "idle_thread ?s1 \<notin> set (list_data s ps @ [a])" using tasks_okD(3) [OF ts] ni by simp
      show "\<exists>t. threads ?s1 (idle_thread ?s1) = Some t \<and> thread_process t = NULL" using tasks_okD(4) [OF ts] ni by auto
      show "threads ?s1 NULL = None" using tasks_okD(5) [OF ts] nz by simp
      fix b x assume "threads ?s1 b = Some x" "thread_process x \<noteq> NULL"
      then show "processes ?s1 (thread_process x) \<noteq> None"
        using tasks_okD(6) [OF ts, of b x] tasks_okD(6) [OF ts t(1)] by (auto split: if_splits)
    qed
    have ne: "a \<noteq> current_thread s" using scheduler_okD(2) [OF ok] t(1) run by auto
    have "scheduler_ok ?s1 (L(p \<mapsto> k)) (ps @ [p])"
      unfolding scheduler_ok_def
    proof (intro conjI allI impI)
      show "\<exists>t. threads ?s1 (current_thread ?s1) = Some t \<and> thread_state t = THREAD_STATE_RUNNING"
        using scheduler_okD(2) [OF ok] ne by auto
      fix b x assume "threads ?s1 b = Some x" "thread_state x = THREAD_STATE_RUNNING"
      then show "b = current_thread ?s1" using scheduler_okD(4) [OF ok, of b x] run by (cases "b = a") auto
    qed (rule ts1)
    then have "enqueues s room (list_data s ps @ [a]) ?s1"
      unfolding enqueues_def using r(6) d1
      by (intro exI [of _ "L(p \<mapsto> k)"] exI [of _ "ps @ [p]"] conjI) (simp_all del: list_data_append)
    then show ?thesis using r(1) by blast
  next
    fix h assume r: "scheduler_add_thread malloc mfree a s = Inr (-1, s\<lparr>kalloc := h\<rparr>)" "inv h room L"
      "refuses malloc LIST_NODE_SIZE (kalloc s)"
    have "tasks_ok (s\<lparr>kalloc := h\<rparr>) L ps" by (rule tasks_ok_cong [OF ts]) simp_all
    then have "scheduler_ok (s\<lparr>kalloc := h\<rparr>) L ps" using ok by (simp add: scheduler_ok_def)
    then have "enqueues s room (list_data s ps) (s\<lparr>kalloc := h\<rparr>)"
      unfolding enqueues_def using r(2) by (intro exI conjI) (simp_all add: list_data_def)
    then show ?thesis using r(1,3) by blast
  qed
qed

lemma scheduler_wake_up_run:
  assumes i: "inv (kalloc s) (room + 4184) L" and ok: "scheduler_ok s L ps" and t: "threads s a = Some t"
    "thread_state t = THREAD_STATE_BLOCKED" and ni: "a \<noteq> idle_thread s"
  shows "\<exists>s' q. scheduler_wake_up malloc mfree a s = Inr ((), s') \<and> enqueues s room q s' \<and>
    (q = list_data s ps @ [a] \<or> q = list_data s ps \<and> refuses malloc LIST_NODE_SIZE (kalloc s))"
proof -
  note ts = scheduler_okD(1) [OF ok]
  let ?u = "t\<lparr>thread_state := THREAD_STATE_SUSPENDED\<rparr>"
  let ?s = "s\<lparr>threads := (threads s)(a \<mapsto> ?u)\<rparr>"
  have out: "a \<notin> set (list_data s ps)"
  proof
    assume "a \<in> set (list_data s ps)"
    then obtain p where "p \<in> set ps" "a = node_thread s p" by (auto simp: list_data_def)
    then show False using queue_at_thread [OF tasks_okD(2) [OF ts], of p] t by (auto simp: runnable_def)
  qed
  have nq: "run_queue_node t = NULL" by (rule queue_at_other [OF tasks_okD(2) [OF ts] t(1) out])
  have ts1: "tasks_ok ?s L ps" by (rule tasks_ok_update [OF ts out t(1)]) (simp_all add: nq)
  have ne: "a \<noteq> current_thread s" using scheduler_okD(2) [OF ok] t by auto
  have ok1: "scheduler_ok ?s L ps"
    unfolding scheduler_ok_def
  proof (intro conjI allI impI)
    show "\<exists>t. threads ?s (current_thread ?s) = Some t \<and> thread_state t = THREAD_STATE_RUNNING"
      using scheduler_okD(2) [OF ok] ne by auto
    fix b x assume "threads ?s b = Some x" "thread_state x = THREAD_STATE_RUNNING"
    then show "b = current_thread ?s" using scheduler_okD(4) [OF ok, of b x] by (cases "b = a") auto
  qed (rule ts1)
  have d: "list_data ?s ps = list_data s ps" by (simp add: list_data_def)
  have e: "threads_update (\<lambda>m. m(a \<mapsto> ?u)) s = ?s" by simp
  have i1: "inv (kalloc ?s) (room + 4184) L" using i by simp
  have pre: "threads ?s a = Some ?u" "runnable ?u" "a \<notin> set (list_data ?s ps)" "a \<noteq> idle_thread ?s"
    using out ni d by (simp_all add: runnable_def)
  obtain r s' q where r: "scheduler_add_thread malloc mfree a ?s = Inr (r, s')" "enqueues ?s room q s'"
    "q = list_data ?s ps @ [a] \<or> q = list_data ?s ps \<and> refuses malloc LIST_NODE_SIZE (kalloc ?s)"
    using add_thread_enqueues [OF i1 ok1 pre] by blast
  have "scheduler_wake_up malloc mfree a s = Inr ((), s')"
    using t r(1) by (simp add: scheduler_wake_up_def e)
  moreover have "enqueues s room q s'" using r(2) by (simp add: enqueues_def)
  moreover have "kalloc ?s = kalloc s" by simp
  ultimately show ?thesis using r(3) unfolding d by metis
qed

end
section \<open>The scheduler as a state machine\<close>

text \<open>
  What can happen to the scheduler: the current thread yields, waits or terminates, or the running
  kernel code starts a thread or wakes one up. The first three choose a new current thread.
\<close>

datatype sched_event = Yield exception_frame | Wait "u64 list" u64 | Terminate | Wake_Up u64 | Start u64

fun dispatching :: "sched_event \<Rightarrow> bool" where
  "dispatching (Yield frame) = True"
| "dispatching (Wait saved sp) = True"
| "dispatching Terminate = True"
| "dispatching (Wake_Up t) = False"
| "dispatching (Start t) = False"

definition perform ::
  "'h malloc_fn \<Rightarrow> 'h free_fn \<Rightarrow> ('h, int) prog \<Rightarrow> 'h apply_fn \<Rightarrow> sched_event \<Rightarrow> (('h, 'z) task_mem_scheme, unit) prog" where
  "perform malloc mfree apply_kernel apply_user e = (case e of
     Yield frame \<Rightarrow> bnd (scheduler_yield malloc mfree apply_kernel apply_user frame) (\<lambda>_. ret ())
   | Wait saved sp \<Rightarrow> bnd (scheduler_wait_for_event mfree apply_kernel apply_user saved sp) (\<lambda>_. ret ())
   | Terminate \<Rightarrow> bnd (scheduler_terminate mfree apply_kernel apply_user) (\<lambda>_. ret ())
   | Wake_Up t \<Rightarrow> scheduler_wake_up malloc mfree t
   | Start t \<Rightarrow> bnd (thread_start malloc mfree t) (\<lambda>_. ret ()))"

fun perform_all ::
  "'h malloc_fn \<Rightarrow> 'h free_fn \<Rightarrow> ('h, int) prog \<Rightarrow> 'h apply_fn \<Rightarrow> sched_event list
     \<Rightarrow> (('h, 'z) task_mem_scheme, unit) prog" where
  "perform_all malloc mfree apply_kernel apply_user [] = ret ()"
| "perform_all malloc mfree apply_kernel apply_user (e # es) =
     thn (perform malloc mfree apply_kernel apply_user e) (perform_all malloc mfree apply_kernel apply_user es)"

context kernel_tasks
begin

text \<open>One event, with \<open>q\<close> the queue before and \<open>more\<close> what the event adds to its end.\<close>

lemma perform_dispatching:
  assumes i: "inv (kalloc s) (room + 4184) L" and ok: "scheduler_ok s L ps" and ni: "current_thread s \<noteq> idle_thread s"
    and e: "dispatching e"
  shows "\<exists>r s' more. perform malloc mfree apply_kernel apply_user e s = Inr ((), s') \<and>
    dispatches s room (list_data s ps @ more) r s'"
proof -
  have i0: "inv (kalloc s) room L" by (rule inv_mono [OF i]) simp
  show ?thesis
  proof (cases e)
    case (Yield frame)
    then show ?thesis using scheduler_yield_run [OF i ok ni, of frame] by (fastforce simp: perform_def intro: exI [of _ "[]"])
  next
    case (Wait saved sp)
    obtain r s' where "scheduler_wait_for_event mfree apply_kernel apply_user saved sp s = Inr (r, s')" "dispatches s room (list_data s ps) r s'"
      using scheduler_wait_for_event_run [OF i0 ok] by blast
    then show ?thesis using Wait by (intro exI [of _ r] exI [of _ s'] exI [of _ "[]"]) (simp add: perform_def)
  next
    case Terminate
    obtain r s' where "scheduler_terminate mfree apply_kernel apply_user s = Inr (r, s')" "dispatches s room (list_data s ps) r s'"
      using scheduler_terminate_run [OF i0 ok] by blast
    then show ?thesis using Terminate by (intro exI [of _ r] exI [of _ s'] exI [of _ "[]"]) (simp add: perform_def)
  qed (use e in simp_all)
qed

lemma perform_other:
  assumes i: "inv (kalloc s) (room + 4184) L" and ok: "scheduler_ok s L ps" and e: "\<not> dispatching e"
    and ni: "e \<noteq> Wake_Up (idle_thread s)" "e \<noteq> Start (idle_thread s)"
  shows "(\<exists>s' more. perform malloc mfree apply_kernel apply_user e s = Inr ((), s') \<and> enqueues s room (list_data s ps @ more) s') \<or>
    (\<exists>x. perform malloc mfree apply_kernel apply_user e s = Inl x)"
proof (cases e)
  case (Wake_Up a)
  then have ne: "a \<noteq> idle_thread s" using ni by blast
  show ?thesis
  proof (cases "\<exists>t. threads s a = Some t \<and> thread_state t = THREAD_STATE_BLOCKED")
    case True
    then obtain t where t: "threads s a = Some t" "thread_state t = THREAD_STATE_BLOCKED" by blast
    then obtain s' more where "scheduler_wake_up malloc mfree a s = Inr ((), s')" "enqueues s room (list_data s ps @ more) s'"
      using scheduler_wake_up_run [OF i ok t ne] by (metis append_Nil2)
    then show ?thesis using Wake_Up by (auto simp: perform_def)
  next
    case False
    then have "\<exists>x. scheduler_wake_up malloc mfree a s = Inl x" by (auto simp: scheduler_wake_up_def split: option.splits)
    then show ?thesis using Wake_Up by (simp add: perform_def)
  qed
next
  case (Start a)
  then have ne: "a \<noteq> idle_thread s" using ni by blast
  note ts = scheduler_okD(1) [OF ok]
  show ?thesis
  proof (cases "\<exists>t. threads s a = Some t \<and> run_queue_node t = NULL \<and> runnable t")
    case True
    then obtain t where t: "threads s a = Some t" "run_queue_node t = NULL" "runnable t" by blast
    have "a \<notin> set (list_data s ps)" using queued_iff [OF tasks_okD(2) [OF ts] t(1)] t(2) by simp
    then obtain r s' more where "scheduler_add_thread malloc mfree a s = Inr (r, s')" "enqueues s room (list_data s ps @ more) s'"
      using add_thread_enqueues [OF i ok t(1,3) _ ne] by (metis append_Nil2)
    then show ?thesis using Start by (auto simp: perform_def thread_start_def)
  next
    case False
    then have "\<exists>x. scheduler_add_thread malloc mfree a s = Inl x"
      by (auto simp: scheduler_add_thread_def runnable_def split: option.splits)
    then show ?thesis using Start by (auto simp: perform_def thread_start_def)
  qed
qed (use e in simp_all)

text \<open>
  No thread starves: whatever the threads do, the thread at position \<open>k\<close> of the queue runs after
  \<open>k + 1\<close> dispatches.
\<close>

lemma starvation_free:
  assumes "scheduler_ok s L ps" "current_thread s \<noteq> idle_thread s"
    "k < length ps" "a = list_data s ps ! k" "length (filter dispatching es) = k"
    "dispatching e" "\<forall>x \<in> set es. x \<noteq> Wake_Up (idle_thread s) \<and> x \<noteq> Start (idle_thread s)"
    "inv (kalloc s) (room + 4184 * length (es @ [e])) L"
  shows "(\<exists>s'. perform_all malloc mfree apply_kernel apply_user (es @ [e]) s = Inr ((), s') \<and> current_thread s' = a) \<or>
    (\<exists>f. perform_all malloc mfree apply_kernel apply_user (es @ [e]) s = Inl f) \<and> (\<exists>x \<in> set es. \<not> dispatching x)"
  using assms
proof (induction es arbitrary: s L ps k)
  case Nil
  have i: "inv (kalloc s) (room + 4184) L" using Nil.prems(8) by simp
  obtain r s' more where r: "perform malloc mfree apply_kernel apply_user e s = Inr ((), s')"
    "dispatches s room (list_data s ps @ more) r s'" using perform_dispatching [OF i Nil.prems(1,2,6)] by blast
  have "current_thread s' = a" using r(2) Nil.prems(3-5)
    by (cases ps) (auto simp: dispatches_def next_thread_def list_data_def)
  then show ?case using r(1) by simp
next
  case (Cons x es)
  let ?room = "room + 4184 * length (es @ [e])"
  have i: "inv (kalloc s) (?room + 4184) L" using Cons.prems(8) by (simp add: algebra_simps)
  have ne: "list_data s ps \<noteq> []" using Cons.prems(3) by (auto simp: list_data_def)
  have idle: "idle_thread s \<notin> set (list_data s ps)" by (rule tasks_okD(3) [OF scheduler_okD(1) [OF Cons.prems(1)]])
  show ?case
  proof (cases "dispatching x")
    case True
    obtain r t more where r: "perform malloc mfree apply_kernel apply_user x s = Inr ((), t)"
      "dispatches s ?room (list_data s ps @ more) r t" using perform_dispatching [OF i Cons.prems(1,2) True] by blast
    then obtain L' qs where t: "scheduler_ok t L' qs" "inv (kalloc t) ?room L'" "list_data t qs = tl (list_data s ps @ more)"
      "current_thread t = hd (list_data s ps @ more)" "idle_thread t = idle_thread s"
      using ne by (auto simp: dispatches_def next_thread_def)
    obtain j where k: "k = Suc j" using Cons.prems(5) True by (cases k) simp_all
    have len: "length qs = length (tl (list_data s ps @ more))" using t(3) by (metis length_map list_data_def)
    have 1: "current_thread t \<noteq> idle_thread t"
      using idle t(4,5) ne by (metis hd_append2 hd_in_set)
    have 2: "j < length qs" using len k Cons.prems(3) by (simp add: list_data_def)
    have "j < length ps - 1" using Cons.prems(3) k by arith
    then have 3: "a = list_data t qs ! j" using t(3) k Cons.prems(3,4) ne
      by (simp add: nth_tl list_data_def nth_append)
    have 4: "length (filter dispatching es) = j" using Cons.prems(5) True k by simp
    have 5: "\<forall>x \<in> set es. x \<noteq> Wake_Up (idle_thread t) \<and> x \<noteq> Start (idle_thread t)" using Cons.prems(7) t(5) by simp
    show ?thesis using Cons.IH [OF t(1) 1 2 3 4 Cons.prems(6) 5 t(2)] r(1) by auto
  next
    case False
    have nw: "x \<noteq> Wake_Up (idle_thread s)" "x \<noteq> Start (idle_thread s)" using Cons.prems(7) by simp_all
    consider t more where "perform malloc mfree apply_kernel apply_user x s = Inr ((), t)" "enqueues s ?room (list_data s ps @ more) t"
      | f where "perform malloc mfree apply_kernel apply_user x s = Inl f"
      using perform_other [OF i Cons.prems(1) False nw] by blast
    then show ?thesis
    proof cases
      case (1 t more)
      then obtain L' qs where t: "scheduler_ok t L' qs" "inv (kalloc t) ?room L'" "list_data t qs = list_data s ps @ more"
        "current_thread t = current_thread s" "idle_thread t = idle_thread s" by (auto simp: enqueues_def)
      have len: "length qs = length (list_data s ps @ more)" using t(3) by (metis length_map list_data_def)
      have 1: "current_thread t \<noteq> idle_thread t" using t(4,5) Cons.prems(2) by simp
      have 2: "k < length qs" using len Cons.prems(3) by (simp add: list_data_def)
      have 3: "a = list_data t qs ! k" using t(3) Cons.prems(3,4) by (simp add: nth_append list_data_def)
      have 4: "length (filter dispatching es) = k" using Cons.prems(5) False by simp
      have 5: "\<forall>x \<in> set es. x \<noteq> Wake_Up (idle_thread t) \<and> x \<noteq> Start (idle_thread t)" using Cons.prems(7) t(5) by simp
      show ?thesis using Cons.IH [OF t(1) 1 2 3 4 Cons.prems(6) 5 t(2)] \<open>perform _ _ _ _ x s = Inr ((), t)\<close> False by auto
    next
      case 2
      then show ?thesis using False by auto
    qed
  qed
qed

end

end
