(* ===== verification/Kernel_Tasks.thy ===== *)
theory Kernel_Tasks
  imports Containers Scheduler
begin

text \<open>
  The containers and the scheduler on the kernel's heap: \<open>kmalloc\<close> and \<open>kfree\<close> as the allocator,
  \<open>mmap_apply_mappings\<close> and \<open>vmap_apply_table\<close> on the machine below it.
\<close>

section \<open>The interfaces\<close>

text \<open>\<open>mmap_apply_mappings\<close>, and \<open>vmap_apply_table(page_table, VMAP_DESTINATION_USER)\<close>.\<close>

definition apply_kernel_mappings :: "(kernel_heap, int) prog" where
  "apply_kernel_mappings = within backend backend_update mmap_apply_mappings"

definition apply_user_table :: "u64 \<Rightarrow> (kernel_heap, int) prog" where
  "apply_user_table root = within backend backend_update
     (vmap_apply_table (build_vmap_table root :: kernel_heap_state vmap) VMAP_DESTINATION_USER)"

text \<open>The translation registers matter for the heap only in that TTBR1 holds the kernel's tables.\<close>

lemma backend_regs:
  assumes ok: "heap_backend_ok k" and r: "drop_bit 1 r1 = drop_bit 1 (heap_root k)"
  shows "heap_backend_ok (k\<lparr>tcr_el1 := c, ttbr0_el1 := r0, ttbr1_el1 := r1\<rparr>)"
proof -
  let ?k = "k\<lparr>tcr_el1 := c, ttbr0_el1 := r0, ttbr1_el1 := r1\<rparr>"
  have 1: "mmap_avail ?k = mmap_avail k" "pages_avail ?k = pages_avail k" "kernel_tables ?k = kernel_tables k"
    by (simp_all add: mmap_avail_def pages_avail_def kernel_tables_def)
  have v: "mmap_vmap va ?k = mmap_vmap va k" for va by (simp add: mmap_vmap_def get_ttbr_table_def)
  have t: "mmap_translate ?k va = mmap_translate k va" for va by (simp add: mmap_translate_def v vtranslate_def get_ttbr_table_def)
  have "mmap_physical_to_virtual ?k = mmap_physical_to_virtual k" by (simp add: fun_eq_iff mmap_physical_to_virtual_def)
  moreover have "direct_map_ok ?k = direct_map_ok k"
    by (simp add: direct_map_ok_def direct_mapped_def mmap_inv_def mmap_pages_ok_def vmap_inv_def v t 1)
  ultimately have p: "pages_ok ?k = pages_ok k" by (simp add: pages_ok_def 1)
  have h: "heap_translate ?k va = heap_translate k va" for va by (simp add: heap_translate_def vtranslate_def)
  have "heap_pages_ok ?k = heap_pages_ok k" by (simp add: heap_pages_ok_def p h 1 no_block_def)
  moreover have "heap_regs_ok ?k" using ok r by (simp add: heap_backend_ok_def heap_regs_ok_def)
  ultimately show ?thesis using ok by (simp add: heap_backend_ok_def)
qed

lemma heap_inv_backend:
  assumes i: "kernel_heap_inv h room L" and ok: "heap_backend_ok k'"
    and t: "\<And>v. heap_translate k' v = heap_translate (backend h) v"
  shows "kernel_heap_inv (h\<lparr>backend := k'\<rparr>) room L"
  using i ok unfolding heap_inv_def by (auto simp: heap_shape_def t)

lemma regs_translate [simp]: "heap_translate (k\<lparr>tcr_el1 := c, ttbr0_el1 := r0, ttbr1_el1 := r1\<rparr>) v = heap_translate k v"
  by (simp add: heap_translate_def vtranslate_def)

lemma drop_bit_clear_0: "drop_bit 1 (r AND NOT 1 :: u64) = drop_bit 1 r"
  by (rule bit_word_eqI)
     (simp only: bit_drop_bit_eq comp_def bit_and_iff bit_not_iff bit_1_iff, auto dest: bit_imp_le_length)

interpretation kernel: kernel_tasks kmalloc kfree kernel_heap_inv apply_kernel_mappings apply_user_table
proof
  fix h room L
  assume i: "kernel_heap_inv h room L"
  let ?k = "backend h"
  have ok: "heap_backend_ok ?k" using i by (simp add: heap_inv_def)
  then have regs: "heap_root ?k = g_ttbr1_table ?k" "drop_bit 1 (ttbr1_el1 ?k) = drop_bit 1 (heap_root ?k)"
    by (simp_all add: heap_backend_ok_def heap_regs_ok_def)
  let ?c = "tcr_for VMAP_DESTINATION_KERNEL (tcr_for VMAP_DESTINATION_USER (tcr_el1 ?k))"
  have c: "mmap_apply_mappings ?k = Inr (0, ?k\<lparr>tcr_el1 := ?c, ttbr0_el1 := g_ttbr0_table ?k AND NOT 1,
      ttbr1_el1 := g_ttbr1_table ?k AND NOT 1\<rparr>)"
    by (simp add: mmap_apply_mappings_def vmap_apply_table_def)
  have "drop_bit 1 (g_ttbr1_table ?k AND NOT 1) = drop_bit 1 (heap_root ?k)" unfolding regs(1) by (rule drop_bit_clear_0)
  from backend_regs [OF ok this] show "\<exists>h'. apply_kernel_mappings h = Inr (0, h') \<and> kernel_heap_inv h' room L"
    using heap_inv_backend [OF i, of "?k\<lparr>tcr_el1 := ?c, ttbr0_el1 := g_ttbr0_table ?k AND NOT 1, ttbr1_el1 := g_ttbr1_table ?k AND NOT 1\<rparr>"]
    by (simp add: apply_kernel_mappings_def c)
  fix root
  let ?c = "tcr_for VMAP_DESTINATION_USER (tcr_el1 ?k)"
  have c: "vmap_apply_table (build_vmap_table root :: kernel_heap_state vmap) VMAP_DESTINATION_USER ?k =
      Inr (0, ?k\<lparr>tcr_el1 := ?c, ttbr0_el1 := root AND NOT 1, ttbr1_el1 := ttbr1_el1 ?k\<rparr>)"
    by (simp add: vmap_apply_table_def)
  let ?k2 = "?k\<lparr>tcr_el1 := ?c, ttbr0_el1 := root AND NOT 1\<rparr>"
  have ok2: "heap_backend_ok ?k2" using backend_regs [OF ok regs(2), where c = ?c and ?r0.0 = "root AND NOT 1"] by simp
  have t2: "heap_translate ?k2 v = heap_translate ?k v" for v by (simp add: heap_translate_def vtranslate_def)
  have "kernel_heap_inv (h\<lparr>backend := ?k2\<rparr>) room L" by (rule heap_inv_backend [OF i ok2 t2])
  moreover have "apply_user_table root h = Inr (0, h\<lparr>backend := ?k2\<rparr>)" using c by (simp add: apply_user_table_def)
  ultimately show "\<exists>h'. apply_user_table root h = Inr (0, h') \<and> kernel_heap_inv h' room L" by blast
qed
section \<open>A sample state of the scheduler\<close>

text \<open>One thread is running, one is ready; the node of the run queue is the block at \<open>p\<close>.\<close>

definition sample_thread :: "thread_state \<Rightarrow> u64 \<Rightarrow> thread" where
  "sample_thread st node = \<lparr>thread_process = NULL, kernel_stack_top = 0, stack_top = 0, thread_state = st,
     thread_type = THREAD_TYPE_KERNEL, ctx = zero_context, run_queue_node = node\<rparr>"

definition sample_tasks :: "kernel_heap \<Rightarrow> u64 \<Rightarrow> kernel_heap task_mem" where
  "sample_tasks h p = \<lparr>kalloc = h, ram = (\<lambda>_. 0), accessible = (\<lambda>_. False), raw = Map.empty,
     list_nodes = [p \<mapsto> \<lparr>ll_data = 3, ll_next = NULL, ll_prev = NULL, list_is_owner = 1\<rparr>],
     hash_nodes = Map.empty,
     threads = [1 \<mapsto> sample_thread THREAD_STATE_READY NULL, 2 \<mapsto> sample_thread THREAD_STATE_RUNNING NULL,
       3 \<mapsto> sample_thread THREAD_STATE_READY p],
     processes = Map.empty, current_thread = 2, run_queue = \<lparr>list_head = p, list_tail = p\<rparr>, idle_thread = 1\<rparr>"

lemma sample_tasks_ok:
  assumes "p \<noteq> NULL"
  shows "scheduler_ok (sample_tasks h p) [p \<mapsto> k] [p]" "list_data (sample_tasks h p) [p] = [3]"
proof -
  let ?s = "sample_tasks h p"
  show d: "list_data ?s [p] = [3]" by (simp add: list_data_def sample_tasks_def fld_def)
  have "dll (fld ll_next (list_nodes ?s)) (fld ll_prev (list_nodes ?s)) p p [p]"
    using assms by (intro dll_singleton) (simp_all add: sample_tasks_def fld_def)
  then have l: "list_at ?s (run_queue ?s) [p]" by (simp add: list_at_def sample_tasks_def)
  have "queue_at ?s [p]"
    unfolding queue_at_def d using l
    by (auto simp: sample_tasks_def sample_thread_def runnable_def fld_def split: if_splits)
  then have "tasks_ok ?s [p \<mapsto> k] [p]"
    unfolding tasks_ok_def d by (auto simp: sample_tasks_def sample_thread_def split: if_splits)
  then show "scheduler_ok ?s [p \<mapsto> k] [p]"
    by (auto simp: scheduler_ok_def sample_tasks_def sample_thread_def split: if_splits)
qed

lemma sample_tasks_exist:
  "\<exists>(s :: kernel_heap task_mem) L p. scheduler_ok s L [p] \<and> kernel_heap_inv (kalloc s) 0x5FFFC000 L \<and> list_data s [p] = [3] \<and>
     current_thread s \<noteq> idle_thread s \<and> idle_thread s = 1 \<and> \<not> out_of_memory (kalloc s) LIST_NODE_SIZE"
proof -
  obtain h p k where h: "kernel_heap_inv h 0x5FFFC000 [p \<mapsto> k]" and fits: "\<forall>n. unat n \<le> 3784 \<longrightarrow> fits h n"
    using sample_block by blast
  have out: "\<not> out_of_memory h LIST_NODE_SIZE" using fits by (simp add: out_of_memory_def LIST_NODE_SIZE_def)
  have "p \<noteq> NULL" using heap_regions(1) [OF h, of p k] by simp
  from sample_tasks_ok [OF this] h out show ?thesis
    by (intro exI [of _ "sample_tasks h p"] exI [of _ "[p \<mapsto> k]"] exI [of _ p]) (simp add: sample_tasks_def)
qed

section \<open>The scheduler\<close>

abbreviation kernel_perform :: "sched_event \<Rightarrow> ((kernel_heap, 'z) task_mem_scheme, unit) prog" where
  "kernel_perform \<equiv> perform kmalloc kfree apply_kernel_mappings apply_user_table"

abbreviation kernel_run :: "sched_event list \<Rightarrow> ((kernel_heap, 'z) task_mem_scheme, unit) prog" where
  "kernel_run \<equiv> perform_all kmalloc kfree apply_kernel_mappings apply_user_table"

text \<open>C13: Every operation of the scheduler preserves its invariant: exactly one thread is running, the
  run queue is a well-formed list of distinct threads that are ready or suspended, each of them
  knows its node, no other thread claims to be queued, and the nodes are allocated blocks of the
  heap. The first event that can break it is a yield of the idle thread, which never yields, and
  waking up or starting the idle thread.\<close>

theorem scheduler_invariant:
  assumes "kernel_heap_inv (kalloc s) (room + 4184) L" and "scheduler_ok s L ps"
    and "current_thread s \<noteq> idle_thread s \<or> \<not> dispatching e"
    and "e \<noteq> Wake_Up (idle_thread s)" "e \<noteq> Start (idle_thread s)"
    and "kernel_perform e s = Inr ((), s')"
  shows "\<exists>L' ps'. scheduler_ok s' L' ps' \<and> kernel_heap_inv (kalloc s') room L' \<and> idle_thread s' = idle_thread s \<and>
    distinct (list_data s' ps') \<and> current_thread s' \<notin> set (list_data s' ps')"
proof -
  have "\<exists>L' ps'. scheduler_ok s' L' ps' \<and> kernel_heap_inv (kalloc s') room L' \<and> idle_thread s' = idle_thread s"
  proof (cases "dispatching e")
    case True
    then have ni: "current_thread s \<noteq> idle_thread s" using assms(3) by blast
    show ?thesis using kernel.perform_dispatching [OF assms(1,2) ni True]
      unfolding kernel.dispatches_def assms(6) by blast
  next
    case False
    show ?thesis using kernel.perform_other [OF assms(1,2) False assms(4,5)]
      unfolding kernel.enqueues_def assms(6) by blast
  qed
  then obtain L' ps' where s': "scheduler_ok s' L' ps'" "kernel_heap_inv (kalloc s') room L'" "idle_thread s' = idle_thread s"
    by blast
  then show ?thesis
    using scheduler_okD(3) [OF s'(1)] queue_at_distinct [OF tasks_okD(2) [OF scheduler_okD(1) [OF s'(1)]]] by blast
qed

theorem scheduler_invariant_witness:
  "\<exists>(s :: kernel_heap task_mem) s' L' ps'. kernel_perform Terminate s = Inr ((), s') \<and> scheduler_ok s' L' ps'"
proof -
  obtain s :: "kernel_heap task_mem" and L p where s: "scheduler_ok s L [p]" "kernel_heap_inv (kalloc s) 0x5FFFC000 L"
    "current_thread s \<noteq> idle_thread s" using sample_tasks_exist by blast
  have i: "kernel_heap_inv (kalloc s) (0x5FFF0000 + 4184) L" by (rule heap_inv_mono [OF s(2)]) simp
  obtain s' where r: "kernel_perform Terminate s = Inr ((), s')"
    using kernel.perform_dispatching [OF i s(1,3), of Terminate] by auto
  have c: "current_thread s \<noteq> idle_thread s \<or> \<not> dispatching Terminate" using s(3) by simp
  from scheduler_invariant [OF i s(1) c _ _ r] r show ?thesis by blast
qed

text \<open>C14: No thread starves. Whatever the threads and the kernel do, the thread at position \<open>k\<close> of the
  run queue is the running one after \<open>k + 1\<close> yields, waits or terminations, however many threads
  are started or woken up in between. The run can fail to get there only by an assertion in one of
  these wake-ups or starts (of a thread that does not exist or is not waiting).\<close>

theorem scheduler_no_starvation:
  assumes "scheduler_ok s L ps" and "current_thread s \<noteq> idle_thread s" and "k < length ps"
    and "length (filter dispatching es) = k" and "dispatching e"
    and "\<forall>x \<in> set es. x \<noteq> Wake_Up (idle_thread s) \<and> x \<noteq> Start (idle_thread s)"
    and "kernel_heap_inv (kalloc s) (room + 4184 * length (es @ [e])) L"
  shows "(\<exists>s'. kernel_run (es @ [e]) s = Inr ((), s') \<and> current_thread s' = list_data s ps ! k) \<or>
    (\<exists>f. kernel_run (es @ [e]) s = Inl f) \<and> (\<exists>x \<in> set es. \<not> dispatching x)"
  by (rule kernel.starvation_free [OF assms(1-3) refl assms(4-7)])

theorem scheduler_no_starvation_witness:
  "\<exists>(s :: kernel_heap task_mem) s'. kernel_run [Terminate] s = Inr ((), s') \<and> current_thread s' = 3"
proof -
  obtain s :: "kernel_heap task_mem" and L p where s: "scheduler_ok s L [p]" "kernel_heap_inv (kalloc s) 0x5FFFC000 L"
    "list_data s [p] = [3]" "current_thread s \<noteq> idle_thread s" using sample_tasks_exist by blast
  have i: "kernel_heap_inv (kalloc s) (0x5FFF0000 + 4184 * length ([] @ [Terminate])) L" by (rule heap_inv_mono [OF s(2)]) simp
  have "(\<exists>s'. kernel_run ([] @ [Terminate]) s = Inr ((), s') \<and> current_thread s' = list_data s [p] ! 0) \<or>
    (\<exists>f. kernel_run ([] @ [Terminate]) s = Inl f) \<and> (\<exists>x \<in> set []. \<not> dispatching x)"
    by (rule scheduler_no_starvation [OF s(1,4) _ _ _ _ i]) simp_all
  then show ?thesis using s(3) by auto
qed

text \<open>C15: \<open>scheduler_yield\<close> is round robin: it always returns, the first thread of the run queue runs
  next, and the thread that yielded goes to the end of the queue. Only when the heap has no room for
  its node of the queue the thread is dropped: the result of \<open>scheduler_add_thread\<close> is ignored. With
  an empty queue the thread simply goes on. The result says which thread the processor continues
  with.\<close>

theorem scheduler_yield_round_robin:
  assumes "kernel_heap_inv (kalloc s) (room + 4184) L" and "scheduler_ok s L ps" and "current_thread s \<noteq> idle_thread s"
  shows "\<exists>r s' L' ps' q. scheduler_yield kmalloc kfree apply_kernel_mappings apply_user_table frame s = Inr (r, s') \<and>
    scheduler_ok s' L' ps' \<and> kernel_heap_inv (kalloc s') room L' \<and>
    (q = list_data s ps @ [current_thread s] \<or> q = list_data s ps \<and> out_of_memory (kalloc s) LIST_NODE_SIZE) \<and>
    current_thread s' = (if q = [] then idle_thread s else hd q) \<and> list_data s' ps' = tl q \<and>
    r = (if current_thread s' = current_thread s then Return () else Switch (current_thread s'))"
proof -
  have "out_of_memory (kalloc s) LIST_NODE_SIZE" if "refuses kmalloc LIST_NODE_SIZE (kalloc s)"
    by (rule refused_out_of_memory [OF _ that, of room L]) (use assms(1) in \<open>simp add: LIST_NODE_SIZE_def add.assoc\<close>)
  then show ?thesis
    using kernel.scheduler_yield_run [OF assms, of frame] unfolding kernel.dispatches_def next_thread_def by blast
qed

text \<open>One thread is queued: it runs next, and the thread that yielded is now the one in the queue.\<close>

theorem scheduler_yield_round_robin_witness:
  "\<exists>(s :: kernel_heap task_mem) frame s' ps'. current_thread s \<noteq> 3 \<and>
     scheduler_yield kmalloc kfree apply_kernel_mappings apply_user_table frame s = Inr (Switch 3, s') \<and>
     current_thread s' = 3 \<and> list_data s' ps' = [current_thread s]"
proof -
  obtain s :: "kernel_heap task_mem" and L p where s: "scheduler_ok s L [p]" "kernel_heap_inv (kalloc s) 0x5FFFC000 L"
    "list_data s [p] = [3]" "current_thread s \<noteq> idle_thread s" and room: "\<not> out_of_memory (kalloc s) LIST_NODE_SIZE"
    using sample_tasks_exist by blast
  have i: "kernel_heap_inv (kalloc s) (0x5FFF0000 + 4184) L" by (rule heap_inv_mono [OF s(2)]) simp
  have ne: "current_thread s \<noteq> 3" using scheduler_okD(3) [OF s(1)] s(3) by simp
  let ?f = "\<lparr>frame_registers = replicate 32 0, frame_sp = 0, frame_spsr = 0, frame_elr = 0\<rparr>"
  obtain r s' ps' q where y: "scheduler_yield kmalloc kfree apply_kernel_mappings apply_user_table ?f s = Inr (r, s')"
    "q = list_data s [p] @ [current_thread s]" "current_thread s' = (if q = [] then idle_thread s else hd q)"
    "list_data s' ps' = tl q" "r = (if current_thread s' = current_thread s then Return () else Switch (current_thread s'))"
    using scheduler_yield_round_robin [OF i s(1,4), of ?f] room by blast
  have "current_thread s' = 3" "list_data s' ps' = [current_thread s]" using y(2-4) s(3) by simp_all
  moreover from this(1) have "r = Switch 3" using y(5) ne by simp
  ultimately show ?thesis using y(1) ne by blast
qed

end
