(* ===== verification/Strings.thy ===== *)
theory Strings
  imports Objects
begin

text \<open>
  \<open>libz/string.h\<close>: strings that end with a zero byte. The loops have no bound, so they are partial
  functions; \<open>char\<close> is unsigned on AArch64, and the differences of characters are exact as \<open>int\<close>s.
\<close>

section \<open>The functions\<close>

partial_function (option) strcmp_from ::
  "u64 \<Rightarrow> u64 \<Rightarrow> ('h, 'z) kmem_scheme \<Rightarrow> (fault + int \<times> ('h, 'z) kmem_scheme) option" where
  "strcmp_from s1 s2 s =
     (case read_byte s1 s of Inl e \<Rightarrow> Some (Inl e)
      | Inr (a, _) \<Rightarrow> (case read_byte s2 s of Inl e \<Rightarrow> Some (Inl e)
         | Inr (b, _) \<Rightarrow>
             if a \<noteq> b then Some (Inr (uint a - uint b, s))
             else if a = 0 then Some (Inr (0, s))
             else strcmp_from (s1 + 1) (s2 + 1) s))"

definition strcmp :: "u64 \<Rightarrow> u64 \<Rightarrow> (('h, 'z) kmem_scheme, int) prog" where
  "strcmp s1 s2 = (\<lambda>s. loop (strcmp_from s1 s2 s))"

fun strncmp_from :: "nat \<Rightarrow> u64 \<Rightarrow> u64 \<Rightarrow> (('h, 'z) kmem_scheme, int) prog" where
  "strncmp_from 0 s1 s2 = ret 0"
| "strncmp_from (Suc n) s1 s2 =
     bnd (read_byte s1) (\<lambda>a. bnd (read_byte s2) (\<lambda>b.
     if a \<noteq> b then ret (uint a - uint b) else if a = 0 then ret 0 else strncmp_from n (s1 + 1) (s2 + 1)))"

definition strncmp :: "u64 \<Rightarrow> u64 \<Rightarrow> u64 \<Rightarrow> (('h, 'z) kmem_scheme, int) prog" where
  "strncmp s1 s2 count = strncmp_from (unat count) s1 s2"

text \<open>The length is an \<open>int\<close> of 32 bits.\<close>

partial_function (option) strlen_from ::
  "i32 \<Rightarrow> u64 \<Rightarrow> ('h, 'z) kmem_scheme \<Rightarrow> (fault + i32 \<times> ('h, 'z) kmem_scheme) option" where
  "strlen_from len p s =
     (case read_byte p s of Inl e \<Rightarrow> Some (Inl e)
      | Inr (a, _) \<Rightarrow> if a = 0 then Some (Inr (len, s)) else strlen_from (len + 1) (p + 1) s)"

definition strlen :: "u64 \<Rightarrow> (('h, 'z) kmem_scheme, i32) prog" where
  "strlen p = (\<lambda>s. loop (strlen_from 0 p s))"

section \<open>Correctness\<close>

text \<open>\<open>string_at s p ys\<close>: the string at \<open>p\<close> has the characters \<open>ys\<close>.\<close>

fun string_at :: "('h, 'z) kmem_scheme \<Rightarrow> u64 \<Rightarrow> u8 list \<Rightarrow> bool" where
  "string_at s p [] \<longleftrightarrow> accessible s p \<and> ram s p = 0"
| "string_at s p (b # ys) \<longleftrightarrow> accessible s p \<and> ram s p = b \<and> b \<noteq> 0 \<and> string_at s (p + 1) ys"

lemma string_at_bytes: "string_at s p ys \<Longrightarrow> bytes_at (ram s) p (Suc (length ys)) = ys @ [0]"
proof (induction ys arbitrary: p)
  case (Cons b ys)
  from Cons.IH [of "p + 1"] Cons.prems show ?case by (simp add: bytes_at_Suc [of _ p])
qed (simp add: bytes_at_Suc)

lemma string_at_access: "string_at s p ys \<Longrightarrow> can_access s p (Suc (length ys))"
proof (induction ys arbitrary: p)
  case (Cons b ys)
  from Cons.IH [of "p + 1"] Cons.prems show ?case by (simp add: can_access_Suc [of _ p])
qed (simp add: can_access_Suc, simp add: can_access_def)

lemma string_at_unique: "string_at s p ys \<Longrightarrow> string_at s p cs \<Longrightarrow> ys = cs"
proof (induction ys arbitrary: p cs)
  case Nil
  then show ?case by (cases cs) auto
next
  case (Cons b ys)
  then show ?case by (cases cs) auto
qed

lemma strlen_from_run: "string_at s p ys \<Longrightarrow> strlen_from n p s = Some (Inr (n + of_nat (length ys), s))"
proof (induction ys arbitrary: n p)
  case Nil
  then show ?case by (subst strlen_from.simps) (simp add: read_byte_def)
next
  case (Cons b ys)
  have "strlen_from (n + 1) (p + 1) s = Some (Inr (n + 1 + of_nat (length ys), s))" using Cons by simp
  then show ?case using Cons.prems by (subst strlen_from.simps) (simp add: read_byte_def algebra_simps)
qed

lemma strlen_run: "string_at s p ys \<Longrightarrow> strlen p s = Inr (of_nat (length ys), s)"
  using strlen_from_run [of s p ys 0] by (simp add: strlen_def)

text \<open>The sign of the result is the lexicographic order of the strings, with the end as the least character.\<close>

fun string_order :: "u8 list \<Rightarrow> u8 list \<Rightarrow> int" where
  "string_order [] [] = 0"
| "string_order [] (b # ys) = - uint b"
| "string_order (a # xs) [] = uint a"
| "string_order (a # xs) (b # ys) = (if a = b then string_order xs ys else uint a - uint b)"

lemma strcmp_from_run:
  "string_at s p xs \<Longrightarrow> string_at s q ys \<Longrightarrow> strcmp_from p q s = Some (Inr (string_order xs ys, s))"
proof (induction xs arbitrary: p q ys)
  case Nil
  then show ?case by (cases ys) (simp_all add: strcmp_from.simps [of p q] read_byte_def)
next
  case (Cons a xs)
  show ?case
  proof (cases ys)
    case Nil
    then show ?thesis using Cons.prems by (simp add: strcmp_from.simps [of p q] read_byte_def)
  next
    case (Cons b zs)
    have "a = b \<Longrightarrow> strcmp_from (p + 1) (q + 1) s = Some (Inr (string_order xs zs, s))"
      using Cons.prems Cons.IH Cons by simp
    then show ?thesis using Cons.prems Cons by (simp add: strcmp_from.simps [of p q] read_byte_def)
  qed
qed

lemma strcmp_run: "string_at s p xs \<Longrightarrow> string_at s q ys \<Longrightarrow> strcmp p q s = Inr (string_order xs ys, s)"
  using strcmp_from_run [of s p xs q ys] by (simp add: strcmp_def)

lemma string_order_zero: "0 \<notin> set xs \<Longrightarrow> 0 \<notin> set ys \<Longrightarrow> string_order xs ys = 0 \<longleftrightarrow> xs = ys"
  by (induction xs ys rule: string_order.induct) (auto simp: uint_0_iff simp flip: word_uint_eq_iff)

lemma string_at_nonzero: "string_at s p ys \<Longrightarrow> 0 \<notin> set ys"
  by (induction ys arbitrary: p) auto

lemma strncmp_from_run:
  "string_at s p xs \<Longrightarrow> string_at s q ys \<Longrightarrow> strncmp_from n p q s = Inr (string_order (take n xs) (take n ys), s)"
proof (induction n arbitrary: p q xs ys)
  case (Suc n)
  show ?case
  proof (cases xs)
    case Nil
    then show ?thesis using Suc.prems by (cases ys) (simp_all add: read_byte_def)
  next
    case (Cons a xs')
    then show ?thesis using Suc.prems Suc.IH [of "p + 1" xs' "q + 1" "tl ys"] by (cases ys) (simp_all add: read_byte_def)
  qed
qed simp

text \<open>A string is its own witness: a state whose memory holds it.\<close>

lemma string_order_sym: "string_order ys xs = - string_order xs ys"
  by (induction xs ys rule: string_order.induct) auto

end
