(* ===== verification/Files.thy ===== *)
theory Files
  imports Strings Scheduler
begin

text \<open>
  \<open>kernel/files\<close>: the global table of files (\<open>file_table.c\<close>), where files are found by handle and
  by path, and the operations on the descriptors of the current process (\<open>file.c\<close>), which call the
  functions of the file.

  A function pointer of a \<open>file_ops_t\<close> is a \<open>file_fn\<close>; what the functions do is an argument of the
  operations of \<open>file.c\<close>. \<open>Uninitialised\<close> is a field of a struct on the stack that nobody assigned.
  An operation that may give up the processor returns a \<open>control\<close>.
\<close>

section \<open>Files\<close>

datatype file_fn = Null_Function | Uninitialised | Input_File_Open | Input_File_Read
  | Channel_File_Read | Channel_File_Write | Channel_File_Close
  | Shared_Memory_Read | Shared_Memory_Write | Shared_Memory_Close

record file_ops =
  op_open :: file_fn
  op_read :: file_fn
  op_write :: file_fn
  op_close :: file_fn

record file_t =
  file_handle :: i64
  file_path :: u64
  ref_count :: u64
  private_data :: u64
  file_operations :: file_ops
  file_flags :: i32

record 'h file_mem = "'h task_mem" +
  files :: "u64 \<rightharpoonup> file_t"
  file_table :: handle_table
  file_path_table :: hash_table

definition FILE_SIZE :: u64 where "FILE_SIZE = 72"
definition DEFAULT_FILE_TABLE_CAPACITY :: u64 where "DEFAULT_FILE_TABLE_CAPACITY = 64"
definition DEFAULT_FILE_PATH_CAPACITY :: u64 where "DEFAULT_FILE_PATH_CAPACITY = 64"

section \<open>The table of files\<close>

definition file_table_init :: "'h malloc_fn \<Rightarrow> (('h, 'z) file_mem_scheme, int) prog" where
  "file_table_init malloc =
     bnd (rd file_table) (\<lambda>ht.
     bnd (handle_table_init malloc ht DEFAULT_FILE_TABLE_CAPACITY) (\<lambda>(r, ht).
     thn (upd (\<lambda>s. s\<lparr>file_table := ht\<rparr>))
    (if r < 0 then ret (-1)
     else bnd (rd file_path_table) (\<lambda>pt.
       bnd (hash_table_init malloc pt DEFAULT_FILE_PATH_CAPACITY) (\<lambda>(r, pt).
       thn (upd (\<lambda>s. s\<lparr>file_path_table := pt\<rparr>))
      (if r < 0 then ret (-1) else ret 0))))))"

definition file_table_destroy :: "'h free_fn \<Rightarrow> (('h, 'z) file_mem_scheme, int) prog" where
  "file_table_destroy mfree =
     bnd (rd file_table) (\<lambda>ht.
     bnd (handle_table_destroy mfree ht) (\<lambda>(r, ht).
     thn (upd (\<lambda>s. s\<lparr>file_table := ht\<rparr>)) (ret r)))"

text \<open>
  \<open>strlen(path) + 1\<close>, an \<open>int\<close> that is converted to \<open>uint64_t\<close>; and the copy of the path that
  \<open>file_table_open\<close> makes and enters into the table of paths.
\<close>

definition path_size :: "u64 \<Rightarrow> (('h, 'z) kmem_scheme, u64) prog" where
  "path_size path = bnd (strlen path) (\<lambda>n. ret (scast (n + 1)))"

definition copy_path :: "'h malloc_fn \<Rightarrow> u64 \<Rightarrow> (('h, 'z) kmem_scheme, u64) prog" where
  "copy_path malloc path =
     bnd (path_size path) (\<lambda>n.
     bnd (new_buffer malloc n) (\<lambda>path_copy.
     thn (kassert (path_copy \<noteq> NULL))
    (bnd (path_size path) (\<lambda>n.
     thn (memory_copy path_copy path n) (ret path_copy)))))"

definition enter_path :: "'h malloc_fn \<Rightarrow> u64 \<Rightarrow> u64 \<Rightarrow> (('h, 'z) file_mem_scheme, int \<times> u64) prog" where
  "enter_path malloc path file_ptr =
     bnd (copy_path malloc path) (\<lambda>path_copy.
     bnd (path_size path) (\<lambda>n.
     bnd (rd file_path_table) (\<lambda>pt.
     bnd (hash_table_set malloc pt (hash_key_create_data path_copy n) file_ptr) (\<lambda>(r, pt).
     thn (upd (\<lambda>s. s\<lparr>file_path_table := pt\<rparr>))
         (ret (r, path_copy))))))"

definition file_table_open ::
  "'h malloc_fn \<Rightarrow> 'h free_fn \<Rightarrow> u64 \<Rightarrow> file_t \<Rightarrow> (('h, 'z) file_mem_scheme, int \<times> i64 option) prog" where
  "file_table_open malloc mfree path file =
     bnd (new_object malloc FILE_SIZE files_update file) (\<lambda>file_ptr.
     if file_ptr = NULL then ret (-1, None)
     else bnd (rd file_table) (\<lambda>ht.
       bnd (handle_table_insert malloc mfree ht file_ptr) (\<lambda>(r, ht, handle).
       thn (upd (\<lambda>s. s\<lparr>file_table := ht\<rparr>))
      (if r < 0 then thn (free_object mfree files_update file_ptr) (ret (-1, handle))
       else bnd (if path \<noteq> NULL then enter_path malloc path file_ptr else ret (0, NULL)) (\<lambda>(r, path_copy).
         if r < 0
         then bnd (handle_table_remove ht (the handle)) (\<lambda>_.
              thn (free_object mfree files_update file_ptr) (ret (-1, handle)))
         else thn (assign files files_update file_ptr (\<lambda>_. file\<lparr>file_path := path_copy, file_handle := the handle\<rparr>))
                  (ret (0, handle)))))))"

definition file_table_close :: "'h free_fn \<Rightarrow> i64 \<Rightarrow> (('h, 'z) file_mem_scheme, int) prog" where
  "file_table_close mfree handle =
     bnd (rd file_table) (\<lambda>ht.
     bnd (handle_table_get ht handle) (\<lambda>(r, item).
     if r < 0 then ret (-1)
     else let file_ptr = (case item of None \<Rightarrow> NULL | Some p \<Rightarrow> p) in
       if file_ptr = NULL then ret (-1)
       else bnd (deref files file_ptr) (\<lambda>file.
         thn (if file_path file \<noteq> NULL
              then bnd (path_size (file_path file)) (\<lambda>n.
                bnd (rd file_path_table) (\<lambda>pt.
                bnd (hash_table_remove mfree pt (hash_key_create_data (file_path file) n)) (\<lambda>_. ret ())))
              else ret ())
        (bnd (handle_table_remove ht handle) (\<lambda>_.
         thn (free_object mfree files_update file_ptr) (ret 0))))))"

text \<open>The file, or a null pointer for a handle that was closed.\<close>

definition file_table_get :: "i64 \<Rightarrow> (('h, 'z) file_mem_scheme, int \<times> u64 option) prog" where
  "file_table_get handle = bnd (rd file_table) (\<lambda>ht. handle_table_get ht handle)"

definition file_table_get_by_path :: "u64 \<Rightarrow> (('h, 'z) file_mem_scheme, int \<times> u64 option) prog" where
  "file_table_get_by_path path =
     (if path = NULL then ret (-1, None)
      else bnd (path_size path) (\<lambda>n.
        bnd (rd file_path_table) (\<lambda>pt. hash_table_get pt (hash_key_create_data path n))))"

section \<open>The descriptors of a process\<close>

definition current_process :: "(('h, 'z) task_mem_scheme, u64) prog" where
  "current_process =
     bnd scheduler_get_current_thread (\<lambda>thread.
     thn (kassert (thread \<noteq> NULL))
    (bnd (deref threads thread) (\<lambda>t.
     thn (kassert (thread_process t \<noteq> NULL)) (ret (thread_process t)))))"

text \<open>\<open>fd_table_open\<close> and \<open>fd_table_get\<close> on the table inside of a process; \<open>*fd\<close> is in memory.\<close>

definition store_handle :: "u64 \<Rightarrow> i64 option \<Rightarrow> (('h, 'z) kmem_scheme, unit) prog" where
  "store_handle fd h = (case h of None \<Rightarrow> ret () | Some h \<Rightarrow> write_bytes fd (le_bytes 8 h))"

definition process_fd_open ::
  "'h malloc_fn \<Rightarrow> 'h free_fn \<Rightarrow> u64 \<Rightarrow> u64 \<Rightarrow> u64 \<Rightarrow> (('h, 'z) task_mem_scheme, int) prog" where
  "process_fd_open malloc mfree process file fd =
     bnd (deref processes process) (\<lambda>p.
     bnd (fd_table_open malloc mfree (process_fd_table p) file) (\<lambda>(r, t, h).
     thn (assign processes processes_update process (\<lambda>p. p\<lparr>process_fd_table := t\<rparr>))
    (thn (store_handle fd h) (ret r))))"

definition process_fd_get :: "u64 \<Rightarrow> i64 \<Rightarrow> (('h, 'z) task_mem_scheme, int \<times> u64 option) prog" where
  "process_fd_get process fd = bnd (deref processes process) (\<lambda>p. fd_table_get (process_fd_table p) fd)"

text \<open>The file of a descriptor, or \<open>None\<close> when the descriptor is refused; \<open>file_read\<close>, \<open>file_write\<close>
  and \<open>file_close\<close> begin with this, and stop the machine for a descriptor that was closed.\<close>

definition fd_file :: "i64 \<Rightarrow> (('h, 'z) task_mem_scheme, u64 option) prog" where
  "fd_file fd =
     bnd current_process (\<lambda>process.
     bnd (process_fd_get process fd) (\<lambda>(r, item).
     if r < 0 then ret None
     else let file = (case item of None \<Rightarrow> NULL | Some p \<Rightarrow> p) in
       thn (kassert (file \<noteq> NULL)) (ret (Some file))))"

definition file_open ::
  "(file_fn \<Rightarrow> u64 \<Rightarrow> u64 \<Rightarrow> i32 \<Rightarrow> (('h, 'z) file_mem_scheme, int) prog) \<Rightarrow> u64 \<Rightarrow> u64 \<Rightarrow> i32
     \<Rightarrow> (('h, 'z) file_mem_scheme, int) prog" where
  "file_open call path fd flags =
     (if path = NULL \<or> fd = NULL then ret (-1)
      else bnd (file_table_get_by_path path) (\<lambda>(r, item).
        if r < 0 then ret (-1)
        else let file = (case item of None \<Rightarrow> NULL | Some p \<Rightarrow> p) in
          bnd (deref files file) (\<lambda>f.
          if op_open (file_operations f) = Null_Function then ret (-1)
          else call (op_open (file_operations f)) file fd flags)))"

definition file_read ::
  "(file_fn \<Rightarrow> u64 \<Rightarrow> u64 \<Rightarrow> u64 \<Rightarrow> (('h, 'z) file_mem_scheme, int control) prog) \<Rightarrow> i64 \<Rightarrow> u64 \<Rightarrow> u64
     \<Rightarrow> (('h, 'z) file_mem_scheme, int control) prog" where
  "file_read call fd buffer count =
     (if fd <s 0 \<or> buffer = NULL \<or> count = 0 then ret (Return (-1))
      else bnd (fd_file fd) (\<lambda>item. case item of None \<Rightarrow> ret (Return (-1))
        | Some file \<Rightarrow> bnd (deref files file) (\<lambda>f.
            thn (kassert (op_read (file_operations f) \<noteq> Null_Function))
                (call (op_read (file_operations f)) file buffer count))))"

definition file_write ::
  "(file_fn \<Rightarrow> u64 \<Rightarrow> u64 \<Rightarrow> u64 \<Rightarrow> (('h, 'z) file_mem_scheme, int) prog) \<Rightarrow> i64 \<Rightarrow> u64 \<Rightarrow> u64
     \<Rightarrow> (('h, 'z) file_mem_scheme, int) prog" where
  "file_write call fd buffer count =
     (if fd <s 0 \<or> buffer = NULL \<or> count = 0 then ret (-1)
      else bnd (fd_file fd) (\<lambda>item. case item of None \<Rightarrow> ret (-1)
        | Some file \<Rightarrow> bnd (deref files file) (\<lambda>f.
            thn (kassert (op_write (file_operations f) \<noteq> Null_Function))
                (call (op_write (file_operations f)) file buffer count))))"

definition file_close ::
  "(file_fn \<Rightarrow> u64 \<Rightarrow> (('h, 'z) file_mem_scheme, int) prog) \<Rightarrow> i64 \<Rightarrow> (('h, 'z) file_mem_scheme, int) prog" where
  "file_close call fd =
     (if fd <s 0 then ret (-1)
      else bnd (fd_file fd) (\<lambda>item. case item of None \<Rightarrow> ret (-1)
        | Some file \<Rightarrow> bnd (deref files file) (\<lambda>f.
            thn (kassert (op_close (file_operations f) \<noteq> Null_Function))
                (call (op_close (file_operations f)) file))))"

end
