(* ===== verification/Channel.thy ===== *)
theory Channel
  imports Files
begin

text \<open>
  \<open>kernel/process/channel.c\<close>: message channels between processes. A channel is the list of its
  endpoints; an endpoint (\<open>channel_file_t\<close>) has a queue of messages and a queue of threads that wait
  for one, and the same again for messages that carry a file descriptor. A message is put into the
  queues of all endpoints but the sender's.

  A receiver that finds no message enters the queue of waiting threads and blocks. It continues, when
  it is resumed, at the loop that waits: \<open>channel_receive\<close> and \<open>channel_receive_fd\<close> are what the
  functions do from there on. \<open>saved\<close> and \<open>sp\<close> are the registers that blocking saves.
  The functions return \<open>message_object->size\<close> after they have freed the message; as \<open>kfree\<close> writes
  to the headers of blocks only, this is the size the message had.
\<close>

section \<open>State\<close>

record channel_message =
  msg_data :: u64
  msg_size :: u64

record channel_message_fd =
  fdm_data :: u64
  fdm_size :: u64
  fdm_process_fd :: i64
  fdm_fd :: i64

record channel =
  endpoints :: linked_list

record channel_file =
  source_channel :: u64
  channel_flags :: i32
  endpoint_node :: u64
  messages :: linked_list
  recv_waiters :: linked_list
  fd_messages :: linked_list
  recv_fd_waiters :: linked_list

record 'h channel_mem = "'h file_mem" +
  channels :: "u64 \<rightharpoonup> channel"
  channel_files :: "u64 \<rightharpoonup> channel_file"
  channel_messages :: "u64 \<rightharpoonup> channel_message"
  channel_fd_messages :: "u64 \<rightharpoonup> channel_message_fd"

definition O_NONBLOCK :: i32 where "O_NONBLOCK = 0x800"

definition CHANNEL_SIZE :: u64 where "CHANNEL_SIZE = 16"
definition CHANNEL_FILE_SIZE :: u64 where "CHANNEL_FILE_SIZE = 88"
definition CHANNEL_MESSAGE_SIZE :: u64 where "CHANNEL_MESSAGE_SIZE = 16"
definition CHANNEL_MESSAGE_FD_SIZE :: u64 where "CHANNEL_MESSAGE_FD_SIZE = 32"

abbreviation empty_list :: linked_list where "empty_list \<equiv> \<lparr>list_head = NULL, list_tail = NULL\<rparr>"

abbreviation pointer :: "u64 option \<Rightarrow> u64" where "pointer p \<equiv> (case p of None \<Rightarrow> NULL | Some a \<Rightarrow> a)"

section \<open>Opening\<close>

definition channel_create ::
  "'h malloc_fn \<Rightarrow> 'h free_fn \<Rightarrow> u64 \<Rightarrow> (('h, 'z) channel_mem_scheme, int \<times> u64 \<times> i64 option) prog" where
  "channel_create malloc mfree path =
     (if path = NULL then ret (-1, NULL, None)
      else bnd (new_object malloc CHANNEL_SIZE channels_update \<lparr>endpoints = empty_list\<rparr>) (\<lambda>channel.
        if channel = NULL then ret (-1, NULL, None)
        else let (r, l) = linked_list_init empty_list in
          if r < 0 then thn (free_object mfree channels_update channel) (ret (-1, NULL, None))
          else thn (assign channels channels_update channel (\<lambda>c. c\<lparr>endpoints := l\<rparr>))
              (bnd (file_table_open malloc mfree path \<lparr>file_handle = 0, file_path = path, ref_count = 1,
                 private_data = channel, file_operations = \<lparr>op_open = Uninitialised, op_read = Null_Function,
                   op_write = Null_Function, op_close = Null_Function\<rparr>, file_flags = 0\<rparr>) (\<lambda>(r, handle).
               thn (kassert (r = 0)) (ret (0, channel, handle))))))"

text \<open>The channel that has the path, or a new one; with its file.\<close>

definition channel_lookup ::
  "'h malloc_fn \<Rightarrow> 'h free_fn \<Rightarrow> u64 \<Rightarrow> (('h, 'z) channel_mem_scheme, u64 \<times> u64 \<times> i64) prog" where
  "channel_lookup malloc mfree path =
     bnd (file_table_get_by_path path) (\<lambda>(r, item).
     if r = 0
     then thn (kassert (pointer item \<noteq> NULL))
         (bnd (deref files (pointer item)) (\<lambda>f.
          thn (assign files files_update (pointer item) (\<lambda>f. f\<lparr>ref_count := ref_count f + 1\<rparr>))
              (ret (private_data f, pointer item, file_handle f))))
     else bnd (channel_create malloc mfree path) (\<lambda>(r, channel, handle).
          thn (kassert (r = 0))
         (bnd (file_table_get (the handle)) (\<lambda>(r, item).
          thn (kassert (r = 0)) (ret (channel, pointer item, the handle))))))"

definition channel_open ::
  "'h malloc_fn \<Rightarrow> 'h free_fn \<Rightarrow> u64 \<Rightarrow> u64 \<Rightarrow> i32 \<Rightarrow> (('h, 'z) channel_mem_scheme, int) prog" where
  "channel_open malloc mfree path fd flags =
     (if path = NULL \<or> fd = NULL then ret (-1)
      else bnd current_process (\<lambda>process.
        bnd (channel_lookup malloc mfree path) (\<lambda>(channel, file_object, global_handle).
        thn (kassert (channel \<noteq> NULL))
       (thn (kassert (\<not> global_handle <s 0))
       (thn (kassert (file_object \<noteq> NULL))
       (bnd (new_object malloc CHANNEL_FILE_SIZE channel_files_update
               \<lparr>source_channel = file_object, channel_flags = flags, endpoint_node = NULL, messages = empty_list,
                recv_waiters = empty_list, fd_messages = empty_list, recv_fd_waiters = empty_list\<rparr>) (\<lambda>channel_file.
        thn (kassert (channel_file \<noteq> NULL))
       (bnd (deref channels channel) (\<lambda>c.
        bnd (linked_list_insert malloc mfree (endpoints c) channel_file) (\<lambda>(r, l, node).
        thn (assign channels channels_update channel (\<lambda>c. c\<lparr>endpoints := l\<rparr>))
       (thn (kassert (r = 0))
       (thn (assign channel_files channel_files_update channel_file (\<lambda>f. f\<lparr>endpoint_node := pointer node\<rparr>))
       (bnd (file_table_open malloc mfree NULL \<lparr>file_handle = 0, file_path = NULL, ref_count = 1,
               private_data = channel_file, file_operations = \<lparr>op_open = Uninitialised, op_read = Channel_File_Read,
                 op_write = Channel_File_Write, op_close = Channel_File_Close\<rparr>, file_flags = flags\<rparr>) (\<lambda>(r, handle).
        thn (kassert (r = 0))
       (thn (kassert (\<not> the handle <s 0))
       (bnd (file_table_get (the handle)) (\<lambda>(r, item).
        thn (kassert (r = 0))
       (thn (kassert (pointer item \<noteq> NULL))
       (bnd (process_fd_open malloc mfree process (pointer item) fd) (\<lambda>r.
        thn (kassert (r = 0)) (ret 0)))))))))))))))))))))"

definition channel_close :: "i64 \<Rightarrow> (('h, 'z) channel_mem_scheme, int) prog" where
  "channel_close fd = ret (-1)"

section \<open>Sending\<close>

text \<open>The loop that wakes all threads of a queue up, and empties it.\<close>

partial_function (option) wake_waiters ::
  "'h malloc_fn \<Rightarrow> 'h free_fn \<Rightarrow> linked_list \<Rightarrow> ('h, 'z) task_mem_scheme
     \<Rightarrow> (fault + linked_list \<times> ('h, 'z) task_mem_scheme) option" where
  "wake_waiters malloc mfree l s =
     (if list_head l = NULL then Some (Inr (l, s))
      else case list_nodes s (list_head l) of None \<Rightarrow> Some (Inl Bad_Access)
      | Some n \<Rightarrow> (case linked_list_remove mfree l (list_head l) s of Inl e \<Rightarrow> Some (Inl e)
          | Inr ((r, l'), s') \<Rightarrow> (case scheduler_wake_up malloc mfree (ll_data n) s' of Inl e \<Rightarrow> Some (Inl e)
              | Inr (u, s'') \<Rightarrow> wake_waiters malloc mfree l' s'')))"

definition deliver ::
  "'h malloc_fn \<Rightarrow> 'h free_fn \<Rightarrow> u64 \<Rightarrow> u64 \<Rightarrow> (('h, 'z) channel_mem_scheme, unit) prog" where
  "deliver malloc mfree message endpoint =
     thn (kassert (endpoint \<noteq> NULL))
    (bnd (deref channel_files endpoint) (\<lambda>f.
     bnd (linked_list_insert malloc mfree (messages f) message) (\<lambda>(r, l, node).
     thn (assign channel_files channel_files_update endpoint (\<lambda>f. f\<lparr>messages := l\<rparr>))
    (bnd (\<lambda>s. loop (wake_waiters malloc mfree (recv_waiters f) s)) (\<lambda>l.
     assign channel_files channel_files_update endpoint (\<lambda>f. f\<lparr>recv_waiters := l\<rparr>))))))"

definition deliver_fd ::
  "'h malloc_fn \<Rightarrow> 'h free_fn \<Rightarrow> u64 \<Rightarrow> u64 \<Rightarrow> (('h, 'z) channel_mem_scheme, unit) prog" where
  "deliver_fd malloc mfree message endpoint =
     thn (kassert (endpoint \<noteq> NULL))
    (bnd (deref channel_files endpoint) (\<lambda>f.
     bnd (linked_list_insert malloc mfree (fd_messages f) message) (\<lambda>(r, l, node).
     thn (assign channel_files channel_files_update endpoint (\<lambda>f. f\<lparr>fd_messages := l\<rparr>))
    (bnd (\<lambda>s. loop (wake_waiters malloc mfree (recv_fd_waiters f) s)) (\<lambda>l.
     assign channel_files channel_files_update endpoint (\<lambda>f. f\<lparr>recv_fd_waiters := l\<rparr>))))))"

text \<open>The loop over the endpoints, which skips the node \<open>self\<close>.\<close>

partial_function (option) fan_out ::
  "(u64 \<Rightarrow> (('h, 'z) list_mem_scheme, unit) prog) \<Rightarrow> u64 \<Rightarrow> u64 \<Rightarrow> ('h, 'z) list_mem_scheme
     \<Rightarrow> (fault + unit \<times> ('h, 'z) list_mem_scheme) option" where
  "fan_out deliver_to self node s =
     (if node = NULL then Some (Inr ((), s))
      else case list_nodes s node of None \<Rightarrow> Some (Inl Bad_Access)
      | Some n \<Rightarrow>
          if node = self then fan_out deliver_to self (ll_next n) s
          else (case deliver_to (ll_data n) s of Inl e \<Rightarrow> Some (Inl e)
             | Inr (u, s') \<Rightarrow> (case list_nodes s' node of None \<Rightarrow> Some (Inl Bad_Access)
                 | Some n' \<Rightarrow> fan_out deliver_to self (ll_next n') s')))"

text \<open>The endpoint and its channel, behind a file.\<close>

definition channel_of_file :: "u64 \<Rightarrow> (('h, 'z) channel_mem_scheme, channel_file \<times> u64) prog" where
  "channel_of_file file =
     bnd (deref files file) (\<lambda>f.
     thn (kassert (private_data f \<noteq> NULL))
    (bnd (deref channel_files (private_data f)) (\<lambda>channel_file.
     thn (kassert (source_channel channel_file \<noteq> NULL))
    (bnd (deref files (source_channel channel_file)) (\<lambda>source.
     thn (kassert (private_data source \<noteq> NULL))
         (ret (channel_file, private_data source)))))))"

definition channel_file_write ::
  "'h malloc_fn \<Rightarrow> 'h free_fn \<Rightarrow> u64 \<Rightarrow> u64 \<Rightarrow> u64 \<Rightarrow> (('h, 'z) channel_mem_scheme, int) prog" where
  "channel_file_write malloc mfree file data count =
     (if file = NULL \<or> data = NULL \<or> count = 0 then ret (-1)
      else bnd (channel_of_file file) (\<lambda>(channel_file, channel).
        bnd (new_buffer malloc count) (\<lambda>message.
        thn (kassert (message \<noteq> NULL))
       (thn (memory_copy message data count)
       (bnd (new_object malloc CHANNEL_MESSAGE_SIZE channel_messages_update \<lparr>msg_data = message, msg_size = count\<rparr>)
          (\<lambda>message_object.
        thn (kassert (message_object \<noteq> NULL))
       (bnd (deref channels channel) (\<lambda>c.
        thn (\<lambda>s. loop (fan_out (deliver malloc mfree message_object) (endpoint_node channel_file) (list_head (endpoints c)) s))
            (ret 0)))))))))"

text \<open>The file of a descriptor of the current process, which must be an endpoint.\<close>

definition endpoint_file :: "(file_t \<Rightarrow> bool) \<Rightarrow> u64 \<Rightarrow> i64 \<Rightarrow> (('h, 'z) channel_mem_scheme, u64) prog" where
  "endpoint_file is_endpoint process fd =
     bnd (process_fd_get process fd) (\<lambda>(r, item).
     thn (kassert (r = 0))
    (thn (kassert (pointer item \<noteq> NULL))
    (bnd (deref files (pointer item)) (\<lambda>f.
     thn (kassert (is_endpoint f)) (ret (pointer item))))))"

definition running_process :: "(('h, 'z) task_mem_scheme, u64) prog" where
  "running_process =
     bnd scheduler_get_current_thread (\<lambda>thread.
     thn (kassert (thread \<noteq> NULL))
    (bnd (deref threads thread) (\<lambda>t.
     thn (kassert (thread_state t = THREAD_STATE_RUNNING))
    (thn (kassert (thread_process t \<noteq> NULL)) (ret (thread_process t))))))"

definition channel_send ::
  "'h malloc_fn \<Rightarrow> 'h free_fn \<Rightarrow> i64 \<Rightarrow> u64 \<Rightarrow> u64 \<Rightarrow> (('h, 'z) channel_mem_scheme, int) prog" where
  "channel_send malloc mfree fd data count =
     (if fd = - 1 \<or> data = NULL \<or> count = 0 then ret (-1)
      else bnd running_process (\<lambda>process.
        bnd (endpoint_file (\<lambda>f. op_write (file_operations f) = Channel_File_Write) process fd) (\<lambda>file.
        channel_file_write malloc mfree file data count)))"

definition channel_send_fd ::
  "'h malloc_fn \<Rightarrow> 'h free_fn \<Rightarrow> i64 \<Rightarrow> i64 \<Rightarrow> u64 \<Rightarrow> u64 \<Rightarrow> (('h, 'z) channel_mem_scheme, int) prog" where
  "channel_send_fd malloc mfree channel_fd fd data count =
     (if channel_fd = - 1 \<or> fd = - 1 then ret (-1)
      else bnd current_process (\<lambda>process.
        bnd (endpoint_file (\<lambda>f. op_read (file_operations f) = Channel_File_Read) process channel_fd) (\<lambda>file.
        bnd (channel_of_file file) (\<lambda>(channel_file, channel).
        bnd (deref processes process) (\<lambda>p.
        bnd (new_object malloc CHANNEL_MESSAGE_FD_SIZE channel_fd_messages_update
               \<lparr>fdm_data = NULL, fdm_size = 0, fdm_process_fd = process_handle p, fdm_fd = fd\<rparr>) (\<lambda>message_object.
        thn (kassert (message_object \<noteq> NULL))
       (bnd (new_buffer malloc count) (\<lambda>new_data.
        thn (kassert (new_data \<noteq> NULL))
       (thn (memory_copy new_data data count)
       (thn (assign channel_fd_messages channel_fd_messages_update message_object
               (\<lambda>m. m\<lparr>fdm_data := new_data, fdm_size := count\<rparr>))
       (bnd (deref channels channel) (\<lambda>c.
        thn (\<lambda>s. loop (fan_out (deliver_fd malloc mfree message_object) (endpoint_node channel_file) (list_head (endpoints c)) s))
            (ret 0)))))))))))))"

section \<open>Receiving\<close>

text \<open>A size returned as an \<open>int\<close>.\<close>

definition to_int :: "u64 \<Rightarrow> int" where "to_int n = sint (ucast n :: i32)"

definition take_message :: "'h free_fn \<Rightarrow> u64 \<Rightarrow> u64 \<Rightarrow> u64 \<Rightarrow> (('h, 'z) channel_mem_scheme, int) prog" where
  "take_message mfree cf data count =
     bnd (deref channel_files cf) (\<lambda>channel_file.
     bnd (deref list_nodes (list_head (messages channel_file))) (\<lambda>message_node.
     thn (kassert (ll_data message_node \<noteq> NULL))
    (bnd (deref channel_messages (ll_data message_node)) (\<lambda>m.
     if msg_size m > count then ret (-1)
     else thn (memory_copy data (msg_data m) (msg_size m))
         (thn (free_buffer mfree (msg_data m))
         (thn (free_object mfree channel_messages_update (ll_data message_node))
         (bnd (linked_list_remove mfree (messages channel_file) (list_head (messages channel_file))) (\<lambda>(r, l).
          thn (assign channel_files channel_files_update cf (\<lambda>f. f\<lparr>messages := l\<rparr>))
              (ret (to_int (msg_size m)))))))))))"

text \<open>
  One turn of a loop that waits: the thread enters the queue of waiting threads and blocks.
  \<open>None\<close> stands for going on with the loop at once, which happens when the scheduler has no other
  thread to switch to.
\<close>

definition await_event ::
  "'h malloc_fn \<Rightarrow> 'h free_fn \<Rightarrow> ('h, int) prog \<Rightarrow> 'h apply_fn \<Rightarrow> u64 list \<Rightarrow> u64
     \<Rightarrow> (linked_list \<Rightarrow> (('h, 'z) task_mem_scheme, unit) prog) \<Rightarrow> linked_list
     \<Rightarrow> (('h, 'z) task_mem_scheme, int control option) prog" where
  "await_event malloc mfree apply_kernel apply_user saved sp store l =
     bnd scheduler_get_current_thread (\<lambda>thread.
     thn (kassert (thread \<noteq> NULL))
    (bnd (deref threads thread) (\<lambda>t.
     thn (kassert (thread_state t = THREAD_STATE_RUNNING))
    (bnd (linked_list_insert malloc mfree l thread) (\<lambda>(r, l, node).
     thn (store l)
    (if r < 0 then ret (Some (Return (-1)))
     else bnd (scheduler_wait_for_event mfree apply_kernel apply_user saved sp) (\<lambda>c.
       ret (case c of Return _ \<Rightarrow> None | Switch t \<Rightarrow> Some (Switch t)))))))))"

partial_function (option) channel_receive ::
  "'h malloc_fn \<Rightarrow> 'h free_fn \<Rightarrow> ('h, int) prog \<Rightarrow> 'h apply_fn \<Rightarrow> u64 list \<Rightarrow> u64 \<Rightarrow> u64 \<Rightarrow> u64 \<Rightarrow> u64
     \<Rightarrow> ('h, 'z) channel_mem_scheme \<Rightarrow> (fault + int control \<times> ('h, 'z) channel_mem_scheme) option" where
  "channel_receive malloc mfree apply_kernel apply_user saved sp cf data count s =
     (case channel_files s cf of None \<Rightarrow> Some (Inl Bad_Access)
      | Some f \<Rightarrow>
          if list_head (messages f) \<noteq> NULL
          then Some (bnd (take_message mfree cf data count) (\<lambda>n. ret (Return n)) s)
          else (case await_event malloc mfree apply_kernel apply_user saved sp
                  (\<lambda>l. assign channel_files channel_files_update cf (\<lambda>f. f\<lparr>recv_waiters := l\<rparr>)) (recv_waiters f) s of
                  Inl e \<Rightarrow> Some (Inl e)
                | Inr (c, s') \<Rightarrow> (case c of Some c \<Rightarrow> Some (Inr (c, s'))
                    | None \<Rightarrow> channel_receive malloc mfree apply_kernel apply_user saved sp cf data count s')))"

definition channel_file_read ::
  "'h malloc_fn \<Rightarrow> 'h free_fn \<Rightarrow> ('h, int) prog \<Rightarrow> 'h apply_fn \<Rightarrow> u64 list \<Rightarrow> u64 \<Rightarrow> u64 \<Rightarrow> u64 \<Rightarrow> u64
     \<Rightarrow> (('h, 'z) channel_mem_scheme, int control) prog" where
  "channel_file_read malloc mfree apply_kernel apply_user saved sp file data count =
     (if file = NULL \<or> data = NULL \<or> count = 0 then ret (Return (-1))
      else bnd (deref files file) (\<lambda>f.
        thn (kassert (private_data f \<noteq> NULL))
       (bnd (deref channel_files (private_data f)) (\<lambda>channel_file.
        thn (kassert (source_channel channel_file \<noteq> NULL))
       (if channel_flags channel_file AND O_NONBLOCK \<noteq> 0 \<and> list_head (messages channel_file) = NULL
        then ret (Return (-1))
        else (\<lambda>s. loop (channel_receive malloc mfree apply_kernel apply_user saved sp (private_data f) data count s)))))))"

definition channel_recv ::
  "'h malloc_fn \<Rightarrow> 'h free_fn \<Rightarrow> ('h, int) prog \<Rightarrow> 'h apply_fn \<Rightarrow> u64 list \<Rightarrow> u64 \<Rightarrow> i64 \<Rightarrow> u64 \<Rightarrow> u64
     \<Rightarrow> (('h, 'z) channel_mem_scheme, int control) prog" where
  "channel_recv malloc mfree apply_kernel apply_user saved sp fd data count =
     (if fd = - 1 \<or> data = NULL \<or> count = 0 then ret (Return (-1))
      else bnd running_process (\<lambda>process.
        bnd (endpoint_file (\<lambda>f. op_read (file_operations f) = Channel_File_Read) process fd) (\<lambda>file.
        channel_file_read malloc mfree apply_kernel apply_user saved sp file data count)))"

text \<open>The descriptor of a message is duplicated into the table of the receiver.\<close>

definition duplicate_fd ::
  "'h malloc_fn \<Rightarrow> 'h free_fn \<Rightarrow> channel_message_fd \<Rightarrow> u64 \<Rightarrow> u64 \<Rightarrow> (('h, 'z) channel_mem_scheme, unit) prog" where
  "duplicate_fd malloc mfree m process fd =
     bnd (file_table_get (fdm_process_fd m)) (\<lambda>(r, item).
     thn (kassert (r = 0))
    (bnd (deref files (pointer item)) (\<lambda>f.
     thn (kassert (private_data f \<noteq> NULL))
    (bnd (process_fd_get (private_data f) (fdm_fd m)) (\<lambda>(r, item).
     thn (kassert (r = 0))
    (thn (kassert (pointer item \<noteq> NULL))
    (bnd (process_fd_open malloc mfree process (pointer item) fd) (\<lambda>r. kassert (r = 0)))))))))"

definition take_fd_message ::
  "'h malloc_fn \<Rightarrow> 'h free_fn \<Rightarrow> u64 \<Rightarrow> u64 \<Rightarrow> u64 \<Rightarrow> u64 \<Rightarrow> (('h, 'z) channel_mem_scheme, int) prog" where
  "take_fd_message malloc mfree process cf fd data =
     bnd (deref channel_files cf) (\<lambda>channel_file.
     thn (kassert (list_head (fd_messages channel_file) \<noteq> NULL))
    (bnd (deref list_nodes (list_head (fd_messages channel_file))) (\<lambda>message_node.
     thn (kassert (ll_data message_node \<noteq> NULL))
    (bnd (deref channel_fd_messages (ll_data message_node)) (\<lambda>m.
     thn (duplicate_fd malloc mfree m process fd)
    (thn (memory_copy data (fdm_data m) (fdm_size m))
    (thn (free_buffer mfree (fdm_data m))
    (thn (free_object mfree channel_fd_messages_update (ll_data message_node))
    (bnd (linked_list_remove mfree (fd_messages channel_file) (list_head (fd_messages channel_file))) (\<lambda>(r, l).
     thn (assign channel_files channel_files_update cf (\<lambda>f. f\<lparr>fd_messages := l\<rparr>))
         (ret (to_int (fdm_size m)))))))))))))"

partial_function (option) channel_receive_fd ::
  "'h malloc_fn \<Rightarrow> 'h free_fn \<Rightarrow> ('h, int) prog \<Rightarrow> 'h apply_fn \<Rightarrow> u64 list \<Rightarrow> u64 \<Rightarrow> u64 \<Rightarrow> u64 \<Rightarrow> u64 \<Rightarrow> u64
     \<Rightarrow> ('h, 'z) channel_mem_scheme \<Rightarrow> (fault + int control \<times> ('h, 'z) channel_mem_scheme) option" where
  "channel_receive_fd malloc mfree apply_kernel apply_user saved sp process cf fd data s =
     (case channel_files s cf of None \<Rightarrow> Some (Inl Bad_Access)
      | Some f \<Rightarrow>
          if list_head (fd_messages f) \<noteq> NULL
          then Some (bnd (take_fd_message malloc mfree process cf fd data) (\<lambda>n. ret (Return n)) s)
          else (case await_event malloc mfree apply_kernel apply_user saved sp
                  (\<lambda>l. assign channel_files channel_files_update cf (\<lambda>f. f\<lparr>recv_fd_waiters := l\<rparr>)) (recv_fd_waiters f) s of
                  Inl e \<Rightarrow> Some (Inl e)
                | Inr (c, s') \<Rightarrow> (case c of Some c \<Rightarrow> Some (Inr (c, s'))
                    | None \<Rightarrow> channel_receive_fd malloc mfree apply_kernel apply_user saved sp process cf fd data s')))"

definition channel_recv_fd ::
  "'h malloc_fn \<Rightarrow> 'h free_fn \<Rightarrow> ('h, int) prog \<Rightarrow> 'h apply_fn \<Rightarrow> u64 list \<Rightarrow> u64 \<Rightarrow> i64 \<Rightarrow> u64 \<Rightarrow> u64 \<Rightarrow> u64
     \<Rightarrow> (('h, 'z) channel_mem_scheme, int control) prog" where
  "channel_recv_fd malloc mfree apply_kernel apply_user saved sp channel_fd fd data count =
     (if channel_fd = - 1 \<or> fd = NULL then ret (Return (-1))
      else bnd current_process (\<lambda>process.
        bnd (endpoint_file (\<lambda>f. op_read (file_operations f) = Channel_File_Read) process channel_fd) (\<lambda>file.
        bnd (deref files file) (\<lambda>f.
        bnd (channel_of_file file) (\<lambda>(channel_file, channel).
        if channel_flags channel_file AND O_NONBLOCK \<noteq> 0 \<and> list_head (fd_messages channel_file) = NULL
        then ret (Return (-1))
        else (\<lambda>s. loop (channel_receive_fd malloc mfree apply_kernel apply_user saved sp process (private_data f) fd data s)))))))"

definition channel_file_close :: "u64 \<Rightarrow> (('h, 'z) channel_mem_scheme, int) prog" where
  "channel_file_close file = ret (-1)"

end
