(* ===== verification/Input.thy ===== *)
theory Input
  imports Channel Ring_Buffer
begin

text \<open>
  \<open>kernel/input\<close> and \<open>kernel/process/input_file.c\<close>: input devices and the files through which
  processes read their events. A device has a list of the files that were opened on it, and an
  event is put into the ring buffer of each. The ring buffer of a file is part of its struct, so the
  struct is a buffer of bytes as well as an object.
\<close>

section \<open>Events\<close>

datatype input_device_type = INPUT_DEVICE_TYPE_KEYBOARD | INPUT_DEVICE_TYPE_MOUSE

type_synonym i8 = "8 word"

datatype input_device_event =
    KEY_DOWN_EVENT (event_keycode: u8)
  | KEY_UP_EVENT (event_keycode: u8)
  | MOUSE_DOWN_EVENT (event_button: u8)
  | MOUSE_UP_EVENT (event_button: u8)
  | MOUSE_MOVE_EVENT (delta_x: i8) (delta_y: i8)

text \<open>The layout of \<open>input_device_event_t\<close>: the type, the union, and padding.\<close>

definition EVENT_SIZE :: u64 where "EVENT_SIZE = 8"

fun event_bytes :: "input_device_event \<Rightarrow> u8 list" where
  "event_bytes (KEY_DOWN_EVENT k) = [0, 0, 0, 0, k, 0, 0, 0]"
| "event_bytes (KEY_UP_EVENT k) = [1, 0, 0, 0, k, 0, 0, 0]"
| "event_bytes (MOUSE_DOWN_EVENT b) = [2, 0, 0, 0, b, 0, 0, 0]"
| "event_bytes (MOUSE_UP_EVENT b) = [3, 0, 0, 0, b, 0, 0, 0]"
| "event_bytes (MOUSE_MOVE_EVENT x y) = [4, 0, 0, 0, x, y, 0, 0]"

text \<open>What a reader makes of the bytes: it looks at the type, and then at one member of the union.\<close>

definition event_of_bytes :: "u8 list \<Rightarrow> input_device_event option" where
  "event_of_bytes bs =
     (if length bs < 8 then None
      else let t = of_le_bytes (take 4 bs) in
        if t = 0 then Some (KEY_DOWN_EVENT (bs ! 4))
        else if t = 1 then Some (KEY_UP_EVENT (bs ! 4))
        else if t = 2 then Some (MOUSE_DOWN_EVENT (bs ! 4))
        else if t = 3 then Some (MOUSE_UP_EVENT (bs ! 4))
        else if t = 4 then Some (MOUSE_MOVE_EVENT (bs ! 4) (bs ! 5))
        else None)"

section \<open>State\<close>

record input_device =
  device_handle :: i64
  device_type :: input_device_type
  input_file_list :: linked_list

record input_file =
  input_file_device :: u64
  event_waiters :: linked_list
  event_ring_buffer :: ring_buffer

record 'h input_mem = "'h channel_mem" +
  input_devices :: "u64 \<rightharpoonup> input_device"
  input_files :: "u64 \<rightharpoonup> input_file"
  g_mouse_device :: u64
  g_keyboard_device :: u64

definition INPUT_DEVICE_SIZE :: u64 where "INPUT_DEVICE_SIZE = 32"
definition INPUT_FILE_SIZE :: u64 where "INPUT_FILE_SIZE = 1672"
definition INPUT_FILE_EVENT_BUFFER_SIZE :: u64 where "INPUT_FILE_EVENT_BUFFER_SIZE = 200"
definition EVENT_BUFFER_OFFSET :: u64 where "EVENT_BUFFER_OFFSET = 24"

abbreviation no_ring :: ring_buffer where
  "no_ring \<equiv> \<lparr>base_address = 0, enqueue_ptr = 0, dequeue_ptr = 0, ring_size = 0, data_size = 0, used_count = 0\<rparr>"

section \<open>Input files\<close>

definition input_file_emit ::
  "'h malloc_fn \<Rightarrow> 'h free_fn \<Rightarrow> u64 \<Rightarrow> u64 \<Rightarrow> (('h, 'z) input_mem_scheme, int) prog" where
  "input_file_emit malloc mfree input_file event =
     (if input_file = NULL \<or> event = NULL then ret (-1)
      else bnd (deref input_files input_file) (\<lambda>f.
        if ring_buffer_is_full (event_ring_buffer f) then ret (-1)
        else bnd (ring_buffer_enqueue (event_ring_buffer f) event EVENT_SIZE) (\<lambda>(r, rb).
          thn (assign input_files input_files_update input_file (\<lambda>f. f\<lparr>event_ring_buffer := rb\<rparr>))
         (thn (kassert (r = 0))
         (bnd (\<lambda>s. loop (wake_waiters malloc mfree (event_waiters f) s)) (\<lambda>l.
          thn (assign input_files input_files_update input_file (\<lambda>f. f\<lparr>event_waiters := l\<rparr>))
              (ret 0)))))))"

definition input_device_open ::
  "'h malloc_fn \<Rightarrow> 'h free_fn \<Rightarrow> u64 \<Rightarrow> u64 \<Rightarrow> (('h, 'z) input_mem_scheme, int) prog" where
  "input_device_open malloc mfree input_device input_file =
     (if input_device = NULL \<or> input_file = NULL then ret (-1)
      else bnd (deref input_devices input_device) (\<lambda>d.
        bnd (linked_list_insert malloc mfree (input_file_list d) input_file) (\<lambda>(r, l, node).
        thn (assign input_devices input_devices_update input_device (\<lambda>d. d\<lparr>input_file_list := l\<rparr>))
       (thn (kassert (r = 0)) (ret 0)))))"

definition input_file_create ::
  "'h malloc_fn \<Rightarrow> 'h free_fn \<Rightarrow> u64 \<Rightarrow> u64 \<Rightarrow> (('h, 'z) input_mem_scheme, int \<times> i64 option) prog" where
  "input_file_create malloc mfree path input_device =
     (if path = NULL \<or> input_device = NULL then ret (-1, None)
      else bnd (new_buffer malloc INPUT_FILE_SIZE) (\<lambda>input_file.
        thn (kassert (input_file \<noteq> NULL))
       (thn (memory_set input_file 0 INPUT_FILE_SIZE)
       (let (r, rb) = ring_buffer_init no_ring (input_file + EVENT_BUFFER_OFFSET) INPUT_FILE_EVENT_BUFFER_SIZE EVENT_SIZE in
        thn (kassert (r = 0))
       (thn (upd (\<lambda>s. s\<lparr>input_files := (input_files s)(input_file \<mapsto> \<lparr>input_file_device = input_device,
               event_waiters = snd (linked_list_init empty_list), event_ring_buffer = rb\<rparr>)\<rparr>))
       (bnd (file_table_open malloc mfree NULL \<lparr>file_handle = 0, file_path = NULL, ref_count = 1,
               private_data = input_file, file_operations = \<lparr>op_open = Null_Function, op_read = Input_File_Read,
                 op_write = Null_Function, op_close = Null_Function\<rparr>, file_flags = 0\<rparr>) (\<lambda>(r, handle).
        thn (kassert (r = 0))
       (bnd (input_device_open malloc mfree input_device input_file) (\<lambda>r.
        thn (kassert (r = 0)) (ret (0, handle)))))))))))"

definition input_file_open ::
  "'h malloc_fn \<Rightarrow> 'h free_fn \<Rightarrow> u64 \<Rightarrow> u64 \<Rightarrow> i32 \<Rightarrow> (('h, 'z) input_mem_scheme, int) prog" where
  "input_file_open malloc mfree file fd flags =
     (if file = NULL \<or> fd = NULL then ret (-1)
      else bnd current_process (\<lambda>process.
        bnd (deref files file) (\<lambda>f.
        thn (kassert (private_data f \<noteq> NULL))
       (bnd (input_file_create malloc mfree (file_path f) (private_data f)) (\<lambda>(r, handle).
        thn (kassert (r = 0))
       (thn (kassert (\<not> the handle <s 0))
       (bnd (file_table_get (the handle)) (\<lambda>(r, item).
        thn (kassert (r = 0))
       (thn (assign files files_update (pointer item) (\<lambda>f. f\<lparr>file_flags := flags\<rparr>))
            (process_fd_open malloc mfree process (pointer item) fd))))))))))"

text \<open>\<open>input_file_read\<close>; \<open>input_file_wait\<close> is its loop, where a blocked reader goes on, and the rest.\<close>

definition take_event :: "u64 \<Rightarrow> u64 \<Rightarrow> (('h, 'z) input_mem_scheme, int) prog" where
  "take_event input_file buffer =
     bnd (deref input_files input_file) (\<lambda>f.
     bnd (ring_buffer_dequeue (event_ring_buffer f) buffer EVENT_SIZE) (\<lambda>(r, rb).
     thn (assign input_files input_files_update input_file (\<lambda>f. f\<lparr>event_ring_buffer := rb\<rparr>))
    (thn (kassert (r = 0)) (ret (to_int EVENT_SIZE)))))"

definition await_input ::
  "'h malloc_fn \<Rightarrow> 'h free_fn \<Rightarrow> ('h, int) prog \<Rightarrow> 'h apply_fn \<Rightarrow> u64 list \<Rightarrow> u64 \<Rightarrow> u64 \<Rightarrow> linked_list
     \<Rightarrow> (('h, 'z) input_mem_scheme, int control option) prog" where
  "await_input malloc mfree apply_kernel apply_user saved sp input_file l =
     bnd current_process (\<lambda>_.
     bnd scheduler_get_current_thread (\<lambda>thread.
     bnd (linked_list_insert malloc mfree l thread) (\<lambda>(r, l, node).
     thn (assign input_files input_files_update input_file (\<lambda>f. f\<lparr>event_waiters := l\<rparr>))
    (thn (kassert (r = 0))
    (bnd (scheduler_wait_for_event mfree apply_kernel apply_user saved sp) (\<lambda>c.
     ret (case c of Return _ \<Rightarrow> None | Switch t \<Rightarrow> Some (Switch t))))))))"

partial_function (option) input_file_wait ::
  "'h malloc_fn \<Rightarrow> 'h free_fn \<Rightarrow> ('h, int) prog \<Rightarrow> 'h apply_fn \<Rightarrow> u64 list \<Rightarrow> u64 \<Rightarrow> u64 \<Rightarrow> u64
     \<Rightarrow> ('h, 'z) input_mem_scheme \<Rightarrow> (fault + int control \<times> ('h, 'z) input_mem_scheme) option" where
  "input_file_wait malloc mfree apply_kernel apply_user saved sp input_file buffer s =
     (case input_files s input_file of None \<Rightarrow> Some (Inl Bad_Access)
      | Some f \<Rightarrow>
          if \<not> ring_buffer_is_empty (event_ring_buffer f)
          then Some (bnd (take_event input_file buffer) (\<lambda>n. ret (Return n)) s)
          else (case await_input malloc mfree apply_kernel apply_user saved sp input_file (event_waiters f) s of
                  Inl e \<Rightarrow> Some (Inl e)
                | Inr (c, s') \<Rightarrow> (case c of Some c \<Rightarrow> Some (Inr (c, s'))
                    | None \<Rightarrow> input_file_wait malloc mfree apply_kernel apply_user saved sp input_file buffer s')))"

definition input_file_read ::
  "'h malloc_fn \<Rightarrow> 'h free_fn \<Rightarrow> ('h, int) prog \<Rightarrow> 'h apply_fn \<Rightarrow> u64 list \<Rightarrow> u64 \<Rightarrow> u64 \<Rightarrow> u64 \<Rightarrow> u64
     \<Rightarrow> (('h, 'z) input_mem_scheme, int control) prog" where
  "input_file_read malloc mfree apply_kernel apply_user saved sp file buffer count =
     (if file = NULL \<or> buffer = NULL \<or> count = 0 then ret (Return (-1))
      else if count < EVENT_SIZE then ret (Return (-1))
      else bnd (deref files file) (\<lambda>f.
        thn (kassert (private_data f \<noteq> NULL))
       (bnd (deref input_files (private_data f)) (\<lambda>input_file.
        if file_flags f AND O_NONBLOCK \<noteq> 0 \<and> ring_buffer_is_empty (event_ring_buffer input_file)
        then ret (Return (-1))
        else (\<lambda>s. loop (input_file_wait malloc mfree apply_kernel apply_user saved sp (private_data f) buffer s))))))"

section \<open>Input devices\<close>

definition input_device_create ::
  "'h malloc_fn \<Rightarrow> 'h free_fn \<Rightarrow> u64 \<Rightarrow> input_device_type \<Rightarrow> (('h, 'z) input_mem_scheme, int \<times> u64) prog" where
  "input_device_create malloc mfree path type =
     bnd (new_object malloc INPUT_DEVICE_SIZE input_devices_update
            \<lparr>device_handle = 0, device_type = type, input_file_list = snd (linked_list_init empty_list)\<rparr>) (\<lambda>input_device.
     if input_device = NULL then ret (-1, NULL)
     else bnd (file_table_open malloc mfree path \<lparr>file_handle = 0, file_path = path, ref_count = 1,
            private_data = input_device, file_operations = \<lparr>op_open = Input_File_Open, op_read = Null_Function,
              op_write = Null_Function, op_close = Null_Function\<rparr>, file_flags = 0\<rparr>) (\<lambda>(r, handle).
          thn (case handle of None \<Rightarrow> ret ()
               | Some h \<Rightarrow> assign input_devices input_devices_update input_device (\<lambda>d. d\<lparr>device_handle := h\<rparr>))
         (thn (kassert (r = 0)) (ret (0, input_device)))))"

definition input_device_destroy :: "'h free_fn \<Rightarrow> u64 \<Rightarrow> (('h, 'z) input_mem_scheme, int) prog" where
  "input_device_destroy mfree input_device =
     (if input_device = NULL then ret (-1)
      else bnd (deref input_devices input_device) (\<lambda>d.
        bnd (linked_list_destroy mfree (input_file_list d)) (\<lambda>(r, l).
        thn (assign input_devices input_devices_update input_device (\<lambda>d. d\<lparr>input_file_list := l\<rparr>))
       (bnd (file_table_close mfree (device_handle d)) (\<lambda>_.
        thn (free_object mfree input_devices_update input_device) (ret 0))))))"

partial_function (option) find_input_file ::
  "u64 \<Rightarrow> u64 \<Rightarrow> ('h, 'z) list_mem_scheme \<Rightarrow> (fault + u64 \<times> ('h, 'z) list_mem_scheme) option" where
  "find_input_file input_file node s =
     (if node = NULL then Some (Inr (NULL, s))
      else case list_nodes s node of None \<Rightarrow> Some (Inl Bad_Access)
      | Some n \<Rightarrow> if ll_data n = input_file then Some (Inr (node, s)) else find_input_file input_file (ll_next n) s)"

definition input_device_close ::
  "'h free_fn \<Rightarrow> u64 \<Rightarrow> u64 \<Rightarrow> (('h, 'z) input_mem_scheme, int) prog" where
  "input_device_close mfree input_device input_file =
     (if input_device = NULL \<or> input_file = NULL then ret (-1)
      else bnd (deref input_devices input_device) (\<lambda>d.
        bnd (\<lambda>s. loop (find_input_file input_file (list_head (input_file_list d)) s)) (\<lambda>node.
        if node = NULL then ret (-1)
        else bnd (linked_list_remove mfree (input_file_list d) node) (\<lambda>(r, l).
          thn (assign input_devices input_devices_update input_device (\<lambda>d. d\<lparr>input_file_list := l\<rparr>))
              (ret 0)))))"

text \<open>The loop over the files of a device.\<close>

partial_function (option) emit_from ::
  "'h malloc_fn \<Rightarrow> 'h free_fn \<Rightarrow> u64 \<Rightarrow> u64 \<Rightarrow> ('h, 'z) input_mem_scheme
     \<Rightarrow> (fault + unit \<times> ('h, 'z) input_mem_scheme) option" where
  "emit_from malloc mfree event node s =
     (if node = NULL then Some (Inr ((), s))
      else case list_nodes s node of None \<Rightarrow> Some (Inl Bad_Access)
      | Some n \<Rightarrow>
          if ll_data n = NULL then Some (Inl Assertion_Failed)
          else (case input_file_emit malloc mfree (ll_data n) event s of Inl e \<Rightarrow> Some (Inl e)
             | Inr (r, s') \<Rightarrow> (case list_nodes s' node of None \<Rightarrow> Some (Inl Bad_Access)
                 | Some n' \<Rightarrow> emit_from malloc mfree event (ll_next n') s')))"

definition input_device_emit ::
  "'h malloc_fn \<Rightarrow> 'h free_fn \<Rightarrow> u64 \<Rightarrow> u64 \<Rightarrow> (('h, 'z) input_mem_scheme, int) prog" where
  "input_device_emit malloc mfree input_device event =
     (if input_device = NULL \<or> event = NULL then ret (-1)
      else bnd (deref input_devices input_device) (\<lambda>d.
        thn (\<lambda>s. loop (emit_from malloc mfree event (list_head (input_file_list d)) s)) (ret 0)))"

text \<open>\<open>input.c\<close>: the two devices; the paths are the addresses of the string literals.\<close>

definition input_init ::
  "'h malloc_fn \<Rightarrow> 'h free_fn \<Rightarrow> u64 \<Rightarrow> u64 \<Rightarrow> (('h, 'z) input_mem_scheme, int) prog" where
  "input_init malloc mfree mouse_path keyboard_path =
     bnd (input_device_create malloc mfree mouse_path INPUT_DEVICE_TYPE_MOUSE) (\<lambda>(r, mouse).
     thn (if r = 0 then upd (\<lambda>s. s\<lparr>g_mouse_device := mouse\<rparr>) else ret ())
    (thn (kassert (r = 0))
    (bnd (input_device_create malloc mfree keyboard_path INPUT_DEVICE_TYPE_KEYBOARD) (\<lambda>(r, keyboard).
     thn (if r = 0 then upd (\<lambda>s. s\<lparr>g_keyboard_device := keyboard\<rparr>) else ret ())
    (thn (kassert (r = 0)) (ret 0))))))"

definition input_get_mouse_device :: "(('h, 'z) input_mem_scheme, u64) prog" where
  "input_get_mouse_device = rd g_mouse_device"

definition input_get_keyboard_device :: "(('h, 'z) input_mem_scheme, u64) prog" where
  "input_get_keyboard_device = rd g_keyboard_device"

end
