(* ===== verification/Hid.thy ===== *)
theory Hid
  imports Input
begin

text \<open>
  \<open>kernel/drivers/usb/usb_hid_keyboard.c\<close> and \<open>usb_hid_mouse.c\<close>: what the drivers make of the
  reports of a boot keyboard and a boot mouse. The events that a report causes are a list, which
  \<open>emit_events\<close> passes to \<open>input_device_emit\<close> one after the other, each in the same place of the
  stack.
\<close>

section \<open>Changed bits\<close>

text \<open>The loop \<open>while (changed > 0) { index = __builtin_ctz(changed); ...; changed &= changed - 1; }\<close>.\<close>

definition ctz :: "u8 \<Rightarrow> nat" where
  "ctz w = length (takeWhile (\<lambda>i. \<not> bit w i) [0..<8])"

function changed_bits :: "u8 \<Rightarrow> nat list" where
  "changed_bits w = (if w = 0 then [] else ctz w # changed_bits (w AND (w - 1)))"
  by pat_completeness auto

lemma clear_lowest_less: "w \<noteq> 0 \<Longrightarrow> unat (w AND (w - 1)) < unat (w :: u8)"
proof -
  assume "w \<noteq> 0"
  then have "unat (w - 1) < unat w" by (simp add: unat_minus_one unat_gt_0)
  moreover have "unat (w AND (w - 1)) \<le> unat (w - 1)" by (simp add: word_and_le1 flip: word_le_nat_alt)
  ultimately show ?thesis by linarith
qed

termination changed_bits
  by (relation "measure unat") (auto intro: clear_lowest_less)

declare changed_bits.simps [simp del]

text \<open>Clearing the lowest bit keeps the bits that have a bit below them.\<close>

lemma bit_clear_lowest_nat:
  "0 < n \<Longrightarrow> bit (n AND (n - 1) :: nat) j \<longleftrightarrow> bit n j \<and> (\<exists>k < j. bit n k)"
proof (induction j arbitrary: n)
  case 0
  then show ?case by (auto simp: bit_0 even_and_iff)
next
  case (Suc j)
  show ?case
  proof (cases "even n")
    case True
    then obtain m where m: "n = 2 * m" "0 < m" using Suc.prems by auto
    have d: "(2 * m - 1) div 2 = m - 1" using m(2) by linarith
    have "bit (n AND (n - 1)) (Suc j) \<longleftrightarrow> bit n (Suc j) \<and> bit (n - 1) (Suc j)" by (rule bit_and_iff)
    also have "\<dots> \<longleftrightarrow> bit (m AND (m - 1)) j" unfolding bit_Suc m(1) d bit_and_iff by simp
    also have "\<dots> \<longleftrightarrow> bit m j \<and> (\<exists>k < j. bit m k)"
      by (rule Suc.IH [OF m(2)])
    also have "\<dots> \<longleftrightarrow> bit n (Suc j) \<and> (\<exists>k < Suc j. bit n k)"
      by (simp add: m(1) bit_Suc Ex_less_Suc2 bit_0)
    finally show ?thesis .
  next
    case False
    then have "(n - 1) div 2 = n div 2" by presburger
    then have "bit (n - 1) (Suc j) \<longleftrightarrow> bit n (Suc j)" unfolding bit_Suc by simp
    then have "bit (n AND (n - 1)) (Suc j) \<longleftrightarrow> bit n (Suc j)" unfolding bit_and_iff by simp
    then show ?thesis using False by (simp add: Ex_less_Suc2 bit_0)
  qed
qed

lemma bit_clear_lowest:
  assumes "w \<noteq> 0" shows "bit (w AND (w - 1)) j \<longleftrightarrow> bit w j \<and> (\<exists>k < j. bit (w :: u8) k)"
proof (cases "j < 8")
  case True
  have 1: "bit v k = bit (unat v) k" if "k < 8" for v :: u8 and k using that by (simp add: bit_unsigned_iff)
  have "unat (w AND (w - 1)) = unat w AND (unat w - 1)"
    using assms by (simp add: unsigned_and_eq unat_minus_one)
  moreover have "0 < unat w" using assms by (simp add: unat_gt_0)
  ultimately show ?thesis using bit_clear_lowest_nat [of "unat w" j] 1 True by (metis less_trans)
next
  case False
  then show ?thesis using bit_imp_le_length [of w j] by (auto simp: bit_and_iff)
qed

lemma filter_lowest:
  assumes "j < n" "P j"
  shows "filter P [0..<n] = length (takeWhile (\<lambda>i. \<not> P i) [0..<n]) # filter (\<lambda>i. P i \<and> (\<exists>k < i. P k)) [0..<n]"
proof -
  define c where "c = (LEAST i. P i)"
  let ?Q = "\<lambda>i. P i \<and> (\<exists>k < i. P k)"
  have Pc: "P c" using assms(2) unfolding c_def by (rule LeastI)
  have below: "\<not> P i" if "i < c" for i using that not_less_Least [of i P] unfolding c_def by blast
  have "c \<le> j" using assms(2) unfolding c_def by (rule Least_le)
  then have cn: "c < n" using assms(1) by simp
  have u: "[0..<n] = [0..<c] @ c # [Suc c..<n]"
    using cn upt_add_eq_append [of 0 c "n - c"] by (simp add: upt_conv_Cons)
  have 1: "filter P [0..<c] = []" "filter ?Q [0..<c] = []" using below by (auto simp: filter_empty_conv)
  have 2: "filter ?Q [Suc c..<n] = filter P [Suc c..<n]" using Pc by (intro filter_cong) (auto intro: exI [of _ c])
  have "takeWhile (\<lambda>i. \<not> P i) [0..<n] = [0..<c]"
    unfolding u using below Pc by (subst takeWhile_append2) auto
  then have 3: "length (takeWhile (\<lambda>i. \<not> P i) [0..<n]) = c" by simp
  have 4: "\<not> ?Q c" using below by blast
  show ?thesis unfolding 3 unfolding u filter_append filter.simps 1 2 using Pc 4 by simp
qed

lemma changed_bits_eq: "changed_bits w = filter (bit w) [0..<8]"
proof (induction w rule: changed_bits.induct)
  case (1 w)
  show ?case
  proof (cases "w = 0")
    case True
    then show ?thesis by (simp add: changed_bits.simps)
  next
    case False
    have "\<exists>j < 8. bit w j"
    proof (rule ccontr)
      assume "\<not> (\<exists>j < 8. bit w j)"
      then have "w = 0" by (intro bit_word_eqI) auto
      then show False using False by simp
    qed
    then obtain j where j: "j < 8" "bit w j" by blast
    have "filter (bit (w AND (w - 1))) [0..<8] = filter (\<lambda>i. bit w i \<and> (\<exists>k < i. bit w k)) [0..<8]"
      by (rule filter_cong) (simp_all add: bit_clear_lowest [OF False])
    then show ?thesis using 1 False filter_lowest [of j 8 "bit w", OF j] by (simp add: changed_bits.simps [of w] ctz_def)
  qed
qed

section \<open>Reports\<close>

record keyboard_report =
  modifiers :: u8
  kb_reserved :: u8
  keypress :: "u8 list"
  kb_cycle_bit :: u8

record mouse_report =
  buttons :: u8
  mouse_x :: i8
  mouse_y :: i8
  wheel :: i8
  mouse_cycle_bit :: u8

text \<open>The state of a driver.\<close>

record 'r hid_driver =
  latest_report :: 'r
  latest_report_valid :: u8
  request_in_flight :: u8
  request_cycle_bit :: u8

section \<open>The keyboard\<close>

definition KEY_LEFTCTRL :: u8 where "KEY_LEFTCTRL = 0xE0"

definition report_contains_key :: "keyboard_report \<Rightarrow> u8 \<Rightarrow> bool" where
  "report_contains_key report key \<longleftrightarrow> key \<in> set (take 6 (keypress report))"

definition modifier_events :: "u8 \<Rightarrow> u8 \<Rightarrow> input_device_event list" where
  "modifier_events previous latest =
     map (\<lambda>index. if latest AND push_bit index 1 \<noteq> 0 then KEY_DOWN_EVENT (KEY_LEFTCTRL + of_nat index)
                  else KEY_UP_EVENT (KEY_LEFTCTRL + of_nat index))
       (changed_bits (previous XOR latest))"

text \<open>The body of the loop over the six slots of a report.\<close>

definition slot_events :: "keyboard_report \<Rightarrow> keyboard_report \<Rightarrow> nat \<Rightarrow> input_device_event list" where
  "slot_events previous latest i =
     (let prev_key = keypress previous ! i; new_key = keypress latest ! i in
       (if \<not> report_contains_key latest prev_key then [KEY_UP_EVENT prev_key] else []) @
       (if \<not> report_contains_key previous new_key then [KEY_DOWN_EVENT new_key] else []))"

definition keyboard_events :: "keyboard_report \<Rightarrow> keyboard_report \<Rightarrow> input_device_event list" where
  "keyboard_events previous latest =
     modifier_events (modifiers previous) (modifiers latest) @ concat (map (slot_events previous latest) [0..<6])"

text \<open>The callback, with the data of the transfer; the second argument is whether the input device
  exists already.\<close>

definition usb_hid_keyboard_transfer_callback ::
  "bool \<Rightarrow> bool \<Rightarrow> u8 list \<Rightarrow> keyboard_report hid_driver \<Rightarrow> input_device_event list \<times> keyboard_report hid_driver" where
  "usb_hid_keyboard_transfer_callback success device_exists data d =
     (let d = d\<lparr>request_in_flight := 0\<rparr> in
      if \<not> success then ([], d)
      else let previous = latest_report d;
          latest = \<lparr>modifiers = data ! 0, kb_reserved = data ! 1, keypress = take 6 (drop 2 data),
            kb_cycle_bit = request_cycle_bit d\<rparr>;
          d = d\<lparr>latest_report := latest, latest_report_valid := 1,
            request_cycle_bit := (if request_cycle_bit d = 0 then 1 else 0)\<rparr> in
        (if device_exists then keyboard_events previous latest else [], d))"

definition usb_hid_keyboard_get_report :: "keyboard_report hid_driver \<Rightarrow> keyboard_report option" where
  "usb_hid_keyboard_get_report d = (if latest_report_valid d = 0 then None else Some (latest_report d))"

section \<open>The mouse\<close>

definition mouse_events :: "mouse_report \<Rightarrow> mouse_report \<Rightarrow> input_device_event list" where
  "mouse_events previous latest =
     (if mouse_x previous \<noteq> mouse_x latest \<or> mouse_y previous \<noteq> mouse_y latest
      then [MOUSE_MOVE_EVENT (mouse_x latest) (mouse_y latest)] else []) @
     map (\<lambda>index. let button = push_bit index 1 in
            if buttons latest AND button \<noteq> 0 then MOUSE_DOWN_EVENT button else MOUSE_UP_EVENT button)
       (changed_bits (buttons previous XOR buttons latest))"

definition usb_hid_mouse_transfer_callback ::
  "bool \<Rightarrow> bool \<Rightarrow> u8 list \<Rightarrow> mouse_report hid_driver \<Rightarrow> input_device_event list \<times> mouse_report hid_driver" where
  "usb_hid_mouse_transfer_callback success device_exists data d =
     (let d = d\<lparr>request_in_flight := 0\<rparr> in
      if \<not> success then ([], d)
      else let previous = latest_report d;
          latest = \<lparr>buttons = data ! 0, mouse_x = data ! 1, mouse_y = data ! 2, wheel = data ! 3,
            mouse_cycle_bit = request_cycle_bit d\<rparr>;
          d = d\<lparr>latest_report := latest, latest_report_valid := 1,
            request_cycle_bit := (if request_cycle_bit d = 0 then 1 else 0)\<rparr> in
        (if device_exists then mouse_events previous latest else [], d))"

definition usb_hid_mouse_get_report :: "mouse_report hid_driver \<Rightarrow> mouse_report option" where
  "usb_hid_mouse_get_report d = (if latest_report_valid d = 0 then None else Some (latest_report d))"

section \<open>Passing the events on\<close>

fun emit_events ::
  "'h malloc_fn \<Rightarrow> 'h free_fn \<Rightarrow> u64 \<Rightarrow> u64 \<Rightarrow> input_device_event list \<Rightarrow> (('h, 'z) input_mem_scheme, unit) prog" where
  "emit_events malloc mfree stack device [] = ret ()"
| "emit_events malloc mfree stack device (e # es) =
     thn (write_bytes stack (event_bytes e))
    (bnd (input_device_emit malloc mfree device stack) (\<lambda>_. emit_events malloc mfree stack device es))"

section \<open>Correctness\<close>

text \<open>Events are read back from their bytes as they were emitted.\<close>

lemma event_bytes_length [simp]: "length (event_bytes e) = 8"
  by (cases e) simp_all

lemma event_round_trip: "event_of_bytes (event_bytes e @ bs) = Some e"
  by (cases e) (simp_all add: event_of_bytes_def)

text \<open>
  A listener that follows the key events: \<open>track\<close> is the set of keys it takes to be pressed, and
  \<open>pressed\<close> the keys that are pressed according to a report.
\<close>

fun track :: "u8 set \<Rightarrow> input_device_event list \<Rightarrow> u8 set" where
  "track S [] = S"
| "track S (KEY_DOWN_EVENT k # es) = track (insert k S) es"
| "track S (KEY_UP_EVENT k # es) = track (S - {k}) es"
| "track S (e # es) = track S es"

definition pressed :: "keyboard_report \<Rightarrow> u8 set" where
  "pressed r = set (take 6 (keypress r)) \<union> {KEY_LEFTCTRL + of_nat i | i. i < 8 \<and> bit (modifiers r) i}"

definition boot_report :: "keyboard_report \<Rightarrow> bool" where
  "boot_report r \<longleftrightarrow> length (keypress r) = 6 \<and> (\<forall>k \<in> set (keypress r). k < KEY_LEFTCTRL)"

lemma track_mem:
  "\<forall>k. \<not> (KEY_DOWN_EVENT k \<in> set es \<and> KEY_UP_EVENT k \<in> set es) \<Longrightarrow>
   k \<in> track S es \<longleftrightarrow> KEY_DOWN_EVENT k \<in> set es \<or> k \<in> S \<and> KEY_UP_EVENT k \<notin> set es"
proof (induction S es rule: track.induct)
  case (2 S j es)
  then show ?case by (cases "k = j") auto
next
  case (3 S j es)
  then show ?case by (cases "k = j") auto
qed auto

lemma keyboard_down_iff:
  assumes "boot_report p" "boot_report n"
  shows "KEY_DOWN_EVENT k \<in> set (keyboard_events p n) \<longleftrightarrow>
    (\<exists>i < 8. k = KEY_LEFTCTRL + of_nat i \<and> bit (modifiers n) i \<and> \<not> bit (modifiers p) i) \<or>
    k \<in> set (keypress n) \<and> k \<notin> set (keypress p)"
  using assms
  by (auto simp: keyboard_events_def modifier_events_def slot_events_def report_contains_key_def changed_bits_eq and_exp_eq_0_iff_not_bit
      bit_xor_iff boot_report_def Let_def in_set_conv_nth split: if_splits)

lemma keyboard_up_iff:
  assumes "boot_report p" "boot_report n"
  shows "KEY_UP_EVENT k \<in> set (keyboard_events p n) \<longleftrightarrow>
    (\<exists>i < 8. k = KEY_LEFTCTRL + of_nat i \<and> bit (modifiers p) i \<and> \<not> bit (modifiers n) i) \<or>
    k \<in> set (keypress p) \<and> k \<notin> set (keypress n)"
  using assms
  by (auto simp: keyboard_events_def modifier_events_def slot_events_def report_contains_key_def changed_bits_eq and_exp_eq_0_iff_not_bit
      bit_xor_iff boot_report_def Let_def in_set_conv_nth split: if_splits)
lemma modifier_key_unat: "i < 8 \<Longrightarrow> unat (KEY_LEFTCTRL + of_nat i) = 224 + i"
  by (subst unat_add_no_wrap) (simp_all add: KEY_LEFTCTRL_def unat_of_nat)

lemma modifier_key_inj: "i < 8 \<Longrightarrow> j < 8 \<Longrightarrow> KEY_LEFTCTRL + of_nat i = KEY_LEFTCTRL + of_nat j \<Longrightarrow> i = j"
  using modifier_key_unat [of i] modifier_key_unat [of j] by (metis add_left_cancel)

lemma modifier_key_large: "boot_report r \<Longrightarrow> i < 8 \<Longrightarrow> KEY_LEFTCTRL + of_nat i \<notin> set (keypress r)"
  using modifier_key_unat [of i] by (auto simp: boot_report_def word_less_nat_alt KEY_LEFTCTRL_def dest!: bspec)

lemma pressed_iff:
  assumes "boot_report r"
  shows "k \<in> pressed r \<longleftrightarrow> (\<exists>i < 8. k = KEY_LEFTCTRL + of_nat i \<and> bit (modifiers r) i) \<or> k \<in> set (keypress r)"
  using assms by (auto simp: pressed_def boot_report_def)

lemma not_both:
  assumes "boot_report p" "boot_report n"
  shows "\<not> (KEY_DOWN_EVENT k \<in> set (keyboard_events p n) \<and> KEY_UP_EVENT k \<in> set (keyboard_events p n))"
  unfolding keyboard_down_iff [OF assms] keyboard_up_iff [OF assms]
  using modifier_key_inj modifier_key_large [OF assms(1)] modifier_key_large [OF assms(2)] by metis

lemma keyboard_events_pressed:
  assumes p: "boot_report p" and n: "boot_report n"
  shows "track (pressed p) (keyboard_events p n) = pressed n"
proof (rule set_eqI)
  fix k
  have "k \<in> track (pressed p) (keyboard_events p n) \<longleftrightarrow>
      KEY_DOWN_EVENT k \<in> set (keyboard_events p n) \<or> k \<in> pressed p \<and> KEY_UP_EVENT k \<notin> set (keyboard_events p n)"
    by (rule track_mem) (use not_both [OF assms] in blast)
  also have "\<dots> \<longleftrightarrow> k \<in> pressed n"
    unfolding keyboard_down_iff [OF assms] keyboard_up_iff [OF assms] pressed_iff [OF p] pressed_iff [OF n]
    using modifier_key_inj modifier_key_large [OF p] modifier_key_large [OF n] by metis
  finally show "k \<in> track (pressed p) (keyboard_events p n) \<longleftrightarrow> k \<in> pressed n" .
qed
section \<open>Sequences of reports\<close>

text \<open>The events of a sequence of successful transfers.\<close>

fun keyboard_run :: "u8 list list \<Rightarrow> keyboard_report hid_driver \<Rightarrow> input_device_event list \<times> keyboard_report hid_driver" where
  "keyboard_run [] d = ([], d)"
| "keyboard_run (data # datas) d =
     (let (es, d) = usb_hid_keyboard_transfer_callback True True data d; (fs, d) = keyboard_run datas d in (es @ fs, d))"

fun mouse_run :: "u8 list list \<Rightarrow> mouse_report hid_driver \<Rightarrow> input_device_event list \<times> mouse_report hid_driver" where
  "mouse_run [] d = ([], d)"
| "mouse_run (data # datas) d =
     (let (es, d) = usb_hid_mouse_transfer_callback True True data d; (fs, d) = mouse_run datas d in (es @ fs, d))"

text \<open>The data of a report of a boot keyboard.\<close>

definition boot_data :: "u8 list \<Rightarrow> bool" where
  "boot_data data \<longleftrightarrow> length data = 8 \<and> (\<forall>k \<in> set (drop 2 data). k < KEY_LEFTCTRL)"

lemma track_append: "track S (es @ fs) = track (track S es) fs"
  by (induction S es rule: track.induct) simp_all

lemma keyboard_callback_run:
  assumes "boot_data data"
  shows "\<exists>d'. usb_hid_keyboard_transfer_callback True True data d = (keyboard_events (latest_report d) (latest_report d'), d') \<and>
    boot_report (latest_report d') \<and> pressed (latest_report d') =
      set (drop 2 data) \<union> {KEY_LEFTCTRL + of_nat i | i. i < 8 \<and> bit (data ! 0) i} \<and>
    usb_hid_keyboard_get_report d' = Some (latest_report d')"
  using assms
  by (simp add: usb_hid_keyboard_transfer_callback_def Let_def boot_report_def boot_data_def pressed_def
    usb_hid_keyboard_get_report_def)

text \<open>C20: A program that follows the key events of the keyboard driver knows at any time which keys
  are held: after any sequence of reports, the set of keys that \<open>KEY_DOWN\<close> events added and
  \<open>KEY_UP\<close> events removed is the set of the modifiers and keys of the last report, however the
  reports permute the six slots, and with slots that hold 0 (no key) treated like a key.\<close>

theorem keyboard_events_track_keys:
  assumes "boot_report (latest_report d)" and "list_all boot_data datas" and "keyboard_run datas d = (es, d')"
  shows "boot_report (latest_report d') \<and> track (pressed (latest_report d)) es = pressed (latest_report d') \<and>
    (datas \<noteq> [] \<longrightarrow> pressed (latest_report d') =
       set (drop 2 (last datas)) \<union> {KEY_LEFTCTRL + of_nat i | i. i < 8 \<and> bit (last datas ! 0) i})"
  using assms
proof (induction datas arbitrary: d es)
  case Nil
  then show ?case by simp
next
  case (Cons data datas)
  from Cons.prems(2) have "boot_data data" by simp
  from keyboard_callback_run [OF this, of d] obtain d1 where
    d1: "usb_hid_keyboard_transfer_callback True True data d = (keyboard_events (latest_report d) (latest_report d1), d1)"
      "boot_report (latest_report d1)" "pressed (latest_report d1) =
        set (drop 2 data) \<union> {KEY_LEFTCTRL + of_nat i | i. i < 8 \<and> bit (data ! 0) i}" by blast
  obtain fs where fs: "keyboard_run datas d1 = (fs, d')" "es = keyboard_events (latest_report d) (latest_report d1) @ fs"
    using Cons.prems(3) d1(1) by (auto split: prod.splits)
  note ih = Cons.IH [OF d1(2) _ fs(1)]
  have "track (pressed (latest_report d)) es = track (pressed (latest_report d1)) fs"
    unfolding fs(2) track_append keyboard_events_pressed [OF Cons.prems(1) d1(2)] ..
  moreover have "datas = [] \<Longrightarrow> d' = d1" using fs(1) by simp
  ultimately show ?case using ih Cons.prems(2) d1(3) by auto
qed

definition sample_keyboard :: "keyboard_report hid_driver" where
  "sample_keyboard = \<lparr>latest_report = \<lparr>modifiers = 0, kb_reserved = 0, keypress = replicate 6 0, kb_cycle_bit = 0\<rparr>,
     latest_report_valid = 0, request_in_flight = 1, request_cycle_bit = 0\<rparr>"

theorem keyboard_events_track_keys_witness:
  "track {0} (fst (keyboard_run [[2, 0, 4, 0, 0, 0, 0, 0], [0, 0, 0, 4, 5, 0, 0, 0]] sample_keyboard)) = {0, 4, 5}"
proof -
  let ?ds = "[[2, 0, 4, 0, 0, 0, 0, 0], [0, 0, 0, 4, 5, 0, 0, 0]] :: u8 list list"
  have 1: "boot_report (latest_report sample_keyboard)" "list_all boot_data ?ds"
    by (simp_all add: sample_keyboard_def boot_report_def boot_data_def KEY_LEFTCTRL_def)
  have 2: "keyboard_run ?ds sample_keyboard = (fst (keyboard_run ?ds sample_keyboard), snd (keyboard_run ?ds sample_keyboard))" by simp
  have 3: "pressed (latest_report sample_keyboard) = {0}" by (auto simp: sample_keyboard_def pressed_def)
  from keyboard_events_track_keys [OF 1 2] show ?thesis by (auto simp: 3)
qed

text \<open>The motion that the events of a mouse add up to.\<close>

fun displacement :: "input_device_event list \<Rightarrow> int \<times> int" where
  "displacement [] = (0, 0)"
| "displacement (MOUSE_MOVE_EVENT x y # es) = (sint x + fst (displacement es), sint y + snd (displacement es))"
| "displacement (e # es) = displacement es"

lemma displacement_append:
  "displacement (es @ fs) = (fst (displacement es) + fst (displacement fs), snd (displacement es) + snd (displacement fs))"
  by (induction es rule: displacement.induct) simp_all

lemma displacement_buttons:
  "displacement (map (\<lambda>i. if P i then MOUSE_DOWN_EVENT (f i) else MOUSE_UP_EVENT (f i)) js) = (0, 0)"
  by (induction js) simp_all

lemma mouse_callback_run:
  "displacement (fst (usb_hid_mouse_transfer_callback True True data d)) =
    (if mouse_x (latest_report d) = data ! 1 \<and> mouse_y (latest_report d) = data ! 2 then (0, 0) else (sint (data ! 1), sint (data ! 2)))"
  "mouse_x (latest_report (snd (usb_hid_mouse_transfer_callback True True data d))) = data ! 1"
  "mouse_y (latest_report (snd (usb_hid_mouse_transfer_callback True True data d))) = data ! 2"
  by (simp_all add: usb_hid_mouse_transfer_callback_def Let_def mouse_events_def displacement_append
    displacement_buttons)

lemma mouse_run_same:
  assumes "mouse_x (latest_report d) = data ! 1" "mouse_y (latest_report d) = data ! 2"
  shows "displacement (fst (mouse_run (replicate n data) d)) = (0, 0)"
  using assms
proof (induction n arbitrary: d)
  case (Suc n)
  have "displacement (fst (mouse_run (replicate n data) (snd (usb_hid_mouse_transfer_callback True True data d)))) = (0, 0)"
    by (rule Suc.IH) (rule mouse_callback_run)+
  then show ?case using mouse_callback_run(1) [of data d] Suc.prems
    by (simp add: split_beta displacement_append)
qed simp

text \<open>C21: A mouse that moves at constant speed is lost sight of. The reports of a mouse carry the
  distance it moved since the last report, but the driver emits an event only when the distance
  differs from that of the last report: of \<open>n + 1\<close> equal reports, only the first is passed on, so the
  events add up to one step, where the mouse made \<open>n + 1\<close>.\<close>

theorem mouse_motion_lost:
  assumes "mouse_x (latest_report d) \<noteq> data ! 1 \<or> mouse_y (latest_report d) \<noteq> data ! 2"
  shows "displacement (fst (mouse_run (replicate (Suc n) data) d)) = (sint (data ! 1), sint (data ! 2))"
  using mouse_callback_run(1) [of data d] assms
    mouse_run_same [of "snd (usb_hid_mouse_transfer_callback True True data d)" data n, OF mouse_callback_run(2,3)]
  by (auto simp: split_beta displacement_append)

definition sample_mouse :: "mouse_report hid_driver" where
  "sample_mouse = \<lparr>latest_report = \<lparr>buttons = 0, mouse_x = 0, mouse_y = 0, wheel = 0, mouse_cycle_bit = 0\<rparr>,
     latest_report_valid = 0, request_in_flight = 1, request_cycle_bit = 0\<rparr>"

theorem mouse_motion_lost_witness:
  "displacement (fst (mouse_run (replicate 100 [0, 5, 0, 0]) sample_mouse)) = (5, 0)"
proof -
  have "mouse_x (latest_report sample_mouse) \<noteq> [0, 5, 0, 0] ! 1 \<or> mouse_y (latest_report sample_mouse) \<noteq> [0, 5, 0, 0] ! 2"
    by (simp add: sample_mouse_def)
  from mouse_motion_lost [OF this, of 99] show ?thesis by simp
qed

end
