(* ===== verification/Process.thy ===== *)
theory Process
  imports Input Mmap
begin

text \<open>
  \<open>kernel/process/process.c\<close>, \<open>process_mmap.c\<close> and \<open>shared_memory.c\<close>: the memory of processes. A
  process has a page table, a list of the pages of its stack and of its program, and a list of the
  regions that it mapped itself; a shared memory object is a vector of the addresses of its pages.

  What these functions use of the page allocator, the page tables and the direct map is a record of
  operations on the backend. The bytes of a page become accessible through the direct map when the
  page is used for the first time. \<open>Process_Kernel\<close> instantiates the operations with the kernel's.
\<close>

section \<open>Pages\<close>

text \<open>
  \<open>page_alloc_block(PAGE_ALLOC_ORDER_4KB)\<close>, \<open>page_alloc_free\<close>, \<open>vmap_map_page\<close> and
  \<open>vmap_virtual_to_physical\<close> with the root of the tables, and \<open>mmap_physical_to_virtual\<close>.
\<close>

record 'h page_ops =
  page_get :: "('h, u64 option) prog"
  page_put :: "u64 \<Rightarrow> ('h, int) prog"
  page_map :: "u64 \<Rightarrow> u64 \<Rightarrow> u64 \<Rightarrow> u64 \<Rightarrow> ('h, int \<times> u64) prog"
  page_find :: "u64 \<Rightarrow> u64 \<Rightarrow> ('h, u64 option) prog"
  page_direct :: "u64 \<Rightarrow> ('h, u64 option) prog"

definition PAGE_FLAG_PXN :: u64 where "PAGE_FLAG_PXN = push_bit 53 1"
definition PAGE_FLAG_UXN :: u64 where "PAGE_FLAG_UXN = push_bit 54 1"
definition PAGE_FLAG_EL0_EL1_RO :: u64 where "PAGE_FLAG_EL0_EL1_RO = push_bit 6 3"
definition PAGE_FLAG_EL0_EL1_RW :: u64 where "PAGE_FLAG_EL0_EL1_RW = push_bit 6 1"

definition MAP_READ :: u64 where "MAP_READ = 1"
definition MAP_WRITE :: u64 where "MAP_WRITE = 2"
definition MAP_PRIVATE :: u64 where "MAP_PRIVATE = 4"
definition MAP_ANONYMOUS :: u64 where "MAP_ANONYMOUS = 8"
definition MAP_SHARED :: u64 where "MAP_SHARED = 16"

text \<open>The number of pages for \<open>count\<close> bytes.\<close>

definition pages_for :: "u64 \<Rightarrow> u64" where
  "pages_for count = (let num_pages = count div PAGE_SIZE in
     if count mod PAGE_SIZE \<noteq> 0 then num_pages + 1 else num_pages)"

section \<open>State\<close>

datatype process_memory_page_type = PROCESS_MEMORY_PAGE_TYPE_USER_STACK | PROCESS_MEMORY_PAGE_TYPE_PROGRAM

record process_memory_page =
  pm_virtual_address :: u64
  pm_physical_address :: u64
  pm_type :: process_memory_page_type

record mmap_entry =
  me_virtual_address :: u64
  me_num_pages :: u64

record shared_memory =
  shm_pages :: vector
  shm_size :: u64
  shm_pages_owned :: bool

record 'h process_mem = "'h input_mem" +
  process_pages :: "u64 \<rightharpoonup> process_memory_page"
  process_mmaps :: "u64 \<rightharpoonup> mmap_entry"
  shared_memories :: "u64 \<rightharpoonup> shared_memory"

definition MEMORY_PAGE_SIZE :: u64 where "MEMORY_PAGE_SIZE = 24"
definition MMAP_ENTRY_SIZE :: u64 where "MMAP_ENTRY_SIZE = 16"
definition SHARED_MEMORY_SIZE :: u64 where "SHARED_MEMORY_SIZE = 48"
definition THREAD_SIZE :: u64 where "THREAD_SIZE = 328"

abbreviation zero_vector :: vector where
  "zero_vector \<equiv> \<lparr>vector_data = 0, vector_size = 0, vector_capacity = 0, vector_element_size = 0\<rparr>"

abbreviation zero_fd_table :: fd_table where
  "zero_fd_table \<equiv> \<lparr>fd_handles = \<lparr>handles = zero_vector\<rparr>\<rparr>"

definition zero_process :: process where
  "zero_process = \<lparr>process_handle = 0, main_thread = NULL, process_threads = empty_list, page_table = 0,
     memory_pages = empty_list, mmap_entries = empty_list, process_fd_table = zero_fd_table\<rparr>"

section \<open>The pages of a process\<close>

text \<open>\<open>vmap_map_page\<close> on the tables inside of a process.\<close>

definition process_map_page ::
  "'h page_ops \<Rightarrow> u64 \<Rightarrow> u64 \<Rightarrow> u64 \<Rightarrow> u64 \<Rightarrow> (('h, 'z) process_mem_scheme, int) prog" where
  "process_map_page ops process physical_address virtual_address page_flags =
     bnd (deref processes process) (\<lambda>p.
     bnd (within kalloc kalloc_update (page_map ops (page_table p) physical_address virtual_address page_flags)) (\<lambda>(r, root).
     thn (assign processes processes_update process (\<lambda>p. p\<lparr>page_table := root\<rparr>)) (ret r)))"

text \<open>The page that is mapped at the address, or a new one; \<open>None\<close> when the function returns -1.\<close>

definition obtain_page ::
  "'h free_fn \<Rightarrow> 'h page_ops \<Rightarrow> u64 \<Rightarrow> u64 \<Rightarrow> u64 \<Rightarrow> u64 \<Rightarrow> (('h, 'z) process_mem_scheme, u64 option) prog" where
  "obtain_page mfree ops process page virtual_address page_flags =
     bnd (deref processes process) (\<lambda>p.
     bnd (within kalloc kalloc_update (page_find ops (page_table p) virtual_address)) (\<lambda>existing.
     case existing of
       Some pa \<Rightarrow> thn (assign process_pages process_pages_update page (\<lambda>g. g\<lparr>pm_physical_address := pa\<rparr>)) (ret (Some pa))
     | None \<Rightarrow>
         bnd (within kalloc kalloc_update (page_get ops)) (\<lambda>got. case got of
           None \<Rightarrow> thn (free_object mfree process_pages_update page) (ret None)
         | Some pa \<Rightarrow>
             thn (assign process_pages process_pages_update page (\<lambda>g. g\<lparr>pm_physical_address := pa\<rparr>))
            (bnd (process_map_page ops process pa virtual_address page_flags) (\<lambda>r.
             if r < 0
             then thn (within kalloc kalloc_update (page_put ops pa))
                 (thn (free_object mfree process_pages_update page) (ret None))
             else ret (Some pa))))))"

text \<open>
  The bytes of the page: what is left of the buffer is copied to the start of the page; without a
  buffer the page keeps what it held. The result is the buffer and the bytes that remain.
\<close>

definition fill_page :: "u64 \<Rightarrow> u64 \<Rightarrow> u64 \<Rightarrow> (('h, 'z) kmem_scheme, u64 \<times> u64) prog" where
  "fill_page virtual_address buffer bytes_remaining =
     (if buffer \<noteq> NULL \<and> bytes_remaining > 0
      then if bytes_remaining < PAGE_SIZE
        then thn (memory_copy virtual_address buffer bytes_remaining) (ret (NULL, 0))
        else thn (memory_copy virtual_address buffer PAGE_SIZE)
                 (ret (buffer + PAGE_SIZE, bytes_remaining - PAGE_SIZE))
      else ret (buffer, bytes_remaining))"

definition page_accessible :: "u64 \<Rightarrow> (('h, 'z) kmem_scheme, unit) prog" where
  "page_accessible va = upd (\<lambda>s. s\<lparr>accessible := (\<lambda>a. accessible s a \<or> a - va < PAGE_SIZE)\<rparr>)"

fun allocate_page_loop ::
  "nat \<Rightarrow> 'h malloc_fn \<Rightarrow> 'h free_fn \<Rightarrow> 'h page_ops \<Rightarrow> u64 \<Rightarrow> process_memory_page_type \<Rightarrow> u64 \<Rightarrow> u64
     \<Rightarrow> u64 \<Rightarrow> u64 \<Rightarrow> (('h, 'z) process_mem_scheme, int) prog" where
  "allocate_page_loop 0 malloc mfree ops process type virtual_address page_flags buffer bytes_remaining = ret 0"
| "allocate_page_loop (Suc n) malloc mfree ops process type virtual_address page_flags buffer bytes_remaining =
     bnd (new_object malloc MEMORY_PAGE_SIZE process_pages_update
            \<lparr>pm_virtual_address = virtual_address, pm_physical_address = 0, pm_type = type\<rparr>) (\<lambda>page.
     if page = NULL then ret (-1)
     else bnd (obtain_page mfree ops process page virtual_address page_flags) (\<lambda>got. case got of
       None \<Rightarrow> ret (-1)
     | Some pa \<Rightarrow>
         bnd (deref processes process) (\<lambda>p.
         bnd (linked_list_insert malloc mfree (memory_pages p) page) (\<lambda>(r, l, node).
         thn (assign processes processes_update process (\<lambda>p. p\<lparr>memory_pages := l\<rparr>))
        (bnd (within kalloc kalloc_update (page_direct ops pa)) (\<lambda>direct. case direct of
           None \<Rightarrow> ret (-1)
         | Some va \<Rightarrow>
             thn (page_accessible va)
            (bnd (fill_page va buffer bytes_remaining) (\<lambda>(buffer, bytes_remaining).
             allocate_page_loop n malloc mfree ops process type (virtual_address + PAGE_SIZE) page_flags
               buffer bytes_remaining))))))))"

definition allocate_memory_pages ::
  "'h malloc_fn \<Rightarrow> 'h free_fn \<Rightarrow> 'h page_ops \<Rightarrow> u64 \<Rightarrow> process_memory_page_type \<Rightarrow> u64 \<Rightarrow> u64 \<Rightarrow> u64
     \<Rightarrow> u64 \<Rightarrow> u64 \<Rightarrow> (('h, 'z) process_mem_scheme, int) prog" where
  "allocate_memory_pages malloc mfree ops process type base count page_flags buffer buffer_size =
     allocate_page_loop (unat (pages_for count)) malloc mfree ops process type base page_flags buffer buffer_size"

section \<open>Processes\<close>

definition USER_STACK_TOP :: u64 where "USER_STACK_TOP = 0x7ffffff000"
definition USER_STACK_SIZE :: u64 where "USER_STACK_SIZE = push_bit 16 1"
definition USER_STACK_BASE :: u64 where "USER_STACK_BASE = USER_STACK_TOP - USER_STACK_SIZE"
definition USER_STACK_PAGE_FLAGS :: u64 where
  "USER_STACK_PAGE_FLAGS = PAGE_FLAG_NX OR PAGE_FLAG_EL0_EL1_RW OR PAGE_FLAG_NORMAL_MEMORY OR PAGE_FLAG_INNER_SHARABLE"

definition process_init ::
  "'h malloc_fn \<Rightarrow> 'h free_fn \<Rightarrow> 'h page_ops \<Rightarrow> u64 \<Rightarrow> (('h, 'z) process_mem_scheme, int) prog" where
  "process_init malloc mfree ops process =
     thn (assign processes processes_update process (\<lambda>_. zero_process))
    (thn (assign processes processes_update process (\<lambda>p. p\<lparr>process_threads := snd (linked_list_init (process_threads p)),
            memory_pages := snd (linked_list_init (memory_pages p)), page_table := 0,
            mmap_entries := snd (linked_list_init (mmap_entries p))\<rparr>))
    (bnd (fd_table_init malloc zero_fd_table) (\<lambda>(r, t).
     thn (assign processes processes_update process (\<lambda>p. p\<lparr>process_fd_table := t\<rparr>))
    (if r < 0 then ret (-1)
     else bnd (allocate_memory_pages malloc mfree ops process PROCESS_MEMORY_PAGE_TYPE_USER_STACK USER_STACK_BASE
                 USER_STACK_SIZE USER_STACK_PAGE_FLAGS NULL 0) (\<lambda>r.
       if r < 0 then ret (-1)
       else bnd (file_table_open malloc mfree NULL \<lparr>file_handle = 0, file_path = NULL, ref_count = 1,
                   private_data = process, file_operations = \<lparr>op_open = Null_Function, op_read = Null_Function,
                     op_write = Null_Function, op_close = Null_Function\<rparr>, file_flags = 0\<rparr>) (\<lambda>(r, handle).
         thn (case handle of None \<Rightarrow> ret ()
              | Some h \<Rightarrow> assign processes processes_update process (\<lambda>p. p\<lparr>process_handle := h\<rparr>))
        (thn (kassert (r = 0)) (ret 0))))))))"

text \<open>The fields of the headers that the loader reads, by their offsets.\<close>

definition read_field :: "nat \<Rightarrow> u64 \<Rightarrow> (('h, 'z) kmem_scheme, u64) prog" where
  "read_field n p = bnd (read_bytes n p) (\<lambda>bs. ret (of_le_bytes bs))"

record program_header =
  p_type :: u32
  p_flags :: u32
  p_offset :: u64
  p_vaddr :: u64
  p_filesz :: u64
  p_memsz :: u64
  p_align :: u64

definition read_program_header :: "u64 \<Rightarrow> (('h, 'z) kmem_scheme, program_header) prog" where
  "read_program_header a =
     bnd (read_field 4 a) (\<lambda>t. bnd (read_field 4 (a + 4)) (\<lambda>fl. bnd (read_field 8 (a + 8)) (\<lambda>offset.
     bnd (read_field 8 (a + 16)) (\<lambda>va. bnd (read_field 8 (a + 32)) (\<lambda>fs. bnd (read_field 8 (a + 40)) (\<lambda>ms.
     bnd (read_field 8 (a + 48)) (\<lambda>al.
     ret \<lparr>p_type = ucast t, p_flags = ucast fl, p_offset = offset, p_vaddr = va, p_filesz = fs, p_memsz = ms,
          p_align = al\<rparr>)))))))"

definition PT_LOAD :: u32 where "PT_LOAD = 1"
definition PF_X :: u32 where "PF_X = 1"
definition PF_W :: u32 where "PF_W = 2"

text \<open>The page flags of a segment; the variable is a \<open>uint32_t\<close>.\<close>

definition segment_page_flags :: "u32 \<Rightarrow> u32" where
  "segment_page_flags flags =
     (let page_flags = ucast (PAGE_FLAG_INNER_SHARABLE OR PAGE_FLAG_NORMAL_MEMORY) :: u32;
          page_flags = (if flags AND PF_X = 0
            then ucast (ucast page_flags OR (PAGE_FLAG_PXN OR PAGE_FLAG_UXN)) else page_flags)
      in if flags AND PF_W = 0 then ucast (ucast page_flags OR PAGE_FLAG_EL0_EL1_RO)
         else ucast (ucast page_flags OR PAGE_FLAG_EL0_EL1_RW))"

definition load_program_segment ::
  "'h malloc_fn \<Rightarrow> 'h free_fn \<Rightarrow> 'h page_ops \<Rightarrow> u64 \<Rightarrow> u64 \<Rightarrow> program_header
     \<Rightarrow> (('h, 'z) process_mem_scheme, int) prog" where
  "load_program_segment malloc mfree ops process elf_buffer program =
     (if p_filesz program > p_memsz program then ret (-1)
      else if p_align program = 0 then ret (-1)
      else bnd (allocate_memory_pages malloc mfree ops process PROCESS_MEMORY_PAGE_TYPE_PROGRAM (p_vaddr program)
             (p_memsz program) (ucast (segment_page_flags (p_flags program)))
             (elf_buffer + p_offset program) (p_filesz program)) (\<lambda>r.
        if r < 0 then ret (-1) else ret 0))"

text \<open>The loop over the program headers; \<open>i * e_phentsize\<close> is a product of \<open>int\<close>s.\<close>

fun load_segments ::
  "nat \<Rightarrow> i32 \<Rightarrow> 'h malloc_fn \<Rightarrow> 'h free_fn \<Rightarrow> 'h page_ops \<Rightarrow> u64 \<Rightarrow> u64 \<Rightarrow> u64 \<Rightarrow> u64
     \<Rightarrow> (('h, 'z) process_mem_scheme, int) prog" where
  "load_segments 0 i malloc mfree ops process elf_buffer phoff phentsize = ret 0"
| "load_segments (Suc n) i malloc mfree ops process elf_buffer phoff phentsize =
     bnd (read_program_header (elf_buffer + phoff + scast (i * ucast phentsize))) (\<lambda>program.
     bnd (if p_type program = PT_LOAD then load_program_segment malloc mfree ops process elf_buffer program
          else ret 0) (\<lambda>r.
     if r < 0 then ret (-1)
     else load_segments n (i + 1) malloc mfree ops process elf_buffer phoff phentsize))"

text \<open>An object whose fields nobody has assigned yet; \<open>thread_init\<close> assigns them all.\<close>

definition fresh_thread :: thread where
  "fresh_thread = \<lparr>thread_process = NULL, kernel_stack_top = 0, stack_top = 0, thread_state = THREAD_STATE_READY,
     thread_type = THREAD_TYPE_KERNEL, ctx = zero_context, run_queue_node = NULL\<rparr>"

definition process_load_elf ::
  "'h malloc_fn \<Rightarrow> 'h free_fn \<Rightarrow> 'h page_ops \<Rightarrow> u64 \<Rightarrow> u64 \<Rightarrow> (('h, 'z) process_mem_scheme, int) prog" where
  "process_load_elf malloc mfree ops process elf_buffer =
     bnd (read_field 8 (elf_buffer + 24)) (\<lambda>entry_point.
     bnd (read_field 8 (elf_buffer + 32)) (\<lambda>phoff.
     bnd (read_field 2 (elf_buffer + 54)) (\<lambda>phentsize.
     bnd (read_field 2 (elf_buffer + 56)) (\<lambda>phnum.
     bnd (load_segments (unat phnum) 0 malloc mfree ops process elf_buffer phoff phentsize) (\<lambda>r.
     if r < 0 then ret (-1)
     else bnd (new_object malloc THREAD_SIZE threads_update fresh_thread) (\<lambda>thread.
       if thread = NULL then ret (-1)
       else bnd (thread_init malloc thread entry_point USER_STACK_TOP THREAD_TYPE_USER) (\<lambda>r.
         if r < 0 then ret (-1)
         else thn (assign threads threads_update thread (\<lambda>t. t\<lparr>thread_process := process\<rparr>))
             (bnd (deref processes process) (\<lambda>p.
              bnd (linked_list_insert malloc mfree (process_threads p) thread) (\<lambda>(r, l, node).
              thn (assign processes processes_update process (\<lambda>p. p\<lparr>process_threads := l, main_thread := thread\<rparr>))
                  (ret 0)))))))))))"

definition process_start ::
  "'h malloc_fn \<Rightarrow> 'h free_fn \<Rightarrow> u64 \<Rightarrow> (('h, 'z) process_mem_scheme, int) prog" where
  "process_start malloc mfree process =
     bnd (deref processes process) (\<lambda>p.
     thn (kassert (main_thread p \<noteq> NULL)) (thread_start malloc mfree (main_thread p)))"

section \<open>The simplest state\<close>

text \<open>A machine that runs one thread, at address 1, of a process, at address 2, and has nothing else.\<close>

definition small_system :: "'h \<Rightarrow> 'h process_mem" where
  "small_system h = \<lparr>kalloc = h, ram = (\<lambda>_. 0), accessible = (\<lambda>_. False), raw = Map.empty, list_nodes = Map.empty,
     hash_nodes = Map.empty, threads = [1 \<mapsto> fresh_thread\<lparr>thread_process := 2, thread_state := THREAD_STATE_RUNNING\<rparr>],
     processes = [2 \<mapsto> zero_process], current_thread = 1, run_queue = empty_list, idle_thread = NULL,
     files = Map.empty, file_table = \<lparr>handles = zero_vector\<rparr>,
     file_path_table = \<lparr>buckets = 0, bucket_count = 0, node_count = 0\<rparr>, channels = Map.empty,
     channel_files = Map.empty, channel_messages = Map.empty, channel_fd_messages = Map.empty,
     input_devices = Map.empty, input_files = Map.empty, g_mouse_device = NULL, g_keyboard_device = NULL,
     process_pages = Map.empty, process_mmaps = Map.empty, shared_memories = Map.empty\<rparr>"

section \<open>The properties\<close>

text \<open>C22: No page of a program is protected against execution. The flags of a segment are computed in a
  \<open>uint32_t\<close>, which has no room for the bits 53 and 54 of \<open>PAGE_FLAG_PXN\<close> and \<open>PAGE_FLAG_UXN\<close>: whether
  the segment is executable has no effect on the flags that its pages are mapped with, and neither bit
  is ever set. Only the access to the pages follows the flags of the segment.\<close>

theorem segment_never_protected:
  "segment_page_flags (flags AND NOT PF_X) = segment_page_flags (flags OR PF_X) \<and>
   ucast (segment_page_flags flags) AND (PAGE_FLAG_PXN OR PAGE_FLAG_UXN) = (0 :: u64) \<and>
   (ucast (segment_page_flags flags) AND push_bit 6 3 = (if flags AND PF_W = 0 then PAGE_FLAG_EL0_EL1_RO else PAGE_FLAG_EL0_EL1_RW))"
proof -
  have w: "(flags AND NOT PF_X) AND PF_W = flags AND PF_W" "(flags OR PF_X) AND PF_W = flags AND PF_W"
    by (simp_all add: PF_X_def PF_W_def and.assoc bit.conj_disj_distrib2)
  show ?thesis
    by (simp add: segment_page_flags_def Let_def w PAGE_FLAG_PXN_def PAGE_FLAG_UXN_def PAGE_FLAG_EL0_EL1_RO_def
        PAGE_FLAG_EL0_EL1_RW_def PAGE_FLAG_INNER_SHARABLE_def PAGE_FLAG_NORMAL_MEMORY_def PAGE_FLAG_MAIR_ATTR_def)
qed

end
