(* ===== verification/Process_Mmap.thy ===== *)
theory Process_Mmap
  imports Process
begin

text \<open>
  \<open>kernel/process/process_mmap.c\<close> and \<open>shared_memory.c\<close>: the regions that a process maps, private
  pages or the pages of a shared memory object. The first half are the operations, the second shows
  where the regions lie.
\<close>

section \<open>Mapping memory\<close>

definition HEAP_VIRTUAL_BASE :: u64 where "HEAP_VIRTUAL_BASE = 0x400000000000"
definition HEAP_SIZE :: u64 where "HEAP_SIZE = push_bit 34 1"

partial_function (option) highest_end ::
  "u64 \<Rightarrow> u64 \<Rightarrow> ('h, 'z) process_mem_scheme \<Rightarrow> (fault + u64 \<times> ('h, 'z) process_mem_scheme) option" where
  "highest_end node free_address_space s =
     (if node = NULL then Some (Inr (free_address_space, s))
      else case list_nodes s node of None \<Rightarrow> Some (Inl Bad_Access)
      | Some n \<Rightarrow> (case process_mmaps s (ll_data n) of None \<Rightarrow> Some (Inl Bad_Access)
         | Some entry \<Rightarrow>
             let end_address = me_virtual_address entry + me_num_pages entry * PAGE_SIZE in
             highest_end (ll_next n) (if end_address \<ge> free_address_space then end_address else free_address_space) s))"

definition find_free_address_space :: "u64 \<Rightarrow> (('h, 'z) process_mem_scheme, u64) prog" where
  "find_free_address_space process =
     bnd (deref processes process) (\<lambda>p.
     bnd (\<lambda>s. loop (highest_end (list_head (mmap_entries p)) HEAP_VIRTUAL_BASE s)) (\<lambda>free_address_space.
     thn (kassert (\<not> (free_address_space = HEAP_VIRTUAL_BASE \<and> list_head (mmap_entries p) \<noteq> NULL)))
    (thn (kassert (free_address_space mod PAGE_SIZE = 0)) (ret free_address_space))))"

definition mmap_page_flags :: "u64 \<Rightarrow> u64" where
  "mmap_page_flags flags =
     (let page_flags = PAGE_FLAG_NORMAL_MEMORY OR PAGE_FLAG_INNER_SHARABLE in
      if flags AND MAP_READ \<noteq> 0 \<and> flags AND MAP_WRITE \<noteq> 0 then page_flags OR PAGE_FLAG_EL0_EL1_RW
      else if flags AND MAP_READ \<noteq> 0 then page_flags OR PAGE_FLAG_EL0_EL1_RO
      else if flags AND MAP_WRITE \<noteq> 0 then page_flags OR PAGE_FLAG_EL0_EL1_RW
      else page_flags)"

text \<open>The loops that map the pages of the region.\<close>

fun map_shared_pages ::
  "nat \<Rightarrow> u64 \<Rightarrow> 'h page_ops \<Rightarrow> u64 \<Rightarrow> vector \<Rightarrow> u64 \<Rightarrow> u64 \<Rightarrow> (('h, 'z) process_mem_scheme, unit) prog" where
  "map_shared_pages 0 i ops process pages address page_flags = ret ()"
| "map_shared_pages (Suc n) i ops process pages address page_flags =
     (case vector_get pages i of (r, item) \<Rightarrow>
       thn (kassert (r = 0))
      (bnd (read_u64 (pointer item)) (\<lambda>page_address.
       bnd (process_map_page ops process page_address (address + i * PAGE_SIZE) page_flags) (\<lambda>r.
       thn (kassert (r = 0)) (map_shared_pages n (i + 1) ops process pages address page_flags)))))"

fun map_private_pages ::
  "nat \<Rightarrow> u64 \<Rightarrow> 'h page_ops \<Rightarrow> u64 \<Rightarrow> u64 \<Rightarrow> u64 \<Rightarrow> (('h, 'z) process_mem_scheme, unit) prog" where
  "map_private_pages 0 i ops process address page_flags = ret ()"
| "map_private_pages (Suc n) i ops process address page_flags =
     bnd (within kalloc kalloc_update (page_get ops)) (\<lambda>got.
     thn (kassert (got \<noteq> None))
    (bnd (process_map_page ops process (pointer got) (address + i * PAGE_SIZE) page_flags) (\<lambda>r.
     thn (kassert (r = 0)) (map_private_pages n (i + 1) ops process address page_flags))))"

text \<open>The file of a shared memory object, and the object.\<close>

definition shared_memory_of_fd :: "u64 \<Rightarrow> i64 \<Rightarrow> (('h, 'z) process_mem_scheme, shared_memory) prog" where
  "shared_memory_of_fd process fd =
     thn (kassert (\<not> fd <s 0))
    (bnd (process_fd_get process fd) (\<lambda>(r, item).
     thn (kassert (r = 0))
    (thn (kassert (pointer item \<noteq> NULL))
    (bnd (deref files (pointer item)) (\<lambda>file.
     thn (kassert (op_read (file_operations file) = Shared_Memory_Read))
    (thn (kassert (op_write (file_operations file) = Shared_Memory_Write))
    (thn (kassert (op_close (file_operations file) = Shared_Memory_Close))
    (thn (kassert (private_data file \<noteq> NULL))
         (deref shared_memories (private_data file))))))))))"

definition process_mmap ::
  "'h malloc_fn \<Rightarrow> 'h free_fn \<Rightarrow> 'h page_ops \<Rightarrow> u64 \<Rightarrow> u64 \<Rightarrow> u64 \<Rightarrow> u64 \<Rightarrow> i64
     \<Rightarrow> (('h, 'z) process_mem_scheme, u64) prog" where
  "process_mmap malloc mfree ops process address count flags fd =
     thn (kassert (address mod PAGE_SIZE = 0))
    (bnd (if address = 0 then find_free_address_space process else ret address) (\<lambda>address.
     thn (kassert (address \<ge> HEAP_VIRTUAL_BASE))
    (thn (kassert (address + count \<le> HEAP_VIRTUAL_BASE + HEAP_SIZE))
    (let num_pages = pages_for count; page_flags = mmap_page_flags flags in
     thn (if flags AND MAP_SHARED \<noteq> 0
          then bnd (shared_memory_of_fd process fd) (\<lambda>shm.
            map_shared_pages (unat num_pages) 0 ops process (shm_pages shm) address page_flags)
          else map_private_pages (unat num_pages) 0 ops process address page_flags)
    (bnd (new_object malloc MMAP_ENTRY_SIZE process_mmaps_update
            \<lparr>me_virtual_address = address, me_num_pages = num_pages\<rparr>) (\<lambda>entry.
     thn (kassert (entry \<noteq> NULL))
    (bnd (deref processes process) (\<lambda>p.
     bnd (linked_list_insert malloc mfree (mmap_entries p) entry) (\<lambda>(r, l, node).
     thn (assign processes processes_update process (\<lambda>p. p\<lparr>mmap_entries := l\<rparr>))
    (thn (kassert (r = 0)) (ret address)))))))))))"

definition process_munmap :: "u64 \<Rightarrow> u64 \<Rightarrow> u64 \<Rightarrow> (('h, 'z) process_mem_scheme, unit) prog" where
  "process_munmap process address count = kassert False"

section \<open>Shared memory\<close>

definition shared_memory_operations :: file_ops where
  "shared_memory_operations = \<lparr>op_open = Uninitialised, op_read = Shared_Memory_Read,
     op_write = Shared_Memory_Write, op_close = Shared_Memory_Close\<rparr>"

text \<open>The loops that enter the pages.\<close>

fun push_new_pages ::
  "nat \<Rightarrow> 'h malloc_fn \<Rightarrow> 'h free_fn \<Rightarrow> 'h page_ops \<Rightarrow> u64 \<Rightarrow> (('h, 'z) process_mem_scheme, unit) prog" where
  "push_new_pages 0 malloc mfree ops shm = ret ()"
| "push_new_pages (Suc n) malloc mfree ops shm =
     bnd (within kalloc kalloc_update (page_get ops)) (\<lambda>got.
     thn (kassert (got \<noteq> None))
    (bnd (deref shared_memories shm) (\<lambda>m.
     bnd (vector_push_back malloc mfree (shm_pages m) (Some (le_bytes 8 (pointer got)))) (\<lambda>(r, v).
     thn (assign shared_memories shared_memories_update shm (\<lambda>m. m\<lparr>shm_pages := v\<rparr>))
    (thn (kassert (r = 0)) (push_new_pages n malloc mfree ops shm))))))"

fun push_contiguous_pages ::
  "nat \<Rightarrow> 'h malloc_fn \<Rightarrow> 'h free_fn \<Rightarrow> u64 \<Rightarrow> u64 \<Rightarrow> (('h, 'z) process_mem_scheme, unit) prog" where
  "push_contiguous_pages 0 malloc mfree page_address shm = ret ()"
| "push_contiguous_pages (Suc n) malloc mfree page_address shm =
     bnd (deref shared_memories shm) (\<lambda>m.
     bnd (vector_push_back malloc mfree (shm_pages m) (Some (le_bytes 8 page_address))) (\<lambda>(r, v).
     thn (assign shared_memories shared_memories_update shm (\<lambda>m. m\<lparr>shm_pages := v\<rparr>))
    (thn (kassert (r = 0)) (push_contiguous_pages n malloc mfree (page_address + PAGE_SIZE) shm))))"

text \<open>A new object with an empty vector of pages; \<open>None\<close> when the function returns -1.\<close>

definition shared_memory_new ::
  "'h malloc_fn \<Rightarrow> 'h free_fn \<Rightarrow> (('h, 'z) process_mem_scheme, u64 option) prog" where
  "shared_memory_new malloc mfree =
     bnd (new_object malloc SHARED_MEMORY_SIZE shared_memories_update
            \<lparr>shm_pages = zero_vector, shm_size = 0, shm_pages_owned = False\<rparr>) (\<lambda>shm.
     if shm = NULL then ret None
     else bnd (vector_init malloc zero_vector 16 8) (\<lambda>(r, v).
       thn (assign shared_memories shared_memories_update shm (\<lambda>m. m\<lparr>shm_pages := v\<rparr>))
      (if r < 0 then thn (free_object mfree shared_memories_update shm) (ret None) else ret (Some shm))))"

text \<open>The size, the owner of the pages, and the entry in the table of files.\<close>

definition shared_memory_publish ::
  "'h malloc_fn \<Rightarrow> 'h free_fn \<Rightarrow> u64 \<Rightarrow> u64 \<Rightarrow> bool \<Rightarrow> u64 \<Rightarrow> (('h, 'z) process_mem_scheme, int \<times> u64 \<times> i64 option) prog" where
  "shared_memory_publish malloc mfree path count owned shm =
     thn (assign shared_memories shared_memories_update shm (\<lambda>m. m\<lparr>shm_size := count, shm_pages_owned := owned\<rparr>))
    (bnd (file_table_open malloc mfree path \<lparr>file_handle = 0, file_path = path, ref_count = 1, private_data = shm,
            file_operations = shared_memory_operations, file_flags = 0\<rparr>) (\<lambda>(r, handle).
     thn (kassert (r = 0)) (ret (0, shm, handle))))"

definition shared_memory_create ::
  "'h malloc_fn \<Rightarrow> 'h free_fn \<Rightarrow> 'h page_ops \<Rightarrow> u64 \<Rightarrow> u64 \<Rightarrow> (('h, 'z) process_mem_scheme, int \<times> u64 \<times> i64 option) prog" where
  "shared_memory_create malloc mfree ops path count =
     (if path = NULL then ret (-1, NULL, None)
      else attempt (shared_memory_new malloc mfree) (-1, NULL, None) (\<lambda>shm.
        thn (push_new_pages (unat (pages_for count)) malloc mfree ops shm)
            (shared_memory_publish malloc mfree path count True shm)))"

definition shared_memory_create_from_contiguous_pages ::
  "'h malloc_fn \<Rightarrow> 'h free_fn \<Rightarrow> u64 \<Rightarrow> u64 \<Rightarrow> u64 \<Rightarrow> (('h, 'z) process_mem_scheme, int \<times> u64 \<times> i64 option) prog" where
  "shared_memory_create_from_contiguous_pages malloc mfree path physical_start_address count =
     (if path = NULL then ret (-1, NULL, None)
      else attempt (shared_memory_new malloc mfree) (-1, NULL, None) (\<lambda>shm.
        thn (push_contiguous_pages (unat (pages_for count)) malloc mfree physical_start_address shm)
            (shared_memory_publish malloc mfree path count False shm)))"

definition shared_memory_open ::
  "'h malloc_fn \<Rightarrow> 'h free_fn \<Rightarrow> 'h page_ops \<Rightarrow> u64 \<Rightarrow> u64 \<Rightarrow> u64 \<Rightarrow> (('h, 'z) process_mem_scheme, int) prog" where
  "shared_memory_open malloc mfree ops path count fd =
     (if path = NULL \<or> fd = NULL then ret (-1)
      else bnd current_process (\<lambda>process.
        bnd (file_table_get_by_path path) (\<lambda>(r, item).
        bnd (if r = 0
             then thn (kassert (pointer item \<noteq> NULL))
                 (bnd (deref files (pointer item)) (\<lambda>f.
                  if op_read (file_operations f) \<noteq> Shared_Memory_Read then ret None
                  else thn (assign files files_update (pointer item) (\<lambda>f. f\<lparr>ref_count := ref_count f + 1\<rparr>))
                           (ret (Some (private_data f, file_handle f, pointer item)))))
             else bnd (shared_memory_create malloc mfree ops path count) (\<lambda>(r, shm, handle).
               thn (kassert (r = 0))
              (bnd (file_table_get (the handle)) (\<lambda>(r, item).
               thn (kassert (r = 0)) (ret (Some (shm, the handle, pointer item))))))) (\<lambda>found.
        case found of None \<Rightarrow> ret (-1)
        | Some (shm, global_handle, file_object) \<Rightarrow>
            thn (kassert (shm \<noteq> NULL))
           (thn (kassert (\<not> global_handle <s 0))
           (thn (kassert (file_object \<noteq> NULL))
           (bnd (process_fd_open malloc mfree process file_object fd) (\<lambda>r.
            thn (kassert (r = 0)) (ret 0)))))))))"

text \<open>The functions that are still to be implemented.\<close>

definition shared_memory_destroy :: "i64 \<Rightarrow> (('h, 'z) process_mem_scheme, int) prog" where
  "shared_memory_destroy global_handle = thn (kassert False) (ret 0)"

definition shared_memory_unlink :: "u64 \<Rightarrow> (('h, 'z) process_mem_scheme, int) prog" where
  "shared_memory_unlink path = thn (kassert False) (ret 0)"

definition shared_memory_close :: "u64 \<Rightarrow> (('h, 'z) process_mem_scheme, int) prog" where
  "shared_memory_close file = thn (kassert False) (ret 0)"

definition shared_memory_read :: "u64 \<Rightarrow> u64 \<Rightarrow> u64 \<Rightarrow> (('h, 'z) process_mem_scheme, int) prog" where
  "shared_memory_read file buffer count = thn (kassert False) (ret 0)"

definition shared_memory_write :: "u64 \<Rightarrow> u64 \<Rightarrow> u64 \<Rightarrow> (('h, 'z) process_mem_scheme, int) prog" where
  "shared_memory_write file buffer count = thn (kassert False) (ret 0)"

section \<open>Where new regions go\<close>

definition entry_at :: "('h, 'z) process_mem_scheme \<Rightarrow> u64 \<Rightarrow> mmap_entry option" where
  "entry_at s p = process_mmaps s (fld ll_data (list_nodes s) p)"

definition entry_end :: "mmap_entry \<Rightarrow> u64" where
  "entry_end e = me_virtual_address e + me_num_pages e * PAGE_SIZE"

text \<open>A region of whole pages in the window for mapped memory.\<close>

definition region_ok :: "mmap_entry \<Rightarrow> bool" where
  "region_ok e \<longleftrightarrow> 4096 dvd unat (me_virtual_address e) \<and> HEAP_VIRTUAL_BASE \<le> me_virtual_address e \<and>
     unat (me_virtual_address e) + unat (me_num_pages e) * 4096 \<le> unat (HEAP_VIRTUAL_BASE + HEAP_SIZE)"

lemma region_end:
  assumes "region_ok e"
  shows "unat (entry_end e) = unat (me_virtual_address e) + unat (me_num_pages e) * 4096"
    "4096 dvd unat (entry_end e)" "HEAP_VIRTUAL_BASE \<le> entry_end e" "entry_end e \<le> HEAP_VIRTUAL_BASE + HEAP_SIZE"
proof -
  have w: "unat (HEAP_VIRTUAL_BASE + HEAP_SIZE) = 0x400400000000" by (simp add: HEAP_VIRTUAL_BASE_def HEAP_SIZE_def)
  have le: "unat (me_virtual_address e) + unat (me_num_pages e) * 4096 \<le> 0x400400000000"
    using assms unfolding region_ok_def w by blast
  have m: "unat (me_num_pages e * PAGE_SIZE) = unat (me_num_pages e) * 4096" using le by (subst unat_mult_no_wrap) simp_all
  show u: "unat (entry_end e) = unat (me_virtual_address e) + unat (me_num_pages e) * 4096"
    unfolding entry_end_def using le m by (subst unat_add_no_wrap) simp_all
  show "4096 dvd unat (entry_end e)" using assms u by (simp add: region_ok_def)
  show "HEAP_VIRTUAL_BASE \<le> entry_end e" using assms u by (simp add: region_ok_def word_le_nat_alt)
  show "entry_end e \<le> HEAP_VIRTUAL_BASE + HEAP_SIZE" using le u w by (simp add: word_le_nat_alt)
qed

lemma highest_end_run:
  assumes "dseg (fld ll_next (list_nodes s)) (fld ll_prev (list_nodes s)) b x ps l 0"
    and "\<forall>p \<in> set ps. list_nodes s p \<noteq> None \<and> entry_at s p \<noteq> None"
  shows "highest_end x f s = Some (Inr (foldl max f (map (\<lambda>p. entry_end (the (entry_at s p))) ps), s))"
  using assms
proof (induction ps arbitrary: b x f)
  case Nil
  then show ?case by (simp add: highest_end.simps)
next
  case (Cons p ps)
  then obtain n e where n: "list_nodes s x = Some n" "x = p" "x \<noteq> 0" and e: "entry_at s p = Some e" by auto
  have d: "process_mmaps s (ll_data n) = Some e" using e n by (simp add: entry_at_def fld_Some)
  have "highest_end (ll_next n) (max f (entry_end e)) s =
      Some (Inr (foldl max (max f (entry_end e)) (map (\<lambda>p. entry_end (the (entry_at s p))) ps), s))"
    using Cons.IH [of p "ll_next n"] Cons.prems n by (auto simp: fld_Some)
  moreover have "highest_end x f s = highest_end (ll_next n) (max f (entry_end e)) s"
    using n d by (subst highest_end.simps) (simp add: Let_def max_def entry_end_def)
  ultimately show ?case using e by simp
qed

lemma foldl_max:
  fixes a :: "'a :: linorder"
  shows "foldl max a xs \<in> insert a (set xs)" "a \<le> foldl max a xs" "x \<in> set xs \<Longrightarrow> x \<le> foldl max a xs"
proof -
  have eq: "foldl max a xs = Max (set (a # xs))"
    unfolding Max.set_eq_fold foldl_conv_fold by (simp add: max.commute)
  show "foldl max a xs \<in> insert a (set xs)" "a \<le> foldl max a xs" "x \<in> set xs \<Longrightarrow> x \<le> foldl max a xs"
    unfolding eq using Max_in [of "set (a # xs)"] by simp_all
qed

lemma max_eq_start: "foldl max (a :: 'a :: linorder) xs = a \<longleftrightarrow> (\<forall>x \<in> set xs. x \<le> a)"
proof
  assume "foldl max a xs = a"
  then show "\<forall>x \<in> set xs. x \<le> a" using foldl_max(3) [of _ xs a] by simp
next
  assume "\<forall>x \<in> set xs. x \<le> a"
  then have "foldl max a xs \<le> a" using foldl_max(1) [of a xs] by auto
  then show "foldl max a xs = a" using foldl_max(2) [of a xs] by (rule antisym)
qed

text \<open>C23: The address that the kernel chooses for a new region of a process. When the mapped regions of
  the process are whole pages inside the window of 16 GB, the address is aligned, lies in the window,
  lies behind every mapped region, and is the base of the window or the end of a region. The one
  exception is a process whose regions are all empty, as after \<open>mmap(0, 0)\<close>: the next search for an
  address stops the machine.\<close>

theorem find_free_address_space_correct:
  assumes p: "processes s process = Some p" and l: "list_at s (mmap_entries p) ps"
    and e: "\<forall>q \<in> set ps. \<exists>e. entry_at s q = Some e \<and> region_ok e"
  defines "es \<equiv> map (\<lambda>q. the (entry_at s q)) ps"
  shows "if es \<noteq> [] \<and> (\<forall>e \<in> set es. me_num_pages e = 0 \<and> me_virtual_address e = HEAP_VIRTUAL_BASE)
    then find_free_address_space process s = Inl Assertion_Failed
    else \<exists>a. find_free_address_space process s = Inr (a, s) \<and> 4096 dvd unat a \<and>
      HEAP_VIRTUAL_BASE \<le> a \<and> a \<le> HEAP_VIRTUAL_BASE + HEAP_SIZE \<and>
      (\<forall>e \<in> set es. unat (me_virtual_address e) + unat (me_num_pages e) * 4096 \<le> unat a) \<and>
      (a = HEAP_VIRTUAL_BASE \<or> (\<exists>e \<in> set es. unat a = unat (me_virtual_address e) + unat (me_num_pages e) * 4096))"
proof -
  define a where "a = foldl max HEAP_VIRTUAL_BASE (map entry_end es)"
  have ok: "region_ok r" if "r \<in> set es" for r using that e by (auto simp: es_def)
  have d: "dseg (fld ll_next (list_nodes s)) (fld ll_prev (list_nodes s)) 0 (list_head (mmap_entries p)) ps (list_tail (mmap_entries p)) 0"
    using list_at_dll [OF l] by (simp add: dll_def)
  have x: "\<forall>q \<in> set ps. list_nodes s q \<noteq> None \<and> entry_at s q \<noteq> None" using l e by (fastforce simp: list_at_def)
  have run: "loop (highest_end (list_head (mmap_entries p)) HEAP_VIRTUAL_BASE s) = Inr (a, s)"
    using highest_end_run [OF d x] by (simp add: a_def es_def comp_def)
  have head: "list_head (mmap_entries p) = NULL \<longleftrightarrow> es = []"
    using d by (cases ps) (auto simp: es_def)
  have mem: "a = HEAP_VIRTUAL_BASE \<or> (\<exists>r \<in> set es. a = entry_end r)"
    using foldl_max(1) [of HEAP_VIRTUAL_BASE "map entry_end es"] by (auto simp: a_def)
  have al: "4096 dvd unat a" using mem ok region_end(2) by (auto simp: HEAP_VIRTUAL_BASE_def)
  have m: "a mod PAGE_SIZE = 0" using al by (simp add: word_unat_eq_iff unat_mod)
  have start: "a = HEAP_VIRTUAL_BASE \<longleftrightarrow> (\<forall>r \<in> set es. me_num_pages r = 0 \<and> me_virtual_address r = HEAP_VIRTUAL_BASE)"
    unfolding a_def max_eq_start
  proof (auto, goal_cases)
    case (1 r)
    then have "unat (me_virtual_address r) + unat (me_num_pages r) * 4096 \<le> unat HEAP_VIRTUAL_BASE"
      "unat HEAP_VIRTUAL_BASE \<le> unat (me_virtual_address r)"
      using ok [of r] region_end(1) [of r] by (auto simp: word_le_nat_alt region_ok_def)
    then have "unat (me_num_pages r) = 0" by linarith
    then show ?case by (simp add: unat_eq_0)
  next
    case (2 r)
    then have "unat (me_virtual_address r) + unat (me_num_pages r) * 4096 \<le> unat HEAP_VIRTUAL_BASE"
      "unat HEAP_VIRTUAL_BASE \<le> unat (me_virtual_address r)"
      using ok [of r] region_end(1) [of r] by (auto simp: word_le_nat_alt region_ok_def)
    then show ?case by (simp add: word_unat_eq_iff)
  qed (simp add: entry_end_def)
  have eq: "find_free_address_space process s =
      (if a = HEAP_VIRTUAL_BASE \<and> es \<noteq> [] then Inl Assertion_Failed else Inr (a, s))"
    using p run m head by (simp add: find_free_address_space_def)
  have "HEAP_VIRTUAL_BASE \<le> a" unfolding a_def by (rule foldl_max)
  moreover have "a \<le> HEAP_VIRTUAL_BASE + HEAP_SIZE"
    using mem ok region_end(4) by (auto simp: HEAP_VIRTUAL_BASE_def HEAP_SIZE_def)
  moreover have "unat (me_virtual_address r) + unat (me_num_pages r) * 4096 \<le> unat a" if "r \<in> set es" for r
    using foldl_max(3) [of "entry_end r" "map entry_end es" HEAP_VIRTUAL_BASE] that region_end(1) [OF ok [OF that]]
    by (simp add: a_def word_le_nat_alt)
  ultimately show ?thesis using eq mem al start region_end(1) [OF ok] by auto
qed

definition sample_regions :: "unit process_mem" where
  "sample_regions = (small_system ())\<lparr>
     processes := [2 \<mapsto> zero_process\<lparr>mmap_entries := \<lparr>list_head = 16, list_tail = 32\<rparr>\<rparr>],
     list_nodes := [16 \<mapsto> \<lparr>ll_data = 100, ll_next = 32, ll_prev = NULL, list_is_owner = 1\<rparr>,
       32 \<mapsto> \<lparr>ll_data = 200, ll_next = NULL, ll_prev = 16, list_is_owner = 1\<rparr>],
     process_mmaps := [100 \<mapsto> \<lparr>me_virtual_address = HEAP_VIRTUAL_BASE + 0x10000, me_num_pages = 1\<rparr>,
       200 \<mapsto> \<lparr>me_virtual_address = HEAP_VIRTUAL_BASE, me_num_pages = 3\<rparr>]\<rparr>"

theorem find_free_address_space_correct_witness:
  "\<exists>a. find_free_address_space 2 sample_regions = Inr (a, sample_regions) \<and> unat HEAP_VIRTUAL_BASE + 17 * 4096 \<le> unat a"
proof -
  let ?s = sample_regions
  have p: "processes ?s 2 = Some (zero_process\<lparr>mmap_entries := \<lparr>list_head = 16, list_tail = 32\<rparr>\<rparr>)"
    by (simp add: sample_regions_def)
  have l: "list_at ?s (mmap_entries (zero_process\<lparr>mmap_entries := \<lparr>list_head = 16, list_tail = 32\<rparr>\<rparr>)) [16, 32]"
    by (simp add: list_at_def dll_def sample_regions_def fld_def)
  have 1: "entry_at ?s 16 = Some \<lparr>me_virtual_address = HEAP_VIRTUAL_BASE + 0x10000, me_num_pages = 1\<rparr>"
    "entry_at ?s 32 = Some \<lparr>me_virtual_address = HEAP_VIRTUAL_BASE, me_num_pages = 3\<rparr>"
    by (simp_all add: entry_at_def sample_regions_def fld_def)
  have "\<forall>q \<in> set [16, 32]. \<exists>e. entry_at ?s q = Some e \<and> region_ok e"
    by (simp add: 1 region_ok_def HEAP_VIRTUAL_BASE_def HEAP_SIZE_def)
  from find_free_address_space_correct [OF p l this] show ?thesis
    by (auto simp: 1 HEAP_VIRTUAL_BASE_def)
qed

end
