(* ===== verification/User_Heap.thy ===== *)
theory User_Heap
  imports Process_Mmap
begin

text \<open>
  The heap of a program: \<open>libz/malloc.c\<close> and \<open>libz/block_allocator.c\<close> on \<open>libz/mmap.c\<close>. The block
  allocator is the kernel's, but for the way it obtains pages, so its lists, splitting and merging are
  those of \<open>Block_Allocator\<close>. The system call is a parameter of the operations; below it is the
  kernel's \<open>process_mmap\<close> for the process that runs.
\<close>

section \<open>Operations\<close>

type_synonym 'k mmap_fn = "u64 \<Rightarrow> u64 \<Rightarrow> u64 \<Rightarrow> i64 \<Rightarrow> ('k, u64) prog"

record 'k user_backend =
  system :: 'k
  mmap_flags :: u64

type_synonym 'k user_heap = "'k user_backend block_allocator"

definition MALLOC_PAGE_FLAGS :: u64 where
  "MALLOC_PAGE_FLAGS = MAP_PRIVATE OR MAP_ANONYMOUS OR MAP_READ OR MAP_WRITE"

definition user_mmap :: "'k mmap_fn \<Rightarrow> u64 \<Rightarrow> u64 \<Rightarrow> ('k user_heap, u64) prog" where
  "user_mmap mmap address count =
     bnd (rd (\<lambda>s. mmap_flags (backend s))) (\<lambda>flags.
     within backend backend_update (within system system_update (mmap address count flags (- 1))))"

definition user_block_allocator_init :: "'k mmap_fn \<Rightarrow> u64 \<Rightarrow> ('k user_heap, int) prog" where
  "user_block_allocator_init mmap flags =
     thn (upd (\<lambda>s. s\<lparr>backend := (backend s)\<lparr>mmap_flags := flags\<rparr>, virtual_base := 0, block_list_head := NULL,
            free_list_head := NULL\<rparr>))
    (bnd (user_mmap mmap 0 BLOCK_ALLOCATOR_DEFAULT_SIZE) (\<lambda>base.
     thn (kassert (base \<noteq> 0)) (thn (upd (block_allocator_setup base)) (ret 0))))"

definition malloc_init :: "'k mmap_fn \<Rightarrow> ('k user_heap, unit) prog" where
  "malloc_init mmap = bnd (user_block_allocator_init mmap MALLOC_PAGE_FLAGS) (\<lambda>_. ret ())"

text \<open>The new block at the end of the heap.\<close>

definition append_block :: "u64 \<Rightarrow> u64 \<Rightarrow> u64 \<Rightarrow> ('k block_allocator, u64) prog" where
  "append_block last_block offset amount =
     bnd (rd virtual_base) (\<lambda>base.
     let new_block_header = base + offset - HEADER_SIZE in
     thn (upd (\<lambda>s. s\<lparr>headers := (headers s)(new_block_header \<mapsto>
            new_header offset (pages_needed amount * HEAP_PAGE_SIZE - HEADER_SIZE) last_block NULL)\<rparr>))
    (thn (if last_block \<noteq> NULL
          then set_header last_block (\<lambda>h. h\<lparr>bh_next_ptr := new_block_header\<rparr>)
          else upd (\<lambda>s. s\<lparr>block_list_head := new_block_header\<rparr>))
    (thn (add_block_to_free_list new_block_header)
         (ret new_block_header))))"

definition user_find_or_create_free_block :: "'k mmap_fn \<Rightarrow> u64 \<Rightarrow> ('k user_heap, u64) prog" where
  "user_find_or_create_free_block mmap amount =
     bnd (find_free_block amount) (\<lambda>found.
     if found \<noteq> NULL then ret found
     else
       bnd get_last_block_header (\<lambda>last_block.
       bnd (if last_block \<noteq> NULL
            then bnd (header_of last_block) (\<lambda>h. ret (bh_offset h + bh_size h + HEADER_SIZE))
            else ret HEADER_SIZE) (\<lambda>offset.
       bnd (rd virtual_base) (\<lambda>base.
       bnd (user_mmap mmap (base + offset) (pages_needed amount * HEAP_PAGE_SIZE)) (\<lambda>r.
       thn (kassert (r > 0)) (append_block last_block offset amount))))))"

definition user_malloc :: "'k mmap_fn \<Rightarrow> u64 \<Rightarrow> ('k user_heap, u64) prog" where
  "user_malloc mmap amount =
     bnd (user_find_or_create_free_block mmap amount) (\<lambda>block_header.
     if block_header = NULL then ret NULL
     else
       thn (split_block block_header amount)
      (thn (set_header block_header (\<lambda>h. h\<lparr>bh_is_free := 0\<rparr>))
      (thn (remove_block_from_free_list block_header)
      (bnd (header_of block_header) (\<lambda>h.
       bnd (rd virtual_base) (\<lambda>base. ret (base + bh_offset h)))))))"

definition user_free :: "u64 \<Rightarrow> ('k user_heap, unit) prog" where
  "user_free address = block_allocator_free (\<lambda>_. True) address"

section \<open>The system call\<close>

text \<open>\<open>syscall_mmap_impl\<close>: the arguments are in the registers of the frame.\<close>

definition syscall_mmap_impl ::
  "'h malloc_fn \<Rightarrow> 'h free_fn \<Rightarrow> 'h page_ops \<Rightarrow> u64 list \<Rightarrow> (('h, 'z) process_mem_scheme, u64) prog" where
  "syscall_mmap_impl malloc mfree ops regs =
     bnd current_process (\<lambda>process.
     process_mmap malloc mfree ops process (regs ! 0) (regs ! 1) (regs ! 2) (regs ! 3))"

text \<open>The stub in \<open>libz/syscall.h\<close> passes four arguments; the others are zero.\<close>

definition syscall_mmap ::
  "'h malloc_fn \<Rightarrow> 'h free_fn \<Rightarrow> 'h page_ops \<Rightarrow> ('h, 'z) process_mem_scheme mmap_fn" where
  "syscall_mmap malloc mfree ops address count flags fd =
     syscall_mmap_impl malloc mfree ops [address, count, flags, fd, 0, 0]"

section \<open>As long as no growth is needed\<close>

text \<open>
  Without growth the two allocators agree, whatever the kernel's would obtain its pages with. So the
  results on the kernel's allocator hold with pages that are never supplied.
\<close>

definition no_pages :: "'k pages_fn" where "no_pages va n = ret False"

interpretation program_heap: page_supply "\<lambda>_. True" no_pages "\<lambda>_. True" "\<lambda>_ v. Some v" "\<lambda>_ _. True" 0
  by unfold_locales (auto simp: no_pages_def)

abbreviation user_heap_inv :: "'k user_heap \<Rightarrow> nat \<Rightarrow> (u64 \<rightharpoonup> nat) \<Rightarrow> bool" where
  "user_heap_inv \<equiv> heap_inv (\<lambda>_. True) (\<lambda>_ v. Some v) 0"

lemma user_malloc_found:
  assumes "find_free_block amount s = Inr (b, s)" "b \<noteq> NULL"
  shows "user_malloc mmap amount s = block_allocator_allocate (\<lambda>_. True) no_pages amount s"
  using assms by (simp add: user_malloc_def user_find_or_create_free_block_def block_allocator_allocate_def
      find_or_create_free_block_def)

lemma user_malloc_fits:
  assumes i: "user_heap_inv s (room + unat n + 4152) L" and f: "fits s n"
  shows "\<exists>p s' k. user_malloc mmap n s = Inr (p, s') \<and> p \<noteq> NULL \<and> unat n \<le> k \<and> L p = None \<and>
    user_heap_inv s' room (L(p \<mapsto> k))"
proof -
  obtain bs fs e where s: "heap_shape s bs fs e" using i unfolding heap_inv_def by blast
  note d = heap_shapeD [OF s]
  obtain gs b where "free_list (headers s) (free_list_head s) gs" "b \<in> set gs" "unat n \<le> block_size (headers s) b"
    using f unfolding fits_def by blast
  then have b: "b \<in> set fs" "unat n \<le> block_size (headers s) b" using free_list_unique [OF d(2)] by blast+
  obtain c where c: "find_free_block n s = Inr (c, s)" "c \<in> set fs"
    using find_free_block_run [OF d(2) free_header_Some [OF s], of n] b by (metis not_le)
  have "c \<noteq> NULL" using c(2) d(2) free_list_nonnull by metis
  then have eq: "user_malloc mmap n s = block_allocator_allocate (\<lambda>_. True) no_pages n s" by (rule user_malloc_found [OF c(1)])
  from program_heap.allocate_correct [OF i] f obtain p s' k where
    r: "block_allocator_allocate (\<lambda>_. True) no_pages n s = Inr (p, s')" "unat n \<le> k" "L p = None"
      "user_heap_inv s' room (L(p \<mapsto> k))" by blast
  have "p \<noteq> NULL" by (rule heap_regions(1) [OF r(4)]) simp
  with r eq show ?thesis by auto
qed

section \<open>When the heap must grow\<close>

text \<open>
  The header of the new block goes to the end of the heap, which is aligned, but the pages are asked
  for behind the header.
\<close>

lemma unaligned_header:
  assumes "4096 dvd unat (b :: u64)" shows "(b + HEADER_SIZE) mod PAGE_SIZE \<noteq> 0"
proof -
  have u: "unat b mod 4096 = 0" using assms by simp
  have "unat b < 2 ^ 64 - 56"
  proof -
    obtain k where k: "unat b = 4096 * k" using assms by (elim dvdE)
    then have "k < 2 ^ 52" using unat_lt_64 [of b] by simp
    then show ?thesis using k by simp
  qed
  then have "unat (b + HEADER_SIZE) = unat b + 56" by (subst unat_add_no_wrap) simp_all
  moreover have "(unat b + 56) mod 4096 = 56" using mod_add_left_eq [of "unat b" 4096 56] u by simp
  ultimately have "unat ((b + HEADER_SIZE) mod PAGE_SIZE) = 56" by (simp add: unat_mod)
  then show ?thesis by (metis unat_0 zero_neq_numeral)
qed

lemma user_growth_address:
  assumes i: "user_heap_inv s room L" and f: "\<not> fits s n"
  obtains a l offset where "user_find_or_create_free_block mmap n s =
      bnd (user_mmap mmap a (pages_needed n * HEAP_PAGE_SIZE)) (\<lambda>r.
        thn (kassert (r > 0)) (append_block l offset n)) s" "a mod PAGE_SIZE \<noteq> 0"
proof -
  obtain bs fs e where s: "heap_shape s bs fs e" and e: "4096 dvd e" using i unfolding heap_inv_def by blast
  note d = heap_shapeD [OF s]
  have small: "\<forall>b \<in> set fs. block_size (headers s) b < unat n" using f d(2) unfolding fits_def by (metis not_le)
  have none: "find_free_block n s = Inr (NULL, s)"
    using find_free_block_run [OF d(2) free_header_Some [OF s], of n] small by (metis not_le)
  have la: "get_last_block_header s = Inr (last bs, s)"
    by (rule get_last_block_header_run [OF d(1) heap_header_Some [OF s] d(5)])
  have lb: "last bs \<in> set bs" "last bs \<noteq> NULL" using d(5,9) by (metis last_in_set)+
  obtain h where h: "headers s (last bs) = Some h" using heap_header_Some [OF s lb(1)] by blast
  let ?o = "bh_offset h + bh_size h + HEADER_SIZE"
  note le = last_header_end [OF s h]
  have "4096 dvd unat (virtual_base s + ?o - HEADER_SIZE)" using e by (simp only: le(1))
  from unaligned_header [OF this] have "(virtual_base s + ?o) mod PAGE_SIZE \<noteq> 0" by (subst le(2))
  moreover have "user_find_or_create_free_block mmap n s =
      bnd (user_mmap mmap (virtual_base s + ?o) (pages_needed n * HEAP_PAGE_SIZE)) (\<lambda>r.
        thn (kassert (r > 0)) (append_block (last bs) ?o n)) s"
    using none la lb(2) h by (simp add: user_find_or_create_free_block_def)
  ultimately show thesis using that by blast
qed

text \<open>The kernel does not return to a program that asks for a region at an unaligned address.\<close>

lemma syscall_mmap_unaligned:
  assumes "threads s (current_thread s) = Some t" "current_thread s \<noteq> NULL" "thread_process t \<noteq> NULL"
    and "address mod PAGE_SIZE \<noteq> 0"
  shows "syscall_mmap malloc mfree ops address count flags fd s = Inl Assertion_Failed"
  using assms by (simp add: syscall_mmap_def syscall_mmap_impl_def current_process_def scheduler_get_current_thread_def
      process_mmap_def)

lemma user_malloc_no_room:
  assumes i: "user_heap_inv s room L" and f: "\<not> fits s n"
    and m: "\<And>address count flags fd. address mod PAGE_SIZE \<noteq> 0 \<Longrightarrow>
      mmap address count flags fd (system (backend s)) = Inl Assertion_Failed"
  shows "user_malloc mmap n s = Inl Assertion_Failed"
proof -
  obtain a l offset where r: "user_find_or_create_free_block mmap n s =
      bnd (user_mmap mmap a (pages_needed n * HEAP_PAGE_SIZE)) (\<lambda>r.
        thn (kassert (r > 0)) (append_block l offset n)) s" and a: "a mod PAGE_SIZE \<noteq> 0"
    by (rule user_growth_address [OF i f])
  have "user_mmap mmap a (pages_needed n * HEAP_PAGE_SIZE) s = Inl Assertion_Failed"
    using m [OF a] by (simp add: user_mmap_def)
  then show ?thesis using r by (simp add: user_malloc_def)
qed

section \<open>The properties\<close>

text \<open>The program that runs on the machine of the system calls.\<close>

definition running_program :: "('h, 'z) process_mem_scheme \<Rightarrow> bool" where
  "running_program s \<longleftrightarrow> current_thread s \<noteq> NULL \<and>
     (\<exists>t. threads s (current_thread s) = Some t \<and> thread_process t \<noteq> NULL)"

text \<open>C24: \<open>malloc\<close> of a program succeeds exactly when a free block is large enough. If one is, it
  returns at least \<open>n\<close> bytes, disjoint from all allocated blocks, without a system call. If none is,
  the heap would have to grow, but the allocator asks for pages at an address that is 56 bytes, the
  size of a header, behind the end of the heap and so is not aligned; \<open>process_mmap\<close> asserts that the
  address is aligned, and this stops the kernel, not only the program. \<open>L\<close> lists the allocated
  blocks; the precondition is the invariant of the program's heap, which \<open>malloc\<close> and \<open>free\<close> keep.\<close>

theorem user_malloc_correct:
  assumes i: "user_heap_inv s (room + unat n + 4152) L" and p: "running_program (system (backend s))"
  shows "if fits s n
    then \<exists>p s' k. user_malloc (syscall_mmap malloc mfree ops) n s = Inr (p, s') \<and> p \<noteq> NULL \<and> unat n \<le> k \<and>
      L p = None \<and> user_heap_inv s' room (L(p \<mapsto> k)) \<and> (\<forall>q m. L q = Some m \<longrightarrow> unat p + k \<le> unat q \<or> unat q + m \<le> unat p)
    else user_malloc (syscall_mmap malloc mfree ops) n s = Inl Assertion_Failed"
proof (cases "fits s n")
  case True
  from user_malloc_fits [OF i True] obtain p s' k where
    r: "user_malloc (syscall_mmap malloc mfree ops) n s = Inr (p, s')" "p \<noteq> NULL" "unat n \<le> k" "L p = None"
    "user_heap_inv s' room (L(p \<mapsto> k))" by metis
  have "unat p + k \<le> unat q \<or> unat q + m \<le> unat p" if "L q = Some m" for q m
  proof -
    have "q \<noteq> p" using that r(4) by auto
    then show ?thesis using heap_regions(5) [OF r(5), of p k q m] that by simp
  qed
  with r True show ?thesis by auto
next
  case False
  obtain t where "threads (system (backend s)) (current_thread (system (backend s))) = Some t"
    "current_thread (system (backend s)) \<noteq> NULL" "thread_process t \<noteq> NULL" using p by (auto simp: running_program_def)
  from syscall_mmap_unaligned [OF this] False show ?thesis by (simp add: user_malloc_no_room [OF i])
qed

text \<open>C25: \<open>free\<close> of an allocated block of a program's heap gives back exactly that block; together with
  the property of \<open>malloc\<close> this keeps the invariant along every run that does not need to grow.\<close>

theorem user_free_exact:
  assumes i: "user_heap_inv s room L" and p: "L p = Some k"
  shows "\<exists>s'. user_free p s = Inr ((), s') \<and> user_heap_inv s' room (L(p := None))"
  using program_heap.free_correct [OF i p] by (simp add: user_free_def)

section \<open>A sample heap\<close>

text \<open>The heap after \<open>malloc_init\<close>: one free block.\<close>

definition sample_user_heap :: "unit process_mem user_heap" where
  "sample_user_heap = \<lparr>backend = \<lparr>system = small_system (), mmap_flags = MALLOC_PAGE_FLAGS\<rparr>,
     virtual_base = HEAP_VIRTUAL_BASE, block_list_head = HEAP_VIRTUAL_BASE, free_list_head = HEAP_VIRTUAL_BASE,
     headers = [HEAP_VIRTUAL_BASE \<mapsto> new_header HEADER_SIZE (BLOCK_ALLOCATOR_DEFAULT_SIZE - HEADER_SIZE) NULL NULL]\<rparr>"

lemma sample_user_heap_ok:
  "user_heap_inv sample_user_heap 0x600000000000 Map.empty"
  "free_list (headers sample_user_heap) (free_list_head sample_user_heap) [HEAP_VIRTUAL_BASE]"
  "block_size (headers sample_user_heap) HEAP_VIRTUAL_BASE = 4194248"
proof -
  let ?b = "0x400000000000 :: u64"
  let ?m = "[?b \<mapsto> new_header HEADER_SIZE (BLOCK_ALLOCATOR_DEFAULT_SIZE - HEADER_SIZE) NULL NULL]"
  have t: "tiles ?m ?b (unat ?b) [?b] (unat ?b + 0x400000)" by (simp add: new_header_def)
  have l: "block_list ?m ?b [?b]" "free_list ?m ?b [?b]"
    unfolding block_list_def free_list_def by (rule exI [of _ ?b], rule dll_singleton; simp add: fld_def new_header_def)+
  show "free_list (headers sample_user_heap) (free_list_head sample_user_heap) [HEAP_VIRTUAL_BASE]"
    using l(2) by (simp add: sample_user_heap_def HEAP_VIRTUAL_BASE_def)
  show "block_size (headers sample_user_heap) HEAP_VIRTUAL_BASE = 4194248"
    by (simp add: block_size_def sample_user_heap_def HEAP_VIRTUAL_BASE_def fld_def new_header_def)
  have "{c \<in> set [?b]. block_free ?m c} = {?b}" by (auto simp: block_free_def fld_def new_header_def)
  then have sh: "heap_shape sample_user_heap [?b] [?b] (unat ?b + 0x400000)"
    using t l by (simp add: heap_shape_def sample_user_heap_def HEAP_VIRTUAL_BASE_def)
  have "live (headers sample_user_heap) [?b] = Map.empty"
    by (auto simp: live_def sample_user_heap_def block_free_def fld_def new_header_def HEAP_VIRTUAL_BASE_def)
  moreover have "coalesced (headers sample_user_heap) [?b]" by (simp add: coalesced_def)
  moreover have "(4096 :: nat) dvd unat ?b + 0x400000" "unat ?b + 0x400000 + 0x600000000000 < 2 ^ 64" by simp_all
  ultimately show "user_heap_inv sample_user_heap 0x600000000000 Map.empty"
    using sh unfolding heap_inv_def by (intro conjI exI [of _ "[?b]"] exI [of _ "unat ?b + 0x400000"]) auto
qed

lemma sample_user_heap_fits: "fits sample_user_heap n \<longleftrightarrow> unat n \<le> 4194248"
  using free_list_unique [OF sample_user_heap_ok(2)] sample_user_heap_ok(2,3)
  unfolding fits_def by (metis empty_iff empty_set set_ConsD list.set_intros(1))

definition sample_page_ops :: "unit page_ops" where
  "sample_page_ops = \<lparr>page_get = ret None, page_put = (\<lambda>_. ret (-1)), page_map = (\<lambda>_ _ _ _. ret (-1, 0)),
     page_find = (\<lambda>_ _. ret None), page_direct = (\<lambda>_. ret None)\<rparr>"

theorem user_malloc_correct_witness:
  "user_malloc (syscall_mmap (\<lambda>_. ret 0) (\<lambda>_. ret ()) sample_page_ops) 0x400000 sample_user_heap = Inl Assertion_Failed \<and>
   (\<exists>p s' k. user_malloc (syscall_mmap (\<lambda>_. ret 0) (\<lambda>_. ret ()) sample_page_ops) 100 sample_user_heap = Inr (p, s') \<and> 100 \<le> k \<and>
     user_heap_inv s' 0 [p \<mapsto> k])"
proof -
  have p: "running_program (system (backend sample_user_heap))"
    by (simp add: running_program_def sample_user_heap_def small_system_def)
  have room: "user_heap_inv sample_user_heap (0 + unat (0x400000 :: u64) + 4152) Map.empty"
    "user_heap_inv sample_user_heap (0 + unat (100 :: u64) + 4152) Map.empty"
    by (rule heap_inv_mono [OF sample_user_heap_ok(1)], simp)+
  from user_malloc_correct [OF room(1) p] user_malloc_correct [OF room(2) p] show ?thesis
    by (simp add: sample_user_heap_fits) blast
qed

theorem user_free_exact_witness:
  "\<exists>(s :: unit process_mem user_heap) p k. user_heap_inv s 0 [p \<mapsto> k] \<and> (\<exists>s'. user_free p s = Inr ((), s') \<and> user_heap_inv s' 0 (Map.empty :: u64 \<rightharpoonup> nat))"
proof -
  have room: "user_heap_inv sample_user_heap (0 + unat (100 :: u64) + 4152) Map.empty"
    by (rule heap_inv_mono [OF sample_user_heap_ok(1)]) simp
  have "fits sample_user_heap 100" by (simp add: sample_user_heap_fits)
  from user_malloc_fits [OF room this, of "\<lambda>_ _ _ _. ret 0"] obtain p s k where s: "user_heap_inv (s :: unit process_mem user_heap) 0 [p \<mapsto> k]" by auto
  have "\<exists>s'. user_free p s = Inr ((), s') \<and> user_heap_inv s' 0 ([p \<mapsto> k](p := None))"
    by (rule user_free_exact [OF s]) simp
  moreover have "[p \<mapsto> k](p := None) = Map.empty" by auto
  ultimately show ?thesis using s by auto
qed

end
