(* ===== verification/Process_Kernel.thy ===== *)
theory Process_Kernel
  imports Kernel_Tasks Process_Mmap
begin

text \<open>
  The operations on pages that \<open>process.c\<close> and \<open>process_mmap.c\<close> use, instantiated with the kernel's
  own: the page allocator, the page tables of the process with its source of table pages
  (\<open>process/address_space.c\<close>), and the direct map, all in the backend of the kernel's heap. With them
  the functions of \<open>Process\<close> and \<open>Process_Mmap\<close> are functions of the kernel.
\<close>

definition process_vmap :: "u64 \<Rightarrow> kernel_heap_state vmap" where
  "process_vmap root = address_space_init\<lparr>root_page_table := root\<rparr>"

definition kernel_page_ops :: "kernel_heap page_ops" where
  "kernel_page_ops = \<lparr>
     page_get = within backend backend_update (kernel_page_alloc_block PAGE_ALLOC_ORDER_4KB),
     page_put = (\<lambda>page. within backend backend_update (kernel_page_alloc_free page PAGE_ALLOC_ORDER_4KB)),
     page_map = (\<lambda>root pa va flags. within backend backend_update
        (bnd (vmap_map_page (process_vmap root) pa va flags) (\<lambda>(r, v). ret (r, root_page_table v)))),
     page_find = (\<lambda>root va. within backend backend_update (vmap_virtual_to_physical (process_vmap root) va)),
     page_direct = (\<lambda>pa. within backend backend_update (rd (\<lambda>k. mmap_physical_to_virtual k pa)))\<rparr>"

definition kernel_process_mmap ::
  "u64 \<Rightarrow> u64 \<Rightarrow> u64 \<Rightarrow> u64 \<Rightarrow> u64 \<Rightarrow> ((kernel_heap, 'z) process_mem_scheme, u64) prog" where
  "kernel_process_mmap = process_mmap kmalloc kfree kernel_page_ops"

lemma process_vmap_mine: "process_pages.mine (process_vmap root)"
  by (simp add: process_pages.mine_def process_vmap_def address_space_init_def vmap_init_def)

lemma process_vmap_root [simp]: "root_page_table (process_vmap root) = root"
  by (simp add: process_vmap_def)

lemma process_vmap_unique: "v = (process_vmap root)\<lparr>root_page_table := root_page_table v\<rparr> \<Longrightarrow> v = process_vmap (root_page_table v)"
  by (simp add: process_vmap_def)

text \<open>A page that was mapped is found at its address, and every other address is found as before.\<close>

lemma kernel_page_map_find:
  assumes s: "pages_ok (backend h)" and inv: "vmap_inv pages_avail kernel_tables (process_vmap root) (backend h)"
    and nb: "no_block (process_vmap root) (backend h) va" and fl: "flags AND TBL_ENTRY_ADDR_MASK = 0"
    and room: "4 \<le> card (pages_avail (backend h))"
  shows "\<exists>root' h'. page_map kernel_page_ops root pa va flags h = Inr ((0, root'), h') \<and> pages_ok (backend h') \<and>
     vmap_inv pages_avail kernel_tables (process_vmap root') (backend h') \<and> (root \<noteq> NULL \<longrightarrow> root' = root) \<and>
     (\<forall>va'. page_find kernel_page_ops root' va' h' =
        Inr (if prefix 0 va' = prefix 0 va then Some (target 0 pa va') else translate (phys (backend h)) root va', h'))"
proof -
  obtain r v' k' where run: "vmap_map_page (process_vmap root) pa va flags (backend h) = Inr ((r, v'), k')"
    and ok: "pages_ok k'" "process_pages.mine v'" and r: "r = 0"
    and m: "maps pages_avail kernel_tables (4 - 0) 0 va pa (process_vmap root) (backend h) v' k'"
    using process_pages.map_page_outcome [OF s process_vmap_mine inv nb fl, of pa] room
    unfolding process_pages.map_outcome_def by auto
  let ?root = "root_page_table v'" and ?h = "h\<lparr>backend := k'\<rparr>"
  have v': "v' = process_vmap ?root" by (rule process_vmap_unique [of _ root]) (use m in \<open>simp add: maps_def\<close>)
  have inv': "vmap_inv pages_avail kernel_tables v' k'" using m by (simp add: maps_def)
  have "page_map kernel_page_ops root pa va flags h = Inr ((0, ?root), ?h)"
    using run r by (simp add: kernel_page_ops_def)
  moreover have "page_find kernel_page_ops ?root va' ?h =
      Inr (if prefix 0 va' = prefix 0 va then Some (target 0 pa va') else translate (phys (backend h)) root va', ?h)" for va'
  proof -
    have "vmap_virtual_to_physical v' va' k' = Inr (vtranslate v' k' va', k')"
      by (rule process_pages.virtual_to_physical_correct [OF ok inv'])
    moreover have "vtranslate v' k' va' =
        (if prefix 0 va' = prefix 0 va then Some (target 0 pa va') else vtranslate (process_vmap root) (backend h) va')"
      using m by (simp add: maps_def)
    ultimately show ?thesis unfolding v' [symmetric]
      by (simp add: kernel_page_ops_def v' [symmetric] vtranslate_def)
  qed
  moreover have "root \<noteq> NULL \<longrightarrow> ?root = root" using m by (auto simp: maps_def)
  ultimately show ?thesis using ok(1) inv' v' by (intro exI [of _ ?root] exI [of _ ?h]) simp
qed

end
