(* ===== verification/Text_Input.thy ===== *)
theory Text_Input
  imports Input
begin

text \<open>
  \<open>programs/compositor/ui/text_input.c\<close>: the line of text that the compositor edits with the keys of
  the keyboard. The text is a buffer of the program's heap with a cursor in it; its specification is
  the pair of the text before and the text behind the cursor. Drawing is not modelled.
\<close>

section \<open>State\<close>

record text_input =
  ti_text :: u64
  ti_length :: u32
  ti_capacity :: u32
  cursor_index :: u32
  shift_down :: bool

record 'h text_mem = "'h kmem" +
  text_input :: text_input

definition TEXT_INPUT_INITIAL_CAPACITY :: u32 where "TEXT_INPUT_INITIAL_CAPACITY = 128"

abbreviation set_ti :: "(text_input \<Rightarrow> text_input) \<Rightarrow> (('h, 'z) text_mem_scheme, unit) prog" where
  "set_ti f \<equiv> upd (\<lambda>s. s\<lparr>text_input := f (text_input s)\<rparr>)"

text \<open>\<open>text[i]\<close>.\<close>

definition get_char :: "u32 \<Rightarrow> (('h, 'z) text_mem_scheme, u8) prog" where
  "get_char i = bnd (rd text_input) (\<lambda>t. read_byte (ti_text t + ucast i))"

definition put_char :: "u32 \<Rightarrow> u8 \<Rightarrow> (('h, 'z) text_mem_scheme, unit) prog" where
  "put_char i c = bnd (rd text_input) (\<lambda>t. write_byte (ti_text t + ucast i) c)"

section \<open>Operations\<close>

definition text_input_alloc :: "'h malloc_fn \<Rightarrow> (('h, 'z) text_mem_scheme, int) prog" where
  "text_input_alloc malloc =
     bnd (new_buffer malloc (ucast TEXT_INPUT_INITIAL_CAPACITY)) (\<lambda>text.
     thn (set_ti (\<lambda>_. \<lparr>ti_text = text, ti_length = 0, ti_capacity = 0, cursor_index = 0, shift_down = False\<rparr>))
    (if text = NULL then ret (-1)
     else thn (memory_set text 0 (ucast TEXT_INPUT_INITIAL_CAPACITY))
         (thn (set_ti (\<lambda>t. t\<lparr>ti_length := 0, ti_capacity := TEXT_INPUT_INITIAL_CAPACITY, cursor_index := 0\<rparr>))
              (ret 0))))"

definition text_input_free :: "'h free_fn \<Rightarrow> (('h, 'z) text_mem_scheme, int) prog" where
  "text_input_free mfree =
     bnd (rd text_input) (\<lambda>t.
     thn (free_buffer mfree (ti_text t))
    (thn (set_ti (\<lambda>_. \<lparr>ti_text = NULL, ti_length = 0, ti_capacity = 0, cursor_index = 0, shift_down = False\<rparr>))
         (ret 0)))"

text \<open>The growth of the buffer; \<open>False\<close> when it fails.\<close>

definition text_input_reserve :: "'h malloc_fn \<Rightarrow> 'h free_fn \<Rightarrow> (('h, 'z) text_mem_scheme, bool) prog" where
  "text_input_reserve malloc mfree =
     bnd (rd text_input) (\<lambda>t.
     if ti_length t + 1 > ti_capacity t
     then bnd (new_buffer malloc (ucast (ti_capacity t * 2))) (\<lambda>new_text.
       if new_text = NULL then ret False
       else thn (memory_copy new_text (ti_text t) (ucast (ti_length t)))
           (thn (free_buffer mfree (ti_text t))
           (thn (set_ti (\<lambda>t. t\<lparr>ti_text := new_text, ti_capacity := ti_capacity t * 2\<rparr>)) (ret True))))
     else ret True)"

text \<open>The loops, with the number of rounds that are left: \<open>text[i] = text[i - 1]\<close> for descending \<open>i\<close>,
  and \<open>text[i - 1] = text[i]\<close> for ascending \<open>i\<close>.\<close>

fun shift_right :: "nat \<Rightarrow> u32 \<Rightarrow> (('h, 'z) text_mem_scheme, unit) prog" where
  "shift_right 0 i = ret ()"
| "shift_right (Suc n) i = bnd (get_char (i - 1)) (\<lambda>c. thn (put_char i c) (shift_right n (i - 1)))"

fun shift_left :: "nat \<Rightarrow> u32 \<Rightarrow> (('h, 'z) text_mem_scheme, unit) prog" where
  "shift_left 0 i = ret ()"
| "shift_left (Suc n) i = bnd (get_char i) (\<lambda>c. thn (put_char (i - 1) c) (shift_left n (i + 1)))"

definition insert_at_cursor :: "u8 \<Rightarrow> (('h, 'z) text_mem_scheme, unit) prog" where
  "insert_at_cursor c =
     bnd (rd text_input) (\<lambda>t.
       thn (if cursor_index t < ti_length t
            then thn (shift_right (unat (ti_length t) - unat (cursor_index t)) (ti_length t))
                     (set_ti (\<lambda>t. t\<lparr>ti_length := ti_length t + 1\<rparr>))
            else ret ())
      (thn (put_char (cursor_index t) c)
      (thn (set_ti (\<lambda>t. t\<lparr>cursor_index := cursor_index t + 1\<rparr>))
           (set_ti (\<lambda>t. if cursor_index t > ti_length t then t\<lparr>ti_length := cursor_index t\<rparr> else t)))))"

definition text_input_add_char ::
  "'h malloc_fn \<Rightarrow> 'h free_fn \<Rightarrow> u8 \<Rightarrow> (('h, 'z) text_mem_scheme, int) prog" where
  "text_input_add_char malloc mfree c =
     bnd (text_input_reserve malloc mfree) (\<lambda>ok.
     if \<not> ok then ret (-1)
     else thn (insert_at_cursor c)
         (bnd (rd text_input) (\<lambda>t. thn (put_char (ti_length t) 0) (ret 0))))"

definition text_input_remove_char :: "(('h, 'z) text_mem_scheme, int) prog" where
  "text_input_remove_char =
     bnd (rd text_input) (\<lambda>t.
     if cursor_index t = 0 then ret 0
     else bnd (get_char (cursor_index t - 1)) (\<lambda>c.
       if cursor_index t = ti_length t
       then thn (put_char (cursor_index t - 1) 0)
           (thn (set_ti (\<lambda>t. t\<lparr>ti_length := ti_length t - 1, cursor_index := cursor_index t - 1\<rparr>)) (ret 0))
       else thn (shift_left (unat (ti_length t) - unat (cursor_index t)) (cursor_index t))
           (thn (set_ti (\<lambda>t. t\<lparr>ti_length := ti_length t - 1\<rparr>))
           (bnd (rd text_input) (\<lambda>t. thn (put_char (ti_length t) 0)
           (thn (set_ti (\<lambda>t. t\<lparr>cursor_index := cursor_index t - 1\<rparr>)) (ret 0)))))))"

definition text_input_move_cursor :: "i32 \<Rightarrow> (('h, 'z) text_mem_scheme, int) prog" where
  "text_input_move_cursor dx =
     bnd (rd text_input) (\<lambda>t.
     if dx = 0 then ret 0
     else if cursor_index t + dx <s 0 then ret 0
     else if cursor_index t + dx > ti_length t then ret 0
     else thn (set_ti (\<lambda>t. t\<lparr>cursor_index := cursor_index t + dx\<rparr>)) (ret 0))"

section \<open>Keys\<close>

datatype edit = Add_Char u8 | Remove_Char | Move_Cursor i32

definition perform :: "'h malloc_fn \<Rightarrow> 'h free_fn \<Rightarrow> edit \<Rightarrow> (('h, 'z) text_mem_scheme, int) prog" where
  "perform malloc mfree e = (case e of
     Add_Char c \<Rightarrow> text_input_add_char malloc mfree c
   | Remove_Char \<Rightarrow> text_input_remove_char
   | Move_Cursor dx \<Rightarrow> text_input_move_cursor dx)"

abbreviation KEY_A :: u8 where "KEY_A \<equiv> 0x04"
abbreviation KEY_Z :: u8 where "KEY_Z \<equiv> 0x1d"
abbreviation KEY_1 :: u8 where "KEY_1 \<equiv> 0x1e"
abbreviation KEY_9 :: u8 where "KEY_9 \<equiv> 0x26"
abbreviation KEY_0 :: u8 where "KEY_0 \<equiv> 0x27"
abbreviation KEY_LEFTSHIFT :: u8 where "KEY_LEFTSHIFT \<equiv> 0xe1"
abbreviation KEY_RIGHTSHIFT :: u8 where "KEY_RIGHTSHIFT \<equiv> 0xe5"

abbreviation ascii :: "char \<Rightarrow> u8" where "ascii c \<equiv> of_char c"

text \<open>
  The calls for a key that goes down, one per \<open>if\<close> of the code whose condition holds, in their order.
\<close>

definition key_edits :: "u8 \<Rightarrow> bool \<Rightarrow> edit list" where
  "key_edits scancode shift = concat (map (\<lambda>(b, e). if b then [e] else [])
    [(KEY_A \<le> scancode \<and> scancode \<le> KEY_Z,
        Add_Char (scancode - KEY_A + (if shift then ascii CHR ''A'' else ascii CHR ''a''))),
     (KEY_1 \<le> scancode \<and> scancode \<le> KEY_0 \<and> \<not> shift, Add_Char (scancode - KEY_1 + ascii CHR ''1'')),
     (scancode = KEY_1 \<and> shift, Add_Char (ascii CHR ''!'')),
     (scancode = 0x1f \<and> shift, Add_Char (ascii CHR ''@'')),
     (scancode = 0x20 \<and> shift, Add_Char (ascii CHR ''#'')),
     (scancode = 0x21 \<and> shift, Add_Char (ascii CHR ''$'')),
     (scancode = 0x22 \<and> shift, Add_Char (ascii CHR ''%'')),
     (scancode = 0x23 \<and> shift, Add_Char (ascii CHR ''^'')),
     (scancode = 0x24 \<and> shift, Add_Char (ascii CHR ''&'')),
     (scancode = 0x25 \<and> shift, Add_Char (ascii CHR ''*'')),
     (scancode = KEY_9 \<and> shift, Add_Char (ascii CHR ''('')),
     (scancode = KEY_0 \<and> shift, Add_Char (ascii CHR '')'')),
     (scancode = 0x2d, Add_Char (if shift then ascii CHR ''_'' else ascii CHR ''-'')),
     (scancode = 0x2e, Add_Char (if shift then ascii CHR ''+'' else ascii CHR ''='')),
     (scancode = 0x2c, Add_Char (ascii CHR '' '')),
     (scancode = 0x2a, Remove_Char),
     (scancode = 0x38, Add_Char (if shift then ascii CHR ''?'' else ascii CHR ''/'')),
     (scancode = 0x37, Add_Char (if shift then ascii CHR ''>'' else ascii CHR ''.'')),
     (scancode = 0x36, Add_Char (if shift then ascii CHR ''<'' else ascii CHR '','')),
     (scancode = 0x33, Add_Char (if shift then ascii CHR '':'' else ascii CHR '';'')),
     (scancode = 0x34, Add_Char (if shift then ascii CHR 0x22 else ascii CHR 0x27)),
     (scancode = 0x2f, Add_Char (if shift then ascii CHR ''{'' else ascii CHR ''['')),
     (scancode = 0x30, Add_Char (if shift then ascii CHR ''}'' else ascii CHR '']'')),
     (scancode = 0x31, Add_Char (if shift then ascii CHR ''|'' else ascii CHR 0x5C)),
     (scancode = 0x35, Add_Char (if shift then ascii CHR ''~'' else ascii CHR 0x60)),
     (scancode = 0x50, Move_Cursor (- 1)),
     (scancode = 0x4f, Move_Cursor 1),
     (scancode = 0x28, Add_Char (ascii CHR 0x0A))])"

fun perform_all :: "'h malloc_fn \<Rightarrow> 'h free_fn \<Rightarrow> edit list \<Rightarrow> (('h, 'z) text_mem_scheme, unit) prog" where
  "perform_all malloc mfree [] = ret ()"
| "perform_all malloc mfree (e # es) = bnd (perform malloc mfree e) (\<lambda>_. perform_all malloc mfree es)"

text \<open>The body of the loop, and the loop: \<open>events\<close> are the events that \<open>input_read\<close> yields in turn.\<close>

definition text_input_event ::
  "'h malloc_fn \<Rightarrow> 'h free_fn \<Rightarrow> input_device_event \<Rightarrow> (('h, 'z) text_mem_scheme, unit) prog" where
  "text_input_event malloc mfree event = (case event of
     KEY_DOWN_EVENT scancode \<Rightarrow>
       bnd (rd (\<lambda>s. shift_down (text_input s))) (\<lambda>shift.
       thn (if scancode = KEY_LEFTSHIFT \<or> scancode = KEY_RIGHTSHIFT
            then set_ti (\<lambda>t. t\<lparr>shift_down := True\<rparr>) else ret ())
           (perform_all malloc mfree (key_edits scancode shift)))
   | KEY_UP_EVENT scancode \<Rightarrow>
       if scancode = KEY_LEFTSHIFT \<or> scancode = KEY_RIGHTSHIFT
       then set_ti (\<lambda>t. t\<lparr>shift_down := False\<rparr>) else ret ()
   | _ \<Rightarrow> ret ())"

fun text_input_update_events ::
  "'h malloc_fn \<Rightarrow> 'h free_fn \<Rightarrow> input_device_event list \<Rightarrow> (('h, 'z) text_mem_scheme, unit) prog" where
  "text_input_update_events malloc mfree [] = ret ()"
| "text_input_update_events malloc mfree (e # es) =
     thn (text_input_event malloc mfree e) (text_input_update_events malloc mfree es)"

section \<open>The buffer\<close>

definition text_buffer :: "('h, 'z) text_mem_scheme \<Rightarrow> u8 list \<Rightarrow> bool" where
  "text_buffer s bs \<longleftrightarrow> length bs = unat (ti_capacity (text_input s)) \<and>
     can_access s (ti_text (text_input s)) (length bs) \<and> bytes_at (ram s) (ti_text (text_input s)) (length bs) = bs"

lemma text_buffer_set [simp]:
  "ti_text t = ti_text (text_input s) \<Longrightarrow> ti_capacity t = ti_capacity (text_input s) \<Longrightarrow>
     text_buffer (s\<lparr>text_input := t\<rparr>) bs = text_buffer s bs"
  by (simp add: text_buffer_def can_access_def)

lemma text_buffer_set_ram [simp]:
  "ti_text t = ti_text (text_input s) \<Longrightarrow> ti_capacity t = ti_capacity (text_input s) \<Longrightarrow>
     text_buffer (s\<lparr>text_input := t, ram := m\<rparr>) bs = text_buffer (s\<lparr>ram := m\<rparr>) bs"
  by (simp add: text_buffer_def can_access_def)

lemma text_buffer_small: "text_buffer s bs \<Longrightarrow> length bs < 2 ^ 32"
  using unsigned_less [of "ti_capacity (text_input s)"] by (simp add: text_buffer_def)

lemma text_buffer_nth:
  assumes b: "text_buffer s bs" and j: "j < length bs"
  shows "accessible s (ti_text (text_input s) + of_nat j)" "ram s (ti_text (text_input s) + of_nat j) = bs ! j"
proof -
  show "accessible s (ti_text (text_input s) + of_nat j)"
    using b j by (simp add: text_buffer_def can_access_def region_def)
  have "bytes_at (ram s) (ti_text (text_input s)) (length bs) ! j = bs ! j" using b unfolding text_buffer_def by metis
  then show "ram s (ti_text (text_input s) + of_nat j) = bs ! j" using j by (simp add: bytes_at_def)
qed

lemma get_char_run:
  assumes b: "text_buffer s bs" and i: "unat i < length bs"
  shows "get_char i s = Inr (bs ! unat i, s)"
  using text_buffer_nth [OF b i] by (simp add: get_char_def read_byte_def)

lemma put_char_run:
  assumes b: "text_buffer s bs" and i: "unat i < length bs"
  obtains m where "put_char i c s = Inr ((), s\<lparr>ram := m\<rparr>)" "text_buffer (s\<lparr>ram := m\<rparr>) (bs[unat i := c])"
proof -
  let ?p = "ti_text (text_input s)" let ?m = "(ram s)(?p + of_nat (unat i) := c)"
  have eq: "?p + of_nat j = ?p + of_nat (unat i) \<longleftrightarrow> j = unat i" if "j < length bs" for j
    using that i text_buffer_small [OF b] of_nat_64_inject [of j "unat i"] by simp
  have "bytes_at ?m ?p (length bs) = bs[unat i := c]"
  proof (rule nth_equalityI)
    fix j assume "j < length (bytes_at ?m ?p (length bs))"
    then have j: "j < length bs" by simp
    then have "bytes_at ?m ?p (length bs) ! j = ?m (?p + of_nat j)" by (simp add: bytes_at_def)
    also have "\<dots> = bs[unat i := c] ! j"
      using eq [OF j] text_buffer_nth(2) [OF b j] j by (auto simp: nth_list_update)
    finally show "bytes_at ?m ?p (length bs) ! j = bs[unat i := c] ! j" .
  qed simp
  then have "text_buffer (s\<lparr>ram := ?m\<rparr>) (bs[unat i := c])" using b by (auto simp: text_buffer_def)
  moreover have "put_char i c s = Inr ((), s\<lparr>ram := ?m\<rparr>)"
    using text_buffer_nth(1) [OF b i] by (simp add: put_char_def write_byte_def)
  ultimately show thesis by (rule that [rotated])
qed

text \<open>The loops on the list of bytes.\<close>

lemma shift_right_run:
  assumes "text_buffer s bs" "unat i < length bs" "n \<le> unat i"
  obtains m cs where "shift_right n i s = Inr ((), s\<lparr>ram := m\<rparr>)" "text_buffer (s\<lparr>ram := m\<rparr>) cs"
    "length cs = length bs" "\<And>j. j < length bs \<Longrightarrow> cs ! j = (if unat i - n < j \<and> j \<le> unat i then bs ! (j - 1) else bs ! j)"
  using assms
proof (induction n arbitrary: s i bs thesis)
  case 0
  show ?case by (rule 0(1) [of "ram s" bs]) (use 0(2) in auto)
next
  case (Suc n)
  then have i1: "unat (i - 1) = unat i - 1" by (metis Suc_le_D nat.simps(3) unat_0 unat_minus_one)
  have g: "get_char (i - 1) s = Inr (bs ! (unat i - 1), s)"
    using get_char_run [OF Suc.prems(2), of "i - 1"] Suc.prems(3) i1 by simp
  obtain m where p: "put_char i (bs ! (unat i - 1)) s = Inr ((), s\<lparr>ram := m\<rparr>)"
    "text_buffer (s\<lparr>ram := m\<rparr>) (bs[unat i := bs ! (unat i - 1)])"
    by (rule put_char_run [OF Suc.prems(2,3)])
  have 1: "unat (i - 1) < length (bs[unat i := bs ! (unat i - 1)])" "n \<le> unat (i - 1)" using Suc.prems(3,4) i1 by simp_all
  obtain m' cs where r: "shift_right n (i - 1) (s\<lparr>ram := m\<rparr>) = Inr ((), s\<lparr>ram := m\<rparr>\<lparr>ram := m'\<rparr>)"
    "text_buffer (s\<lparr>ram := m\<rparr>\<lparr>ram := m'\<rparr>) cs" "length cs = length bs"
    "\<And>j. j < length bs \<Longrightarrow> cs ! j = (if unat i - 1 - n < j \<and> j \<le> unat i - 1 then bs[unat i := bs ! (unat i - 1)] ! (j - 1)
        else bs[unat i := bs ! (unat i - 1)] ! j)"
    using Suc.IH [OF _ p(2) 1] i1 by auto
  show ?case
  proof (rule Suc.prems(1))
    show "shift_right (Suc n) i s = Inr ((), s\<lparr>ram := m'\<rparr>)" using g p(1) r(1) by simp
    show "text_buffer (s\<lparr>ram := m'\<rparr>) cs" "length cs = length bs" using r(2,3) by simp_all
    show "cs ! j = (if unat i - Suc n < j \<and> j \<le> unat i then bs ! (j - 1) else bs ! j)" if "j < length bs" for j
      using r(4) [OF that] that Suc.prems(4) by (auto simp: nth_list_update)
  qed
qed

lemma shift_left_run:
  assumes "text_buffer s bs" "unat i + n \<le> length bs" "0 < unat i"
  obtains m cs where "shift_left n i s = Inr ((), s\<lparr>ram := m\<rparr>)" "text_buffer (s\<lparr>ram := m\<rparr>) cs"
    "length cs = length bs" "\<And>j. j < length bs \<Longrightarrow> cs ! j = (if unat i \<le> j + 1 \<and> j + 1 < unat i + n then bs ! (j + 1) else bs ! j)"
  using assms
proof (induction n arbitrary: s i bs thesis)
  case 0
  show ?case by (rule 0(1) [of "ram s" bs]) (use 0(2) in auto)
next
  case (Suc n)
  have small: "length bs < 2 ^ 32" by (rule text_buffer_small [OF Suc.prems(2)])
  then have i: "unat (i - 1) = unat i - 1" "unat (i + 1) = unat i + 1"
    using Suc.prems(3,4) by (metis less_irrefl unat_0 unat_minus_one, subst unat_add_no_wrap) simp_all
  have g: "get_char i s = Inr (bs ! unat i, s)"
    using get_char_run [OF Suc.prems(2), of i] Suc.prems(3) by simp
  have l1: "unat (i - 1) < length bs" using i(1) Suc.prems(3) by simp
  obtain m where p: "put_char (i - 1) (bs ! unat i) s = Inr ((), s\<lparr>ram := m\<rparr>)"
    "text_buffer (s\<lparr>ram := m\<rparr>) (bs[unat (i - 1) := bs ! unat i])"
    by (rule put_char_run [OF Suc.prems(2) l1])
  have 1: "unat (i + 1) + n \<le> length (bs[unat (i - 1) := bs ! unat i])" "0 < unat (i + 1)" using Suc.prems(3) i(2) by simp_all
  obtain m' cs where r: "shift_left n (i + 1) (s\<lparr>ram := m\<rparr>) = Inr ((), s\<lparr>ram := m\<rparr>\<lparr>ram := m'\<rparr>)"
    "text_buffer (s\<lparr>ram := m\<rparr>\<lparr>ram := m'\<rparr>) cs" "length cs = length bs"
    "\<And>j. j < length bs \<Longrightarrow> cs ! j = (if unat i + 1 \<le> j + 1 \<and> j + 1 < unat i + 1 + n
        then bs[unat (i - 1) := bs ! unat i] ! (j + 1) else bs[unat (i - 1) := bs ! unat i] ! j)"
    using Suc.IH [OF _ p(2) 1] i(2) by auto
  show ?case
  proof (rule Suc.prems(1))
    show "shift_left (Suc n) i s = Inr ((), s\<lparr>ram := m'\<rparr>)" using g p(1) r(1) by simp
    show "text_buffer (s\<lparr>ram := m'\<rparr>) cs" "length cs = length bs" using r(2,3) by simp_all
    show "cs ! j = (if unat i \<le> j + 1 \<and> j + 1 < unat i + Suc n then bs ! (j + 1) else bs ! j)" if "j < length bs" for j
      using r(4) [OF that] that Suc.prems(3,4) i(1) by (auto simp: nth_list_update)
  qed
qed

section \<open>The text before and behind the cursor\<close>

definition text_is :: "('h, 'z) text_mem_scheme \<Rightarrow> u8 list \<Rightarrow> u8 list \<Rightarrow> bool" where
  "text_is s xs ys \<longleftrightarrow> (\<exists>bs. text_buffer s bs \<and> unat (cursor_index (text_input s)) = length xs \<and>
     unat (ti_length (text_input s)) = length xs + length ys \<and> length xs + length ys < length bs \<and>
     take (length xs + length ys) bs = xs @ ys \<and> bs ! (length xs + length ys) = 0)"

definition capacity :: "('h, 'z) text_mem_scheme \<Rightarrow> nat" where
  "capacity s = unat (ti_capacity (text_input s))"

lemma nth_of_take: "take n bs = zs \<Longrightarrow> j < n \<Longrightarrow> n \<le> length bs \<Longrightarrow> bs ! j = zs ! j"
  using nth_take [of j n bs] by simp

lemma take_eqI: "length zs = n \<Longrightarrow> n \<le> length bs \<Longrightarrow> (\<And>j. j < n \<Longrightarrow> bs ! j = zs ! j) \<Longrightarrow> take n bs = zs"
  by (rule nth_equalityI) auto

lemma unat_lt_32 [simp]: "unat (x :: u32) < 4294967296"
  using unsigned_less [of x] by simp

lemma reserve_run:
  assumes "unat (ti_length (text_input s)) < capacity s"
  shows "text_input_reserve malloc mfree s = Inr (True, s)"
proof -
  have "unat (ti_length (text_input s) + 1) = unat (ti_length (text_input s)) + 1"
    using assms unat_lt_32 [of "ti_capacity (text_input s)"] by (subst unat_add_no_wrap) (simp_all add: capacity_def del: unat_lt_32)
  then have "\<not> ti_length (text_input s) + 1 > ti_capacity (text_input s)" using assms by (simp add: word_less_nat_alt capacity_def)
  then show ?thesis by (simp add: text_input_reserve_def)
qed

text \<open>The bytes after a character was put at the cursor, before the terminator is written.\<close>

lemma insert_run:
  assumes t: "text_is s xs ys"
  obtains m cs where
    "insert_at_cursor c s =
      Inr ((), s\<lparr>ram := m, text_input := (text_input s)\<lparr>cursor_index := cursor_index (text_input s) + 1,
        ti_length := ti_length (text_input s) + 1\<rparr>\<rparr>)"
    "text_buffer (s\<lparr>ram := m\<rparr>) cs" "length cs = capacity s"
    "take (length xs + length ys + 1) cs = xs @ c # ys"
proof -
  obtain bs where b: "text_buffer s bs" and cu: "unat (cursor_index (text_input s)) = length xs"
    and le: "unat (ti_length (text_input s)) = length xs + length ys" and lb: "length xs + length ys < length bs"
    and tk: "take (length xs + length ys) bs = xs @ ys"
    using t by (auto simp: text_is_def)
  have cap: "length bs = capacity s" using b by (simp add: text_buffer_def capacity_def)
  have bn: "bs ! j = (xs @ ys) ! j" if "j < length xs + length ys" for j using nth_of_take [OF tk that] lb by simp
  have small: "length bs < 2 ^ 32" by (rule text_buffer_small [OF b])
  have u1: "unat (cursor_index (text_input s) + 1) = length xs + 1" "unat (ti_length (text_input s) + 1) = length xs + length ys + 1"
    using cu le lb small by (subst unat_add_no_wrap; simp)+
  show thesis
  proof (cases "ys = []")
    case True
    have ci: "unat (cursor_index (text_input s)) < length bs" using cu lb by simp
    obtain m where p: "put_char (cursor_index (text_input s)) c s = Inr ((), s\<lparr>ram := m\<rparr>)"
      "text_buffer (s\<lparr>ram := m\<rparr>) (bs[length xs := c])" using put_char_run [OF b ci, of c] cu by auto
    have eq: "cursor_index (text_input s) = ti_length (text_input s)" using cu le True by (simp add: word_unat_eq_iff)
    have gt: "cursor_index (text_input s) + 1 > ti_length (text_input s)" using u1 le True by (simp add: word_less_nat_alt)
    have "take (length xs + length ys + 1) (bs[length xs := c]) = xs @ c # ys"
      using lb bn True by (intro take_eqI) (auto simp: nth_list_update nth_append less_Suc_eq)
    then show ?thesis using p eq gt cap by (intro that [of m "bs[length xs := c]"]) (simp_all add: insert_at_cursor_def)
  next
    case False
    have lt: "cursor_index (text_input s) < ti_length (text_input s)" using cu le False by (simp add: word_less_nat_alt)
    have 1: "unat (ti_length (text_input s)) < length bs"
      "unat (ti_length (text_input s)) - unat (cursor_index (text_input s)) \<le> unat (ti_length (text_input s))" using le lb by simp_all
    obtain m cs where r: "shift_right (unat (ti_length (text_input s)) - unat (cursor_index (text_input s))) (ti_length (text_input s)) s =
        Inr ((), s\<lparr>ram := m\<rparr>)" "text_buffer (s\<lparr>ram := m\<rparr>) cs" "length cs = length bs"
      "\<And>j. j < length bs \<Longrightarrow> cs ! j = (if length xs < j \<and> j \<le> length xs + length ys then bs ! (j - 1) else bs ! j)"
      using shift_right_run [OF b 1] le cu by auto
    let ?s = "s\<lparr>ram := m\<rparr>\<lparr>text_input := (text_input s)\<lparr>ti_length := ti_length (text_input s) + 1\<rparr>\<rparr>"
    have b2: "text_buffer ?s cs" using r(2) by (auto simp: text_buffer_def can_access_def)
    have ci: "unat (cursor_index (text_input s)) < length cs" using cu lb r(3) by simp
    obtain m' where p: "put_char (cursor_index (text_input s)) c ?s = Inr ((), ?s\<lparr>ram := m'\<rparr>)"
      "text_buffer (?s\<lparr>ram := m'\<rparr>) (cs[length xs := c])" using put_char_run [OF b2 ci, of c] cu by auto
    have b3: "text_buffer (s\<lparr>ram := m'\<rparr>) (cs[length xs := c])" using p(2) by (auto simp: text_buffer_def can_access_def)
    have ngt: "\<not> cursor_index (text_input s) + 1 > ti_length (text_input s) + 1" using u1 by (simp add: word_less_nat_alt)
    have "take (length xs + length ys + 1) (cs[length xs := c]) = xs @ c # ys"
    proof (rule take_eqI)
      fix j assume j: "j < length xs + length ys + 1"
      show "cs[length xs := c] ! j = (xs @ c # ys) ! j"
      proof (cases j "length xs" rule: linorder_cases)
        case greater
        then have "cs ! j = (xs @ ys) ! (j - 1)" using r(4) [of j] j lb bn [of "j - 1"] by simp
        then show ?thesis using greater by (auto simp: nth_append nth_Cons')
      qed (use r(3) r(4) [of j] j lb bn [of j] in \<open>auto simp: nth_append\<close>)
    qed (use r(3) lb in simp_all)
    then show ?thesis using r(1,3) p(1) b3 lt ngt cap by (intro that [of m' "cs[length xs := c]"]) (simp_all add: insert_at_cursor_def)
  qed
qed

text \<open>\<open>text_input_add_char\<close> is the insertion followed by the write of the terminator.\<close>

lemma add_char_run:
  assumes t: "text_is s xs ys"
  obtains m cs where
    "text_input_add_char malloc mfree c s =
       thn (put_char (ti_length (text_input s) + 1) 0) (ret 0) (s\<lparr>ram := m, text_input := (text_input s)\<lparr>
         cursor_index := cursor_index (text_input s) + 1, ti_length := ti_length (text_input s) + 1\<rparr>\<rparr>)"
    "text_buffer (s\<lparr>ram := m\<rparr>) cs" "length cs = capacity s" "take (length xs + length ys + 1) cs = xs @ c # ys"
proof -
  obtain m cs where 1: "insert_at_cursor c s =
      Inr ((), s\<lparr>ram := m, text_input := (text_input s)\<lparr>cursor_index := cursor_index (text_input s) + 1,
        ti_length := ti_length (text_input s) + 1\<rparr>\<rparr>)"
    and 2: "text_buffer (s\<lparr>ram := m\<rparr>) cs" "length cs = capacity s" "take (length xs + length ys + 1) cs = xs @ c # ys"
    by (rule insert_run [OF t])
  have "text_input_reserve malloc mfree s = Inr (True, s)"
    by (rule reserve_run) (use t in \<open>auto simp: text_is_def text_buffer_def capacity_def\<close>)
  with 1 show thesis by (intro that [OF _ 2]) (simp add: text_input_add_char_def)
qed

text \<open>The state after an edit: only the bytes and the numbers have changed.\<close>

definition edited :: "('h, 'z) text_mem_scheme \<Rightarrow> ('h, 'z) text_mem_scheme \<Rightarrow> bool" where
  "edited s s' \<longleftrightarrow> (\<exists>m n c. s' = s\<lparr>ram := m, text_input := (text_input s)\<lparr>ti_length := n, cursor_index := c\<rparr>\<rparr>)"

lemma edited_capacity: "edited s s' \<Longrightarrow> capacity s' = capacity s \<and> shift_down (text_input s') = shift_down (text_input s)"
  by (auto simp: edited_def capacity_def)

lemma edited_refl: "edited s s"
  unfolding edited_def by (rule exI [of _ "ram s"], rule exI [of _ "ti_length (text_input s)"], rule exI [of _ "cursor_index (text_input s)"]) simp

lemma edited_trans: "edited s t \<Longrightarrow> edited t u \<Longrightarrow> edited s u"
  by (fastforce simp: edited_def)

lemma editedI: "s' = s\<lparr>ram := m, text_input := (text_input s)\<lparr>ti_length := n, cursor_index := c\<rparr>\<rparr> \<Longrightarrow> edited s s'"
  unfolding edited_def by blast

lemma add_char_text:
  assumes t: "text_is s xs ys" and room: "length xs + length ys + 1 < capacity s"
  obtains s' where "text_input_add_char malloc mfree c s = Inr (0, s')" "text_is s' (xs @ [c]) ys" "edited s s'"
proof -
  let ?t = "(text_input s)\<lparr>cursor_index := cursor_index (text_input s) + 1, ti_length := ti_length (text_input s) + 1\<rparr>"
  obtain m cs where r: "text_input_add_char malloc mfree c s =
       thn (put_char (ti_length (text_input s) + 1) 0) (ret 0) (s\<lparr>ram := m, text_input := ?t\<rparr>)"
    and b: "text_buffer (s\<lparr>ram := m\<rparr>) cs" "length cs = capacity s" "take (length xs + length ys + 1) cs = xs @ c # ys"
    by (rule add_char_run [OF t])
  have n: "unat (cursor_index (text_input s)) = length xs" "unat (ti_length (text_input s)) = length xs + length ys"
    using t by (auto simp: text_is_def)
  have small: "length cs < 2 ^ 32" by (rule text_buffer_small [OF b(1)])
  have u: "unat (cursor_index (text_input s) + 1) = length xs + 1" "unat (ti_length (text_input s) + 1) = length xs + length ys + 1"
    using n room small b(2) by (subst unat_add_no_wrap; simp)+
  have b': "text_buffer (s\<lparr>ram := m, text_input := ?t\<rparr>) cs" using b(1) by simp
  have i: "unat (ti_length (text_input s) + 1) < length cs" using u room b(2) by simp
  obtain m' where p: "put_char (ti_length (text_input s) + 1) 0 (s\<lparr>ram := m, text_input := ?t\<rparr>) =
      Inr ((), s\<lparr>ram := m, text_input := ?t\<rparr>\<lparr>ram := m'\<rparr>)"
    "text_buffer (s\<lparr>ram := m, text_input := ?t\<rparr>\<lparr>ram := m'\<rparr>) (cs[length xs + length ys + 1 := 0])"
    using put_char_run [OF b' i, of 0] u by auto
  let ?s = "s\<lparr>ram := m', text_input := ?t\<rparr>"
  have "text_input_add_char malloc mfree c s = Inr (0, ?s)" using r p(1) by simp
  moreover have "text_is ?s (xs @ [c]) ys"
    unfolding text_is_def by (rule exI [of _ "cs[length xs + length ys + 1 := 0]"]) (use p(2) u b(2,3) room in simp)
  moreover have "edited s ?s" by (rule editedI [where m = m' and n = "ti_length (text_input s) + 1" and c = "cursor_index (text_input s) + 1"]) simp
  ultimately show thesis by (rule that)
qed

lemma add_char_overflow:
  assumes t: "text_is s xs ys" and full: "length xs + length ys + 1 = capacity s"
    and out: "\<not> accessible s (ti_text (text_input s) + of_nat (capacity s))"
  shows "text_input_add_char malloc mfree c s = Inl Bad_Access"
proof -
  let ?t = "(text_input s)\<lparr>cursor_index := cursor_index (text_input s) + 1, ti_length := ti_length (text_input s) + 1\<rparr>"
  obtain m where r: "text_input_add_char malloc mfree c s =
       thn (put_char (ti_length (text_input s) + 1) 0) (ret 0) (s\<lparr>ram := m, text_input := ?t\<rparr>)"
    by (rule add_char_run [OF t])
  have "unat (ti_length (text_input s) + 1) = capacity s"
    using t full unat_lt_32 [of "ti_capacity (text_input s)"]
    by (subst unat_add_no_wrap) (auto simp: text_is_def capacity_def simp del: unat_lt_32)
  then have "ucast (ti_length (text_input s) + 1) = (of_nat (capacity s) :: u64)" by (metis of_nat_unat)
  then show ?thesis using r out by (simp add: put_char_def write_byte_def)
qed

lemma edited_ram: "edited s (s\<lparr>ram := m\<rparr>)"
  by (rule editedI [where m = m and n = "ti_length (text_input s)" and c = "cursor_index (text_input s)"]) simp

lemma remove_char_text:
  assumes t: "text_is s (xs @ [c]) ys"
  obtains s' where "text_input_remove_char s = Inr (0, s')" "text_is s' xs ys" "edited s s'"
proof -
  let ?c = "cursor_index (text_input s)" let ?l = "ti_length (text_input s)"
  let ?t = "(text_input s)\<lparr>ti_length := ?l - 1, cursor_index := ?c - 1\<rparr>"
  obtain bs where b: "text_buffer s bs" and n: "unat ?c = length xs + 1" "unat ?l = length xs + 1 + length ys"
    "length xs + 1 + length ys < length bs" and tk: "take (length xs + 1 + length ys) bs = xs @ c # ys"
    and z: "bs ! (length xs + 1 + length ys) = 0"
    using t by (auto simp: text_is_def)
  have bn: "bs ! j = (xs @ c # ys) ! j" if "j < length xs + 1 + length ys" for j using nth_of_take [OF tk that] n(3) by simp
  have nz: "?c \<noteq> 0" using n(1) by auto
  have u: "unat (?c - 1) = length xs" "unat (?l - 1) = length xs + length ys" using n by (subst unat_sub_no_wrap; simp)+
  have ci: "unat (?c - 1) < length bs" using u n(3) by simp
  have g: "get_char (?c - 1) s = Inr (bs ! length xs, s)" using get_char_run [OF b ci] u by simp
  show thesis
  proof (cases "ys = []")
    case True
    then have eq: "?c = ?l" using n by (simp add: word_unat_eq_iff)
    obtain m where p: "put_char (?c - 1) 0 s = Inr ((), s\<lparr>ram := m\<rparr>)" "text_buffer (s\<lparr>ram := m\<rparr>) (bs[length xs := 0])"
      using put_char_run [OF b ci, of 0] u by auto
    have "take (length xs) (bs[length xs := 0]) = xs"
      by (rule take_eqI) (use n(3) bn in \<open>auto simp: nth_append\<close>)
    then have "text_is (s\<lparr>ram := m, text_input := ?t\<rparr>) xs ys"
      unfolding text_is_def by (intro exI [of _ "bs[length xs := 0]"]) (use True p(2) u n(3) in simp)
    moreover have "text_input_remove_char s = Inr (0, s\<lparr>ram := m, text_input := ?t\<rparr>)"
      using nz g p(1) eq by (simp add: text_input_remove_char_def)
    ultimately show thesis
      by (intro that) (auto intro!: editedI [where m = m and n = "?l - 1" and c = "?c - 1"])
  next
    case False
    then have ne: "?c \<noteq> ?l" using n by auto
    have 1: "unat ?c + (unat ?l - unat ?c) \<le> length bs" "0 < unat ?c" using n by simp_all
    obtain m cs where r: "shift_left (unat ?l - unat ?c) ?c s = Inr ((), s\<lparr>ram := m\<rparr>)" "text_buffer (s\<lparr>ram := m\<rparr>) cs"
      "length cs = length bs"
      "\<And>j. j < length bs \<Longrightarrow> cs ! j = (if length xs \<le> j \<and> j < length xs + length ys then bs ! (j + 1) else bs ! j)"
      using shift_left_run [OF b 1] n(1,2) by auto
    let ?s = "s\<lparr>ram := m, text_input := (text_input s)\<lparr>ti_length := ?l - 1\<rparr>\<rparr>"
    have b2: "text_buffer ?s cs" using r(2) by simp
    have li: "unat (?l - 1) < length cs" using u r(3) n(3) by simp
    obtain m' where p: "put_char (?l - 1) 0 ?s = Inr ((), ?s\<lparr>ram := m'\<rparr>)"
      "text_buffer (?s\<lparr>ram := m'\<rparr>) (cs[length xs + length ys := 0])"
      using put_char_run [OF b2 li, of 0] u by auto
    have "take (length xs + length ys) (cs[length xs + length ys := 0]) = xs @ ys"
    proof (rule take_eqI)
      fix j assume j: "j < length xs + length ys"
      have "cs ! j = (xs @ ys) ! j" using r(4) [of j] j n(3) bn [of j] bn [of "j + 1"] by (auto simp: nth_append)
      then show "cs[length xs + length ys := 0] ! j = (xs @ ys) ! j" using j by simp
    qed (use r(3) n(3) in simp_all)
    then have "text_is (s\<lparr>ram := m', text_input := ?t\<rparr>) xs ys"
      unfolding text_is_def by (intro exI [of _ "cs[length xs + length ys := 0]"]) (use p(2) u r(3) n(3) in simp)
    moreover have "text_input_remove_char s = Inr (0, s\<lparr>ram := m', text_input := ?t\<rparr>)"
      using nz g p(1) r(1) ne by (simp add: text_input_remove_char_def)
    ultimately show thesis
      by (intro that) (auto intro!: editedI [where m = m' and n = "?l - 1" and c = "?c - 1"])
  qed
qed

lemma remove_char_start:
  assumes "text_is s [] ys" shows "text_input_remove_char s = Inr (0, s)"
proof -
  have "cursor_index (text_input s) = 0" using assms by (auto simp: text_is_def unat_eq_0)
  then show ?thesis by (simp add: text_input_remove_char_def)
qed

text \<open>What an edit means: the cursor goes to a place inside of the text, or stays.\<close>

fun edit_text :: "edit \<Rightarrow> u8 list \<times> u8 list \<Rightarrow> u8 list \<times> u8 list" where
  "edit_text (Add_Char c) (xs, ys) = (xs @ [c], ys)"
| "edit_text Remove_Char (xs, ys) = (butlast xs, ys)"
| "edit_text (Move_Cursor dx) (xs, ys) =
     (let k = int (length xs) + sint dx in
      if 0 \<le> k \<and> k \<le> int (length xs + length ys) then (take (nat k) (xs @ ys), drop (nat k) (xs @ ys)) else (xs, ys))"

lemma sint_range: "- 2147483648 \<le> sint (x :: i32)" "sint (x :: i32) < 2147483648"
  using sint_ge [of x] sint_lt [of x] by simp_all

lemma sint_sum:
  assumes n: "n < 2 ^ 31"
  shows "sint (of_nat n + dx :: i32) = (let k = int n + sint dx in if k < 2 ^ 31 then k else k - 2 ^ 32)"
proof -
  define k where "k = int n + sint dx"
  have eq: "(of_nat n + dx :: i32) = word_of_int k" by (simp add: k_def)
  have lo: "- (2 ^ 31) \<le> k" "k < 2 ^ 32" using sint_range [of dx] n by (simp_all add: k_def)
  show ?thesis
  proof (cases "k < 2 ^ 31")
    case True
    then show ?thesis using lo unfolding k_def [symmetric] eq Let_def
      by (simp add: sint_uint signed_take_bit_int_eq_self unsigned_of_int signed_take_bit_take_bit)
  next
    case False
    have "take_bit (Suc 31) k = take_bit (Suc 31) (k - 2 ^ 32)" by (simp add: take_bit_eq_mod)
    then have "signed_take_bit 31 k = signed_take_bit 31 (k - 2 ^ 32)" by (simp only: signed_take_bit_eq_iff_take_bit_eq)
    also have "\<dots> = k - 2 ^ 32" using False lo by (intro signed_take_bit_int_eq_self) simp_all
    finally have "sint (word_of_int k :: i32) = k - 2 ^ 32" by (simp add: signed_of_int)
    then show ?thesis using False unfolding k_def [symmetric] eq Let_def by simp
  qed
qed

lemma move_cursor_text:
  assumes t: "text_is s xs ys" and small: "capacity s < 2 ^ 31"
  obtains s' where "text_input_move_cursor dx s = Inr (0, s')"
    "case edit_text (Move_Cursor dx) (xs, ys) of (xs', ys') \<Rightarrow> text_is s' xs' ys'" "edited s s'"
proof -
  let ?c = "cursor_index (text_input s)"
  define k where "k = int (length xs) + sint dx"
  obtain bs where b: "text_buffer s bs" and n: "unat ?c = length xs" "unat (ti_length (text_input s)) = length xs + length ys"
    "length xs + length ys < length bs" and tk: "take (length xs + length ys) bs = xs @ ys"
    and z: "bs ! (length xs + length ys) = 0"
    using t by (auto simp: text_is_def)
  have l: "length xs + length ys < 2 ^ 31" using n(3) b small by (simp add: text_buffer_def capacity_def)
  have c: "?c = of_nat (length xs)" by (simp flip: n(1))
  have s: "sint (?c + dx) = (if k < 2 ^ 31 then k else k - 2 ^ 32)"
    unfolding c k_def using sint_sum [of "length xs" dx] l by (simp add: Let_def)
  have neg: "?c + dx <s 0 \<longleftrightarrow> k < 0 \<or> 2 ^ 31 \<le> k"
    using s sint_range [of dx] l by (auto simp: word_sless_alt k_def)
  have u: "unat (?c + dx) = nat k" if "0 \<le> k" "k < 2 ^ 31"
  proof -
    have "?c + dx = of_nat (nat k)" unfolding c using that by (simp add: k_def)
    then have "unat (?c + dx) = unat (of_nat (nat k) :: u32)" by (simp only:)
    also have "\<dots> = nat k" using that by (simp add: take_bit_int_eq_self unsigned_of_int)
    finally show ?thesis .
  qed
  show thesis
  proof (cases "0 \<le> k \<and> k \<le> int (length xs + length ys)")
    case True
    then have ok: "\<not> ?c + dx <s 0" "unat (?c + dx) = nat k" using neg u l by auto
    have "nat k \<le> length xs + length ys" using True by linarith
    then have le: "\<not> ?c + dx > ti_length (text_input s)" using ok(2) n(2) by (simp add: word_less_nat_alt)
    define us where "us = take (nat k) (xs @ ys)" define vs where "vs = drop (nat k) (xs @ ys)"
    have uv: "us @ vs = xs @ ys" "length us = nat k" using \<open>nat k \<le> length xs + length ys\<close>
      unfolding us_def vs_def append_take_drop_id by simp_all
    have lv: "length us + length vs = length xs + length ys" using arg_cong [OF uv(1), of length] by simp
    have tx: "text_is (s\<lparr>text_input := (text_input s)\<lparr>cursor_index := ?c + dx\<rparr>\<rparr>) us vs"
      unfolding text_is_def lv uv(1) by (rule exI [of _ bs]) (use b n tk z ok(2) uv(2) in simp)
    note tx = tx [unfolded us_def vs_def]
    show thesis
    proof (cases "dx = 0")
      case True
      then have "k = int (length xs)" by (simp add: k_def)
      then show thesis using True t by (intro that [of s]) (auto simp: text_input_move_cursor_def edited_refl)
    next
      case False
      then show thesis using True ok le tx
        by (intro that [of "s\<lparr>text_input := (text_input s)\<lparr>cursor_index := ?c + dx\<rparr>\<rparr>"])
           (auto simp: text_input_move_cursor_def k_def Let_def intro!: editedI [where m = "ram s" and n = "ti_length (text_input s)" and c = "?c + dx"])
    qed
  next
    case False
    then have "?c + dx <s 0 \<or> ?c + dx > ti_length (text_input s)"
      using neg u n(2) by (auto simp: word_less_nat_alt not_le)
    then have "text_input_move_cursor dx s = Inr (0, s)" by (auto simp: text_input_move_cursor_def)
    then show thesis using False t by (intro that [of s]) (auto simp: k_def Let_def edited_refl)
  qed
qed

lemma perform_text:
  assumes t: "text_is s xs ys" and small: "capacity s < 2 ^ 31"
    and room: "length xs + length ys + 1 < capacity s"
  obtains s' where "perform malloc mfree e s = Inr (0, s')"
    "case edit_text e (xs, ys) of (xs', ys') \<Rightarrow> text_is s' xs' ys'" "edited s s'"
proof (cases e)
  case (Add_Char c)
  from add_char_text [OF t room, of malloc mfree c] that Add_Char show thesis by (auto simp: perform_def)
next
  case Remove_Char
  show thesis
  proof (cases xs rule: rev_cases)
    case Nil
    then show thesis using remove_char_start t Remove_Char
      by (intro that [of s]) (auto simp: perform_def edited_refl)
  next
    case (snoc xs' c)
    from remove_char_text [OF t [unfolded snoc]] that Remove_Char snoc show thesis by (auto simp: perform_def)
  qed
next
  case (Move_Cursor dx)
  from move_cursor_text [OF t small, of dx] that Move_Cursor show thesis by (auto simp: perform_def)
qed

section \<open>Keys\<close>

lemma key_edits_single: "length (key_edits scancode shift) \<le> 1"
proof -
  define n where "n = unat scancode"
  have eq: "scancode = numeral k \<longleftrightarrow> n = unat (numeral k :: u8)" "numeral k \<le> scancode \<longleftrightarrow> unat (numeral k :: u8) \<le> n"
    "scancode \<le> numeral k \<longleftrightarrow> n \<le> unat (numeral k :: u8)" for k
    by (simp_all add: n_def word_unat_eq_iff word_le_nat_alt)
  have a: "4 \<le> n \<and> n \<le> 29 \<or> 30 \<le> n \<and> n \<le> 39 \<or> 40 \<le> n \<or> n < 4" by linarith
  show ?thesis
    unfolding key_edits_def eq by (cases shift; use a in \<open>elim disjE\<close>; simp; auto)
qed

text \<open>What an event means for the text and for the shift key.\<close>

definition is_shift :: "u8 \<Rightarrow> bool" where
  "is_shift k \<longleftrightarrow> k = KEY_LEFTSHIFT \<or> k = KEY_RIGHTSHIFT"

fun event_text :: "input_device_event \<Rightarrow> (u8 list \<times> u8 list) \<times> bool \<Rightarrow> (u8 list \<times> u8 list) \<times> bool" where
  "event_text (KEY_DOWN_EVENT k) (t, shift) = (fold edit_text (key_edits k shift) t, shift \<or> is_shift k)"
| "event_text (KEY_UP_EVENT k) (t, shift) = (t, shift \<and> \<not> is_shift k)"
| "event_text _ (t, shift) = (t, shift)"

lemma edit_text_length: "length (fst (edit_text e (xs, ys))) + length (snd (edit_text e (xs, ys))) \<le> length xs + length ys + 1"
proof (cases e)
  case (Move_Cursor dx)
  have "length (take n (xs @ ys)) + length (drop n (xs @ ys)) = length xs + length ys" for n
    by (metis append_take_drop_id length_append)
  then show ?thesis using Move_Cursor by (simp add: Let_def del: length_take length_drop)
qed auto

lemma text_is_set [simp]:
  "ti_text t = ti_text (text_input s) \<Longrightarrow> ti_capacity t = ti_capacity (text_input s) \<Longrightarrow> cursor_index t = cursor_index (text_input s) \<Longrightarrow>
     ti_length t = ti_length (text_input s) \<Longrightarrow> text_is (s\<lparr>text_input := t\<rparr>) xs ys = text_is s xs ys"
  by (simp add: text_is_def)

text \<open>The text, the shift key, and the size of the buffer.\<close>

definition input_is :: "('h, 'z) text_mem_scheme \<Rightarrow> (u8 list \<times> u8 list) \<times> bool \<Rightarrow> nat \<Rightarrow> bool" where
  "input_is s a n \<longleftrightarrow> text_is s (fst (fst a)) (snd (fst a)) \<and> shift_down (text_input s) = snd a \<and> capacity s = n"

definition text_size :: "(u8 list \<times> u8 list) \<times> bool \<Rightarrow> nat" where
  "text_size a = length (fst (fst a)) + length (snd (fst a))"

lemma text_input_event_run:
  assumes t: "input_is s a n" and n: "n < 2 ^ 31" "text_size a + 1 < n"
  obtains s' where "text_input_event malloc mfree e s = Inr ((), s')" "input_is s' (event_text e a) n"
    "text_size (event_text e a) \<le> text_size a + 1"
proof -
  obtain xs ys shift where a: "a = ((xs, ys), shift)" by (metis prod.exhaust_sel)
  have t': "text_is s xs ys" "shift_down (text_input s) = shift" "capacity s = n"
    and l: "length xs + length ys + 1 < n" using t n by (simp_all add: input_is_def text_size_def a)
  show thesis
  proof (cases e)
    case (KEY_DOWN_EVENT k)
    let ?s = "if is_shift k then s\<lparr>text_input := (text_input s)\<lparr>shift_down := True\<rparr>\<rparr> else s"
    have s: "text_is ?s xs ys" "shift_down (text_input ?s) = (shift \<or> is_shift k)" "capacity ?s = n"
      using t' by (simp_all add: capacity_def)
    have run: "text_input_event malloc mfree e s = perform_all malloc mfree (key_edits k shift) ?s"
      using t'(2) KEY_DOWN_EVENT by (simp add: text_input_event_def is_shift_def)
    show thesis
    proof (cases "key_edits k shift")
      case Nil
      then show thesis using run s KEY_DOWN_EVENT by (intro that [of ?s]) (simp_all add: input_is_def text_size_def a)
    next
      case (Cons d ds)
      then have ds: "key_edits k shift = [d]" using key_edits_single [of k shift] by simp
      obtain s' where p: "perform malloc mfree d ?s = Inr (0, s')"
        "case edit_text d (xs, ys) of (xs', ys') \<Rightarrow> text_is s' xs' ys'" "edited ?s s'"
        by (rule perform_text [OF s(1), of malloc mfree d]) (use s(3) n(1) l in auto)
      show thesis
      proof (rule that)
        show "text_input_event malloc mfree e s = Inr ((), s')" using run ds p(1) by simp
        show "input_is s' (event_text e a) n"
          using p(2) edited_capacity [OF p(3)] s KEY_DOWN_EVENT ds
          by (auto simp: input_is_def a split: prod.splits)
        show "text_size (event_text e a) \<le> text_size a + 1"
          using edit_text_length [of d xs ys] KEY_DOWN_EVENT ds by (simp add: a text_size_def)
      qed
    qed
  next
    case (KEY_UP_EVENT k)
    let ?s = "if is_shift k then s\<lparr>text_input := (text_input s)\<lparr>shift_down := False\<rparr>\<rparr> else s"
    show thesis using KEY_UP_EVENT t'
      by (intro that [of ?s]) (auto simp: text_input_event_def is_shift_def input_is_def a text_size_def capacity_def)
  qed (use t' in \<open>auto intro!: that [of s] simp: text_input_event_def input_is_def a text_size_def\<close>)
qed

section \<open>The properties\<close>

text \<open>C26: The text that is edited is the text that was meant. From a buffer that holds the text \<open>xs\<close> before
  and \<open>ys\<close> behind the cursor, the loop over the key events leaves a terminated buffer that holds what the
  same keys make of the two lists: a character goes before the cursor, backspace removes the one before
  it, the arrows move it inside of the text, and a shift key holds until it is released. This is so as
  long as every event could enter a character and leave one byte for the terminator.\<close>

theorem text_input_update_correct:
  assumes "text_is s xs ys" "capacity s < 2 ^ 31" "length xs + length ys + length es < capacity s"
  shows "\<exists>s'. text_input_update_events malloc mfree es s = Inr ((), s') \<and>
    (case fold event_text es ((xs, ys), shift_down (text_input s)) of ((xs', ys'), shift') \<Rightarrow>
       text_is s' xs' ys' \<and> shift_down (text_input s') = shift') \<and> capacity s' = capacity s"
proof -
  have "\<exists>s'. text_input_update_events malloc mfree es s = Inr ((), s') \<and> input_is s' (fold event_text es a) (capacity s)"
    if "input_is s a n" "n < 2 ^ 31" "text_size a + length es < n" for a n
    using that
  proof (induction es arbitrary: s a)
    case Nil
    then show ?case by (auto simp: input_is_def)
  next
    case (Cons e es)
    have c: "capacity s = n" using Cons.prems(1) by (simp add: input_is_def)
    show ?case
    proof (cases es)
      case Nil
      show ?thesis
      proof (cases "text_size a + 1 < n")
        case True
        from text_input_event_run [OF Cons.prems(1,2) this, of malloc mfree e] obtain s' where
          "text_input_event malloc mfree e s = Inr ((), s')" "input_is s' (event_text e a) n" by metis
        then show ?thesis using Nil c by auto
      next
        case False
        then show ?thesis using Cons.prems(3) by simp
      qed
    next
      case (Cons e' es')
      then have "text_size a + 1 < n" using Cons.prems(3) by simp
      from text_input_event_run [OF Cons.prems(1,2) this, of malloc mfree e] obtain s' where
        s': "text_input_event malloc mfree e s = Inr ((), s')" "input_is s' (event_text e a) n"
        "text_size (event_text e a) \<le> text_size a + 1" by metis
      have "capacity s' = n" using s'(2) by (simp add: input_is_def)
      moreover have "text_size (event_text e a) + length es < n" using s'(3) Cons.prems(3) by simp
      from Cons.IH [OF s'(2) Cons.prems(2) this] obtain s'' where
        "text_input_update_events malloc mfree es s' = Inr ((), s'')"
        "input_is s'' (fold event_text es (event_text e a)) (capacity s')" by blast
      ultimately show ?thesis using s'(1) c by auto
    qed
  qed
  from this [of "((xs, ys), shift_down (text_input s))" "capacity s"] assms show ?thesis
    by (fastforce simp: input_is_def text_size_def split: prod.splits)
qed

definition sample_text :: "unit text_mem" where
  "sample_text = \<lparr>kalloc = (), ram = (\<lambda>a. if a = 0x1000 then 0x68 else if a = 0x1001 then 0x6F else 0),
     accessible = (\<lambda>a. a - 0x1000 < 8), raw = [0x1000 \<mapsto> 8],
     text_input = \<lparr>ti_text = 0x1000, ti_length = 2, ti_capacity = 8, cursor_index = 2, shift_down = False\<rparr>\<rparr>"

lemma sample_text_is: "text_is sample_text [0x68, 0x6F] []"
proof -
  have "can_access sample_text 0x1000 8"
    by (simp add: can_access_def sample_text_def) (auto simp: region_def word_less_nat_alt unat_of_nat_64)
  moreover have "bytes_at (ram sample_text) 0x1000 8 = [0x68, 0x6F, 0, 0, 0, 0, 0, 0]"
    by (simp add: bytes_at_def sample_text_def upt_conv_Cons)
  moreover have "length [0x68, 0x6F, 0, 0, 0, 0, 0, 0 :: u8] = 8" by simp
  ultimately have "text_buffer sample_text [0x68, 0x6F, 0, 0, 0, 0, 0, 0]"
    unfolding text_buffer_def by (simp only:) (simp add: sample_text_def)
  then show ?thesis unfolding text_is_def by (intro exI [of _ "[0x68, 0x6F, 0, 0, 0, 0, 0, 0]"]) (simp add: sample_text_def)
qed

text \<open>The keys left, i with shift, right and backspace.\<close>

theorem text_input_update_correct_witness:
  "\<exists>s'. text_input_update_events (\<lambda>_. ret 0) (\<lambda>_. ret ()) [KEY_DOWN_EVENT 0x50, KEY_DOWN_EVENT 0xe1, KEY_DOWN_EVENT 0x0c,
     KEY_UP_EVENT 0xe1, KEY_DOWN_EVENT 0x0c] sample_text = Inr ((), s') \<and> text_is s' [0x68, 0x49, 0x69] [0x6F]"
proof -
  let ?es = "[KEY_DOWN_EVENT 0x50, KEY_DOWN_EVENT 0xe1, KEY_DOWN_EVENT 0x0c, KEY_UP_EVENT 0xe1, KEY_DOWN_EVENT 0x0c]"
  have c: "capacity sample_text = 8" by (simp add: capacity_def sample_text_def)
  have f: "fold event_text ?es (([0x68, 0x6F], []), shift_down (text_input sample_text)) = (([0x68, 0x49, 0x69], [0x6F]), False)"
    by (simp add: sample_text_def key_edits_def is_shift_def)
  have "capacity sample_text < 2 ^ 31" "length [0x68, 0x6F :: u8] + length ([] :: u8 list) + length ?es < capacity sample_text"
    using c by simp_all
  from text_input_update_correct [OF sample_text_is this, of "\<lambda>_. ret 0" "\<lambda>_. ret ()"] show ?thesis
    unfolding f by auto
qed

text \<open>C27: The last byte of the buffer is never reached safely. When the text fills the buffer but for one
  byte, the next character fits and the buffer is not grown, but the terminator is then written behind
  the end of the buffer, where in the heap of the program the header of the next block begins.\<close>

theorem text_input_overflow:
  assumes "text_is s xs ys" "length xs + length ys + 1 = capacity s"
    and "\<not> accessible s (ti_text (text_input s) + of_nat (capacity s))" "key_edits k (shift_down (text_input s)) = [Add_Char c]"
    and "\<not> is_shift k"
  shows "text_input_event malloc mfree (KEY_DOWN_EVENT k) s = Inl Bad_Access"
  using add_char_overflow [OF assms(1-3), of malloc mfree c] assms(4,5)
  by (simp add: text_input_event_def perform_def is_shift_def)

theorem text_input_overflow_witness:
  "text_input_event (\<lambda>_. ret 0) (\<lambda>_. ret ()) (KEY_DOWN_EVENT 0x0c)
     (sample_text\<lparr>text_input := (text_input sample_text)\<lparr>ti_capacity := 3\<rparr>, accessible := (\<lambda>a. a - 0x1000 < 3)\<rparr>) = Inl Bad_Access"
proof -
  let ?s = "sample_text\<lparr>text_input := (text_input sample_text)\<lparr>ti_capacity := 3\<rparr>, accessible := (\<lambda>a. a - 0x1000 < 3)\<rparr>"
  have "can_access ?s 0x1000 3"
    by (simp add: can_access_def sample_text_def) (auto simp: region_def word_less_nat_alt unat_of_nat_64)
  moreover have "bytes_at (ram ?s) 0x1000 3 = [0x68, 0x6F, 0]"
    by (simp add: bytes_at_def sample_text_def upt_conv_Cons)
  moreover have "length [0x68, 0x6F, 0 :: u8] = 3" by simp
  ultimately have "text_buffer ?s [0x68, 0x6F, 0]" unfolding text_buffer_def by (simp only:) (simp add: sample_text_def)
  then have t: "text_is ?s [0x68, 0x6F] []" unfolding text_is_def
    by (intro exI [of _ "[0x68, 0x6F, 0]"]) (simp add: sample_text_def)
  have 1: "length [0x68, 0x6F :: u8] + length ([] :: u8 list) + 1 = capacity ?s"
    "\<not> accessible ?s (ti_text (text_input ?s) + of_nat (capacity ?s))" "\<not> is_shift 0x0c"
    by (simp_all add: capacity_def sample_text_def is_shift_def)
  have "key_edits 0x0c (shift_down (text_input ?s)) = [Add_Char 0x69]" by (simp add: key_edits_def sample_text_def)
  from text_input_overflow [OF t 1(1,2) this 1(3)] show ?thesis .
qed

text \<open>C28: The digit 0 cannot be typed. No key, with or without shift, enters the character \<open>0\<close>; the key 0
  lies behind the key 9 and enters the character behind \<open>9\<close>, a colon, while the other digits are right.\<close>

theorem no_key_types_zero:
  "Add_Char (ascii CHR ''0'') \<notin> set (key_edits k shift) \<and> key_edits KEY_0 False = [Add_Char (ascii CHR '':'')] \<and>
   map (\<lambda>i. key_edits (KEY_1 + of_nat i) False) [0..<9] = map (\<lambda>d. [Add_Char (ascii d)]) ''123456789''"
proof (intro conjI)
  show "Add_Char (ascii CHR ''0'') \<notin> set (key_edits k shift)"
    by (cases shift) (auto simp: key_edits_def add_eq_0_iff split: if_splits)
  show "key_edits KEY_0 False = [Add_Char (ascii CHR '':'')]" by (simp add: key_edits_def)
  show "map (\<lambda>i. key_edits (KEY_1 + of_nat i) False) [0..<9] = map (\<lambda>d. [Add_Char (ascii d)]) ''123456789''"
    by (simp add: key_edits_def upt_conv_Cons)
qed

end
