(* ===== verification/Graphics.thy ===== *)
theory Graphics
  imports Objects
begin

text \<open>
  \<open>libraries/libgfx/bitmap.c\<close> and \<open>paint.c\<close>: bitmaps and the painting of rectangles, bitmaps and
  glyphs into them. A pixel is a \<open>uint32_t\<close> in the bytes of the bitmap. Coordinates are signed, sizes
  unsigned 32-bit numbers, and sums of the two are taken modulo \<open>2 ^ 32\<close>.
\<close>

section \<open>Bitmaps\<close>

datatype pixel_format = BITMAP_PIXEL_FORMAT_RGB32

record bitmap =
  bm_data :: u64
  bm_width :: u32
  bm_height :: u32
  bm_stride :: u32
  bm_pixel_format :: pixel_format
  is_data_owned :: bool

record 'h gfx_mem = "'h kmem" +
  bitmaps :: "u64 \<rightharpoonup> bitmap"

definition BITMAP_SIZE :: u64 where "BITMAP_SIZE = 32"

definition bitmap_pixel_format_size :: "pixel_format \<Rightarrow> u32" where
  "bitmap_pixel_format_size f = (case f of BITMAP_PIXEL_FORMAT_RGB32 \<Rightarrow> 4)"

definition bitmap_create ::
  "'h malloc_fn \<Rightarrow> 'h free_fn \<Rightarrow> u32 \<Rightarrow> u32 \<Rightarrow> pixel_format \<Rightarrow> (('h, 'z) gfx_mem_scheme, u64) prog" where
  "bitmap_create malloc mfree w h format =
     bnd (new_object malloc BITMAP_SIZE bitmaps_update \<lparr>bm_data = NULL, bm_width = 0, bm_height = 0, bm_stride = 0,
            bm_pixel_format = format, is_data_owned = False\<rparr>) (\<lambda>bitmap.
     if bitmap = NULL then ret NULL
     else let stride = w * bitmap_pixel_format_size format in
       bnd (new_buffer malloc (ucast (h * stride))) (\<lambda>data.
       if data = NULL then thn (free_object mfree bitmaps_update bitmap) (ret NULL)
       else thn (assign bitmaps bitmaps_update bitmap (\<lambda>_. \<lparr>bm_data = data, bm_width = w, bm_height = h,
                   bm_stride = stride, bm_pixel_format = format, is_data_owned = True\<rparr>))
                (ret bitmap)))"

definition bitmap_from_data ::
  "'h malloc_fn \<Rightarrow> u64 \<Rightarrow> u32 \<Rightarrow> u32 \<Rightarrow> pixel_format \<Rightarrow> (('h, 'z) gfx_mem_scheme, u64) prog" where
  "bitmap_from_data malloc data w h format =
     new_object malloc BITMAP_SIZE bitmaps_update \<lparr>bm_data = data, bm_width = w, bm_height = h,
       bm_stride = w * bitmap_pixel_format_size format, bm_pixel_format = format, is_data_owned = False\<rparr>"

definition bitmap_destroy :: "'h free_fn \<Rightarrow> u64 \<Rightarrow> (('h, 'z) gfx_mem_scheme, unit) prog" where
  "bitmap_destroy mfree bitmap =
     bnd (deref bitmaps bitmap) (\<lambda>b.
     thn (if is_data_owned b then free_buffer mfree (bm_data b) else ret ())
         (free_object mfree bitmaps_update bitmap))"

section \<open>Pixels\<close>

text \<open>The address \<open>&data[x * pixel_size + y * stride]\<close>; the index is computed in 32 bits.\<close>

definition pixel_address :: "bitmap \<Rightarrow> u32 \<Rightarrow> u32 \<Rightarrow> u64" where
  "pixel_address b x y = bm_data b + ucast (x * bitmap_pixel_format_size (bm_pixel_format b) + y * bm_stride b)"

definition get_pixel :: "bitmap \<Rightarrow> u32 \<Rightarrow> u32 \<Rightarrow> (('h, 'z) kmem_scheme, u32) prog" where
  "get_pixel b x y = bnd (read_bytes 4 (pixel_address b x y)) (\<lambda>bs. ret (ucast (of_le_bytes bs)))"

definition put_pixel :: "bitmap \<Rightarrow> u32 \<Rightarrow> u32 \<Rightarrow> u32 \<Rightarrow> (('h, 'z) kmem_scheme, unit) prog" where
  "put_pixel b x y color = write_bytes (pixel_address b x y) (le_bytes 4 (ucast color))"

text \<open>\<open>for (uint32_t i = ...; ...; i++)\<close> with the number of rounds that are left.\<close>

fun for_up :: "nat \<Rightarrow> u32 \<Rightarrow> (u32 \<Rightarrow> ('s, unit) prog) \<Rightarrow> ('s, unit) prog" where
  "for_up 0 i body = ret ()"
| "for_up (Suc n) i body = thn (body i) (for_up n (i + 1) body)"

text \<open>Whether a point is clipped away.\<close>

definition clipped :: "bitmap \<Rightarrow> i32 \<Rightarrow> i32 \<Rightarrow> bool" where
  "clipped b x y \<longleftrightarrow> x <s 0 \<or> y <s 0 \<or> x \<ge> bm_width b \<or> y \<ge> bm_height b"

section \<open>Painting\<close>

partial_function (option) clear_row ::
  "bitmap \<Rightarrow> u32 \<Rightarrow> u32 \<Rightarrow> u32 \<Rightarrow> ('h, 'z) kmem_scheme \<Rightarrow> (fault + unit \<times> ('h, 'z) kmem_scheme) option" where
  "clear_row b x y color s =
     (if x < bm_stride b
      then (case write_bytes (bm_data b + ucast (x + y * bm_stride b)) (le_bytes 4 (ucast color)) s of
              Inl e \<Rightarrow> Some (Inl e)
            | Inr (_, s') \<Rightarrow> clear_row b (x + bitmap_pixel_format_size (bm_pixel_format b)) y color s')
      else Some (Inr ((), s)))"

definition paint_clear :: "bitmap \<Rightarrow> u32 \<Rightarrow> (('h, 'z) kmem_scheme, unit) prog" where
  "paint_clear b color = for_up (unat (bm_height b)) 0 (\<lambda>y s. loop (clear_row b 0 y color s))"

definition paint_fill_rect ::
  "bitmap \<Rightarrow> i32 \<Rightarrow> i32 \<Rightarrow> u32 \<Rightarrow> u32 \<Rightarrow> u32 \<Rightarrow> (('h, 'z) kmem_scheme, unit) prog" where
  "paint_fill_rect b x y w h color =
     for_up (unat h) 0 (\<lambda>i. for_up (unat w) 0 (\<lambda>j.
       let x0 = x + j; y0 = y + i in
       if clipped b x0 y0 then ret () else put_pixel b x0 y0 color))"

definition paint_draw_rect ::
  "bitmap \<Rightarrow> i32 \<Rightarrow> i32 \<Rightarrow> u32 \<Rightarrow> u32 \<Rightarrow> u32 \<Rightarrow> (('h, 'z) kmem_scheme, unit) prog" where
  "paint_draw_rect b x y w h color =
     thn (paint_fill_rect b x y w 1 color)
    (thn (paint_fill_rect b x (y + h - 1) w 1 color)
    (thn (paint_fill_rect b x y 1 h color)
         (paint_fill_rect b (x + w - 1) y 1 h color)))"

definition paint_blit_bitmap :: "bitmap \<Rightarrow> bitmap \<Rightarrow> i32 \<Rightarrow> i32 \<Rightarrow> (('h, 'z) kmem_scheme, unit) prog" where
  "paint_blit_bitmap dst src x y =
     for_up (unat (bm_height src)) 0 (\<lambda>i. for_up (unat (bm_width src)) 0 (\<lambda>j.
       let x0 = x + j; y0 = y + i in
       if clipped dst x0 y0 then ret ()
       else bnd (get_pixel src j i) (put_pixel dst x0 y0)))"

definition paint_blit_bitmap_rect ::
  "bitmap \<Rightarrow> bitmap \<Rightarrow> i32 \<Rightarrow> i32 \<Rightarrow> u32 \<Rightarrow> u32 \<Rightarrow> (('h, 'z) kmem_scheme, unit) prog" where
  "paint_blit_bitmap_rect dst src src_x src_y src_width src_height =
     for_up (unat src_height) 0 (\<lambda>i. for_up (unat src_width) 0 (\<lambda>j.
       let x0 = src_x + j; y0 = src_y + i in
       if clipped dst x0 y0 then ret ()
       else bnd (get_pixel src x0 y0) (put_pixel dst x0 y0)))"

definition blend_colors :: "u32 \<Rightarrow> u32 \<Rightarrow> u32 \<Rightarrow> u32" where
  "blend_colors src_color dst_color alpha =
     (let inv_alpha = 255 - alpha;
          channel = (\<lambda>n. ((drop_bit n src_color AND 0xFF) * alpha + (drop_bit n dst_color AND 0xFF) * inv_alpha) div 255)
      in push_bit 16 (channel 16) OR push_bit 8 (channel 8) OR channel 0)"

definition paint_draw_alpha_bitmap_scaled ::
  "bitmap \<Rightarrow> u64 \<Rightarrow> u32 \<Rightarrow> u32 \<Rightarrow> u32 \<Rightarrow> u32 \<Rightarrow> u32 \<Rightarrow> u32 \<Rightarrow> u32 \<Rightarrow> u32 \<Rightarrow> u32 \<Rightarrow> u32
     \<Rightarrow> (('h, 'z) kmem_scheme, unit) prog" where
  "paint_draw_alpha_bitmap_scaled b src_bitmap src_stride src_x src_y src_width src_height dst_x dst_y dst_width
     dst_height color =
     for_up (unat dst_height) 0 (\<lambda>dy.
       let src_y0 = src_y + (dy * src_height) div dst_height in
       for_up (unat dst_width) 0 (\<lambda>dx.
         let src_x0 = src_x + (dx * src_width) div dst_width in
         bnd (read_byte (src_bitmap + ucast (src_x0 + src_y0 * src_stride))) (\<lambda>alpha.
         if alpha = 0 then ret ()
         else let dst_x0 = dst_x + dx; dst_y0 = dst_y + dy in
           if clipped b dst_x0 dst_y0 then ret ()
           else bnd (get_pixel b dst_x0 dst_y0) (\<lambda>existing_color.
             put_pixel b dst_x0 dst_y0 (blend_colors color existing_color (ucast alpha))))))"

definition paint_swap_buffers :: "bitmap \<Rightarrow> bitmap \<Rightarrow> (('h, 'z) kmem_scheme, unit) prog" where
  "paint_swap_buffers b back =
     thn (kassert (bm_pixel_format b = bm_pixel_format back))
    (thn (kassert (bm_pixel_format b = BITMAP_PIXEL_FORMAT_RGB32))
    (for_up (unat (bm_width b * bm_height b)) 0 (\<lambda>i.
       bnd (read_bytes 4 (bm_data back + ucast i * 4)) (\<lambda>bs. write_bytes (bm_data b + ucast i * 4) bs))))"

section \<open>The picture in a bitmap\<close>

definition bitmap_bytes :: "bitmap \<Rightarrow> nat" where
  "bitmap_bytes b = unat (bm_stride b) * unat (bm_height b)"

text \<open>A bitmap whose rows lie one behind the other in memory that exists.\<close>

definition bitmap_ok :: "('h, 'z) kmem_scheme \<Rightarrow> bitmap \<Rightarrow> bool" where
  "bitmap_ok s b \<longleftrightarrow> unat (bm_stride b) = 4 * unat (bm_width b) \<and> bitmap_bytes b < 2 ^ 31 \<and>
     unat (bm_width b) < 2 ^ 31 \<and> unat (bm_height b) < 2 ^ 31 \<and>
     unat (bm_data b) + bitmap_bytes b \<le> 2 ^ 64 \<and> can_access s (bm_data b) (bitmap_bytes b)"

definition pixel :: "('h, 'z) kmem_scheme \<Rightarrow> bitmap \<Rightarrow> u32 \<Rightarrow> u32 \<Rightarrow> u32" where
  "pixel s b x y = ucast (of_le_bytes (bytes_at (ram s) (pixel_address b x y) 4))"

definition on_bitmap :: "bitmap \<Rightarrow> u32 \<Rightarrow> u32 \<Rightarrow> bool" where
  "on_bitmap b x y \<longleftrightarrow> x < bm_width b \<and> y < bm_height b"

lemma pixel_format_size [simp]: "bitmap_pixel_format_size f = 4"
  by (cases f) (simp add: bitmap_pixel_format_size_def)

lemma negative_large: "(z :: i32) <s 0 \<Longrightarrow> 2 ^ 31 \<le> unat z"
proof -
  assume "z <s 0"
  then have "bit z 31" using bit_last_iff [of z] by (simp add: word_sless_alt)
  then have "bit (unat z) 31" by (simp add: bit_unsigned_iff)
  then have "odd (unat z div 2 ^ 31)" unfolding bit_iff_odd .
  then show ?thesis by (cases "unat z < 2 ^ 31") simp_all
qed

lemma clipped_iff:
  assumes "bitmap_ok s b" shows "clipped b x y \<longleftrightarrow> \<not> on_bitmap b x y"
proof -
  have sm: "unat (bm_width b) < 2 ^ 31" "unat (bm_height b) < 2 ^ 31" using assms by (simp_all add: bitmap_ok_def)
  have "\<not> x <s 0" if "x < bm_width b"
    using negative_large [of x] that sm(1) by (auto simp: word_less_nat_alt)
  moreover have "\<not> y <s 0" if "y < bm_height b"
    using negative_large [of y] that sm(2) by (auto simp: word_less_nat_alt)
  ultimately show ?thesis unfolding clipped_def on_bitmap_def by (auto simp: not_le)
qed

text \<open>The offset of a pixel in the bytes of the bitmap.\<close>

definition offset_of :: "bitmap \<Rightarrow> u32 \<Rightarrow> u32 \<Rightarrow> nat" where
  "offset_of b x y = 4 * unat x + unat y * unat (bm_stride b)"

lemma offset_in_row:
  assumes "bitmap_ok s b" "on_bitmap b x y"
  shows "offset_of b x y + 4 \<le> (unat y + 1) * unat (bm_stride b)"
  using assms by (simp add: bitmap_ok_def on_bitmap_def offset_of_def word_less_nat_alt)

lemma offset_bound:
  assumes "bitmap_ok s b" "on_bitmap b x y" shows "offset_of b x y + 4 \<le> bitmap_bytes b"
proof -
  have "unat y + 1 \<le> unat (bm_height b)" using assms(2) by (simp add: on_bitmap_def word_less_nat_alt)
  then have "(unat y + 1) * unat (bm_stride b) \<le> bitmap_bytes b"
    unfolding bitmap_bytes_def by (metis mult.commute mult_le_mono2)
  then show ?thesis using offset_in_row [OF assms] by linarith
qed

lemma pixel_address_unat:
  assumes ok: "bitmap_ok s b" and on: "on_bitmap b x y"
  shows "unat (pixel_address b x y) = unat (bm_data b) + offset_of b x y"
proof -
  have le: "offset_of b x y + 4 \<le> bitmap_bytes b" by (rule offset_bound [OF ok on])
  have sm: "bitmap_bytes b < 2 ^ 31" "unat (bm_data b) + bitmap_bytes b \<le> 2 ^ 64" using ok by (simp_all add: bitmap_ok_def)
  have "unat (x * 4) = 4 * unat x"
    by (subst unat_mult_no_wrap) (use le sm(1) in \<open>simp_all add: offset_of_def\<close>)
  moreover have "unat (y * bm_stride b) = unat y * unat (bm_stride b)"
    by (rule unat_mult_no_wrap) (use le sm(1) in \<open>simp add: offset_of_def\<close>)
  ultimately have "unat (x * 4 + y * bm_stride b) = offset_of b x y"
    by (subst unat_add_no_wrap) (use le sm(1) in \<open>simp_all add: offset_of_def\<close>)
  then have "unat (ucast (x * 4 + y * bm_stride b) :: u64) = offset_of b x y"
    using offset_bound [OF ok on] sm(1) by (simp add: unsigned_ucast_eq take_bit_nat_eq_self)
  then show ?thesis unfolding pixel_address_def pixel_format_size
    by (subst unat_add_no_wrap) (use le sm in simp_all)
qed

lemma offset_distinct:
  assumes ok: "bitmap_ok s b" and on: "on_bitmap b x y" "on_bitmap b x' y'" and ne: "(x, y) \<noteq> (x', y')"
  shows "offset_of b x y + 4 \<le> offset_of b x' y' \<or> offset_of b x' y' + 4 \<le> offset_of b x y"
proof -
  consider "unat y < unat y'" | "unat y' < unat y" | "y = y'" by (metis linorder_neqE_nat word_unat_eq_iff)
  then show ?thesis
  proof cases
    case 1
    then have "(unat y + 1) * unat (bm_stride b) \<le> unat y' * unat (bm_stride b)" by (intro mult_le_mono1) simp
    then show ?thesis using offset_in_row [OF ok on(1)] by (simp add: offset_of_def)
  next
    case 2
    then have "(unat y' + 1) * unat (bm_stride b) \<le> unat y * unat (bm_stride b)" by (intro mult_le_mono1) simp
    then show ?thesis using offset_in_row [OF ok on(2)] by (simp add: offset_of_def)
  next
    case 3
    then have "unat x \<noteq> unat x'" using ne by (simp add: word_unat_eq_iff)
    then show ?thesis using 3 by (auto simp: offset_of_def)
  qed
qed

lemma pixel_region:
  assumes ok: "bitmap_ok s b" and on: "on_bitmap b x y"
  shows "a \<in> region (pixel_address b x y) 4 \<longleftrightarrow>
    unat (bm_data b) + offset_of b x y \<le> unat a \<and> unat a < unat (bm_data b) + offset_of b x y + 4"
proof -
  have "unat (pixel_address b x y) + 4 \<le> 2 ^ 64"
    using offset_bound [OF ok on] ok by (simp add: pixel_address_unat [OF ok on] bitmap_ok_def)
  then show ?thesis by (simp add: region_bounds pixel_address_unat [OF ok on])
qed

lemma pixel_region_in:
  assumes ok: "bitmap_ok s b" and on: "on_bitmap b x y"
  shows "region (pixel_address b x y) 4 \<subseteq> region (bm_data b) (bitmap_bytes b)"
proof
  fix a assume "a \<in> region (pixel_address b x y) 4"
  then show "a \<in> region (bm_data b) (bitmap_bytes b)"
    using offset_bound [OF ok on] ok by (simp add: pixel_region [OF ok on] region_bounds bitmap_ok_def)
qed

lemma pixel_access:
  assumes "bitmap_ok s b" "on_bitmap b x y" shows "can_access s (pixel_address b x y) 4"
  using pixel_region_in [OF assms] assms(1) unfolding can_access_def bitmap_ok_def by blast

lemma get_pixel_run:
  assumes "bitmap_ok s b" "on_bitmap b x y" shows "get_pixel b x y s = Inr (pixel s b x y, s)"
  using read_bytes_run [OF pixel_access [OF assms]] by (simp add: get_pixel_def pixel_def)
section \<open>What painting does\<close>

text \<open>
  \<open>paints b P c s s'\<close>: on the bitmap exactly the pixels of \<open>P\<close> have changed, to the colours \<open>c\<close>, and
  nothing has changed outside of its bytes.
\<close>

definition only_bitmap :: "bitmap \<Rightarrow> ('h, 'z) kmem_scheme \<Rightarrow> ('h, 'z) kmem_scheme \<Rightarrow> bool" where
  "only_bitmap b s s' \<longleftrightarrow> s' = s\<lparr>ram := ram s'\<rparr> \<and>
     (\<forall>a. a \<notin> region (bm_data b) (bitmap_bytes b) \<longrightarrow> ram s' a = ram s a)"

definition paints ::
  "bitmap \<Rightarrow> (u32 \<Rightarrow> u32 \<Rightarrow> bool) \<Rightarrow> (u32 \<Rightarrow> u32 \<Rightarrow> u32) \<Rightarrow> ('h, 'z) kmem_scheme \<Rightarrow> ('h, 'z) kmem_scheme \<Rightarrow> bool" where
  "paints b P c s s' \<longleftrightarrow> only_bitmap b s s' \<and>
     (\<forall>x y. on_bitmap b x y \<longrightarrow> pixel s' b x y = (if P x y then c x y else pixel s b x y))"

lemma only_bitmap_refl [simp]: "only_bitmap b s s"
  by (simp add: only_bitmap_def)

lemma only_bitmap_ram: "only_bitmap b s s' \<Longrightarrow> \<exists>m. s' = s\<lparr>ram := m\<rparr>"
  unfolding only_bitmap_def by blast

lemma only_bitmap_trans:
  assumes "only_bitmap b s t" "only_bitmap b t u" shows "only_bitmap b s u"
proof -
  obtain m n where "t = s\<lparr>ram := m\<rparr>" "u = t\<lparr>ram := n\<rparr>" using only_bitmap_ram assms by blast
  then show ?thesis using assms unfolding only_bitmap_def by simp
qed

lemma bitmap_ok_frame: "only_bitmap b s s' \<Longrightarrow> bitmap_ok s' b' = bitmap_ok s b'"
  by (drule only_bitmap_ram) (auto simp: bitmap_ok_def)

lemma paints_only: "paints b P c s s' \<Longrightarrow> only_bitmap b s s'"
  by (simp add: paints_def)

lemma paints_none: "(\<And>x y. on_bitmap b x y \<Longrightarrow> \<not> P x y) \<Longrightarrow> paints b P c s s"
  by (simp add: paints_def)

lemma paints_trans:
  assumes "paints b P c s t" "paints b Q c t u" shows "paints b (\<lambda>x y. P x y \<or> Q x y) c s u"
  using assms unfolding paints_def by (auto intro: only_bitmap_trans)

lemma paints_cong:
  assumes "paints b P c s t" "\<And>x y. on_bitmap b x y \<Longrightarrow> P x y = Q x y" "\<And>x y. on_bitmap b x y \<Longrightarrow> Q x y \<Longrightarrow> c x y = d x y"
  shows "paints b Q d s t"
  using assms unfolding paints_def by auto

lemma color_roundtrip: "ucast (take_bit 32 (ucast c :: u64)) = (c :: u32)"
  by (rule bit_word_eqI) (auto simp: bit_ucast_iff bit_take_bit_iff)

lemma of_nat_round: "k < unat (w :: u32) \<Longrightarrow> unat (of_nat k :: u32) = k"
proof -
  assume "k < unat w"
  moreover have "unat w < 2 ^ LENGTH(32)" by (rule unsigned_less)
  ultimately show ?thesis by (simp add: unat_of_nat take_bit_nat_eq_self)
qed

lemma put_bytes_run:
  assumes ok: "bitmap_ok s b" and on: "on_bitmap b x y" and bs: "length bs = 4"
  obtains s' where "write_bytes (pixel_address b x y) bs s = Inr ((), s')"
    "paints b (\<lambda>x' y'. (x', y') = (x, y)) (\<lambda>_ _. ucast (of_le_bytes bs)) s s'"
proof -
  obtain m where m: "write_bytes (pixel_address b x y) bs s = Inr ((), s\<lparr>ram := m\<rparr>)"
    "bytes_at m (pixel_address b x y) 4 = bs" "\<forall>a. a \<notin> region (pixel_address b x y) 4 \<longrightarrow> m a = ram s a"
    using write_bytes_run [of bs s "pixel_address b x y"] pixel_access [OF ok on] bs by auto
  have same: "pixel (s\<lparr>ram := m\<rparr>) b x y = ucast (of_le_bytes bs)" by (simp add: pixel_def m(2))
  have other: "pixel (s\<lparr>ram := m\<rparr>) b x' y' = pixel s b x' y'" if "on_bitmap b x' y'" "(x', y') \<noteq> (x, y)" for x' y'
  proof -
    have "m a = ram s a" if "a \<in> region (pixel_address b x' y') 4" for a
    proof -
      have "a \<notin> region (pixel_address b x y) 4"
        using that offset_distinct [OF ok on \<open>on_bitmap b x' y'\<close>] \<open>(x', y') \<noteq> (x, y)\<close>
        by (auto simp: pixel_region [OF ok on] pixel_region [OF ok \<open>on_bitmap b x' y'\<close>])
      then show ?thesis using m(3) by simp
    qed
    then have "bytes_at m (pixel_address b x' y') 4 = bytes_at (ram s) (pixel_address b x' y') 4" by (rule bytes_at_cong)
    then show ?thesis by (simp add: pixel_def)
  qed
  have "only_bitmap b s (s\<lparr>ram := m\<rparr>)" using m(3) pixel_region_in [OF ok on] by (auto simp: only_bitmap_def)
  then have "paints b (\<lambda>x' y'. (x', y') = (x, y)) (\<lambda>_ _. ucast (of_le_bytes bs)) s (s\<lparr>ram := m\<rparr>)"
    unfolding paints_def using same other by auto
  with m(1) show thesis by (rule that)
qed

lemma put_pixel_run:
  assumes ok: "bitmap_ok s b" and on: "on_bitmap b x y"
  obtains s' where "put_pixel b x y color s = Inr ((), s')"
    "paints b (\<lambda>x' y'. (x', y') = (x, y)) (\<lambda>_ _. color) s s'"
  using put_bytes_run [OF ok on, of "le_bytes 4 (ucast color)"]
  by (auto simp: put_pixel_def of_le_bytes_le_bytes color_roundtrip)

text \<open>A loop paints what its rounds paint.\<close>

lemma for_up_paints:
  assumes "\<And>k s'. k < n \<Longrightarrow> only_bitmap b s s' \<Longrightarrow>
      \<exists>s''. body (i + of_nat k) s' = Inr ((), s'') \<and> paints b (P (i + of_nat k)) c s' s''"
  shows "\<exists>s'. for_up n i body s = Inr ((), s') \<and> paints b (\<lambda>x y. \<exists>k < n. P (i + of_nat k) x y) c s s'"
  using assms
proof (induction n arbitrary: i s)
  case 0
  show ?case by (simp add: paints_def)
next
  case (Suc n)
  obtain t where t: "body i s = Inr ((), t)" "paints b (P i) c s t" using Suc.prems [of 0 s] by auto
  have "\<exists>s''. body (i + 1 + of_nat k) s' = Inr ((), s'') \<and> paints b (P (i + 1 + of_nat k)) c s' s''"
    if "k < n" "only_bitmap b t s'" for k s'
    using Suc.prems [of "Suc k" s'] that only_bitmap_trans [OF paints_only [OF t(2)]] by (simp add: algebra_simps)
  from Suc.IH [OF this] obtain u where u: "for_up n (i + 1) body t = Inr ((), u)"
    "paints b (\<lambda>x y. \<exists>k < n. P (i + 1 + of_nat k) x y) c t u" by auto
  have "paints b (\<lambda>x y. \<exists>k < Suc n. P (i + of_nat k) x y) c s u"
    by (rule paints_cong [OF paints_trans [OF t(2) u(2)]]) (auto simp: less_Suc_eq_0_disj algebra_simps)
  then show ?case using t(1) u(1) by auto
qed

text \<open>The coordinates a loop of \<open>w\<close> rounds reaches from \<open>x\<close>.\<close>

lemma reached: "(\<exists>k < unat (w :: u32). x + (0 + of_nat k) = p) \<longleftrightarrow> p - x < w"
proof
  assume "\<exists>k < unat w. x + (0 + of_nat k) = p"
  then obtain k where k: "k < unat w" "p = x + of_nat k" by auto
  then show "p - x < w" using of_nat_round [OF k(1)] by (simp add: word_less_nat_alt)
next
  assume "p - x < w"
  then have "unat (p - x) < unat w" "x + (0 + of_nat (unat (p - x))) = p" by (simp_all add: word_less_nat_alt)
  then show "\<exists>k < unat w. x + (0 + of_nat k) = p" by blast
qed

text \<open>The two loops over a rectangle: every point of it on the bitmap is painted with its colour.\<close>

definition in_rect :: "u32 \<Rightarrow> u32 \<Rightarrow> u32 \<Rightarrow> u32 \<Rightarrow> u32 \<Rightarrow> u32 \<Rightarrow> bool" where
  "in_rect x y w h px py \<longleftrightarrow> px - x < w \<and> py - y < h"

lemma rect_paints:
  assumes ok: "bitmap_ok s b"
    and color: "\<And>i j s'. on_bitmap b (x + j) (y + i) \<Longrightarrow> i < h \<Longrightarrow> j < w \<Longrightarrow> only_bitmap b s s' \<Longrightarrow>
      color i j s' = Inr (c (x + j) (y + i), s')"
  shows "\<exists>s'. for_up (unat h) 0 (\<lambda>i. for_up (unat w) 0 (\<lambda>j. let x0 = x + j; y0 = y + i in
      if clipped b x0 y0 then ret () else bnd (color i j) (put_pixel b x0 y0))) s = Inr ((), s') \<and>
    paints b (in_rect x y w h) c s s'"
proof -
  let ?body = "\<lambda>i j. let x0 = x + j; y0 = y + i in
      if clipped b x0 y0 then ret () else bnd (color i j) (put_pixel b x0 y0)"
  have point: "\<exists>s''. ?body i j s' = Inr ((), s'') \<and> paints b (\<lambda>px py. x + j = px \<and> y + i = py) c s' s''"
    if "only_bitmap b s s'" "i < h" "j < w" for i j s'
  proof (cases "on_bitmap b (x + j) (y + i)")
    case True
    have ok': "bitmap_ok s' b" using ok bitmap_ok_frame [OF that(1)] by simp
    obtain s'' where "put_pixel b (x + j) (y + i) (c (x + j) (y + i)) s' = Inr ((), s'')"
      "paints b (\<lambda>x' y'. (x', y') = (x + j, y + i)) (\<lambda>_ _. c (x + j) (y + i)) s' s''"
      by (rule put_pixel_run [OF ok' True])
    then show ?thesis using True clipped_iff [OF ok] color [OF True that(2,3,1)]
      by (auto simp: Let_def elim!: paints_cong)
  next
    case False
    then show ?thesis using clipped_iff [OF ok] by (auto simp: Let_def intro!: paints_none)
  qed
  have row: "\<exists>s''. for_up (unat w) 0 (?body i) s' = Inr ((), s'') \<and>
      paints b (\<lambda>px py. \<exists>k < unat w. x + (0 + of_nat k) = px \<and> y + i = py) c s' s''"
    if "only_bitmap b s s'" "i < h" for i s'
  proof (rule for_up_paints)
    fix k t assume k: "k < unat w" and t: "only_bitmap b s' t"
    have "0 + of_nat k < w" using k of_nat_round [OF k] by (simp add: word_less_nat_alt)
    from point [OF only_bitmap_trans [OF that(1) t] that(2) this]
    show "\<exists>t'. ?body i (0 + of_nat k) t = Inr ((), t') \<and>
      paints b (\<lambda>px py. x + (0 + of_nat k) = px \<and> y + i = py) c t t'" .
  qed
  have "\<exists>s'. for_up (unat h) 0 (\<lambda>i. for_up (unat w) 0 (?body i)) s = Inr ((), s') \<and>
      paints b (\<lambda>px py. \<exists>l < unat h. \<exists>k < unat w. x + (0 + of_nat k) = px \<and> y + (0 + of_nat l) = py) c s s'"
  proof (rule for_up_paints)
    fix l t assume l: "l < unat h" and t: "only_bitmap b s t"
    have "0 + of_nat l < h" using l of_nat_round [OF l] by (simp add: word_less_nat_alt)
    from row [OF t this]
    show "\<exists>t'. for_up (unat w) 0 (?body (0 + of_nat l)) t = Inr ((), t') \<and>
      paints b (\<lambda>px py. \<exists>k < unat w. x + (0 + of_nat k) = px \<and> y + (0 + of_nat l) = py) c t t'" .
  qed
  then obtain s' where s': "for_up (unat h) 0 (\<lambda>i. for_up (unat w) 0 (?body i)) s = Inr ((), s')"
    "paints b (\<lambda>px py. \<exists>l < unat h. \<exists>k < unat w. x + (0 + of_nat k) = px \<and> y + (0 + of_nat l) = py) c s s'" by blast
  have "(\<exists>l < unat h. \<exists>k < unat w. x + (0 + of_nat k) = px \<and> y + (0 + of_nat l) = py) \<longleftrightarrow> in_rect x y w h px py" for px py
    unfolding in_rect_def using reached [of w x px] reached [of h y py] by blast
  then have "paints b (in_rect x y w h) c s s'" using s'(2) by simp
  with s'(1) show ?thesis by blast
qed
section \<open>The operations on pictures\<close>

lemma bnd_ret: "bnd (ret x) f = f x"
  by (simp add: fun_eq_iff)

lemmas rect_paints_let = rect_paints [unfolded Let_def]

lemma fill_rect_paints:
  assumes "bitmap_ok s b"
  shows "\<exists>s'. paint_fill_rect b x y w h color s = Inr ((), s') \<and> paints b (in_rect x y w h) (\<lambda>_ _. color) s s'"
  unfolding paint_fill_rect_def Let_def
  by (rule rect_paints_let [where color = "\<lambda>_ _. ret color" and c = "\<lambda>_ _. color", OF assms, unfolded bnd_ret]) simp

text \<open>Two paintings of the same colour one after the other.\<close>

lemma paints_thn:
  assumes "\<exists>t. m s = Inr ((), t) \<and> paints b P c s t"
    and "\<And>t. only_bitmap b s t \<Longrightarrow> \<exists>u. m' t = Inr ((), u) \<and> paints b Q c t u"
  shows "\<exists>u. thn m m' s = Inr ((), u) \<and> paints b (\<lambda>x y. P x y \<or> Q x y) c s u"
proof -
  obtain t where t: "m s = Inr ((), t)" "paints b P c s t" using assms(1) by blast
  obtain u where "m' t = Inr ((), u)" "paints b Q c t u" using assms(2) [OF paints_only [OF t(2)]] by blast
  then show ?thesis using t paints_trans [OF t(2)] by auto
qed

lemma draw_rect_paints:
  assumes ok: "bitmap_ok s b"
  shows "\<exists>s'. paint_draw_rect b x y w h color s = Inr ((), s') \<and>
    paints b (\<lambda>px py. in_rect x y w 1 px py \<or> in_rect x (y + h - 1) w 1 px py \<or>
      in_rect x y 1 h px py \<or> in_rect (x + w - 1) y 1 h px py) (\<lambda>_ _. color) s s'"
  unfolding paint_draw_rect_def
  by (intro paints_thn fill_rect_paints) (simp_all add: ok bitmap_ok_frame)

text \<open>Clearing goes through the bytes of the rows.\<close>

lemma clear_row_paints:
  assumes "bitmap_ok s b" "y < bm_height b" "unat j + n = unat (bm_width b)"
  shows "\<exists>s'. clear_row b (j * 4) y color s = Some (Inr ((), s')) \<and>
    paints b (\<lambda>px py. py = y \<and> j \<le> px) (\<lambda>_ _. color) s s'"
  using assms
proof (induction n arbitrary: j s)
  case 0
  have wd: "j = bm_width b" using 0(3) by (simp add: word_unat_eq_iff)
  have "unat (bm_stride b) < 2 ^ LENGTH(32)" by (rule unsigned_less)
  then have "unat (j * 4) = 4 * unat (bm_width b)"
    unfolding wd by (subst unat_mult_no_wrap) (use 0(1) in \<open>simp_all add: bitmap_ok_def\<close>)
  then have "\<not> j * 4 < bm_stride b" using 0(1) by (simp add: bitmap_ok_def word_less_nat_alt)
  then have "clear_row b (j * 4) y color s = Some (Inr ((), s))" by (subst clear_row.simps) simp
  moreover have "paints b (\<lambda>px py. py = y \<and> j \<le> px) (\<lambda>_ _. color) s s"
    by (rule paints_none) (auto simp: on_bitmap_def wd)
  ultimately show ?case by blast
next
  case (Suc n)
  have on: "on_bitmap b j y" using Suc.prems(2,3) by (simp add: on_bitmap_def word_less_nat_alt)
  have "unat (j * 4) = 4 * unat j"
    using offset_bound [OF Suc.prems(1) on] Suc.prems(1) by (subst unat_mult_no_wrap) (simp_all add: offset_of_def bitmap_ok_def)
  then have lt: "j * 4 < bm_stride b" using Suc.prems(1,3) by (simp add: bitmap_ok_def word_less_nat_alt)
  obtain t where t: "put_pixel b j y color s = Inr ((), t)"
    "paints b (\<lambda>x' y'. (x', y') = (j, y)) (\<lambda>_ _. color) s t" by (rule put_pixel_run [OF Suc.prems(1) on])
  have j1: "unat (j + 1) = unat j + 1"
    using Suc.prems(1,3) by (subst unat_add_no_wrap) (simp_all add: bitmap_ok_def)
  have ok: "bitmap_ok t b" using Suc.prems(1) by (simp add: bitmap_ok_frame [OF paints_only [OF t(2)]])
  obtain u where u: "clear_row b ((j + 1) * 4) y color t = Some (Inr ((), u))"
    "paints b (\<lambda>px py. py = y \<and> j + 1 \<le> px) (\<lambda>_ _. color) t u"
    using Suc.IH [OF ok Suc.prems(2), of "j + 1"] j1 Suc.prems(3) by auto
  have "write_bytes (bm_data b + ucast (j * 4 + y * bm_stride b)) (le_bytes 4 (ucast color)) s = Inr ((), t)"
    using t(1) by (simp add: put_pixel_def pixel_address_def)
  then have "clear_row b (j * 4) y color s = Some (Inr ((), u))"
    using lt u(1) by (subst clear_row.simps) (simp add: algebra_simps)
  moreover have "paints b (\<lambda>px py. py = y \<and> j \<le> px) (\<lambda>_ _. color) s u"
    by (rule paints_cong [OF paints_trans [OF t(2) u(2)]]) (use j1 in \<open>auto simp: word_nat\<close>)
  ultimately show ?case by blast
qed

lemma clear_paints:
  assumes ok: "bitmap_ok s b"
  shows "\<exists>s'. paint_clear b color s = Inr ((), s') \<and> paints b (\<lambda>_ _. True) (\<lambda>_ _. color) s s'"
proof -
  obtain s' where s': "paint_clear b color s = Inr ((), s')"
    "paints b (\<lambda>x y. \<exists>k < unat (bm_height b). y = 0 + of_nat k \<and> 0 \<le> x) (\<lambda>_ _. color) s s'"
    unfolding paint_clear_def
  proof (atomize_elim, rule for_up_paints)
    fix k s' assume k: "k < unat (bm_height b)" and s': "only_bitmap b s s'"
    have y: "0 + of_nat k < bm_height b" using k of_nat_round [OF k] by (simp add: word_less_nat_alt)
    have "bitmap_ok s' b" using ok by (simp add: bitmap_ok_frame [OF s'])
    from clear_row_paints [OF this y, of 0 "unat (bm_width b)" color]
    show "\<exists>s''. loop (clear_row b 0 (0 + of_nat k) color s') = Inr ((), s'') \<and>
      paints b (\<lambda>x y. y = 0 + of_nat k \<and> 0 \<le> x) (\<lambda>_ _. color) s' s''" by auto
  qed
  have "\<exists>k < unat (bm_height b). y = 0 + of_nat k \<and> 0 \<le> x" if "on_bitmap b x y" for x y
    using that by (intro exI [of _ "unat y"]) (simp add: on_bitmap_def word_less_nat_alt)
  then have "paints b (\<lambda>_ _. True) (\<lambda>_ _. color) s s'" by (intro paints_cong [OF s'(2)]) simp_all
  with s'(1) show ?thesis by blast
qed

text \<open>Copying from another bitmap, whose bytes lie elsewhere.\<close>

definition apart :: "bitmap \<Rightarrow> bitmap \<Rightarrow> bool" where
  "apart b b' \<longleftrightarrow> region (bm_data b) (bitmap_bytes b) \<inter> region (bm_data b') (bitmap_bytes b') = {}"

lemma pixel_frame:
  assumes "only_bitmap b s s'" "apart b b'" "bitmap_ok s b'" "on_bitmap b' x y"
  shows "pixel s' b' x y = pixel s b' x y"
proof -
  have "ram s' a = ram s a" if "a \<in> region (pixel_address b' x y) 4" for a
    using assms that pixel_region_in [OF assms(3,4)] by (auto simp: only_bitmap_def apart_def)
  then have "bytes_at (ram s') (pixel_address b' x y) 4 = bytes_at (ram s) (pixel_address b' x y) 4" by (rule bytes_at_cong)
  then show ?thesis by (simp add: pixel_def)
qed

lemma get_pixel_frame:
  assumes "only_bitmap b s s'" "apart b b'" "bitmap_ok s b'" "on_bitmap b' x y"
  shows "get_pixel b' x y s' = Inr (pixel s b' x y, s')"
  using get_pixel_run [of s' b' x y] assms pixel_frame [OF assms] by (simp add: bitmap_ok_frame [OF assms(1)])

lemma blit_paints:
  assumes ok: "bitmap_ok s dst" "bitmap_ok s src" and ap: "apart dst src"
  shows "\<exists>s'. paint_blit_bitmap dst src x y s = Inr ((), s') \<and>
    paints dst (in_rect x y (bm_width src) (bm_height src)) (\<lambda>px py. pixel s src (px - x) (py - y)) s s'"
  unfolding paint_blit_bitmap_def
  by (rule rect_paints [OF ok(1)]) (simp add: get_pixel_frame [OF _ ap ok(2)] on_bitmap_def)

lemma blit_rect_paints:
  assumes ok: "bitmap_ok s dst" "bitmap_ok s src" and ap: "apart dst src"
    and size: "bm_width dst \<le> bm_width src" "bm_height dst \<le> bm_height src"
  shows "\<exists>s'. paint_blit_bitmap_rect dst src x y w h s = Inr ((), s') \<and>
    paints dst (in_rect x y w h) (\<lambda>px py. pixel s src px py) s s'"
  unfolding paint_blit_bitmap_rect_def Let_def
proof (rule rect_paints_let [OF ok(1)])
  fix i j s' assume on: "on_bitmap dst (x + j) (y + i)" and s': "only_bitmap dst s s'"
  have "on_bitmap src (x + j) (y + i)" using on size by (auto simp: on_bitmap_def)
  then show "get_pixel src (x + j) (y + i) s' = Inr (pixel s src (x + j) (y + i), s')"
    by (rule get_pixel_frame [OF s' ap ok(2)])
qed
text \<open>The whole picture, pixel after pixel.\<close>

lemma bitmap_size_small:
  assumes "bitmap_ok s b" shows "unat (bm_width b) * unat (bm_height b) < 2 ^ 31"
proof -
  have "unat (bm_width b) * unat (bm_height b) \<le> unat (bm_stride b) * unat (bm_height b)"
    using assms by (intro mult_le_mono1) (simp add: bitmap_ok_def)
  then show ?thesis using assms unfolding bitmap_ok_def bitmap_bytes_def by linarith
qed

lemma linear_address:
  assumes ok: "bitmap_ok s b" and i: "i < bm_width b * bm_height b"
  shows "on_bitmap b (i mod bm_width b) (i div bm_width b)"
    "pixel_address b (i mod bm_width b) (i div bm_width b) = bm_data b + ucast i * 4"
proof -
  have sz: "unat (bm_width b * bm_height b) = unat (bm_width b) * unat (bm_height b)"
    by (rule unat_mult_no_wrap) (use bitmap_size_small [OF ok] in simp)
  then have lt: "unat i < unat (bm_width b) * unat (bm_height b)" using i by (simp add: word_less_nat_alt)
  then have "0 < unat (bm_width b)" by (cases "unat (bm_width b)") simp_all
  then have m: "unat (i mod bm_width b) < unat (bm_width b)" by (simp add: unat_mod)
  have "unat i div unat (bm_width b) < unat (bm_height b)" using lt by (simp add: less_mult_imp_div_less mult.commute)
  then show on: "on_bitmap b (i mod bm_width b) (i div bm_width b)"
    using m by (simp add: on_bitmap_def word_less_nat_alt unat_div)
  have "4 * (n mod w) + n div w * (4 * w) = 4 * (n div w * w + n mod w)" for n w :: nat
    by (simp only: distrib_left mult.left_commute add.commute)
  then have "4 * (n mod w) + n div w * (4 * w) = n * 4" for n w :: nat by simp
  then have off: "offset_of b (i mod bm_width b) (i div bm_width b) = unat i * 4"
    using ok by (simp add: offset_of_def bitmap_ok_def unat_mod unat_div)
  have "unat (ucast i * 4 :: u64) = unat i * 4"
    using offset_bound [OF ok on] ok unfolding off
    by (subst unat_mult_no_wrap) (simp_all add: bitmap_ok_def unsigned_ucast_eq take_bit_nat_eq_self)
  moreover have "unat (bm_data b) + unat i * 4 < 2 ^ 64"
    using offset_bound [OF ok on] ok unfolding off by (simp add: bitmap_ok_def)
  ultimately have "unat (bm_data b + ucast i * 4) = unat (bm_data b) + unat i * 4"
    by (subst unat_add_no_wrap) simp_all
  then show "pixel_address b (i mod bm_width b) (i div bm_width b) = bm_data b + ucast i * 4"
    using pixel_address_unat [OF ok on] by (simp add: word_unat_eq_iff off)
qed

lemma linear_index:
  assumes ok: "bitmap_ok s b" and on: "on_bitmap b x y"
  shows "y * bm_width b + x < bm_width b * bm_height b"
    "x = (y * bm_width b + x) mod bm_width b" "y = (y * bm_width b + x) div bm_width b"
proof -
  let ?w = "unat (bm_width b)" and ?h = "unat (bm_height b)"
  have sm: "?w * ?h < 2 ^ 31" by (rule bitmap_size_small [OF ok])
  have xy: "unat x < ?w" "unat y < ?h" using on by (simp_all add: on_bitmap_def word_less_nat_alt)
  have "unat y * ?w + ?w \<le> ?h * ?w" using xy(2) by (metis Suc_leI mult_Suc mult_le_mono1 add.commute)
  then have lt: "unat y * ?w + unat x < ?w * ?h" using xy(1) by (simp add: mult.commute)
  then have "unat (y * bm_width b) = unat y * ?w" by (intro unat_mult_no_wrap) (use sm in simp)
  then have u: "unat (y * bm_width b + x) = unat y * ?w + unat x" by (subst unat_add_no_wrap) (use sm lt in simp_all)
  have "unat (bm_width b * bm_height b) = ?w * ?h" by (rule unat_mult_no_wrap) (use sm in simp)
  then show "y * bm_width b + x < bm_width b * bm_height b" using lt u by (simp add: word_less_nat_alt)
  show "x = (y * bm_width b + x) mod bm_width b" "y = (y * bm_width b + x) div bm_width b"
    using xy(1) by (simp_all add: word_unat_eq_iff unat_mod unat_div u)
qed

lemma swap_paints:
  assumes ok: "bitmap_ok s b" "bitmap_ok s back" and ap: "apart b back"
    and size: "bm_width back = bm_width b" "bm_height back = bm_height b"
  shows "\<exists>s'. paint_swap_buffers b back s = Inr ((), s') \<and> paints b (\<lambda>_ _. True) (pixel s back) s s'"
proof -
  let ?w = "bm_width b" and ?n = "bm_width b * bm_height b"
  let ?body = "\<lambda>i :: u32. bnd (read_bytes 4 (bm_data back + ucast i * 4)) (\<lambda>bs. write_bytes (bm_data b + ucast i * 4) bs)"
  have "\<exists>s'. for_up (unat ?n) 0 ?body s = Inr ((), s') \<and>
    paints b (\<lambda>x y. \<exists>k < unat ?n. x = (0 + of_nat k) mod ?w \<and> y = (0 + of_nat k) div ?w) (pixel s back) s s'"
  proof (rule for_up_paints)
    fix k t assume k: "k < unat ?n" and t: "only_bitmap b s t"
    define i :: u32 where "i = 0 + of_nat k"
    have i: "i < ?n" using k of_nat_round [OF k] by (simp add: i_def word_less_nat_alt)
    have i': "i < bm_width back * bm_height back" using i by (simp add: size)
    have okt: "bitmap_ok t b" "bitmap_ok t back" using ok by (simp_all add: bitmap_ok_frame [OF t])
    note on = linear_address(1) [OF okt(1) i] and on' = linear_address(1) [OF okt(2) i']
    let ?bs = "bytes_at (ram t) (pixel_address back (i mod ?w) (i div ?w)) 4"
    have rd: "read_bytes 4 (bm_data back + ucast i * 4) t = Inr (?bs, t)"
      using read_bytes_run [OF pixel_access [OF okt(2) on']] linear_address(2) [OF okt(2) i'] by (simp add: size)
    obtain u where u: "write_bytes (pixel_address b (i mod ?w) (i div ?w)) ?bs t = Inr ((), u)"
      "paints b (\<lambda>x y. (x, y) = (i mod ?w, i div ?w)) (\<lambda>_ _. ucast (of_le_bytes ?bs)) t u"
      by (rule put_bytes_run [OF okt(1) on, of ?bs]) simp_all
    have "ucast (of_le_bytes ?bs) = pixel s back (i mod ?w) (i div ?w)"
      using pixel_frame [OF t ap ok(2), of "i mod ?w" "i div ?w"] on' by (simp add: pixel_def size)
    then have "paints b (\<lambda>x y. x = i mod ?w \<and> y = i div ?w) (pixel s back) t u" by (intro paints_cong [OF u(2)]) auto
    moreover have "?body i t = Inr ((), u)" using rd u(1) linear_address(2) [OF okt(1) i] by simp
    ultimately show "\<exists>u. ?body (0 + of_nat k) t = Inr ((), u) \<and>
      paints b (\<lambda>x y. x = (0 + of_nat k) mod ?w \<and> y = (0 + of_nat k) div ?w) (pixel s back) t u"
      unfolding i_def by (intro exI [of _ u] conjI)
  qed
  then obtain s' where s': "for_up (unat ?n) 0 ?body s = Inr ((), s')"
    "paints b (\<lambda>x y. \<exists>k < unat ?n. x = (0 + of_nat k) mod ?w \<and> y = (0 + of_nat k) div ?w) (pixel s back) s s'" by blast
  have "\<exists>k < unat ?n. x = (0 + of_nat k) mod ?w \<and> y = (0 + of_nat k) div ?w" if on: "on_bitmap b x y" for x y
    using linear_index [OF ok(1) on] by (intro exI [of _ "unat (y * ?w + x)"]) (simp add: word_less_nat_alt)
  then have "paints b (\<lambda>_ _. True) (pixel s back) s s'" by (intro paints_cong [OF s'(2)]) simp_all
  moreover have "paint_swap_buffers b back s = Inr ((), s')"
    using s'(1) by (cases "bm_pixel_format b"; cases "bm_pixel_format back") (simp add: paint_swap_buffers_def)
  ultimately show ?thesis by blast
qed
section \<open>Blending\<close>

text \<open>The red, green and blue of a colour are its bytes 2, 1 and 0.\<close>

definition shade :: "nat \<Rightarrow> u32 \<Rightarrow> nat" where
  "shade n color = unat (drop_bit (8 * n) color AND 0xFF)"

lemma byte_mask: "(c :: u32) AND 0xFF = take_bit 8 c"
  by (simp add: take_bit_eq_mask mask_eq_exp_minus_1)

lemma shade_le: "shade n c \<le> 255"
  using take_bit_nat_less_exp [of 8 "unat (drop_bit (8 * n) c)"] by (simp add: shade_def byte_mask unsigned_take_bit_eq)

lemma byte_fits: "unat (r :: u32) \<le> 255 \<Longrightarrow> take_bit 8 r = r"
  by (simp add: word_unat_eq_iff unsigned_take_bit_eq take_bit_nat_eq_self)

lemma channels_of_packed:
  assumes "unat r \<le> 255" "unat g \<le> 255" "unat b \<le> 255"
  shows "shade 2 (push_bit 16 r OR push_bit 8 g OR b) = unat r" (is ?R)
    and "shade 1 (push_bit 16 r OR push_bit 8 g OR b) = unat g" (is ?G)
    and "shade 0 (push_bit 16 r OR push_bit 8 g OR b) = unat b" (is ?B)
proof -
  note f = byte_fits [OF assms(1)] byte_fits [OF assms(2)] byte_fits [OF assms(3)]
  have hi: "bit w n \<Longrightarrow> n < 8" if "take_bit 8 w = w" for w :: u32 and n using that by (metis bit_take_bit_iff)
  note b = hi [OF f(1)] hi [OF f(2)] hi [OF f(3)]
  have "drop_bit 16 (push_bit 16 r OR push_bit 8 g OR b) AND 0xFF = r" unfolding byte_mask
    by (rule bit_word_eqI) (auto simp: bit_take_bit_iff bit_drop_bit_eq bit_or_iff bit_push_bit_iff dest: b)
  moreover have "drop_bit 8 (push_bit 16 r OR push_bit 8 g OR b) AND 0xFF = g" unfolding byte_mask
    by (rule bit_word_eqI) (auto simp: bit_take_bit_iff bit_drop_bit_eq bit_or_iff bit_push_bit_iff dest: b)
  moreover have "drop_bit 0 (push_bit 16 r OR push_bit 8 g OR b) AND 0xFF = b" unfolding byte_mask
    by (rule bit_word_eqI) (auto simp: bit_take_bit_iff bit_or_iff bit_push_bit_iff dest: b)
  ultimately show ?R ?G ?B by (simp_all add: shade_def)
qed

lemma blend_channel:
  fixes a :: u8
  shows "unat (((drop_bit (8 * n) c AND 0xFF) * ucast a + (drop_bit (8 * n) d AND 0xFF) * (255 - ucast a)) div 255 :: u32)
    = (shade n c * unat a + shade n d * (255 - unat a)) div 255"
    "(shade n c * unat a + shade n d * (255 - unat a)) div 255 \<le> max (shade n c) (shade n d)"
proof -
  have a: "unat a \<le> 255" using unsigned_less [of a, where 'a = nat] by simp
  have ua: "unat (ucast a :: u32) = unat a" using a by (simp add: unsigned_ucast_eq take_bit_nat_eq_self)
  then have ui: "unat (255 - ucast a :: u32) = 255 - unat a" using a by (subst unat_sub_no_wrap) simp_all
  let ?c = "shade n c" and ?d = "shade n d"
  have 1: "?c * unat a \<le> 255 * 255" by (rule mult_le_mono) (use shade_le a in simp_all)
  have 2: "?d * (255 - unat a) \<le> 255 * 255" by (rule mult_le_mono) (use shade_le in simp_all)
  have p1: "unat ((drop_bit (8 * n) c AND 0xFF) * ucast a) = ?c * unat a"
    using 1 by (subst unat_mult_no_wrap) (simp_all add: ua shade_def)
  have p2: "unat ((drop_bit (8 * n) d AND 0xFF) * (255 - ucast a)) = ?d * (255 - unat a)"
    using 2 by (subst unat_mult_no_wrap) (simp_all add: ui shade_def)
  show "unat (((drop_bit (8 * n) c AND 0xFF) * ucast a + (drop_bit (8 * n) d AND 0xFF) * (255 - ucast a)) div 255 :: u32)
    = (?c * unat a + ?d * (255 - unat a)) div 255"
    using 1 2 p1 p2 by (simp add: unat_div unat_add_no_wrap)
  have "?c * unat a + ?d * (255 - unat a) \<le> max ?c ?d * unat a + max ?c ?d * (255 - unat a)"
    by (intro add_mono mult_le_mono1) simp_all
  also have "\<dots> = max ?c ?d * 255" using a by (simp flip: distrib_left)
  finally show "(?c * unat a + ?d * (255 - unat a)) div 255 \<le> max ?c ?d" by (simp add: div_le_mono [THEN order_trans])
qed

section \<open>The properties\<close>

text \<open>C29: Filling a rectangle never fails and never touches memory outside of the bitmap, wherever the
  rectangle lies: exactly the pixels of the bitmap in the rectangle get the colour. The coordinates
  wrap around, so a rectangle that begins left of or above the bitmap is clipped correctly.\<close>

theorem paint_fill_rect_correct:
  assumes "bitmap_ok s b"
  shows "\<exists>s'. paint_fill_rect b x y w h color s = Inr ((), s') \<and> only_bitmap b s s' \<and>
    (\<forall>px py. on_bitmap b px py \<longrightarrow>
       pixel s' b px py = (if px - x < w \<and> py - y < h then color else pixel s b px py))"
  using fill_rect_paints [OF assms, of x y w h color] unfolding paints_def in_rect_def by blast

text \<open>C30: Copying a bitmap into another one at any position never fails and changes nothing outside of
  the target: a pixel that the copy covers gets the pixel of the source, the others keep theirs.\<close>

theorem paint_blit_bitmap_correct:
  assumes "bitmap_ok s dst" "bitmap_ok s src" "apart dst src"
  shows "\<exists>s'. paint_blit_bitmap dst src x y s = Inr ((), s') \<and> only_bitmap dst s s' \<and>
    (\<forall>px py. on_bitmap dst px py \<longrightarrow>
       pixel s' dst px py = (if px - x < bm_width src \<and> py - y < bm_height src
         then pixel s src (px - x) (py - y) else pixel s dst px py))"
  using blit_paints [OF assms, of x y] unfolding paints_def in_rect_def by blast

text \<open>C31: Swapping the buffers makes the visible bitmap show the picture of the back buffer, pixel for
  pixel, although the loop copies words in the order of memory.\<close>

theorem paint_swap_buffers_correct:
  assumes "bitmap_ok s b" "bitmap_ok s back" "apart b back"
    "bm_width back = bm_width b" "bm_height back = bm_height b"
  shows "\<exists>s'. paint_swap_buffers b back s = Inr ((), s') \<and> only_bitmap b s s' \<and>
    (\<forall>px py. on_bitmap b px py \<longrightarrow> pixel s' b px py = pixel s back px py)"
  using swap_paints [OF assms] unfolding paints_def by simp

text \<open>C32: Blending is the weighted mean of the colours in every channel: the 32-bit arithmetic never
  overflows, no channel leaks into another one, and no channel exceeds those of both colours.\<close>

theorem blend_colors_correct:
  fixes a :: u8
  shows "shade 0 (blend_colors c d (ucast a)) = (shade 0 c * unat a + shade 0 d * (255 - unat a)) div 255 \<and>
    shade 1 (blend_colors c d (ucast a)) = (shade 1 c * unat a + shade 1 d * (255 - unat a)) div 255 \<and>
    shade 2 (blend_colors c d (ucast a)) = (shade 2 c * unat a + shade 2 d * (255 - unat a)) div 255 \<and>
    shade 0 (blend_colors c d (ucast a)) \<le> max (shade 0 c) (shade 0 d) \<and>
    shade 1 (blend_colors c d (ucast a)) \<le> max (shade 1 c) (shade 1 d) \<and>
    shade 2 (blend_colors c d (ucast a)) \<le> max (shade 2 c) (shade 2 d)"
proof -
  let ?m = "\<lambda>n. ((drop_bit (8 * n) c AND 0xFF) * ucast a + (drop_bit (8 * n) d AND 0xFF) * (255 - ucast a)) div 255 :: u32"
  have m: "unat (?m n) = (shade n c * unat a + shade n d * (255 - unat a)) div 255"
    "unat (?m n) \<le> max (shade n c) (shade n d)" for n
    using blend_channel [of n c a d] by simp_all
  have "unat (?m n) \<le> 255" for n
    using m(2) [of n] shade_le [of n c] shade_le [of n d] by linarith
  note p = channels_of_packed [OF this [of 2] this [of 1] this [of 0]]
  have "blend_colors c d (ucast a) = push_bit 16 (?m 2) OR push_bit 8 (?m 1) OR ?m 0"
    by (simp add: blend_colors_def Let_def)
  then have "shade 2 (blend_colors c d (ucast a)) = unat (?m 2)" "shade 1 (blend_colors c d (ucast a)) = unat (?m 1)"
    "shade 0 (blend_colors c d (ucast a)) = unat (?m 0)" using p by simp_all
  then show ?thesis by (simp only: m(1) blend_channel(2) simp_thms)
qed

section \<open>Instances\<close>

definition sample_memory :: "unit kmem" where
  "sample_memory = \<lparr>kalloc = (), ram = (\<lambda>_. 0), accessible = (\<lambda>_. True), raw = Map.empty\<rparr>"

definition sample_bitmap :: bitmap where
  "sample_bitmap = \<lparr>bm_data = 0x10000, bm_width = 8, bm_height = 4, bm_stride = 32,
     bm_pixel_format = BITMAP_PIXEL_FORMAT_RGB32, is_data_owned = True\<rparr>"

definition sample_back :: bitmap where
  "sample_back = sample_bitmap\<lparr>bm_data := 0x20000\<rparr>"

lemma sample_bitmap_ok: "bitmap_ok sample_memory sample_bitmap" "bitmap_ok sample_memory sample_back"
  by (simp_all add: bitmap_ok_def bitmap_bytes_def sample_memory_def sample_bitmap_def sample_back_def can_access_def)

lemma sample_apart: "apart sample_bitmap sample_back"
  by (auto simp: apart_def sample_bitmap_def sample_back_def bitmap_bytes_def region_bounds)

text \<open>A rectangle that begins two pixels left of the bitmap.\<close>

theorem paint_fill_rect_correct_witness:
  "\<exists>s'. paint_fill_rect sample_bitmap (- 2) 1 4 2 0xFF0000 sample_memory = Inr ((), s') \<and>
     pixel s' sample_bitmap 1 2 = 0xFF0000 \<and> pixel s' sample_bitmap 2 2 = pixel sample_memory sample_bitmap 2 2"
  using paint_fill_rect_correct [OF sample_bitmap_ok(1), of "- 2" 1 4 2 "0xFF0000"]
  by (auto simp: on_bitmap_def sample_bitmap_def)

theorem paint_blit_bitmap_correct_witness:
  "\<exists>s'. paint_blit_bitmap sample_bitmap sample_back 6 (- 1) sample_memory = Inr ((), s') \<and>
     pixel s' sample_bitmap 7 0 = pixel sample_memory sample_back 1 1"
  using paint_blit_bitmap_correct [OF sample_bitmap_ok sample_apart, of 6 "- 1"]
  by (auto simp: on_bitmap_def sample_bitmap_def sample_back_def)

theorem paint_swap_buffers_correct_witness:
  "\<exists>s'. paint_swap_buffers sample_bitmap sample_back sample_memory = Inr ((), s') \<and>
     pixel s' sample_bitmap 7 3 = pixel sample_memory sample_back 7 3"
  using paint_swap_buffers_correct [OF sample_bitmap_ok sample_apart]
  by (auto simp: on_bitmap_def sample_bitmap_def sample_back_def)

end
