(* ===== verification/Pcie.thy ===== *)
theory Pcie
  imports Prelude
begin

text \<open>
  \<open>kernel/drivers/pci/pcie.c\<close>: the configuration space of PCI Express and the search for a device.
  Registers of devices are read and written through a record of bus operations on the state of the
  machine, since what they do is up to the hardware; \<open>bus_map_region\<close> is \<open>mmio_map_region\<close>.
\<close>

section \<open>The bus\<close>

record 'd bus =
  bus_read8 :: "u64 \<Rightarrow> ('d, u8) prog"
  bus_read16 :: "u64 \<Rightarrow> ('d, u16) prog"
  bus_read32 :: "u64 \<Rightarrow> ('d, u32) prog"
  bus_read64 :: "u64 \<Rightarrow> ('d, u64) prog"
  bus_write8 :: "u64 \<Rightarrow> u8 \<Rightarrow> ('d, unit) prog"
  bus_write16 :: "u64 \<Rightarrow> u16 \<Rightarrow> ('d, unit) prog"
  bus_write32 :: "u64 \<Rightarrow> u32 \<Rightarrow> ('d, unit) prog"
  bus_write64 :: "u64 \<Rightarrow> u64 \<Rightarrow> ('d, unit) prog"
  bus_map_region :: "u64 \<Rightarrow> u64 \<Rightarrow> ('d, int \<times> u64) prog"

record mcfg_entry =
  mcfg_base_address :: u64
  segment_group :: u16
  start_bus_number :: u8
  end_bus_number :: u8

record 'd pcie_mem =
  machine :: 'd
  g_mcfg_entry :: mcfg_entry
  g_ecam_base_address :: u64

abbreviation on_machine :: "('d, 'a) prog \<Rightarrow> ('d pcie_mem, 'a) prog" where
  "on_machine \<equiv> within machine machine_update"

definition PCI_MAX_BUSES :: nat where "PCI_MAX_BUSES = 256"
definition PCI_MAX_DEVICES :: nat where "PCI_MAX_DEVICES = 32"
definition PCI_MAX_FUNCTIONS :: nat where "PCI_MAX_FUNCTIONS = 8"
definition PCI_CONFIG_ADDRESS :: u32 where "PCI_CONFIG_ADDRESS = 0x0c"
definition PCI_CONFIG_DATA :: u32 where "PCI_CONFIG_DATA = 0x08"

section \<open>Configuration space\<close>

text \<open>The offsets are computed in 32 bits and added to the 64-bit base.\<close>

definition ecam_address :: "mcfg_entry \<Rightarrow> u64 \<Rightarrow> u32 \<Rightarrow> u32 \<Rightarrow> u32 \<Rightarrow> u32 \<Rightarrow> u64" where
  "ecam_address entry base bus device function offset =
     base + ucast (push_bit 20 (bus - ucast (start_bus_number entry))) + ucast (push_bit 15 device) +
     ucast (push_bit 12 function) + ucast offset"

definition pcie_ecam_address :: "u32 \<Rightarrow> u32 \<Rightarrow> u32 \<Rightarrow> u32 \<Rightarrow> ('d pcie_mem, u64) prog" where
  "pcie_ecam_address bus device function offset =
     rd (\<lambda>s. ecam_address (g_mcfg_entry s) (g_ecam_base_address s) bus device function offset)"

text \<open>\<open>bus_count\<close> is computed in \<open>int\<close>s, so it is negative when the numbers are the wrong way round.\<close>

definition ecam_size :: "mcfg_entry \<Rightarrow> u64" where
  "ecam_size entry = push_bit 20 (ucast (end_bus_number entry) - ucast (start_bus_number entry) + 1)"

definition pcie_init :: "'d bus \<Rightarrow> mcfg_entry \<Rightarrow> ('d pcie_mem, int) prog" where
  "pcie_init b entry =
     thn (upd (\<lambda>s. s\<lparr>g_mcfg_entry := entry\<rparr>))
    (bnd (on_machine (bus_map_region b (mcfg_base_address entry) (ecam_size entry))) (\<lambda>(r, va).
     thn (upd (\<lambda>s. s\<lparr>g_ecam_base_address := va\<rparr>)) (ret r)))"

definition pcie_config_read8 :: "'d bus \<Rightarrow> u32 \<Rightarrow> u32 \<Rightarrow> u32 \<Rightarrow> u32 \<Rightarrow> ('d pcie_mem, u8) prog" where
  "pcie_config_read8 b bus device function offset =
     bnd (pcie_ecam_address bus device function offset) (\<lambda>a. on_machine (bus_read8 b a))"

definition pcie_config_read16 :: "'d bus \<Rightarrow> u32 \<Rightarrow> u32 \<Rightarrow> u32 \<Rightarrow> u32 \<Rightarrow> ('d pcie_mem, u16) prog" where
  "pcie_config_read16 b bus device function offset =
     bnd (pcie_ecam_address bus device function offset) (\<lambda>a. on_machine (bus_read16 b a))"

definition pcie_config_read32 :: "'d bus \<Rightarrow> u32 \<Rightarrow> u32 \<Rightarrow> u32 \<Rightarrow> u32 \<Rightarrow> ('d pcie_mem, u32) prog" where
  "pcie_config_read32 b bus device function offset =
     bnd (pcie_ecam_address bus device function offset) (\<lambda>a. on_machine (bus_read32 b a))"

definition pcie_config_write8 :: "'d bus \<Rightarrow> u32 \<Rightarrow> u32 \<Rightarrow> u32 \<Rightarrow> u32 \<Rightarrow> u8 \<Rightarrow> ('d pcie_mem, unit) prog" where
  "pcie_config_write8 b bus device function offset value =
     bnd (pcie_ecam_address bus device function offset) (\<lambda>a. on_machine (bus_write8 b a value))"

definition pcie_config_write16 :: "'d bus \<Rightarrow> u32 \<Rightarrow> u32 \<Rightarrow> u32 \<Rightarrow> u32 \<Rightarrow> u16 \<Rightarrow> ('d pcie_mem, unit) prog" where
  "pcie_config_write16 b bus device function offset value =
     bnd (pcie_ecam_address bus device function offset) (\<lambda>a. on_machine (bus_write16 b a value))"

definition pcie_config_write32 :: "'d bus \<Rightarrow> u32 \<Rightarrow> u32 \<Rightarrow> u32 \<Rightarrow> u32 \<Rightarrow> u32 \<Rightarrow> ('d pcie_mem, unit) prog" where
  "pcie_config_write32 b bus device function offset value =
     bnd (pcie_ecam_address bus device function offset) (\<lambda>a. on_machine (bus_write32 b a value))"

section \<open>The search\<close>

text \<open>\<open>for (i = ...; ...; i++)\<close> with the number of rounds that are left, left by a \<open>return\<close>.\<close>

fun search_up :: "nat \<Rightarrow> u32 \<Rightarrow> (u32 \<Rightarrow> ('s, 'a option) prog) \<Rightarrow> ('s, 'a option) prog" where
  "search_up 0 i body = ret None"
| "search_up (Suc n) i body = bnd (body i) (\<lambda>r. case r of Some x \<Rightarrow> ret (Some x) | None \<Rightarrow> search_up n (i + 1) body)"

text \<open>The class, the subclass and the programming interface are the upper bytes of the word.\<close>

definition is_function :: "u8 \<Rightarrow> u8 \<Rightarrow> u8 \<Rightarrow> u32 \<Rightarrow> u32 \<Rightarrow> bool" where
  "is_function class_code subclass_code prog_int header_type value \<longleftrightarrow>
     header_type = 0 \<and> class_code = ucast (drop_bit 24 value AND 0xff) \<and>
     subclass_code = ucast (drop_bit 16 value AND 0xff) \<and> prog_int = ucast (drop_bit 8 value AND 0xff)"

definition pcie_locate_device ::
  "'d bus \<Rightarrow> u8 \<Rightarrow> u8 \<Rightarrow> u8 \<Rightarrow> u8 \<Rightarrow> ('d pcie_mem, (u32 \<times> u32 \<times> u32) option) prog" where
  "pcie_locate_device b header_type class_code subclass_code prog_int =
     search_up PCI_MAX_BUSES 0 (\<lambda>bus. search_up PCI_MAX_DEVICES 0 (\<lambda>device. search_up PCI_MAX_FUNCTIONS 0 (\<lambda>function.
       bnd (pcie_config_read32 b bus device function PCI_CONFIG_ADDRESS) (\<lambda>header_type.
       bnd (pcie_config_read32 b bus device function PCI_CONFIG_DATA) (\<lambda>value.
       if is_function class_code subclass_code prog_int header_type value
       then ret (Some (bus, device, function)) else ret None)))))"

section \<open>Where the registers lie\<close>

lemma up_32: "unat (ucast (w :: u32) :: u64) = unat w"
proof -
  have "unat w < 2 ^ LENGTH(32)" by (rule unsigned_less)
  then show ?thesis by (simp add: unsigned_ucast_eq take_bit_nat_eq_self)
qed

lemma ecam_offset:
  fixes bits device fn offset :: u32
  assumes "device < 32" "fn < 8" "offset < 4096"
  shows "unat (ucast bits + ucast (push_bit 15 device) + ucast (push_bit 12 fn) + ucast offset :: u64)
    = unat bits + unat device * 2 ^ 15 + unat fn * 2 ^ 12 + unat offset"
proof -
  have b: "unat device < 32" "unat fn < 8" "unat offset < 4096" using assms by (simp_all add: word_less_nat_alt)
  have c: "unat bits < 2 ^ LENGTH(32)" by (rule unsigned_less)
  have s: "unat (push_bit 15 device) = unat device * 2 ^ 15" "unat (push_bit 12 fn) = unat fn * 2 ^ 12"
    using b by (simp_all add: unat_push_bit_no_wrap)
  show ?thesis using b c by (simp add: unat_add_no_wrap s up_32)
qed

lemma bus_bits:
  fixes bus :: u32 and start :: u8
  assumes "bus < 256"
  shows "unat (push_bit 20 (bus - ucast start)) =
    (if unat start \<le> unat bus then (unat bus - unat start) * 2 ^ 20 else 2 ^ 32 - (unat start - unat bus) * 2 ^ 20)"
proof -
  have b: "unat bus < 256" using assms by (simp add: word_less_nat_alt)
  have s: "unat start < 2 ^ LENGTH(8)" by (rule unsigned_less)
  then have us: "unat (ucast start :: u32) = unat start" by (simp add: unsigned_ucast_eq take_bit_nat_eq_self)
  show ?thesis
  proof (cases "unat start \<le> unat bus")
    case True
    then have "unat (bus - ucast start) = unat bus - unat start" by (subst unat_sub_no_wrap) (simp_all add: us)
    then show ?thesis using True b by (simp add: unat_push_bit_no_wrap)
  next
    case False
    have d: "unat (ucast start - bus) = unat start - unat bus" using False by (subst unat_sub_no_wrap) (simp_all add: us)
    have "push_bit 20 (bus - ucast start) = - push_bit 20 (ucast start - bus)" by (simp add: push_bit_eq_mult)
    moreover have p: "unat (push_bit 20 (ucast start - bus)) = (unat start - unat bus) * 2 ^ 20"
      using s by (simp add: unat_push_bit_no_wrap d)
    moreover have "push_bit 20 (ucast start - bus) \<noteq> 0" using p False by (metis diff_is_0_eq mult_is_0 power_not_zero unat_0 zero_neq_numeral)
    ultimately show ?thesis using False unat_sub_if' [of 0 "push_bit 20 (ucast start - bus)"] by simp
  qed
qed

lemma ecam_size_unat:
  assumes "start_bus_number e \<le> end_bus_number e"
  shows "unat (ecam_size e) = (unat (end_bus_number e) - unat (start_bus_number e) + 1) * 2 ^ 20"
proof -
  have s: "unat (end_bus_number e) < 2 ^ LENGTH(8)" "unat (start_bus_number e) < 2 ^ LENGTH(8)" by (rule unsigned_less)+
  then have u: "unat (ucast (end_bus_number e) :: u64) = unat (end_bus_number e)"
    "unat (ucast (start_bus_number e) :: u64) = unat (start_bus_number e)"
    by (simp_all add: unsigned_ucast_eq take_bit_nat_eq_self)
  have le: "unat (start_bus_number e) \<le> unat (end_bus_number e)" using assms by (simp add: word_le_nat_alt)
  have d: "unat (ucast (end_bus_number e) - ucast (start_bus_number e) :: u64) = unat (end_bus_number e) - unat (start_bus_number e)"
    using le by (subst unat_sub_no_wrap) (simp_all add: u)
  then have "unat (ucast (end_bus_number e) - ucast (start_bus_number e) + 1 :: u64) = unat (end_bus_number e) - unat (start_bus_number e) + 1"
    using s by (subst unat_add_no_wrap) simp_all
  then show ?thesis using s unfolding ecam_size_def by (subst unat_push_bit_no_wrap) simp_all
qed

section \<open>What the search finds\<close>

text \<open>A search whose rounds do not change the state stops at the first round that finds something.\<close>

fun first_up :: "nat \<Rightarrow> u32 \<Rightarrow> (u32 \<Rightarrow> 'a option) \<Rightarrow> 'a option" where
  "first_up 0 i f = None"
| "first_up (Suc n) i f = (case f i of Some x \<Rightarrow> Some x | None \<Rightarrow> first_up n (i + 1) f)"

lemma search_up_pure:
  assumes "\<And>i. body i s = Inr (f i, s)" shows "search_up n i body s = Inr (first_up n i f, s)"
  by (induction n arbitrary: i) (auto simp: assms split: option.splits)

lemma first_up_None: "first_up n i f = None \<longleftrightarrow> (\<forall>k < n. f (i + of_nat k) = None)"
  by (induction n arbitrary: i) (auto simp: less_Suc_eq_0_disj algebra_simps split: option.splits)

lemma first_up_Some:
  assumes "first_up n i f = Some x"
  shows "\<exists>k < n. f (i + of_nat k) = Some x \<and> (\<forall>l < k. f (i + of_nat l) = None)"
  using assms
proof (induction n arbitrary: i)
  case (Suc n)
  show ?case
  proof (cases "f i")
    case None
    then have "first_up n (i + 1) f = Some x" using Suc.prems by simp
    from Suc.IH [OF this] obtain k where "k < n" "f (i + 1 + of_nat k) = Some x"
      "\<forall>l < k. f (i + 1 + of_nat l) = None" by blast
    then show ?thesis using None by (intro exI [of _ "Suc k"]) (auto simp: less_Suc_eq_0_disj algebra_simps)
  qed (use Suc.prems in \<open>auto intro: exI [of _ 0]\<close>)
qed simp

lemma below_numeral: "(\<forall>k < n. P (0 + of_nat k)) \<longleftrightarrow> (\<forall>i :: u32. unat i < n \<longrightarrow> P i)" if "n \<le> 256"
proof
  assume *: "\<forall>k < n. P (0 + of_nat k)"
  show "\<forall>i :: u32. unat i < n \<longrightarrow> P i"
  proof (intro allI impI)
    fix i :: u32 assume "unat i < n"
    then have "P (0 + of_nat (unat i))" using * by blast
    then show "P i" by simp
  qed
next
  assume *: "\<forall>i :: u32. unat i < n \<longrightarrow> P i"
  have "unat (of_nat k :: u32) = k" if "k < n" for k
    using that \<open>n \<le> 256\<close> by (simp add: unat_of_nat take_bit_nat_eq_self)
  then show "\<forall>k < n. P (0 + of_nat k)" using * by simp
qed
lemma first_up_none:
  assumes "first_up n 0 f = None" "n \<le> 256" "unat i < n" shows "f i = None"
  using assms below_numeral [OF assms(2), of "\<lambda>i. f i = None"] by (simp add: first_up_None)

lemma first_up_some:
  assumes s: "first_up n 0 f = Some x" and n: "n \<le> 256"
  obtains i where "unat i < n" "f i = Some x" "\<And>j. j < i \<Longrightarrow> f j = None"
proof -
  obtain k where k: "k < n" "f (of_nat k) = Some x" "\<forall>l < k. f (of_nat l) = None" using first_up_Some [OF s] by auto
  have u: "unat (of_nat k :: u32) = k" using k(1) n by (simp add: unat_of_nat take_bit_nat_eq_self)
  have "f j = None" if "j < of_nat k" for j
  proof -
    have "unat j < k" using that u by (simp add: word_less_nat_alt)
    then have "f (of_nat (unat j)) = None" using k(3) by blast
    then show ?thesis by simp
  qed
  then show thesis using that [of "of_nat k"] k u by simp
qed

text \<open>Whether the function at a place of the configuration space is the one that is looked for.\<close>

definition function_at :: "(u64 \<Rightarrow> u32) \<Rightarrow> 'd pcie_mem \<Rightarrow> u8 \<Rightarrow> u8 \<Rightarrow> u8 \<Rightarrow> u32 \<Rightarrow> u32 \<Rightarrow> u32 \<Rightarrow> bool" where
  "function_at config s class_code subclass_code prog_int bus device func \<longleftrightarrow>
     is_function class_code subclass_code prog_int
       (config (ecam_address (g_mcfg_entry s) (g_ecam_base_address s) bus device func PCI_CONFIG_ADDRESS))
       (config (ecam_address (g_mcfg_entry s) (g_ecam_base_address s) bus device func PCI_CONFIG_DATA))"

definition valid_function :: "u32 \<Rightarrow> u32 \<Rightarrow> u32 \<Rightarrow> bool" where
  "valid_function bus device func \<longleftrightarrow> bus < 256 \<and> device < 32 \<and> func < 8"

lemma locate_device_run:
  fixes s :: "'d pcie_mem"
  assumes r: "\<And>a. bus_read32 b a (machine s) = Inr (config a, machine s)"
  shows "pcie_locate_device b header_type class_code subclass_code prog_int s =
    Inr (first_up 256 0 (\<lambda>bus. first_up 32 0 (\<lambda>device. first_up 8 0 (\<lambda>func.
      if function_at config s class_code subclass_code prog_int bus device func then Some (bus, device, func) else None))), s)"
proof -
  have rd: "pcie_config_read32 b bus device func offset s =
      Inr (config (ecam_address (g_mcfg_entry s) (g_ecam_base_address s) bus device func offset), s)" for bus device func offset
    by (simp add: pcie_config_read32_def pcie_ecam_address_def r)
  show ?thesis
    unfolding pcie_locate_device_def PCI_MAX_BUSES_def PCI_MAX_DEVICES_def PCI_MAX_FUNCTIONS_def
    by (intro search_up_pure) (simp add: rd function_at_def)
qed

section \<open>The properties\<close>

text \<open>C33: The search for a device answers the first function with the class, in the order of bus, device
  and function number, and fails exactly when there is none. It reads every function of all 256 buses,
  whichever buses the firmware announced, and it ignores the header type it is asked for: the function
  must have a zero in the whole word that holds its header type.\<close>

theorem pcie_locate_device_correct:
  fixes s :: "'d pcie_mem"
  assumes r: "\<And>a. bus_read32 b a (machine s) = Inr (config a, machine s)"
  shows "(case pcie_locate_device b header_type class_code subclass_code prog_int s of
      Inl e \<Rightarrow> False
    | Inr (None, s') \<Rightarrow> s' = s \<and>
        (\<forall>bus device func. valid_function bus device func \<longrightarrow> \<not> function_at config s class_code subclass_code prog_int bus device func)
    | Inr (Some (x, y, z), s') \<Rightarrow> s' = s \<and> valid_function x y z \<and> function_at config s class_code subclass_code prog_int x y z \<and>
        (\<forall>bus device func. valid_function bus device func \<and> (bus < x \<or> bus = x \<and> (device < y \<or> device = y \<and> func < z)) \<longrightarrow>
           \<not> function_at config s class_code subclass_code prog_int bus device func))"
proof -
  let ?F = "function_at config s class_code subclass_code prog_int"
  let ?f = "\<lambda>bus device func. if ?F bus device func then Some (bus, device, func) else None"
  let ?d = "\<lambda>bus device. first_up 8 0 (?f bus device)" and ?b = "\<lambda>bus. first_up 32 0 (\<lambda>device. first_up 8 0 (?f bus device))"
  note run = locate_device_run [OF r, of header_type class_code subclass_code prog_int]
  have v: "valid_function bus device func \<longleftrightarrow> unat bus < 256 \<and> unat device < 32 \<and> unat func < 8" for bus device func
    by (simp add: valid_function_def word_less_nat_alt)
  have none: "\<not> ?F bus device func" if "?d bus device = None" "unat func < 8" for bus device func
    using first_up_none [OF that(1) _ that(2)] by (simp split: if_splits)
  have none': "\<not> ?F bus device func" if "?b bus = None" "unat device < 32" "unat func < 8" for bus device func
    using none first_up_none [OF that(1) _ that(2)] that(3) by simp
  show ?thesis
  proof (cases "first_up 256 0 ?b")
    case None
    then show ?thesis using run none' first_up_none [OF None] by (simp add: v)
  next
    case (Some p)
    obtain x where x: "unat x < 256" "?b x = Some p" "\<And>j. j < x \<Longrightarrow> ?b j = None" by (rule first_up_some [OF Some]) (simp, rule that)
    obtain y where y: "unat y < 32" "?d x y = Some p" "\<And>j. j < y \<Longrightarrow> ?d x j = None" by (rule first_up_some [OF x(2)]) (simp, rule that)
    obtain z where z: "unat z < 8" "?f x y z = Some p" "\<And>j. j < z \<Longrightarrow> ?f x y j = None" by (rule first_up_some [OF y(2)]) (simp, rule that)
    have p: "p = (x, y, z)" "?F x y z" using z(2) by (auto split: if_splits)
    have z3: "\<not> ?F x y j" if "j < z" for j using z(3) [OF that] by (simp split: if_splits)
    have "\<not> ?F bus device func" if "valid_function bus device func"
      "bus < x \<or> bus = x \<and> (device < y \<or> device = y \<and> func < z)" for bus device func
      using that none' [OF x(3)] none [OF y(3)] z3 by (auto simp: v)
    then show ?thesis using run Some p x(1) y(1) z(1) by (simp add: v)
  qed
qed

text \<open>C34: The registers of a bus lie in the window that \<open>pcie_init\<close> maps exactly when the bus is one of
  those the firmware announced. The search goes through all 256 buses, so on a machine that announces
  fewer it leaves the window unless it finds the device first: upwards, or for a bus below the first
  one by almost 4 GB.\<close>

theorem ecam_window:
  assumes "bus < 256" "device < 32" "func < 8" "offset < 4096" "start_bus_number e \<le> end_bus_number e"
  shows "ecam_address e base bus device func offset - base < ecam_size e \<longleftrightarrow>
    ucast (start_bus_number e) \<le> bus \<and> bus \<le> ucast (end_bus_number e)"
proof -
  let ?s = "unat (start_bus_number e)" and ?e = "unat (end_bus_number e)" and ?b = "unat bus"
  let ?rest = "unat device * 2 ^ 15 + unat func * 2 ^ 12 + unat offset"
  have sm: "?s < 2 ^ LENGTH(8)" "?e < 2 ^ LENGTH(8)" by (rule unsigned_less)+
  then have u: "unat (ucast (start_bus_number e) :: u32) = ?s" "unat (ucast (end_bus_number e) :: u32) = ?e"
    by (simp_all add: unsigned_ucast_eq take_bit_nat_eq_self)
  have small: "?b < 256" "?rest < 2 ^ 20" "?s \<le> ?e" using assms by (simp_all add: word_nat)
  have eq: "ecam_address e base bus device func offset - base = ucast (push_bit 20 (bus - ucast (start_bus_number e))) +
      ucast (push_bit 15 device) + ucast (push_bit 12 func) + ucast offset" by (simp add: ecam_address_def)
  then have off: "unat (ecam_address e base bus device func offset - base) =
      (if ?s \<le> ?b then (?b - ?s) * 2 ^ 20 else 2 ^ 32 - (?s - ?b) * 2 ^ 20) + ?rest"
    unfolding eq ecam_offset [OF assms(2,3,4)] bus_bits [OF assms(1)] by simp
  have sz: "unat (ecam_size e) = (?e - ?s + 1) * 2 ^ 20" by (rule ecam_size_unat [OF assms(5)])
  have "unat (ecam_address e base bus device func offset - base) < unat (ecam_size e) \<longleftrightarrow> ?s \<le> ?b \<and> ?b \<le> ?e"
    unfolding off sz using sm small by (cases "?s \<le> ?b") auto
  then show ?thesis by (simp add: word_nat u)
qed

section \<open>Instances\<close>

text \<open>A machine with one controller, function 0 of device 3 on bus 0, on a segment that begins at bus 0.\<close>

definition sample_config :: "u64 \<Rightarrow> u32" where
  "sample_config a = (if a = 0x100018008 then 0x0C033000 else 0)"

definition sample_bus :: "unit bus" where
  "sample_bus = \<lparr>bus_read8 = (\<lambda>_. ret 0), bus_read16 = (\<lambda>_. ret 0), bus_read32 = (\<lambda>a. ret (sample_config a)),
     bus_read64 = (\<lambda>_. ret 0), bus_write8 = (\<lambda>_ _. ret ()), bus_write16 = (\<lambda>_ _. ret ()), bus_write32 = (\<lambda>_ _. ret ()),
     bus_write64 = (\<lambda>_ _. ret ()), bus_map_region = (\<lambda>p n. ret (0, 0x100000000))\<rparr>"

definition sample_pcie :: "unit pcie_mem" where
  "sample_pcie = \<lparr>machine = (), g_mcfg_entry = \<lparr>mcfg_base_address = 0x40000000, segment_group = 0, start_bus_number = 0,
     end_bus_number = 15\<rparr>, g_ecam_base_address = 0x100000000\<rparr>"

theorem pcie_locate_device_correct_witness:
  "\<exists>x y z. pcie_locate_device sample_bus 0 0x0C 0x03 0x30 sample_pcie = Inr (Some (x, y, z), sample_pcie) \<and>
     function_at sample_config sample_pcie 0x0C 0x03 0x30 x y z"
proof -
  have r: "bus_read32 sample_bus a (machine sample_pcie) = Inr (sample_config a, machine sample_pcie)" for a
    by (simp add: sample_bus_def)
  have "valid_function 0 3 0 \<and> function_at sample_config sample_pcie 0x0C 0x03 0x30 0 3 0"
    by (simp add: valid_function_def function_at_def sample_pcie_def ecam_address_def PCI_CONFIG_ADDRESS_def
        PCI_CONFIG_DATA_def sample_config_def is_function_def)
  then show ?thesis
    using pcie_locate_device_correct [OF r, where header_type = 0 and class_code = "0x0C" and subclass_code = "0x03" and prog_int = "0x30"] by (auto split: sum.splits option.splits)
qed

theorem ecam_window_witness:
  "\<not> ecam_address (g_mcfg_entry sample_pcie) 0x100000000 16 0 0 8 - 0x100000000 < ecam_size (g_mcfg_entry sample_pcie)"
  using ecam_window [of 16 0 0 8 "g_mcfg_entry sample_pcie" "0x100000000"] by (simp add: sample_pcie_def)

end
