(* ===== verification/Xhci.thy ===== *)
theory Xhci
  imports Pcie Ring_Buffer
begin

text \<open>
  \<open>kernel/drivers/pci/xhci.c\<close>, the first part: the registers of the USB host controller, the pages
  of memory that driver and controller share, and the rings of transfer request blocks (TRBs) through
  which they talk. TRBs are a typed heap keyed by their address. What the controller does between two
  reads of a waiting driver is a parameter, \<open>controller\<close>.
\<close>

section \<open>State\<close>

record trb =
  parameter_low :: u32
  parameter_high :: u32
  trb_status :: u32
  control :: u32

record trb_ring =
  tr_base_address :: u64
  tr_enqueue_ptr :: u64
  tr_dequeue_ptr :: u64
  tr_link_trb :: u64
  tr_ring_size :: u64
  tr_entry_count :: u64
  tr_cycle_bit :: u8

record allocated_page =
  page_virtual :: u64
  page_physical :: u64

text \<open>
  The jobs of an endpoint are kept by a \<open>ring_buffer_t\<close> of \<open>XHCI_MAX_NUM_TRANSFER_JOBS\<close> elements; here it
  is the queue that such a ring holds (\<open>ring_holds\<close> of \<open>Ring_Buffer\<close>), of jobs instead of their bytes.
\<close>

record transfer_job =
  job_callback :: u64
  job_context :: u64
  data_buffer :: allocated_page
  transfer_length :: u64
  has_data :: u8

record endpoint_state =
  transfer_jobs :: "transfer_job list"

record device_state =
  enabled :: u8
  endpoints :: "endpoint_state list"
  num_configured_endpoints :: u8

record ('h, 'd) xhci_mem = "'h kmem" +
  pcie :: "'d pcie_mem"
  trbs :: "u64 \<rightharpoonup> trb"
  mmio_base :: u64
  caps :: u64
  cap_length :: u8
  xops :: u64
  rt :: u64
  doorbells_array :: u64
  dcba_array :: u64
  heap_page_allocated :: "u8 list"
  last_modified_heap_page_idx :: u64
  pci_bus :: u32
  pci_device :: u32
  pci_function :: u32
  command_ring :: trb_ring
  event_ring :: trb_ring
  event_ring_segment_table :: u64
  xdevices :: "device_state list"

abbreviation on_bus :: "('d, 'a) prog \<Rightarrow> (('h, 'd, 'z) xhci_mem_scheme, 'a) prog" where
  "on_bus m \<equiv> within pcie pcie_update (on_machine m)"

definition XHCI_HEAP_VIRTUAL_BASE :: u64 where "XHCI_HEAP_VIRTUAL_BASE = 0xffffffff80000000"
definition XHCI_HEAP_SIZE :: u64 where "XHCI_HEAP_SIZE = push_bit 21 1"
definition XHCI_HEAP_MAX_PAGES :: nat where "XHCI_HEAP_MAX_PAGES = 512"

section \<open>Registers\<close>

definition xhci_read_op_register :: "'d bus \<Rightarrow> u32 \<Rightarrow> (('h, 'd, 'z) xhci_mem_scheme, u32) prog" where
  "xhci_read_op_register b offset = bnd (rd xops) (\<lambda>p. on_bus (bus_read32 b (p + ucast offset)))"

definition xhci_write_op_register :: "'d bus \<Rightarrow> u32 \<Rightarrow> u32 \<Rightarrow> (('h, 'd, 'z) xhci_mem_scheme, unit) prog" where
  "xhci_write_op_register b offset value = bnd (rd xops) (\<lambda>p. on_bus (bus_write32 b (p + ucast offset) value))"

definition xhci_write_op_register64 :: "'d bus \<Rightarrow> u32 \<Rightarrow> u64 \<Rightarrow> (('h, 'd, 'z) xhci_mem_scheme, unit) prog" where
  "xhci_write_op_register64 b offset value = bnd (rd xops) (\<lambda>p. on_bus (bus_write64 b (p + ucast offset) value))"

definition xhci_read_cap_register :: "'d bus \<Rightarrow> u32 \<Rightarrow> (('h, 'd, 'z) xhci_mem_scheme, u32) prog" where
  "xhci_read_cap_register b offset = bnd (rd caps) (\<lambda>p. on_bus (bus_read32 b (p + ucast offset)))"

definition xhci_write_rt_register :: "'d bus \<Rightarrow> u32 \<Rightarrow> u32 \<Rightarrow> (('h, 'd, 'z) xhci_mem_scheme, unit) prog" where
  "xhci_write_rt_register b offset value = bnd (rd rt) (\<lambda>p. on_bus (bus_write32 b (p + ucast offset) value))"

definition xhci_write_rt_register64 :: "'d bus \<Rightarrow> u32 \<Rightarrow> u64 \<Rightarrow> (('h, 'd, 'z) xhci_mem_scheme, unit) prog" where
  "xhci_write_rt_register64 b offset value = bnd (rd rt) (\<lambda>p. on_bus (bus_write64 b (p + ucast offset) value))"

definition xhci_read_port_register :: "'d bus \<Rightarrow> u8 \<Rightarrow> u32 \<Rightarrow> (('h, 'd, 'z) xhci_mem_scheme, u32) prog" where
  "xhci_read_port_register b port offset = xhci_read_op_register b (0x400 + ucast port * 16 + offset)"

definition xhci_ring_command_doorbell :: "'d bus \<Rightarrow> (('h, 'd, 'z) xhci_mem_scheme, unit) prog" where
  "xhci_ring_command_doorbell b = bnd (rd doorbells_array) (\<lambda>p. on_bus (bus_write32 b p 0))"

definition xhci_ring_doorbell :: "'d bus \<Rightarrow> u32 \<Rightarrow> u32 \<Rightarrow> (('h, 'd, 'z) xhci_mem_scheme, unit) prog" where
  "xhci_ring_doorbell b doorbell_idx target =
     bnd (rd doorbells_array) (\<lambda>p. on_bus (bus_write32 b (p + 4 * ucast doorbell_idx) target))"

section \<open>Shared pages\<close>

text \<open>The scan for a page that is not allocated; it stops when it comes to a page it has checked.\<close>

partial_function (option) scan_pages :: "u8 list \<Rightarrow> u8 list \<Rightarrow> nat \<Rightarrow> nat option" where
  "scan_pages allocated checked page_idx =
     (if allocated ! page_idx = 1 \<and> checked ! page_idx = 0
      then scan_pages allocated (checked[page_idx := 1])
             (if page_idx + 1 \<ge> XHCI_HEAP_MAX_PAGES then 0 else page_idx + 1)
      else Some page_idx)"

definition xhci_alloc_page ::
  "(u64 \<Rightarrow> ('h, u64 option) prog) \<Rightarrow> (('h, 'd, 'z) xhci_mem_scheme, allocated_page option) prog" where
  "xhci_alloc_page translate =
     bnd (rd heap_page_allocated) (\<lambda>allocated.
     bnd (rd (\<lambda>s. unat (last_modified_heap_page_idx s))) (\<lambda>start.
     bnd (\<lambda>s. case scan_pages allocated (replicate XHCI_HEAP_MAX_PAGES 0) start of
                None \<Rightarrow> Inl No_Return | Some i \<Rightarrow> Inr (i, s)) (\<lambda>page_idx.
     if allocated ! page_idx = 1 then ret None
     else let va = XHCI_HEAP_VIRTUAL_BASE + of_nat page_idx * 4096 in
       bnd (within kalloc kalloc_update (translate va)) (\<lambda>pa.
       case pa of None \<Rightarrow> ret None
       | Some pa \<Rightarrow> thn (upd (\<lambda>s. s\<lparr>heap_page_allocated := (heap_page_allocated s)[page_idx := 1],
             last_modified_heap_page_idx := of_nat page_idx\<rparr>))
           (ret (Some \<lparr>page_virtual = va, page_physical = pa\<rparr>))))))"

definition xhci_free_page :: "allocated_page \<Rightarrow> (('h, 'd, 'z) xhci_mem_scheme, int) prog" where
  "xhci_free_page page =
     (let page_idx = (page_virtual page - XHCI_HEAP_VIRTUAL_BASE) div 4096 in
      if page_idx \<ge> of_nat XHCI_HEAP_MAX_PAGES then ret (-1)
      else thn (upd (\<lambda>s. s\<lparr>heap_page_allocated := (heap_page_allocated s)[unat page_idx := 0],
             last_modified_heap_page_idx := page_idx\<rparr>)) (ret 0))"

section \<open>Rings\<close>

definition TRB_SIZE :: u64 where "TRB_SIZE = 16"
definition XHCI_TRB_TYPE :: "u32 \<Rightarrow> u32" where "XHCI_TRB_TYPE x = push_bit 10 x"
definition XHCI_TRB_TYPE_LINK :: u32 where "XHCI_TRB_TYPE_LINK = XHCI_TRB_TYPE 0x6"
definition XHCI_TRB_LINK_TOGGLE_CYLCE_BIT :: u32 where "XHCI_TRB_LINK_TOGGLE_CYLCE_BIT = 2"
definition XHCI_TRB_CONTROL_CYCLE_BIT :: u32 where "XHCI_TRB_CONTROL_CYCLE_BIT = 1"

definition zero_trb :: trb where
  "zero_trb = \<lparr>parameter_low = 0, parameter_high = 0, trb_status = 0, control = 0\<rparr>"

definition trb_type :: "trb \<Rightarrow> u32" where
  "trb_type t = drop_bit 10 (control t) AND 0x3f"

definition xhci_trb_is_type :: "trb \<Rightarrow> u32 \<Rightarrow> bool" where
  "xhci_trb_is_type t type_mask \<longleftrightarrow> trb_type t = drop_bit 10 type_mask"

text \<open>\<open>memory_set(page, 0, PAGE_SIZE)\<close> makes the page a page of empty TRBs.\<close>

definition clear_trbs :: "u64 \<Rightarrow> (('h, 'd, 'z) xhci_mem_scheme, unit) prog" where
  "clear_trbs page = upd (\<lambda>s. s\<lparr>trbs := (\<lambda>a. if a - page < 4096 \<and> (a - page) mod TRB_SIZE = 0
     then Some zero_trb else trbs s a)\<rparr>)"

definition xhci_transfer_ring_init ::
  "allocated_page \<Rightarrow> u64 \<Rightarrow> (('h, 'd, 'z) xhci_mem_scheme, trb_ring) prog" where
  "xhci_transfer_ring_init page count =
     (let ring = \<lparr>tr_base_address = page_virtual page, tr_enqueue_ptr = page_virtual page, tr_dequeue_ptr = 0,
            tr_link_trb = page_virtual page + (count - 1) * TRB_SIZE, tr_ring_size = count, tr_entry_count = 0, tr_cycle_bit = 1\<rparr>;
          link_trb = \<lparr>parameter_low = ucast (page_physical page), parameter_high = ucast (drop_bit 32 (page_physical page)),
            trb_status = 0, control = XHCI_TRB_TYPE_LINK OR XHCI_TRB_LINK_TOGGLE_CYLCE_BIT OR 1\<rparr> in
      thn (assign trbs trbs_update (tr_link_trb ring) (\<lambda>_. link_trb)) (ret ring))"

text \<open>The cycle bit of a TRB.\<close>

definition with_cycle :: "u8 \<Rightarrow> trb \<Rightarrow> trb" where
  "with_cycle cycle t = (if cycle = 1 then t\<lparr>control := control t OR 1\<rparr> else t\<lparr>control := control t AND NOT 1\<rparr>)"

text \<open>
  The code sets the cycle bit in the TRB of the caller and copies it into the ring. That TRB is a
  local variable in every caller and is not read again, so it has no counterpart.
\<close>

definition xhci_transfer_ring_enqueue ::
  "trb_ring \<Rightarrow> trb \<Rightarrow> (('h, 'd, 'z) xhci_mem_scheme, trb_ring) prog" where
  "xhci_transfer_ring_enqueue ring t =
     bnd (if tr_entry_count ring \<ge> tr_ring_size ring - 1
          then thn (assign trbs trbs_update (tr_link_trb ring) (with_cycle (tr_cycle_bit ring)))
            (ret (ring\<lparr>tr_cycle_bit := (if tr_cycle_bit ring = 0 then 1 else 0),
               tr_enqueue_ptr := tr_base_address ring, tr_entry_count := 0\<rparr>))
          else ret ring) (\<lambda>ring.
     thn (assign trbs trbs_update (tr_enqueue_ptr ring) (\<lambda>_. with_cycle (tr_cycle_bit ring) t))
         (ret (ring\<lparr>tr_enqueue_ptr := tr_enqueue_ptr ring + TRB_SIZE, tr_entry_count := tr_entry_count ring + 1\<rparr>)))"

definition xhci_event_ring_init :: "trb_ring \<Rightarrow> allocated_page \<Rightarrow> u64 \<Rightarrow> trb_ring" where
  "xhci_event_ring_init ring page count =
     ring\<lparr>tr_base_address := page_virtual page, tr_dequeue_ptr := page_virtual page, tr_ring_size := count,
       tr_entry_count := 0, tr_cycle_bit := 1\<rparr>"

definition xhci_event_ring_has_valid_trb :: "(('h, 'd, 'z) xhci_mem_scheme, bool) prog" where
  "xhci_event_ring_has_valid_trb =
     bnd (rd event_ring) (\<lambda>ring. bnd (deref trbs (tr_dequeue_ptr ring)) (\<lambda>t.
     ret (control t AND XHCI_TRB_CONTROL_CYCLE_BIT = ucast (tr_cycle_bit ring))))"

text \<open>The event that is taken, and whether its consumption could be announced; \<open>None\<close> for no event.\<close>

definition XHCI_RT_ERDP :: u32 where "XHCI_RT_ERDP = 0x38"

definition advance_event_ring :: "trb_ring \<Rightarrow> trb_ring" where
  "advance_event_ring ring =
     (let ring = ring\<lparr>tr_dequeue_ptr := tr_dequeue_ptr ring + TRB_SIZE, tr_entry_count := tr_entry_count ring + 1\<rparr> in
      if tr_entry_count ring \<ge> tr_ring_size ring
      then ring\<lparr>tr_cycle_bit := (if tr_cycle_bit ring = 0 then 1 else 0), tr_dequeue_ptr := tr_base_address ring,
             tr_entry_count := 0\<rparr>
      else ring)"

definition xhci_event_ring_dequeue ::
  "'d bus \<Rightarrow> (u64 \<Rightarrow> ('h, u64 option) prog) \<Rightarrow> (('h, 'd, 'z) xhci_mem_scheme, int \<times> trb option) prog" where
  "xhci_event_ring_dequeue b translate =
     bnd xhci_event_ring_has_valid_trb (\<lambda>valid.
     if \<not> valid then ret (-1, None)
     else bnd (rd event_ring) (\<lambda>ring. bnd (deref trbs (tr_dequeue_ptr ring)) (\<lambda>t.
       let ring = advance_event_ring ring in
       thn (upd (\<lambda>s. s\<lparr>event_ring := ring\<rparr>))
      (bnd (within kalloc kalloc_update (translate (tr_dequeue_ptr ring))) (\<lambda>pa.
       case pa of None \<Rightarrow> ret (-1, Some t)
       | Some pa \<Rightarrow> thn (xhci_write_rt_register64 b XHCI_RT_ERDP (pa OR push_bit 3 1)) (ret (0, Some t)))))))"

partial_function (option) xhci_event_ring_wait_for_event ::
  "(('h, 'd, 'z) xhci_mem_scheme \<Rightarrow> ('h, 'd, 'z) xhci_mem_scheme) \<Rightarrow> ('h, 'd, 'z) xhci_mem_scheme
     \<Rightarrow> (fault + unit \<times> ('h, 'd, 'z) xhci_mem_scheme) option" where
  "xhci_event_ring_wait_for_event controller s =
     (case xhci_event_ring_has_valid_trb s of
        Inl e \<Rightarrow> Some (Inl e)
      | Inr (valid, s') \<Rightarrow> if valid then Some (Inr ((), s'))
          else xhci_event_ring_wait_for_event controller (controller s'))"
section \<open>The shared pages\<close>

declare scan_pages.simps [simp del]

lemma scan_pages_run:
  assumes n: "XHCI_HEAP_MAX_PAGES = n" "start < n" "k \<le> n" "length allocated = n" "length checked = n"
    and done_: "\<And>j. j < k \<Longrightarrow> allocated ! ((start + j) mod n) = 1"
    and seen: "\<And>m. m < n \<Longrightarrow> checked ! m = (if \<exists>j < k. m = (start + j) mod n then 1 else 0)"
  shows "\<exists>j \<le> n. scan_pages allocated checked ((start + k) mod n) = Some ((start + j) mod n) \<and>
    (\<forall>l < j. allocated ! ((start + l) mod n) = 1) \<and> (j < n \<longrightarrow> allocated ! ((start + j) mod n) \<noteq> 1)"
  using n(3,5) done_ seen
proof (induction "n - k" arbitrary: k checked)
  case 0
  then have k: "k = n" by simp
  have "checked ! ((start + k) mod n) = 1" using 0(5) [of start] n(2) k by (auto intro!: exI [of _ 0])
  then have "scan_pages allocated checked ((start + k) mod n) = Some ((start + k) mod n)" by (subst scan_pages.simps) simp
  then show ?case using 0(4) k by blast
next
  case (Suc d)
  let ?i = "(start + k) mod n"
  have k: "k < n" and i: "?i < n" using Suc(2) n(2) by auto
  have un: "checked ! ?i = 0"
  proof -
    have "\<not> (\<exists>j < k. ?i = (start + j) mod n)" using index_other [OF n(2) _ k] by fastforce
    then show ?thesis using Suc.prems(4) [OF i] by simp
  qed
  show ?case
  proof (cases "allocated ! ?i = 1")
    case False
    then have "scan_pages allocated checked ?i = Some ?i" by (subst scan_pages.simps) simp
    then show ?thesis using Suc.prems(3) False k by (intro exI [of _ k]) auto
  next
    case True
    have step: "scan_pages allocated checked ?i = scan_pages allocated (checked[?i := 1]) ((start + Suc k) mod n)"
      using True un i by (subst scan_pages.simps) (simp add: n(1) mod_Suc)
    have "\<exists>j \<le> n. scan_pages allocated (checked[?i := 1]) ((start + Suc k) mod n) = Some ((start + j) mod n) \<and>
      (\<forall>l < j. allocated ! ((start + l) mod n) = 1) \<and> (j < n \<longrightarrow> allocated ! ((start + j) mod n) \<noteq> 1)"
    proof (rule Suc.hyps(1))
      show "d = n - Suc k" "Suc k \<le> n" "length (checked[?i := 1]) = n" using Suc.hyps(2) k Suc.prems(2) by simp_all
      show "allocated ! ((start + j) mod n) = 1" if "j < Suc k" for j
        using that True Suc.prems(3) by (auto simp: less_Suc_eq)
      show "checked[?i := 1] ! m = (if \<exists>j < Suc k. m = (start + j) mod n then 1 else 0)" if "m < n" for m
        using that Suc.prems(2,4) i by (auto simp: nth_list_update less_Suc_eq)
    qed
    then show ?thesis using step by simp
  qed
qed

definition pages_ok :: "('h, 'd, 'z) xhci_mem_scheme \<Rightarrow> bool" where
  "pages_ok s \<longleftrightarrow> length (heap_page_allocated s) = 512 \<and> set (heap_page_allocated s) \<subseteq> {0, 1} \<and>
     unat (last_modified_heap_page_idx s) < 512"

definition free_pages :: "('h, 'd, 'z) xhci_mem_scheme \<Rightarrow> nat set" where
  "free_pages s = {i. i < 512 \<and> heap_page_allocated s ! i = 0}"

definition shared_page :: "nat \<Rightarrow> u64" where
  "shared_page i = XHCI_HEAP_VIRTUAL_BASE + of_nat i * 4096"

lemma xhci_alloc_page_run:
  assumes ok: "pages_ok s" and tr: "\<And>i. i < 512 \<Longrightarrow> translate (shared_page i) (kalloc s) = Inr (Some (pa i), kalloc s)"
  shows "if free_pages s = {} then xhci_alloc_page translate s = Inr (None, s)
    else \<exists>i \<in> free_pages s. xhci_alloc_page translate s =
      Inr (Some \<lparr>page_virtual = shared_page i, page_physical = pa i\<rparr>,
        s\<lparr>heap_page_allocated := (heap_page_allocated s)[i := 1], last_modified_heap_page_idx := of_nat i\<rparr>)"
proof -
  let ?a = "heap_page_allocated s" and ?l = "unat (last_modified_heap_page_idx s)"
  have len: "length ?a = 512" and l: "?l < 512" using ok by (simp_all add: pages_ok_def)
  have bit: "?a ! i = 0 \<longleftrightarrow> ?a ! i \<noteq> 1" if "i < 512" for i
  proof -
    have "?a ! i \<in> {0, 1}" using ok that nth_mem [of i ?a] unfolding pages_ok_def by (metis subsetD)
    then show ?thesis by auto
  qed
  obtain j where j: "j \<le> 512" "scan_pages ?a (replicate XHCI_HEAP_MAX_PAGES 0) ?l = Some ((?l + j) mod 512)"
    "\<forall>m < j. ?a ! ((?l + m) mod 512) = 1" "j < 512 \<longrightarrow> ?a ! ((?l + j) mod 512) \<noteq> 1"
    using scan_pages_run [of 512 ?l 0 ?a "replicate XHCI_HEAP_MAX_PAGES 0"] l len by (auto simp: XHCI_HEAP_MAX_PAGES_def)
  let ?i = "(?l + j) mod 512"
  have sp: "XHCI_HEAP_VIRTUAL_BASE + of_nat ?i * 4096 = shared_page ?i" by (simp only: shared_page_def)
  have im: "?i < 512" by simp
  show ?thesis
  proof (cases "j < 512")
    case True
    then have f: "?i \<in> free_pages s" "?a ! ?i \<noteq> 1" using j(4) bit [OF im] by (simp_all add: free_pages_def)
    then have "xhci_alloc_page translate s = Inr (Some \<lparr>page_virtual = shared_page ?i, page_physical = pa ?i\<rparr>,
        s\<lparr>heap_page_allocated := ?a[?i := 1], last_modified_heap_page_idx := of_nat ?i\<rparr>)"
      using j(2) tr [OF im] by (simp add: xhci_alloc_page_def Let_def sp del: of_nat_mod)
    then show ?thesis using f(1) by auto
  next
    case False
    then have j512: "j = 512" using j(1) by simp
    have all: "?a ! i = 1" if "i < 512" for i
    proof -
      have "(?l + (i + (512 - ?l)) mod 512) mod 512 = i" using that l by (simp add: mod_add_right_eq)
      then show ?thesis using j(3) j512 by (metis mod_less_divisor zero_less_numeral)
    qed
    have "xhci_alloc_page translate s = Inr (None, s)"
      using j(2) all [OF im] by (simp add: xhci_alloc_page_def)
    moreover have "free_pages s = {}" using all by (auto simp: free_pages_def)
    ultimately show ?thesis by simp
  qed
qed

lemma xhci_free_page_run:
  assumes i: "i < 512"
  shows "xhci_free_page \<lparr>page_virtual = shared_page i, page_physical = p\<rparr> s =
    Inr (0, s\<lparr>heap_page_allocated := (heap_page_allocated s)[i := 0], last_modified_heap_page_idx := of_nat i\<rparr>)"
proof -
  have u: "unat (of_nat i :: u64) = i" using i by (intro unat_of_nat_64) simp
  then have "unat (of_nat i * 4096 :: u64) = i * 4096" using i by (subst unat_mult_no_wrap) simp_all
  then have "(shared_page i - XHCI_HEAP_VIRTUAL_BASE) div 4096 = of_nat i"
    using u by (simp add: shared_page_def word_unat_eq_iff unat_div)
  then show ?thesis using i u by (simp add: xhci_free_page_def XHCI_HEAP_MAX_PAGES_def word_le_nat_alt)
qed

lemma pages_ok_update:
  assumes "pages_ok s" "i < 512" "v \<in> {0, 1}"
  shows "pages_ok (s\<lparr>heap_page_allocated := (heap_page_allocated s)[i := v], last_modified_heap_page_idx := of_nat i\<rparr>)"
    "free_pages (s\<lparr>heap_page_allocated := (heap_page_allocated s)[i := v], last_modified_heap_page_idx := of_nat i\<rparr>)
      = (if v = 0 then insert i (free_pages s) else free_pages s - {i})"
proof -
  have "unat (of_nat i :: u64) = i" using assms(2) by (intro unat_of_nat_64) simp
  then show "pages_ok (s\<lparr>heap_page_allocated := (heap_page_allocated s)[i := v], last_modified_heap_page_idx := of_nat i\<rparr>)"
    using assms set_update_subset_insert [of "heap_page_allocated s" i v] by (auto simp: pages_ok_def)
  show "free_pages (s\<lparr>heap_page_allocated := (heap_page_allocated s)[i := v], last_modified_heap_page_idx := of_nat i\<rparr>)
      = (if v = 0 then insert i (free_pages s) else free_pages s - {i})"
    using assms by (auto simp: free_pages_def pages_ok_def nth_list_update)
qed
section \<open>A transfer ring as the controller sees it\<close>

text \<open>
  The consumer of a ring according to the xHCI specification: it owns a pointer, which is a physical
  address, and a cycle state. A TRB is ready when its cycle bit is the cycle state; a link TRB leads
  to its target, and its toggle bit flips the cycle state.
\<close>

record consumer =
  c_pointer :: u64
  c_cycle :: bool

definition has_cycle :: "trb \<Rightarrow> bool" where
  "has_cycle t \<longleftrightarrow> bit (control t) 0"

definition link_target :: "trb \<Rightarrow> u64" where
  "link_target t = push_bit 32 (ucast (parameter_high t)) OR ucast (parameter_low t)"

definition is_link :: "trb \<Rightarrow> bool" where
  "is_link t \<longleftrightarrow> trb_type t = 6"

definition controller_fetch :: "(u64 \<rightharpoonup> trb) \<Rightarrow> consumer \<Rightarrow> trb option \<times> consumer" where
  "controller_fetch m c =
     (case m (c_pointer c) of None \<Rightarrow> (None, c)
      | Some t \<Rightarrow>
          if has_cycle t \<noteq> c_cycle c then (None, c)
          else if is_link t then
            (let c' = \<lparr>c_pointer = link_target t, c_cycle = (c_cycle c \<noteq> bit (control t) 1)\<rparr> in
             case m (c_pointer c') of None \<Rightarrow> (None, c')
             | Some t' \<Rightarrow> if has_cycle t' \<noteq> c_cycle c' \<or> is_link t' then (None, c')
                 else (Some t', c'\<lparr>c_pointer := c_pointer c' + 16\<rparr>))
          else (Some t, c\<lparr>c_pointer := c_pointer c + 16\<rparr>))"

text \<open>The memory of the ring at its physical addresses.\<close>

definition physical_trbs :: "allocated_page \<Rightarrow> (u64 \<rightharpoonup> trb) \<Rightarrow> u64 \<rightharpoonup> trb" where
  "physical_trbs page m = (\<lambda>p. m (p - page_physical page + page_virtual page))"

definition cycle_of :: "nat \<Rightarrow> u8" where
  "cycle_of lap = (if even lap then 1 else 0)"

definition link_trb :: "allocated_page \<Rightarrow> bool \<Rightarrow> trb" where
  "link_trb page c = \<lparr>parameter_low = ucast (page_physical page), parameter_high = ucast (drop_bit 32 (page_physical page)),
     trb_status = 0, control = (if c then 0x1803 else 0x1802)\<rparr>"

lemma with_cycle_facts [simp]:
  "has_cycle (with_cycle c t) \<longleftrightarrow> c = 1" "trb_type (with_cycle c t) = trb_type t" "is_link (with_cycle c t) = is_link t"
proof -
  have "drop_bit 10 (w OR 1) = drop_bit 10 w" for w :: u32
    by (rule bit_word_eqI) (simp add: bit_drop_bit_eq bit_or_iff bit_1_iff)
  moreover have "drop_bit 10 (w AND NOT 1) = drop_bit 10 w" for w :: u32
    by (rule bit_word_eqI, unfold bit_drop_bit_eq bit_and_iff bit_not_iff bit_1_iff) (auto dest: bit_imp_le_length)
  ultimately show ty: "trb_type (with_cycle c t) = trb_type t" by (simp add: trb_type_def with_cycle_def)
  then show "is_link (with_cycle c t) = is_link t" by (simp add: is_link_def)
  show "has_cycle (with_cycle c t) \<longleftrightarrow> c = 1"
    by (simp add: has_cycle_def with_cycle_def bit_or_iff bit_and_iff bit_not_iff)
qed

lemma zero_trb_cycle [simp]: "\<not> has_cycle zero_trb" "\<not> is_link zero_trb"
  by (simp_all add: has_cycle_def zero_trb_def is_link_def trb_type_def)

lemma link_trb_facts [simp]:
  "has_cycle (link_trb page c) = c" "is_link (link_trb page c)" "bit (control (link_trb page c)) 1"
  "link_target (link_trb page c) = page_physical page" "with_cycle (cycle_of l) (link_trb page c) = link_trb page (even l)"
proof -
  show "link_target (link_trb page c) = page_physical page"
    unfolding link_target_def link_trb_def
    by (rule bit_word_eqI) (auto simp: bit_or_iff bit_push_bit_iff bit_ucast_iff bit_drop_bit_eq)
qed (simp_all add: has_cycle_def is_link_def trb_type_def link_trb_def with_cycle_def cycle_of_def bit_numeral_rec)

text \<open>
  The history of a ring of \<open>M\<close> slots and a link: \<open>xs\<close> are all the TRBs that were ever enqueued, in
  \<open>lap\<close> full laps and \<open>e\<close> slots of the current one.
\<close>

definition slot_trb :: "trb list \<Rightarrow> nat \<Rightarrow> nat \<Rightarrow> nat \<Rightarrow> nat \<Rightarrow> trb" where
  "slot_trb xs M lap e j =
     (if j < e then with_cycle (cycle_of lap) (xs ! (lap * M + j))
      else if lap = 0 then zero_trb else with_cycle (cycle_of (lap - 1)) (xs ! ((lap - 1) * M + j)))"

definition slot_at :: "allocated_page \<Rightarrow> nat \<Rightarrow> u64" where
  "slot_at page i = page_virtual page + of_nat i * 16"

definition ring_history ::
  "(u64 \<rightharpoonup> trb) \<Rightarrow> trb_ring \<Rightarrow> allocated_page \<Rightarrow> nat \<Rightarrow> trb list \<Rightarrow> nat \<Rightarrow> nat \<Rightarrow> bool" where
  "ring_history m r page M xs lap e \<longleftrightarrow>
     r = \<lparr>tr_base_address = page_virtual page, tr_enqueue_ptr = slot_at page e, tr_dequeue_ptr = 0,
          tr_link_trb = slot_at page M, tr_ring_size = of_nat M + 1, tr_entry_count = of_nat e, tr_cycle_bit = cycle_of lap\<rparr> \<and>
     0 < M \<and> M < 2 ^ 16 \<and> length xs = lap * M + e \<and> e \<le> M \<and> (e = 0 \<longrightarrow> lap = 0) \<and>
     (\<forall>j < M. m (slot_at page j) = Some (slot_trb xs M lap e j)) \<and>
     m (slot_at page M) = Some (link_trb page (lap = 0 \<or> odd lap)) \<and> (\<forall>x \<in> set xs. \<not> is_link x)"

lemma slot_at_inject:
  assumes "i \<le> M" "j \<le> M" "M < 2 ^ 16" shows "slot_at page i = slot_at page j \<longleftrightarrow> i = j"
proof
  assume "slot_at page i = slot_at page j"
  then have "of_nat (i * 16) = (of_nat (j * 16) :: u64)" by (simp add: slot_at_def)
  then have "i * 16 = j * 16" using assms by (subst (asm) of_nat_64_inject) simp_all
  then show "i = j" by simp
qed simp

lemma enqueue_history:
  assumes h: "ring_history (trbs s) r page M xs lap e" and t: "\<not> is_link t"
  obtains r' m' lap' e' where "xhci_transfer_ring_enqueue r t s = Inr (r', s\<lparr>trbs := m'\<rparr>)"
    "ring_history m' r' page M (xs @ [t]) lap' e'" "\<And>a. (\<forall>j \<le> M. a \<noteq> slot_at page j) \<Longrightarrow> m' a = trbs s a"
proof (cases "e = M")
  case False
  have r: "r = \<lparr>tr_base_address = page_virtual page, tr_enqueue_ptr = slot_at page e, tr_dequeue_ptr = 0,
      tr_link_trb = slot_at page M, tr_ring_size = of_nat M + 1, tr_entry_count = of_nat e, tr_cycle_bit = cycle_of lap\<rparr>"
    and M: "0 < M" "M < 2 ^ 16" and len: "length xs = lap * M + e" and e: "e < M"
    and sl: "\<And>j. j < M \<Longrightarrow> trbs s (slot_at page j) = Some (slot_trb xs M lap e j)"
    and ln: "trbs s (slot_at page M) = Some (link_trb page (lap = 0 \<or> odd lap))" and nl: "\<forall>x \<in> set xs. \<not> is_link x"
    using h False unfolding ring_history_def by auto
  have u: "unat (of_nat e :: u64) = e" "unat (of_nat M :: u64) = M" using e M(2) by (intro unat_of_nat_64; simp)+
  have "\<not> tr_entry_count r \<ge> tr_ring_size r - 1" using e u by (simp add: r word_le_nat_alt)
  then have run: "xhci_transfer_ring_enqueue r t s = Inr (r\<lparr>tr_enqueue_ptr := slot_at page (Suc e), tr_entry_count := of_nat (Suc e)\<rparr>,
      s\<lparr>trbs := (trbs s)(slot_at page e \<mapsto> with_cycle (cycle_of lap) t)\<rparr>)" (is "_ = Inr (?r, s\<lparr>trbs := ?m\<rparr>)")
    using sl [OF e] by (simp add: xhci_transfer_ring_enqueue_def r slot_at_def TRB_SIZE_def algebra_simps)
  have ne: "slot_at page j = slot_at page e \<longleftrightarrow> j = e" if "j \<le> M" for j
    using slot_at_inject [OF that _ M(2), of e page] e by simp
  have "ring_history ?m ?r page M (xs @ [t]) lap (Suc e)"
    unfolding ring_history_def
  proof (intro conjI allI impI)
    show "?m (slot_at page j) = Some (slot_trb (xs @ [t]) M lap (Suc e) j)" if "j < M" for j
    proof (cases "lap = 0")
      case True
      then show ?thesis using that sl [OF that] ne [of j] len by (auto simp: slot_trb_def nth_append)
    next
      case False
      then have "(lap - 1) * M + j < lap * M" using that by (cases lap) simp_all
      then show ?thesis using that sl [OF that] ne [of j] len by (auto simp: slot_trb_def nth_append)
    qed
    show "?m (slot_at page M) = Some (link_trb page (lap = 0 \<or> odd lap))" using ln ne [of M] e by simp
  qed (use M e len nl t in \<open>auto simp: r\<close>)
  then show thesis using run that e by auto
next
  case True
  have r: "r = \<lparr>tr_base_address = page_virtual page, tr_enqueue_ptr = slot_at page M, tr_dequeue_ptr = 0,
      tr_link_trb = slot_at page M, tr_ring_size = of_nat M + 1, tr_entry_count = of_nat M, tr_cycle_bit = cycle_of lap\<rparr>"
    and M: "0 < M" "M < 2 ^ 16" and len: "length xs = lap * M + M"
    and sl: "\<And>j. j < M \<Longrightarrow> trbs s (slot_at page j) = Some (with_cycle (cycle_of lap) (xs ! (lap * M + j)))"
    and ln: "trbs s (slot_at page M) = Some (link_trb page (lap = 0 \<or> odd lap))" and nl: "\<forall>x \<in> set xs. \<not> is_link x"
    using h True unfolding ring_history_def by (auto simp: slot_trb_def)
  have b: "page_virtual page = slot_at page 0" by (simp add: slot_at_def)
  have cy: "(if cycle_of lap = 0 then 1 else 0) = cycle_of (Suc lap)" by (simp add: cycle_of_def)
  have ne: "slot_at page i = slot_at page j \<longleftrightarrow> i = j" if "i \<le> M" "j \<le> M" for i j
    by (rule slot_at_inject [OF that M(2)])
  let ?r = "r\<lparr>tr_cycle_bit := cycle_of (Suc lap), tr_enqueue_ptr := slot_at page 1, tr_entry_count := 1\<rparr>"
  let ?m = "(trbs s)(slot_at page M \<mapsto> link_trb page (even lap), slot_at page 0 \<mapsto> with_cycle (cycle_of (Suc lap)) t)"
  have "tr_entry_count r \<ge> tr_ring_size r - 1" by (simp add: r)
  then have run: "xhci_transfer_ring_enqueue r t s = Inr (?r, s\<lparr>trbs := ?m\<rparr>)"
    using sl [of 0] ln M(1) ne [of 0 M] cy
    by (simp add: xhci_transfer_ring_enqueue_def r b TRB_SIZE_def) (simp add: slot_at_def)
  have "ring_history ?m ?r page M (xs @ [t]) (Suc lap) 1"
    unfolding ring_history_def
  proof (intro conjI allI impI)
    show "?m (slot_at page j) = Some (slot_trb (xs @ [t]) M (Suc lap) 1 j)" if "j < M" for j
      using that sl [OF that] ne [of j 0] ne [of j M] len by (cases "j = 0") (auto simp: slot_trb_def nth_append)
    show "?m (slot_at page M) = Some (link_trb page (Suc lap = 0 \<or> odd (Suc lap)))" using ne [of M 0] M(1) by simp
  qed (use M len nl t in \<open>auto simp: r b\<close>)
  moreover have "?m a = trbs s a" if "\<forall>j \<le> M. a \<noteq> slot_at page j" for a
    using that [rule_format, of 0] that [rule_format, of M] by simp
  ultimately show thesis by (rule that [OF run])
qed
text \<open>The consumer has fetched \<open>lap * M + i\<close> TRBs.\<close>

definition consumer_at :: "allocated_page \<Rightarrow> nat \<Rightarrow> consumer \<Rightarrow> nat \<Rightarrow> nat \<Rightarrow> bool" where
  "consumer_at page M c lap i \<longleftrightarrow> i \<le> M \<and> c = \<lparr>c_pointer = page_physical page + of_nat i * 16, c_cycle = even lap\<rparr>"

definition ring_queue ::
  "(u64 \<rightharpoonup> trb) \<Rightarrow> trb_ring \<Rightarrow> allocated_page \<Rightarrow> nat \<Rightarrow> consumer \<Rightarrow> trb list \<Rightarrow> bool" where
  "ring_queue m r page M c q \<longleftrightarrow> (\<exists>xs lap e l i. ring_history m r page M xs lap e \<and> consumer_at page M c l i \<and>
     l * M + i \<le> length xs \<and> q = drop (l * M + i) xs \<and> length q \<le> M)"

lemma lap_le: "l * M + i \<le> lap * M + e \<Longrightarrow> e \<le> M \<Longrightarrow> 0 < M \<Longrightarrow> l \<le> Suc lap"
proof (rule ccontr)
  assume a: "l * M + i \<le> lap * M + e" "e \<le> M" "0 < M" "\<not> l \<le> Suc lap"
  then have "Suc (Suc lap) * M \<le> l * M" by (intro mult_le_mono1) simp
  then show False using a by simp
qed

text \<open>What the consumer finds in the slot it looks at.\<close>

lemma slot_found:
  assumes h: "ring_history m r page M xs lap e" and i: "i < M"
    and c: "l * M + i \<le> length xs" "length xs \<le> l * M + i + M"
  shows "if l * M + i < length xs then m (slot_at page i) = Some (with_cycle (cycle_of l) (xs ! (l * M + i)))
    else \<exists>t. m (slot_at page i) = Some t \<and> has_cycle t \<noteq> even l"
proof -
  have len: "length xs = lap * M + e" and e: "e \<le> M" "e = 0 \<longrightarrow> lap = 0" and M: "0 < M"
    and sl: "m (slot_at page i) = Some (slot_trb xs M lap e i)"
    using h i unfolding ring_history_def by auto
  have cyc: "cycle_of n = 1 \<longleftrightarrow> even n" for n by (simp add: cycle_of_def)
  have l1: "l \<le> Suc lap" by (rule lap_le [OF _ e(1) M, of l i]) (use c len in simp)
  have l2: "lap \<le> Suc l"
  proof (rule ccontr)
    assume "\<not> lap \<le> Suc l"
    then have "Suc (Suc l) * M \<le> lap * M" by (intro mult_le_mono1) simp
    then show False using c(2) len i by simp
  qed
  consider "l = lap" | "l = Suc lap" | "lap = Suc l" using l1 l2 by linarith
  then show ?thesis
  proof cases
    case 1
    then show ?thesis using sl len c by (auto simp: slot_trb_def cyc)
  next
    case 2
    then have "e = M" "i = 0" using c(1) len e(1) by simp_all
    then show ?thesis using sl len 2 M by (auto simp: slot_trb_def cyc)
  next
    case 3
    then have "e \<le> i" "0 < e" using c(2) len e(2) by auto
    then show ?thesis using sl len 3 i by (auto simp: slot_trb_def)
  qed
qed

text \<open>The link TRB leads on exactly when the driver has gone on.\<close>

lemma link_found:
  assumes h: "ring_history m r page M xs lap e" and c: "Suc l * M \<le> length xs" "length xs \<le> Suc l * M + M"
  shows "\<exists>b. m (slot_at page M) = Some (link_trb page b) \<and> (b \<noteq> even l \<longrightarrow> length xs = Suc l * M)"
proof -
  have len: "length xs = lap * M + e" and e: "e \<le> M" "e = 0 \<longrightarrow> lap = 0" and M: "0 < M"
    and ln: "m (slot_at page M) = Some (link_trb page (lap = 0 \<or> odd lap))"
    using h unfolding ring_history_def by auto
  have "length xs = Suc l * M" if "(lap = 0 \<or> odd lap) \<noteq> even l"
  proof (rule ccontr)
    assume "length xs \<noteq> Suc l * M"
    then have gt: "Suc l * M < lap * M + e" using c(1) len by simp
    have "lap \<noteq> l" using gt e(1) by auto
    moreover have "l \<le> lap"
    proof (rule ccontr)
      assume "\<not> l \<le> lap"
      then have "Suc lap * M \<le> l * M" by (intro mult_le_mono1) simp
      then show False using gt e(1) by simp
    qed
    moreover have "lap \<le> Suc l"
    proof (rule ccontr)
      assume n: "\<not> lap \<le> Suc l"
      then have "Suc (Suc l) * M \<le> lap * M" by (intro mult_le_mono1) simp
      then show False using c(2) len e(2) n by auto
    qed
    ultimately have "lap = Suc l" by simp
    then show False using that by simp
  qed
  then show ?thesis using ln by blast
qed

lemma fetch_slot:
  assumes h: "ring_history m r page M xs lap e" and i: "i < M"
    and c: "l * M + i \<le> length xs" "length xs \<le> l * M + i + M"
  defines "p \<equiv> page_physical page + of_nat i * 16"
  obtains t where "physical_trbs page m p = Some t"
    "l * M + i < length xs \<Longrightarrow> t = with_cycle (cycle_of l) (xs ! (l * M + i)) \<and> has_cycle t = even l \<and> \<not> is_link t"
    "\<not> l * M + i < length xs \<Longrightarrow> has_cycle t \<noteq> even l"
proof -
  have p: "physical_trbs page m p = m (slot_at page i)" by (simp add: physical_trbs_def p_def slot_at_def algebra_simps)
  have nl: "\<forall>x \<in> set xs. \<not> is_link x" using h by (simp add: ring_history_def)
  show thesis
  proof (cases "l * M + i < length xs")
    case True
    then show thesis using slot_found [OF h i c] p nl nth_mem [OF True] that
      by (auto simp: cycle_of_def split: if_splits)
  next
    case False
    then show thesis using slot_found [OF h i c] p that by auto
  qed
qed

lemma fetch_none: "m p = Some t \<Longrightarrow> has_cycle t \<noteq> b \<Longrightarrow>
    controller_fetch m \<lparr>c_pointer = p, c_cycle = b\<rparr> = (None, \<lparr>c_pointer = p, c_cycle = b\<rparr>)"
  by (simp add: controller_fetch_def)

lemma fetch_ready: "m p = Some t \<Longrightarrow> has_cycle t = b \<Longrightarrow> \<not> is_link t \<Longrightarrow>
    controller_fetch m \<lparr>c_pointer = p, c_cycle = b\<rparr> = (Some t, \<lparr>c_pointer = p + 16, c_cycle = b\<rparr>)"
  by (simp add: controller_fetch_def)

lemma fetch_link_none: "m p = Some (link_trb page b) \<Longrightarrow> m (page_physical page) = Some t \<Longrightarrow> has_cycle t \<noteq> (\<not> b) \<Longrightarrow>
    controller_fetch m \<lparr>c_pointer = p, c_cycle = b\<rparr> = (None, \<lparr>c_pointer = page_physical page, c_cycle = (\<not> b)\<rparr>)"
  by (simp add: controller_fetch_def Let_def link_trb_facts(3) [unfolded One_nat_def])

lemma fetch_link_ready:
  "m p = Some (link_trb page b) \<Longrightarrow> m (page_physical page) = Some t \<Longrightarrow> has_cycle t = (\<not> b) \<Longrightarrow> \<not> is_link t \<Longrightarrow>
    controller_fetch m \<lparr>c_pointer = p, c_cycle = b\<rparr> = (Some t, \<lparr>c_pointer = page_physical page + 16, c_cycle = (\<not> b)\<rparr>)"
  by (simp add: controller_fetch_def Let_def link_trb_facts(3) [unfolded One_nat_def])

lemma fetch_queue:
  assumes q: "ring_queue m r page M c q"
  obtains c' where "controller_fetch (physical_trbs page m) c = (None, c')" "q = []" "ring_queue m r page M c' []"
  | c' b t q' where "controller_fetch (physical_trbs page m) c = (Some (with_cycle b t), c')" "q = t # q'"
      "ring_queue m r page M c' q'"
proof -
  obtain xs lap e l i where h: "ring_history m r page M xs lap e" and ca: "consumer_at page M c l i"
    and n: "l * M + i \<le> length xs" "q = drop (l * M + i) xs" "length q \<le> M"
    using q unfolding ring_queue_def by blast
  have M: "0 < M" using h by (simp add: ring_history_def)
  have up: "length xs \<le> l * M + i + M" using n by simp
  have got: "ring_queue m r page M \<lparr>c_pointer = page_physical page + of_nat j * 16 + 16, c_cycle = even k\<rparr> (tl q)"
    if "j < M" "k * M + j = l * M + i" "q \<noteq> []" for j k
  proof -
    have "consumer_at page M \<lparr>c_pointer = page_physical page + of_nat j * 16 + 16, c_cycle = even k\<rparr> k (Suc j)"
      using that by (simp add: consumer_at_def algebra_simps)
    moreover have "k * M + Suc j \<le> length xs" "tl q = drop (k * M + Suc j) xs"
      using that n by (simp_all add: tl_drop flip: drop_Suc)
    moreover have "length (tl q) \<le> M" using n(3) by simp
    ultimately show ?thesis using h unfolding ring_queue_def by blast
  qed
  have stay: "ring_queue m r page M \<lparr>c_pointer = page_physical page + of_nat j * 16, c_cycle = even k\<rparr> q"
    if "j \<le> M" "k * M + j = l * M + i" for j k
  proof -
    have "consumer_at page M \<lparr>c_pointer = page_physical page + of_nat j * 16, c_cycle = even k\<rparr> k j"
      using that(1) by (simp add: consumer_at_def)
    moreover have "k * M + j \<le> length xs" "q = drop (k * M + j) xs" using n that(2) by simp_all
    ultimately show ?thesis using h n(3) unfolding ring_queue_def by blast
  qed
  have hd: "xs ! (l * M + i) = hd q" if "q \<noteq> []" using that n by (simp add: hd_drop_conv_nth)
  have ne: "l * M + i < length xs \<longleftrightarrow> q \<noteq> []" using n by auto
  have c: "c = \<lparr>c_pointer = page_physical page + of_nat i * 16, c_cycle = even l\<rparr>" and iM: "i \<le> M"
    using ca by (simp_all add: consumer_at_def)
  show thesis
  proof (cases "i = M")
    case False
    then have i: "i < M" using iM by simp
    obtain t where t: "physical_trbs page m (page_physical page + of_nat i * 16) = Some t"
      "q \<noteq> [] \<Longrightarrow> t = with_cycle (cycle_of l) (hd q) \<and> has_cycle t = even l \<and> \<not> is_link t" "q = [] \<Longrightarrow> has_cycle t \<noteq> even l"
      using fetch_slot [OF h i n(1) up] hd ne by metis
    show thesis
    proof (cases "q = []")
      case True
      show thesis by (rule that(1) [OF _ True]) (use fetch_none [where m = "physical_trbs page m" and b = "even l", OF t(1)] t(3) [OF True] q True in \<open>simp_all add: c\<close>)
    next
      case False
      have "controller_fetch (physical_trbs page m) c =
          (Some (with_cycle (cycle_of l) (hd q)), \<lparr>c_pointer = page_physical page + of_nat i * 16 + 16, c_cycle = even l\<rparr>)"
        using fetch_ready [where m = "physical_trbs page m" and b = "even l", OF t(1)] t(2) [OF False] unfolding c by metis
      moreover have "q = hd q # tl q" using False by simp
      ultimately show thesis by (rule that(2) [OF _ _ got [OF i refl False]])
    qed
  next
    case True
    let ?b = "page_physical page + of_nat (0 :: nat) * 16"
    have at0: "Suc l * M + 0 = l * M + i" using True by simp
    obtain b where b: "m (slot_at page M) = Some (link_trb page b)" "b \<noteq> even l \<longrightarrow> length xs = Suc l * M"
      using link_found [OF h, of l] n(1) up True by auto
    have p: "physical_trbs page m (page_physical page + of_nat M * 16) = Some (link_trb page b)"
      using b(1) by (simp add: physical_trbs_def slot_at_def algebra_simps)
    show thesis
    proof (cases "b = even l")
      case False
      then have e: "q = []" using b(2) n True by simp
      show thesis by (rule that(1) [OF _ e]) (use fetch_none [where m = "physical_trbs page m" and b = "even l", OF p] False q e True in \<open>simp_all add: c\<close>)
    next
      case link: True
      obtain t where t: "physical_trbs page m (page_physical page) = Some t"
        "q \<noteq> [] \<Longrightarrow> t = with_cycle (cycle_of (Suc l)) (hd q) \<and> has_cycle t = even (Suc l) \<and> \<not> is_link t"
        "q = [] \<Longrightarrow> has_cycle t \<noteq> even (Suc l)"
      proof -
        have "Suc l * M + 0 \<le> length xs" "length xs \<le> Suc l * M + 0 + M" using n(1) up True by simp_all
        then obtain t where raw: "physical_trbs page m (page_physical page + of_nat (0 :: nat) * 16) = Some t"
          "Suc l * M + 0 < length xs \<Longrightarrow> t = with_cycle (cycle_of (Suc l)) (xs ! (Suc l * M + 0)) \<and> has_cycle t = even (Suc l) \<and> \<not> is_link t"
          "\<not> Suc l * M + 0 < length xs \<Longrightarrow> has_cycle t \<noteq> even (Suc l)"
          by (rule fetch_slot [OF h M]) (rule that)
        show thesis
        proof (rule that)
          show "physical_trbs page m (page_physical page) = Some t" using raw(1) by simp
          show "t = with_cycle (cycle_of (Suc l)) (hd q) \<and> has_cycle t = even (Suc l) \<and> \<not> is_link t" if "q \<noteq> []"
            by (rule raw(2) [unfolded at0, OF iffD2 [OF ne that], unfolded hd [OF that]])
          show "has_cycle t \<noteq> even (Suc l)" if "q = []" using raw(3) [unfolded at0] ne that by blast
        qed
      qed
      show thesis
      proof (cases "q = []")
        case True
        have "controller_fetch (physical_trbs page m) c = (None, \<lparr>c_pointer = page_physical page, c_cycle = even (Suc l)\<rparr>)"
          using fetch_link_none [where m = "physical_trbs page m", OF p t(1)] t(3) [OF True] link \<open>i = M\<close> by (simp add: c)
        then show thesis by (rule that(1) [OF _ True]) (use stay [OF le0 at0] True in simp)
      next
        case False
        note T = t(2) [OF False]
        note t' = conjunct1 [OF T] and nl = conjunct2 [OF conjunct2 [OF T]]
        have cy: "has_cycle t = (\<not> b)" by (simp only: conjunct1 [OF conjunct2 [OF T]] link even_Suc)
        have "controller_fetch (physical_trbs page m) \<lparr>c_pointer = page_physical page + of_nat M * 16, c_cycle = b\<rparr> =
            (Some t, \<lparr>c_pointer = page_physical page + 16, c_cycle = (\<not> b)\<rparr>)"
          by (rule fetch_link_ready [where m = "physical_trbs page m", OF p t(1) cy nl])
        moreover have "(\<not> b) = even (Suc l)" using link by simp
        ultimately have "controller_fetch (physical_trbs page m) c =
            (Some (with_cycle (cycle_of (Suc l)) (hd q)), \<lparr>c_pointer = page_physical page + 16, c_cycle = even (Suc l)\<rparr>)"
          unfolding c \<open>i = M\<close> t' [symmetric] link [symmetric] by (simp only:)
        moreover have "q = hd q # tl q" using False by simp
        moreover have "ring_queue m r page M \<lparr>c_pointer = page_physical page + 16, c_cycle = even (Suc l)\<rparr> (tl q)"
          using got [OF M at0 False] by simp
        ultimately show thesis by (rule that(2))
      qed
    qed
  qed
qed
lemma enqueue_queue:
  assumes q: "ring_queue (trbs s) r page M c q" and room: "length q < M" and t: "\<not> is_link t"
  obtains r' m' where "xhci_transfer_ring_enqueue r t s = Inr (r', s\<lparr>trbs := m'\<rparr>)" "ring_queue m' r' page M c (q @ [t])"
    "\<And>a. (\<forall>j \<le> M. a \<noteq> slot_at page j) \<Longrightarrow> m' a = trbs s a"
proof -
  obtain xs lap e l i where h: "ring_history (trbs s) r page M xs lap e" and ca: "consumer_at page M c l i"
    and n: "l * M + i \<le> length xs" "q = drop (l * M + i) xs"
    using q unfolding ring_queue_def by blast
  obtain r' m' lap' e' where run: "xhci_transfer_ring_enqueue r t s = Inr (r', s\<lparr>trbs := m'\<rparr>)"
    "ring_history m' r' page M (xs @ [t]) lap' e'" "\<And>a. (\<forall>j \<le> M. a \<noteq> slot_at page j) \<Longrightarrow> m' a = trbs s a"
    by (rule enqueue_history [OF h t]) (rule that)
  have "q @ [t] = drop (l * M + i) (xs @ [t])" "l * M + i \<le> length (xs @ [t])" "length (q @ [t]) \<le> M"
    using n room by simp_all
  then have "ring_queue m' r' page M c (q @ [t])" using run(2) ca unfolding ring_queue_def by blast
  then show thesis by (rule that [OF run(1) _ run(3)])
qed

text \<open>A ring of 256 TRBs in a page that was cleared holds nothing.\<close>

lemma ring_init_history:
  obtains r m' where "bnd (clear_trbs (page_virtual page)) (\<lambda>_. xhci_transfer_ring_init page 256) s = Inr (r, s\<lparr>trbs := m'\<rparr>)"
    "ring_history m' r page 255 [] 0 0"
proof -
  let ?z = "\<lambda>a. if a - page_virtual page < 4096 \<and> (a - page_virtual page) mod TRB_SIZE = 0 then Some zero_trb else trbs s a"
  have z: "?z (slot_at page i) = Some zero_trb" if "i < 256" for i
  proof -
    have "unat (of_nat (i * 16) :: u64) = i * 16" using that by (intro unat_of_nat_64) simp
    then have "slot_at page i - page_virtual page < 4096 \<and> (slot_at page i - page_virtual page) mod TRB_SIZE = 0"
      using that by (simp add: slot_at_def TRB_SIZE_def word_less_nat_alt word_unat_eq_iff unat_mod)
    then show ?thesis by simp
  qed
  let ?r = "\<lparr>tr_base_address = page_virtual page, tr_enqueue_ptr = page_virtual page, tr_dequeue_ptr = 0,
     tr_link_trb = slot_at page 255, tr_ring_size = 256, tr_entry_count = 0, tr_cycle_bit = 1\<rparr>"
  let ?m = "?z(slot_at page 255 \<mapsto> link_trb page True)"
  have ln: "\<lparr>parameter_low = ucast (page_physical page), parameter_high = ucast (drop_bit 32 (page_physical page)),
      trb_status = 0, control = XHCI_TRB_TYPE_LINK OR XHCI_TRB_LINK_TOGGLE_CYLCE_BIT OR 1\<rparr> = link_trb page True"
    by (simp add: link_trb_def XHCI_TRB_TYPE_LINK_def XHCI_TRB_LINK_TOGGLE_CYLCE_BIT_def XHCI_TRB_TYPE_def)
  have "bnd (clear_trbs (page_virtual page)) (\<lambda>_. xhci_transfer_ring_init page 256) s = Inr (?r, s\<lparr>trbs := ?m\<rparr>)"
    unfolding clear_trbs_def xhci_transfer_ring_init_def ln Let_def using z [of 255]
    by (simp add: slot_at_def TRB_SIZE_def)
  moreover have "ring_history ?m ?r page 255 [] 0 0"
    unfolding ring_history_def
  proof (intro conjI allI impI)
    show "?m (slot_at page j) = Some (slot_trb [] 255 0 0 j)" if "j < 255" for j
    proof -
      have "slot_at page j \<noteq> slot_at page 255" using that by (subst slot_at_inject [of _ 255]) simp_all
      moreover have "?z (slot_at page j) = Some zero_trb" by (rule z) (use that in simp)
      ultimately show ?thesis by (simp only: slot_trb_def fun_upd_apply if_False if_True) simp
    qed
    show "?r = \<lparr>tr_base_address = page_virtual page, tr_enqueue_ptr = slot_at page 0, tr_dequeue_ptr = 0, tr_link_trb = slot_at page 255,
        tr_ring_size = of_nat 255 + 1, tr_entry_count = of_nat 0, tr_cycle_bit = cycle_of 0\<rparr>"
      by (simp add: slot_at_def cycle_of_def)
  qed simp_all
  ultimately show thesis by (rule that)
qed

lemma empty_history_queue:
  "ring_history m r page M [] 0 0 \<Longrightarrow> ring_queue m r page M \<lparr>c_pointer = page_physical page, c_cycle = True\<rparr> []"
  unfolding ring_queue_def consumer_at_def by (intro exI [of _ "[]"] exI [of _ 0] conjI) simp_all
section \<open>The ring is a queue\<close>

text \<open>The driver enqueues, the controller fetches, in any order.\<close>

datatype ring_op = Enqueue trb | Fetch

fun ring_run ::
  "allocated_page \<Rightarrow> ring_op list \<Rightarrow> trb_ring \<Rightarrow> consumer \<Rightarrow> (('h, 'd, 'z) xhci_mem_scheme, trb option list) prog" where
  "ring_run page [] r c = ret []"
| "ring_run page (Enqueue t # ops) r c = bnd (xhci_transfer_ring_enqueue r t) (\<lambda>r. ring_run page ops r c)"
| "ring_run page (Fetch # ops) r c =
     bnd (rd trbs) (\<lambda>m. let (got, c) = controller_fetch (physical_trbs page m) c in
     bnd (ring_run page ops r c) (\<lambda>out. ret (got # out)))"

text \<open>The abstract queue: it holds no more than its capacity and no link TRBs.\<close>

fun fifo_run :: "nat \<Rightarrow> ring_op list \<Rightarrow> trb list \<Rightarrow> trb option list option" where
  "fifo_run cap [] q = Some []"
| "fifo_run cap (Enqueue t # ops) q = (if length q < cap \<and> \<not> is_link t then fifo_run cap ops (q @ [t]) else None)"
| "fifo_run cap (Fetch # ops) [] = map_option (Cons None) (fifo_run cap ops [])"
| "fifo_run cap (Fetch # ops) (t # q) = map_option (Cons (Some t)) (fifo_run cap ops q)"

definition but_for_cycle :: "trb option list \<Rightarrow> trb option list" where
  "but_for_cycle = map (map_option (with_cycle 0))"

lemma with_cycle_twice [simp]: "with_cycle 0 (with_cycle b t) = with_cycle 0 t"
proof -
  have "(w OR 1) AND NOT 1 = w AND NOT 1" "(w AND NOT 1) AND NOT 1 = w AND NOT 1" for w :: u32
    by (rule bit_word_eqI, unfold bit_and_iff bit_or_iff bit_not_iff bit_1_iff, blast)+
  then show ?thesis by (simp add: with_cycle_def)
qed

lemma ring_run_fifo:
  assumes "ring_queue (trbs s) r page M c q" "fifo_run M ops q = Some out"
  shows "\<exists>got s'. ring_run page ops r c s = Inr (got, s') \<and> but_for_cycle got = but_for_cycle out"
  using assms
proof (induction ops arbitrary: s r c q out)
  case Nil
  then show ?case by simp
next
  case (Cons op ops)
  show ?case
  proof (cases op)
    case (Enqueue t)
    then have a: "length q < M" "\<not> is_link t" "fifo_run M ops (q @ [t]) = Some out"
      using Cons.prems(2) by (auto split: if_splits)
    obtain r' m' where run: "xhci_transfer_ring_enqueue r t s = Inr (r', s\<lparr>trbs := m'\<rparr>)" "ring_queue m' r' page M c (q @ [t])"
      by (rule enqueue_queue [OF Cons.prems(1) a(1,2)]) (rule that)
    have "ring_queue (trbs (s\<lparr>trbs := m'\<rparr>)) r' page M c (q @ [t])" using run(2) by simp
    from Cons.IH [OF this a(3)] show ?thesis by (simp add: Enqueue run(1))
  next
    case Fetch
    show ?thesis
    proof (rule fetch_queue [OF Cons.prems(1)])
      fix c' assume f: "controller_fetch (physical_trbs page (trbs s)) c = (None, c')" "q = []" "ring_queue (trbs s) r page M c' []"
      obtain out' where o: "fifo_run M ops [] = Some out'" "out = None # out'" using Cons.prems(2) f(2) Fetch by auto
      from Cons.IH [OF f(3) o(1)] show ?thesis using f(1) o(2) by (auto simp: Fetch but_for_cycle_def)
    next
      fix c' b t q'
      assume f: "controller_fetch (physical_trbs page (trbs s)) c = (Some (with_cycle b t), c')" "q = t # q'"
        "ring_queue (trbs s) r page M c' q'"
      obtain out' where o: "fifo_run M ops q' = Some out'" "out = Some t # out'" using Cons.prems(2) f(2) Fetch by auto
      from Cons.IH [OF f(3) o(1)] show ?thesis using f(1) o(2) by (auto simp: Fetch but_for_cycle_def)
    qed
  qed
qed

text \<open>C35: a transfer ring refines a bounded queue. Take a page that was cleared and initialised as a ring of 256
  TRBs, and any interleaving of enqueues by the driver and fetches by the controller in which at most
  255 TRBs are outstanding, none of them a link. Then no operation fails, and the controller fetches
  exactly what the abstract queue hands out, in order and as often, nothing when the queue is empty;
  only the cycle bits differ. The laps of the ring, the link TRB and the cycle bits are invisible.\<close>

theorem transfer_ring_is_fifo:
  assumes "fifo_run 255 ops [] = Some out"
  shows "\<exists>got s'. bnd (clear_trbs (page_virtual page)) (\<lambda>_. bnd (xhci_transfer_ring_init page 256) (\<lambda>r.
      ring_run page ops r \<lparr>c_pointer = page_physical page, c_cycle = True\<rparr>)) s = Inr (got, s') \<and>
    but_for_cycle got = but_for_cycle out"
proof -
  obtain r m' where i: "bnd (clear_trbs (page_virtual page)) (\<lambda>_. xhci_transfer_ring_init page 256) s = Inr (r, s\<lparr>trbs := m'\<rparr>)"
    "ring_history m' r page 255 [] 0 0"
    by (rule ring_init_history) (rule that)
  have "ring_queue (trbs (s\<lparr>trbs := m'\<rparr>)) r page 255 \<lparr>c_pointer = page_physical page, c_cycle = True\<rparr> []"
    using empty_history_queue [OF i(2)] by simp
  from ring_run_fifo [OF this assms] show ?thesis using i(1) by (auto simp: bnd_def split: sum.splits)
qed

lemma transfer_ring_is_fifo_witness:
  "fifo_run 255 [Enqueue (zero_trb\<lparr>control := 0x400\<rparr>), Fetch, Fetch] [] = Some [Some (zero_trb\<lparr>control := 0x400\<rparr>), None] \<and>
   (\<forall>s :: (unit, unit) xhci_mem. \<exists>got s'. bnd (clear_trbs 0x1000) (\<lambda>_.
      bnd (xhci_transfer_ring_init \<lparr>page_virtual = 0x1000, page_physical = 0x2000\<rparr> 256) (\<lambda>r.
      ring_run \<lparr>page_virtual = 0x1000, page_physical = 0x2000\<rparr> [Enqueue (zero_trb\<lparr>control := 0x400\<rparr>), Fetch, Fetch] r
        \<lparr>c_pointer = 0x2000, c_cycle = True\<rparr>)) s = Inr (got, s') \<and>
     but_for_cycle got = but_for_cycle [Some (zero_trb\<lparr>control := 0x400\<rparr>), None])"
proof -
  have f: "fifo_run 255 [Enqueue (zero_trb\<lparr>control := 0x400\<rparr>), Fetch, Fetch] [] = Some [Some (zero_trb\<lparr>control := 0x400\<rparr>), None]"
    by (simp add: is_link_def trb_type_def)
  show ?thesis
    by (rule conjI [OF f], rule allI)
      (rule transfer_ring_is_fifo [OF f, where page = "\<lparr>page_virtual = 0x1000, page_physical = 0x2000\<rparr>",
         unfolded allocated_page.select_convs])
qed

text \<open>The history grows by what is enqueued, consumer or not.\<close>

fun enqueue_all :: "trb list \<Rightarrow> trb_ring \<Rightarrow> (('h, 'd, 'z) xhci_mem_scheme, trb_ring) prog" where
  "enqueue_all [] r = ret r"
| "enqueue_all (t # ts) r = bnd (xhci_transfer_ring_enqueue r t) (enqueue_all ts)"

lemma enqueues_history:
  assumes "ring_history (trbs s) r page M xs lap e" "\<forall>t \<in> set ts. \<not> is_link t"
  shows "\<exists>r' m' lap' e'. enqueue_all ts r s = Inr (r', s\<lparr>trbs := m'\<rparr>) \<and> ring_history m' r' page M (xs @ ts) lap' e'"
  using assms
proof (induction ts arbitrary: s r xs lap e)
  case Nil
  have "s\<lparr>trbs := trbs s\<rparr> = s" by simp
  then show ?case using Nil(1) by (intro exI [of _ r] exI [of _ "trbs s"] exI [of _ lap] exI [of _ e]) simp
next
  case (Cons t ts)
  then have t: "\<not> is_link t" "\<forall>t \<in> set ts. \<not> is_link t" by simp_all
  obtain r1 m1 lap1 e1 where a: "xhci_transfer_ring_enqueue r t s = Inr (r1, s\<lparr>trbs := m1\<rparr>)"
    "ring_history m1 r1 page M (xs @ [t]) lap1 e1" by (rule enqueue_history [OF Cons.prems(1) t(1)]) (rule that)
  have "ring_history (trbs (s\<lparr>trbs := m1\<rparr>)) r1 page M (xs @ [t]) lap1 e1" using a(2) by simp
  from Cons.IH [OF this t(2)] show ?case using a(1) by auto
qed

text \<open>C36: nothing keeps the driver from overrunning a ring. When it enqueues 256 TRBs on an empty ring before
  the controller has fetched one, no enqueue fails; the last one overwrites the first, and the controller,
  which waits at the first slot, finds a TRB with the other cycle bit there: the ring looks empty to it,
  and all 256 requests are lost.\<close>

theorem transfer_ring_overrun:
  assumes h: "length ts = 256" "\<forall>t \<in> set ts. \<not> is_link t"
  shows "\<exists>r s'. bnd (clear_trbs (page_virtual page)) (\<lambda>_. bnd (xhci_transfer_ring_init page 256)
      (enqueue_all ts)) s = Inr (r, s') \<and>
    fst (controller_fetch (physical_trbs page (trbs s')) \<lparr>c_pointer = page_physical page, c_cycle = True\<rparr>) = None"
proof -
  obtain r m' where i: "bnd (clear_trbs (page_virtual page)) (\<lambda>_. xhci_transfer_ring_init page 256) s = Inr (r, s\<lparr>trbs := m'\<rparr>)"
    "ring_history m' r page 255 [] 0 0"
    by (rule ring_init_history) (rule that)
  have "ring_history (trbs (s\<lparr>trbs := m'\<rparr>)) r page 255 [] 0 0" using i(2) by simp
  from enqueues_history [OF this h(2)] obtain r2 m2 lap e where f:
    "enqueue_all ts r (s\<lparr>trbs := m'\<rparr>) = Inr (r2, s\<lparr>trbs := m2\<rparr>)"
    "ring_history m2 r2 page 255 ts lap e" by auto
  have n: "256 = lap * 255 + e" "e \<le> 255" "e = 0 \<longrightarrow> lap = 0" using f(2) h(1) by (simp_all add: ring_history_def)
  have l: "lap = 1" "e = 1" using n by (cases "lap = 0"; cases "lap = 1"; simp; arith)+
  have "m2 (slot_at page 0) = Some (slot_trb ts 255 1 1 0)" using f(2) by (simp add: ring_history_def l)
  then have "physical_trbs page m2 (page_physical page) = Some (with_cycle 0 (ts ! 255))"
    by (simp add: physical_trbs_def slot_at_def slot_trb_def cycle_of_def)
  then have "controller_fetch (physical_trbs page m2) \<lparr>c_pointer = page_physical page, c_cycle = True\<rparr> =
      (None, \<lparr>c_pointer = page_physical page, c_cycle = True\<rparr>)" by (rule fetch_none) simp
  then show ?thesis using i(1) f(1) by (auto simp: bnd_def split: sum.splits)
qed

lemma transfer_ring_overrun_witness:
  "length (replicate 256 zero_trb) = 256 \<and>
   (\<forall>s :: (unit, unit) xhci_mem. \<exists>r s'. bnd (clear_trbs 0x1000) (\<lambda>_.
      bnd (xhci_transfer_ring_init \<lparr>page_virtual = 0x1000, page_physical = 0x2000\<rparr> 256)
        (enqueue_all (replicate 256 zero_trb))) s = Inr (r, s') \<and>
     fst (controller_fetch (physical_trbs \<lparr>page_virtual = 0x1000, page_physical = 0x2000\<rparr> (trbs s'))
       \<lparr>c_pointer = 0x2000, c_cycle = True\<rparr>) = None)"
proof (intro conjI allI)
  fix s :: "(unit, unit) xhci_mem"
  have z: "\<forall>t \<in> set (replicate 256 zero_trb). \<not> is_link t" by simp
  show "\<exists>r s'. bnd (clear_trbs 0x1000) (\<lambda>_. bnd (xhci_transfer_ring_init \<lparr>page_virtual = 0x1000, page_physical = 0x2000\<rparr> 256)
        (enqueue_all (replicate 256 zero_trb))) s = Inr (r, s') \<and>
     fst (controller_fetch (physical_trbs \<lparr>page_virtual = 0x1000, page_physical = 0x2000\<rparr> (trbs s'))
       \<lparr>c_pointer = 0x2000, c_cycle = True\<rparr>) = None"
    by (rule transfer_ring_overrun [OF length_replicate z, where page = "\<lparr>page_virtual = 0x1000, page_physical = 0x2000\<rparr>",
         unfolded allocated_page.select_convs])
qed simp
text \<open>C37: the page table of the shared heap stays well formed (512 flags that are 0 or 1, a cursor inside),
  and the scan for a free page always ends. While pages are free an allocation takes one of them, hands
  out its address and its translation and marks just that page; when none is free it fails and changes
  nothing. Freeing the page makes it free again, and the other pages stay as they are.\<close>

theorem xhci_pages_well_formed:
  assumes ok: "pages_ok s"
    and tr: "\<And>i. i < 512 \<Longrightarrow> translate (shared_page i) (kalloc s) = Inr (Some (pa i), kalloc s)"
  shows "case xhci_alloc_page translate s of Inl e \<Rightarrow> False
    | Inr (None, s') \<Rightarrow> free_pages s = {} \<and> s' = s
    | Inr (Some p, s') \<Rightarrow> pages_ok s' \<and> (\<exists>i \<in> free_pages s. p = \<lparr>page_virtual = shared_page i, page_physical = pa i\<rparr> \<and>
        free_pages s' = free_pages s - {i} \<and>
        (case xhci_free_page p s' of Inl e \<Rightarrow> False
         | Inr (r, s'') \<Rightarrow> r = 0 \<and> pages_ok s'' \<and> free_pages s'' = free_pages s))"
proof (cases "free_pages s = {}")
  case True
  then show ?thesis using xhci_alloc_page_run [where translate = translate and pa = pa, OF ok tr] by simp
next
  case False
  then obtain i where i: "i \<in> free_pages s" "xhci_alloc_page translate s =
      Inr (Some \<lparr>page_virtual = shared_page i, page_physical = pa i\<rparr>,
        s\<lparr>heap_page_allocated := (heap_page_allocated s)[i := 1], last_modified_heap_page_idx := of_nat i\<rparr>)" (is "_ = Inr (_, ?s)")
    using xhci_alloc_page_run [where translate = translate and pa = pa, OF ok tr] by auto
  have i512: "i < 512" using i(1) by (simp add: free_pages_def)
  have s1: "pages_ok ?s" "free_pages ?s = free_pages s - {i}" using pages_ok_update [OF ok i512, of 1] by simp_all
  have s2: "pages_ok (?s\<lparr>heap_page_allocated := (heap_page_allocated ?s)[i := 0], last_modified_heap_page_idx := of_nat i\<rparr>)"
    "free_pages (?s\<lparr>heap_page_allocated := (heap_page_allocated ?s)[i := 0], last_modified_heap_page_idx := of_nat i\<rparr>) = free_pages s"
    (is "free_pages ?s' = _")
    using pages_ok_update [OF s1(1) i512, of 0] s1(2) i(1) by auto
  have "xhci_free_page \<lparr>page_virtual = shared_page i, page_physical = pa i\<rparr> ?s = Inr (0, ?s')"
    by (rule xhci_free_page_run [OF i512])
  then have "\<exists>i \<in> free_pages s. \<lparr>page_virtual = shared_page i, page_physical = pa i\<rparr> = \<lparr>page_virtual = shared_page i, page_physical = pa i\<rparr> \<and>
      free_pages ?s = free_pages s - {i} \<and>
        (case xhci_free_page \<lparr>page_virtual = shared_page i, page_physical = pa i\<rparr> ?s of Inl e \<Rightarrow> False
         | Inr (r, s'') \<Rightarrow> r = 0 \<and> pages_ok s'' \<and> free_pages s'' = free_pages s)"
    using s1 s2 i(1) by (intro bexI [of _ i]) (simp_all only: sum.case prod.case simp_thms)
  then show ?thesis unfolding i(2) using s1 i(1) by auto
qed

lemma xhci_pages_well_formed_witness:
  "\<forall>s :: (unit, unit) xhci_mem. case xhci_alloc_page (\<lambda>va. ret (Some (va - XHCI_HEAP_VIRTUAL_BASE)))
      (s\<lparr>heap_page_allocated := replicate 512 0, last_modified_heap_page_idx := 0\<rparr>) of Inr (Some p, s') \<Rightarrow> pages_ok s' | _ \<Rightarrow> False"
proof
  fix s :: "(unit, unit) xhci_mem"
  let ?s = "s\<lparr>heap_page_allocated := replicate 512 0, last_modified_heap_page_idx := 0\<rparr>"
  have ok: "pages_ok ?s" by (auto simp: pages_ok_def)
  obtain T where T: "T = (\<lambda>va :: u64. ret (Some (va - XHCI_HEAP_VIRTUAL_BASE)) :: (unit, u64 option) prog)" by simp
  have tr: "T (shared_page i) (kalloc ?s) = Inr (Some (of_nat i * 4096), kalloc ?s)" for i
    by (simp add: T shared_page_def)
  have "0 \<in> free_pages ?s" by (simp add: free_pages_def)
  then have f: "free_pages ?s \<noteq> {}" by blast
  show "case xhci_alloc_page (\<lambda>va. ret (Some (va - XHCI_HEAP_VIRTUAL_BASE))) ?s of Inr (Some p, s') \<Rightarrow> pages_ok s' | _ \<Rightarrow> False"
    unfolding T [symmetric]
    using xhci_pages_well_formed [where translate = T and pa = "\<lambda>i. of_nat i * 4096", OF ok tr] f
    by (cases "xhci_alloc_page T ?s") (auto split: option.splits)
qed

end
