(* ===== verification/Xhci_Driver.thy ===== *)
theory Xhci_Driver
  imports Xhci
begin

text \<open>
  \<open>kernel/drivers/pci/xhci.c\<close>, the second part: the initialisation of the controller, the commands that
  bring up a device and its endpoints, the transfers, and the poller that hands completed transfers to
  their callbacks. The contexts are bytes of the shared pages, the TRBs a typed heap as in \<open>Xhci\<close>.

  Parameters are the registers (\<open>b\<close>), \<open>mmap_virtual_to_physical\<close> (\<open>translate\<close>), what the controller does
  while the driver waits (\<open>controller\<close>), and the callbacks of the transfers (\<open>call\<close>, with the function
  pointer). A device or an endpoint of a caller is passed by value and returned; a NULL pointer for it,
  which the code refuses, has no counterpart.
\<close>

section \<open>Registers\<close>

definition XHCI_CAP_HCSPARAMS1 :: u32 where "XHCI_CAP_HCSPARAMS1 = 0x4"
definition XHCI_CAP_RTSOFF :: u32 where "XHCI_CAP_RTSOFF = 0x18"
definition XHCI_CAP_DBOFF :: u32 where "XHCI_CAP_DBOFF = 0x14"
definition XHCI_OP_USBCMD :: u32 where "XHCI_OP_USBCMD = 0x0"
definition XHCI_OP_USBSTS :: u32 where "XHCI_OP_USBSTS = 0x4"
definition XHCI_OP_CRCR :: u32 where "XHCI_OP_CRCR = 0x18"
definition XHCI_OP_DCBAAP :: u32 where "XHCI_OP_DCBAAP = 0x30"
definition XHCI_OP_CONFIG :: u32 where "XHCI_OP_CONFIG = 0x38"
definition XHCI_OP_PORT_REGISTER :: "u8 \<Rightarrow> u32 \<Rightarrow> u32" where "XHCI_OP_PORT_REGISTER port reg = 0x400 + ucast port * 16 + reg"
definition XHCI_PORT_PORTSC :: u32 where "XHCI_PORT_PORTSC = 0x0"
definition XHCI_RT_ERSTSZ :: u32 where "XHCI_RT_ERSTSZ = 0x28"
definition XHCI_RT_ERSTBA :: u32 where "XHCI_RT_ERSTBA = 0x30"
definition XHCI_OP_USBSTS_HCRST :: u32 where "XHCI_OP_USBSTS_HCRST = 2"
definition XHCI_OP_USBSTS_CNR :: u32 where "XHCI_OP_USBSTS_CNR = 0x400"
definition XHCI_OP_USBCMD_RUN_STOP :: u32 where "XHCI_OP_USBCMD_RUN_STOP = 1"

definition xhci_read_op_register64 :: "'d bus \<Rightarrow> u32 \<Rightarrow> (('h, 'd, 'z) xhci_mem_scheme, u64) prog" where
  "xhci_read_op_register64 b offset = bnd (rd xops) (\<lambda>p. on_bus (bus_read64 b (p + ucast offset)))"

definition xhci_write_cap_register :: "'d bus \<Rightarrow> u32 \<Rightarrow> u32 \<Rightarrow> (('h, 'd, 'z) xhci_mem_scheme, unit) prog" where
  "xhci_write_cap_register b offset value = bnd (rd caps) (\<lambda>p. on_bus (bus_write32 b (p + ucast offset) value))"

definition xhci_read_cap_register64 :: "'d bus \<Rightarrow> u32 \<Rightarrow> (('h, 'd, 'z) xhci_mem_scheme, u64) prog" where
  "xhci_read_cap_register64 b offset = bnd (rd caps) (\<lambda>p. on_bus (bus_read64 b (p + ucast offset)))"

definition xhci_write_cap_register64 :: "'d bus \<Rightarrow> u32 \<Rightarrow> u64 \<Rightarrow> (('h, 'd, 'z) xhci_mem_scheme, unit) prog" where
  "xhci_write_cap_register64 b offset value = bnd (rd caps) (\<lambda>p. on_bus (bus_write64 b (p + ucast offset) value))"

definition xhci_read_rt_register :: "'d bus \<Rightarrow> u32 \<Rightarrow> (('h, 'd, 'z) xhci_mem_scheme, u32) prog" where
  "xhci_read_rt_register b offset = bnd (rd rt) (\<lambda>p. on_bus (bus_read32 b (p + ucast offset)))"

definition xhci_read_rt_register64 :: "'d bus \<Rightarrow> u32 \<Rightarrow> (('h, 'd, 'z) xhci_mem_scheme, u64) prog" where
  "xhci_read_rt_register64 b offset = bnd (rd rt) (\<lambda>p. on_bus (bus_read64 b (p + ucast offset)))"

definition xhci_write_port_register :: "'d bus \<Rightarrow> u8 \<Rightarrow> u32 \<Rightarrow> u32 \<Rightarrow> (('h, 'd, 'z) xhci_mem_scheme, unit) prog" where
  "xhci_write_port_register b port offset value = xhci_write_op_register b (XHCI_OP_PORT_REGISTER port offset) value"

definition xhci_read_port_register64 :: "'d bus \<Rightarrow> u8 \<Rightarrow> u32 \<Rightarrow> (('h, 'd, 'z) xhci_mem_scheme, u64) prog" where
  "xhci_read_port_register64 b port offset = xhci_read_op_register64 b (XHCI_OP_PORT_REGISTER port offset)"

definition xhci_write_port_register64 :: "'d bus \<Rightarrow> u8 \<Rightarrow> u32 \<Rightarrow> u64 \<Rightarrow> (('h, 'd, 'z) xhci_mem_scheme, unit) prog" where
  "xhci_write_port_register64 b port offset value = xhci_write_op_register64 b (XHCI_OP_PORT_REGISTER port offset) value"

definition xhci_is_halted :: "'d bus \<Rightarrow> (('h, 'd, 'z) xhci_mem_scheme, bool) prog" where
  "xhci_is_halted b = bnd (xhci_read_op_register b XHCI_OP_USBSTS) (\<lambda>usb_sts. ret (usb_sts AND 0x1 \<noteq> 0))"

text \<open>Waiting until a bit of a register is clear.\<close>

partial_function (option) wait_clear ::
  "'d bus \<Rightarrow> u32 \<Rightarrow> u32 \<Rightarrow> ('h, 'd, 'z) xhci_mem_scheme \<Rightarrow> (fault + unit \<times> ('h, 'd, 'z) xhci_mem_scheme) option" where
  "wait_clear b register bits s =
     (case xhci_read_op_register b register s of
        Inl e \<Rightarrow> Some (Inl e)
      | Inr (v, s') \<Rightarrow> if v AND bits \<noteq> 0 then wait_clear b register bits s' else Some (Inr ((), s')))"

definition xhci_wait_for_reset :: "'d bus \<Rightarrow> (('h, 'd, 'z) xhci_mem_scheme, unit) prog" where
  "xhci_wait_for_reset b = (\<lambda>s. loop (wait_clear b XHCI_OP_USBCMD XHCI_OP_USBSTS_HCRST s))"

definition xhci_wait_for_controller_ready :: "'d bus \<Rightarrow> (('h, 'd, 'z) xhci_mem_scheme, unit) prog" where
  "xhci_wait_for_controller_ready b = (\<lambda>s. loop (wait_clear b XHCI_OP_USBSTS XHCI_OP_USBSTS_CNR s))"

definition xhci_reset_controller :: "'d bus \<Rightarrow> (('h, 'd, 'z) xhci_mem_scheme, unit) prog" where
  "xhci_reset_controller b =
     bnd (xhci_read_op_register b XHCI_OP_USBCMD) (\<lambda>usb_cmd.
     thn (xhci_write_op_register b XHCI_OP_USBCMD (usb_cmd OR XHCI_OP_USBSTS_HCRST)) (xhci_wait_for_reset b))"

definition xhci_set_max_device_slots_enabled :: "'d bus \<Rightarrow> u8 \<Rightarrow> (('h, 'd, 'z) xhci_mem_scheme, unit) prog" where
  "xhci_set_max_device_slots_enabled b max_device_slots =
     bnd (xhci_read_op_register b XHCI_OP_CONFIG) (\<lambda>config.
     xhci_write_op_register b XHCI_OP_CONFIG (config OR (ucast max_device_slots AND 0xff)))"

definition xhci_get_max_device_slots :: "'d bus \<Rightarrow> (('h, 'd, 'z) xhci_mem_scheme, u8) prog" where
  "xhci_get_max_device_slots b = bnd (xhci_read_cap_register b XHCI_CAP_HCSPARAMS1) (\<lambda>config. ret (ucast (config AND 0xff)))"

definition xhci_get_max_ports :: "'d bus \<Rightarrow> (('h, 'd, 'z) xhci_mem_scheme, u8) prog" where
  "xhci_get_max_ports b =
     bnd (xhci_read_cap_register b XHCI_CAP_HCSPARAMS1) (\<lambda>config. ret (ucast (drop_bit 24 config AND 0xff)))"

definition xhci_enable_controller :: "'d bus \<Rightarrow> (('h, 'd, 'z) xhci_mem_scheme, unit) prog" where
  "xhci_enable_controller b =
     bnd (xhci_read_op_register b XHCI_OP_USBCMD) (\<lambda>usb_cmd.
     xhci_write_op_register b XHCI_OP_USBCMD (usb_cmd OR XHCI_OP_USBCMD_RUN_STOP))"

record port_status =
  ps_port_number :: u8
  current_connect_status :: u8
  port_enabled :: u8

definition xhci_get_port_status :: "'d bus \<Rightarrow> u8 \<Rightarrow> (('h, 'd, 'z) xhci_mem_scheme, port_status option) prog" where
  "xhci_get_port_status b port_number =
     bnd (xhci_get_max_ports b) (\<lambda>max_ports.
     if port_number \<ge> max_ports then ret None
     else bnd (xhci_read_port_register b port_number XHCI_PORT_PORTSC) (\<lambda>port_sc.
       ret (Some \<lparr>ps_port_number = port_number, current_connect_status = ucast (port_sc AND 0x1),
         port_enabled = ucast (port_sc AND 0x2)\<rparr>)))"

section \<open>Finding the controller\<close>

definition PCI_CONFIG_BAR0 :: u32 where "PCI_CONFIG_BAR0 = 0x10"
definition PCI_CONFIG_BAR1 :: u32 where "PCI_CONFIG_BAR1 = 0x14"
definition PCI_CONFIG_COMMAND :: u32 where "PCI_CONFIG_COMMAND = 0x04"
definition PCI_COMMAND_MEMORY_SPACE_ENABLE :: u16 where "PCI_COMMAND_MEMORY_SPACE_ENABLE = 2"
definition PCI_COMMAND_BUS_MASTER_ENABLE :: u16 where "PCI_COMMAND_BUS_MASTER_ENABLE = 4"
definition PCI_CLASS_SERIAL_BUS_CONTROLLER :: u8 where "PCI_CLASS_SERIAL_BUS_CONTROLLER = 0x0c"
definition PCI_SUBCLASS_USB_CONTROLLER :: u8 where "PCI_SUBCLASS_USB_CONTROLLER = 0x03"
definition PCI_PROG_INT_USB_3_0_XHCI :: u8 where "PCI_PROG_INT_USB_3_0_XHCI = 0x30"

abbreviation on_pcie :: "('d pcie_mem, 'a) prog \<Rightarrow> (('h, 'd, 'z) xhci_mem_scheme, 'a) prog" where
  "on_pcie m \<equiv> within pcie pcie_update m"

text \<open>The size of a BAR from what it reads after all ones were written to it; the address in it.\<close>

definition bar_size :: "u32 \<Rightarrow> u32 \<Rightarrow> u64" where
  "bar_size raw_bar0 raw_bar1 = NOT (push_bit 32 (ucast raw_bar1) OR ucast (raw_bar0 AND NOT 0xF)) + 1"

definition bar_address :: "u32 \<Rightarrow> u32 \<Rightarrow> u64" where
  "bar_address bar0 bar1 = push_bit 32 (ucast bar1) OR ucast (bar0 AND 0xfffffff0)"

definition xhci_locate_device :: "'d bus \<Rightarrow> (('h, 'd, 'z) xhci_mem_scheme, int) prog" where
  "xhci_locate_device b =
     bnd (on_pcie (pcie_locate_device b 0 PCI_CLASS_SERIAL_BUS_CONTROLLER PCI_SUBCLASS_USB_CONTROLLER
       PCI_PROG_INT_USB_3_0_XHCI)) (\<lambda>found.
     case found of None \<Rightarrow> ret (-1)
     | Some (bus, dev, fn) \<Rightarrow>
       thn (upd (\<lambda>s. s\<lparr>pci_bus := bus, pci_device := dev, pci_function := fn\<rparr>))
      (bnd (on_pcie (pcie_config_read32 b bus dev fn PCI_CONFIG_BAR0)) (\<lambda>bar0.
       bnd (on_pcie (pcie_config_read32 b bus dev fn PCI_CONFIG_BAR1)) (\<lambda>bar1.
       thn (on_pcie (pcie_config_write32 b bus dev fn PCI_CONFIG_BAR0 0xFFFFFFFF))
      (thn (on_pcie (pcie_config_write32 b bus dev fn PCI_CONFIG_BAR1 0xFFFFFFFF))
      (bnd (on_pcie (pcie_config_read32 b bus dev fn PCI_CONFIG_BAR0)) (\<lambda>raw_bar0.
       bnd (on_pcie (pcie_config_read32 b bus dev fn PCI_CONFIG_BAR1)) (\<lambda>raw_bar1.
       thn (on_pcie (pcie_config_write32 b bus dev fn PCI_CONFIG_BAR0 bar0))
      (thn (on_pcie (pcie_config_write32 b bus dev fn PCI_CONFIG_BAR1 bar1))
      (bnd (on_bus (bus_map_region b (bar_address bar0 bar1) (bar_size raw_bar0 raw_bar1))) (\<lambda>(r, va).
       thn (upd (\<lambda>s. s\<lparr>mmio_base := va\<rparr>))
      (if r < 0 then ret (-1)
       else thn (on_pcie (pcie_config_write16 b bus dev fn PCI_CONFIG_COMMAND
              (PCI_COMMAND_MEMORY_SPACE_ENABLE OR PCI_COMMAND_BUS_MASTER_ENABLE)))
      (bnd (rd mmio_base) (\<lambda>base.
       bnd (on_bus (bus_read8 b base)) (\<lambda>cap_len.
       thn (upd (\<lambda>s. s\<lparr>caps := base, cap_length := cap_len, xops := base + ucast cap_len\<rparr>))
      (bnd (xhci_read_cap_register b XHCI_CAP_RTSOFF) (\<lambda>rtsoff.
       thn (upd (\<lambda>s. s\<lparr>rt := base + ucast rtsoff\<rparr>))
      (bnd (xhci_read_cap_register b XHCI_CAP_DBOFF) (\<lambda>dboff.
       thn (upd (\<lambda>s. s\<lparr>doorbells_array := base + ucast dboff\<rparr>)) (ret 0))))))))))))))))))))"

section \<open>Memory for the controller\<close>

definition PAGE_SIZE :: u64 where "PAGE_SIZE = 4096"

text \<open>The page that is asked for has to be aligned to 64 bytes.\<close>

definition xhci_allocate_dcba_array ::
  "'d bus \<Rightarrow> (u64 \<Rightarrow> ('h, u64 option) prog) \<Rightarrow> (('h, 'd, 'z) xhci_mem_scheme, int) prog" where
  "xhci_allocate_dcba_array b translate =
     attempt (xhci_alloc_page translate) (-1) (\<lambda>dcba.
     if page_physical dcba mod 64 \<noteq> 0 then ret (-1)
     else thn (memory_set (page_virtual dcba) 0 PAGE_SIZE)
         (thn (xhci_write_op_register64 b XHCI_OP_DCBAAP (page_physical dcba))
         (thn (upd (\<lambda>s. s\<lparr>dcba_array := page_virtual dcba\<rparr>)) (ret 0))))"

definition xhci_allocate_command_ring ::
  "'d bus \<Rightarrow> (u64 \<Rightarrow> ('h, u64 option) prog) \<Rightarrow> (('h, 'd, 'z) xhci_mem_scheme, int) prog" where
  "xhci_allocate_command_ring b translate =
     attempt (xhci_alloc_page translate) (-1) (\<lambda>base.
     if page_physical base mod 64 \<noteq> 0 then ret (-1)
     else thn (clear_trbs (page_virtual base))
         (thn (xhci_write_op_register64 b XHCI_OP_CRCR (page_physical base OR 0x1))
         (bnd (xhci_transfer_ring_init base 256) (\<lambda>ring.
          thn (upd (\<lambda>s. s\<lparr>command_ring := ring\<rparr>)) (ret 0)))))"

definition xhci_command_ring_enqueue :: "trb \<Rightarrow> (('h, 'd, 'z) xhci_mem_scheme, unit) prog" where
  "xhci_command_ring_enqueue t =
     bnd (rd command_ring) (\<lambda>ring. bnd (xhci_transfer_ring_enqueue ring t) (\<lambda>ring.
     upd (\<lambda>s. s\<lparr>command_ring := ring\<rparr>)))"

definition xhci_allocate_event_ring ::
  "'d bus \<Rightarrow> (u64 \<Rightarrow> ('h, u64 option) prog) \<Rightarrow> (('h, 'd, 'z) xhci_mem_scheme, int) prog" where
  "xhci_allocate_event_ring b translate =
     attempt (xhci_alloc_page translate) (-1) (\<lambda>table.
     if page_physical table mod 64 \<noteq> 0 then ret (-1)
     else thn (memory_set (page_virtual table) 0 PAGE_SIZE)
         (thn (upd (\<lambda>s. s\<lparr>event_ring_segment_table := page_virtual table\<rparr>))
         (attempt (xhci_alloc_page translate) (-1) (\<lambda>segment.
          if page_physical segment mod 64 \<noteq> 0 then ret (-1)
          else thn (clear_trbs (page_virtual segment))
              (thn (write_bytes (page_virtual table) (le_bytes 8 (page_physical segment)))
              (thn (write_bytes (page_virtual table + 8) (le_bytes 4 256))
              (thn (upd (\<lambda>s. s\<lparr>event_ring := xhci_event_ring_init (event_ring s) segment 256\<rparr>))
              (thn (xhci_write_rt_register b XHCI_RT_ERSTSZ 1)
              (thn (xhci_write_rt_register64 b XHCI_RT_ERDP (page_physical segment))
              (thn (xhci_write_rt_register64 b XHCI_RT_ERSTBA (page_physical table)) (ret 0))))))))))) "

text \<open>The 2 MB of the shared heap: one block of pages, mapped as one block.\<close>

definition xhci_allocate_heap ::
  "('h, u64 option) prog \<Rightarrow> (u64 \<Rightarrow> u64 \<Rightarrow> u64 \<Rightarrow> ('h, int) prog) \<Rightarrow> (('h, 'd, 'z) xhci_mem_scheme, int) prog" where
  "xhci_allocate_heap alloc_2mb map_l2 =
     thn (upd (\<lambda>s. s\<lparr>heap_page_allocated := replicate XHCI_HEAP_MAX_PAGES 0\<rparr>))
    (attempt (within kalloc kalloc_update alloc_2mb) (-1) (\<lambda>physical.
     bnd (within kalloc kalloc_update (map_l2 XHCI_HEAP_VIRTUAL_BASE (XHCI_HEAP_VIRTUAL_BASE + XHCI_HEAP_SIZE) physical)) (\<lambda>r.
     if r < 0 then ret (-1) else ret 0)))"

section \<open>Commands\<close>

definition XHCI_TRB_TYPE_NORMAL :: u32 where "XHCI_TRB_TYPE_NORMAL = XHCI_TRB_TYPE 0x1"
definition XHCI_TRB_TYPE_ADDRESS_DEVICE_COMMAND :: u32 where "XHCI_TRB_TYPE_ADDRESS_DEVICE_COMMAND = XHCI_TRB_TYPE 0xb"
definition XHCI_TRB_TYPE_NO_OP_COMMAND :: u32 where "XHCI_TRB_TYPE_NO_OP_COMMAND = XHCI_TRB_TYPE 0x17"
definition XHCI_TRB_TYPE_COMMAND_COMPLETION :: u32 where "XHCI_TRB_TYPE_COMMAND_COMPLETION = XHCI_TRB_TYPE 0x21"
definition XHCI_TRB_TYPE_ENABLE_SLOT_COMMAND :: u32 where "XHCI_TRB_TYPE_ENABLE_SLOT_COMMAND = XHCI_TRB_TYPE 0x9"
definition XHCI_TRB_TYPE_CONFIGURE_ENDPOINT_COMMAND :: u32 where "XHCI_TRB_TYPE_CONFIGURE_ENDPOINT_COMMAND = XHCI_TRB_TYPE 0xc"
definition XHCI_TRB_TYPE_SETUP_STAGE :: u32 where "XHCI_TRB_TYPE_SETUP_STAGE = XHCI_TRB_TYPE 0x2"
definition XHCI_TRB_TYPE_DATA_STAGE :: u32 where "XHCI_TRB_TYPE_DATA_STAGE = XHCI_TRB_TYPE 0x3"
definition XHCI_TRB_TYPE_STATUS_STAGE :: u32 where "XHCI_TRB_TYPE_STATUS_STAGE = XHCI_TRB_TYPE 0x4"
definition XHCI_TRB_CONTROL_ISP :: u32 where "XHCI_TRB_CONTROL_ISP = 0x4"
definition XHCI_TRB_CONTROL_IOC :: u32 where "XHCI_TRB_CONTROL_IOC = 0x20"
definition XHCI_TRB_CONTROL_IDT :: u32 where "XHCI_TRB_CONTROL_IDT = 0x40"
definition XHCI_TRB_CONTROL_TRT :: "u32 \<Rightarrow> u32" where "XHCI_TRB_CONTROL_TRT x = push_bit 16 (x AND 0x3)"
definition XHCI_TRB_DATA_STAGE_IN_DIRECTION :: u32 where "XHCI_TRB_DATA_STAGE_IN_DIRECTION = 0x10000"
definition XHCI_COMPLETION_CODE_SUCCESS :: u8 where "XHCI_COMPLETION_CODE_SUCCESS = 1"
definition XHCI_COMPLETION_CODE_FAILED :: u8 where "XHCI_COMPLETION_CODE_FAILED = 0"

definition completion_code :: "trb \<Rightarrow> u8" where
  "completion_code t = ucast (drop_bit 24 (trb_status t) AND 0xff)"

definition event_slot_id :: "trb \<Rightarrow> u8" where
  "event_slot_id t = ucast (drop_bit 24 (control t) AND 0xff)"

definition event_endpoint_id :: "trb \<Rightarrow> u8" where
  "event_endpoint_id t = ucast (drop_bit 16 (control t) AND 0x1f)"

definition xhci_command_is_successful :: "trb \<Rightarrow> bool" where
  "xhci_command_is_successful t \<longleftrightarrow> completion_code t = XHCI_COMPLETION_CODE_SUCCESS"

text \<open>
  A command is put on the command ring, the doorbell rung, and the next event awaited and taken; the
  command failed when that event is no completion of a command or reports an error. An event that
  cannot be taken would leave the local variable without a value.
\<close>

definition await_completion ::
  "(('h, 'd, 'z) xhci_mem_scheme \<Rightarrow> ('h, 'd, 'z) xhci_mem_scheme) \<Rightarrow> 'd bus \<Rightarrow> (u64 \<Rightarrow> ('h, u64 option) prog)
     \<Rightarrow> (('h, 'd, 'z) xhci_mem_scheme, trb option) prog" where
  "await_completion controller b translate =
     thn (xhci_ring_command_doorbell b)
    (thn (\<lambda>s. loop (xhci_event_ring_wait_for_event controller s))
    (bnd (xhci_event_ring_dequeue b translate) (\<lambda>(_, event).
     case event of None \<Rightarrow> halt Bad_Access
     | Some event \<Rightarrow>
         if xhci_trb_is_type event XHCI_TRB_TYPE_COMMAND_COMPLETION \<and> xhci_command_is_successful event
         then ret (Some event) else ret None)))"

definition command_trb :: "u64 \<Rightarrow> u32 \<Rightarrow> trb" where
  "command_trb parameter ctrl = \<lparr>parameter_low = ucast parameter, parameter_high = ucast (drop_bit 32 parameter),
     trb_status = 0, control = ctrl\<rparr>"

definition update_device :: "u8 \<Rightarrow> (device_state \<Rightarrow> device_state) \<Rightarrow> (('h, 'd, 'z) xhci_mem_scheme, unit) prog" where
  "update_device slot_id f = upd (\<lambda>s. s\<lparr>xdevices := (xdevices s)[unat slot_id := f (xdevices s ! unat slot_id)]\<rparr>)"

definition XHCI_MAX_NUM_ENDPOINTS :: nat where "XHCI_MAX_NUM_ENDPOINTS = 32"
definition XHCI_MAX_NUM_TRANSFER_JOBS :: nat where "XHCI_MAX_NUM_TRANSFER_JOBS = 256"

definition xhci_enable_device_slot ::
  "(('h, 'd, 'z) xhci_mem_scheme \<Rightarrow> ('h, 'd, 'z) xhci_mem_scheme) \<Rightarrow> 'd bus \<Rightarrow> (u64 \<Rightarrow> ('h, u64 option) prog)
     \<Rightarrow> (('h, 'd, 'z) xhci_mem_scheme, u8 option) prog" where
  "xhci_enable_device_slot controller b translate =
     thn (xhci_command_ring_enqueue (command_trb 0 XHCI_TRB_TYPE_ENABLE_SLOT_COMMAND))
    (attempt (await_completion controller b translate) None (\<lambda>event.
     let slot_id = event_slot_id event in
     thn (update_device slot_id (\<lambda>d. d\<lparr>enabled := 1,
            endpoints := replicate XHCI_MAX_NUM_ENDPOINTS \<lparr>transfer_jobs = []\<rparr>\<rparr>))
         (ret (Some slot_id))))"

definition xhci_allocate_device_context ::
  "(u64 \<Rightarrow> ('h, u64 option) prog) \<Rightarrow> u8 \<Rightarrow> (('h, 'd, 'z) xhci_mem_scheme, int) prog" where
  "xhci_allocate_device_context translate slot_id =
     bnd (rd dcba_array) (\<lambda>dcba_table.
     attempt (xhci_alloc_page translate) (-1) (\<lambda>page.
     thn (memory_set (page_virtual page) 0 PAGE_SIZE)
    (thn (write_bytes (dcba_table + 8 * ucast slot_id) (le_bytes 8 (page_physical page))) (ret 0))))"

record xhci_device =
  slot_id :: u8
  xd_port_number :: u8
  input_context_base :: allocated_page
  input_context :: u64
  ep0_transfer_ring :: trb_ring

record xhci_endpoint =
  transfer_ring_base :: allocated_page
  transfer_ring :: trb_ring
  endpoint_context_idx :: u8

text \<open>
  The input context of a new device: the slot context and the first endpoint context are added, with
  one context entry, the port, and a control endpoint with packets of 64 bytes and three retries.
\<close>

definition write_input_context :: "u64 \<Rightarrow> u8 \<Rightarrow> (('h, 'd, 'z) xhci_mem_scheme, unit) prog" where
  "write_input_context base port_number =
     thn (write_bytes (base + 4) (le_bytes 4 0x3))
    (thn (write_bytes (base + 32) (le_bytes 4 (push_bit 27 1)))
    (thn (write_bytes (base + 36) (le_bytes 4 (push_bit 16 (ucast port_number))))
    (thn (write_bytes (base + 0x40 + 6) (le_bytes 2 64))
         (write_bytes (base + 0x40 + 4) (le_bytes 1 (push_bit 3 0x4 OR push_bit 1 0x3))))))"

definition xhci_address_device ::
  "(('h, 'd, 'z) xhci_mem_scheme \<Rightarrow> ('h, 'd, 'z) xhci_mem_scheme) \<Rightarrow> 'd bus \<Rightarrow> (u64 \<Rightarrow> ('h, u64 option) prog)
     \<Rightarrow> u8 \<Rightarrow> xhci_device \<Rightarrow> (('h, 'd, 'z) xhci_mem_scheme, int \<times> xhci_device) prog" where
  "xhci_address_device controller b translate port_number out_device =
     attempt (xhci_enable_device_slot controller b translate) (-1, out_device) (\<lambda>slot.
     bnd (xhci_allocate_device_context translate slot) (\<lambda>r.
     if r < 0 then ret (-1, out_device)
     else attempt (xhci_alloc_page translate) (-1, out_device) (\<lambda>context_page.
     thn (memory_set (page_virtual context_page) 0 PAGE_SIZE)
    (thn (write_input_context (page_virtual context_page) port_number)
    (attempt (xhci_alloc_page translate) (-1, out_device) (\<lambda>ring_page.
     if page_physical ring_page mod 64 \<noteq> 0 then ret (-1, out_device)
     else thn (clear_trbs (page_virtual ring_page))
    (thn (write_bytes (page_virtual context_page + 0x40 + 8) (le_bytes 8 (page_physical ring_page OR 0x1)))
    (thn (xhci_command_ring_enqueue (command_trb (page_physical context_page)
           (XHCI_TRB_TYPE_ADDRESS_DEVICE_COMMAND OR push_bit 24 (ucast slot))))
    (attempt (await_completion controller b translate) (-1, out_device) (\<lambda>_.
     bnd (xhci_transfer_ring_init ring_page 256) (\<lambda>ring.
     ret (0, \<lparr>slot_id = slot, xd_port_number = port_number, input_context_base = context_page,
       input_context = page_virtual context_page, ep0_transfer_ring = ring\<rparr>)))))))))))) "

definition xhci_ep0_transfer_ring_enqueue ::
  "xhci_device \<Rightarrow> trb \<Rightarrow> (('h, 'd, 'z) xhci_mem_scheme, xhci_device) prog" where
  "xhci_ep0_transfer_ring_enqueue dev t =
     bnd (xhci_transfer_ring_enqueue (ep0_transfer_ring dev) t) (\<lambda>ring. ret (dev\<lparr>ep0_transfer_ring := ring\<rparr>))"

definition xhci_ep0_ring_doorbell :: "'d bus \<Rightarrow> xhci_device \<Rightarrow> (('h, 'd, 'z) xhci_mem_scheme, unit) prog" where
  "xhci_ep0_ring_doorbell b dev = xhci_ring_doorbell b (ucast (slot_id dev)) 0x1"

definition xhci_endpoint_ring_doorbell ::
  "'d bus \<Rightarrow> xhci_device \<Rightarrow> xhci_endpoint \<Rightarrow> (('h, 'd, 'z) xhci_mem_scheme, unit) prog" where
  "xhci_endpoint_ring_doorbell b dev endpoint =
     xhci_ring_doorbell b (ucast (slot_id dev)) (ucast (endpoint_context_idx endpoint))"

section \<open>Endpoints\<close>

record endpoint_descriptor =
  bEndpointAddress :: u8
  ep_bmAttributes :: u8
  wMaxPacketSize :: u16
  bInterval :: u8

definition XHCI_ENDPOINT_TYPE_OUT_ISOCHRONOUS :: u8 where "XHCI_ENDPOINT_TYPE_OUT_ISOCHRONOUS = 1"
definition XHCI_ENDPOINT_TYPE_OUT_BULK :: u8 where "XHCI_ENDPOINT_TYPE_OUT_BULK = 2"
definition XHCI_ENDPOINT_TYPE_OUT_INTERRUPT :: u8 where "XHCI_ENDPOINT_TYPE_OUT_INTERRUPT = 3"
definition XHCI_ENDPOINT_TYPE_CONTROL :: u8 where "XHCI_ENDPOINT_TYPE_CONTROL = 4"
definition XHCI_ENDPOINT_TYPE_IN_ISOCHRONOUS :: u8 where "XHCI_ENDPOINT_TYPE_IN_ISOCHRONOUS = 5"
definition XHCI_ENDPOINT_TYPE_IN_BULK :: u8 where "XHCI_ENDPOINT_TYPE_IN_BULK = 6"
definition XHCI_ENDPOINT_TYPE_IN_INTERRUPT :: u8 where "XHCI_ENDPOINT_TYPE_IN_INTERRUPT = 7"

text \<open>The index of the endpoint context and the type; the attributes are two bits, so no type is invalid.\<close>

definition endpoint_index_type :: "endpoint_descriptor \<Rightarrow> u8 \<times> u8" where
  "endpoint_index_type d =
     (let address = bEndpointAddress d AND 0x7f; kind = ep_bmAttributes d AND 0x3 in
      if bEndpointAddress d AND 0x80 \<noteq> 0
      then (2 * address + 1,
        if kind = 0 then XHCI_ENDPOINT_TYPE_CONTROL else if kind = 1 then XHCI_ENDPOINT_TYPE_IN_ISOCHRONOUS
        else if kind = 2 then XHCI_ENDPOINT_TYPE_IN_BULK else XHCI_ENDPOINT_TYPE_IN_INTERRUPT)
      else (2 * address,
        if kind = 0 then XHCI_ENDPOINT_TYPE_CONTROL else if kind = 1 then XHCI_ENDPOINT_TYPE_OUT_ISOCHRONOUS
        else if kind = 2 then XHCI_ENDPOINT_TYPE_OUT_BULK else XHCI_ENDPOINT_TYPE_OUT_INTERRUPT))"

text \<open>\<open>CLEAR_AND_SET\<close> and the bit fields of the contexts.\<close>

definition clear_and_set :: "'a::len word \<Rightarrow> 'a word \<Rightarrow> 'a word \<Rightarrow> 'a word" where
  "clear_and_set value msk v = (value AND NOT msk) OR (v AND msk)"

definition slot_context_set_context_entries :: "u32 \<Rightarrow> u8 \<Rightarrow> u32" where
  "slot_context_set_context_entries data0 entries = clear_and_set data0 (push_bit 26 0x1f) (push_bit 27 (ucast entries))"

definition endpoint_context_set_ep_type :: "u8 \<Rightarrow> u8 \<Rightarrow> u8" where
  "endpoint_context_set_ep_type c ty = clear_and_set c (push_bit 3 0x7) (push_bit 3 ty)"

definition endpoint_context_set_CErr :: "u8 \<Rightarrow> u8 \<Rightarrow> u8" where
  "endpoint_context_set_CErr c c_err = clear_and_set c (push_bit 1 0x3) (push_bit 1 c_err)"

text \<open>
  The flag of the endpoint is \<open>1 << idx\<close> in \<open>int\<close>s; the processor shifts by the index modulo 32.
\<close>

definition write_slot_context :: "u64 \<Rightarrow> u8 \<Rightarrow> u8 \<Rightarrow> (('h, 'd, 'z) xhci_mem_scheme, unit) prog" where
  "write_slot_context base port_number idx =
     thn (write_bytes (base + 4) (le_bytes 4 (ucast (0x1 OR push_bit (unat idx mod 32) 1 :: u32))))
    (thn (write_bytes (base + 32 + 6) (le_bytes 1 (ucast port_number)))
    (bnd (read_bytes 4 (base + 32)) (\<lambda>bs.
     write_bytes (base + 32) (le_bytes 4 (ucast (slot_context_set_context_entries (ucast (of_le_bytes bs)) idx))))))"

definition write_endpoint_context ::
  "u64 \<Rightarrow> u8 \<Rightarrow> endpoint_descriptor \<Rightarrow> u64 \<Rightarrow> (('h, 'd, 'z) xhci_mem_scheme, unit) prog" where
  "write_endpoint_context p ty d ring_physical =
     bnd (read_byte (p + 4)) (\<lambda>c.
     thn (write_byte (p + 4) (endpoint_context_set_CErr (endpoint_context_set_ep_type c ty) 0x3))
    (let size = wMaxPacketSize d AND 0x7ff in
     thn (write_bytes (p + 6) (le_bytes 2 (ucast size)))
    (thn (write_bytes (p + 16) (le_bytes 2 (ucast size)))
    (thn (write_byte (p + 2) (bInterval d))
    (thn (write_bytes (p + 8) (le_bytes 8 (ring_physical OR 0x1)))
         (write_bytes (p + 18) (le_bytes 2 (ucast size))))))))"

definition xhci_configure_endpoint ::
  "(('h, 'd, 'z) xhci_mem_scheme \<Rightarrow> ('h, 'd, 'z) xhci_mem_scheme) \<Rightarrow> 'd bus \<Rightarrow> (u64 \<Rightarrow> ('h, u64 option) prog)
     \<Rightarrow> xhci_device \<Rightarrow> endpoint_descriptor \<Rightarrow> xhci_endpoint \<Rightarrow> (('h, 'd, 'z) xhci_mem_scheme, int \<times> xhci_endpoint) prog" where
  "xhci_configure_endpoint controller b translate dev descriptor endpoint =
     (let (idx, ty) = endpoint_index_type descriptor; endpoint = endpoint\<lparr>endpoint_context_idx := idx\<rparr> in
      attempt (xhci_alloc_page translate) (-1, endpoint) (\<lambda>context_page.
      let base = page_virtual context_page in
      thn (memory_set base 0 PAGE_SIZE)
     (thn (write_slot_context base (xd_port_number dev) idx)
     (attempt (xhci_alloc_page translate) (-1, endpoint) (\<lambda>ring_page.
      thn (clear_trbs (page_virtual ring_page))
     (bnd (xhci_transfer_ring_init ring_page 256) (\<lambda>ring.
      let endpoint = endpoint\<lparr>transfer_ring_base := ring_page, transfer_ring := ring\<rparr> in
      thn (write_endpoint_context (base + 32 + ucast idx * 32) ty descriptor (page_physical ring_page))
     (thn (xhci_command_ring_enqueue (command_trb (page_physical context_page)
            (XHCI_TRB_TYPE_CONFIGURE_ENDPOINT_COMMAND OR push_bit 24 (ucast (slot_id dev)))))
     (attempt (await_completion controller b translate) (-1, endpoint) (\<lambda>_.
      thn (update_device (slot_id dev) (\<lambda>d. d\<lparr>num_configured_endpoints := num_configured_endpoints d + 1\<rparr>))
     (thn (xhci_free_page context_page) (ret (0, endpoint)))))))))))))"

section \<open>Transfers\<close>

record setup_packet =
  bmRequestType :: u8
  bRequest :: u8
  wValue :: u16
  wIndex :: u16
  wLength :: u16

datatype control_transfer_type = NO_DATA | OUT_DATA | IN_DATA

record control_transfer_request =
  cr_setup_packet :: setup_packet
  cr_callback :: u64
  cr_callback_context :: u64
  immediate_data_transfer :: u8
  transfer_type :: control_transfer_type

record transfer_request =
  tq_callback :: u64
  tq_callback_context :: u64
  tq_transfer_length :: u64
  interrupt_on_short_packet :: u8

definition setup_trb :: "control_transfer_request \<Rightarrow> trb" where
  "setup_trb request =
     (let p = cr_setup_packet request in
      \<lparr>parameter_low = ucast (bmRequestType p) OR push_bit 8 (ucast (bRequest p)) OR push_bit 16 (ucast (wValue p)),
       parameter_high = ucast (wIndex p) OR push_bit 16 (ucast (wLength p)),
       trb_status = 0x8,
       control = XHCI_TRB_TYPE_SETUP_STAGE OR (if immediate_data_transfer request \<noteq> 0 then XHCI_TRB_CONTROL_IDT else 0) OR
         (case transfer_type request of NO_DATA \<Rightarrow> XHCI_TRB_CONTROL_TRT 0 | IN_DATA \<Rightarrow> XHCI_TRB_CONTROL_TRT 3
            | OUT_DATA \<Rightarrow> XHCI_TRB_CONTROL_TRT 2)\<rparr>)"

definition data_trb :: "control_transfer_request \<Rightarrow> allocated_page \<Rightarrow> trb" where
  "data_trb request page = \<lparr>parameter_low = ucast (page_physical page), parameter_high = ucast (drop_bit 32 (page_physical page)),
     trb_status = ucast (wLength (cr_setup_packet request)), control = XHCI_TRB_DATA_STAGE_IN_DIRECTION OR XHCI_TRB_TYPE_DATA_STAGE\<rparr>"

definition status_trb :: trb where
  "status_trb = \<lparr>parameter_low = 0, parameter_high = 0, trb_status = 0, control = XHCI_TRB_CONTROL_IOC OR XHCI_TRB_TYPE_STATUS_STAGE\<rparr>"

text \<open>\<open>ring_buffer_enqueue\<close> on the jobs of an endpoint, whose failure is ignored.\<close>

definition enqueue_job :: "u8 \<Rightarrow> nat \<Rightarrow> transfer_job \<Rightarrow> (('h, 'd, 'z) xhci_mem_scheme, unit) prog" where
  "enqueue_job slot_no i job =
     bnd (rd (\<lambda>s. endpoints (xdevices s ! unat slot_no))) (\<lambda>eps.
     if i \<ge> length eps then halt Bad_Access
     else if length (transfer_jobs (eps ! i)) \<ge> XHCI_MAX_NUM_TRANSFER_JOBS then ret ()
     else update_device slot_no (\<lambda>d. d\<lparr>endpoints := eps[i := \<lparr>transfer_jobs = transfer_jobs (eps ! i) @ [job]\<rparr>]\<rparr>))"

definition xhci_control_transfer ::
  "'d bus \<Rightarrow> (u64 \<Rightarrow> ('h, u64 option) prog) \<Rightarrow> xhci_device \<Rightarrow> control_transfer_request
     \<Rightarrow> (('h, 'd, 'z) xhci_mem_scheme, int \<times> xhci_device) prog" where
  "xhci_control_transfer b translate dev request =
     bnd (xhci_ep0_transfer_ring_enqueue dev (setup_trb request)) (\<lambda>dev.
     let finish = (\<lambda>dev buffer data. bnd (xhci_ep0_transfer_ring_enqueue dev status_trb) (\<lambda>dev.
       thn (enqueue_job (slot_id dev) 0 \<lparr>job_callback = cr_callback request, job_context = cr_callback_context request,
             data_buffer = buffer, transfer_length = ucast (wLength (cr_setup_packet request)), has_data = data\<rparr>)
      (thn (xhci_ep0_ring_doorbell b dev) (ret (0, dev))))) in
     if transfer_type request = NO_DATA then finish dev \<lparr>page_virtual = 0, page_physical = 0\<rparr> 0
     else attempt (xhci_alloc_page translate) (-1, dev) (\<lambda>buffer.
       bnd (xhci_ep0_transfer_ring_enqueue dev (data_trb request buffer)) (\<lambda>dev. finish dev buffer 1)))"

definition transfer_trb :: "transfer_request \<Rightarrow> allocated_page \<Rightarrow> trb" where
  "transfer_trb request page = \<lparr>parameter_low = ucast (page_physical page), parameter_high = ucast (drop_bit 32 (page_physical page)),
     trb_status = ucast (tq_transfer_length request), control = XHCI_TRB_TYPE_NORMAL OR XHCI_TRB_CONTROL_IOC OR
       (if interrupt_on_short_packet request \<noteq> 0 then XHCI_TRB_CONTROL_ISP else 0)\<rparr>"

text \<open>The index behind \<open>endpoints\<close> is computed in \<open>int\<close>s, so index 0 gives -1, which is outside the array.\<close>

definition xhci_transfer ::
  "'d bus \<Rightarrow> (u64 \<Rightarrow> ('h, u64 option) prog) \<Rightarrow> xhci_device \<Rightarrow> xhci_endpoint \<Rightarrow> transfer_request
     \<Rightarrow> (('h, 'd, 'z) xhci_mem_scheme, int \<times> xhci_endpoint) prog" where
  "xhci_transfer b translate dev endpoint request =
     attempt (xhci_alloc_page translate) (-1, endpoint) (\<lambda>buffer.
     bnd (xhci_transfer_ring_enqueue (transfer_ring endpoint) (transfer_trb request buffer)) (\<lambda>ring.
     let endpoint = endpoint\<lparr>transfer_ring := ring\<rparr> in
     if endpoint_context_idx endpoint = 0 then halt Bad_Access
     else thn (enqueue_job (slot_id dev) (unat (endpoint_context_idx endpoint) - 1)
           \<lparr>job_callback = tq_callback request, job_context = tq_callback_context request, data_buffer = buffer,
            transfer_length = tq_transfer_length request, has_data = 1\<rparr>)
         (thn (xhci_endpoint_ring_doorbell b dev endpoint) (ret (0, endpoint)))))"

section \<open>Completion\<close>

text \<open>\<open>call f code data size context\<close> is the call of the function \<open>f\<close>.\<close>

definition finish_job ::
  "(u64 \<Rightarrow> u8 \<Rightarrow> u64 \<Rightarrow> u64 \<Rightarrow> u64 \<Rightarrow> (('h, 'd, 'z) xhci_mem_scheme, unit) prog) \<Rightarrow> u8 \<Rightarrow> transfer_job
     \<Rightarrow> (('h, 'd, 'z) xhci_mem_scheme, unit) prog" where
  "finish_job call code job =
     (if code \<noteq> XHCI_COMPLETION_CODE_SUCCESS
      then thn (if has_data job \<noteq> 0 then thn (xhci_free_page (data_buffer job)) (ret ()) else ret ())
         (if job_callback job \<noteq> 0 then call (job_callback job) XHCI_COMPLETION_CODE_FAILED NULL 0 (job_context job) else ret ())
      else if has_data job \<noteq> 0
      then thn (call (job_callback job) XHCI_COMPLETION_CODE_SUCCESS (page_virtual (data_buffer job)) (transfer_length job) (job_context job))
          (thn (xhci_free_page (data_buffer job)) (ret ()))
      else call (job_callback job) XHCI_COMPLETION_CODE_SUCCESS NULL 0 (job_context job))"

definition handle_event ::
  "(u64 \<Rightarrow> u8 \<Rightarrow> u64 \<Rightarrow> u64 \<Rightarrow> u64 \<Rightarrow> (('h, 'd, 'z) xhci_mem_scheme, unit) prog) \<Rightarrow> trb
     \<Rightarrow> (('h, 'd, 'z) xhci_mem_scheme, unit) prog" where
  "handle_event call event =
     (let slot = event_slot_id event; endpoint = event_endpoint_id event in
      if endpoint = 0 then ret ()
      else bnd (rd (\<lambda>s. xdevices s ! unat slot)) (\<lambda>dev.
        if enabled dev = 0 then ret ()
        else let i = unat endpoint - 1 in
          case transfer_jobs (endpoints dev ! i) of
            [] \<Rightarrow> ret ()
          | job # jobs \<Rightarrow>
              thn (update_device slot (\<lambda>d. d\<lparr>endpoints := (endpoints d)[i := \<lparr>transfer_jobs = jobs\<rparr>]\<rparr>))
                  (finish_job call (completion_code event) job)))"

partial_function (option) poll_events ::
  "'d bus \<Rightarrow> (u64 \<Rightarrow> ('h, u64 option) prog)
     \<Rightarrow> (u64 \<Rightarrow> u8 \<Rightarrow> u64 \<Rightarrow> u64 \<Rightarrow> u64 \<Rightarrow> (('h, 'd, 'z) xhci_mem_scheme, unit) prog)
     \<Rightarrow> ('h, 'd, 'z) xhci_mem_scheme \<Rightarrow> (fault + unit \<times> ('h, 'd, 'z) xhci_mem_scheme) option" where
  "poll_events b translate call s =
     (case xhci_event_ring_dequeue b translate s of
        Inl e \<Rightarrow> Some (Inl e)
      | Inr ((_, None), s') \<Rightarrow> Some (Inr ((), s'))
      | Inr ((_, Some event), s') \<Rightarrow>
          (case handle_event call event s' of Inl e \<Rightarrow> Some (Inl e)
           | Inr (_, s'') \<Rightarrow> poll_events b translate call s''))"

definition xhci_poll_events ::
  "'d bus \<Rightarrow> (u64 \<Rightarrow> ('h, u64 option) prog)
     \<Rightarrow> (u64 \<Rightarrow> u8 \<Rightarrow> u64 \<Rightarrow> u64 \<Rightarrow> u64 \<Rightarrow> (('h, 'd, 'z) xhci_mem_scheme, unit) prog)
     \<Rightarrow> (('h, 'd, 'z) xhci_mem_scheme, int) prog" where
  "xhci_poll_events b translate call = thn (\<lambda>s. loop (poll_events b translate call s)) (ret 0)"

section \<open>Initialisation\<close>

definition zero_ring :: trb_ring where
  "zero_ring = \<lparr>tr_base_address = 0, tr_enqueue_ptr = 0, tr_dequeue_ptr = 0, tr_link_trb = 0, tr_ring_size = 0,
     tr_entry_count = 0, tr_cycle_bit = 0\<rparr>"

definition zero_driver :: "('h, 'd, 'z) xhci_mem_scheme \<Rightarrow> ('h, 'd, 'z) xhci_mem_scheme" where
  "zero_driver s = s\<lparr>mmio_base := 0, caps := 0, cap_length := 0, xops := 0, rt := 0, doorbells_array := 0, dcba_array := 0,
     heap_page_allocated := replicate XHCI_HEAP_MAX_PAGES 0, last_modified_heap_page_idx := 0, pci_bus := 0, pci_device := 0,
     pci_function := 0, command_ring := zero_ring, event_ring := zero_ring, event_ring_segment_table := 0,
     xdevices := replicate 256 \<lparr>enabled = 0, endpoints = replicate XHCI_MAX_NUM_ENDPOINTS \<lparr>transfer_jobs = []\<rparr>,
       num_configured_endpoints = 0\<rparr>\<rparr>"

definition xhci_init ::
  "(('h, 'd, 'z) xhci_mem_scheme \<Rightarrow> ('h, 'd, 'z) xhci_mem_scheme) \<Rightarrow> 'd bus \<Rightarrow> (u64 \<Rightarrow> ('h, u64 option) prog)
     \<Rightarrow> ('h, u64 option) prog \<Rightarrow> (u64 \<Rightarrow> u64 \<Rightarrow> u64 \<Rightarrow> ('h, int) prog) \<Rightarrow> (('h, 'd, 'z) xhci_mem_scheme, int) prog" where
  "xhci_init controller b translate alloc_2mb map_l2 =
     thn (upd zero_driver)
    (bnd (xhci_allocate_heap alloc_2mb map_l2) (\<lambda>r. if r < 0 then ret (-1)
     else bnd (xhci_locate_device b) (\<lambda>r. if r \<noteq> 0 then ret (-1)
     else thn (xhci_reset_controller b)
    (bnd (xhci_get_max_device_slots b) (\<lambda>max_device_slots.
     thn (xhci_set_max_device_slots_enabled b max_device_slots)
    (bnd (xhci_allocate_dcba_array b translate) (\<lambda>r. if r < 0 then ret (-1)
     else bnd (xhci_allocate_command_ring b translate) (\<lambda>r. if r < 0 then ret (-1)
     else thn (xhci_command_ring_enqueue (command_trb 0 XHCI_TRB_TYPE_NO_OP_COMMAND))
    (bnd (xhci_allocate_event_ring b translate) (\<lambda>r. if r < 0 then ret (-1)
     else thn (xhci_enable_controller b)
    (thn (xhci_wait_for_controller_ready b)
    (thn (xhci_wait_for_reset b)
    (attempt (await_completion controller b translate) (-1) (\<lambda>_. ret 0))))))))))))))"
section \<open>Polling ends\<close>

text \<open>
  The event ring of \<open>n\<close> slots at \<open>B\<close>, whose TRBs are \<open>ev\<close>, with the driver at slot \<open>k\<close> and its
  cycle bit \<open>c\<close>.
\<close>

definition at_event :: "u64 \<Rightarrow> nat \<Rightarrow> (nat \<Rightarrow> trb) \<Rightarrow> nat \<Rightarrow> bool \<Rightarrow> ('h, 'd, 'z) xhci_mem_scheme \<Rightarrow> bool" where
  "at_event B n ev k c s \<longleftrightarrow> k < n \<and> n < 2 ^ 16 \<and> (\<forall>i < n. trbs s (B + of_nat i * 16) = Some (ev i)) \<and>
     tr_base_address (event_ring s) = B \<and> tr_dequeue_ptr (event_ring s) = B + of_nat k * 16 \<and>
     tr_ring_size (event_ring s) = of_nat n \<and> tr_entry_count (event_ring s) = of_nat k \<and>
     tr_cycle_bit (event_ring s) = (if c then 1 else 0)"

text \<open>Callbacks return and leave the event ring alone.\<close>

definition leaves_events ::
  "u64 \<Rightarrow> nat \<Rightarrow> (u64 \<Rightarrow> u8 \<Rightarrow> u64 \<Rightarrow> u64 \<Rightarrow> u64 \<Rightarrow> (('h, 'd, 'z) xhci_mem_scheme, unit) prog) \<Rightarrow> bool" where
  "leaves_events B n call \<longleftrightarrow> (\<forall>f code data len ctx s. \<exists>s'. call f code data len ctx s = Inr ((), s') \<and>
     event_ring s' = event_ring s \<and> (\<forall>i < n. trbs s' (B + of_nat i * 16) = trbs s (B + of_nat i * 16)))"

definition same_events :: "u64 \<Rightarrow> nat \<Rightarrow> ('h, 'd, 'z) xhci_mem_scheme \<Rightarrow> ('h, 'd, 'z) xhci_mem_scheme \<Rightarrow> bool" where
  "same_events B n s s' \<longleftrightarrow> event_ring s' = event_ring s \<and> (\<forall>i < n. trbs s' (B + of_nat i * 16) = trbs s (B + of_nat i * 16))"

lemma same_events_trans: "same_events B n s s' \<Longrightarrow> same_events B n s' s'' \<Longrightarrow> same_events B n s s''"
  by (simp add: same_events_def)

lemma at_event_same: "at_event B n ev k c s \<Longrightarrow> same_events B n s s' \<Longrightarrow> at_event B n ev k c s'"
  by (simp add: at_event_def same_events_def)

lemma call_returns:
  "leaves_events B n call \<Longrightarrow> \<exists>s'. call f code data len ctx s = Inr ((), s') \<and> same_events B n s s'"
  unfolding leaves_events_def same_events_def by blast

lemma free_returns: "\<exists>r s'. xhci_free_page page s = Inr (r, s') \<and> same_events B n s s'"
  by (auto simp: xhci_free_page_def same_events_def Let_def)

lemma finish_job_returns:
  assumes "leaves_events B n call"
  shows "\<exists>s'. finish_job call code job s = Inr ((), s') \<and> same_events B n s s'"
proof -
  note cr = call_returns [OF assms]
  have refl: "same_events B n s s" for s by (simp add: same_events_def)
  have f: "\<exists>s'. (if has_data job \<noteq> 0 then thn (xhci_free_page (data_buffer job)) (ret ()) else ret ()) s = Inr ((), s') \<and> same_events B n s s'" for s
    using free_returns [of "data_buffer job" s B n] refl by auto
  show ?thesis
  proof (cases "code = XHCI_COMPLETION_CODE_SUCCESS")
    case True
    obtain s1 where c: "call (job_callback job) XHCI_COMPLETION_CODE_SUCCESS (page_virtual (data_buffer job))
        (transfer_length job) (job_context job) s = Inr ((), s1)" "same_events B n s s1" using cr by blast
    obtain r s2 where "xhci_free_page (data_buffer job) s1 = Inr (r, s2)" "same_events B n s1 s2" using free_returns by blast
    then show ?thesis using True c cr [of "job_callback job" XHCI_COMPLETION_CODE_SUCCESS NULL 0 "job_context job" s] same_events_trans
      by (auto simp: finish_job_def)
  next
    case False
    obtain s1 where s1: "(if has_data job \<noteq> 0 then thn (xhci_free_page (data_buffer job)) (ret ()) else ret ()) s = Inr ((), s1)"
      "same_events B n s s1" using f by blast
    obtain s2 where "call (job_callback job) XHCI_COMPLETION_CODE_FAILED NULL 0 (job_context job) s1 = Inr ((), s2)" "same_events B n s1 s2"
      using cr by blast
    then have "\<exists>s2. (if job_callback job \<noteq> 0 then call (job_callback job) XHCI_COMPLETION_CODE_FAILED NULL 0 (job_context job) else ret ()) s1
        = Inr ((), s2) \<and> same_events B n s1 s2" using refl by auto
    then obtain s3 where s3: "(if job_callback job \<noteq> 0 then call (job_callback job) XHCI_COMPLETION_CODE_FAILED NULL 0 (job_context job)
        else ret ()) s1 = Inr ((), s3)" "same_events B n s1 s3" by blast
    have "finish_job call code job s = Inr ((), s3)"
      unfolding finish_job_def using False by (simp only: if_True if_False simp_thms thn_run s1(1) s3(1) sum.case prod.case)
    then show ?thesis using same_events_trans [OF s1(2) s3(2)] by blast
  qed
qed

lemma handle_event_returns:
  assumes "leaves_events B n call"
  shows "\<exists>s'. handle_event call event s = Inr ((), s') \<and> same_events B n s s'"
proof (cases "event_endpoint_id event = 0 \<or> enabled (xdevices s ! unat (event_slot_id event)) = 0")
  case True
  then show ?thesis by (auto simp: handle_event_def same_events_def Let_def)
next
  case False
  let ?sl = "event_slot_id event" and ?i = "unat (event_endpoint_id event) - 1"
  show ?thesis
  proof (cases "transfer_jobs (endpoints (xdevices s ! unat ?sl) ! ?i)")
    case Nil
    then show ?thesis using False by (auto simp: handle_event_def same_events_def Let_def)
  next
    case (Cons job jobs)
    let ?f = "\<lambda>d. d\<lparr>endpoints := (endpoints d)[?i := \<lparr>transfer_jobs = jobs\<rparr>]\<rparr>"
    let ?s = "s\<lparr>xdevices := (xdevices s)[unat ?sl := ?f (xdevices s ! unat ?sl)]\<rparr>"
    obtain s' where s': "finish_job call (completion_code event) job ?s = Inr ((), s')" "same_events B n ?s s'"
      using finish_job_returns [OF assms] by blast
    have "handle_event call event s = Inr ((), s')"
      using False Cons s'(1) by (simp add: handle_event_def update_device_def Let_def)
    moreover have "same_events B n s s'" using s'(2) by (simp add: same_events_def)
    ultimately show ?thesis by blast
  qed
qed

text \<open>One round of the poller.\<close>

definition is_event :: "(nat \<Rightarrow> trb) \<Rightarrow> nat \<Rightarrow> bool \<Rightarrow> bool" where
  "is_event ev k c \<longleftrightarrow> has_cycle (ev k) = c"

lemma cycle_bit_read: "(control t AND XHCI_TRB_CONTROL_CYCLE_BIT = ucast (if c then 1 else 0 :: u8)) \<longleftrightarrow> has_cycle t = c"
proof -
  have "control t AND 1 = (if bit (control t) 0 then 1 else 0)"
    by (rule bit_word_eqI) (auto simp: bit_and_iff bit_1_iff intro: gr0I)
  then show ?thesis by (auto simp: XHCI_TRB_CONTROL_CYCLE_BIT_def has_cycle_def)
qed

lemma poll_stops:
  assumes "at_event B n ev k c s" "\<not> is_event ev k c"
  shows "poll_events b translate call s = Some (Inr ((), s))"
proof -
  have "trbs s (tr_dequeue_ptr (event_ring s)) = Some (ev k)" using assms(1) by (simp add: at_event_def)
  then have "xhci_event_ring_dequeue b translate s = Inr ((-1, None), s)"
    using assms cycle_bit_read [of "ev k" c]
    by (simp add: xhci_event_ring_dequeue_def xhci_event_ring_has_valid_trb_def at_event_def is_event_def)
  then show ?thesis by (subst poll_events.simps) simp
qed

lemma poll_step:
  assumes at: "at_event B n ev k c s" and e: "is_event ev k c" and call: "leaves_events B n call"
    and tr: "\<forall>va h. \<exists>pa h'. translate va h = Inr (pa, h')"
    and wr: "\<forall>a v d. \<exists>d'. bus_write64 b a v d = Inr ((), d')"
  shows "\<exists>s'. at_event B n ev (if Suc k = n then 0 else Suc k) (if Suc k = n then \<not> c else c) s' \<and>
    poll_events b translate call s = poll_events b translate call s'"
proof -
  let ?r = "event_ring s" and ?k = "if Suc k = n then 0 else Suc k" and ?c = "if Suc k = n then \<not> c else c"
  have k: "k < n" "n < 2 ^ 16" and ev: "\<And>i. i < n \<Longrightarrow> trbs s (B + of_nat i * 16) = Some (ev i)"
    and r: "tr_base_address ?r = B" "tr_dequeue_ptr ?r = B + of_nat k * 16" "tr_ring_size ?r = of_nat n" "tr_entry_count ?r = of_nat k"
      "tr_cycle_bit ?r = (if c then 1 else 0)"
    using at by (simp_all add: at_event_def)
  let ?r' = "advance_event_ring ?r"
  have "unat (of_nat (Suc k) :: u64) = Suc k" "unat (of_nat n :: u64) = n" using k by (intro unat_of_nat_64; simp)+
  then have full: "tr_ring_size ?r \<le> tr_entry_count ?r + 1 \<longleftrightarrow> Suc k = n"
    using k by (auto simp: r word_le_nat_alt add.commute)
  have r': "tr_base_address ?r' = B" "tr_dequeue_ptr ?r' = B + of_nat ?k * 16" "tr_ring_size ?r' = of_nat n"
    "tr_entry_count ?r' = of_nat ?k" "tr_cycle_bit ?r' = (if ?c then 1 else 0)"
    using full r by (auto simp: advance_event_ring_def TRB_SIZE_def algebra_simps)
  let ?s1 = "s\<lparr>event_ring := ?r'\<rparr>"
  obtain pa h' where t: "translate (tr_dequeue_ptr ?r') (kalloc s) = Inr (pa, h')" using tr by blast
  let ?s2 = "?s1\<lparr>kalloc := h'\<rparr>"
  have d: "trbs s (tr_dequeue_ptr ?r) = Some (ev k)" using ev k r by simp
  have v: "control (ev k) AND XHCI_TRB_CONTROL_CYCLE_BIT = ucast (tr_cycle_bit ?r)"
    using e cycle_bit_read [of "ev k" c] by (simp add: r(5) is_event_def)
  have "\<exists>q s3. xhci_event_ring_dequeue b translate s = Inr ((q, Some (ev k)), s3) \<and> same_events B n ?s2 s3"
  proof (cases pa)
    case None
    then have "xhci_event_ring_dequeue b translate s = Inr ((-1, Some (ev k)), ?s2)"
      using d v t by (simp add: xhci_event_ring_dequeue_def xhci_event_ring_has_valid_trb_def Let_def)
    then show ?thesis by (auto simp: same_events_def)
  next
    case (Some p)
    obtain d' where "bus_write64 b (rt s + ucast XHCI_RT_ERDP) (p OR push_bit 3 1) (machine (pcie s)) = Inr ((), d')" using wr by blast
    then have "xhci_event_ring_dequeue b translate s = Inr ((0, Some (ev k)), ?s2\<lparr>pcie := (pcie s)\<lparr>machine := d'\<rparr>\<rparr>)"
      using d v t Some
      by (simp add: xhci_event_ring_dequeue_def xhci_event_ring_has_valid_trb_def Let_def xhci_write_rt_register64_def)
    then show ?thesis by (auto simp: same_events_def)
  qed
  then obtain q s3 where s3: "xhci_event_ring_dequeue b translate s = Inr ((q, Some (ev k)), s3)" "same_events B n ?s2 s3" by blast
  obtain s4 where s4: "handle_event call (ev k) s3 = Inr ((), s4)" "same_events B n s3 s4" using handle_event_returns [OF call] by blast
  have "at_event B n ev ?k ?c ?s2" using k ev r' by (simp add: at_event_def)
  then have "at_event B n ev ?k ?c s4" using at_event_same s3(2) s4(2) by blast
  moreover have "poll_events b translate call s = poll_events b translate call s4"
    using s3(1) s4(1) by (subst poll_events.simps) simp
  ultimately show ?thesis by blast
qed
lemma poll_finds_end:
  assumes call: "leaves_events B n call" and tr: "\<forall>va h. \<exists>pa h'. translate va h = Inr (pa, h')"
    and wr: "\<forall>a v d. \<exists>d'. bus_write64 b a v d = Inr ((), d')"
  shows "at_event B n ev k c s \<Longrightarrow> k \<le> j \<Longrightarrow> j < n \<Longrightarrow> \<not> is_event ev j c \<Longrightarrow>
    \<exists>s'. poll_events b translate call s = Some (Inr ((), s'))"
proof (induction "j - k" arbitrary: k s)
  case 0
  then have "k = j" by simp
  then show ?case using poll_stops [OF 0(2)] 0(5) by blast
next
  case (Suc d)
  show ?case
  proof (cases "is_event ev k c")
    case False
    then show ?thesis using poll_stops [OF Suc.prems(1)] by blast
  next
    case True
    have k: "Suc k \<noteq> n" "Suc k \<le> j" "d = j - Suc k" using Suc by auto
    obtain s' where "at_event B n ev (Suc k) c s'" "poll_events b translate call s = poll_events b translate call s'"
      using poll_step [OF Suc.prems(1) True call tr wr] k(1) by auto
    then show ?thesis using Suc.hyps(1) [OF k(3) _ k(2)] Suc.prems(3,4) by simp
  qed
qed

lemma poll_wraps:
  assumes call: "leaves_events B n call" and tr: "\<forall>va h. \<exists>pa h'. translate va h = Inr (pa, h')"
    and wr: "\<forall>a v d. \<exists>d'. bus_write64 b a v d = Inr ((), d')"
  shows "at_event B n ev k c s \<Longrightarrow> (\<And>i. k \<le> i \<Longrightarrow> i < n \<Longrightarrow> is_event ev i c) \<Longrightarrow>
    \<exists>s'. at_event B n ev 0 (\<not> c) s' \<and> poll_events b translate call s = poll_events b translate call s'"
proof (induction "n - k" arbitrary: k s)
  case 0
  then show ?case by (simp add: at_event_def)
next
  case (Suc d)
  have k: "k < n" using Suc.prems(1) by (simp add: at_event_def)
  then have e: "is_event ev k c" using Suc.prems(2) by simp
  obtain s' where s': "at_event B n ev (if Suc k = n then 0 else Suc k) (if Suc k = n then \<not> c else c) s'"
    "poll_events b translate call s = poll_events b translate call s'"
    using poll_step [OF Suc.prems(1) e call tr wr] by blast
  show ?case
  proof (cases "Suc k = n")
    case True
    then show ?thesis using s' by auto
  next
    case False
    then have "at_event B n ev (Suc k) c s'" "d = n - Suc k" using s'(1) Suc.hyps(2) by simp_all
    moreover have "is_event ev i c" if "Suc k \<le> i" "i < n" for i using Suc.prems(2) that by simp
    ultimately show ?thesis using Suc.hyps(1) [of "Suc k" s'] s'(2) by simp
  qed
qed

text \<open>C38: polling ends. Whatever the event ring contains and wherever the driver is in it, \<open>xhci_poll_events\<close>
  returns 0, provided that the callbacks return and leave the ring alone and that the controller adds
  nothing meanwhile: each lap changes the cycle bit that counts, so that the poller stops within one lap,
  at the latest at the slot it started from.\<close>

theorem xhci_poll_events_ends:
  assumes at: "at_event B n ev k c s" and call: "leaves_events B n call"
    and tr: "\<forall>va h. \<exists>pa h'. translate va h = Inr (pa, h')" and wr: "\<forall>a v d. \<exists>d'. bus_write64 b a v d = Inr ((), d')"
  shows "\<exists>s'. xhci_poll_events b translate call s = Inr (0, s')"
proof -
  have k: "k < n" using at by (simp add: at_event_def)
  have "\<exists>s'. poll_events b translate call s = Some (Inr ((), s'))"
  proof (cases "\<exists>j. k \<le> j \<and> j < n \<and> \<not> is_event ev j c")
    case True
    then show ?thesis by (blast intro: poll_finds_end [OF call tr wr at])
  next
    case False
    then obtain s' where s': "at_event B n ev 0 (\<not> c) s'" "poll_events b translate call s = poll_events b translate call s'"
      using poll_wraps [OF call tr wr at] by metis
    have "is_event ev k c" using False k by blast
    then have "\<not> is_event ev k (\<not> c)" by (simp add: is_event_def)
    then show ?thesis using poll_finds_end [OF call tr wr s'(1) _ k] s'(2) by simp
  qed
  then show ?thesis by (auto simp: xhci_poll_events_def)
qed

definition quiet_bus :: "unit bus" where
  "quiet_bus = \<lparr>bus_read8 = (\<lambda>_. ret 0), bus_read16 = (\<lambda>_. ret 0), bus_read32 = (\<lambda>_. ret 0), bus_read64 = (\<lambda>_. ret 0),
     bus_write8 = (\<lambda>_ _. ret ()), bus_write16 = (\<lambda>_ _. ret ()), bus_write32 = (\<lambda>_ _. ret ()), bus_write64 = (\<lambda>_ _. ret ()),
     bus_map_region = (\<lambda>_ _. ret (0, 0))\<rparr>"

lemma xhci_poll_events_ends_witness:
  "\<forall>s :: (unit, unit) xhci_mem. \<exists>s'. xhci_poll_events quiet_bus (\<lambda>_. ret None) (\<lambda>_ _ _ _ _. ret ())
    (s\<lparr>trbs := (\<lambda>_. Some (zero_trb\<lparr>control := 1\<rparr>)),
       event_ring := zero_ring\<lparr>tr_base_address := 0x1000, tr_dequeue_ptr := 0x1000, tr_ring_size := 256, tr_cycle_bit := 1\<rparr>\<rparr>) = Inr (0, s')"
proof
  fix s :: "(unit, unit) xhci_mem"
  let ?s = "s\<lparr>trbs := (\<lambda>_. Some (zero_trb\<lparr>control := 1\<rparr>)),
       event_ring := zero_ring\<lparr>tr_base_address := 0x1000, tr_dequeue_ptr := 0x1000, tr_ring_size := 256, tr_cycle_bit := 1\<rparr>\<rparr>"
  have at: "at_event 0x1000 256 (\<lambda>_. zero_trb\<lparr>control := 1\<rparr>) 0 True ?s"
    by (simp add: at_event_def zero_ring_def)
  have call: "leaves_events 0x1000 256 (\<lambda>_ _ _ _ _. ret () :: ((unit, unit) xhci_mem, unit) prog)"
    by (simp add: leaves_events_def)
  show "\<exists>s'. xhci_poll_events quiet_bus (\<lambda>_. ret None) (\<lambda>_ _ _ _ _. ret ()) ?s = Inr (0, s')"
    by (rule xhci_poll_events_ends [OF at call]) (simp_all add: quiet_bus_def)
qed

section \<open>The contexts of endpoints\<close>

text \<open>C40: the number of context entries is written with a mask that is one bit too low, so its highest bit is
  lost: the field of the slot context receives the index of the endpoint modulo 16. An endpoint with
  an address from 8 on has an index of at least 16; for the endpoint 8 IN the controller is told that the
  contexts end at the first one. The lower bits of the word are untouched.\<close>

theorem context_entries_lost:
  "drop_bit 27 (slot_context_set_context_entries 0 idx) = (ucast idx AND 0xf) \<and>
   take_bit 26 (slot_context_set_context_entries data0 idx) = take_bit 26 data0 \<and>
   (let d = \<lparr>bEndpointAddress = 0x88, ep_bmAttributes = 3, wMaxPacketSize = 8, bInterval = 8\<rparr> in
    endpoint_index_type d = (17, XHCI_ENDPOINT_TYPE_IN_INTERRUPT) \<and>
    drop_bit 27 (slot_context_set_context_entries 0 (fst (endpoint_index_type d))) = 1)"
proof (intro conjI)
  have m: "bit (0x7C000000 :: u32) i \<longleftrightarrow> 26 \<le> i \<and> i \<le> 30" for i
  proof -
    have "(0x7C000000 :: u32) = push_bit 26 (mask 5)" by (simp add: mask_eq_exp_minus_1)
    then have "bit (0x7C000000 :: u32) i = bit (push_bit 26 (mask 5) :: u32) i" by (rule arg_cong)
    also have "\<dots> \<longleftrightarrow> 26 \<le> i \<and> i \<le> 30" unfolding bit_push_bit_iff bit_mask_iff by auto
    finally show ?thesis .
  qed
  have f: "bit (0xf :: u32) i \<longleftrightarrow> i \<le> 3" for i
  proof -
    have "(0xf :: u32) = mask 4" by (simp add: mask_eq_exp_minus_1)
    then have "bit (0xf :: u32) i = bit (mask 4 :: u32) i" by (rule arg_cong)
    also have "\<dots> \<longleftrightarrow> i \<le> 3" unfolding bit_mask_iff by auto
    finally show ?thesis .
  qed
  have e: "slot_context_set_context_entries data0 idx = (data0 AND NOT 0x7C000000) OR (push_bit 27 (ucast idx) AND 0x7C000000)" for data0
    by (simp add: slot_context_set_context_entries_def clear_and_set_def)
  show "drop_bit 27 (slot_context_set_context_entries 0 idx) = (ucast idx AND 0xf)"
    unfolding e
    by (rule bit_word_eqI, unfold bit_drop_bit_eq comp_apply bit_and_iff bit_or_iff bit_push_bit_iff m f) auto
  show "take_bit 26 (slot_context_set_context_entries data0 idx) = take_bit 26 data0"
    unfolding e by (rule bit_word_eqI, unfold bit_take_bit_iff bit_or_iff bit_and_iff bit_not_iff m bit_push_bit_iff) auto
  show "let d = \<lparr>bEndpointAddress = 0x88, ep_bmAttributes = 3, wMaxPacketSize = 8, bInterval = 8\<rparr> in
    endpoint_index_type d = (17, XHCI_ENDPOINT_TYPE_IN_INTERRUPT) \<and>
    drop_bit 27 (slot_context_set_context_entries 0 (fst (endpoint_index_type d))) = 1"
    by (simp add: endpoint_index_type_def slot_context_set_context_entries_def clear_and_set_def)
qed
section \<open>Control transfers\<close>

lemma no_links [simp]: "\<not> is_link (setup_trb request)" "\<not> is_link (data_trb request page)" "\<not> is_link status_trb"
proof -
  show "\<not> is_link (setup_trb request)"
    by (cases "transfer_type request"; cases "immediate_data_transfer request = 0")
      (simp_all add: is_link_def trb_type_def setup_trb_def Let_def XHCI_TRB_TYPE_SETUP_STAGE_def XHCI_TRB_TYPE_def
        XHCI_TRB_CONTROL_IDT_def XHCI_TRB_CONTROL_TRT_def)
qed (simp_all add: is_link_def trb_type_def data_trb_def status_trb_def XHCI_TRB_DATA_STAGE_IN_DIRECTION_def
    XHCI_TRB_TYPE_DATA_STAGE_def XHCI_TRB_CONTROL_IOC_def XHCI_TRB_TYPE_STATUS_STAGE_def XHCI_TRB_TYPE_def)

definition ep0_holds :: "('h, 'd, 'z) xhci_mem_scheme \<Rightarrow> xhci_device \<Rightarrow> allocated_page \<Rightarrow> consumer \<Rightarrow> trb list \<Rightarrow> bool" where
  "ep0_holds s dev page c q \<longleftrightarrow> ring_queue (trbs s) (ep0_transfer_ring dev) page 255 c q"

lemma ep0_enqueue_run:
  assumes "ep0_holds s dev page c q" "length q < 255" "\<not> is_link t"
  obtains r m where "xhci_ep0_transfer_ring_enqueue dev t s = Inr (dev\<lparr>ep0_transfer_ring := r\<rparr>, s\<lparr>trbs := m\<rparr>)"
    "ring_queue m r page 255 c (q @ [t])"
proof -
  obtain r m where "xhci_transfer_ring_enqueue (ep0_transfer_ring dev) t s = Inr (r, s\<lparr>trbs := m\<rparr>)"
    "ring_queue m r page 255 c (q @ [t])"
    using enqueue_queue [OF assms(1) [unfolded ep0_holds_def] assms(2,3)] by blast
  then show thesis by (intro that [of r m]) (simp_all add: xhci_ep0_transfer_ring_enqueue_def ep0_holds_def)
qed

definition jobs_of :: "device_state list \<Rightarrow> u8 \<Rightarrow> nat \<Rightarrow> transfer_job list" where
  "jobs_of ds slot_no i = transfer_jobs (endpoints (ds ! unat slot_no) ! i)"

lemma enqueue_job_run:
  assumes "i < length (endpoints (xdevices s ! unat slot_no))" "length (xdevices s) = 256" "length (jobs_of (xdevices s) slot_no i) < 256"
  obtains ds where "enqueue_job slot_no i job s = Inr ((), s\<lparr>xdevices := ds\<rparr>)"
    "jobs_of ds slot_no i = jobs_of (xdevices s) slot_no i @ [job]"
proof -
  have "unat slot_no < 2 ^ LENGTH(8)" by (rule unsigned_less)
  then have sl: "unat slot_no < 256" by simp
  let ?eps = "endpoints (xdevices s ! unat slot_no)"
  let ?ds = "(xdevices s)[unat slot_no := (xdevices s ! unat slot_no)\<lparr>endpoints := ?eps[i := \<lparr>transfer_jobs = jobs_of (xdevices s) slot_no i @ [job]\<rparr>]\<rparr>]"
  have "enqueue_job slot_no i job s = Inr ((), s\<lparr>xdevices := ?ds\<rparr>)"
    using assms by (simp add: enqueue_job_def update_device_def XHCI_MAX_NUM_TRANSFER_JOBS_def jobs_of_def)
  then show thesis by (rule that) (use assms sl in \<open>simp add: jobs_of_def\<close>)
qed

text \<open>What all control transfers need of the driver: a slot, room for a job, and registers that can be written.\<close>

definition can_transfer :: "'d bus \<Rightarrow> ('h, 'd, 'z) xhci_mem_scheme \<Rightarrow> xhci_device \<Rightarrow> bool" where
  "can_transfer b s dev \<longleftrightarrow> length (xdevices s) = 256 \<and> 0 < length (endpoints (xdevices s ! unat (slot_id dev))) \<and>
     length (jobs_of (xdevices s) (slot_id dev) 0) < 256 \<and> (\<forall>a v d. \<exists>d'. bus_write32 b a v d = Inr ((), d'))"

lemma doorbell_run:
  assumes "\<forall>a v d. \<exists>d'. bus_write32 b a v d = Inr ((), d')"
  obtains p where "xhci_ep0_ring_doorbell b dev s = Inr ((), s\<lparr>pcie := p\<rparr>)"
proof -
  obtain d' where "bus_write32 b (doorbells_array s + 4 * ucast (ucast (slot_id dev) :: u32)) 0x1 (machine (pcie s)) = Inr ((), d')"
    using assms by blast
  then have "xhci_ep0_ring_doorbell b dev s = Inr ((), s\<lparr>pcie := (pcie s)\<lparr>machine := d'\<rparr>\<rparr>)"
    by (simp add: xhci_ep0_ring_doorbell_def xhci_ring_doorbell_def)
  then show thesis by (rule that)
qed

text \<open>The last steps: status stage, job, doorbell.\<close>

definition finish_control ::
  "'d bus \<Rightarrow> control_transfer_request \<Rightarrow> xhci_device \<Rightarrow> allocated_page \<Rightarrow> u8
     \<Rightarrow> (('h, 'd, 'z) xhci_mem_scheme, int \<times> xhci_device) prog" where
  "finish_control b request dev buffer data =
     bnd (xhci_ep0_transfer_ring_enqueue dev status_trb) (\<lambda>dev.
       thn (enqueue_job (slot_id dev) 0 \<lparr>job_callback = cr_callback request, job_context = cr_callback_context request,
             data_buffer = buffer, transfer_length = ucast (wLength (cr_setup_packet request)), has_data = data\<rparr>)
      (thn (xhci_ep0_ring_doorbell b dev) (ret (0, dev))))"

definition control_job :: "control_transfer_request \<Rightarrow> allocated_page \<Rightarrow> u8 \<Rightarrow> transfer_job" where
  "control_job request buffer data = \<lparr>job_callback = cr_callback request, job_context = cr_callback_context request,
     data_buffer = buffer, transfer_length = ucast (wLength (cr_setup_packet request)), has_data = data\<rparr>"

lemma finish_control_run:
  assumes q: "ep0_holds s dev page c q" "length q < 255" and ok: "can_transfer b s dev"
  obtains s' dev' where "finish_control b request dev buffer data s = Inr ((0, dev'), s')"
    "ep0_holds s' dev' page c (q @ [status_trb])"
    "jobs_of (xdevices s') (slot_id dev) 0 = jobs_of (xdevices s) (slot_id dev) 0 @ [control_job request buffer data]"
    "heap_page_allocated s' = heap_page_allocated s"
proof -
  obtain r m where e: "xhci_ep0_transfer_ring_enqueue dev status_trb s = Inr (dev\<lparr>ep0_transfer_ring := r\<rparr>, s\<lparr>trbs := m\<rparr>)"
    "ring_queue m r page 255 c (q @ [status_trb])"
    by (rule ep0_enqueue_run [OF q no_links(3)]) (rule that)
  let ?s = "s\<lparr>trbs := m\<rparr>" and ?dev = "dev\<lparr>ep0_transfer_ring := r\<rparr>"
  obtain ds where d: "enqueue_job (slot_id dev) 0 (control_job request buffer data) ?s = Inr ((), ?s\<lparr>xdevices := ds\<rparr>)"
    "jobs_of ds (slot_id dev) 0 = jobs_of (xdevices s) (slot_id dev) 0 @ [control_job request buffer data]"
    by (rule enqueue_job_run [of 0 ?s "slot_id dev"]) (use ok in \<open>simp_all add: can_transfer_def\<close>, rule that)
  obtain p where p: "xhci_ep0_ring_doorbell b ?dev (?s\<lparr>xdevices := ds\<rparr>) = Inr ((), ?s\<lparr>xdevices := ds\<rparr>\<lparr>pcie := p\<rparr>)"
    by (rule doorbell_run [of b]) (use ok in \<open>simp add: can_transfer_def\<close>, rule that)
  have "finish_control b request dev buffer data s = Inr ((0, ?dev), ?s\<lparr>xdevices := ds\<rparr>\<lparr>pcie := p\<rparr>)"
    using e(1) d(1) p by (simp add: finish_control_def control_job_def)
  then show thesis by (rule that) (use e(2) d(2) in \<open>simp_all add: ep0_holds_def\<close>)
qed

lemma control_transfer_steps:
  "xhci_control_transfer b translate dev request =
     bnd (xhci_ep0_transfer_ring_enqueue dev (setup_trb request)) (\<lambda>dev.
     if transfer_type request = NO_DATA then finish_control b request dev \<lparr>page_virtual = 0, page_physical = 0\<rparr> 0
     else attempt (xhci_alloc_page translate) (-1, dev) (\<lambda>buffer.
       bnd (xhci_ep0_transfer_ring_enqueue dev (data_trb request buffer)) (\<lambda>dev. finish_control b request dev buffer 1)))"
  by (simp only: xhci_control_transfer_def Let_def finish_control_def)

text \<open>C39: a control transfer puts its stages on the ring of endpoint 0 in order, after what is still outstanding
  there: setup and status for a transfer without data, otherwise setup, data and status, where the data
  stage points to a page of the shared heap that was free and is taken now. One job with the callback and
  that page is queued behind those of the endpoint. When no page is free the transfer fails, and its
  setup stage stays on the ring, without a job and without the stages that belong to it.\<close>

theorem xhci_control_transfer_correct:
  assumes q: "ring_queue (trbs s) (ep0_transfer_ring dev) page 255 c q" "length q \<le> 252"
    and ok: "pages_ok s" "can_transfer b s dev"
    and tr: "\<And>i. i < 512 \<Longrightarrow> translate (shared_page i) (kalloc s) = Inr (Some (pa i), kalloc s)"
  shows "\<exists>r dev' s'. xhci_control_transfer b translate dev request s = Inr ((r, dev'), s') \<and>
    (if transfer_type request = NO_DATA then r = 0 \<and>
       ring_queue (trbs s') (ep0_transfer_ring dev') page 255 c (q @ [setup_trb request, status_trb]) \<and>
       jobs_of (xdevices s') (slot_id dev) 0 = jobs_of (xdevices s) (slot_id dev) 0 @ [control_job request \<lparr>page_virtual = 0, page_physical = 0\<rparr> 0]
     else if free_pages s = {} then r = -1 \<and>
       ring_queue (trbs s') (ep0_transfer_ring dev') page 255 c (q @ [setup_trb request]) \<and>
       jobs_of (xdevices s') (slot_id dev) 0 = jobs_of (xdevices s) (slot_id dev) 0
     else r = 0 \<and> (\<exists>i \<in> free_pages s. free_pages s' = free_pages s - {i} \<and>
       (let buffer = \<lparr>page_virtual = shared_page i, page_physical = pa i\<rparr> in
        ring_queue (trbs s') (ep0_transfer_ring dev') page 255 c (q @ [setup_trb request, data_trb request buffer, status_trb]) \<and>
        jobs_of (xdevices s') (slot_id dev) 0 = jobs_of (xdevices s) (slot_id dev) 0 @ [control_job request buffer 1])))"
proof -
  have h0: "ep0_holds s dev page c q" using q(1) by (simp add: ep0_holds_def)
  obtain r1 m1 where e1: "xhci_ep0_transfer_ring_enqueue dev (setup_trb request) s = Inr (dev\<lparr>ep0_transfer_ring := r1\<rparr>, s\<lparr>trbs := m1\<rparr>)"
    "ring_queue m1 r1 page 255 c (q @ [setup_trb request])"
    by (rule ep0_enqueue_run [OF h0 _ no_links(1)]) (use q(2) in simp, rule that)
  let ?s1 = "s\<lparr>trbs := m1\<rparr>" and ?dev1 = "dev\<lparr>ep0_transfer_ring := r1\<rparr>"
  have h1: "ep0_holds ?s1 ?dev1 page c (q @ [setup_trb request])" using e1(2) by (simp add: ep0_holds_def)
  have ok1: "can_transfer b ?s1 ?dev1" "pages_ok ?s1" "free_pages ?s1 = free_pages s"
    using ok by (simp_all add: can_transfer_def pages_ok_def free_pages_def)
  consider (none) "transfer_type request = NO_DATA" | (full) "transfer_type request \<noteq> NO_DATA" "free_pages s = {}"
    | (data) "transfer_type request \<noteq> NO_DATA" "free_pages s \<noteq> {}" by blast
  then show ?thesis
  proof cases
    case none
    obtain s' dev' where f: "finish_control b request ?dev1 \<lparr>page_virtual = 0, page_physical = 0\<rparr> 0 ?s1 = Inr ((0, dev'), s')"
      "ep0_holds s' dev' page c ((q @ [setup_trb request]) @ [status_trb])"
      "jobs_of (xdevices s') (slot_id ?dev1) 0 = jobs_of (xdevices ?s1) (slot_id ?dev1) 0 @ [control_job request \<lparr>page_virtual = 0, page_physical = 0\<rparr> 0]"
      by (rule finish_control_run [OF h1 _ ok1(1)]) (use q(2) in simp, rule that)
    then show ?thesis using none e1(1) by (auto simp: control_transfer_steps ep0_holds_def)
  next
    case full
    have "xhci_alloc_page translate ?s1 = Inr (None, ?s1)"
      using xhci_alloc_page_run [where translate = translate and pa = pa, OF ok1(2)] tr full(2) ok1(3) by simp
    then show ?thesis using full e1(1) h1 by (auto simp: control_transfer_steps ep0_holds_def)
  next
    case data
    then obtain i where i: "i \<in> free_pages s" "xhci_alloc_page translate ?s1 = Inr (Some \<lparr>page_virtual = shared_page i, page_physical = pa i\<rparr>,
        ?s1\<lparr>heap_page_allocated := (heap_page_allocated ?s1)[i := 1], last_modified_heap_page_idx := of_nat i\<rparr>)" (is "_ = Inr (_, ?s2)")
      using xhci_alloc_page_run [where translate = translate and pa = pa, OF ok1(2)] tr ok1(3) by auto
    let ?buffer = "\<lparr>page_virtual = shared_page i, page_physical = pa i\<rparr>"
    have i512: "i < 512" using i(1) by (simp add: free_pages_def)
    have f2: "free_pages ?s2 = free_pages s - {i}" using pages_ok_update(2) [OF ok1(2) i512, of 1] ok1(3) by simp
    have h2: "ep0_holds ?s2 ?dev1 page c (q @ [setup_trb request])" using e1(2) by (simp add: ep0_holds_def)
    obtain r3 m3 where e3: "xhci_ep0_transfer_ring_enqueue ?dev1 (data_trb request ?buffer) ?s2 = Inr (?dev1\<lparr>ep0_transfer_ring := r3\<rparr>, ?s2\<lparr>trbs := m3\<rparr>)"
      "ring_queue m3 r3 page 255 c ((q @ [setup_trb request]) @ [data_trb request ?buffer])"
      by (rule ep0_enqueue_run [OF h2 _ no_links(2)]) (use q(2) in simp, rule that)
    let ?s3 = "?s2\<lparr>trbs := m3\<rparr>" and ?dev3 = "?dev1\<lparr>ep0_transfer_ring := r3\<rparr>"
    have h3: "ep0_holds ?s3 ?dev3 page c ((q @ [setup_trb request]) @ [data_trb request ?buffer])" using e3(2) by (simp add: ep0_holds_def)
    have ok3: "can_transfer b ?s3 ?dev3" using ok by (simp add: can_transfer_def)
    obtain s' dev' where f: "finish_control b request ?dev3 ?buffer 1 ?s3 = Inr ((0, dev'), s')"
      "ep0_holds s' dev' page c (((q @ [setup_trb request]) @ [data_trb request ?buffer]) @ [status_trb])"
      "jobs_of (xdevices s') (slot_id ?dev3) 0 = jobs_of (xdevices ?s3) (slot_id ?dev3) 0 @ [control_job request ?buffer 1]"
      "heap_page_allocated s' = heap_page_allocated ?s3"
      by (rule finish_control_run [OF h3 _ ok3]) (use q(2) in simp, rule that)
    have fs: "free_pages s' = free_pages s - {i}" using f(4) f2 by (simp add: free_pages_def)
    have run: "xhci_control_transfer b translate dev request s = Inr ((0, dev'), s')"
      unfolding control_transfer_steps using data(1) e1(1) i(2) e3(1) f(1) by simp
    show ?thesis
      using run data fs i(1) f(2,3) by (intro exI [of _ 0] exI [of _ dev'] exI [of _ s']) (auto simp: ep0_holds_def Let_def intro!: bexI [of _ i])
  qed
qed
definition sample_request :: control_transfer_request where
  "sample_request = \<lparr>cr_setup_packet = \<lparr>bmRequestType = 0x80, bRequest = 6, wValue = 0x100, wIndex = 0, wLength = 18\<rparr>,
     cr_callback = 0x4000, cr_callback_context = 0, immediate_data_transfer = 1, transfer_type = IN_DATA\<rparr>"

definition sample_device :: "trb_ring \<Rightarrow> xhci_device" where
  "sample_device ring = \<lparr>slot_id = 1, xd_port_number = 1, input_context_base = \<lparr>page_virtual = 0, page_physical = 0\<rparr>,
     input_context = 0, ep0_transfer_ring = ring\<rparr>"

lemma xhci_control_transfer_correct_witness:
  "\<forall>s :: (unit, unit) xhci_mem. \<exists>r s1 dev' s'. bnd (clear_trbs 0x1000) (\<lambda>_. xhci_transfer_ring_init
       \<lparr>page_virtual = 0x1000, page_physical = 0x2000\<rparr> 256) (zero_driver s) = Inr (r, s1) \<and>
     xhci_control_transfer quiet_bus (\<lambda>va. ret (Some (va - XHCI_HEAP_VIRTUAL_BASE))) (sample_device r) sample_request s1
       = Inr ((0, dev'), s') \<and> length (jobs_of (xdevices s') 1 0) = 1"
proof
  fix s :: "(unit, unit) xhci_mem"
  let ?page = "\<lparr>page_virtual = 0x1000, page_physical = 0x2000\<rparr> :: allocated_page"
  obtain r m where i: "bnd (clear_trbs (page_virtual ?page)) (\<lambda>_. xhci_transfer_ring_init ?page 256) (zero_driver s)
      = Inr (r, (zero_driver s)\<lparr>trbs := m\<rparr>)" "ring_history m r ?page 255 [] 0 0" by (rule ring_init_history)
  let ?s1 = "(zero_driver s)\<lparr>trbs := m\<rparr>"
  obtain T where T: "T = (\<lambda>va :: u64. ret (Some (va - XHCI_HEAP_VIRTUAL_BASE)) :: (unit, u64 option) prog)" by simp
  have q: "ring_queue (trbs ?s1) (ep0_transfer_ring (sample_device r)) ?page 255 \<lparr>c_pointer = page_physical ?page, c_cycle = True\<rparr> []"
    using empty_history_queue [OF i(2)] by (simp add: sample_device_def)
  have ok: "pages_ok ?s1" by (auto simp: pages_ok_def zero_driver_def XHCI_HEAP_MAX_PAGES_def)
  have can: "can_transfer quiet_bus ?s1 (sample_device r)"
    by (simp add: can_transfer_def zero_driver_def sample_device_def quiet_bus_def jobs_of_def XHCI_MAX_NUM_ENDPOINTS_def)
  have tr: "T (shared_page i) (kalloc ?s1) = Inr (Some (of_nat i * 4096), kalloc ?s1)" for i by (simp add: T shared_page_def)
  have "0 \<in> free_pages ?s1" by (simp add: free_pages_def zero_driver_def XHCI_HEAP_MAX_PAGES_def)
  then have f: "free_pages ?s1 \<noteq> {}" by blast
  have d: "transfer_type sample_request \<noteq> NO_DATA" by (simp add: sample_request_def)
  have j: "jobs_of (xdevices ?s1) (slot_id (sample_device r)) 0 = []"
    by (simp add: jobs_of_def zero_driver_def sample_device_def XHCI_MAX_NUM_ENDPOINTS_def)
  have n: "length ([] :: trb list) \<le> 252" by simp
  note R = xhci_control_transfer_correct [where translate = T and pa = "\<lambda>i. of_nat i * 4096" and request = sample_request,
    OF q n ok can tr, unfolded Let_def if_not_P [OF d] if_not_P [OF f]]
  obtain rc dev' s' where run: "xhci_control_transfer quiet_bus T (sample_device r) sample_request ?s1 = Inr ((rc, dev'), s')" "rc = 0"
    "\<exists>i. jobs_of (xdevices s') (slot_id (sample_device r)) 0 = jobs_of (xdevices ?s1) (slot_id (sample_device r)) 0 @
        [control_job sample_request \<lparr>page_virtual = shared_page i, page_physical = of_nat i * 4096\<rparr> 1]"
    using R by blast
  have "length (jobs_of (xdevices s') 1 0) = 1" using run(3) j by (auto simp: sample_device_def)
  then show "\<exists>r s1 dev' s'. bnd (clear_trbs 0x1000) (\<lambda>_. xhci_transfer_ring_init ?page 256) (zero_driver s) = Inr (r, s1) \<and>
     xhci_control_transfer quiet_bus (\<lambda>va. ret (Some (va - XHCI_HEAP_VIRTUAL_BASE))) (sample_device r) sample_request s1
       = Inr ((0, dev'), s') \<and> length (jobs_of (xdevices s') 1 0) = 1"
    unfolding T [symmetric] using i(1) [unfolded allocated_page.select_convs] run(1,2) by blast
qed

end
