(* ===== verification/Spec2Isabelle.thy ===== *)
theory Spec2Isabelle
  imports Prelude Dll Memory Kernel_Heap Heap_Safety Ring_Buffer Kernel_Tasks Hid User_Heap Process_Kernel Text_Input Graphics Xhci_Driver
begin

text \<open>
  A verification development for z-os, a small operating system for 64-bit ARM with a cooperative
  kernel, programs with address spaces of their own, a USB driver stack and a compositor, written
  in C. File names below are relative to \<open>src/\<close>; names of functions, types and fields are those of
  the code wherever Isabelle allows it.

  \<^bold>\<open>The program.\<close> The firmware hands the kernel a map of memory. \<open>kernel/mmap.c\<close> reserves one region of
  it for page tables, builds the kernel's half of the address space (a direct map of physical memory,
  the kernel's image, device windows) with \<open>kernel/vmap.c\<close>, and gives the usable rest to the buddy
  allocator \<open>kernel/page_alloc.c\<close>. The heap (\<open>kernel/kmalloc.c\<close> over \<open>kernel/block_allocator.c\<close>) grows
  page by page: a frame of the page allocator is mapped behind its end. On the heap live the containers
  of \<open>kernel/utils\<close>; on the containers the scheduler, the table of files, channels, input devices and
  files, and processes with their memory maps and shared memory objects. The PCI and xHCI drivers bring
  keyboard and mouse reports, which become input events. Programs have a copy of the block allocator
  over the system call \<open>mmap\<close>, copies of the containers, and a graphics library; the compositor paints
  windows and edits a line of text.

  \<^bold>\<open>How it is modelled.\<close> A C function is a function of the state that returns a value and a new state,
  or a \<open>fault\<close>: an access to memory that holds no such object (\<open>Bad_Access\<close>), a failed \<open>assert\<close>
  (\<open>Assertion_Failed\<close>), or a loop that never ends (\<open>No_Return\<close>); see \<open>Prelude\<close>. Machine integers keep
  their width. Loops whose text has a bound are recursive functions with a termination proof; loops
  without one are \<^theory_text>\<open>partial_function\<close>s into \<open>option\<close>, so that not returning is a value, and every
  theorem about such a function states that it returns (or, for \<open>page_alloc_free\<close>, that it does not);
  no function takes fuel. Structs that are allocated are typed heaps, finite maps from addresses to
  records that are fields of the state; structs that are fields of other structs are values; buffers are
  bytes. States are nested: the containers' state has the allocator's state as its part \<open>backend\<close>, and
  each later component extends the record of the one it builds on.

  \<^bold>\<open>Memory management.\<close>
  \<^item> \<open>Prelude\<close>, \<open>Machine\<close>, \<open>Dll\<close>: the program combinators, physical memory with the translation registers
    and the windows through which a kernel pointer reaches a page table, and doubly linked lists.
  \<^item> \<open>Page_Alloc\<close>: \<open>kernel/page_alloc.c\<close>, refined to lists of free blocks. Blocks handed out are aligned,
    were free and are free no more, and nothing is lost (C1, C2, C7); a merge in \<open>page_alloc_free\<close> does
    not return, because the loop over the buddy's list never advances (C8).
  \<^item> \<open>Vmap\<close>: \<open>kernel/vmap.c\<close>. \<open>walk\<close> is the translation a table stands for; mapping changes it at the
    mapped page or block and nowhere else. \<open>mmu_walk\<close> is the translation of the hardware, written from
    the architecture: two bits of the descriptor give its kind, which depends on the level, the access
    flag must be set, and the region bits of the address select the table register and must agree with
    the translation control register. Tables that the mapping functions build are \<open>proper\<close>: no
    descriptor of them reads differently in the two.
  \<^item> \<open>Mmap\<close>: \<open>kernel/mmap.c\<close>, \<open>mmio.c\<close>, \<open>bump_allocator.c\<close>, \<open>efi_memory_map.c\<close>; the direct map is built
    and complete (C3), device pages are mapped (C5), and after \<open>mmap_apply_mappings\<close> the walk in
    software computes what the hardware translates (C6). \<open>Address_Space\<close>: the tables of processes,
    \<open>kernel/process/address_space.c\<close> (C4). \<open>Memory\<close> holds the properties and the states they are
    applied to.
  \<^item> \<open>Block_Allocator\<close>, \<open>Kernel_Heap\<close>, \<open>Heap_Safety\<close>: the heap. Its blocks tile the region and both
    lists contain what they should; the invariant says that every byte of the heap is backed by a frame
    of its own in the real page tables. Allocations are disjoint and fail only when the pages run out
    (C9); freeing merges and loses nothing (C10). \<open>User_Heap\<close>: libz's copy on the system call \<open>mmap\<close>
    (C24, C25), which asks for a number of bytes that the kernel refuses.

  \<^bold>\<open>Containers.\<close> \<open>Objects\<close> (allocating typed objects and buffers), \<open>Vector\<close>, \<open>Handle_Table\<close> (with
  \<open>process/fd_table.c\<close>), \<open>Linked_List\<close>, \<open>Hash_Table\<close>, \<open>Ring_Buffer\<close>: \<open>kernel/utils\<close>, with an arbitrary
  allocator, each refined to a list, a partial map or a bounded queue. \<open>Containers\<close> instantiates them
  with the kernel's heap and states their properties (C11, C12, C16 to C19). An operation that needs
  memory fails only in a state that \<open>refuses\<close> the block it asks for: on the kernel's heap, when no free
  block fits and the page allocator cannot supply enough pages (\<open>out_of_memory\<close>).

  \<^bold>\<open>Tasks.\<close> \<open>Scheduler\<close>: \<open>thread.c\<close>, \<open>scheduler.c\<close> and what \<open>scheduler.S\<close> saves and restores, as a
  state machine of five events with an invariant on run queue and threads; \<open>Kernel_Tasks\<close> states the
  properties on the kernel's heap (C13 to C15). \<open>Strings\<close>, \<open>Files\<close>, \<open>Channel\<close>, \<open>Input\<close>: the tables of
  files, message channels, and input devices and files, with all their operations. \<open>Process\<close>,
  \<open>Process_Mmap\<close>: loading of programs, memory maps and shared memory (C22, C23), over a record of
  page operations; \<open>Process_Kernel\<close> instantiates the record with the kernel's allocator and tables.

  \<^bold>\<open>Devices and programs.\<close> \<open>Hid\<close>: keyboard and mouse reports (C20, C21). \<open>Pcie\<close>: configuration space
  and the search for a device (C33, C34). \<open>Xhci\<close>, \<open>Xhci_Driver\<close>: the USB host controller, its shared
  pages, rings, commands, transfers and events (C35 to C40); the controller is specified by the
  rules of the xHCI standard for cycle bits and link blocks. \<open>Text_Input\<close>: the line of text (C26 to
  C28). \<open>Graphics\<close>: \<open>libraries/libgfx\<close>, bitmaps and painting (C29 to C32).

  \<^bold>\<open>Interfaces.\<close> A locale states what one component relies on in another, and is interpreted on the
  code's own provider. \<open>direct_map\<close> (page allocator on kernel pointers): \<open>kernel_map\<close> in \<open>Mmap\<close>.
  \<open>page_source\<close> (page tables on a source of table pages): \<open>mmap_pages\<close> in \<open>Mmap\<close>, the bump allocator,
  and \<open>process_pages\<close> in \<open>Address_Space\<close>, the page allocator. \<open>page_supply\<close> (block allocator on a way to
  grow): \<open>kernel_heap\<close> in \<open>Kernel_Heap\<close> and \<open>program_heap\<close> in \<open>User_Heap\<close>. \<open>kernel_allocator\<close> (containers
  on an allocator): a sublocale of \<open>page_supply\<close>, and \<open>heap\<close> in \<open>Containers\<close>. \<open>kernel_tasks\<close> (scheduler
  on allocator and translation registers): \<open>kernel\<close> in \<open>Kernel_Tasks\<close>.

  \<^bold>\<open>Bounds.\<close> The direct map is 16 GB, so frames are below \<open>2 ^ 22\<close>; orders of the page allocator run to
  \<open>MAX_ORDER\<close>; the kernel's heap lies above \<open>HEAP_LOW\<close>, and its invariant carries the room that is left to the end
  of the address space, of which an allocation takes at most its size, a header and a page: this keeps
  the 64-bit sums of \<open>block_allocator_allocate\<close> from wrapping.

  \<^bold>\<open>Not modelled.\<close> Caches, barriers and TLB maintenance; interrupts, whose handler returns at once, and further
  cores, which the kernel does not start: it is entered by system calls and gives up the processor only
  by itself; the parts of the kernel that are
  only input and output (serial port, console, PSCI, the walk over ACPI tables), the enumeration of USB
  devices in \<open>usb_core.c\<close>, the switch over system calls and the exception vectors, the boot loader,
  the rest of the compositor, fonts (stb_truetype is third-party code), and the stubs of libz.
  Registers of devices, the USB controller, callbacks, and what the firmware left in memory are
  parameters. The code's walk ignores bits 48 to 63 of an address, so it answers also for addresses that
  are not canonical, where the hardware faults; C6 is about canonical addresses of both halves.
\<close>

end
